(* ===== verification/Prelude.thy ===== *)
theory Prelude
  imports Main "HOL-Library.Word" "HOL-Library.List_Lexorder"
begin

text \<open>
  The prelude of the development: bytes and byte strings, the crate's error type and
  \<open>Result\<close> (src/src/error.rs), the slice and string operations of the Rust standard
  library that the components use (\<open>position\<close>, \<open>split\<close>, \<open>strip_prefix\<close>,
  \<open>from_utf8\<close>, \<open>trim\<close>, \<open>lines\<close>, integer parsing and printing, big-endian integers), and
  the lemmas about them that the component proofs share.

  Conventions. A byte is an \<open>8 word\<close>, a \<open>Vec<u8>\<close> or \<open>&[u8]\<close> is a list of bytes, and a
  \<open>&str\<close> is a list of bytes as well (its UTF-8 encoding). A cursor into a buffer is the
  list of the bytes that remain. Positions and lengths (\<open>usize\<close>) are \<open>nat\<close> where the
  code cannot overflow them and \<open>64 word\<close> where it can. An error carries the text that
  the source writes; for a formatted message that is the format string.
\<close>

unbundle bit_operations_syntax

section \<open>Bytes, errors and results\<close>

type_synonym byte = "8 word"
type_synonym bytes = "byte list"

text \<open>A Rust byte-string literal, \<open>b"..."\<close> (or the bytes of a \<open>str\<close> literal).\<close>

definition bstr :: "string \<Rightarrow> bytes" where
  "bstr s = map of_char s"

datatype object_type = Blob | Tree | Commit | Tag

datatype object_kind_hint = HintObject bytes | HintReference bytes

datatype error =
    Parse string
  | Compression string
  | InvalidOid string
  | NotFound object_kind_hint
  | UnexpectedType object_type object_type
  | Reference string
  | Pack string
  | Protocol string
  | Config string
  | Io string
  | Unsupported string

datatype 'a result = is_ok: Ok (unwrap: 'a) | is_err: Err (unwrap_err: error)

text \<open>The \<open>?\<close> operator: an error ends the enclosing function.\<close>

definition bind_res :: "'a result \<Rightarrow> ('a \<Rightarrow> 'b result) \<Rightarrow> 'b result" where
  "bind_res r f = (case r of Ok x \<Rightarrow> f x | Err e \<Rightarrow> Err e)"

text \<open>\<open>Option::ok_or\<close>.\<close>

definition ok_or :: "'a option \<Rightarrow> error \<Rightarrow> 'a result" where
  "ok_or x e = (case x of Some v \<Rightarrow> Ok v | None \<Rightarrow> Err e)"

section \<open>Slices\<close>

text \<open>\<open>iter().position(p)\<close>: the index of the first element that satisfies \<open>p\<close>.\<close>

fun position :: "('a \<Rightarrow> bool) \<Rightarrow> 'a list \<Rightarrow> nat option" where
  "position p [] = None"
| "position p (x # xs) = (if p x then Some 0 else map_option Suc (position p xs))"

text \<open>\<open>strip_prefix\<close> on slices.\<close>

fun strip_prefix :: "'a list \<Rightarrow> 'a list \<Rightarrow> 'a list option" where
  "strip_prefix [] xs = Some xs"
| "strip_prefix (p # ps) [] = None"
| "strip_prefix (p # ps) (x # xs) = (if p = x then strip_prefix ps xs else None)"

definition starts_with :: "'a list \<Rightarrow> 'a list \<Rightarrow> bool" where
  "starts_with p xs \<longleftrightarrow> strip_prefix p xs \<noteq> None"

definition ends_with :: "'a list \<Rightarrow> 'a list \<Rightarrow> bool" where
  "ends_with p xs \<longleftrightarrow> strip_prefix (rev p) (rev xs) \<noteq> None"

text \<open>\<open>windows(n).position(|w| w == pat)\<close> and \<open>str::contains\<close>, for a non-empty pattern.\<close>

fun find_sub :: "'a list \<Rightarrow> 'a list \<Rightarrow> nat option" where
  "find_sub pat [] = (if pat = [] then Some 0 else None)"
| "find_sub pat (x # xs) =
     (if starts_with pat (x # xs) then Some 0 else map_option Suc (find_sub pat xs))"

text \<open>\<open>slice.split(|b| b == c)\<close> and \<open>str::split(c)\<close>: one piece more than separators.\<close>

fun split_on :: "'a \<Rightarrow> 'a list \<Rightarrow> 'a list list" where
  "split_on c [] = [[]]"
| "split_on c (x # xs) =
     (if x = c then [] # split_on c xs
      else (case split_on c xs of [] \<Rightarrow> [[x]] | s # ss \<Rightarrow> (x # s) # ss))"

text \<open>\<open>str::split_once(c)\<close>.\<close>

fun split_once :: "'a \<Rightarrow> 'a list \<Rightarrow> ('a list \<times> 'a list) option" where
  "split_once c [] = None"
| "split_once c (x # xs) =
     (if x = c then Some ([], xs)
      else map_option (\<lambda>(a, b). (x # a, b)) (split_once c xs))"

text \<open>\<open>join\<close> of pieces with a one-element separator.\<close>

fun join_with :: "'a \<Rightarrow> 'a list list \<Rightarrow> 'a list" where
  "join_with c [] = []"
| "join_with c [x] = x"
| "join_with c (x # y # ys) = x @ c # join_with c (y # ys)"

text \<open>\<open>str::lines\<close>: split at \<open>\n\<close>, drop the piece after a final newline, strip one \<open>\r\<close>.\<close>

definition strip_cr :: "bytes \<Rightarrow> bytes" where
  "strip_cr l = (if l \<noteq> [] \<and> last l = 13 then butlast l else l)"

fun lines_raw :: "bytes \<Rightarrow> (bytes \<times> bool) list" where
  "lines_raw [] = []"
| "lines_raw (x # xs) =
     (if x = 10 then ([], True) # lines_raw xs
      else (case lines_raw xs of
              [] \<Rightarrow> [([x], False)]
            | (l, t) # ls \<Rightarrow> (x # l, t) # ls))"

definition str_lines :: "bytes \<Rightarrow> bytes list" where
  "str_lines s = map (\<lambda>(l, t). if t then strip_cr l else l) (lines_raw s)"

section \<open>UTF-8 strings\<close>

definition utf8_cont :: "byte \<Rightarrow> bool" where
  "utf8_cont c \<longleftrightarrow> 0x80 \<le> c \<and> c \<le> 0xBF"

text \<open>
  \<open>core::str::from_utf8\<close> succeeds exactly on the byte strings \<open>utf8_valid\<close> accepts:
  sequences of well-formed characters (\<open>utf8_char\<close> reads one off the front).
\<close>

fun utf8_char :: "bytes \<Rightarrow> bytes option" where
  "utf8_char [] = None"
| "utf8_char (c # r) =
     (if c < 0x80 then Some r
      else if 0xC2 \<le> c \<and> c \<le> 0xDF then
        (case r of c1 # r1 \<Rightarrow> if utf8_cont c1 then Some r1 else None | _ \<Rightarrow> None)
      else if 0xE0 \<le> c \<and> c \<le> 0xEF then
        (case r of
           c1 # c2 # r2 \<Rightarrow>
             if utf8_cont c1 \<and> (c = 0xE0 \<longrightarrow> 0xA0 \<le> c1) \<and> (c = 0xED \<longrightarrow> c1 \<le> 0x9F)
                \<and> utf8_cont c2 then Some r2 else None
         | _ \<Rightarrow> None)
      else if 0xF0 \<le> c \<and> c \<le> 0xF4 then
        (case r of
           c1 # c2 # c3 # r3 \<Rightarrow>
             if utf8_cont c1 \<and> (c = 0xF0 \<longrightarrow> 0x90 \<le> c1) \<and> (c = 0xF4 \<longrightarrow> c1 \<le> 0x8F)
                \<and> utf8_cont c2 \<and> utf8_cont c3 then Some r3 else None
         | _ \<Rightarrow> None)
      else None)"

lemma utf8_char_shorter: "utf8_char s = Some r \<Longrightarrow> length r < length s"
  by (cases s) (auto split: if_split_asm list.split_asm)

function utf8_valid :: "bytes \<Rightarrow> bool" where
  "utf8_valid s =
     (s = [] \<or> (case utf8_char s of Some r \<Rightarrow> utf8_valid r | None \<Rightarrow> False))"
  by pat_completeness auto
termination
  by (relation "measure length") (auto dest: utf8_char_shorter)

declare utf8_valid.simps [simp del]

definition from_utf8 :: "bytes \<Rightarrow> error \<Rightarrow> bytes result" where
  "from_utf8 bs e = (if utf8_valid bs then Ok bs else Err e)"

text \<open>
  \<open>String::from_utf8_lossy\<close>: every maximal invalid piece becomes U+FFFD. \<open>utf8_bad\<close> is the
  length of the invalid piece at the front of a string that does not start with a character.
\<close>

fun utf8_bad :: "bytes \<Rightarrow> nat" where
  "utf8_bad (c # c1 # c2 # r) =
     (if 0xE0 \<le> c \<and> c \<le> 0xEF then
        (if utf8_cont c1 \<and> (c = 0xE0 \<longrightarrow> 0xA0 \<le> c1) \<and> (c = 0xED \<longrightarrow> c1 \<le> 0x9F) then 2 else 1)
      else if 0xF0 \<le> c \<and> c \<le> 0xF4 then
        (if utf8_cont c1 \<and> (c = 0xF0 \<longrightarrow> 0x90 \<le> c1) \<and> (c = 0xF4 \<longrightarrow> c1 \<le> 0x8F)
         then (if utf8_cont c2 then 3 else 2) else 1)
      else 1)"
| "utf8_bad [c, c1] =
     (if 0xE0 \<le> c \<and> c \<le> 0xEF then
        (if utf8_cont c1 \<and> (c = 0xE0 \<longrightarrow> 0xA0 \<le> c1) \<and> (c = 0xED \<longrightarrow> c1 \<le> 0x9F) then 2 else 1)
      else if 0xF0 \<le> c \<and> c \<le> 0xF4 then
        (if utf8_cont c1 \<and> (c = 0xF0 \<longrightarrow> 0x90 \<le> c1) \<and> (c = 0xF4 \<longrightarrow> c1 \<le> 0x8F) then 2 else 1)
      else 1)"
| "utf8_bad _ = 1"

lemma utf8_bad_pos: "0 < utf8_bad s"
  by (cases s rule: utf8_bad.cases) auto

function from_utf8_lossy :: "bytes \<Rightarrow> bytes" where
  "from_utf8_lossy s =
     (if s = [] then []
      else case utf8_char s of
        Some r \<Rightarrow> take (length s - length r) s @ from_utf8_lossy r
      | None \<Rightarrow> [0xEF, 0xBF, 0xBD] @ from_utf8_lossy (drop (utf8_bad s) s))"
  by pat_completeness auto
termination
  by (relation "measure length") (auto dest: utf8_char_shorter simp: utf8_bad_pos)

declare from_utf8_lossy.simps [simp del]

text \<open>
  \<open>str::trim\<close> removes the Unicode \<open>White_Space\<close> characters at both ends.
  \<open>ws3\<close> are the three-byte encodings of such characters.
\<close>

definition ascii_ws :: "byte \<Rightarrow> bool" where
  "ascii_ws c \<longleftrightarrow> 9 \<le> c \<and> c \<le> 13 \<or> c = 32"

definition ws3 :: "byte \<Rightarrow> byte \<Rightarrow> byte \<Rightarrow> bool" where
  "ws3 a c d \<longleftrightarrow>
     a = 0xE1 \<and> c = 0x9A \<and> d = 0x80
     \<or> a = 0xE2 \<and> c = 0x80 \<and> (0x80 \<le> d \<and> d \<le> 0x8A \<or> d = 0xA8 \<or> d = 0xA9 \<or> d = 0xAF)
     \<or> a = 0xE2 \<and> c = 0x81 \<and> d = 0x9F
     \<or> a = 0xE3 \<and> c = 0x80 \<and> d = 0x80"

fun trim_start :: "bytes \<Rightarrow> bytes" where
  "trim_start (a # c # d # r) =
     (if ascii_ws a then trim_start (c # d # r)
      else if a = 0xC2 \<and> (c = 0x85 \<or> c = 0xA0) then trim_start (d # r)
      else if ws3 a c d then trim_start r
      else a # c # d # r)"
| "trim_start [a, c] =
     (if ascii_ws a then trim_start [c]
      else if a = 0xC2 \<and> (c = 0x85 \<or> c = 0xA0) then [] else [a, c])"
| "trim_start [a] = (if ascii_ws a then [] else [a])"
| "trim_start [] = []"

text \<open>The same from the other end, on the reversed string.\<close>

fun trim_start_rev :: "bytes \<Rightarrow> bytes" where
  "trim_start_rev (d # c # a # r) =
     (if ascii_ws d then trim_start_rev (c # a # r)
      else if c = 0xC2 \<and> (d = 0x85 \<or> d = 0xA0) then trim_start_rev (a # r)
      else if ws3 a c d then trim_start_rev r
      else d # c # a # r)"
| "trim_start_rev [d, c] =
     (if ascii_ws d then trim_start_rev [c]
      else if c = 0xC2 \<and> (d = 0x85 \<or> d = 0xA0) then [] else [d, c])"
| "trim_start_rev [d] = (if ascii_ws d then [] else [d])"
| "trim_start_rev [] = []"

definition str_trim :: "bytes \<Rightarrow> bytes" where
  "str_trim s = rev (trim_start_rev (rev (trim_start s)))"

section \<open>Decimal integers\<close>

definition is_digit :: "byte \<Rightarrow> bool" where
  "is_digit c \<longleftrightarrow> 48 \<le> c \<and> c \<le> 57"

fun dec_value :: "nat \<Rightarrow> bytes \<Rightarrow> nat option" where
  "dec_value acc [] = Some acc"
| "dec_value acc (c # cs) =
     (if is_digit c then dec_value (10 * acc + unat (c - 48)) cs else None)"

text \<open>\<open>s.parse::<uN>()\<close> for an unsigned type of \<open>n\<close> bits: an optional \<open>+\<close>, then digits.\<close>

definition parse_unsigned :: "nat \<Rightarrow> bytes \<Rightarrow> nat option" where
  "parse_unsigned n s =
     (let ds = (case s of c # r \<Rightarrow> if c = 43 \<and> r \<noteq> [] then r else s | [] \<Rightarrow> s)
      in if ds = [] then None
         else (case dec_value 0 ds of
                 Some v \<Rightarrow> if v < 2 ^ n then Some v else None
               | None \<Rightarrow> None))"

text \<open>\<open>s.parse::<iN>()\<close>: an optional \<open>+\<close> or \<open>-\<close>, then digits.\<close>

definition parse_signed :: "nat \<Rightarrow> bytes \<Rightarrow> int option" where
  "parse_signed n s =
     (let neg = (case s of c # r \<Rightarrow> c = 45 \<and> r \<noteq> [] | [] \<Rightarrow> False);
          ds = (case s of c # r \<Rightarrow> if (c = 43 \<or> c = 45) \<and> r \<noteq> [] then r else s | [] \<Rightarrow> s)
      in if ds = [] then None
         else (case dec_value 0 ds of
                 Some v \<Rightarrow>
                   (let x = (if neg then - int v else int v)
                    in if - (2 ^ (n - 1)) \<le> x \<and> x < 2 ^ (n - 1) then Some x else None)
               | None \<Rightarrow> None))"

text \<open>\<open>to_string\<close> of integers.\<close>

fun dec_of_nat :: "nat \<Rightarrow> bytes" where
  "dec_of_nat n =
     (if n < 10 then [48 + of_nat n] else dec_of_nat (n div 10) @ [48 + of_nat (n mod 10)])"

declare dec_of_nat.simps [simp del]

definition dec_of_int :: "int \<Rightarrow> bytes" where
  "dec_of_int i = (if i < 0 then 45 # dec_of_nat (nat (- i)) else dec_of_nat (nat i))"

section \<open>Big-endian integers\<close>

text \<open>\<open>to_be_bytes\<close> and \<open>from_be_bytes\<close> for the width that the type gives.\<close>

definition be_bytes :: "'a::len word \<Rightarrow> bytes" where
  "be_bytes w = map (\<lambda>i. ucast (drop_bit (8 * i) w)) (rev [0..<LENGTH('a) div 8])"

definition be_word :: "bytes \<Rightarrow> 'a::len word" where
  "be_word bs = foldl (\<lambda>acc c. push_bit 8 acc OR ucast c) 0 bs"


section \<open>Collections and shared lemmas\<close>

text \<open>
  \<open>res_simps\<close> unfolds the result combinators; \<open>codec\<close> collects the equations "decoding an
  encoding gives the value back" of the component theories.
\<close>

named_theorems res_simps
named_theorems codec

declare bind_res_def [res_simps] ok_or_def [res_simps] from_utf8_def [res_simps]

lemma bind_res_Ok [simp]: "bind_res (Ok x) f = f x"
  by (simp add: bind_res_def)

lemma bind_res_Err [simp]: "bind_res (Err e) f = Err e"
  by (simp add: bind_res_def)

lemma bind_res_eq_Ok: "bind_res r f = Ok y \<longleftrightarrow> (\<exists>x. r = Ok x \<and> f x = Ok y)"
  by (cases r) auto

lemma ok_or_simps [simp]: "ok_or (Some v) e = Ok v" "ok_or None e = Err e"
  by (simp_all add: ok_or_def)

lemma ok_or_eq_Ok: "ok_or x e = Ok v \<longleftrightarrow> x = Some v"
  by (cases x) auto

lemma bstr_simps [simp]: "bstr [] = []" "bstr (c # cs) = of_char c # bstr cs"
  by (simp_all add: bstr_def)

lemma bind_res_cong [fundef_cong]:
  "r = r' \<Longrightarrow> (\<And>x. r' = Ok x \<Longrightarrow> f x = f' x) \<Longrightarrow> bind_res r f = bind_res r' f'"
  by (cases r') auto

subsection \<open>Slices\<close>

lemma position_None_iff: "position p xs = None \<longleftrightarrow> (\<forall>x\<in>set xs. \<not> p x)"
  by (induction xs) auto

lemma position_hit:
  "(\<And>x. x \<in> set xs \<Longrightarrow> \<not> p x) \<Longrightarrow> p y \<Longrightarrow> position p (xs @ y # ys) = Some (length xs)"
  by (induction xs) auto

lemma position_SomeD:
  "position p xs = Some i \<Longrightarrow>
     i < length xs \<and> p (xs ! i) \<and> (\<forall>x\<in>set (take i xs). \<not> p x)
     \<and> xs = take i xs @ xs ! i # drop (Suc i) xs"
proof (induction xs arbitrary: i)
  case Nil
  then show ?case by simp
next
  case (Cons x xs)
  show ?case
  proof (cases "p x")
    case True
    with Cons.prems show ?thesis by simp
  next
    case False
    with Cons.prems obtain j where j: "position p xs = Some j" and i: "i = Suc j"
      by auto
    from Cons.IH [OF j] False i show ?thesis by auto
  qed
qed

lemma position_less: "position p xs = Some i \<Longrightarrow> i < length xs"
  by (auto dest: position_SomeD)

lemma position_map: "position p (map f xs) = position (p \<circ> f) xs"
  by (induction xs) auto

lemma strip_prefix_append [simp]: "strip_prefix p (p @ xs) = Some xs"
  by (induction p) auto

lemma strip_prefix_eq_Some: "strip_prefix p xs = Some ys \<longleftrightarrow> xs = p @ ys"
  by (induction p xs rule: strip_prefix.induct) auto

lemma starts_with_iff: "starts_with p xs \<longleftrightarrow> (\<exists>ys. xs = p @ ys)"
  by (auto simp: starts_with_def strip_prefix_eq_Some)

lemma starts_with_append [simp]: "starts_with p (p @ xs)"
  by (auto simp: starts_with_iff)

lemma ends_with_iff: "ends_with p xs \<longleftrightarrow> (\<exists>ys. xs = ys @ p)"
proof
  assume "ends_with p xs"
  then obtain zs where "rev xs = rev p @ zs"
    by (auto simp: ends_with_def strip_prefix_eq_Some)
  then have "xs = rev zs @ p"
    by (metis rev_append rev_rev_ident)
  then show "\<exists>ys. xs = ys @ p" by blast
next
  assume "\<exists>ys. xs = ys @ p"
  then show "ends_with p xs"
    by (auto simp: ends_with_def)
qed

lemma split_on_nonempty [simp]: "split_on c xs \<noteq> []"
  by (induction xs) (auto split: list.splits)

lemma split_on_no_sep: "s \<in> set (split_on c xs) \<Longrightarrow> c \<notin> set s"
  by (induction xs arbitrary: s) (auto split: if_splits list.splits)

lemma split_on_plain: "c \<notin> set xs \<Longrightarrow> split_on c xs = [xs]"
  by (induction xs) auto

lemma split_on_append: "c \<notin> set xs \<Longrightarrow> split_on c (xs @ c # ys) = xs # split_on c ys"
  by (induction xs) auto

lemma join_split: "join_with c (split_on c xs) = xs"
proof (induction xs)
  case Nil
  then show ?case by simp
next
  case (Cons x xs)
  obtain s ss where "split_on c xs = s # ss"
    by (cases "split_on c xs") auto
  with Cons show ?case by (cases ss) auto
qed

lemma split_join:
  "xss \<noteq> [] \<Longrightarrow> (\<And>s. s \<in> set xss \<Longrightarrow> c \<notin> set s) \<Longrightarrow> split_on c (join_with c xss) = xss"
  by (induction c xss rule: join_with.induct) (auto simp: split_on_plain split_on_append)

lemma split_once_append: "c \<notin> set xs \<Longrightarrow> split_once c (xs @ c # ys) = Some (xs, ys)"
  by (induction xs) auto

lemma split_once_None: "split_once c xs = None \<longleftrightarrow> c \<notin> set xs"
  by (induction xs) auto

lemma split_once_SomeD: "split_once c xs = Some (a, r) \<Longrightarrow> xs = a @ c # r \<and> c \<notin> set a"
  by (induction xs arbitrary: a r) (auto split: if_splits)

lemma find_sub_SomeD:
  "find_sub pat xs = Some i \<Longrightarrow> \<exists>ys. xs = take i xs @ pat @ ys \<and> i \<le> length xs"
proof (induction xs arbitrary: i)
  case Nil
  then show ?case by (auto split: if_splits)
next
  case (Cons x xs)
  show ?case
  proof (cases "starts_with pat (x # xs)")
    case True
    with Cons.prems show ?thesis by (auto simp: starts_with_iff)
  next
    case False
    with Cons.prems obtain j where "find_sub pat xs = Some j" and i: "i = Suc j"
      by auto
    with Cons.IH obtain ys where "xs = take j xs @ pat @ ys" "j \<le> length xs" by blast
    with i show ?thesis by auto
  qed
qed

lemma find_sub_least:
  "find_sub pat xs = Some i \<Longrightarrow> j < i \<Longrightarrow> \<not> starts_with pat (drop j xs)"
proof (induction xs arbitrary: i j)
  case Nil
  then show ?case by (auto split: if_splits)
next
  case (Cons x xs)
  then show ?case by (cases j) (auto split: if_splits)
qed

lemma find_sub_None: "find_sub pat xs = None \<Longrightarrow> j \<le> length xs \<Longrightarrow> \<not> starts_with pat (drop j xs)"
proof (induction xs arbitrary: j)
  case Nil
  then show ?case by (auto simp: starts_with_iff split: if_splits)
next
  case (Cons x xs)
  then show ?case by (cases j) (auto split: if_splits)
qed

lemma lines_raw_append:
  "10 \<notin> set l \<Longrightarrow> lines_raw (l @ 10 # r) = (l, True) # lines_raw r"
  by (induction l) auto

lemma str_lines_Nil [simp]: "str_lines [] = []"
  by (simp add: str_lines_def)

lemma str_lines_append:
  "10 \<notin> set l \<Longrightarrow> str_lines (l @ 10 # r) = strip_cr l # str_lines r"
  by (simp add: str_lines_def lines_raw_append)

lemma strip_cr_id: "13 \<notin> set l \<Longrightarrow> strip_cr l = l"
  by (auto simp: strip_cr_def dest: last_in_set)

subsection \<open>UTF-8 and trimming\<close>

lemma utf8_valid_Nil [simp]: "utf8_valid []"
  by (simp add: utf8_valid.simps)

lemma utf8_valid_ascii: "(\<And>c. c \<in> set s \<Longrightarrow> c < 0x80) \<Longrightarrow> utf8_valid s"
  by (induction s) (auto simp: utf8_valid.simps [of "_ # _"])

lemma utf8_char_append: "utf8_char s = Some r \<Longrightarrow> utf8_char (s @ t) = Some (r @ t)"
  by (cases s) (auto split: if_split_asm list.split_asm)

lemma utf8_valid_append: "utf8_valid xs \<Longrightarrow> utf8_valid ys \<Longrightarrow> utf8_valid (xs @ ys)"
proof (induction xs rule: utf8_valid.induct)
  case (1 s)
  show ?case
  proof (cases "s = []")
    case False
    with "1.prems"(1) obtain r where r: "utf8_char s = Some r" "utf8_valid r"
      by (auto simp: utf8_valid.simps [of s] split: option.splits)
    from "1.IH" [OF r(1) r(2) "1.prems"(2)] utf8_char_append [OF r(1), of ys]
    show ?thesis by (simp add: utf8_valid.simps [of "s @ ys"])
  qed (use 1 in simp)
qed

lemma utf8_valid_Cons: "c < 0x80 \<Longrightarrow> utf8_valid (c # s) \<longleftrightarrow> utf8_valid s"
  by (simp add: utf8_valid.simps [of "c # s"])

lemma utf8_char_suffix: "utf8_char s = Some r \<Longrightarrow> take (length s - length r) s @ r = s"
  by (cases s rule: utf8_char.cases) (auto split: if_splits list.splits)

lemma lossy_valid: "utf8_valid s \<Longrightarrow> from_utf8_lossy s = s"
proof (induction s rule: utf8_valid.induct)
  case (1 s)
  show ?case
  proof (cases "s = []")
    case False
    with "1.prems" obtain r where r: "utf8_char s = Some r" "utf8_valid r" by (auto simp: utf8_valid.simps [of s] split: option.splits)
    with "1.IH" [OF r] utf8_char_suffix [OF r(1)] False show ?thesis by (simp add: from_utf8_lossy.simps [of s])
  qed (simp add: from_utf8_lossy.simps)
qed

text \<open>Printable ASCII other than the space: no character that trimming can touch.\<close>

definition graphic :: "byte \<Rightarrow> bool" where
  "graphic c \<longleftrightarrow> 33 \<le> c \<and> c \<le> 126"

lemma graphic_not_ws: "graphic c \<Longrightarrow> \<not> ascii_ws c"
  by (auto simp: graphic_def ascii_ws_def word_le_nat_alt)

lemma graphic_small: "graphic c \<Longrightarrow> c < 0x80"
  by (simp add: graphic_def) unat_arith

lemma graphic_neq: "graphic c \<Longrightarrow> c \<noteq> 0xC2 \<and> c \<noteq> 0xE1 \<and> c \<noteq> 0xE2 \<and> c \<noteq> 0xE3
    \<and> c \<noteq> 0x85 \<and> c \<noteq> 0xA0"
  by (auto simp: graphic_def)

lemma graphic_not_ws3: "graphic d \<Longrightarrow> \<not> ws3 a c d" "graphic a \<Longrightarrow> \<not> ws3 a c d"
  by (auto simp: graphic_def ws3_def word_le_nat_alt)

lemma trim_start_graphic: "s \<noteq> [] \<Longrightarrow> graphic (hd s) \<Longrightarrow> trim_start s = s"
  by (cases s rule: trim_start.cases)
    (auto simp: graphic_not_ws graphic_not_ws3 dest: graphic_neq)

lemma trim_start_rev_graphic: "s \<noteq> [] \<Longrightarrow> graphic (hd s) \<Longrightarrow> trim_start_rev s = s"
  by (cases s rule: trim_start_rev.cases)
    (auto simp: graphic_not_ws graphic_not_ws3 dest: graphic_neq)

lemma str_trim_graphic: "s \<noteq> [] \<Longrightarrow> graphic (hd s) \<Longrightarrow> graphic (last s) \<Longrightarrow> str_trim s = s"
  by (simp add: str_trim_def trim_start_graphic trim_start_rev_graphic hd_rev)

lemma str_trim_all_graphic: "(\<And>c. c \<in> set s \<Longrightarrow> graphic c) \<Longrightarrow> str_trim s = s"
  by (cases "s = []") (simp add: str_trim_def, simp add: str_trim_graphic)


subsection \<open>Integers\<close>

lemma is_digit_dec: "d < 10 \<Longrightarrow> is_digit (48 + of_nat d)"
  by (simp add: is_digit_def word_le_nat_alt unat_word_ariths unat_of_nat)

lemma unat_dec: "d < 10 \<Longrightarrow> unat (of_nat d :: byte) = d"
  by (simp add: unat_of_nat)

lemma dec_value_append:
  "dec_value a (xs @ ys) = (case dec_value a xs of Some v \<Rightarrow> dec_value v ys | None \<Rightarrow> None)"
  by (induction xs arbitrary: a) auto

lemma dec_of_nat_digits: "c \<in> set (dec_of_nat n) \<Longrightarrow> is_digit c"
proof (induction n rule: dec_of_nat.induct)
  case (1 n)
  then show ?case
    by (cases "n < 10") (auto simp: dec_of_nat.simps [of n] intro!: is_digit_dec)
qed

lemma dec_of_nat_nonempty [simp]: "dec_of_nat n \<noteq> []"
  by (simp add: dec_of_nat.simps [of n])

lemma dec_value_dec_of_nat [codec]: "dec_value 0 (dec_of_nat n) = Some n"
proof (induction n rule: dec_of_nat.induct)
  case (1 n)
  show ?case
  proof (cases "n < 10")
    case True
    then show ?thesis
      by (simp add: dec_of_nat.simps [of n] is_digit_dec unat_dec)
  next
    case False
    with 1 show ?thesis
      by (simp add: dec_of_nat.simps [of n] dec_value_append is_digit_dec unat_dec)
  qed
qed

lemma is_digit_neq: "is_digit c \<Longrightarrow> c \<noteq> 43 \<and> c \<noteq> 45 \<and> c \<noteq> 32 \<and> c \<noteq> 0 \<and> c \<noteq> 10 \<and> c \<noteq> 62"
  by (auto simp: is_digit_def)

lemma is_digit_graphic: "is_digit c \<Longrightarrow> graphic c"
  by (simp add: is_digit_def graphic_def word_le_nat_alt)

lemma is_digit_small: "is_digit c \<Longrightarrow> c < 0x80"
  by (simp add: is_digit_def word_le_nat_alt word_less_nat_alt)

lemma dec_of_nat_small: "c \<in> set (dec_of_nat n) \<Longrightarrow> c < 0x80"
  by (rule is_digit_small [OF dec_of_nat_digits])

lemma dec_of_nat_hd: "dec_of_nat n = c # r \<Longrightarrow> c \<noteq> 43 \<and> c \<noteq> 45"
  using dec_of_nat_digits [of c n] is_digit_neq by simp

lemma parse_unsigned_dec [codec]: "v < 2 ^ n \<Longrightarrow> parse_unsigned n (dec_of_nat v) = Some v"
proof -
  assume v: "v < 2 ^ n"
  obtain c r where c: "dec_of_nat v = c # r"
    by (cases "dec_of_nat v") auto
  then have "c \<noteq> 43" and "dec_value 0 (c # r) = Some v"
    using dec_value_dec_of_nat [of v] by (auto dest: dec_of_nat_hd)
  with v c show ?thesis by (simp add: parse_unsigned_def del: dec_value.simps)
qed

lemma parse_unsigned_bound: "parse_unsigned n s = Some v \<Longrightarrow> v < 2 ^ n"
  by (auto simp: parse_unsigned_def Let_def split: if_splits option.splits)

lemma parse_signed_dec [codec]:
  assumes "- (2 ^ (n - 1)) \<le> i" and "i < 2 ^ (n - 1)"
  shows "parse_signed n (dec_of_int i) = Some i"
proof (cases "i < 0")
  case True
  with assms show ?thesis
    by (simp add: parse_signed_def dec_of_int_def codec)
next
  case False
  obtain c r where c: "dec_of_nat (nat i) = c # r"
    by (cases "dec_of_nat (nat i)") auto
  from c have "c \<noteq> 43" "c \<noteq> 45" by (auto dest: dec_of_nat_hd)
  moreover have "dec_value 0 (c # r) = Some (nat i)"
    using dec_value_dec_of_nat [of "nat i"] c by simp
  ultimately show ?thesis
    using assms False c by (simp add: parse_signed_def dec_of_int_def del: dec_value.simps)
qed

lemma dec_of_int_chars: "c \<in> set (dec_of_int i) \<Longrightarrow> is_digit c \<or> c = 45"
  by (auto simp: dec_of_int_def dest: dec_of_nat_digits split: if_splits)

lemma length_be_bytes [simp]: "length (be_bytes (w :: 'a::len word)) = LENGTH('a) div 8"
  by (simp add: be_bytes_def)

lemma be_word_prefix:
  fixes w :: "'a::len word"
  assumes "8 * m = LENGTH('a)" and "k \<le> m"
  shows "be_word (map (\<lambda>i. ucast (drop_bit (8 * i) w)) (rev [m - k..<m])) = drop_bit (8 * (m - k)) w"
  using assms(2)
proof (induction k)
  case 0
  have "drop_bit (8 * m) w = 0"
    by (rule bit_word_eqI) (simp add: bit_simps assms(1))
  then show ?case by (simp add: be_word_def)
next
  case (Suc k)
  then have "rev [m - Suc k..<m] = rev [m - k..<m] @ [m - Suc k]"
    by (simp add: upt_conv_Cons Suc_diff_Suc)
  moreover have "push_bit 8 (drop_bit (8 * (m - k)) w)
      OR ucast (ucast (drop_bit (8 * (m - Suc k)) w) :: byte) = drop_bit (8 * (m - Suc k)) w"
  proof (rule bit_word_eqI)
    fix n
    assume n: "n < LENGTH('a)"
    have eq: "8 * (m - k) + (n - 8) = 8 * (m - Suc k) + n" if "8 \<le> n"
      using that Suc.prems by simp
    have less: "8 * (m - Suc k) + n < LENGTH('a)" if "n < 8"
      using that Suc.prems assms(1) by simp
    show "bit (push_bit 8 (drop_bit (8 * (m - k)) w)
      OR ucast (ucast (drop_bit (8 * (m - Suc k)) w) :: byte)) n
      = bit (drop_bit (8 * (m - Suc k)) w) n"
      using n eq less by (cases "n < 8") (auto simp: bit_simps not_less)
  qed
  ultimately show ?case
    using Suc by (simp add: be_word_def)
qed

lemma be_word_be_bytes [codec]:
  "8 dvd LENGTH('a) \<Longrightarrow> be_word (be_bytes (w :: 'a::len word)) = w"
  using be_word_prefix [of "LENGTH('a) div 8" "LENGTH('a) div 8" w]
  by (simp add: be_bytes_def)

lemma be_word_append: "be_word (xs @ [c]) = push_bit 8 (be_word xs) OR ucast c"
  by (simp add: be_word_def)

lemma be_word16 [codec]: "be_word (be_bytes (w :: 16 word)) = w"
  and be_word32 [codec]: "be_word (be_bytes (v :: 32 word)) = v"
  and be_word64 [codec]: "be_word (be_bytes (u :: 64 word)) = u"
  by (simp_all add: be_word_be_bytes)

lemma length_be [simp]:
  "length (be_bytes (a :: 16 word)) = 2" "length (be_bytes (c :: 32 word)) = 4"
  "length (be_bytes (d :: 64 word)) = 8"
  by simp_all


subsection \<open>Bit fields of words\<close>

lemma and_mask_take_bit:
  fixes x :: "'a::len word"
  shows "x AND 0xf = take_bit 4 x" "x AND 0x7f = take_bit 7 x" "x AND 0xff = take_bit 8 x"
  by (simp_all add: take_bit_eq_mask mask_eq_exp_minus_1)

lemma unat_take_bit: "unat (take_bit n (w :: 'a::len word)) = unat w mod 2 ^ n"
  by (subst unsigned_take_bit_eq) (simp add: take_bit_eq_mod)

lemma unat_drop_bit: "unat (drop_bit n (w :: 'a::len word)) = unat w div 2 ^ n"
  by (subst unat_drop_bit_eq) (simp add: drop_bit_eq_div)

lemma take_bit_small: "unat (w :: 'a::len word) < 2 ^ n \<Longrightarrow> take_bit n w = w"
  by (simp add: word_unat_eq_iff unat_take_bit)

lemma bit_small: "unat (w :: 'a::len word) < 2 ^ n \<Longrightarrow> bit w m \<Longrightarrow> m < n"
  by (metis bit_take_bit_iff take_bit_small)

lemma drop_bit_join:
  fixes x y :: "'a::len word"
  assumes "unat y < 2 ^ n" and "unat x < 2 ^ (LENGTH('a) - n)"
  shows "drop_bit n (push_bit n x OR y) = x" and "take_bit n (push_bit n x OR y) = y"
proof -
  have x: "bit x m \<Longrightarrow> m + n < LENGTH('a)" for m
    using bit_small [OF assms(2)] by fastforce
  show "drop_bit n (push_bit n x OR y) = x"
    by (rule bit_word_eqI) (auto simp: bit_simps dest: bit_small [OF assms(1)] x)
  show "take_bit n (push_bit n x OR y) = y"
    by (rule bit_word_eqI) (auto simp: bit_simps dest: bit_small [OF assms(1)])
qed

lemma unat_less_bits: "(\<And>m. bit (w :: 'a::len word) m \<Longrightarrow> m < n) \<Longrightarrow> unat w < 2 ^ n"
proof -
  assume "\<And>m. bit w m \<Longrightarrow> m < n"
  then have "take_bit n w = w" by (intro bit_word_eqI) (auto simp: bit_simps)
  then have "unat w = unat w mod 2 ^ n" by (metis unat_take_bit)
  then show ?thesis using mod_less_divisor [of "2 ^ n" "unat w"] by simp
qed

lemma unat_join:
  fixes x y :: "'a::len word"
  assumes "unat x < 2 ^ m" and "unat y < 2 ^ n"
  shows "unat (push_bit n x OR y) < 2 ^ (m + n)"
  by (rule unat_less_bits) (auto simp: bit_simps dest: bit_small [OF assms(1)] bit_small [OF assms(2)])

lemma join_take_drop: "push_bit n (drop_bit n w) OR take_bit n w = (w :: 'a::len word)"
  by (rule bit_word_eqI) (auto simp: bit_simps)

lemma unat_byte: "unat (c :: byte) < 256"
  using unsigned_less [where ?'a = nat and w = c] by simp

end
