(* ===== verification/Oid.thy ===== *)
theory Oid
  imports Prelude
begin

text \<open>
  Object ids and object naming: src/src/oid.rs (\<open>HashAlgo\<close>, \<open>ObjectId\<close>) and
  src/src/hash.rs (the loose header, \<open>hash_object\<close>, \<open>verify\<close>), with the \<open>ObjectType\<close>
  keywords of src/src/object/mod.rs that the header needs.

  An \<open>ObjectId\<close> keeps its significant bytes only: the code stores them in a 32-byte
  buffer whose tail every constructor fills with zeros and no operation reads. The digest
  functions come from the crate \<open>purecrypto\<close>; they are the parameter \<open>dg\<close> of the
  definitions here, and what the code relies on is \<open>digest_ok dg\<close>: a digest has the
  algorithm's length.
\<close>

section \<open>Hash algorithms and ids\<close>

datatype hash_algo = Sha1 | Sha256

fun raw_len :: "hash_algo \<Rightarrow> nat" where
  "raw_len Sha1 = 20"
| "raw_len Sha256 = 32"

definition hex_len :: "hash_algo \<Rightarrow> nat" where
  "hex_len a = raw_len a * 2"

fun algo_name :: "hash_algo \<Rightarrow> bytes" where
  "algo_name Sha1 = bstr ''sha1''"
| "algo_name Sha256 = bstr ''sha256''"

datatype object_id = ObjectId (oid_algo: hash_algo) (as_bytes: bytes)

definition wf_oid :: "object_id \<Rightarrow> bool" where
  "wf_oid i \<longleftrightarrow> length (as_bytes i) = raw_len (oid_algo i)"

definition from_bytes :: "hash_algo \<Rightarrow> bytes \<Rightarrow> object_id result" where
  "from_bytes a raw =
     (if length raw \<noteq> raw_len a then Err (InvalidOid ''{} id must be {} bytes, got {}'')
      else Ok (ObjectId a raw))"

definition hex_val :: "byte \<Rightarrow> byte result" where
  "hex_val c =
     (if 48 \<le> c \<and> c \<le> 57 then Ok (c - 48)
      else if 97 \<le> c \<and> c \<le> 102 then Ok (c - 97 + 10)
      else if 65 \<le> c \<and> c \<le> 70 then Ok (c - 65 + 10)
      else Err (InvalidOid ''non-hex character {:?} in object id''))"

text \<open>The loop of \<open>decode_hex_into\<close>: two characters per output byte.\<close>

fun decode_hex_into :: "bytes \<Rightarrow> bytes result" where
  "decode_hex_into (h # l # r) =
     bind_res (hex_val h) (\<lambda>hi.
     bind_res (hex_val l) (\<lambda>lo.
     bind_res (decode_hex_into r) (\<lambda>out.
       Ok ((push_bit 4 hi OR lo) # out))))"
| "decode_hex_into _ = Ok []"

definition from_hex :: "hash_algo \<Rightarrow> bytes \<Rightarrow> object_id result" where
  "from_hex a hex =
     (if length hex \<noteq> hex_len a then Err (InvalidOid ''{} id must be {} bytes, got {}'')
      else bind_res (decode_hex_into hex) (\<lambda>raw. Ok (ObjectId a raw)))"

definition zero_oid :: "hash_algo \<Rightarrow> object_id" where
  "zero_oid a = ObjectId a (replicate (raw_len a) 0)"

definition is_zero :: "object_id \<Rightarrow> bool" where
  "is_zero i \<longleftrightarrow> list_all (\<lambda>c. c = 0) (as_bytes i)"

text \<open>The table \<open>HEX\<close>, indexed by a nibble.\<close>

definition hex_digit :: "byte \<Rightarrow> byte" where
  "hex_digit n = bstr ''0123456789abcdef'' ! unat n"

definition hex_lower :: "bytes \<Rightarrow> bytes" where
  "hex_lower bs = concat (map (\<lambda>c. [hex_digit (drop_bit 4 c), hex_digit (c AND 0xf)]) bs)"

definition to_hex :: "object_id \<Rightarrow> bytes" where
  "to_hex i = hex_lower (as_bytes i)"

definition to_hex_short :: "object_id \<Rightarrow> nat \<Rightarrow> bytes" where
  "to_hex_short i n = (let full = to_hex i in take (min n (length full)) full)"

text \<open>Ordering: the length of the algorithm's ids first, then the bytes. \<open>oid_less\<close>
  holds when the code's \<open>cmp\<close> returns \<open>Less\<close>; the instance below makes it the
  order the library's sorting functions and search trees use.\<close>

definition oid_less :: "object_id \<Rightarrow> object_id \<Rightarrow> bool" where
  "oid_less i j \<longleftrightarrow>
     raw_len (oid_algo i) < raw_len (oid_algo j)
     \<or> raw_len (oid_algo i) = raw_len (oid_algo j) \<and> as_bytes i < as_bytes j"

lemma raw_len_inj: "raw_len a = raw_len b \<Longrightarrow> a = b"
  by (cases a; cases b) auto

lemma oid_less_irrefl [simp]: "\<not> oid_less i i"
  by (simp add: oid_less_def)

lemma oid_less_trans: "oid_less i j \<Longrightarrow> oid_less j k \<Longrightarrow> oid_less i k"
  by (auto simp: oid_less_def)

lemma oid_less_linear: "oid_less i j \<or> i = j \<or> oid_less j i"
proof (cases "raw_len (oid_algo i) = raw_len (oid_algo j) \<and> as_bytes i = as_bytes j")
  case True
  then have "i = j" by (intro object_id.expand) (auto dest: raw_len_inj)
  then show ?thesis by simp
next
  case False
  then show ?thesis by (auto simp: oid_less_def neq_iff)
qed

instantiation object_id :: linorder
begin

definition less_object_id :: "object_id \<Rightarrow> object_id \<Rightarrow> bool" where
  "less_object_id i j \<longleftrightarrow> oid_less i j"

definition less_eq_object_id :: "object_id \<Rightarrow> object_id \<Rightarrow> bool" where
  "less_eq_object_id i j \<longleftrightarrow> oid_less i j \<or> i = j"

instance
proof
  fix i j k :: object_id
  show "(i < j) = (i \<le> j \<and> \<not> j \<le> i)"
    using oid_less_trans [of i j i] by (auto simp: less_eq_object_id_def less_object_id_def)
  show "i \<le> i" by (simp add: less_eq_object_id_def)
  show "i \<le> j \<Longrightarrow> j \<le> k \<Longrightarrow> i \<le> k"
    using oid_less_trans [of i j k] by (auto simp: less_eq_object_id_def)
  show "i \<le> j \<Longrightarrow> j \<le> i \<Longrightarrow> i = j"
    using oid_less_trans [of i j i] by (auto simp: less_eq_object_id_def)
  show "i \<le> j \<or> j \<le> i" using oid_less_linear [of i j] by (auto simp: less_eq_object_id_def)
qed

end

text \<open>\<open>u8::to_ascii_lowercase\<close>.\<close>

definition ascii_lower :: "byte \<Rightarrow> byte" where
  "ascii_lower c = (if 65 \<le> c \<and> c \<le> 90 then c + 32 else c)"

section \<open>Naming objects\<close>

fun as_str :: "object_type \<Rightarrow> bytes" where
  "as_str Blob = bstr ''blob''"
| "as_str Tree = bstr ''tree''"
| "as_str Commit = bstr ''commit''"
| "as_str Tag = bstr ''tag''"

definition from_str :: "bytes \<Rightarrow> object_type result" where
  "from_str s =
     (if s = bstr ''blob'' then Ok Blob
      else if s = bstr ''tree'' then Ok Tree
      else if s = bstr ''commit'' then Ok Commit
      else if s = bstr ''tag'' then Ok Tag
      else Err (Parse ''unknown object type {other:?}''))"

text \<open>The loop of \<open>push_decimal\<close> pushes the digits from the last one on.\<close>

fun push_digits :: "nat \<Rightarrow> bytes" where
  "push_digits n = (if 0 < n then (48 + of_nat (n mod 10)) # push_digits (n div 10) else [])"

declare push_digits.simps [simp del]

definition push_decimal :: "bytes \<Rightarrow> nat \<Rightarrow> bytes" where
  "push_decimal buf n = (if n = 0 then buf @ [48] else buf @ rev (push_digits n))"

definition loose_header :: "object_type \<Rightarrow> nat \<Rightarrow> bytes" where
  "loose_header ty len = push_decimal (as_str ty @ [32]) len @ [0]"

type_synonym digest = "hash_algo \<Rightarrow> bytes \<Rightarrow> bytes"

definition digest_ok :: "digest \<Rightarrow> bool" where
  "digest_ok dg \<longleftrightarrow> (\<forall>a d. length (dg a d) = raw_len a)"

text \<open>
  \<open>hash_object\<close>, with \<open>digest_with\<close> inlined: two \<open>update\<close>s digest the concatenation. The
  \<open>expect\<close> on \<open>from_bytes\<close> cannot fire under \<open>digest_ok\<close> (\<open>hash_object_from_bytes\<close>).
\<close>

definition hash_object :: "digest \<Rightarrow> hash_algo \<Rightarrow> object_type \<Rightarrow> bytes \<Rightarrow> object_id" where
  "hash_object dg a ty content =
     ObjectId a (dg a (loose_header ty (length content) @ content))"

definition hash_loose_payload :: "digest \<Rightarrow> hash_algo \<Rightarrow> object_type \<Rightarrow> bytes \<Rightarrow> object_id" where
  "hash_loose_payload dg a ty payload = hash_object dg a ty payload"

definition hash_bytes :: "digest \<Rightarrow> hash_algo \<Rightarrow> bytes \<Rightarrow> bytes" where
  "hash_bytes dg a d = dg a d"

definition verify_object :: "digest \<Rightarrow> object_id \<Rightarrow> object_type \<Rightarrow> bytes \<Rightarrow> unit result" where
  "verify_object dg expected ty content =
     (if hash_object dg (oid_algo expected) ty content = expected then Ok ()
      else Err (InvalidOid ''object hash mismatch: expected {expected}, computed {got}''))"

section \<open>Lemmas\<close>

lemma nibble_bounds: "unat (drop_bit 4 (c :: byte)) < 16" "unat (c AND 0xf) < 16"
  using unat_byte [of c] by (simp_all only: unat_drop_bit unat_take_bit and_mask_take_bit) simp_all

lemma nibbles_join: "push_bit 4 (drop_bit 4 (c :: byte)) OR (c AND 0xf) = c"
  by (simp only: and_mask_take_bit join_take_drop)

lemma nibble_split:
  assumes "unat hi < 16" and "unat (lo :: byte) < 16"
  shows "drop_bit 4 (push_bit 4 hi OR lo) = hi" and "(push_bit 4 hi OR lo) AND 0xf = lo"
  using drop_bit_join [of lo 4 hi] assms by (simp_all only: and_mask_take_bit) simp_all

lemma less16_cases:
  assumes "unat (n :: byte) < 16"
  shows "n \<in> {0, 1, 2, 3, 4, 5, 6, 7, 8, 9, 10, 11, 12, 13, 14, 15}"
proof -
  have "unat n \<in> {0, 1, 2, 3, 4, 5, 6, 7, 8, 9, 10, 11, 12, 13, 14, 15}"
  proof -
    have "unat n \<in> set [0..<16]" using assms by simp
    also have "[0..<16::nat] = [0, 1, 2, 3, 4, 5, 6, 7, 8, 9, 10, 11, 12, 13, 14, 15]"
      by code_simp
    finally show ?thesis by simp
  qed
  then show ?thesis by (auto simp: word_unat_eq_iff)
qed

lemma hex_digit_eq: "unat n < 16 \<Longrightarrow> hex_digit n = (if unat n < 10 then 48 + n else 87 + n)"
  by (drule less16_cases) (elim insertE emptyE; simp add: hex_digit_def)

lemma hex_val_digit [codec]: "unat n < 16 \<Longrightarrow> hex_val (hex_digit n) = Ok n"
  by (drule less16_cases) (elim insertE emptyE; simp add: hex_digit_def hex_val_def)

lemma hex_val_bound: "hex_val c = Ok v \<Longrightarrow> unat v < 16"
  by (auto simp: hex_val_def word_le_nat_alt unat_word_ariths unat_sub_if' split: if_splits)

lemma hex_val_lower: "hex_val (ascii_lower c) = hex_val c"
proof (cases "65 \<le> c \<and> c \<le> 90")
  case True
  then have "unat (c + 32) = unat c + 32"
    by (simp add: unat_word_ariths word_le_nat_alt)
  with True show ?thesis
    by (simp add: hex_val_def ascii_lower_def word_le_nat_alt)
next
  case False
  then show ?thesis by (auto simp: ascii_lower_def)
qed

lemma hex_digit_val: "hex_val c = Ok v \<Longrightarrow> hex_digit v = ascii_lower c"
  by (frule hex_val_bound)
    (auto simp: hex_digit_eq hex_val_def ascii_lower_def word_le_nat_alt unat_word_ariths
      unat_sub_if' word_unat_eq_iff split: if_splits)


lemma length_hex_lower [simp]: "length (hex_lower bs) = 2 * length bs"
  by (induction bs) (auto simp: hex_lower_def)

lemma length_to_hex: "wf_oid i \<Longrightarrow> length (to_hex i) = hex_len (oid_algo i)"
  by (simp add: to_hex_def wf_oid_def hex_len_def)

lemma hex_lower_Cons:
  "hex_lower (c # bs) = hex_digit (drop_bit 4 c) # hex_digit (c AND 0xf) # hex_lower bs"
  by (simp add: hex_lower_def)

lemma hex_lower_Nil [simp]: "hex_lower [] = []"
  by (simp add: hex_lower_def)

lemma decode_hex_lower [codec]: "decode_hex_into (hex_lower bs) = Ok bs"
  by (induction bs) (simp_all add: hex_lower_Cons codec nibble_bounds nibbles_join)

lemma decode_hex_sound:
  "decode_hex_into h = Ok bs \<Longrightarrow> even (length h) \<Longrightarrow>
     hex_lower bs = map ascii_lower h \<and> 2 * length bs = length h"
proof (induction h arbitrary: bs rule: decode_hex_into.induct)
  case (1 h l r)
  then obtain hi lo out where v: "hex_val h = Ok hi" "hex_val l = Ok lo"
    and out: "decode_hex_into r = Ok out" and bs: "bs = (push_bit 4 hi OR lo) # out"
    by (auto simp: bind_res_eq_Ok)
  have "unat hi < 16" "unat lo < 16" using v by (auto intro: hex_val_bound)
  then have "drop_bit 4 (push_bit 4 hi OR lo) = hi" "(push_bit 4 hi OR lo) AND 0xf = lo"
    by (rule nibble_split)+
  with 1 v out bs show ?case
    by (simp add: hex_lower_Cons hex_digit_val)
qed auto

lemma decode_hex_lower_case: "decode_hex_into (map ascii_lower h) = decode_hex_into h"
  by (induction h rule: decode_hex_into.induct) (auto simp: hex_val_lower bind_res_def split: result.splits)

lemma hex_digit_graphic: "unat n < 16 \<Longrightarrow> graphic (hex_digit n)"
  by (drule less16_cases) (auto simp: hex_digit_def graphic_def)

lemma hex_lower_graphic: "c \<in> set (hex_lower bs) \<Longrightarrow> graphic c"
  by (induction bs) (auto simp: hex_lower_Cons intro!: hex_digit_graphic nibble_bounds)

lemma to_hex_graphic: "c \<in> set (to_hex i) \<Longrightarrow> graphic c"
  by (simp add: to_hex_def hex_lower_graphic)

lemma to_hex_trim [simp]: "str_trim (to_hex i) = to_hex i"
  by (rule str_trim_all_graphic) (rule to_hex_graphic)

lemma to_hex_utf8 [simp]: "utf8_valid (to_hex i)"
  by (rule utf8_valid_ascii) (rule graphic_small, rule to_hex_graphic)

lemma to_hex_chars: "c \<in> set (to_hex i) \<Longrightarrow> c \<noteq> 10 \<and> c \<noteq> 32 \<and> c \<noteq> 13 \<and> c \<noteq> 0"
  by (drule to_hex_graphic) (auto simp: graphic_def)

lemma to_hex_nonempty: "wf_oid i \<Longrightarrow> to_hex i \<noteq> []"
  by (cases "oid_algo i") (auto dest!: length_to_hex simp: hex_len_def)

lemma from_hex_to_hex [codec]: "wf_oid i \<Longrightarrow> oid_algo i = a \<Longrightarrow> from_hex a (to_hex i) = Ok i"
  by (auto simp: from_hex_def length_to_hex codec to_hex_def [of i, symmetric])
     (auto simp: to_hex_def codec)

lemma from_bytes_as_bytes [codec]:
  "wf_oid i \<Longrightarrow> oid_algo i = a \<Longrightarrow> from_bytes a (as_bytes i) = Ok i"
  by (auto simp: from_bytes_def wf_oid_def)

lemma from_bytes_wf: "from_bytes a raw = Ok i \<Longrightarrow> wf_oid i \<and> oid_algo i = a \<and> as_bytes i = raw"
  by (auto simp: from_bytes_def wf_oid_def split: if_splits)

lemma wf_zero_oid [simp]: "wf_oid (zero_oid a)"
  by (simp add: wf_oid_def zero_oid_def)

lemma push_digits_dec: "0 < n \<Longrightarrow> rev (push_digits n) = dec_of_nat n"
proof (induction n rule: dec_of_nat.induct)
  case (1 n)
  show ?case
  proof (cases "n < 10")
    case True
    with "1.prems" show ?thesis
      by (simp add: push_digits.simps [of n] dec_of_nat.simps [of n] push_digits.simps [of 0])
  next
    case False
    with 1 show ?thesis
      by (simp add: push_digits.simps [of n] dec_of_nat.simps [of n])
  qed
qed

lemma push_decimal_eq: "push_decimal buf n = buf @ dec_of_nat n"
  by (simp add: push_decimal_def push_digits_dec dec_of_nat.simps [of 0])

lemma loose_header_eq: "loose_header ty n = as_str ty @ 32 # dec_of_nat n @ [0]"
  by (simp add: loose_header_def push_decimal_eq)

lemma from_str_as_str [codec]: "from_str (as_str ty) = Ok ty"
  by (cases ty) (simp_all add: from_str_def)

lemma as_str_chars: "c \<in> set (as_str ty) \<Longrightarrow> 97 \<le> c \<and> c \<le> 122"
  by (cases ty) auto

lemma hash_object_from_bytes:
  "digest_ok dg \<Longrightarrow>
     from_bytes a (dg a (loose_header ty (length c) @ c)) = Ok (hash_object dg a ty c)"
  by (simp add: digest_ok_def from_bytes_def hash_object_def)

lemma wf_hash_object: "digest_ok dg \<Longrightarrow> wf_oid (hash_object dg a ty c)"
  by (simp add: digest_ok_def wf_oid_def hash_object_def)

lemma oid_algo_hash_object [simp]: "oid_algo (hash_object dg a ty c) = a"
  by (simp add: hash_object_def)

section \<open>Properties\<close>

text \<open>
  Parsing an id from text: \<open>from_hex\<close> succeeds with id \<open>i\<close> exactly when \<open>i\<close> is an id
  of the algorithm and the text, folded to lower case, is the canonical hex of \<open>i\<close>. So
  both cases are accepted, nothing else is, and \<open>to_hex\<close> round-trips.
\<close>

lemma from_hex_iff:
  "from_hex a h = Ok i \<longleftrightarrow> wf_oid i \<and> oid_algo i = a \<and> map ascii_lower h = to_hex i"
proof
  assume "from_hex a h = Ok i"
  then obtain raw where h: "length h = hex_len a" and r: "decode_hex_into h = Ok raw"
    and i: "i = ObjectId a raw"
    by (auto simp: from_hex_def bind_res_eq_Ok split: if_splits)
  have "even (length h)" by (simp add: h hex_len_def)
  from decode_hex_sound [OF r this] h i show "wf_oid i \<and> oid_algo i = a \<and> map ascii_lower h = to_hex i"
    by (simp add: wf_oid_def to_hex_def hex_len_def)
next
  assume i: "wf_oid i \<and> oid_algo i = a \<and> map ascii_lower h = to_hex i"
  then have "length h = hex_len a"
    by (metis length_map length_to_hex)
  moreover have "decode_hex_into h = Ok (as_bytes i)"
    using i by (metis decode_hex_lower decode_hex_lower_case to_hex_def)
  ultimately show "from_hex a h = Ok i"
    using i by (auto simp: from_hex_def)
qed

end
