(* ===== verification/Object_Tree.thy ===== *)
theory Object_Tree
  imports Oid
begin

text \<open>
  Tree objects: src/src/object/tree.rs. File modes, tree entries, \<open>Tree::parse\<close> and
  \<open>Tree::serialize\<close> with git's ordering of entries, and the guard
  \<open>is_safe_path_component\<close> that checkout and the index rely on.
\<close>

section \<open>File modes\<close>

datatype file_mode = MTree | Regular | Executable | Symlink | Gitlink

fun as_octal :: "file_mode \<Rightarrow> bytes" where
  "as_octal MTree = bstr ''40000''"
| "as_octal Regular = bstr ''100644''"
| "as_octal Executable = bstr ''100755''"
| "as_octal Symlink = bstr ''120000''"
| "as_octal Gitlink = bstr ''160000''"

definition from_octal :: "bytes \<Rightarrow> file_mode result" where
  "from_octal s =
     (if s = bstr ''40000'' \<or> s = bstr ''040000'' then Ok MTree
      else if s = bstr ''100644'' then Ok Regular
      else if s = bstr ''100755'' then Ok Executable
      else if s = bstr ''120000'' then Ok Symlink
      else if s = bstr ''160000'' then Ok Gitlink
      else Err (Parse ''tree: unknown file mode {:?}''))"

fun is_tree :: "file_mode \<Rightarrow> bool" where
  "is_tree MTree = True"
| "is_tree _ = False"

text \<open>The octal constants of the source: \<open>0o170000\<close> is \<open>0xF000\<close>, and so on.\<close>

definition from_mode_bits :: "32 word \<Rightarrow> file_mode result" where
  "from_mode_bits mode =
     (let k = mode AND 0xF000
      in if k = 0x4000 then Ok MTree
         else if k = 0xA000 then Ok Symlink
         else if k = 0xE000 then Ok Gitlink
         else if k = 0x8000 then
           (if mode AND 0x49 \<noteq> 0 then Ok Executable else Ok Regular)
         else Err (Parse ''tree: unrepresentable mode {mode:o}''))"

section \<open>Trees\<close>

record tree_entry =
  te_mode :: file_mode
  te_name :: bytes
  te_id :: object_id

record git_tree =
  tree_entries :: "tree_entry list"

text \<open>The loop of \<open>Tree::parse\<close>, on the payload that remains.\<close>

function tree_parse_loop :: "hash_algo \<Rightarrow> bytes \<Rightarrow> tree_entry list result" where
  "tree_parse_loop a payload =
     (if payload = [] then Ok []
      else (case position (\<lambda>c. c = 32) payload of
        None \<Rightarrow> Err (Parse ''tree: entry missing mode separator'')
      | Some space \<Rightarrow>
          bind_res (from_octal (take space payload)) (\<lambda>mode.
            let rest = drop (space + 1) payload
            in case position (\<lambda>c. c = 0) rest of
                 None \<Rightarrow> Err (Parse ''tree: entry missing name terminator'')
               | Some nul \<Rightarrow>
                   let name = take nul rest;
                       after_name = drop (nul + 1) rest
                   in if name = [] \<or> 47 \<in> set name \<or> 0 \<in> set name then
                        Err (Parse ''tree: entry name is not a single path component'')
                      else if length after_name < raw_len a then
                        Err (Parse ''tree: truncated entry id'')
                      else
                        bind_res (from_bytes a (take (raw_len a) after_name)) (\<lambda>i.
                        bind_res (tree_parse_loop a (drop (raw_len a) after_name)) (\<lambda>es.
                          Ok (\<lparr>te_mode = mode, te_name = name, te_id = i\<rparr> # es))))))"
  by pat_completeness auto
termination
  by (relation "measure (length \<circ> snd)") auto

declare tree_parse_loop.simps [simp del]

definition tree_parse :: "hash_algo \<Rightarrow> bytes \<Rightarrow> git_tree result" where
  "tree_parse a payload =
     bind_res (tree_parse_loop a payload) (\<lambda>es. Ok \<lparr>tree_entries = es\<rparr>)"

text \<open>\<open>cmp_entry_names\<close> compares the effective names; \<open>sort_by\<close> is stable.\<close>

definition effective_name :: "tree_entry \<Rightarrow> bytes" where
  "effective_name e = (if is_tree (te_mode e) then te_name e @ [47] else te_name e)"

definition tree_entry_bytes :: "tree_entry \<Rightarrow> bytes" where
  "tree_entry_bytes e =
     as_octal (te_mode e) @ [32] @ te_name e @ [0] @ as_bytes (te_id e)"

definition tree_serialize :: "git_tree \<Rightarrow> bytes" where
  "tree_serialize t = concat (map tree_entry_bytes (sort_key effective_name (tree_entries t)))"

definition tree_get :: "git_tree \<Rightarrow> bytes \<Rightarrow> tree_entry option" where
  "tree_get t name = find (\<lambda>e. te_name e = name) (tree_entries t)"

section \<open>Safe path components\<close>

definition ascii_eq_ignore_case :: "bytes \<Rightarrow> bytes \<Rightarrow> bool" where
  "ascii_eq_ignore_case a b \<longleftrightarrow>
     length a = length b \<and> list_all (\<lambda>(x, y). ascii_lower x = ascii_lower y) (zip a b)"

text \<open>The loop strips trailing dots and spaces.\<close>

definition is_dot_git_component :: "bytes \<Rightarrow> bool" where
  "is_dot_git_component name =
     (let trimmed = rev (dropWhile (\<lambda>c. c = 46 \<or> c = 32) (rev name))
      in ascii_eq_ignore_case trimmed (bstr ''.git'')
         \<or> ascii_eq_ignore_case name (bstr ''git~1''))"

definition is_safe_path_component :: "bytes \<Rightarrow> bool" where
  "is_safe_path_component name =
     (if name = [] \<or> name = bstr ''.'' \<or> name = bstr ''..'' then False
      else if list_ex (\<lambda>c. c = 47 \<or> c = 92 \<or> c = 0 \<or> c = 58) name then False
      else \<not> is_dot_git_component name)"

section \<open>Lemmas\<close>

text \<open>What a tree entry promises: one path component, and an id of the repository's hash.\<close>

definition wf_tree_entry :: "hash_algo \<Rightarrow> tree_entry \<Rightarrow> bool" where
  "wf_tree_entry a e \<longleftrightarrow>
     te_name e \<noteq> [] \<and> 47 \<notin> set (te_name e) \<and> 0 \<notin> set (te_name e)
     \<and> wf_oid (te_id e) \<and> oid_algo (te_id e) = a"

lemma from_octal_as_octal [codec]: "from_octal (as_octal m) = Ok m"
  by (cases m) (simp_all add: from_octal_def)

lemma as_octal_no_space: "c \<in> set (as_octal m) \<Longrightarrow> c \<noteq> 32"
  by (cases m) auto

lemma position_as_octal:
  "position (\<lambda>c. c = 32) (as_octal m @ 32 # r) = Some (length (as_octal m))"
  by (rule position_hit) (auto dest: as_octal_no_space)

lemma tree_entry_eta [simp]: "\<lparr>te_mode = te_mode e, te_name = te_name e, te_id = te_id e\<rparr> = e"
  by (cases e) simp

lemma tree_parse_loop_entry:
  assumes "wf_tree_entry a e"
  shows "tree_parse_loop a (tree_entry_bytes e @ r) =
    bind_res (tree_parse_loop a r) (\<lambda>es. Ok (e # es))"
proof -
  have nul: "position (\<lambda>c. c = 0) (te_name e @ 0 # as_bytes (te_id e) @ r) = Some (length (te_name e))"
    by (rule position_hit) (use assms in \<open>auto simp: wf_tree_entry_def\<close>)
  have id: "length (as_bytes (te_id e)) = raw_len a" "from_bytes a (as_bytes (te_id e)) = Ok (te_id e)"
    using assms by (auto simp: wf_tree_entry_def wf_oid_def from_bytes_def)
  show ?thesis
    using assms id nul
    by (subst tree_parse_loop.simps)
      (simp add: tree_entry_bytes_def position_as_octal codec wf_tree_entry_def)
qed

lemma tree_parse_loop_concat:
  "(\<And>e. e \<in> set es \<Longrightarrow> wf_tree_entry a e) \<Longrightarrow>
     tree_parse_loop a (concat (map tree_entry_bytes es)) = Ok es"
  by (induction es) (simp_all add: tree_parse_loop_entry tree_parse_loop.simps [of a "[]"])

lemma tree_parse_loop_step:
  assumes "tree_parse_loop a p = Ok es" and "p \<noteq> []"
  obtains e es' r where "es = e # es'" "tree_parse_loop a r = Ok es'" "length r < length p"
    "wf_tree_entry a e"
proof -
  obtain space where sp: "position (\<lambda>c. c = 32) p = Some space"
    using assms by (subst (asm) tree_parse_loop.simps) (cases "position (\<lambda>c. c = 32) p", auto)
  define rest where "rest = drop (space + 1) p"
  obtain mode where m: "from_octal (take space p) = Ok mode"
    using assms sp by (subst (asm) tree_parse_loop.simps) (auto simp: bind_res_eq_Ok)
  obtain nul where nul: "position (\<lambda>c. c = 0) rest = Some nul"
    using assms sp m
    by (subst (asm) tree_parse_loop.simps) (cases "position (\<lambda>c. c = 0) rest", auto simp: rest_def)
  define name where "name = take nul rest"
  define after where "after = drop (nul + 1) rest"
  have g: "name \<noteq> []" "47 \<notin> set name" "0 \<notin> set name" "\<not> length after < raw_len a"
    and b: "bind_res (from_bytes a (take (raw_len a) after)) (\<lambda>i.
        bind_res (tree_parse_loop a (drop (raw_len a) after)) (\<lambda>es.
          Ok (\<lparr>te_mode = mode, te_name = name, te_id = i\<rparr> # es))) = Ok es"
    using assms sp m nul unfolding rest_def name_def after_def
    by (subst (asm) tree_parse_loop.simps; simp add: Let_def split: if_splits)+
  from b obtain i es' where i: "from_bytes a (take (raw_len a) after) = Ok i"
    and es': "tree_parse_loop a (drop (raw_len a) after) = Ok es'"
    and es: "es = \<lparr>te_mode = mode, te_name = name, te_id = i\<rparr> # es'"
    by (auto simp: bind_res_eq_Ok)
  have "length (drop (raw_len a) after) < length p"
    using assms(2) by (simp add: after_def rest_def)
  moreover have "wf_tree_entry a \<lparr>te_mode = mode, te_name = name, te_id = i\<rparr>"
    using g i by (simp add: wf_tree_entry_def from_bytes_wf)
  ultimately show ?thesis using that es es' by blast
qed

lemma tree_parse_loop_wf:
  "tree_parse_loop a p = Ok es \<Longrightarrow> e \<in> set es \<Longrightarrow> wf_tree_entry a e"
proof (induction p arbitrary: es rule: length_induct)
  case (1 p)
  show ?case
  proof (cases "p = []")
    case True
    with "1.prems" show ?thesis by (simp add: tree_parse_loop.simps [of a "[]"])
  next
    case False
    show ?thesis
      by (rule tree_parse_loop_step [OF "1.prems"(1) False]) (use 1 in auto)
  qed
qed

lemma tree_parse_sorted:
  "(\<forall>e\<in>set (tree_entries t). wf_tree_entry a e) \<Longrightarrow>
     tree_parse a (tree_serialize t) = Ok \<lparr>tree_entries = sort_key effective_name (tree_entries t)\<rparr>"
  unfolding tree_parse_def tree_serialize_def
  by (subst tree_parse_loop_concat) auto

lemma ascii_lower_eq_small: "unat x < 65 \<Longrightarrow> ascii_lower c = x \<longleftrightarrow> c = x"
proof (cases "65 \<le> c \<and> c \<le> 90")
  case True
  assume x: "unat x < 65"
  from True have "unat (c + 32) = unat c + 32"
    by (simp add: unat_word_ariths word_le_nat_alt)
  with x True show ?thesis
    by (auto simp: ascii_lower_def word_unat_eq_iff word_le_nat_alt)
qed (auto simp: ascii_lower_def)

lemma ascii_eq_ignore_case_iff: "ascii_eq_ignore_case a b \<longleftrightarrow> map ascii_lower a = map ascii_lower b"
proof (induction a arbitrary: b)
  case Nil
  show ?case by (auto simp: ascii_eq_ignore_case_def)
next
  case (Cons x a)
  then show ?case by (cases b) (auto simp: ascii_eq_ignore_case_def)
qed


lemma dropWhile_decomp:
  "rev (dropWhile P (rev xs)) = ys \<longleftrightarrow>
     (\<exists>zs. xs = ys @ zs \<and> (\<forall>z\<in>set zs. P z)) \<and> (ys \<noteq> [] \<longrightarrow> \<not> P (last ys))"
proof
  assume "rev (dropWhile P (rev xs)) = ys"
  then have d: "dropWhile P (rev xs) = rev ys" by (metis rev_rev_ident)
  have "rev xs = takeWhile P (rev xs) @ rev ys"
    using d by (metis takeWhile_dropWhile_id)
  then have "xs = ys @ rev (takeWhile P (rev xs))"
    by (metis rev_append rev_rev_ident)
  moreover have "ys \<noteq> [] \<longrightarrow> \<not> P (last ys)"
    using d hd_dropWhile [of P "rev xs"] by (auto simp: hd_rev)
  ultimately show "(\<exists>zs. xs = ys @ zs \<and> (\<forall>z\<in>set zs. P z)) \<and> (ys \<noteq> [] \<longrightarrow> \<not> P (last ys))"
    by (metis set_rev set_takeWhileD)
next
  assume "(\<exists>zs. xs = ys @ zs \<and> (\<forall>z\<in>set zs. P z)) \<and> (ys \<noteq> [] \<longrightarrow> \<not> P (last ys))"
  then obtain zs where "xs = ys @ zs" "\<forall>z\<in>set zs. P z" and last: "ys \<noteq> [] \<longrightarrow> \<not> P (last ys)"
    by blast
  then have "dropWhile P (rev xs) = dropWhile P (rev ys)"
    by (simp, intro dropWhile_append2) auto
  also have "\<dots> = rev ys"
    using last by (cases ys rule: rev_cases) auto
  finally show "rev (dropWhile P (rev xs)) = ys" by simp
qed

text \<open>A name that a file system may take for \<open>.git\<close>: \<open>.git\<close> in any case with dots or spaces after it.\<close>

lemma is_dot_git_iff:
  "is_dot_git_component name \<longleftrightarrow>
     (\<exists>sfx. map ascii_lower name = bstr ''.git'' @ sfx \<and> set sfx \<subseteq> {46, 32})
     \<or> map ascii_lower name = bstr ''git~1''"
proof -
  let ?P = "\<lambda>c :: byte. c = 46 \<or> c = 32"
  let ?t = "rev (dropWhile ?P (rev name))"
  have low: "ascii_lower c \<in> {46, 32} \<longleftrightarrow> ?P c" for c
    by (simp add: ascii_lower_eq_small)
  have lit: "map ascii_lower (bstr ''.git'') = bstr ''.git''"
      "map ascii_lower (bstr ''git~1'') = bstr ''git~1''"
    by (simp_all add: ascii_lower_def)
  have "map ascii_lower ?t = bstr ''.git'' \<longleftrightarrow>
      (\<exists>sfx. map ascii_lower name = bstr ''.git'' @ sfx \<and> set sfx \<subseteq> {46, 32})" (is "?L = ?R")
  proof
    assume L: ?L
    obtain zs where zs: "name = ?t @ zs" "\<forall>z\<in>set zs. ?P z"
      using dropWhile_decomp [of ?P name ?t] by blast
    have "map ascii_lower name = map ascii_lower (?t @ zs)"
      using zs(1) by (rule arg_cong)
    also have "\<dots> = bstr ''.git'' @ map ascii_lower zs"
      by (simp only: map_append L)
    finally have "map ascii_lower name = bstr ''.git'' @ map ascii_lower zs" .
    moreover have "set (map ascii_lower zs) \<subseteq> {46, 32}"
      using zs(2) low by auto
    ultimately show ?R by blast
  next
    assume ?R
    then obtain sfx where sfx: "map ascii_lower name = bstr ''.git'' @ sfx" "set sfx \<subseteq> {46, 32}"
      by blast
    then obtain ys zs where n: "name = ys @ zs" "map ascii_lower ys = bstr ''.git''"
        "map ascii_lower zs = sfx"
      by (auto simp: map_eq_append_conv simp del: bstr_simps)
    have z: "\<forall>z\<in>set zs. ?P z" using n(3) sfx(2) low by fastforce
    have "last (map ascii_lower ys) = ascii_lower (last ys)" "ys \<noteq> []"
      using n(2) by (auto simp: last_map)
    then have "\<not> ?P (last ys)" using n(2) low [of "last ys"] by auto
    with n z have "?t = ys" using dropWhile_decomp [of ?P name ys] by blast
    with n show ?L by simp
  qed
  then show ?thesis
    by (simp add: is_dot_git_component_def Let_def ascii_eq_ignore_case_iff lit del: bstr_simps)
qed

section \<open>Properties\<close>

text \<open>
  Writing a tree and parsing it back gives the same entries in git's canonical order
  (by name, a subtree's name compared as if it ended in a slash), for every tree whose
  entries are single path components with ids of the repository's algorithm.
\<close>

theorem tree_roundtrip:
  assumes "\<forall>e\<in>set (tree_entries t). wf_tree_entry a e"
  shows "tree_parse a (tree_serialize t) =
    Ok \<lparr>tree_entries = sort_key effective_name (tree_entries t)\<rparr>"
  using assms by (rule tree_parse_sorted)

theorem tree_roundtrip_witness:
  "tree_parse Sha1 (tree_serialize \<lparr>tree_entries =
     [\<lparr>te_mode = MTree, te_name = bstr ''foo'', te_id = zero_oid Sha1\<rparr>,
      \<lparr>te_mode = Regular, te_name = bstr ''foo.txt'', te_id = zero_oid Sha1\<rparr>]\<rparr>) =
   Ok \<lparr>tree_entries =
     [\<lparr>te_mode = Regular, te_name = bstr ''foo.txt'', te_id = zero_oid Sha1\<rparr>,
      \<lparr>te_mode = MTree, te_name = bstr ''foo'', te_id = zero_oid Sha1\<rparr>]\<rparr>"
  by (subst tree_roundtrip)
    (simp_all add: wf_tree_entry_def effective_name_def, simp add: zero_oid_def)

text \<open>
  C34. Every tree that \<open>Tree::parse\<close> accepts, whatever the bytes, has only entries whose
  name is one non-empty path component (no slash, no NUL) and whose id has the algorithm's
  length; and serializing and parsing it again changes nothing but the order.
\<close>

theorem tree_parse_safe:
  assumes "tree_parse a p = Ok t"
  shows "(\<forall>e\<in>set (tree_entries t). wf_tree_entry a e)
    \<and> tree_parse a (tree_serialize t) = Ok \<lparr>tree_entries = sort_key effective_name (tree_entries t)\<rparr>"
proof -
  have "\<forall>e\<in>set (tree_entries t). wf_tree_entry a e"
    using assms by (auto simp: tree_parse_def bind_res_eq_Ok dest: tree_parse_loop_wf)
  with tree_parse_sorted [OF this] show ?thesis by blast
qed

theorem tree_parse_safe_witness:
  "tree_parse Sha1 (bstr ''040000 d'' @ [0] @ replicate 20 7) =
     Ok \<lparr>tree_entries = [\<lparr>te_mode = MTree, te_name = bstr ''d'', te_id = ObjectId Sha1 (replicate 20 7)\<rparr>]\<rparr>
   \<and> wf_tree_entry Sha1 \<lparr>te_mode = MTree, te_name = bstr ''d'', te_id = ObjectId Sha1 (replicate 20 7)\<rparr>"
proof -
  have p: "tree_parse Sha1 (bstr ''040000 d'' @ [0] @ replicate 20 7) =
     Ok \<lparr>tree_entries = [\<lparr>te_mode = MTree, te_name = bstr ''d'', te_id = ObjectId Sha1 (replicate 20 7)\<rparr>]\<rparr>"
    by code_simp
  show ?thesis using p tree_parse_safe [OF p] by simp
qed

text \<open>
  The guard for names from untrusted trees and indexes: \<open>is_safe_path_component\<close>
  accepts exactly the names that are non-empty, not \<open>.\<close> or \<open>..\<close>, free of slash,
  backslash, NUL and colon, and that no file system maps to \<open>.git\<close> (no \<open>.git\<close> in any
  case followed by dots and spaces, and not the short name \<open>git~1\<close>).
\<close>

theorem is_safe_path_component_iff:
  "is_safe_path_component name \<longleftrightarrow>
     name \<notin> {[], bstr ''.'', bstr ''..''} \<and> set name \<inter> {47, 92, 0, 58} = {}
     \<and> (\<nexists>sfx. map ascii_lower name = bstr ''.git'' @ sfx \<and> set sfx \<subseteq> {46, 32})
     \<and> map ascii_lower name \<noteq> bstr ''git~1''"
  by (auto simp: is_safe_path_component_def is_dot_git_iff list_ex_iff simp del: bstr_simps)

end
