(* ===== verification/Object_Commit.thy ===== *)
theory Object_Commit
  imports Oid
begin

text \<open>
  Signatures, commits and annotated tags: src/src/object/signature.rs,
  src/src/object/commit.rs and src/src/object/tag.rs. The parsers keep the order of
  the source's checks; a loop over header lines is a recursion over the list of lines, with
  the fields found so far as its state.
\<close>

section \<open>Signatures\<close>

record signature =
  sig_name :: bytes
  sig_email :: bytes
  sig_time :: int
  sig_tz :: bytes

definition trim_trailing_space :: "bytes \<Rightarrow> bytes" where
  "trim_trailing_space s = rev (dropWhile (\<lambda>c. c = 32) (rev s))"

definition trim_leading_space :: "bytes \<Rightarrow> bytes" where
  "trim_leading_space s = dropWhile (\<lambda>c. c = 32) s"

definition signature_parse :: "bytes \<Rightarrow> signature result" where
  "signature_parse line =
     bind_res (ok_or (position (\<lambda>c. c = 60) line) (Parse ''signature: missing <'')) (\<lambda>lt.
     bind_res (ok_or (position (\<lambda>c. c = 62) line) (Parse ''signature: missing >'')) (\<lambda>gt.
     if gt < lt then Err (Parse ''signature: > before <'')
     else
       let name = trim_trailing_space (take lt line);
           email = take (gt - (lt + 1)) (drop (lt + 1) line);
           rest = trim_leading_space (drop (gt + 1) line)
       in bind_res (ok_or (position (\<lambda>c. c = 32) rest)
                      (Parse ''signature: missing time/tz separator'')) (\<lambda>sp.
          bind_res (ok_or (if utf8_valid (take sp rest) then parse_signed 64 (take sp rest)
                           else None) (Parse ''signature: invalid timestamp'')) (\<lambda>secs.
          Ok \<lparr>sig_name = name, sig_email = email, sig_time = secs,
              sig_tz = drop (sp + 1) rest\<rparr>))))"

definition signature_bytes :: "signature \<Rightarrow> bytes" where
  "signature_bytes s =
     sig_name s @ bstr '' <'' @ sig_email s @ bstr ''> '' @ dec_of_int (sig_time s)
     @ [32] @ sig_tz s"

section \<open>Commits\<close>

record commit =
  c_tree :: object_id
  c_parents :: "object_id list"
  c_author :: signature
  c_committer :: signature
  c_extra_headers :: bytes
  c_message :: bytes

definition find_double_newline :: "bytes \<Rightarrow> nat option" where
  "find_double_newline d = find_sub [10, 10] d"

text \<open>
  \<open>HeaderLines::next\<close>: the line up to the first newline that no space follows, and what
  remains after that newline.
\<close>

fun header_next :: "bytes \<Rightarrow> bytes \<times> bytes" where
  "header_next [] = ([], [])"
| "header_next (c # r) =
     (if c = 10 \<and> \<not> (r \<noteq> [] \<and> hd r = 32) then ([], r)
      else (let (l, r') = header_next r in (c # l, r')))"

lemma header_next_shorter: "s \<noteq> [] \<Longrightarrow> length (snd (header_next s)) < length s"
proof (induction s rule: header_next.induct)
  case (2 c r)
  then show ?case by (cases "r = []") (auto simp: split_beta)
qed simp

function header_lines :: "bytes \<Rightarrow> bytes list" where
  "header_lines rest =
     (if rest = [] then []
      else fst (header_next rest) # header_lines (snd (header_next rest)))"
  by pat_completeness auto
termination
  by (relation "measure length") (auto dest: header_next_shorter)

declare header_lines.simps [simp del]

definition parse_hex_oid :: "hash_algo \<Rightarrow> bytes \<Rightarrow> object_id result" where
  "parse_hex_oid a v =
     bind_res (from_utf8 v (Parse ''commit: non-utf8 oid'')) (\<lambda>s. from_hex a (str_trim s))"

record commit_fields =
  cf_tree :: "object_id option"
  cf_parents :: "object_id list"
  cf_author :: "signature option"
  cf_committer :: "signature option"
  cf_extra :: bytes

definition commit_line :: "hash_algo \<Rightarrow> commit_fields \<Rightarrow> bytes \<Rightarrow> commit_fields result" where
  "commit_line a st line =
     (case strip_prefix (bstr ''tree '') line of
        Some v \<Rightarrow> bind_res (parse_hex_oid a v) (\<lambda>i. Ok (st\<lparr>cf_tree := Some i\<rparr>))
      | None \<Rightarrow>
     (case strip_prefix (bstr ''parent '') line of
        Some v \<Rightarrow> bind_res (parse_hex_oid a v) (\<lambda>i. Ok (st\<lparr>cf_parents := cf_parents st @ [i]\<rparr>))
      | None \<Rightarrow>
     (case strip_prefix (bstr ''author '') line of
        Some v \<Rightarrow> bind_res (signature_parse v) (\<lambda>s. Ok (st\<lparr>cf_author := Some s\<rparr>))
      | None \<Rightarrow>
     (case strip_prefix (bstr ''committer '') line of
        Some v \<Rightarrow> bind_res (signature_parse v) (\<lambda>s. Ok (st\<lparr>cf_committer := Some s\<rparr>))
      | None \<Rightarrow> Ok (st\<lparr>cf_extra := cf_extra st @ line @ [10]\<rparr>)))))"

fun commit_lines :: "hash_algo \<Rightarrow> commit_fields \<Rightarrow> bytes list \<Rightarrow> commit_fields result" where
  "commit_lines a st [] = Ok st"
| "commit_lines a st (l # ls) = bind_res (commit_line a st l) (\<lambda>st'. commit_lines a st' ls)"

definition commit_parse :: "hash_algo \<Rightarrow> bytes \<Rightarrow> commit result" where
  "commit_parse a payload =
     bind_res (ok_or (find_double_newline payload)
                 (Parse ''commit: missing blank line before message'')) (\<lambda>split.
     let header = take split payload;
         message = drop (split + 2) payload
     in bind_res (commit_lines a \<lparr>cf_tree = None, cf_parents = [], cf_author = None,
                     cf_committer = None, cf_extra = []\<rparr> (header_lines header)) (\<lambda>st.
        bind_res (ok_or (cf_tree st) (Parse ''commit: missing tree'')) (\<lambda>tree.
        bind_res (ok_or (cf_author st) (Parse ''commit: missing author'')) (\<lambda>author.
        bind_res (ok_or (cf_committer st) (Parse ''commit: missing committer'')) (\<lambda>committer.
          Ok \<lparr>c_tree = tree, c_parents = cf_parents st, c_author = author,
              c_committer = committer, c_extra_headers = cf_extra st,
              c_message = message\<rparr>)))))"

definition serialize_with_extra :: "commit \<Rightarrow> bytes \<Rightarrow> bytes" where
  "serialize_with_extra c extra =
     bstr ''tree '' @ to_hex (c_tree c) @ [10]
     @ concat (map (\<lambda>p. bstr ''parent '' @ to_hex p @ [10]) (c_parents c))
     @ bstr ''author '' @ signature_bytes (c_author c) @ [10]
     @ bstr ''committer '' @ signature_bytes (c_committer c) @ [10]
     @ extra @ [10] @ c_message c"

definition commit_serialize :: "commit \<Rightarrow> bytes" where
  "commit_serialize c = serialize_with_extra c (c_extra_headers c)"

text \<open>\<open>physical_lines\<close>: each line with its newline; the last may lack one.\<close>

fun physical_lines :: "bytes \<Rightarrow> bytes list" where
  "physical_lines [] = []"
| "physical_lines (c # r) =
     (if c = 10 then [c] # physical_lines r
      else (case physical_lines r of [] \<Rightarrow> [[c]] | l # ls \<Rightarrow> (c # l) # ls))"

text \<open>The inner loop of \<open>split_signature\<close>: the continuation lines, un-indented.\<close>

fun take_continuation :: "bytes list \<Rightarrow> bytes \<times> bytes list" where
  "take_continuation [] = ([], [])"
| "take_continuation (l # ls) =
     (case strip_prefix [32] l of
        None \<Rightarrow> ([], l # ls)
      | Some rest \<Rightarrow> (let (v, ls') = take_continuation ls in (rest @ v, ls')))"

lemma take_continuation_shorter: "length (snd (take_continuation ls)) \<le> length ls"
  by (induction ls) (auto simp: split_beta split: option.splits)

function split_lines_signature ::
  "bytes list \<Rightarrow> bytes \<Rightarrow> bytes option \<Rightarrow> bytes \<times> bytes option" where
  "split_lines_signature [] without sg = (without, sg)"
| "split_lines_signature (l # ls) without sg =
     (case strip_prefix (bstr ''gpgsig '') l of
        None \<Rightarrow> split_lines_signature ls (without @ l) sg
      | Some first \<Rightarrow>
          split_lines_signature (snd (take_continuation ls)) without
            (Some (first @ fst (take_continuation ls))))"
  by pat_completeness auto
termination
  by (relation "measure (\<lambda>(ls, w, s). length ls)")
    (auto simp: less_Suc_eq_le take_continuation_shorter)

definition split_signature :: "commit \<Rightarrow> (bytes \<times> bytes) option" where
  "split_signature c =
     (case split_lines_signature (physical_lines (c_extra_headers c)) [] None of
        (without, Some sg) \<Rightarrow> Some (without, sg)
      | (_, None) \<Rightarrow> None)"

definition commit_signature :: "commit \<Rightarrow> bytes option" where
  "commit_signature c = map_option snd (split_signature c)"

definition commit_signed_payload :: "commit \<Rightarrow> bytes" where
  "commit_signed_payload c =
     serialize_with_extra c
       (case split_signature c of Some (without, _) \<Rightarrow> without | None \<Rightarrow> c_extra_headers c)"

definition commit_summary :: "commit \<Rightarrow> bytes" where
  "commit_summary c =
     (case position (\<lambda>b. b = 10) (c_message c) of
        Some e \<Rightarrow> take e (c_message c) | None \<Rightarrow> c_message c)"

section \<open>Tags\<close>

record tag =
  t_object :: object_id
  t_object_type :: object_type
  t_name :: bytes
  t_tagger :: "signature option"
  t_message :: bytes

record tag_fields =
  tf_object :: "object_id option"
  tf_type :: "object_type option"
  tf_name :: "bytes option"
  tf_tagger :: "signature option"

definition tag_line :: "hash_algo \<Rightarrow> tag_fields \<Rightarrow> bytes \<Rightarrow> tag_fields result" where
  "tag_line a st line =
     (case strip_prefix (bstr ''object '') line of
        Some v \<Rightarrow>
          bind_res (from_utf8 v (Parse ''tag: non-utf8 oid'')) (\<lambda>s.
          bind_res (from_hex a (str_trim s)) (\<lambda>i. Ok (st\<lparr>tf_object := Some i\<rparr>)))
      | None \<Rightarrow>
     (case strip_prefix (bstr ''type '') line of
        Some v \<Rightarrow>
          bind_res (from_utf8 v (Parse ''tag: non-utf8 type'')) (\<lambda>s.
          bind_res (from_str (str_trim s)) (\<lambda>ty. Ok (st\<lparr>tf_type := Some ty\<rparr>)))
      | None \<Rightarrow>
     (case strip_prefix (bstr ''tag '') line of
        Some v \<Rightarrow> Ok (st\<lparr>tf_name := Some v\<rparr>)
      | None \<Rightarrow>
     (case strip_prefix (bstr ''tagger '') line of
        Some v \<Rightarrow> bind_res (signature_parse v) (\<lambda>s. Ok (st\<lparr>tf_tagger := Some s\<rparr>))
      | None \<Rightarrow> Ok st))))"

fun tag_lines :: "hash_algo \<Rightarrow> tag_fields \<Rightarrow> bytes list \<Rightarrow> tag_fields result" where
  "tag_lines a st [] = Ok st"
| "tag_lines a st (l # ls) = bind_res (tag_line a st l) (\<lambda>st'. tag_lines a st' ls)"

definition tag_parse :: "hash_algo \<Rightarrow> bytes \<Rightarrow> tag result" where
  "tag_parse a payload =
     bind_res (ok_or (find_double_newline payload)
                 (Parse ''tag: missing blank line before message'')) (\<lambda>split.
     let header = take split payload;
         message = drop (split + 2) payload
     in bind_res (tag_lines a \<lparr>tf_object = None, tf_type = None, tf_name = None, tf_tagger = None\<rparr>
                    (split_on 10 header)) (\<lambda>st.
        bind_res (ok_or (tf_object st) (Parse ''tag: missing object'')) (\<lambda>object.
        bind_res (ok_or (tf_type st) (Parse ''tag: missing type'')) (\<lambda>ty.
        bind_res (ok_or (tf_name st) (Parse ''tag: missing tag name'')) (\<lambda>name.
          Ok \<lparr>t_object = object, t_object_type = ty, t_name = name,
              t_tagger = tf_tagger st, t_message = message\<rparr>)))))"

definition serialize_with_message :: "tag \<Rightarrow> bytes \<Rightarrow> bytes" where
  "serialize_with_message t message =
     bstr ''object '' @ to_hex (t_object t) @ [10]
     @ bstr ''type '' @ as_str (t_object_type t) @ [10]
     @ bstr ''tag '' @ t_name t @ [10]
     @ (case t_tagger t of Some s \<Rightarrow> bstr ''tagger '' @ signature_bytes s @ [10] | None \<Rightarrow> [])
     @ [10] @ message"

definition tag_serialize :: "tag \<Rightarrow> bytes" where
  "tag_serialize t = serialize_with_message t (t_message t)"

definition signature_start :: "bytes \<Rightarrow> nat option" where
  "signature_start message =
     (case (find_sub (bstr ''-----BEGIN SSH SIGNATURE-----'') message,
            find_sub (bstr ''-----BEGIN PGP SIGNATURE-----'') message) of
        (Some i, Some j) \<Rightarrow> Some (min i j)
      | (Some i, None) \<Rightarrow> Some i
      | (None, j) \<Rightarrow> j)"

definition tag_signature :: "tag \<Rightarrow> bytes option" where
  "tag_signature t = map_option (\<lambda>i. drop i (t_message t)) (signature_start (t_message t))"

definition tag_signed_payload :: "tag \<Rightarrow> bytes" where
  "tag_signed_payload t =
     (let e = (case signature_start (t_message t) of Some i \<Rightarrow> i | None \<Rightarrow> length (t_message t))
      in serialize_with_message t (take e (t_message t)))"


section \<open>Lemmas\<close>

subsection \<open>Signatures\<close>

text \<open>The signatures git writes: no angle bracket where one ends a field, and a 64-bit time.\<close>

definition wf_signature :: "signature \<Rightarrow> bool" where
  "wf_signature s \<longleftrightarrow>
     60 \<notin> set (sig_name s) \<and> 62 \<notin> set (sig_name s) \<and> 62 \<notin> set (sig_email s)
     \<and> (sig_name s = [] \<or> last (sig_name s) \<noteq> 32)
     \<and> - (2 ^ 63) \<le> sig_time s \<and> sig_time s < 2 ^ 63"

text \<open>A signature without a newline can stand in a header line.\<close>

definition one_line :: "signature \<Rightarrow> bool" where
  "one_line s \<longleftrightarrow> 10 \<notin> set (sig_name s) \<and> 10 \<notin> set (sig_email s) \<and> 10 \<notin> set (sig_tz s)"

lemma dec_of_int_no_space: "c \<in> set (dec_of_int i) \<Longrightarrow> c \<noteq> 32 \<and> c < 0x80 \<and> c \<noteq> 10"
  by (drule dec_of_int_chars) (auto simp: is_digit_def word_le_nat_alt word_less_nat_alt)

lemma dec_of_int_nonempty [simp]: "dec_of_int i \<noteq> []"
  by (simp add: dec_of_int_def)

lemma trim_trailing_space_name:
  "n = [] \<or> last n \<noteq> 32 \<Longrightarrow> trim_trailing_space (n @ [32]) = n"
  by (cases n rule: rev_cases) (auto simp: trim_trailing_space_def)

lemma trim_leading_space_dec:
  "trim_leading_space (32 # dec_of_int i @ r) = dec_of_int i @ r"
proof -
  obtain c d where "dec_of_int i = c # d" by (cases "dec_of_int i") auto
  moreover from this have "c \<noteq> 32" using dec_of_int_no_space [of c i] by auto
  ultimately show ?thesis by (simp add: trim_leading_space_def)
qed

lemma drop_past: "drop (length xs + 1) (xs @ y # ys) = ys"
  by simp

lemma signature_roundtrip_wf [codec]:
  assumes "wf_signature s"
  shows "signature_parse (signature_bytes s) = Ok s"
proof -
  define rest where "rest = dec_of_int (sig_time s) @ 32 # sig_tz s"
  define line where "line = signature_bytes s"
  have l1: "line = (sig_name s @ [32]) @ 60 # sig_email s @ 62 # 32 # rest"
    and l2: "line = (sig_name s @ [32, 60] @ sig_email s) @ 62 # 32 # rest"
    by (simp_all add: line_def signature_bytes_def rest_def)
  have lt: "position (\<lambda>c. c = 60) line = Some (length (sig_name s @ [32]))"
    unfolding l1 by (rule position_hit) (use assms in \<open>auto simp: wf_signature_def\<close>)
  have gt: "position (\<lambda>c. c = 62) line = Some (length (sig_name s @ [32, 60] @ sig_email s))"
    unfolding l2 by (rule position_hit) (use assms in \<open>auto simp: wf_signature_def\<close>)
  have sp: "position (\<lambda>c. c = 32) rest = Some (length (dec_of_int (sig_time s)))"
    unfolding rest_def by (rule position_hit) (auto dest: dec_of_int_no_space)
  have name: "take (length (sig_name s @ [32])) line = sig_name s @ [32]"
    by (simp add: l1)
  have email: "take (length (sig_name s @ [32, 60] @ sig_email s) - (length (sig_name s @ [32]) + 1))
      (drop (length (sig_name s @ [32]) + 1) line) = sig_email s"
    by (simp add: l1)
  have tail: "drop (length (sig_name s @ [32, 60] @ sig_email s) + 1) line = 32 # rest"
    unfolding l2 by (rule drop_past)
  have "utf8_valid (dec_of_int (sig_time s))"
    by (rule utf8_valid_ascii) (auto dest: dec_of_int_no_space)
  moreover have "parse_signed 64 (dec_of_int (sig_time s)) = Some (sig_time s)"
    using assms by (intro parse_signed_dec) (auto simp: wf_signature_def)
  moreover have "trim_leading_space (32 # rest) = rest"
    by (simp add: rest_def trim_leading_space_dec)
  moreover have "trim_trailing_space (sig_name s @ [32]) = sig_name s"
    using assms by (intro trim_trailing_space_name) (auto simp: wf_signature_def)
  moreover have "take (length (dec_of_int (sig_time s))) rest = dec_of_int (sig_time s)"
      "drop (length (dec_of_int (sig_time s)) + 1) rest = sig_tz s"
    by (simp_all add: rest_def)
  ultimately have "signature_parse line = Ok \<lparr>sig_name = sig_name s, sig_email = sig_email s,
      sig_time = sig_time s, sig_tz = sig_tz s\<rparr>"
    unfolding signature_parse_def lt gt ok_or_simps bind_res_Ok name email tail Let_def
    by (simp add: sp)
  then show ?thesis by (simp add: line_def)
qed

lemma signature_bytes_no_newline: "one_line s \<Longrightarrow> 10 \<notin> set (signature_bytes s)"
  by (auto simp: signature_bytes_def one_line_def dest: dec_of_int_no_space)

subsection \<open>Header blocks\<close>

text \<open>
  A header block is a list of lines joined by newlines. \<open>folded\<close> lines may hold newlines,
  each followed by a space (a continuation); \<open>nodbl\<close> text has no blank line in it.
\<close>

fun folded :: "bytes \<Rightarrow> bool" where
  "folded [] = True"
| "folded (c # r) = ((c = 10 \<longrightarrow> r \<noteq> [] \<and> hd r = 32) \<and> folded r)"

definition header_line :: "bytes \<Rightarrow> bool" where
  "header_line l \<longleftrightarrow> l \<noteq> [] \<and> hd l \<noteq> 32 \<and> hd l \<noteq> 10 \<and> folded l"

fun nodbl :: "bytes \<Rightarrow> bool" where
  "nodbl [] = True"
| "nodbl (c # r) = ((c = 10 \<longrightarrow> r \<noteq> [] \<and> hd r \<noteq> 10) \<and> nodbl r)"

lemma folded_plain: "10 \<notin> set l \<Longrightarrow> folded l"
  by (induction l) auto

lemma folded_nodbl: "folded l \<Longrightarrow> nodbl l"
  by (induction l) auto

lemma nodbl_append:
  "nodbl xs \<Longrightarrow> nodbl ys \<Longrightarrow> ys \<noteq> [] \<Longrightarrow> hd ys \<noteq> 10 \<Longrightarrow> nodbl (xs @ 10 # ys)"
  by (induction xs) (auto simp: hd_append)

lemma hd_join: "(\<And>l. l \<in> set ls \<Longrightarrow> header_line l) \<Longrightarrow> ls \<noteq> [] \<Longrightarrow>
    join_with 10 ls \<noteq> [] \<and> hd (join_with 10 ls) = hd (hd ls)"
  by (cases ls; cases "tl ls") (auto simp: header_line_def hd_append)

lemma nodbl_join: "(\<And>l. l \<in> set ls \<Longrightarrow> header_line l) \<Longrightarrow> nodbl (join_with (10 :: byte) ls)"
proof (induction "10 :: byte" ls rule: join_with.induct)
  case (3 x y ys)
  have "header_line x" "header_line y" using "3.prems" by simp_all
  moreover have "nodbl (join_with 10 (y # ys))" using 3 by simp
  moreover have "join_with 10 (y # ys) \<noteq> []" "hd (join_with 10 (y # ys)) = hd y"
    using hd_join [of "y # ys"] "3.prems" by simp_all
  ultimately have "nodbl (x @ 10 # join_with 10 (y # ys))"
    by (intro nodbl_append) (simp_all add: header_line_def folded_nodbl)
  then show ?case by simp
qed (auto simp: header_line_def folded_nodbl)

lemma find_sub_nodbl:
  "nodbl xs \<Longrightarrow> find_sub [10, 10] (xs @ [10, 10] @ r) = Some (length xs)"
proof (induction xs)
  case (Cons c xs)
  then show ?case by (cases xs) (auto simp: starts_with_def)
qed (simp add: starts_with_def)

lemma header_next_folded: "folded l \<Longrightarrow> header_next l = (l, [])"
  by (induction l) (auto simp: split_beta)

lemma header_next_append:
  "folded l \<Longrightarrow> r \<noteq> [] \<Longrightarrow> hd r \<noteq> 32 \<Longrightarrow> header_next (l @ 10 # r) = (l, r)"
  by (induction l) (auto simp: split_beta hd_append)

lemma header_lines_join:
  "(\<And>l. l \<in> set ls \<Longrightarrow> header_line l) \<Longrightarrow> header_lines (join_with (10 :: byte) ls) = ls"
proof (induction "10 :: byte" ls rule: join_with.induct)
  case 1
  then show ?case by (simp add: header_lines.simps)
next
  case (2 x)
  then show ?case
    by (simp add: header_lines.simps [of x] header_lines.simps [of "[]"] header_next_folded header_line_def)
next
  case (3 x y ys)
  have x: "folded x" using "3.prems" by (simp add: header_line_def)
  have y: "hd (join_with 10 (y # ys)) \<noteq> 32" "join_with 10 (y # ys) \<noteq> []"
    using hd_join [of "y # ys"] "3.prems" by (auto simp: header_line_def)
  then show ?case
    using 3 x by (simp add: header_lines.simps [of "x @ 10 # join_with 10 (y # ys)"] header_next_append)
qed

lemma concat_lines_join:
  "ls \<noteq> [] \<Longrightarrow> concat (map (\<lambda>l. l @ [10 :: byte]) ls) @ [10] @ m = join_with 10 ls @ [10, 10] @ m"
proof (induction "10 :: byte" ls rule: join_with.induct)
  case (3 x y ys)
  have "concat (map (\<lambda>l. l @ [10]) (x # y # ys)) @ [10] @ m =
    (x @ [10]) @ concat (map (\<lambda>l. l @ [10]) (y # ys)) @ [10] @ m" by simp
  also have "\<dots> = (x @ [10]) @ join_with 10 (y # ys) @ [10, 10] @ m"
    using 3(1) by simp
  finally show ?case by simp
qed simp_all

text \<open>The header lines that a serialized commit starts with, and those of a tag.\<close>

definition commit_header :: "commit \<Rightarrow> bytes list" where
  "commit_header c =
     (bstr ''tree '' @ to_hex (c_tree c))
     # map (\<lambda>p. bstr ''parent '' @ to_hex p) (c_parents c)
     @ [bstr ''author '' @ signature_bytes (c_author c),
        bstr ''committer '' @ signature_bytes (c_committer c)]"

definition tag_header :: "tag \<Rightarrow> bytes list" where
  "tag_header t =
     [bstr ''object '' @ to_hex (t_object t), bstr ''type '' @ as_str (t_object_type t),
      bstr ''tag '' @ t_name t]
     @ (case t_tagger t of Some s \<Rightarrow> [bstr ''tagger '' @ signature_bytes s] | None \<Rightarrow> [])"

lemma serialize_with_extra_join:
  "serialize_with_extra c (concat (map (\<lambda>l. l @ [10]) xs)) =
     join_with 10 (commit_header c @ xs) @ [10, 10] @ c_message c"
proof -
  have "serialize_with_extra c (concat (map (\<lambda>l. l @ [10]) xs)) =
      concat (map (\<lambda>l. l @ [10]) (commit_header c @ xs)) @ [10] @ c_message c"
    by (simp add: serialize_with_extra_def commit_header_def comp_def del: bstr_simps)
  also have "\<dots> = join_with 10 (commit_header c @ xs) @ [10, 10] @ c_message c"
    by (rule concat_lines_join) (simp add: commit_header_def)
  finally show ?thesis .
qed

lemma serialize_with_message_join:
  "serialize_with_message t m = join_with 10 (tag_header t) @ [10, 10] @ m"
proof -
  have "serialize_with_message t m = concat (map (\<lambda>l. l @ [10]) (tag_header t)) @ [10] @ m"
    by (simp add: serialize_with_message_def tag_header_def split: option.splits del: bstr_simps)
  also have "\<dots> = join_with 10 (tag_header t) @ [10, 10] @ m"
    by (rule concat_lines_join) (simp add: tag_header_def)
  finally show ?thesis .
qed


subsection \<open>Commits\<close>

text \<open>An extra header: a header line that none of the four known prefixes starts.\<close>

definition extra_line :: "bytes \<Rightarrow> bool" where
  "extra_line l \<longleftrightarrow> header_line l
     \<and> \<not> starts_with (bstr ''tree '') l \<and> \<not> starts_with (bstr ''parent '') l
     \<and> \<not> starts_with (bstr ''author '') l \<and> \<not> starts_with (bstr ''committer '') l"

definition wf_commit :: "hash_algo \<Rightarrow> commit \<Rightarrow> bytes list \<Rightarrow> bool" where
  "wf_commit a c xs \<longleftrightarrow>
     wf_oid (c_tree c) \<and> oid_algo (c_tree c) = a
     \<and> (\<forall>p\<in>set (c_parents c). wf_oid p \<and> oid_algo p = a)
     \<and> wf_signature (c_author c) \<and> one_line (c_author c)
     \<and> wf_signature (c_committer c) \<and> one_line (c_committer c)
     \<and> (\<forall>l\<in>set xs. extra_line l) \<and> c_extra_headers c = concat (map (\<lambda>l. l @ [10]) xs)"

lemma parse_hex_oid_to_hex [codec]:
  "wf_oid i \<Longrightarrow> oid_algo i = a \<Longrightarrow> parse_hex_oid a (to_hex i) = Ok i"
  by (simp add: parse_hex_oid_def from_utf8_def codec)

lemma to_hex_no_newline: "10 \<notin> set (to_hex i)"
  by (auto dest: to_hex_chars)

lemma header_line_plain: "l \<noteq> [] \<Longrightarrow> hd l \<noteq> 32 \<Longrightarrow> 10 \<notin> set l \<Longrightarrow> header_line l"
  by (cases l) (auto simp: header_line_def folded_plain)

lemma commit_header_lines:
  assumes "wf_commit a c xs" and "l \<in> set (commit_header c @ xs)"
  shows "header_line l"
proof -
  have "10 \<notin> set (signature_bytes (c_author c))" "10 \<notin> set (signature_bytes (c_committer c))"
    using assms(1) by (auto simp: wf_commit_def dest: signature_bytes_no_newline)
  then have "header_line l" if "l \<in> set (commit_header c)"
    using that by (intro header_line_plain) (auto simp: commit_header_def to_hex_no_newline)
  then show ?thesis
    using assms by (auto simp: wf_commit_def extra_line_def)
qed

lemma commit_lines_append:
  "commit_lines a st (xs @ ys) = bind_res (commit_lines a st xs) (\<lambda>st'. commit_lines a st' ys)"
  by (induction xs arbitrary: st) (auto simp: bind_res_def split: result.splits)

lemma commit_line_extra: "extra_line l \<Longrightarrow>
    commit_line a st l = Ok (st\<lparr>cf_extra := cf_extra st @ l @ [10]\<rparr>)"
  by (simp add: extra_line_def commit_line_def starts_with_def)

lemma commit_lines_extra: "(\<And>l. l \<in> set xs \<Longrightarrow> extra_line l) \<Longrightarrow>
    commit_lines a st xs = Ok (st\<lparr>cf_extra := cf_extra st @ concat (map (\<lambda>l. l @ [10]) xs)\<rparr>)"
  by (induction xs arbitrary: st) (simp_all add: commit_line_extra)

lemma commit_line_known:
  "commit_line a st (bstr ''tree '' @ v) =
     bind_res (parse_hex_oid a v) (\<lambda>i. Ok (st\<lparr>cf_tree := Some i\<rparr>))"
  "commit_line a st (bstr ''parent '' @ v) =
     bind_res (parse_hex_oid a v) (\<lambda>i. Ok (st\<lparr>cf_parents := cf_parents st @ [i]\<rparr>))"
  "commit_line a st (bstr ''author '' @ v) =
     bind_res (signature_parse v) (\<lambda>s. Ok (st\<lparr>cf_author := Some s\<rparr>))"
  "commit_line a st (bstr ''committer '' @ v) =
     bind_res (signature_parse v) (\<lambda>s. Ok (st\<lparr>cf_committer := Some s\<rparr>))"
  by (simp_all add: commit_line_def)

lemma commit_lines_parents:
  "(\<And>p. p \<in> set ps \<Longrightarrow> wf_oid p \<and> oid_algo p = a) \<Longrightarrow>
     commit_lines a st (map (\<lambda>p. bstr ''parent '' @ to_hex p) ps) =
       Ok (st\<lparr>cf_parents := cf_parents st @ ps\<rparr>)"
  by (induction ps arbitrary: st) (simp_all add: commit_line_known codec del: bstr_simps)

lemma commit_lines_header:
  assumes "wf_commit a c xs"
  shows "commit_lines a \<lparr>cf_tree = None, cf_parents = [], cf_author = None,
      cf_committer = None, cf_extra = []\<rparr> (commit_header c @ xs) =
    Ok \<lparr>cf_tree = Some (c_tree c), cf_parents = c_parents c, cf_author = Some (c_author c),
      cf_committer = Some (c_committer c), cf_extra = c_extra_headers c\<rparr>"
  using assms
  by (simp add: wf_commit_def commit_header_def commit_lines_append commit_lines_parents
      commit_lines_extra commit_line_known codec del: bstr_simps)

lemma commit_eta [simp]:
  "\<lparr>c_tree = c_tree c, c_parents = c_parents c, c_author = c_author c,
    c_committer = c_committer c, c_extra_headers = c_extra_headers c, c_message = c_message c\<rparr> = c"
  by (cases c) simp

lemma commit_roundtrip_wf [codec]:
  assumes "wf_commit a c xs"
  shows "commit_parse a (commit_serialize c) = Ok c"
proof -
  define h where "h = join_with 10 (commit_header c @ xs)"
  have ser: "commit_serialize c = h @ [10, 10] @ c_message c"
    using assms unfolding commit_serialize_def h_def
    by (simp add: wf_commit_def serialize_with_extra_join)
  have "find_double_newline (commit_serialize c) = Some (length h)"
    unfolding ser find_double_newline_def h_def
    by (intro find_sub_nodbl nodbl_join commit_header_lines [OF assms])
  moreover have "header_lines h = commit_header c @ xs"
    unfolding h_def by (intro header_lines_join commit_header_lines [OF assms])
  ultimately show ?thesis
    by (simp add: commit_parse_def ser commit_lines_header [OF assms])
qed

subsection \<open>Tags\<close>

definition wf_tag :: "hash_algo \<Rightarrow> tag \<Rightarrow> bool" where
  "wf_tag a t \<longleftrightarrow>
     wf_oid (t_object t) \<and> oid_algo (t_object t) = a \<and> 10 \<notin> set (t_name t)
     \<and> (case t_tagger t of Some s \<Rightarrow> wf_signature s \<and> one_line s | None \<Rightarrow> True)"

lemma as_str_plain: "10 \<notin> set (as_str ty)" "utf8_valid (as_str ty)" "str_trim (as_str ty) = as_str ty"
proof -
  have "graphic c" if "c \<in> set (as_str ty)" for c
    using as_str_chars [OF that] by (simp add: graphic_def word_le_nat_alt)
  then show "utf8_valid (as_str ty)" "str_trim (as_str ty) = as_str ty"
    by (auto intro: utf8_valid_ascii str_trim_all_graphic dest: graphic_small)
  show "10 \<notin> set (as_str ty)" by (cases ty) simp_all
qed

lemma tag_header_no_newline:
  assumes "wf_tag a t" and "l \<in> set (tag_header t)"
  shows "10 \<notin> set l" and "header_line l"
proof -
  show nl: "10 \<notin> set l"
    using assms by (auto simp: wf_tag_def tag_header_def to_hex_no_newline as_str_plain
        signature_bytes_no_newline split: option.splits)
  show "header_line l"
    by (rule header_line_plain [OF _ _ nl])
      (use assms in \<open>auto simp: tag_header_def split: option.splits\<close>)
qed

lemma tag_line_known:
  "tag_line a st (bstr ''object '' @ v) =
     bind_res (from_utf8 v (Parse ''tag: non-utf8 oid'')) (\<lambda>s.
     bind_res (from_hex a (str_trim s)) (\<lambda>i. Ok (st\<lparr>tf_object := Some i\<rparr>)))"
  "tag_line a st (bstr ''type '' @ v) =
     bind_res (from_utf8 v (Parse ''tag: non-utf8 type'')) (\<lambda>s.
     bind_res (from_str (str_trim s)) (\<lambda>ty. Ok (st\<lparr>tf_type := Some ty\<rparr>)))"
  "tag_line a st (bstr ''tag '' @ v) = Ok (st\<lparr>tf_name := Some v\<rparr>)"
  "tag_line a st (bstr ''tagger '' @ v) =
     bind_res (signature_parse v) (\<lambda>s. Ok (st\<lparr>tf_tagger := Some s\<rparr>))"
  by (simp_all add: tag_line_def)

lemma tag_lines_header:
  assumes "wf_tag a t"
  shows "tag_lines a \<lparr>tf_object = None, tf_type = None, tf_name = None, tf_tagger = None\<rparr> (tag_header t) =
    Ok \<lparr>tf_object = Some (t_object t), tf_type = Some (t_object_type t), tf_name = Some (t_name t),
        tf_tagger = t_tagger t\<rparr>"
  using assms
  by (cases "t_tagger t")
    (simp_all add: wf_tag_def tag_header_def tag_line_known from_utf8_def as_str_plain codec
      del: bstr_simps)

lemma tag_eta [simp]:
  "\<lparr>t_object = t_object t, t_object_type = t_object_type t, t_name = t_name t,
    t_tagger = t_tagger t, t_message = t_message t\<rparr> = t"
  by (cases t) simp

lemma tag_roundtrip_wf [codec]:
  assumes "wf_tag a t"
  shows "tag_parse a (tag_serialize t) = Ok t"
proof -
  define h where "h = join_with 10 (tag_header t)"
  have ser: "tag_serialize t = h @ [10, 10] @ t_message t"
    by (simp add: tag_serialize_def serialize_with_message_join h_def)
  have "find_double_newline (tag_serialize t) = Some (length h)"
    unfolding ser find_double_newline_def h_def
    by (intro find_sub_nodbl nodbl_join tag_header_no_newline(2) [OF assms])
  moreover have "split_on 10 h = tag_header t"
    unfolding h_def by (rule split_join) (simp add: tag_header_def, rule tag_header_no_newline(1) [OF assms])
  ultimately show ?thesis
    by (simp add: tag_parse_def ser tag_lines_header [OF assms])
qed


subsection \<open>Signed commits\<close>

text \<open>A physical line: one newline, at its end.\<close>

definition physical_line :: "bytes \<Rightarrow> bool" where
  "physical_line l \<longleftrightarrow> l \<noteq> [] \<and> last l = 10 \<and> 10 \<notin> set (butlast l)"

lemma physical_lines_append:
  "physical_line l \<Longrightarrow> physical_lines (l @ r) = l # physical_lines r"
proof (induction l)
  case (Cons c l)
  show ?case
  proof (cases "l = []")
    case False
    with Cons.prems have "physical_line l" "c \<noteq> 10" by (auto simp: physical_line_def)
    with Cons.IH show ?thesis by simp
  qed (use Cons.prems in \<open>simp add: physical_line_def\<close>)
qed (simp add: physical_line_def)

lemma physical_lines_concat:
  "(\<And>l. l \<in> set ls \<Longrightarrow> physical_line l) \<Longrightarrow> physical_lines (concat ls) = ls"
  by (induction ls) (simp_all add: physical_lines_append)

lemma physical_line_prefix: "physical_line l \<Longrightarrow> 10 \<notin> set p \<Longrightarrow> physical_line (p @ l)"
  by (auto simp: physical_line_def butlast_append)

lemma take_continuation_indented:
  "post = [] \<or> hd (hd post) \<noteq> 32 \<Longrightarrow> (\<And>l. l \<in> set post \<Longrightarrow> l \<noteq> []) \<Longrightarrow>
     take_continuation (map ((#) 32) sgs @ post) = (concat sgs, post)"
proof (induction sgs)
  case Nil
  show ?case
  proof (cases post)
    case (Cons l ls)
    with Nil obtain d m where "l = d # m" "d \<noteq> 32" by (cases l) auto
    then show ?thesis by (simp add: Cons)
  qed simp
qed simp

lemma split_lines_plain:
  "(\<And>l. l \<in> set ls \<Longrightarrow> \<not> starts_with (bstr ''gpgsig '') l) \<Longrightarrow>
     split_lines_signature (ls @ r) w s = split_lines_signature r (w @ concat ls) s"
  by (induction ls arbitrary: w) (simp_all add: starts_with_def del: bstr_simps)

lemma split_lines_gpgsig:
  assumes "post = [] \<or> hd (hd post) \<noteq> 32"
    and "\<And>l. l \<in> set post \<Longrightarrow> l \<noteq> [] \<and> \<not> starts_with (bstr ''gpgsig '') l"
  shows "split_lines_signature ((bstr ''gpgsig '' @ sg) # map ((#) 32) sgs @ post) w s =
    (w @ concat post, Some (concat (sg # sgs)))"
  using split_lines_plain [of post "[]" w] assms
  by (simp add: take_continuation_indented del: bstr_simps)

section \<open>Properties\<close>

text \<open>
  Author, committer and tagger lines round-trip: parsing what \<open>write_to\<close> writes gives
  the signature back, for every name and email without the brackets that delimit them and
  every 64-bit time (negative times included).
\<close>

theorem signature_roundtrip:
  "wf_signature s \<Longrightarrow> signature_parse (signature_bytes s) = Ok s"
  by (rule signature_roundtrip_wf)

theorem signature_roundtrip_witness:
  "signature_parse (bstr ''A U Thor <a@b> -7 +0900'') =
     Ok \<lparr>sig_name = bstr ''A U Thor'', sig_email = bstr ''a@b'', sig_time = - 7, sig_tz = bstr ''+0900''\<rparr>"
  using signature_roundtrip [of "\<lparr>sig_name = bstr ''A U Thor'', sig_email = bstr ''a@b'',
      sig_time = - 7, sig_tz = bstr ''+0900''\<rparr>"]
  by (simp add: wf_signature_def signature_bytes_def dec_of_int_def dec_of_nat.simps)

text \<open>
  C33. Commits round-trip: parsing a serialized commit gives every field back, in
  particular the parents in order and the extra headers (\<open>gpgsig\<close>, \<open>encoding\<close>,
  \<open>mergetag\<close>, with their continuation lines) byte for byte.
\<close>

theorem commit_roundtrip:
  "wf_commit a c xs \<Longrightarrow> commit_parse a (commit_serialize c) = Ok c"
  by (rule commit_roundtrip_wf)

theorem commit_roundtrip_witness:
  "\<exists>c. c_extra_headers c = bstr ''gpgsig x'' @ [10, 32, 121, 10] \<and> c_parents c = [zero_oid Sha1]
     \<and> commit_parse Sha1 (commit_serialize c) = Ok c"
proof -
  let ?s = "\<lparr>sig_name = bstr ''T'', sig_email = bstr ''t@e'', sig_time = 0, sig_tz = bstr ''+0000''\<rparr>"
  let ?c = "\<lparr>c_tree = zero_oid Sha1, c_parents = [zero_oid Sha1], c_author = ?s, c_committer = ?s,
    c_extra_headers = bstr ''gpgsig x'' @ [10, 32, 121, 10], c_message = bstr ''m'' @ [10]\<rparr>"
  have "wf_commit Sha1 ?c [bstr ''gpgsig x'' @ [10, 32, 121]]"
    by (simp add: wf_commit_def wf_signature_def one_line_def extra_line_def header_line_def
        starts_with_def zero_oid_def wf_oid_def)
  from commit_roundtrip [OF this] show ?thesis by (intro exI [of _ ?c]) simp
qed

text \<open>
  Annotated tags round-trip, with and without a tagger.
\<close>

theorem tag_roundtrip:
  "wf_tag a t \<Longrightarrow> tag_parse a (tag_serialize t) = Ok t"
  by (rule tag_roundtrip_wf)

theorem tag_roundtrip_witness:
  "\<exists>t. t_name t = bstr ''v1.0'' \<and> t_tagger t = None \<and> tag_parse Sha256 (tag_serialize t) = Ok t"
proof -
  let ?t = "\<lparr>t_object = zero_oid Sha256, t_object_type = Commit, t_name = bstr ''v1.0'',
    t_tagger = None, t_message = bstr ''Release''\<rparr>"
  have "wf_tag Sha256 ?t" by (simp add: wf_tag_def zero_oid_def wf_oid_def)
  from tag_roundtrip [OF this] show ?thesis by (intro exI [of _ ?t]) simp
qed

text \<open>
  Signature extraction: if the extra headers are some header lines, a \<open>gpgsig\<close> header
  whose continuation lines are indented by a space, and further header lines, then
  \<open>signature\<close> returns the armor un-indented and \<open>signed_payload\<close> is the commit with
  exactly the \<open>gpgsig\<close> header taken out.
\<close>

theorem commit_signature_split:
  assumes "\<forall>l\<in>set (pre @ sg # sgs @ post). physical_line l"
    and "\<forall>l\<in>set (pre @ post). \<not> starts_with (bstr ''gpgsig '') l"
    and "post = [] \<or> hd (hd post) \<noteq> 32"
    and "c_extra_headers c =
      concat pre @ bstr ''gpgsig '' @ sg @ concat (map ((#) 32) sgs) @ concat post"
  shows "commit_signature c = Some (concat (sg # sgs))
    \<and> commit_signed_payload c = commit_serialize (c\<lparr>c_extra_headers := concat pre @ concat post\<rparr>)"
proof -
  let ?ls = "pre @ (bstr ''gpgsig '' @ sg) # map ((#) 32) sgs @ post"
  have "physical_line (32 # l)" if "physical_line l" for l
    using physical_line_prefix [OF that, of "[32]"] by simp
  then have "\<And>l. l \<in> set ?ls \<Longrightarrow> physical_line l"
    using assms(1) physical_line_prefix [of sg "bstr ''gpgsig ''"] by auto
  then have "physical_lines (concat ?ls) = ?ls" by (rule physical_lines_concat)
  moreover have "concat ?ls = c_extra_headers c" using assms(4) by simp
  moreover have "split_lines_signature ?ls [] None = (concat pre @ concat post, Some (concat (sg # sgs)))"
    using assms split_lines_plain [of pre] split_lines_gpgsig [of post sg sgs "concat pre"]
    by (auto simp: physical_line_def simp del: bstr_simps)
  ultimately have "split_signature c = Some (concat pre @ concat post, concat (sg # sgs))"
    by (simp add: split_signature_def del: bstr_simps)
  then show ?thesis
    by (simp add: commit_signature_def commit_signed_payload_def commit_serialize_def
        serialize_with_extra_def)
qed

theorem commit_signature_split_witness:
  "\<exists>c. c_extra_headers c = bstr ''encoding x'' @ [10] @ bstr ''gpgsig A'' @ [10, 32, 66, 10]
     \<and> commit_signature c = Some [65, 10, 66, 10]
     \<and> commit_signed_payload c = commit_serialize (c\<lparr>c_extra_headers := bstr ''encoding x'' @ [10]\<rparr>)"
proof -
  let ?s = "\<lparr>sig_name = [], sig_email = [], sig_time = 0, sig_tz = []\<rparr>"
  let ?c = "\<lparr>c_tree = zero_oid Sha1, c_parents = [], c_author = ?s, c_committer = ?s,
    c_extra_headers = bstr ''encoding x'' @ [10] @ bstr ''gpgsig A'' @ [10, 32, 66, 10],
    c_message = []\<rparr>"
  from commit_signature_split [of "[bstr ''encoding x'' @ [10]]" "[65, 10]" "[[66, 10]]" "[]" ?c]
  show ?thesis
    by (intro exI [of _ ?c]) (simp add: physical_line_def starts_with_def)
qed

end
