(* ===== verification/Objects.thy ===== *)
theory Objects
  imports Object_Tree Object_Commit
begin

text \<open>
  The typed object model of src/src/object/mod.rs: the loose framing
  (\<open>parse_loose\<close>, \<open>serialize_loose\<close>) and \<open>Object::parse\<close> / \<open>Object::payload\<close> over the four
  kinds of object.
\<close>

datatype object = OBlob bytes | OTree git_tree | OCommit commit | OTag tag

fun obj_type :: "object \<Rightarrow> object_type" where
  "obj_type (OBlob _) = Blob"
| "obj_type (OTree _) = Tree"
| "obj_type (OCommit _) = Commit"
| "obj_type (OTag _) = Tag"

fun object_parse :: "hash_algo \<Rightarrow> object_type \<Rightarrow> bytes \<Rightarrow> object result" where
  "object_parse a Blob p = Ok (OBlob p)"
| "object_parse a Tree p = bind_res (tree_parse a p) (\<lambda>t. Ok (OTree t))"
| "object_parse a Commit p = bind_res (commit_parse a p) (\<lambda>c. Ok (OCommit c))"
| "object_parse a Tag p = bind_res (tag_parse a p) (\<lambda>t. Ok (OTag t))"

fun payload :: "object \<Rightarrow> bytes" where
  "payload (OBlob b) = b"
| "payload (OTree t) = tree_serialize t"
| "payload (OCommit c) = commit_serialize c"
| "payload (OTag t) = tag_serialize t"

definition parse_loose :: "bytes \<Rightarrow> (object_type \<times> bytes) result" where
  "parse_loose bs =
     bind_res (ok_or (position (\<lambda>c. c = 32) bs) (Parse ''loose object: missing space in header'')) (\<lambda>space.
     bind_res (ok_or (position (\<lambda>c. c = 0) bs) (Parse ''loose object: missing NUL in header'')) (\<lambda>nul.
     if nul < space then Err (Parse ''loose object: malformed header'')
     else
       bind_res (from_utf8 (take space bs) (Parse ''loose object: non-utf8 type'')) (\<lambda>ts.
       bind_res (from_str ts) (\<lambda>ty.
       bind_res (from_utf8 (take (nul - (space + 1)) (drop (space + 1) bs))
                   (Parse ''loose object: non-utf8 size'')) (\<lambda>ss.
       bind_res (ok_or (parse_unsigned 64 ss) (Parse ''loose object: invalid size'')) (\<lambda>size.
       let pl = drop (nul + 1) bs
       in if length pl \<noteq> size
          then Err (Parse ''loose object: declared size {size} != payload length {}'')
          else Ok (ty, pl)))))))"

definition serialize_loose :: "object_type \<Rightarrow> bytes \<Rightarrow> bytes" where
  "serialize_loose ty pl = loose_header ty (length pl) @ pl"

definition wf_object :: "hash_algo \<Rightarrow> object \<Rightarrow> bool" where
  "wf_object a obj =
     (case obj of
        OBlob _ \<Rightarrow> True
      | OTree t \<Rightarrow> (\<forall>e\<in>set (tree_entries t). wf_tree_entry a e)
                   \<and> sorted (map effective_name (tree_entries t))
      | OCommit c \<Rightarrow> (\<exists>xs. wf_commit a c xs)
      | OTag t \<Rightarrow> wf_tag a t)"

section \<open>Lemmas\<close>

lemma hash_object_loose: "hash_object dg a ty c = ObjectId a (dg a (serialize_loose ty c))"
  by (simp add: hash_object_def serialize_loose_def)

lemma parse_serialize_loose [codec]:
  assumes "length pl < 2 ^ 64"
  shows "parse_loose (serialize_loose ty pl) = Ok (ty, pl)"
proof -
  define num where "num = dec_of_nat (length pl)"
  have l1: "serialize_loose ty pl = as_str ty @ 32 # num @ 0 # pl"
    and l2: "serialize_loose ty pl = (as_str ty @ 32 # num) @ 0 # pl"
    by (simp_all add: serialize_loose_def loose_header_eq num_def)
  have num: "c \<noteq> 0 \<and> c \<noteq> 32 \<and> c < 0x80" if "c \<in> set num" for c
    using that dec_of_nat_digits [of c "length pl"] dec_of_nat_small [of c] is_digit_neq
    by (auto simp: num_def)
  have ty: "c \<noteq> 32 \<and> c \<noteq> 0" if "c \<in> set (as_str ty)" for c
    using as_str_chars [OF that] by (auto simp: word_le_nat_alt)
  have sp: "position (\<lambda>c. c = 32) (serialize_loose ty pl) = Some (length (as_str ty))"
    unfolding l1 by (rule position_hit) (auto dest: ty)
  have nul: "position (\<lambda>c. c = 0) (serialize_loose ty pl) = Some (length (as_str ty @ 32 # num))"
    unfolding l2 by (rule position_hit) (auto dest: ty num)
  have "take (length (as_str ty @ 32 # num) - (length (as_str ty) + 1))
      (drop (length (as_str ty) + 1) (serialize_loose ty pl)) = num"
    by (simp add: l1)
  moreover have "drop (length (as_str ty @ 32 # num) + 1) (serialize_loose ty pl) = pl"
    unfolding l2 by (rule drop_past)
  moreover have "take (length (as_str ty)) (serialize_loose ty pl) = as_str ty"
    by (simp add: l1)
  moreover have "utf8_valid num" by (rule utf8_valid_ascii) (auto dest: num)
  moreover have "parse_unsigned 64 num = Some (length pl)"
    unfolding num_def by (rule parse_unsigned_dec [OF assms])
  ultimately show ?thesis
    unfolding parse_loose_def sp nul ok_or_simps bind_res_Ok
    by (simp add: from_utf8_def as_str_plain codec)
qed

lemma object_parse_payload:
  assumes "wf_object a obj"
  shows "object_parse a (obj_type obj) (payload obj) = Ok obj"
proof (cases obj)
  case (OTree t)
  with assms have "sort_key effective_name (tree_entries t) = tree_entries t"
    by (simp add: wf_object_def sort_key_id_if_sorted)
  with OTree assms show ?thesis
    by (cases t) (simp add: wf_object_def tree_parse_sorted)
qed (use assms in \<open>auto simp: wf_object_def codec\<close>)

section \<open>Properties\<close>

text \<open>
  The loose framing round-trips: parsing the header and payload that
  \<open>serialize_loose\<close> builds gives the type and the payload back (any payload that a 64-bit
  \<open>usize\<close> can measure), and so two different objects never have the same hash input.
\<close>

theorem loose_roundtrip:
  assumes "length pl < 2 ^ 64"
  shows "parse_loose (serialize_loose ty pl) = Ok (ty, pl)
    \<and> (length pl' < 2 ^ 64 \<longrightarrow> serialize_loose ty' pl' = serialize_loose ty pl \<longrightarrow> ty' = ty \<and> pl' = pl)"
  using parse_serialize_loose [OF assms, of ty] parse_serialize_loose [of pl' ty'] by auto

theorem loose_roundtrip_witness:
  "parse_loose (bstr ''blob 3'' @ [0] @ bstr ''abc'') = Ok (Blob, bstr ''abc'')"
  using loose_roundtrip [of "bstr ''abc''" Blob "[]" Blob]
  by (simp add: serialize_loose_def loose_header_eq dec_of_nat.simps)

text \<open>
  Typed objects round-trip: \<open>Object::parse\<close> of \<open>Object::payload\<close>, under the object's own
  type, is the object, for well-formed blobs, canonically ordered trees, commits and tags.
\<close>

theorem object_roundtrip:
  assumes "wf_object a obj"
  shows "object_parse a (obj_type obj) (payload obj) = Ok obj"
  by (rule object_parse_payload [OF assms])

theorem object_roundtrip_witness:
  "object_parse Sha1 Tree (payload (OTree \<lparr>tree_entries =
      [\<lparr>te_mode = Regular, te_name = bstr ''a'', te_id = zero_oid Sha1\<rparr>]\<rparr>)) =
   Ok (OTree \<lparr>tree_entries = [\<lparr>te_mode = Regular, te_name = bstr ''a'', te_id = zero_oid Sha1\<rparr>]\<rparr>)"
  using object_roundtrip [of Sha1 "OTree \<lparr>tree_entries =
      [\<lparr>te_mode = Regular, te_name = bstr ''a'', te_id = zero_oid Sha1\<rparr>]\<rparr>"]
  by (simp add: wf_object_def wf_tree_entry_def zero_oid_def wf_oid_def)

end
