(* ===== verification/Delta.thy ===== *)
theory Delta
  imports Prelude
begin

text \<open>
  The delta codec: src/src/pack/delta.rs. \<open>apply_delta\<close> interprets a delta against a base;
  \<open>create_delta\<close> produces one by indexing the 16-byte windows of the base. Sizes read from a
  delta are \<open>64 word\<close>s (a 64-bit \<open>usize\<close>), and the cursor \<open>pos\<close> is the list of the bytes
  that remain. A function that appends to \<open>out\<close> returns the bytes it appends.
\<close>

section \<open>Applying a delta\<close>

definition MAX_DELTA_TARGET_SIZE :: nat where
  "MAX_DELTA_TARGET_SIZE = 2 ^ 30"

fun next_byte :: "bytes \<Rightarrow> (byte \<times> bytes) result" where
  "next_byte [] = Err (Pack ''delta: unexpected end'')"
| "next_byte (c # r) = Ok (c, r)"

text \<open>\<open>checked_shl\<close> fails exactly when the shift is not below the width.\<close>

fun read_varint_loop :: "64 word \<Rightarrow> nat \<Rightarrow> bytes \<Rightarrow> (64 word \<times> bytes) result" where
  "read_varint_loop value shift [] = Err (Pack ''delta: unexpected end'')"
| "read_varint_loop value shift (c # r) =
     (if \<not> shift < 64 then Err (Pack ''delta: varint overflow'')
      else let value' = value OR push_bit shift (ucast (c AND 0x7f))
           in if c AND 0x80 = 0 then Ok (value', r) else read_varint_loop value' (shift + 7) r)"

definition read_varint :: "bytes \<Rightarrow> (64 word \<times> bytes) result" where
  "read_varint d = read_varint_loop 0 0 d"

text \<open>
  The two loops that assemble the offset and the size of a copy: bit \<open>k + i\<close> of the
  opcode says whether byte \<open>i\<close> of the value follows.
\<close>

fun read_sparse :: "byte \<Rightarrow> nat \<Rightarrow> nat list \<Rightarrow> 64 word \<Rightarrow> bytes \<Rightarrow> (64 word \<times> bytes) result" where
  "read_sparse opcode k [] acc d = Ok (acc, d)"
| "read_sparse opcode k (i # js) acc d =
     (if opcode AND push_bit (k + i) 1 \<noteq> 0 then
        bind_res (next_byte d) (\<lambda>(c, r).
          read_sparse opcode k js (acc OR push_bit (8 * i) (ucast c)) r)
      else read_sparse opcode k js acc d)"

lemma read_sparse_shorter: "read_sparse opcode k js acc d = Ok (v, r) \<Longrightarrow> length r \<le> length d"
proof (induction js arbitrary: acc d)
  case (Cons i js)
  then show ?case
    by (cases d) (fastforce split: if_splits)+
qed simp

function apply_ops :: "bytes \<Rightarrow> bytes \<Rightarrow> bytes \<Rightarrow> bytes result" where
  "apply_ops base d out =
     (case d of
        [] \<Rightarrow> Ok out
      | opcode # r \<Rightarrow>
          if opcode AND 0x80 \<noteq> 0 then
            (case read_sparse opcode 0 [0..<4] 0 r of
               Err e \<Rightarrow> Err e
             | Ok (offset, r1) \<Rightarrow>
            (case read_sparse opcode 4 [0..<3] 0 r1 of
               Err e \<Rightarrow> Err e
             | Ok (size0, r2) \<Rightarrow>
               let sz = (if size0 = 0 then 0x10000 else size0)
               in if 2 ^ 64 \<le> unat offset + unat sz then Err (Pack ''delta: copy range overflow'')
                  else if length base < unat offset + unat sz then
                    Err (Pack ''delta: copy past end of base'')
                  else apply_ops base r2 (out @ take (unat sz) (drop (unat offset) base))))
          else if opcode \<noteq> 0 then
            (if length r < unat opcode then Err (Pack ''delta: insert past end of delta'')
             else apply_ops base (drop (unat opcode) r) (out @ take (unat opcode) r))
          else Err (Pack ''delta: invalid zero opcode''))"
  by pat_completeness auto
termination
  by (relation "measure (\<lambda>(b, d, out). length d)")
    (auto dest!: read_sparse_shorter)

declare apply_ops.simps [simp del]

definition apply_delta :: "bytes \<Rightarrow> bytes \<Rightarrow> bytes result" where
  "apply_delta base delta =
     bind_res (read_varint delta) (\<lambda>(base_size, d1).
     if unat base_size \<noteq> length base then Err (Pack ''delta: base size mismatch'')
     else bind_res (read_varint d1) (\<lambda>(target_size, d2).
       if MAX_DELTA_TARGET_SIZE < unat target_size then
         Err (Pack ''delta: target size exceeds maximum'')
       else bind_res (apply_ops base d2 []) (\<lambda>out.
         if length out \<noteq> unat target_size then Err (Pack ''delta: target size mismatch'')
         else Ok out)))"

section \<open>Creating a delta\<close>

definition DELTA_BLOCK :: nat where
  "DELTA_BLOCK = 16"

fun write_varint :: "nat \<Rightarrow> bytes" where
  "write_varint n =
     (if n div 128 \<noteq> 0 then (of_nat (n mod 128) OR 0x80) # write_varint (n div 128)
      else [of_nat (n mod 128)])"

declare write_varint.simps [simp del]

text \<open>FNV-1a on 64-bit words.\<close>

definition hash_block :: "bytes \<Rightarrow> 64 word" where
  "hash_block block =
     foldl (\<lambda>h c. (h XOR ucast c) * 0x00000100000001b3) 0xcbf29ce484222325 block"

text \<open>The base index: the first offset of every window hash (\<open>entry(..).or_insert(i)\<close>).\<close>

definition index_insert :: "bytes \<Rightarrow> (64 word \<rightharpoonup> nat) \<Rightarrow> nat \<Rightarrow> (64 word \<rightharpoonup> nat)" where
  "index_insert base m i =
     (let h = hash_block (take DELTA_BLOCK (drop i base))
      in case m h of None \<Rightarrow> m(h \<mapsto> i) | Some _ \<Rightarrow> m)"

definition base_index :: "bytes \<Rightarrow> (64 word \<rightharpoonup> nat)" where
  "base_index base =
     (if DELTA_BLOCK \<le> length base
      then foldl (index_insert base) Map.empty [0..<length base - DELTA_BLOCK + 1]
      else Map.empty)"

text \<open>The loop that extends a match forward; \<open>t\<close> is the target from position \<open>j\<close> on.\<close>

function extend_match :: "bytes \<Rightarrow> bytes \<Rightarrow> nat \<Rightarrow> nat \<Rightarrow> nat" where
  "extend_match base t p len =
     (if p + len < length base \<and> len < length t \<and> base ! (p + len) = t ! len
      then extend_match base t p (len + 1) else len)"
  by pat_completeness auto
termination
  by (relation "measure (\<lambda>(b, t, p, len). length b - (p + len))") auto

declare extend_match.simps [simp del]

definition find_match :: "bytes \<Rightarrow> (64 word \<rightharpoonup> nat) \<Rightarrow> bytes \<Rightarrow> (nat \<times> nat) option" where
  "find_match base index t =
     (if DELTA_BLOCK \<le> length t then
        (case index (hash_block (take DELTA_BLOCK t)) of
           None \<Rightarrow> None
         | Some p \<Rightarrow>
             if take DELTA_BLOCK (drop p base) = take DELTA_BLOCK t
             then Some (p, extend_match base t p DELTA_BLOCK) else None)
      else None)"

function flush_insert :: "bytes \<Rightarrow> bytes" where
  "flush_insert pending =
     (if pending = [] then []
      else let len = min (length pending) 127
           in of_nat len # take len pending @ flush_insert (drop len pending))"
  by pat_completeness auto
termination
  by (relation "measure length") auto

declare flush_insert.simps [simp del]

text \<open>The opcode bits and the bytes that one of the loops of \<open>emit_copy\<close> writes.\<close>

fun write_sparse :: "nat \<Rightarrow> nat \<Rightarrow> nat list \<Rightarrow> byte \<times> bytes" where
  "write_sparse v k [] = (0, [])"
| "write_sparse v k (i # js) =
     (let c = of_nat (v div 2 ^ (8 * i) mod 256); (opcode, bs) = write_sparse v k js
      in if c \<noteq> 0 then (push_bit (k + i) 1 OR opcode, c # bs) else (opcode, bs))"

definition copy_op :: "nat \<Rightarrow> nat \<Rightarrow> bytes" where
  "copy_op offset chunk =
     (let (o1, b1) = write_sparse offset 0 [0..<4]; (o2, b2) = write_sparse chunk 4 [0..<3]
      in (0x80 OR o1 OR o2) # b1 @ b2)"

function emit_copy :: "nat \<Rightarrow> nat \<Rightarrow> bytes" where
  "emit_copy offset sz =
     (if 0 < sz then
        let chunk = min sz 0xFFFFFF
        in copy_op offset chunk @ emit_copy (offset + chunk) (sz - chunk)
      else [])"
  by pat_completeness auto
termination
  by (relation "measure snd") auto

declare emit_copy.simps [simp del]

lemma extend_match_ge: "len \<le> extend_match base t p len"
proof (induction base t p len rule: extend_match.induct)
  case (1 base t p len)
  then show ?case
    by (subst extend_match.simps) (auto intro: Suc_leD)
qed

function create_loop :: "bytes \<Rightarrow> (64 word \<rightharpoonup> nat) \<Rightarrow> bytes \<Rightarrow> bytes \<Rightarrow> bytes" where
  "create_loop base index t pending =
     (case t of
        [] \<Rightarrow> flush_insert pending
      | c # r \<Rightarrow>
          (case find_match base index t of
             Some (p, len) \<Rightarrow>
               flush_insert pending @ emit_copy p len @ create_loop base index (drop len t) []
           | None \<Rightarrow>
               let pending' = pending @ [c]
               in if length pending' = 127
                  then flush_insert pending' @ create_loop base index r []
                  else create_loop base index r pending'))"
  by pat_completeness auto
termination
proof (relation "measure (\<lambda>(b, i, t, p). length t)"; (simp; fail)?)
  fix base :: bytes and index :: "64 word \<rightharpoonup> nat" and t pending r :: bytes and c :: byte
    and x :: "nat \<times> nat" and p len :: nat
  assume t: "t = c # r" and m: "find_match base index t = Some x" "(p, len) = x"
  then have "16 \<le> len"
    using extend_match_ge [of DELTA_BLOCK base t p]
    by (auto simp: find_match_def DELTA_BLOCK_def split: if_splits option.splits)
  with t show "((base, index, drop len t, []), base, index, t, pending)
      \<in> measure (\<lambda>(b, i, t, p). length t)"
    by simp
qed

declare create_loop.simps [simp del]

definition create_delta :: "bytes \<Rightarrow> bytes \<Rightarrow> bytes" where
  "create_delta base target =
     write_varint (length base) @ write_varint (length target)
     @ create_loop base (base_index base) target []"


section \<open>Lemmas\<close>

subsection \<open>Varints\<close>

lemma bit_0x80: "bit (0x80 :: byte) n \<longleftrightarrow> n = 7"
proof -
  have "(0x80 :: byte) = 2 ^ 7" by simp
  then show ?thesis by (simp only: bit_exp_iff) auto
qed

lemma byte_top_bit:
  fixes c :: byte
  assumes "unat c < 128"
  shows "(c OR 0x80) AND 0x7f = c" and "(c OR 0x80) AND 0x80 \<noteq> 0"
    and "c AND 0x7f = c" and "c AND 0x80 = 0"
proof -
  have b: "bit c n \<Longrightarrow> n < 7" for n
    using bit_small [of c 7] assms by simp
  show "c AND 0x7f = c"
    by (simp only: and_mask_take_bit) (rule take_bit_small, use assms in simp)
  then show "(c OR 0x80) AND 0x7f = c" by (simp add: bit.conj_disj_distrib2)
  show z: "c AND 0x80 = 0"
  proof (rule bit_word_eqI)
    fix n
    have "\<not> bit (c AND 0x80) n"
      unfolding bit_and_iff using b [of n] bit_0x80 [of n] by (metis less_irrefl)
    then show "bit (c AND 0x80) n = bit 0 n" by simp
  qed
  then show "(c OR 0x80) AND 0x80 \<noteq> 0" by (simp add: bit.conj_disj_distrib2)
qed

lemma of_nat_low7:
  "unat (of_nat (n mod 128) :: byte) = n mod 128"
proof -
  have "n mod 128 < 256" by (rule less_trans [of _ 128]) simp_all
  then show ?thesis by (simp add: unat_of_nat)
qed

lemma word_split7:
  fixes n :: nat
  assumes "n < 2 ^ 64"
  shows "(of_nat (n mod 128) OR push_bit 7 (of_nat (n div 128)) :: 64 word) = of_nat n"
proof -
  have "(of_nat (n mod 128) :: 64 word) = take_bit 7 (of_nat n)"
    by (simp add: word_unat_eq_iff unat_take_bit unat_of_nat mod_mod_cancel)
  moreover have "(of_nat (n div 128) :: 64 word) = drop_bit 7 (of_nat n)"
    using assms by (simp add: word_unat_eq_iff unat_drop_bit unat_of_nat)
  ultimately show ?thesis
    by (metis join_take_drop or.commute)
qed

lemma read_varint_loop_write:
  "n < 2 ^ (64 - shift) \<Longrightarrow> shift < 64 \<Longrightarrow>
     read_varint_loop v shift (write_varint n @ rest) =
       Ok (v OR push_bit shift (of_nat n), rest)"
proof (induction n arbitrary: v shift rule: write_varint.induct)
  case (1 n)
  define c where "c = (of_nat (n mod 128) :: byte)"
  have c: "unat c = n mod 128" by (simp add: c_def of_nat_low7)
  then have small: "unat c < 128" by simp
  have uc: "(ucast c :: 64 word) = of_nat (n mod 128)"
    by (simp add: word_unat_eq_iff unsigned_ucast_eq take_bit_eq_mod c unat_of_nat)
  show ?case
  proof (cases "n div 128 = 0")
    case True
    then have n: "n mod 128 = n" by simp
    from True have "write_varint n = [c]"
      by (simp add: write_varint.simps [of n] c_def)
    with uc byte_top_bit [OF small] "1.prems" show ?thesis
      by (simp add: Let_def n)
  next
    case False
    then have n: "128 \<le> n" by simp
    have "7 < 64 - shift"
      using n "1.prems"(1) power_increasing [of "64 - shift" 7 "2 :: nat"] by fastforce
    then have sh: "shift + 7 < 64" "64 - shift = 7 + (64 - (shift + 7))" by simp_all
    have "n div 128 < 2 ^ (64 - (shift + 7))"
      using "1.prems"(1) unfolding sh(2) power_add by (simp add: less_mult_imp_div_less mult.commute)
    note IH = "1.IH" [OF False this sh(1)]
    have "push_bit shift (of_nat (n mod 128)) OR push_bit (shift + 7) (of_nat (n div 128)) =
        push_bit shift (of_nat n :: 64 word)"
    proof -
      have "n < 2 ^ 64"
        using "1.prems"(1) power_increasing [of "64 - shift" 64 "2 :: nat"] by simp
      note word_split7 [OF this, symmetric]
      then show ?thesis by (simp add: push_bit_or add.commute)
    qed
    moreover from False have "write_varint n = (c OR 0x80) # write_varint (n div 128)"
      by (simp add: write_varint.simps [of n] c_def)
    ultimately show ?thesis
      using "1.prems" IH byte_top_bit [OF small] uc by (simp add: Let_def or.assoc)
  qed
qed

lemma read_write_varint [codec]:
  "n < 2 ^ 64 \<Longrightarrow> read_varint (write_varint n @ rest) = Ok (of_nat n, rest)"
  using read_varint_loop_write [of n 0 0 rest] by (simp add: read_varint_def)

subsection \<open>Sparse values: the operands of a copy\<close>

lemma byte_of_nat: "of_nat (v div 2 ^ (8 * i) mod 256) = (ucast (drop_bit (8 * i) (of_nat v :: 64 word)) :: byte)"
  if "v < 2 ^ 64"
proof -
  have "v mod 18446744073709551616 = v" using that by simp
  then show ?thesis
    by (simp add: word_unat_eq_iff unsigned_ucast_eq take_bit_eq_mod unat_drop_bit unat_of_nat)
qed

definition sparse_word :: "64 word \<Rightarrow> nat list \<Rightarrow> 64 word" where
  "sparse_word w js = foldr (\<lambda>i a. push_bit (8 * i) (ucast (ucast (drop_bit (8 * i) w) :: byte)) OR a) js 0"

lemma bit_sparse_word:
  "bit (sparse_word w js) n \<longleftrightarrow> (\<exists>i\<in>set js. 8 * i \<le> n \<and> n < 8 * i + 8 \<and> bit w n)"
proof (induction js)
  case (Cons i js)
  have "bit (push_bit (8 * i) (ucast (ucast (drop_bit (8 * i) w) :: byte)) :: 64 word) n
      \<longleftrightarrow> 8 * i \<le> n \<and> n < 8 * i + 8 \<and> bit w n"
    by (auto simp: bit_simps dest: bit_imp_le_length)
  with Cons show ?case
    by (simp add: sparse_word_def bit_or_iff)
qed (simp add: sparse_word_def)

lemma sparse_word_full: "unat w < 2 ^ (8 * k) \<Longrightarrow> sparse_word w [0..<k] = w"
proof (rule bit_word_eqI)
  fix n
  assume w: "unat w < 2 ^ (8 * k)"
  have "\<exists>i\<in>set [0..<k]. 8 * i \<le> n \<and> n < 8 * i + 8 \<and> bit w n" if "bit w n"
    using bit_small [OF w that] that by (intro bexI [of _ "n div 8"]) auto
  then show "bit (sparse_word w [0..<k]) n = bit w n"
    unfolding bit_sparse_word by blast
qed

lemma read_write_sparse:
  assumes "v < 2 ^ 64"
    and "\<And>i. i \<in> set js \<Longrightarrow>
      bit opcode (k + i) \<longleftrightarrow> (ucast (drop_bit (8 * i) (of_nat v :: 64 word)) :: byte) \<noteq> 0"
  shows "read_sparse opcode k js acc (snd (write_sparse v k js) @ rest) =
    Ok (acc OR sparse_word (of_nat v) js, rest)"
  using assms(2)
proof (induction js arbitrary: acc)
  case Nil
  then show ?case by (simp add: sparse_word_def)
next
  case (Cons i js)
  define c where "c = (ucast (drop_bit (8 * i) (of_nat v :: 64 word)) :: byte)"
  have b: "opcode AND push_bit (k + i) 1 \<noteq> 0 \<longleftrightarrow> c \<noteq> 0"
    using Cons.prems [of i] by (simp add: bit_iff_and_push_bit_not_eq_0 c_def)
  have IH: "read_sparse opcode k js a (snd (write_sparse v k js) @ rest) =
      Ok (a OR sparse_word (of_nat v) js, rest)" for a
    by (rule Cons.IH) (use Cons.prems in simp)
  have s: "sparse_word (of_nat v) (i # js) = push_bit (8 * i) (ucast c) OR sparse_word (of_nat v) js"
    by (simp add: sparse_word_def c_def)
  show ?case
    unfolding s using b IH
    by (simp add: byte_of_nat [OF assms(1)] c_def [symmetric] Let_def split_beta or.assoc)
qed

lemma bit_write_sparse:
  assumes "v < 2 ^ 64"
  shows "bit (fst (write_sparse v k js)) m \<longleftrightarrow>
    m < 8 \<and> (\<exists>i\<in>set js. m = k + i \<and> (ucast (drop_bit (8 * i) (of_nat v :: 64 word)) :: byte) \<noteq> 0)"
proof (induction js)
  case (Cons i js)
  have "bit (push_bit (k + i) 1 :: byte) m \<longleftrightarrow> m < 8 \<and> m = k + i"
    by (auto simp: bit_simps)
  with Cons show ?case
    by (auto simp: byte_of_nat [OF assms] Let_def split_beta bit_or_iff simp del: push_bit_of_1)
qed simp

subsection \<open>Executing what the encoder emits\<close>

lemma and_0x80: "(c :: byte) AND 0x80 \<noteq> 0 \<longleftrightarrow> bit c 7"
proof -
  have "(0x80 :: byte) = push_bit 7 1" by simp
  then show ?thesis by (simp only: bit_iff_and_push_bit_not_eq_0)
qed

lemma apply_copy_op:
  assumes off: "off < 2 ^ 32" and chunk: "0 < chunk" "chunk < 2 ^ 24"
    and base: "off + chunk \<le> length base"
  shows "apply_ops base (copy_op off chunk @ rest) out =
    apply_ops base rest (out @ take chunk (drop off base))"
proof -
  obtain o1 b1 o2 b2 where w: "write_sparse off 0 [0..<4] = (o1, b1)"
      "write_sparse chunk 4 [0..<3] = (o2, b2)"
    by fastforce
  define opc where "opc = (0x80 OR o1 OR o2 :: byte)"
  have v: "off < 2 ^ 64" "chunk < 2 ^ 64" using off chunk by simp_all
  have bits: "bit opc n \<longleftrightarrow> n = 7 \<or> bit o1 n \<or> bit o2 n" for n
    by (simp only: opc_def bit_or_iff bit_0x80)
  have o1: "bit o1 m \<longleftrightarrow> m < 4 \<and> (ucast (drop_bit (8 * m) (of_nat off :: 64 word)) :: byte) \<noteq> 0" for m
    using bit_write_sparse [OF v(1), of 0 "[0..<4]" m] w by auto
  have o2: "bit o2 m \<longleftrightarrow> 4 \<le> m \<and> m < 7
      \<and> (ucast (drop_bit (8 * (m - 4)) (of_nat chunk :: 64 word)) :: byte) \<noteq> 0" for m
    using bit_write_sparse [OF v(2), of 4 "[0..<3]" m] w by auto
  have u: "unat (of_nat off :: 64 word) = off" "unat (of_nat chunk :: 64 word) = chunk"
    using v by (simp_all add: unat_of_nat)
  have r1: "read_sparse opc 0 [0..<4] 0 (b1 @ b2 @ rest) = Ok (of_nat off, b2 @ rest)"
    using read_write_sparse [OF v(1), of "[0..<4]" opc 0 0 "b2 @ rest"] w
      sparse_word_full [of "of_nat off" 4] off
    by (simp add: bits o1 o2 u)
  have r2: "read_sparse opc 4 [0..<3] 0 (b2 @ rest) = Ok (of_nat chunk, rest)"
    using read_write_sparse [OF v(2), of "[0..<3]" opc 4 0 rest] w
      sparse_word_full [of "of_nat chunk" 3] chunk
    by (simp add: bits o1 o2 u)
  have op: "opc AND 0x80 \<noteq> 0" by (simp add: and_0x80 bits)
  have nz: "(of_nat chunk :: 64 word) \<noteq> 0" using u(2) chunk(1) by fastforce
  have "copy_op off chunk = opc # b1 @ b2" by (simp add: copy_op_def w opc_def)
  then show ?thesis
    using r1 r2 op nz base off chunk u
    by (simp add: apply_ops.simps [of base "opc # b1 @ b2 @ rest"] Let_def)
qed

lemma apply_insert_op:
  assumes "xs \<noteq> []" and "length xs < 128"
  shows "apply_ops base (of_nat (length xs) # xs @ rest) out = apply_ops base rest (out @ xs)"
proof -
  have u: "unat (of_nat (length xs) :: byte) = length xs"
    using assms by (simp add: unat_of_nat)
  then have "(of_nat (length xs) :: byte) AND 0x80 = 0" "(of_nat (length xs) :: byte) \<noteq> 0"
    using byte_top_bit(4) [of "of_nat (length xs)"] assms by fastforce+
  with u show ?thesis
    by (simp add: apply_ops.simps [of base "_ # _"])
qed

lemma apply_flush_insert:
  "apply_ops base (flush_insert pending @ rest) out = apply_ops base rest (out @ pending)"
proof (induction pending arbitrary: out rule: flush_insert.induct)
  case (1 pending)
  show ?case
  proof (cases "pending = []")
    case True
    then show ?thesis by (simp add: flush_insert.simps)
  next
    case False
    let ?len = "min (length pending) 127"
    have "apply_ops base (flush_insert pending @ rest) out =
        apply_ops base (flush_insert (drop ?len pending) @ rest) (out @ take ?len pending)"
      using apply_insert_op [of "take ?len pending" base _ out] False
      by (simp add: flush_insert.simps [of pending] Let_def min.commute)
    with "1.IH" [OF False refl, of "out @ take ?len pending"] show ?thesis by simp
  qed
qed

lemma apply_emit_copy:
  "off + sz \<le> length base \<Longrightarrow> length base \<le> 2 ^ 32 \<Longrightarrow>
     apply_ops base (emit_copy off sz @ rest) out =
       apply_ops base rest (out @ take sz (drop off base))"
proof (induction off sz arbitrary: out rule: emit_copy.induct)
  case (1 off sz)
  show ?case
  proof (cases "0 < sz")
    case False
    then show ?thesis by (simp add: emit_copy.simps)
  next
    case True
    define chunk where "chunk = min sz 0xFFFFFF"
    have c: "0 < chunk" "chunk < 2 ^ 24" "chunk \<le> sz" using True by (simp_all add: chunk_def)
    have "take chunk (drop off base) @ take (sz - chunk) (drop (off + chunk) base) =
        take sz (drop off base)"
      using c(3) take_add [of chunk "sz - chunk" "drop off base"] by (simp add: add.commute)
    moreover have "apply_ops base (copy_op off chunk @ emit_copy (off + chunk) (sz - chunk) @ rest) out =
        apply_ops base (emit_copy (off + chunk) (sz - chunk) @ rest) (out @ take chunk (drop off base))"
      by (rule apply_copy_op) (use "1.prems" c True in simp_all)
    ultimately show ?thesis
      using "1.IH" [OF True chunk_def, of "out @ take chunk (drop off base)"] "1.prems" c True
      by (simp add: emit_copy.simps [of off sz] chunk_def [symmetric] Let_def)
  qed
qed

subsection \<open>The encoder\<close>

lemma extend_match_sound:
  "take len (drop p base) = take len t \<Longrightarrow> p + len \<le> length base \<Longrightarrow> len \<le> length t \<Longrightarrow>
     m = extend_match base t p len \<Longrightarrow>
     take m (drop p base) = take m t \<and> p + m \<le> length base \<and> m \<le> length t"
proof (induction base t p len rule: extend_match.induct)
  case (1 base t p len)
  show ?case
  proof (cases "p + len < length base \<and> len < length t \<and> base ! (p + len) = t ! len")
    case True
    then have "take (len + 1) (drop p base) = take (len + 1) t"
      using "1.prems"(1) take_Suc_conv_app_nth [of len "drop p base"]
      by (simp add: take_Suc_conv_app_nth [of len t] less_diff_conv add.commute)
    with True show ?thesis
      using "1.IH" [OF True] "1.prems"(4) by (simp add: extend_match.simps [of base t p len])
  next
    case False
    with "1.prems" show ?thesis by (simp add: extend_match.simps [of base t p len])
  qed
qed

lemma base_index_bound: "base_index base h = Some p \<Longrightarrow> p + DELTA_BLOCK \<le> length base"
proof -
  have step: "foldl (index_insert base) m js h = Some p \<Longrightarrow> m h = Some p \<or> p \<in> set js" for m js
  proof (induction js arbitrary: m)
    case (Cons i js)
    from Cons.prems have "index_insert base m i h = Some p \<or> p \<in> set js"
      by (intro Cons.IH) simp
    moreover have "m h = Some p \<or> p = i" if "index_insert base m i h = Some p"
      using that by (auto simp: index_insert_def Let_def split: if_splits option.splits)
    ultimately show ?case by auto
  qed simp
  assume "base_index base h = Some p"
  with step [of Map.empty "[0..<length base - DELTA_BLOCK + 1]"] show ?thesis
    by (auto simp: base_index_def split: if_splits)
qed

lemma find_match_sound:
  assumes "find_match base index t = Some (p, len)"
    and "\<And>h p. index h = Some p \<Longrightarrow> p + DELTA_BLOCK \<le> length base"
  shows "take len (drop p base) = take len t" "p + len \<le> length base" "len \<le> length t"
proof -
  from assms have *: "take DELTA_BLOCK (drop p base) = take DELTA_BLOCK t"
      "len = extend_match base t p DELTA_BLOCK" "p + DELTA_BLOCK \<le> length base" "DELTA_BLOCK \<le> length t"
    by (auto simp: find_match_def split: if_splits option.splits)
  from extend_match_sound [OF *(1,3,4,2)]
  show "take len (drop p base) = take len t" "p + len \<le> length base" "len \<le> length t"
    by blast+
qed

lemma apply_create_loop:
  assumes idx: "\<And>h p. index h = Some p \<Longrightarrow> p + DELTA_BLOCK \<le> length base"
    and base: "length base \<le> 2 ^ 32"
  shows "apply_ops base (create_loop base index t pending) out = Ok (out @ pending @ t)"
proof -
  have fl: "apply_ops base (flush_insert p) out' = Ok (out' @ p)" for p out'
    using apply_flush_insert [of base p "[]" out'] by (simp add: apply_ops.simps)
  show ?thesis
  proof (induction "length t" arbitrary: t pending out rule: less_induct)
    case less
    show ?case
    proof (cases t)
      case Nil
      then show ?thesis by (simp add: create_loop.simps fl)
    next
      case (Cons c r)
      show ?thesis
      proof (cases "find_match base index t")
        case None
        have "apply_ops base (create_loop base index r p) out' = Ok (out' @ p @ r)" for p out'
          by (rule less) (simp add: Cons)
        with None Cons show ?thesis
          by (simp add: create_loop.simps [of base index "c # r"] Let_def apply_flush_insert)
      next
        case (Some x)
        then obtain p len where x: "find_match base index t = Some (p, len)" by (cases x) auto
        note m = find_match_sound [OF x idx]
        have "DELTA_BLOCK \<le> len"
          using x extend_match_ge [of DELTA_BLOCK base t p]
          by (auto simp: find_match_def split: if_splits option.splits)
        then have "length (drop len t) < length t"
          using Cons by (simp add: DELTA_BLOCK_def)
        note IH = less [OF this]
        have "take len t @ drop len t = t" by simp
        then show ?thesis
          using x Cons m IH base
          by (simp add: create_loop.simps [of base index "c # r"] apply_flush_insert apply_emit_copy
              del: append_take_drop_id)
      qed
    qed
  qed
qed

lemma read_sparse_suffix:
  "read_sparse opcode k js acc d = Ok (v, r) \<Longrightarrow> set r \<subseteq> set d"
proof (induction js arbitrary: acc d)
  case (Cons i js)
  then show ?case
    by (cases d) (fastforce split: if_splits)+
qed simp

lemma apply_ops_bytes:
  "apply_ops base d acc = Ok out \<Longrightarrow> set out \<subseteq> set acc \<union> set base \<union> set d"
proof (induction base d acc rule: apply_ops.induct)
  case (1 base d acc)
  show ?case
  proof (cases d)
    case Nil
    with 1 show ?thesis by (simp add: apply_ops.simps)
  next
    case (Cons op r)
    show ?thesis
    proof (cases "op AND 0x80 = 0")
      case True
      with "1.prems" Cons have "apply_ops base (drop (unat op) r) (acc @ take (unat op) r) = Ok out"
        and op: "op \<noteq> 0" and l: "\<not> length r < unat op"
        by (auto simp: apply_ops.simps [of base "op # r"] split: if_splits)
      with "1.IH"(2) [OF Cons _ op l] True
      have "set out \<subseteq> set (acc @ take (unat op) r) \<union> set base \<union> set (drop (unat op) r)" by blast
      then show ?thesis using Cons by (auto dest: in_set_takeD in_set_dropD)
    next
      case False
      with "1.prems" Cons obtain off r1 s r2 sz where
        s: "read_sparse op 0 [0..<4] 0 r = Ok (off, r1)" "read_sparse op 4 [0..<3] 0 r1 = Ok (s, r2)"
          "sz = (if s = 0 then 0x10000 else s)" "\<not> 2 ^ 64 \<le> unat off + unat sz"
          "\<not> length base < unat off + unat sz"
        and a: "apply_ops base r2 (acc @ take (unat sz) (drop (unat off) base)) = Ok out"
        by (auto simp: apply_ops.simps [of base "op # r"] Let_def split: if_splits result.splits prod.splits)
      from "1.IH"(1) [OF Cons _ s(1) refl s(2) refl s(3-5) a] False
      have "set out \<subseteq> set (acc @ take (unat sz) (drop (unat off) base)) \<union> set base \<union> set r2" by blast
      with read_sparse_suffix [OF s(1)] read_sparse_suffix [OF s(2)] Cons show ?thesis
        by (auto dest!: in_set_takeD in_set_dropD subsetD [of "set out"])
    qed
  qed
qed

lemma apply_create_delta:
  assumes "length base \<le> 2 ^ 32" and "length target \<le> MAX_DELTA_TARGET_SIZE"
  shows "apply_delta base (create_delta base target) = Ok target"
proof -
  have l: "length base < 2 ^ 64" "length target < 2 ^ 64"
    using assms by (simp_all add: MAX_DELTA_TARGET_SIZE_def)
  then have "unat (of_nat (length base) :: 64 word) = length base"
      "unat (of_nat (length target) :: 64 word) = length target"
    by (simp_all add: unat_of_nat)
  then show ?thesis
    using assms apply_create_loop [of "base_index base" base target "[]" "[]"] base_index_bound [of base]
    by (simp add: apply_delta_def create_delta_def read_write_varint [OF l(1)]
        read_write_varint [OF l(2)])
qed

subsection \<open>The size of a delta\<close>

lemma length_flush_insert: "length (flush_insert p) \<le> 2 * length p"
proof (induction p rule: flush_insert.induct)
  case (1 p)
  show ?case
  proof (cases "p = []")
    case False
    then have "length (flush_insert (drop (min (length p) 127) p)) \<le> 2 * (length p - min (length p) 127)"
      using 1 [OF False refl] by simp
    moreover have "1 \<le> min (length p) 127" using False by (cases p) simp_all
    ultimately show ?thesis
      by (subst flush_insert.simps) (simp add: False Let_def)
  qed (simp add: flush_insert.simps)
qed

lemma length_write_sparse: "length (snd (write_sparse v k js)) \<le> length js"
  by (induction js) (simp_all add: split_beta Let_def)

lemma length_copy_op: "length (copy_op offset chunk) \<le> 8"
  using length_write_sparse [of offset 0 "[0..<4]"] length_write_sparse [of chunk 4 "[0..<3]"]
  unfolding copy_op_def by (simp only: split_beta Let_def list.size length_append length_upt)

lemma length_emit_copy: "length (emit_copy offset n) \<le> 8 * n"
proof (induction offset n rule: emit_copy.induct)
  case (1 offset n)
  show ?case
  proof (cases "0 < n")
    case True
    note IH = 1 [OF True refl]
    define k where "k = min n 0xFFFFFF"
    have "1 \<le> k" "k \<le> n" using True by (simp_all add: k_def)
    with IH length_copy_op [of offset k] True show ?thesis
      by (subst emit_copy.simps) (simp add: Let_def k_def [symmetric])
  qed (simp add: emit_copy.simps)
qed

lemma length_write_varint: "length (write_varint n) \<le> n + 1"
proof (induction n rule: write_varint.induct)
  case (1 n)
  then show ?case by (subst write_varint.simps) (auto intro!: le_trans [OF 1])
qed

lemma find_match_length: "find_match base index t = Some (p, len) \<Longrightarrow> len \<le> length t"
proof -
  assume "find_match base index t = Some (p, len)"
  then have "DELTA_BLOCK \<le> length t" "len = extend_match base t p DELTA_BLOCK"
    by (auto simp: find_match_def split: if_splits option.splits)
  moreover have "k \<le> length t \<Longrightarrow> extend_match base t p k \<le> length t" for k
  proof (induction base t p k rule: extend_match.induct)
    case (1 base t p k)
    then show ?case by (subst extend_match.simps) simp
  qed
  ultimately show ?thesis by simp
qed

lemma length_create_loop: "length (create_loop base index t pending) \<le> 8 * length t + 2 * length pending"
proof (induction t arbitrary: pending rule: length_induct)
  case (1 t)
  show ?case
  proof (cases t)
    case Nil
    then show ?thesis using length_flush_insert [of pending] by (simp add: create_loop.simps)
  next
    case (Cons c r)
    show ?thesis
    proof (cases "find_match base index t")
      case None
      have r: "length (create_loop base index r p) \<le> 8 * length r + 2 * length p" for p
        using 1 Cons by simp
      from None Cons r [of "[]"] r [of "pending @ [c]"] length_flush_insert [of "pending @ [c]"]
      show ?thesis by (simp add: create_loop.simps [of base index "c # r"] Let_def)
    next
      case (Some x)
      then obtain p len where x: "find_match base index t = Some (p, len)" by (cases x) auto
      have len: "len \<le> length t" "0 < len"
        using find_match_length [OF x] x extend_match_ge [of DELTA_BLOCK base t p]
        by (auto simp: find_match_def DELTA_BLOCK_def split: if_splits option.splits)
      then have "length (create_loop base index (drop len t) []) \<le> 8 * (length t - len)"
        using 1 [rule_format, of "drop len t" "[]"] by simp
      with x Cons len length_flush_insert [of pending] length_emit_copy [of p len]
      show ?thesis by (simp add: create_loop.simps [of base index "c # r"])
    qed
  qed
qed

lemma length_create_delta: "length (create_delta base target) \<le> length base + 9 * length target + 2"
  using length_write_varint [of "length base"] length_write_varint [of "length target"]
    length_create_loop [of base "base_index base" target "[]"]
  by (simp add: create_delta_def)

section \<open>Properties\<close>

text \<open>
  C29. A delta that \<open>create_delta\<close> produces applies: whatever the base (up to 4 GiB, the range
  of a copy offset) and the target (up to the 1 GiB limit of \<open>apply_delta\<close>), applying the
  delta to the base gives the target, with no error on the way.
\<close>

theorem delta_roundtrip:
  assumes "length base \<le> 2 ^ 32" and "length target \<le> MAX_DELTA_TARGET_SIZE"
  shows "apply_delta base (create_delta base target) = Ok target"
  by (rule apply_create_delta [OF assms])

theorem delta_roundtrip_witness:
  "apply_delta (bstr ''0123456789abcdefXYZ'') (create_delta (bstr ''0123456789abcdefXYZ'')
      (bstr ''<0123456789abcdefX>'')) = Ok (bstr ''<0123456789abcdefX>'')"
  by (rule delta_roundtrip) (simp_all add: MAX_DELTA_TARGET_SIZE_def)

text \<open>
  C30. What \<open>apply_delta\<close> accepts: if it succeeds on a delta from anywhere, the delta opens
  with the exact length of the base, the output has the length declared next, which is at
  most 1 GiB, and every byte of the output comes from the base or from the delta.
\<close>

theorem apply_delta_sound:
  assumes "apply_delta base delta = Ok out"
  shows "\<exists>b t d1 d2. read_varint delta = Ok (b, d1) \<and> unat b = length base
    \<and> read_varint d1 = Ok (t, d2) \<and> length out = unat t \<and> length out \<le> MAX_DELTA_TARGET_SIZE
    \<and> set out \<subseteq> set base \<union> set d2"
proof -
  obtain b t d1 d2 where *: "read_varint delta = Ok (b, d1)" "unat b = length base"
      "read_varint d1 = Ok (t, d2)" "unat t \<le> MAX_DELTA_TARGET_SIZE"
      "apply_ops base d2 [] = Ok out" "length out = unat t"
    using assms by (auto simp: apply_delta_def bind_res_eq_Ok not_less split: if_splits)
  moreover have "set out \<subseteq> set base \<union> set d2"
    using apply_ops_bytes [OF *(5)] by simp
  ultimately show ?thesis by auto
qed

theorem apply_delta_sound_witness:
  "\<exists>b t d1 d2. read_varint [1, 2, 0x91, 0, 1, 1, 97] = Ok (b, d1) \<and> unat b = length [98 :: byte]
    \<and> read_varint d1 = Ok (t, d2) \<and> length [98 :: byte, 97] = unat t
    \<and> length [98 :: byte, 97] \<le> MAX_DELTA_TARGET_SIZE
    \<and> set [98 :: byte, 97] \<subseteq> set [98] \<union> set d2"
proof (rule apply_delta_sound)
  show "apply_delta [98] [1, 2, 0x91, 0, 1, 1, 97] = Ok [98, 97]"
    by (simp add: apply_delta_def read_varint_def apply_ops.simps MAX_DELTA_TARGET_SIZE_def upt_rec)
qed

text \<open>
  The overflow check of \<open>read_varint\<close> looks at the shift only: the tenth byte is shifted
  by 63, so six of its seven bits are lost without an error, and an eleventh is refused.
\<close>

theorem read_varint_drops_bits:
  "read_varint (replicate 9 0x80 @ [0x7e]) = Ok (0, [])
   \<and> read_varint (replicate 10 0x80 @ [1]) = Err (Pack ''delta: varint overflow'')"
proof -
  have "replicate 9 x = [x, x, x, x, x, x, x, x, x]" "replicate 10 x = [x, x, x, x, x, x, x, x, x, x]"
    for x :: byte
    by (simp_all add: eval_nat_numeral)
  then show ?thesis by (simp add: read_varint_def)
qed

end
