(* ===== verification/PktLine.thy ===== *)
theory PktLine
  imports Oid
begin

text \<open>
  The pkt-line framing under every git transport: src/src/protocol/pktline.rs. The length
  prefix is a \<open>16 word\<close> (\<open>u16\<close>); \<open>decode\<close> works on the front of a buffer and says how many
  bytes it used, or that the packet is not complete yet.
\<close>

definition MAX_PKTLINE_LEN :: nat where
  "MAX_PKTLINE_LEN = 65520"

datatype packet = Data bytes | Flush | Delim | ResponseEnd

definition write_len_prefix :: "16 word \<Rightarrow> bytes" where
  "write_len_prefix len =
     [bstr ''0123456789abcdef'' ! unat (drop_bit 12 len AND 0xf),
      bstr ''0123456789abcdef'' ! unat (drop_bit 8 len AND 0xf),
      bstr ''0123456789abcdef'' ! unat (drop_bit 4 len AND 0xf),
      bstr ''0123456789abcdef'' ! unat (len AND 0xf)]"

definition pkt_digit :: "byte \<Rightarrow> byte result" where
  "pkt_digit c =
     (if 48 \<le> c \<and> c \<le> 57 then Ok (c - 48)
      else if 97 \<le> c \<and> c \<le> 102 then Ok (c - 97 + 10)
      else if 65 \<le> c \<and> c \<le> 70 then Ok (c - 65 + 10)
      else Err (Protocol ''pkt-line: non-hex length prefix''))"

text \<open>The loop of \<open>parse_len_prefix\<close> over the four characters.\<close>

fun parse_len_loop :: "16 word \<Rightarrow> bytes \<Rightarrow> 16 word result" where
  "parse_len_loop v [] = Ok v"
| "parse_len_loop v (c # cs) =
     bind_res (pkt_digit c) (\<lambda>d. parse_len_loop (push_bit 4 v OR ucast d) cs)"

definition parse_len_prefix :: "bytes \<Rightarrow> 16 word result" where
  "parse_len_prefix b = parse_len_loop 0 (take 4 b)"

definition encode_data :: "bytes \<Rightarrow> bytes result" where
  "encode_data p =
     (let total = length p + 4
      in if MAX_PKTLINE_LEN < total then Err (Protocol ''pkt-line: payload too long'')
         else Ok (write_len_prefix (of_nat total) @ p))"

text \<open>\<open>encode_control\<close> on a data packet is \<open>unreachable!\<close>; \<open>encode\<close> never calls it there.\<close>

fun encode_control :: "packet \<Rightarrow> bytes option" where
  "encode_control Flush = Some (bstr ''0000'')"
| "encode_control Delim = Some (bstr ''0001'')"
| "encode_control ResponseEnd = Some (bstr ''0002'')"
| "encode_control (Data _) = None"

fun encode :: "packet \<Rightarrow> bytes result" where
  "encode (Data p) = encode_data p"
| "encode other = Ok (the (encode_control other))"

definition decode :: "bytes \<Rightarrow> (packet \<times> nat) option result" where
  "decode input =
     (if length input < 4 then Ok None
      else bind_res (parse_len_prefix (take 4 input)) (\<lambda>len.
        if len = 0 then Ok (Some (Flush, 4))
        else if len = 1 then Ok (Some (Delim, 4))
        else if len = 2 then Ok (Some (ResponseEnd, 4))
        else if len = 3 then Err (Protocol ''pkt-line: invalid length 3'')
        else let n = unat len
             in if \<not> (4 \<le> n \<and> n \<le> MAX_PKTLINE_LEN)
                then Err (Protocol ''pkt-line: length out of range'')
                else if length input < n then Ok None
                else Ok (Some (Data (take (n - 4) (drop 4 input)), n))))"

lemma decode_consumed:
  "decode input = Ok (Some (p, n)) \<Longrightarrow> 4 \<le> n \<and> n \<le> MAX_PKTLINE_LEN \<and> n \<le> length input"
  by (auto simp: decode_def bind_res_def Let_def MAX_PKTLINE_LEN_def split: if_splits result.splits)

function decode_all :: "bytes \<Rightarrow> packet list result" where
  "decode_all input =
     (if input = [] then Ok []
      else bind_res (decode input) (\<lambda>r.
        case r of
          Some (p, n) \<Rightarrow> bind_res (decode_all (drop n input)) (\<lambda>ps. Ok (p # ps))
        | None \<Rightarrow> Err (Protocol ''pkt-line: trailing partial packet'')))"
  by pat_completeness auto
termination
  by (relation "measure length") (auto dest: decode_consumed)

declare decode_all.simps [simp del]

text \<open>\<open>k\<close> counts the packets already in \<open>out\<close>.\<close>

function decode_bounded_loop :: "bytes \<Rightarrow> nat \<Rightarrow> nat \<Rightarrow> packet list result" where
  "decode_bounded_loop input max_packets k =
     (if input = [] then Ok []
      else bind_res (decode input) (\<lambda>r.
        case r of
          Some (p, n) \<Rightarrow>
            if max_packets \<le> k then Err (Protocol ''pkt-line: too many packets'')
            else bind_res (decode_bounded_loop (drop n input) max_packets (k + 1)) (\<lambda>ps. Ok (p # ps))
        | None \<Rightarrow> Err (Protocol ''pkt-line: trailing partial packet'')))"
  by pat_completeness auto
termination
  by (relation "measure (\<lambda>(i, m, k). length i)") (auto dest: decode_consumed)

declare decode_bounded_loop.simps [simp del]

definition decode_all_bounded :: "bytes \<Rightarrow> nat \<Rightarrow> packet list result" where
  "decode_all_bounded input max_packets = decode_bounded_loop input max_packets 0"

definition MAX_PACKETS :: nat where
  "MAX_PACKETS = 65536"

section \<open>Lemmas\<close>

lemma pkt_digit_iff: "pkt_digit c = Ok d \<longleftrightarrow> hex_val c = Ok d"
  by (auto simp: pkt_digit_def hex_val_def)

lemma hex_table: "unat v < 16 \<Longrightarrow>
    bstr ''0123456789abcdef'' ! unat v = hex_digit (ucast (v :: 16 word))"
  by (simp add: hex_digit_def unsigned_ucast_eq take_bit_eq_mod)

lemma nibble16: "unat (take_bit 4 (v :: 16 word)) < 16"
  by (simp add: unat_take_bit)

lemma write_len_prefix_eq:
  "write_len_prefix v = map (\<lambda>k. hex_digit (ucast (take_bit 4 (drop_bit k v)))) [12, 8, 4, 0]"
  by (simp only: write_len_prefix_def and_mask_take_bit hex_table nibble16 drop_bit_0 id_apply list.map)

lemma ucast_nibble: "unat (ucast (take_bit 4 (v :: 16 word)) :: byte) < 16"
    "ucast (ucast (take_bit 4 v) :: byte) = take_bit 4 v"
proof -
  show "unat (ucast (take_bit 4 v) :: byte) < 16"
    using nibble16 [of v] by (simp add: unsigned_ucast_eq take_bit_eq_mod)
  show "ucast (ucast (take_bit 4 v) :: byte) = take_bit 4 v"
    by (rule bit_word_eqI) (auto simp: bit_simps)
qed

lemma nibbles16:
  "push_bit 4 (push_bit 4 (push_bit 4 (take_bit 4 (drop_bit 12 v)) OR take_bit 4 (drop_bit 8 v))
     OR take_bit 4 (drop_bit 4 v)) OR take_bit 4 v = (v :: 16 word)"
proof -
  have "take_bit 4 (drop_bit 12 v) = drop_bit 12 v"
  proof (rule take_bit_small)
    have "unat v < 65536" using unsigned_less [where ?'a = nat and w = v] by simp
    then show "unat (drop_bit 12 v) < 2 ^ 4" by (simp add: unat_drop_bit less_mult_imp_div_less)
  qed
  then show ?thesis
    using join_take_drop [of 4 "drop_bit 8 v"] join_take_drop [of 4 "drop_bit 4 v"]
      join_take_drop [of 4 v] by simp
qed

lemma parse_write_len [codec]: "parse_len_prefix (write_len_prefix v @ rest) = Ok v"
proof -
  have d: "pkt_digit (hex_digit (ucast (take_bit 4 (w :: 16 word)))) = Ok (ucast (take_bit 4 w))" for w
    by (simp add: pkt_digit_iff hex_val_digit ucast_nibble)
  show ?thesis
    using nibbles16 [of v]
    by (simp add: parse_len_prefix_def write_len_prefix_eq d ucast_nibble del: drop_bit_take_bit)
qed

lemma parse_len_sound:
  assumes "parse_len_prefix b = Ok v" and "length b = 4"
  shows "map ascii_lower b = write_len_prefix v"
proof -
  obtain c1 c2 c3 c4 where b: "b = [c1, c2, c3, c4]"
    using assms(2) by (auto simp: length_Suc_conv numeral_eq_Suc)
  from assms(1) obtain d1 d2 d3 d4 where d: "hex_val c1 = Ok d1" "hex_val c2 = Ok d2"
      "hex_val c3 = Ok d3" "hex_val c4 = Ok d4"
    and v: "v = push_bit 4 (push_bit 4 (push_bit 4 (ucast d1) OR ucast d2) OR ucast d3) OR ucast d4"
    by (auto simp: parse_len_prefix_def b bind_res_eq_Ok pkt_digit_iff)
  have n: "unat (ucast x :: 16 word) < 2 ^ 4" if "hex_val c = Ok x" for c x
    using hex_val_bound [OF that] by (simp add: unsigned_ucast_eq take_bit_eq_mod)
  note n = n [OF d(1)] n [OF d(2)] n [OF d(3)] n [OF d(4)]
  define x2 where "x2 = push_bit 4 (ucast d1) OR (ucast d2 :: 16 word)"
  define x3 where "x3 = push_bit 4 x2 OR (ucast d3 :: 16 word)"
  have b2: "unat x2 < 2 ^ 8" unfolding x2_def using unat_join [OF n(1,2)] by simp
  have b3: "unat x3 < 2 ^ 12" unfolding x3_def using unat_join [OF b2 n(3)] by simp
  have v: "v = push_bit 4 x3 OR ucast d4" by (simp add: v x2_def x3_def)
  have j1: "drop_bit 4 v = x3" "take_bit 4 v = ucast d4"
    unfolding v by (rule drop_bit_join; use n(4) b3 in simp)+
  have j2: "drop_bit 4 x3 = x2" "take_bit 4 x3 = ucast d3"
    unfolding x3_def by (rule drop_bit_join; use n(3) b2 in simp)+
  have j3: "drop_bit 4 x2 = ucast d1" "take_bit 4 x2 = ucast d2"
    unfolding x2_def by (rule drop_bit_join; use n(1,2) in simp)+
  have k: "drop_bit 8 v = x2" "drop_bit 12 v = ucast d1"
    using j1 j2 j3 drop_bit_drop_bit [of 4 4 v] drop_bit_drop_bit [of 8 4 v] by simp_all
  have t: "take_bit 4 (ucast d1 :: 16 word) = ucast d1" by (rule take_bit_small [OF n(1)])
  have u: "ucast (ucast x :: 16 word) = (x :: byte)" for x
    by (rule bit_word_eqI) (auto simp: bit_simps)
  show ?thesis
    by (simp add: write_len_prefix_eq b k j1 j2 j3 u t hex_digit_val [OF d(1)]
        hex_digit_val [OF d(2)] hex_digit_val [OF d(3)] hex_digit_val [OF d(4)])
qed

lemma length_write_len [simp]: "length (write_len_prefix v) = 4"
  by (simp add: write_len_prefix_def)

lemma encode_length:
  "encode p = Ok bs \<Longrightarrow> 4 \<le> length bs \<and> length bs \<le> MAX_PKTLINE_LEN"
  by (cases p) (auto simp: encode_data_def Let_def MAX_PKTLINE_LEN_def split: if_splits)

lemma encode_control_prefix:
  "encode Flush = Ok (write_len_prefix 0)" "encode Delim = Ok (write_len_prefix 1)"
  "encode ResponseEnd = Ok (write_len_prefix 2)"
  by (simp_all add: write_len_prefix_def)

lemma decode_prefix: "decode (write_len_prefix v @ r) =
   (if v = 0 then Ok (Some (Flush, 4)) else if v = 1 then Ok (Some (Delim, 4))
    else if v = 2 then Ok (Some (ResponseEnd, 4))
    else if v = 3 then Err (Protocol ''pkt-line: invalid length 3'')
    else if \<not> (4 \<le> unat v \<and> unat v \<le> MAX_PKTLINE_LEN) then Err (Protocol ''pkt-line: length out of range'')
    else if length r + 4 < unat v then Ok None
    else Ok (Some (Data (take (unat v - 4) r), unat v)))"
  using parse_write_len [of v "[]"] by (simp add: decode_def Let_def)

lemma data_len:
  assumes "n + 4 \<le> MAX_PKTLINE_LEN"
  shows "unat (of_nat (n + 4) :: 16 word) = n + 4" "of_nat (n + 4) \<notin> {0, 1, 2, 3 :: 16 word}"
proof -
  show u: "unat (of_nat (n + 4) :: 16 word) = n + 4"
    by (simp only: unat_of_nat) (use assms in \<open>simp add: MAX_PKTLINE_LEN_def\<close>)
  show "of_nat (n + 4) \<notin> {0, 1, 2, 3 :: 16 word}"
    by (simp only: word_unat_eq_iff u insert_iff empty_iff) simp
qed

lemma decode_encode [codec]: "encode p = Ok bs \<Longrightarrow> decode (bs @ rest) = Ok (Some (p, length bs))"
proof (cases p)
  case (Data d)
  moreover assume "encode p = Ok bs"
  ultimately have bs: "bs = write_len_prefix (of_nat (length d + 4)) @ d"
    and l: "length d + 4 \<le> MAX_PKTLINE_LEN"
    by (auto simp: encode_data_def Let_def split: if_splits)
  from data_len [OF l] l show ?thesis
    by (simp only: bs append_assoc decode_prefix) (simp add: Data)
qed (auto simp: encode_control_prefix decode_prefix simp del: encode.simps)

lemma decode_incomplete:
  assumes "encode p = Ok bs" and "k < length bs"
  shows "decode (take k bs) = Ok None"
proof (cases "k < 4")
  case True
  then show ?thesis by (simp add: decode_def min_less_iff_disj)
next
  case False
  show ?thesis
  proof (cases p)
    case (Data d)
    with assms have bs: "bs = write_len_prefix (of_nat (length d + 4)) @ d"
      and l: "length d + 4 \<le> MAX_PKTLINE_LEN"
      by (auto simp: encode_data_def Let_def split: if_splits)
    with False assms(2) have "take k bs = write_len_prefix (of_nat (length d + 4)) @ take (k - 4) d"
        "length (take (k - 4) d) < length d"
      by auto
    with data_len [OF l] l show ?thesis by (simp only: decode_prefix) simp
  qed (use assms False in \<open>auto simp: encode_control_prefix simp del: encode.simps\<close>)
qed

lemma decode_sound:
  assumes "decode input = Ok (Some (p, n))"
  shows "encode p = Ok (map ascii_lower (take 4 input) @ drop 4 (take n input))"
proof -
  have l: "\<not> length input < 4"
    using assms by (auto simp: decode_def split: if_splits)
  then obtain v where v: "parse_len_prefix (take 4 input) = Ok v"
    using assms by (auto simp: decode_def bind_res_eq_Ok)
  then have pre: "map ascii_lower (take 4 input) = write_len_prefix v"
    using l parse_len_sound by simp
  consider "v = 0" | "v = 1" | "v = 2" | "v \<noteq> 0" "v \<noteq> 1" "v \<noteq> 2" by blast
  then show ?thesis
  proof cases
    case 4
    with assms l v have n: "v \<noteq> 3" "n = unat v" "4 \<le> n" "n \<le> MAX_PKTLINE_LEN" "n \<le> length input"
      and p: "p = Data (take (n - 4) (drop 4 input))"
      by (auto simp: decode_def Let_def split: if_splits)
    then have "of_nat (length (take (n - 4) (drop 4 input)) + 4) = v"
      by simp
    with n show ?thesis
      by (simp add: p pre encode_data_def Let_def drop_take)
  qed (use assms l v in \<open>auto simp: decode_def pre encode_control_prefix simp del: encode.simps\<close>)
qed

lemma pkt_digit_lower: "pkt_digit (ascii_lower c) = pkt_digit c"
proof (cases "65 \<le> c \<and> c \<le> 90")
  case True
  then have "unat (c + 32) = unat c + 32"
    by (simp add: unat_word_ariths word_le_nat_alt)
  with True show ?thesis
    by (simp add: pkt_digit_def ascii_lower_def word_le_nat_alt)
next
  case False
  then show ?thesis by (auto simp: ascii_lower_def)
qed

lemma parse_len_loop_lower: "parse_len_loop v (map ascii_lower b) = parse_len_loop v b"
  by (induction b arbitrary: v) (simp_all add: pkt_digit_lower)

lemma decode_lower:
  assumes "4 \<le> length input"
  shows "decode (map ascii_lower (take 4 input) @ drop 4 input) = decode input"
proof -
  let ?x = "map ascii_lower (take 4 input) @ drop 4 input"
  have x: "length ?x = length input" "take 4 ?x = map ascii_lower (take 4 input)"
      "drop 4 ?x = drop 4 input"
    using assms by simp_all
  have "parse_len_prefix (map ascii_lower (take 4 input)) = parse_len_prefix (take 4 input)"
    by (simp add: parse_len_prefix_def take_map parse_len_loop_lower)
  then show ?thesis by (simp only: decode_def x)
qed

lemma decode_all_Cons:
  "encode p = Ok bs \<Longrightarrow> decode_all (bs @ rest) = bind_res (decode_all rest) (\<lambda>ps. Ok (p # ps))"
  using encode_length [of p bs] decode_encode [of p bs rest]
  by (auto simp: decode_all.simps [of "bs @ rest"])

lemma decode_bounded_iff:
  "decode_bounded_loop input m k = Ok ps \<longleftrightarrow> decode_all input = Ok ps \<and> (ps = [] \<or> k + length ps \<le> m)"
proof (induction input m k arbitrary: ps rule: decode_bounded_loop.induct)
  case (1 input m k)
  show ?case
  proof (cases "input = [] \<or> (\<nexists>p n. decode input = Ok (Some (p, n)))")
    case True
    then show ?thesis
      by (cases "decode input")
        (auto simp: decode_all.simps [of input] decode_bounded_loop.simps [of input] split: option.splits)
  next
    case False
    then obtain p n where d: "decode input = Ok (Some (p, n))" and i: "input \<noteq> []" by auto
    have IH: "decode_bounded_loop (drop n input) m (k + 1) = Ok qs \<longleftrightarrow>
        decode_all (drop n input) = Ok qs \<and> (qs = [] \<or> k + 1 + length qs \<le> m)" if "k < m" for qs
      using "1.IH" [OF i d refl refl] that by simp
    show ?thesis
      using i d IH
      by (auto simp: decode_all.simps [of input] decode_bounded_loop.simps [of input] bind_res_eq_Ok not_le
          intro: order_trans)
  qed
qed

section \<open>Properties\<close>

text \<open>
  \<open>decode\<close> reads exactly what \<open>encode\<close> writes: it returns packet \<open>p\<close> and the count \<open>n\<close>
  if and only if the first \<open>n\<close> bytes of the buffer are the encoding of \<open>p\<close>, up to the case
  of the four length characters. What follows those bytes has no influence.
\<close>

theorem decode_iff:
  "decode input = Ok (Some (p, n)) \<longleftrightarrow>
     4 \<le> n \<and> n \<le> length input
     \<and> encode p = Ok (map ascii_lower (take 4 input) @ drop 4 (take n input))"
proof
  assume "decode input = Ok (Some (p, n))"
  with decode_sound [OF this] decode_consumed [OF this]
  show "4 \<le> n \<and> n \<le> length input
     \<and> encode p = Ok (map ascii_lower (take 4 input) @ drop 4 (take n input))" by simp
next
  assume *: "4 \<le> n \<and> n \<le> length input
     \<and> encode p = Ok (map ascii_lower (take 4 input) @ drop 4 (take n input))"
  have "drop 4 (take n input) @ drop n input = drop 4 input"
    using * by (metis append_take_drop_id drop_append length_take min.absorb2 diff_is_0_eq drop_0)
  with * decode_encode [of p _ "drop n input"] decode_lower [of input]
  show "decode input = Ok (Some (p, n))" by simp
qed

text \<open>
  A stream of packets survives the framing: the concatenation of the encodings decodes
  to the packets in order, and a reader that has only part of a packet's encoding is told
  to wait (\<open>Ok(None)\<close>), never given an error or another packet.
\<close>

theorem decode_all_stream:
  assumes "map encode ps = map Ok bss"
  shows "decode_all (concat bss) = Ok ps
    \<and> (\<forall>i k. i < length bss \<longrightarrow> k < length (bss ! i) \<longrightarrow> decode (take k (bss ! i)) = Ok None)"
proof (intro conjI allI impI)
  show "decode_all (concat bss) = Ok ps"
    using assms
    by (induction ps arbitrary: bss) (auto simp: decode_all_Cons decode_all.simps [of "[]"] Cons_eq_map_conv)
  fix i k
  assume "i < length bss" "k < length (bss ! i)"
  then show "decode (take k (bss ! i)) = Ok None"
    using assms by (intro decode_incomplete [of "ps ! i"]) (auto simp: list_eq_iff_nth_eq)
qed

theorem decode_all_stream_witness:
  "decode_all (bstr ''0009want '' @ bstr ''0000'') = Ok [Data (bstr ''want ''), Flush]"
proof -
  have "map encode [Data (bstr ''want ''), Flush] = map Ok [bstr ''0009want '', bstr ''0000'']"
    by (simp add: encode_data_def write_len_prefix_def MAX_PKTLINE_LEN_def)
  from decode_all_stream [OF this] show ?thesis by simp
qed

text \<open>
  \<open>decode_all_bounded\<close> is \<open>decode_all\<close> with a limit: it returns a list exactly when
  \<open>decode_all\<close> returns that list and the list has at most \<open>max_packets\<close> packets.
\<close>

theorem decode_all_bounded_iff:
  "decode_all_bounded input m = Ok ps \<longleftrightarrow> decode_all input = Ok ps \<and> length ps \<le> m"
  by (auto simp: decode_all_bounded_def decode_bounded_iff)

text \<open>
  The smallest data packet carries no byte: \<open>encode_data\<close> writes the empty payload as
  \<open>0004\<close> and \<open>decode\<close> reads it back as an empty packet.
\<close>

theorem empty_data_packet:
  "encode (Data []) = Ok (bstr ''0004'') \<and> decode (bstr ''0004'') = Ok (Some (Data [], 4))"
proof
  show e: "encode (Data []) = Ok (bstr ''0004'')"
    by (simp add: encode_data_def write_len_prefix_def MAX_PKTLINE_LEN_def)
  show "decode (bstr ''0004'') = Ok (Some (Data [], 4))"
    using decode_encode [OF e, of "[]"] by simp
qed

end
