(* ===== verification/Capabilities.thy ===== *)
theory Capabilities
  imports Oid
begin

text \<open>
  Capability lists of the smart protocol: src/src/protocol/capabilities.rs. A set is the
  \<open>Vec\<close> of its items in order; \<open>caps_parse\<close> and \<open>to_wire\<close> are the wire form.
\<close>

record capabilities =
  items :: "(bytes \<times> bytes option) list"

definition caps_new :: capabilities where
  "caps_new = \<lparr>items = []\<rparr>"

definition caps_token :: "bytes \<Rightarrow> bytes \<times> bytes option" where
  "caps_token token =
     (case split_once 61 token of Some (k, v) \<Rightarrow> (k, Some v) | None \<Rightarrow> (token, None))"

definition caps_parse :: "bytes \<Rightarrow> capabilities" where
  "caps_parse s = \<lparr>items = map caps_token (filter (\<lambda>t. t \<noteq> []) (split_on 32 s))\<rparr>"

definition caps_has :: "capabilities \<Rightarrow> bytes \<Rightarrow> bool" where
  "caps_has c key \<longleftrightarrow> list_ex (\<lambda>(k, v). k = key) (items c)"

definition caps_get :: "capabilities \<Rightarrow> bytes \<Rightarrow> bytes option" where
  "caps_get c key =
     (case List.find (\<lambda>(k, v). k = key) (items c) of Some (k, v) \<Rightarrow> v | None \<Rightarrow> None)"

definition add_flag :: "bytes \<Rightarrow> capabilities \<Rightarrow> capabilities" where
  "add_flag key c = c\<lparr>items := items c @ [(key, None)]\<rparr>"

definition add_value :: "bytes \<Rightarrow> bytes \<Rightarrow> capabilities \<Rightarrow> capabilities" where
  "add_value key v c = c\<lparr>items := items c @ [(key, Some v)]\<rparr>"

definition caps_part :: "bytes \<times> bytes option \<Rightarrow> bytes" where
  "caps_part i = (case i of (k, Some v) \<Rightarrow> k @ 61 # v | (k, None) \<Rightarrow> k)"

definition to_wire :: "capabilities \<Rightarrow> bytes" where
  "to_wire c = join_with 32 (map caps_part (items c))"

definition negotiate_flags :: "capabilities \<Rightarrow> bytes list \<Rightarrow> capabilities" where
  "negotiate_flags c wanted =
     foldl (\<lambda>out w. if caps_has c w then add_flag w out else out) caps_new wanted"

definition object_format :: "capabilities \<Rightarrow> hash_algo option" where
  "object_format c =
     (let f = caps_get c (bstr ''object-format'')
      in if f = Some (bstr ''sha1'') then Some Sha1
         else if f = Some (bstr ''sha256'') then Some Sha256 else None)"

text \<open>Items that the wire form can carry.\<close>

definition wf_cap :: "bytes \<times> bytes option \<Rightarrow> bool" where
  "wf_cap i \<longleftrightarrow> fst i \<noteq> [] \<and> 32 \<notin> set (fst i) \<and> 61 \<notin> set (fst i)
     \<and> (case snd i of Some v \<Rightarrow> 32 \<notin> set v | None \<Rightarrow> True)"

section \<open>Lemmas\<close>

lemma caps_part_plain: "wf_cap i \<Longrightarrow> caps_part i \<noteq> [] \<and> 32 \<notin> set (caps_part i)"
  by (cases i) (auto simp: wf_cap_def caps_part_def split: option.splits)

lemma caps_token_part [codec]: "wf_cap i \<Longrightarrow> caps_token (caps_part i) = i"
  by (cases i)
    (auto simp: wf_cap_def caps_part_def caps_token_def split_once_append
      split_once_None [THEN iffD2] split: option.splits)

lemma negotiate_flags_items:
  "items (negotiate_flags c wanted) = map (\<lambda>w. (w, None)) (filter (caps_has c) wanted)"
proof -
  have "items (foldl (\<lambda>out w. if caps_has c w then add_flag w out else out) acc wanted) =
      items acc @ map (\<lambda>w. (w, None)) (filter (caps_has c) wanted)" for acc
    by (induction wanted arbitrary: acc) (auto simp: add_flag_def)
  then show ?thesis by (simp add: negotiate_flags_def caps_new_def)
qed

lemma caps_parse_to_wire [codec]:
  assumes "\<forall>i\<in>set (items c). wf_cap i"
  shows "caps_parse (to_wire c) = c"
proof (cases "items c = []")
  case True
  then show ?thesis by (simp add: caps_parse_def to_wire_def)
next
  case False
  have "split_on 32 (to_wire c) = map caps_part (items c)"
    unfolding to_wire_def
    by (rule split_join) (use False assms caps_part_plain in auto)
  moreover have "filter (\<lambda>t. t \<noteq> []) (map caps_part (items c)) = map caps_part (items c)"
    using assms caps_part_plain by (auto simp: filter_id_conv)
  moreover have "map (caps_token \<circ> caps_part) (items c) = items c"
    using assms by (auto simp: codec intro: map_idI)
  ultimately show ?thesis by (simp add: caps_parse_def)
qed

section \<open>Properties\<close>

text \<open>
  A capability list built from items the wire can carry (no spaces, no \<open>=\<close> in a key, no
  empty key) survives \<open>to_wire\<close> and \<open>parse\<close> unchanged, flags and valued capabilities alike.
\<close>

theorem capabilities_roundtrip:
  assumes "\<forall>i\<in>set (items c). wf_cap i"
  shows "caps_parse (to_wire c) = c"
  by (rule caps_parse_to_wire [OF assms])

theorem capabilities_roundtrip_witness:
  "caps_parse (bstr ''ofs-delta agent=git/2'') =
     \<lparr>items = [(bstr ''ofs-delta'', None), (bstr ''agent'', Some (bstr ''git/2''))]\<rparr>"
  using capabilities_roundtrip
    [of "\<lparr>items = [(bstr ''ofs-delta'', None), (bstr ''agent'', Some (bstr ''git/2''))]\<rparr>"]
  by (simp add: wf_cap_def to_wire_def caps_part_def)

text \<open>
  Negotiation requests only what the peer offered: the result of \<open>negotiate_flags\<close> has a
  capability exactly when it is wanted and advertised, in the order of the wanted list, and
  none of the results carries a value.
\<close>

theorem negotiate_flags_sound:
  "map fst (items (negotiate_flags c wanted)) = filter (caps_has c) wanted
   \<and> (caps_has (negotiate_flags c wanted) k \<longleftrightarrow> k \<in> set wanted \<and> caps_has c k)
   \<and> caps_get (negotiate_flags c wanted) k = None"
proof (intro conjI)
  show "map fst (items (negotiate_flags c wanted)) = filter (caps_has c) wanted"
    by (simp add: negotiate_flags_items comp_def)
  show "caps_has (negotiate_flags c wanted) k \<longleftrightarrow> k \<in> set wanted \<and> caps_has c k"
    unfolding caps_has_def [of "negotiate_flags c wanted"]
    by (auto simp: negotiate_flags_items list_ex_iff)
  show "caps_get (negotiate_flags c wanted) k = None"
    by (auto simp: caps_get_def negotiate_flags_items split: option.splits dest!: find_Some_iff [THEN iffD1])
qed

end
