(* ===== verification/Ignore.thy ===== *)
theory Ignore
  imports Prelude
begin

text \<open>
  Gitignore matching: src/src/ignore.rs. Patterns are compiled line by line (\<open>add_line\<close>), a
  floating pattern is one glob matched against the components of a path, and an anchored
  pattern is matched by the reachability table of \<open>match_anchored\<close>, kept here as the flat
  boolean array of the source.

  The loop of \<open>glob_seg\<close> backtracks; it runs on a fuel of
  \<open>(|pat| + 1) * (|text| + 1)^2 + |text| + 1\<close> steps, which \<open>glob_loop_terminates\<close> shows to be
  enough for every pattern and text: each step shortens, in lexicographic order, the
  pattern after the recorded star, the text from its anchor, the text that is left.
\<close>

section \<open>Compiling patterns\<close>

record pattern =
  negated :: bool
  dir_only :: bool
  anchored :: bool
  toks :: "bytes list"

record ignore =
  patterns :: "pattern list"

definition ignore_new :: ignore where
  "ignore_new = \<lparr>patterns = []\<rparr>"

definition strip_last :: "byte \<Rightarrow> bytes \<Rightarrow> bytes" where
  "strip_last c l = (if l \<noteq> [] \<and> last l = c then butlast l else l)"

definition trim_spaces :: "bytes \<Rightarrow> bytes" where
  "trim_spaces l = rev (dropWhile (\<lambda>c. c = 32) (rev l))"

text \<open>The pattern that \<open>add_line\<close> pushes, if it pushes one.\<close>

definition compile_line :: "bytes \<Rightarrow> pattern option" where
  "compile_line raw =
     (let l1 = trim_spaces (strip_last 13 raw)
      in if l1 = [] \<or> hd l1 = 35 then None
         else
           let neg = (hd l1 = 33);
               l2 = (if neg then tl l1 else l1);
               dir = (l2 \<noteq> [] \<and> last l2 = 47);
               l3 = (if dir then butlast l2 else l2);
               leading_slash = (l3 \<noteq> [] \<and> hd l3 = 47);
               l4 = (if leading_slash then tl l3 else l3);
               anch = (leading_slash \<or> 47 \<in> set l4);
               ts = filter (\<lambda>s. s \<noteq> []) (split_on 47 l4)
           in if ts = [] then None
              else Some \<lparr>negated = neg, dir_only = dir, anchored = anch, toks = ts\<rparr>)"

definition add_line :: "ignore \<Rightarrow> bytes \<Rightarrow> ignore" where
  "add_line ig raw =
     (case compile_line raw of None \<Rightarrow> ig | Some p \<Rightarrow> ig\<lparr>patterns := patterns ig @ [p]\<rparr>)"

definition add_bytes :: "ignore \<Rightarrow> bytes \<Rightarrow> ignore" where
  "add_bytes ig data = foldl add_line ig (split_on 10 data)"

definition ignore_is_empty :: "ignore \<Rightarrow> bool" where
  "ignore_is_empty ig \<longleftrightarrow> patterns ig = []"

section \<open>Globbing one component\<close>

text \<open>
  The loop of \<open>glob_seg\<close> with its two cursors as suffixes; \<open>star\<close> is the recorded star: the
  pattern after it and the text from \<open>star_t\<close> on. \<open>None\<close> means that the fuel ran out.
\<close>

fun glob_loop :: "nat \<Rightarrow> bytes \<Rightarrow> bytes \<Rightarrow> (bytes \<times> bytes) option \<Rightarrow> bool option" where
  "glob_loop 0 p t star = None"
| "glob_loop (Suc n) p [] star = Some (dropWhile (\<lambda>c. c = 42) p = [])"
| "glob_loop (Suc n) p (x # t) star =
     (if p \<noteq> [] \<and> (hd p = 63 \<or> hd p = x) then glob_loop n (tl p) t star
      else if p \<noteq> [] \<and> hd p = 42 then glob_loop n (tl p) (x # t) (Some (tl p, x # t))
      else (case star of
              Some (sp, st) \<Rightarrow> glob_loop n sp (tl st) (Some (sp, tl st))
            | None \<Rightarrow> Some False))"

definition glob_fuel :: "bytes \<Rightarrow> bytes \<Rightarrow> nat" where
  "glob_fuel pat tx = (length pat + 1) * (length tx + 1) ^ 2 + length tx + 1"

definition glob_seg :: "bytes \<Rightarrow> bytes \<Rightarrow> bool" where
  "glob_seg pat tx \<longleftrightarrow> glob_loop (glob_fuel pat tx) pat tx None = Some True"

section \<open>Matching a path\<close>

definition dstar :: bytes where
  "dstar = [42, 42]"

text \<open>The body of the two nested loops of \<open>match_anchored\<close> at cell \<open>(i, j)\<close>.\<close>

definition reach_cell :: "bytes list \<Rightarrow> bytes list \<Rightarrow> bool list \<Rightarrow> nat \<times> nat \<Rightarrow> bool list" where
  "reach_cell ts comps reach ij =
     (let (i, j) = ij; width = length comps + 1
      in if \<not> reach ! (i * width + j) then reach
         else if i < length ts then
           (if ts ! i = dstar then
              (let reach1 = reach[(i + 1) * width + j := True]
               in if j < length comps then reach1[i * width + (j + 1) := True] else reach1)
            else if j < length comps \<and> glob_seg (ts ! i) (comps ! j)
            then reach[(i + 1) * width + (j + 1) := True]
            else reach)
         else reach)"

definition reach_table :: "bytes list \<Rightarrow> bytes list \<Rightarrow> bool list" where
  "reach_table ts comps =
     foldl (reach_cell ts comps)
       ((replicate ((length ts + 1) * (length comps + 1)) False)[0 := True])
       (List.product [0..<length ts + 1] [0..<length comps + 1])"

definition match_anchored :: "pattern \<Rightarrow> bytes list \<Rightarrow> bool" where
  "match_anchored p comps =
     (let t = length (toks p); c = length comps; reach = reach_table (toks p) comps
      in list_ex (\<lambda>j. reach ! (t * (c + 1) + j) \<and> (\<not> dir_only p \<or> j < c)) [0..<c + 1])"

definition pattern_matches :: "pattern \<Rightarrow> bytes list \<Rightarrow> bool" where
  "pattern_matches p comps =
     (if anchored p then match_anchored p comps
      else
        let tok = hd (toks p);
            limit = (if dir_only p then length comps - 1 else length comps)
        in list_ex (glob_seg tok) (take limit comps))"

definition path_comps :: "bytes \<Rightarrow> bytes list" where
  "path_comps path = filter (\<lambda>s. s \<noteq> []) (split_on 47 path)"

definition is_ignored :: "ignore \<Rightarrow> bytes \<Rightarrow> bool" where
  "is_ignored ig path =
     (let comps = path_comps path
      in if comps = [] then False
         else foldl (\<lambda>ignored p. if pattern_matches p comps then \<not> negated p else ignored)
                False (patterns ig))"

section \<open>What a glob means\<close>

fun glob_spec :: "bytes \<Rightarrow> bytes \<Rightarrow> bool" where
  "glob_spec [] t \<longleftrightarrow> t = []"
| "glob_spec (c # p) t \<longleftrightarrow>
     (if c = 42 then (\<exists>k\<le>length t. glob_spec p (drop k t))
      else t \<noteq> [] \<and> (c = 63 \<or> c = hd t) \<and> glob_spec p (tl t))"

text \<open>The tokens of an anchored pattern match exactly these components.\<close>

fun toks_spec :: "bytes list \<Rightarrow> bytes list \<Rightarrow> bool" where
  "toks_spec [] cs \<longleftrightarrow> cs = []"
| "toks_spec (tk # ts) cs \<longleftrightarrow>
     (if tk = dstar then (\<exists>k\<le>length cs. toks_spec ts (drop k cs))
      else cs \<noteq> [] \<and> glob_seg tk (hd cs) \<and> toks_spec ts (tl cs))"

section \<open>Lemmas\<close>

subsection \<open>The glob loop\<close>

definition glob_inv :: "bytes \<Rightarrow> bytes \<Rightarrow> bytes \<Rightarrow> bytes \<Rightarrow> (bytes \<times> bytes) option \<Rightarrow> bool" where
  "glob_inv pat tx p t star \<longleftrightarrow>
     length t \<le> length tx \<and> length p \<le> length pat
     \<and> (case star of None \<Rightarrow> True
        | Some (sp, st) \<Rightarrow> length p \<le> length sp \<and> length sp \<le> length pat
            \<and> length t \<le> length st \<and> length st \<le> length tx)"

definition glob_size :: "bytes \<Rightarrow> bytes \<Rightarrow> bytes \<Rightarrow> (bytes \<times> bytes) option \<Rightarrow> nat" where
  "glob_size pat tx t star =
     (case star of None \<Rightarrow> (length pat + 1) * (length tx + 1) ^ 2 + length t
      | Some (sp, st) \<Rightarrow> length sp * (length tx + 1) ^ 2 + length st * (length tx + 1) + length t)"

lemma glob_size_star:
  assumes "a < (A :: nat)" and "b \<le> n" and "c \<le> n"
  shows "a * (n + 1) ^ 2 + b * (n + 1) + c < A * (n + 1) ^ 2"
proof -
  have "b * (n + 1) \<le> n * (n + 1)" using assms(2) by (rule mult_le_mono1)
  then have "b * (n + 1) + c < (n + 1) ^ 2" using assms(3) by (simp add: power2_eq_square)
  then have "a * (n + 1) ^ 2 + b * (n + 1) + c < (a + 1) * (n + 1) ^ 2" by simp
  also have "\<dots> \<le> A * (n + 1) ^ 2" using assms(1) by (intro mult_le_mono1) simp
  finally show ?thesis .
qed

lemma glob_loop_terminates:
  "glob_inv pat tx p t star \<Longrightarrow> glob_size pat tx t star < n \<Longrightarrow> \<exists>r. glob_loop n p t star = Some r"
proof (induction n p t star rule: glob_loop.induct)
  case (3 n p x t star)
  consider (step) "p \<noteq> []" "hd p = 63 \<or> hd p = x"
    | (star) "p \<noteq> []" "\<not> (hd p = 63 \<or> hd p = x)" "hd p = 42"
    | (retry) "\<not> (p \<noteq> [] \<and> (hd p = 63 \<or> hd p = x))" "\<not> (p \<noteq> [] \<and> hd p = 42)"
    by blast
  then show ?case
  proof cases
    case step
    with 3 show ?thesis
      by (auto simp: glob_inv_def glob_size_def neq_Nil_conv split: option.splits prod.splits)
  next
    case star
    then have "length (tl p) < (case star of None \<Rightarrow> length pat + 1 | Some (sp, st) \<Rightarrow> length sp)"
      using "3.prems"(1) by (auto simp: glob_inv_def neq_Nil_conv split: option.splits)
    then have "glob_size pat tx (x # t) (Some (tl p, x # t)) < glob_size pat tx (x # t) star"
      using glob_size_star [of "length (tl p)" _ "length (x # t)" "length tx" "length (x # t)"]
        "3.prems"(1) by (fastforce simp: glob_inv_def glob_size_def split: option.splits prod.splits)
    then have "\<exists>r. glob_loop n (tl p) (x # t) (Some (tl p, x # t)) = Some r"
      using 3 star by (intro "3.IH"(2)) (auto simp: glob_inv_def)
    with star show ?thesis by auto
  next
    case retry
    show ?thesis
    proof (cases star)
      case None
      with retry show ?thesis by auto
    next
      case (Some a)
      then obtain sp st where s: "star = Some (sp, st)" by (cases a) auto
      with "3.prems"(1) obtain y st' where st: "st = y # st'" by (cases st) (auto simp: glob_inv_def)
      have "glob_size pat tx st' (Some (sp, st')) < glob_size pat tx (x # t) star"
        using "3.prems"(1) by (simp add: glob_size_def glob_inv_def s st)
      then have "\<exists>r. glob_loop n sp (tl st) (Some (sp, tl st)) = Some r"
        using 3 retry s st by (intro "3.IH"(3)) (auto simp: glob_inv_def)
      with retry s show ?thesis by auto
    qed
  qed
qed auto

lemma glob_seg_total: "\<exists>r. glob_loop (glob_fuel pat tx) pat tx None = Some r"
  by (rule glob_loop_terminates [of pat tx])
    (simp_all add: glob_inv_def glob_size_def glob_fuel_def)

lemma glob_spec_star: "glob_spec (42 # p) t \<longleftrightarrow> (\<exists>k. glob_spec p (drop k t))"
proof
  assume "\<exists>k. glob_spec p (drop k t)"
  then obtain k where k: "glob_spec p (drop k t)" ..
  show "glob_spec (42 # p) t"
  proof (cases "k \<le> length t")
    case False
    with k have "glob_spec p (drop (length t) t)" by simp
    then show ?thesis by auto
  qed (use k in auto)
qed auto

lemma glob_spec_prefix:
  "42 \<notin> set u \<Longrightarrow> glob_spec (u @ p) t \<Longrightarrow> length u \<le> length t \<and> glob_spec p (drop (length u) t)"
  by (induction u arbitrary: t) (auto simp: neq_Nil_conv drop_Suc)

lemma glob_spec_empty: "glob_spec p [] \<longleftrightarrow> dropWhile (\<lambda>c. c = 42) p = []"
  by (induction p) auto

definition glob_alt :: "(bytes \<times> bytes) option \<Rightarrow> bool" where
  "glob_alt star \<longleftrightarrow> (case star of None \<Rightarrow> False | Some (sp, st) \<Rightarrow> \<exists>k>0. glob_spec sp (drop k st))"

lemma ex_drop: "(\<exists>k. P (drop k t)) \<longleftrightarrow> P t \<or> (\<exists>k>0. P (drop k t))"
  by (metis drop_0 gr_zeroI)

lemma ex_drop_tl: "(\<exists>k>0. P (drop k t)) \<longleftrightarrow> (\<exists>k. P (drop k (tl t)))"
  by (metis drop_Suc gr0_conv_Suc zero_less_Suc)

lemma glob_alt_retry:
  "glob_spec sp (tl st) \<or> glob_alt (Some (sp, tl st)) \<longleftrightarrow> glob_alt (Some (sp, st))"
  using ex_drop [of "glob_spec sp" "tl st"] ex_drop_tl [of "glob_spec sp" st]
  by (simp only: glob_alt_def option.case prod.case)

lemma glob_alt_star:
  "glob_spec p t \<or> glob_alt (Some (p, t)) \<longleftrightarrow> glob_spec (42 # p) t"
  using ex_drop [of "glob_spec p" t]
  by (simp only: glob_alt_def glob_spec_star option.case prod.case)

lemma glob_loop_sound:
  "glob_loop n p t star = Some True \<Longrightarrow> glob_spec p t \<or> glob_alt star"
proof (induction n p t star rule: glob_loop.induct)
  case (3 n p x t star)
  consider (step) c p' where "p = c # p'" "c = 63 \<or> c = x"
    | (star) p' where "p = 42 # p'" "x \<noteq> 42"
    | (retry) "\<not> (p \<noteq> [] \<and> (hd p = 63 \<or> hd p = x))" "\<not> (p \<noteq> [] \<and> hd p = 42)"
    by (cases p) auto
  then show ?case
  proof cases
    case step
    with 3 have "glob_spec p' t \<or> glob_alt star" by simp
    moreover have "glob_spec (42 # p') (42 # t)" if "glob_spec p' t"
      using that by (simp only: glob_spec_star) (metis drop_0 drop_Suc_Cons)
    ultimately show ?thesis using step by auto
  next
    case star
    with 3 have "glob_spec p' (x # t) \<or> glob_alt (Some (p', x # t))" by auto
    then show ?thesis by (simp only: star(1) glob_alt_star) simp
  next
    case retry
    with "3.prems" obtain sp st where s: "star = Some (sp, st)"
      by (auto split: option.splits)
    with 3 retry have "glob_spec sp (tl st) \<or> glob_alt (Some (sp, tl st))" by auto
    then show ?thesis by (simp only: s glob_alt_retry) simp
  qed
qed (auto simp: glob_spec_empty)

text \<open>The recorded star and the cursors are in step: since the star, only literals matched.\<close>

definition star_inv :: "bytes \<Rightarrow> bytes \<Rightarrow> (bytes \<times> bytes) option \<Rightarrow> bool" where
  "star_inv p t star \<longleftrightarrow>
     (case star of None \<Rightarrow> True
      | Some (sp, st) \<Rightarrow> 42 \<notin> set st
          \<and> (\<exists>u v. sp = u @ p \<and> st = v @ t \<and> length u = length v \<and> 42 \<notin> set u))"

lemma star_inv_step:
  assumes "star_inv (c # p) (x # t) star" and "c \<noteq> 42"
  shows "star_inv p t star"
proof (cases star)
  case (Some a)
  then obtain sp st u v where s: "star = Some (sp, st)" "sp = u @ c # p" "st = v @ x # t"
      "length u = length v" "42 \<notin> set u" "42 \<notin> set st"
    using assms(1) by (cases a) (auto simp: star_inv_def)
  have "\<exists>u' v'. sp = u' @ p \<and> st = v' @ t \<and> length u' = length v' \<and> 42 \<notin> set u'"
    by (rule exI [of _ "u @ [c]"], rule exI [of _ "v @ [x]"]) (use s assms(2) in simp)
  with s(1,6) show ?thesis by (simp add: star_inv_def)
qed (simp add: star_inv_def)

lemma glob_alt_absorb:
  assumes "star_inv (42 # p) t star" and "glob_alt star"
  shows "glob_spec (42 # p) t"
proof -
  from assms obtain sp st u v k where s: "star = Some (sp, st)" "sp = u @ 42 # p" "st = v @ t"
      "length u = length v" "42 \<notin> set u" "glob_spec sp (drop k st)"
    by (auto simp: star_inv_def glob_alt_def split: option.splits)
  then have "glob_spec (42 # p) (drop (length u) (drop k st))"
    using glob_spec_prefix by blast
  also have "drop (length u) (drop k st) = drop k t"
    unfolding s(3,4) drop_drop by simp
  finally show ?thesis by (metis drop_drop glob_spec_star)
qed

lemma glob_alt_end:
  assumes "star_inv p [] star" and "glob_alt star"
  shows "glob_spec p []"
proof -
  from assms obtain sp st u k where s: "star = Some (sp, st)" "sp = u @ p"
      "length u = length st" "42 \<notin> set u" "glob_spec sp (drop k st)" "0 < k"
    by (auto simp: star_inv_def glob_alt_def split: option.splits)
  then have "length u \<le> length (drop k st)" "glob_spec p (drop (length u) (drop k st))"
    using glob_spec_prefix by blast+
  with s show ?thesis by simp
qed

lemma glob_loop_complete:
  "glob_loop n p t star = Some r \<Longrightarrow> 42 \<notin> set t \<Longrightarrow> star_inv p t star \<Longrightarrow>
     glob_spec p t \<or> glob_alt star \<Longrightarrow> r"
proof (induction n p t star rule: glob_loop.induct)
  case (2 n p star)
  then show ?case using glob_alt_end by (auto simp: glob_spec_empty)
next
  case (3 n p x t star)
  consider (step) c p' where "p = c # p'" "c = 63 \<or> c = x"
    | (star) p' where "p = 42 # p'" "x \<noteq> 42"
    | (retry) "\<not> (p \<noteq> [] \<and> (hd p = 63 \<or> hd p = x))" "\<not> (p \<noteq> [] \<and> hd p = 42)"
    by (cases p) auto
  then show ?case
  proof cases
    case step
    then have c: "c \<noteq> 42" using "3.prems"(2) by auto
    with step "3.prems" have "star_inv p' t star" using star_inv_step by blast
    with 3 step c show ?thesis by auto
  next
    case star
    with "3.prems"(3,4) glob_alt_absorb have "glob_spec (42 # p') (x # t)" by blast
    then have "glob_spec p' (x # t) \<or> glob_alt (Some (p', x # t))" by (simp only: glob_alt_star)
    moreover have "star_inv p' (x # t) (Some (p', x # t))"
      using "3.prems"(2) by (simp add: star_inv_def)
    ultimately show ?thesis using 3 star by auto
  next
    case retry
    then have "\<not> glob_spec p (x # t)" by (cases p) auto
    with "3.prems"(4) obtain sp st where s: "star = Some (sp, st)" and "glob_alt (Some (sp, st))"
      by (auto simp: glob_alt_def split: option.splits)
    then have a: "glob_spec sp (tl st) \<or> glob_alt (Some (sp, tl st))" by (simp only: glob_alt_retry)
    have "42 \<notin> set (tl st)"
      using "3.prems"(3) by (auto simp: star_inv_def s dest: list.set_sel(2) [rotated])
    then have "star_inv sp (tl st) (Some (sp, tl st))" by (simp add: star_inv_def)
    with 3 retry s a \<open>42 \<notin> set (tl st)\<close> show ?thesis by auto
  qed
qed simp

lemma glob_seg_sound: "glob_seg pat tx \<Longrightarrow> glob_spec pat tx"
  using glob_loop_sound [of _ pat tx None] by (simp add: glob_seg_def glob_alt_def)

lemma glob_seg_complete: "42 \<notin> set tx \<Longrightarrow> glob_spec pat tx \<Longrightarrow> glob_seg pat tx"
  using glob_seg_total [of pat tx] glob_loop_complete [of "glob_fuel pat tx" pat tx None]
  by (auto simp: glob_seg_def glob_alt_def star_inv_def)

subsection \<open>The reachability table\<close>

definition cell :: "bytes list \<Rightarrow> bool list \<Rightarrow> nat \<times> nat \<Rightarrow> bool" where
  "cell comps r x = r ! (fst x * (length comps + 1) + snd x)"

definition cells :: "bytes list \<Rightarrow> bytes list \<Rightarrow> (nat \<times> nat) set" where
  "cells ts comps = {..length ts} \<times> {..length comps}"

definition edge :: "bytes list \<Rightarrow> bytes list \<Rightarrow> nat \<times> nat \<Rightarrow> nat \<times> nat \<Rightarrow> bool" where
  "edge ts comps x y \<longleftrightarrow>
     (case x of (i, j) \<Rightarrow> i < length ts \<and>
        (if ts ! i = dstar then y = (i + 1, j) \<or> j < length comps \<and> y = (i, j + 1)
         else j < length comps \<and> glob_seg (ts ! i) (comps ! j) \<and> y = (i + 1, j + 1)))"

lemma flat_index_inj:
  assumes "j < w" and "j' < (w :: nat)"
  shows "i * w + j = i' * w + j' \<longleftrightarrow> i = i' \<and> j = j'"
proof
  assume eq: "i * w + j = i' * w + j'"
  have "(i * w + j) div w = i" "(i' * w + j') div w = i'" using assms by simp_all
  with eq have "i = i'" by simp
  with eq show "i = i' \<and> j = j'" by simp
qed simp

lemma flat_index_bound:
  fixes i a j b :: nat
  assumes "i \<le> a" and "j \<le> b"
  shows "i * (b + 1) + j < (a + 1) * (b + 1)"
proof -
  have "i * (b + 1) \<le> a * (b + 1)" by (rule mult_le_mono1 [OF assms(1)])
  with assms(2) show ?thesis by simp
qed

definition mark :: "bytes list \<Rightarrow> bool list \<Rightarrow> nat \<times> nat \<Rightarrow> bool list" where
  "mark comps r x = r[fst x * (length comps + 1) + snd x := True]"

lemma length_mark [simp]: "length (mark comps r x) = length r"
  by (simp add: mark_def)

lemma cell_mark:
  assumes "length r = (length ts + 1) * (length comps + 1)"
    and "(i, j) \<in> cells ts comps" and "y \<in> cells ts comps"
  shows "cell comps (mark comps r (i, j)) y \<longleftrightarrow> cell comps r y \<or> y = (i, j)"
proof -
  obtain i' j' where y: "y = (i', j')" by force
  from assms have "i * (length comps + 1) + j < length r"
    by (simp only: cells_def mem_Sigma_iff atMost_iff flat_index_bound)
  moreover have "i' * (length comps + 1) + j' = i * (length comps + 1) + j \<longleftrightarrow> i' = i \<and> j' = j"
    using assms(2,3) by (intro flat_index_inj) (auto simp: cells_def y)
  ultimately show ?thesis by (auto simp: cell_def mark_def y nth_list_update)
qed

lemma length_reach_cell: "length (reach_cell ts comps r x) = length r"
  by (simp add: reach_cell_def Let_def split: prod.splits)

lemma edge_in: "edge ts comps x y \<Longrightarrow> x \<in> cells ts comps \<Longrightarrow> y \<in> cells ts comps"
  by (auto simp: edge_def cells_def split: prod.splits if_splits)

lemma cell_reach_cell:
  assumes "length r = (length ts + 1) * (length comps + 1)"
    and "x \<in> cells ts comps" and "y \<in> cells ts comps"
  shows "cell comps (reach_cell ts comps r x) y \<longleftrightarrow> cell comps r y \<or> cell comps r x \<and> edge ts comps x y"
proof -
  obtain i j where x: "x = (i, j)" by force
  have up: "cell comps (mark comps r' (i', j')) y \<longleftrightarrow> cell comps r' y \<or> y = (i', j')"
    if "length r' = length r" "i' \<le> length ts" "j' \<le> length comps" for r' i' j'
    using that assms by (intro cell_mark) (auto simp: cells_def)
  have c: "cell comps r x = r ! (i * (length comps + 1) + j)" by (simp add: cell_def x)
  have ij: "i \<le> length ts" "j \<le> length comps" using assms(2) by (auto simp: cells_def x)
  show ?thesis
  proof (cases "cell comps r x \<and> i < length ts")
    case False
    then have "reach_cell ts comps r x = r" by (auto simp: reach_cell_def x Let_def cell_def)
    with False show ?thesis by (auto simp: edge_def x)
  next
    case True
    show ?thesis
    proof (cases "ts ! i = dstar")
      case star: True
      have "reach_cell ts comps r x =
          (let r1 = mark comps r (i + 1, j)
           in if j < length comps then mark comps r1 (i, j + 1) else r1)"
        using True star c by (simp add: reach_cell_def mark_def x Let_def)
      with True star ij show ?thesis by (auto simp: up edge_def x Let_def)
    next
      case lit: False
      then have "reach_cell ts comps r x =
          (if j < length comps \<and> glob_seg (ts ! i) (comps ! j)
           then mark comps r (i + 1, j + 1) else r)"
        using True c by (simp add: reach_cell_def mark_def x Let_def)
      with True lit ij show ?thesis by (auto simp: up edge_def x)
    qed
  qed
qed

definition earlier :: "nat \<times> nat \<Rightarrow> nat \<times> nat \<Rightarrow> bool" where
  "earlier x y \<longleftrightarrow> fst x < fst y \<or> fst x = fst y \<and> snd x < snd y"

lemma edge_earlier: "edge ts comps x y \<Longrightarrow> earlier x y"
  by (auto simp: edge_def earlier_def split: prod.splits if_splits)

lemma sorted_product:
  "sorted_wrt (<) xs \<Longrightarrow> sorted_wrt (<) ys \<Longrightarrow> sorted_wrt earlier (List.product xs ys)"
  by (induction xs) (auto simp: sorted_wrt_append earlier_def sorted_wrt_map)

lemma reach_fold:
  assumes "length r = (length ts + 1) * (length comps + 1)"
    and "set L \<subseteq> cells ts comps" and "sorted_wrt earlier L" and "y \<in> cells ts comps"
  defines "final \<equiv> \<lambda>L. foldl (reach_cell ts comps) r L"
  shows "length (final L) = length r
    \<and> (cell comps (final L) y \<longleftrightarrow>
         cell comps r y \<or> (\<exists>x\<in>set L. cell comps (final L) x \<and> edge ts comps x y))"
  using assms(2,3,4)
proof (induction L arbitrary: y rule: rev_induct)
  case Nil
  then show ?case by (simp add: final_def)
next
  case (snoc x L)
  have L: "set L \<subseteq> cells ts comps" "x \<in> cells ts comps" "sorted_wrt earlier L"
      "\<And>z. z \<in> set L \<Longrightarrow> earlier z x"
    using snoc.prems by (auto simp: sorted_wrt_append)
  have len: "length (final L) = (length ts + 1) * (length comps + 1)"
    using snoc.IH [OF L(1,3) snoc.prems(3)] assms(1) by simp
  have f: "final (L @ [x]) = reach_cell ts comps (final L) x" by (simp add: final_def)
  have step: "cell comps (final (L @ [x])) z \<longleftrightarrow>
      cell comps (final L) z \<or> cell comps (final L) x \<and> edge ts comps x z"
    if "z \<in> cells ts comps" for z
    unfolding f by (rule cell_reach_cell [OF len L(2) that])
  have "\<not> edge ts comps x z" if "z \<in> set (L @ [x])" for z
    using that L(4) [of z] edge_earlier [of ts comps x z] by (auto simp: earlier_def)
  then have same: "cell comps (final (L @ [x])) z \<longleftrightarrow> cell comps (final L) z"
    if "z \<in> set (L @ [x])" for z
    using that step [of z] snoc.prems(1) by auto
  have "cell comps (final (L @ [x])) y \<longleftrightarrow> cell comps r y
      \<or> (\<exists>z\<in>set (L @ [x]). cell comps (final (L @ [x])) z \<and> edge ts comps z y)"
    using step [OF snoc.prems(3)] snoc.IH [OF L(1,3) snoc.prems(3)] same by auto
  with len assms(1) f show ?case by (simp add: length_reach_cell)
qed

lemma reach_table_cell:
  assumes "y \<in> cells ts comps"
  shows "cell comps (reach_table ts comps) y \<longleftrightarrow>
    y = (0, 0) \<or> (\<exists>x\<in>cells ts comps. cell comps (reach_table ts comps) x \<and> edge ts comps x y)"
proof -
  let ?r = "(replicate ((length ts + 1) * (length comps + 1)) False)[0 := True]"
  let ?L = "List.product [0..<length ts + 1] [0..<length comps + 1]"
  have set: "set ?L = cells ts comps" by (auto simp: cells_def)
  have init: "cell comps ?r y \<longleftrightarrow> y = (0, 0)"
  proof -
    obtain i j where y: "y = (i, j)" by force
    have "i * (length comps + 1) + j < (length ts + 1) * (length comps + 1)"
      using assms by (intro flat_index_bound) (auto simp: cells_def y)
    then show ?thesis by (auto simp: cell_def y nth_list_update simp del: mult_Suc mult_Suc_right)
  qed
  have len: "length ?r = (length ts + 1) * (length comps + 1)"
    by (simp only: length_list_update length_replicate)
  have sub: "set ?L \<subseteq> cells ts comps" by (simp only: set order_refl)
  have "sorted_wrt earlier ?L" by (rule sorted_product) (simp_all only: sorted_wrt_upt)
  from reach_fold [OF len sub this assms] show ?thesis
    unfolding reach_table_def set init by blast
qed

text \<open>What is left to match at a cell: the tokens from \<open>i\<close> on against \<open>comps[j..m]\<close>.\<close>

definition future :: "bytes list \<Rightarrow> bytes list \<Rightarrow> nat \<Rightarrow> nat \<times> nat \<Rightarrow> bool" where
  "future ts comps m x \<longleftrightarrow> toks_spec (drop (fst x) ts) (drop (snd x) (take m comps))"

lemma future_star:
  assumes "i < length ts" and "ts ! i = dstar" and "j \<le> m" and "m \<le> length comps"
  shows "future ts comps m (i, j) \<longleftrightarrow>
    future ts comps m (i + 1, j) \<or> j < m \<and> future ts comps m (i, j + 1)"
proof -
  have d: "drop i ts = dstar # drop (i + 1) ts"
    using assms(1,2) by (metis Cons_nth_drop_Suc Suc_eq_plus1)
  have "(\<exists>k\<le>n. P k) \<longleftrightarrow> P 0 \<or> 0 < n \<and> (\<exists>k\<le>n - 1. P (Suc k))" for P and n :: nat
    by (cases n) (auto simp: less_Suc_eq_le Suc_le_mono elim: le_Suc_ex intro: exI [of _ 0],
      metis Suc_le_mono not0_implies_Suc)
  from this [of "m - j" "\<lambda>k. toks_spec (drop (i + 1) ts) (drop k (drop j (take m comps)))"]
  show ?thesis
    using assms(3,4) by (simp add: future_def d min.absorb2)
qed

lemma future_lit:
  assumes "i < length ts" and "ts ! i \<noteq> dstar" and "j \<le> m" and "m \<le> length comps"
  shows "future ts comps m (i, j) \<longleftrightarrow>
    j < m \<and> glob_seg (ts ! i) (comps ! j) \<and> future ts comps m (i + 1, j + 1)"
proof -
  have d: "drop i ts = ts ! i # drop (i + 1) ts"
    using assms(1) by (simp add: Cons_nth_drop_Suc)
  show ?thesis
  proof (cases "j < m")
    case True
    then have "drop j (take m comps) = comps ! j # drop (j + 1) (take m comps)"
      using assms(4) Cons_nth_drop_Suc [of j "take m comps"] by simp
    with True assms(2) show ?thesis by (simp add: future_def d)
  next
    case False
    with assms show ?thesis by (simp add: future_def d)
  qed
qed

lemma future_edge:
  "edge ts comps x y \<Longrightarrow> snd y \<le> m \<Longrightarrow> m \<le> length comps \<Longrightarrow> future ts comps m y \<Longrightarrow> future ts comps m x"
  by (cases x) (auto simp: edge_def future_star future_lit split: if_splits)

lemma reach_sound:
  "cell comps (reach_table ts comps) x \<Longrightarrow> x \<in> cells ts comps \<Longrightarrow> snd x \<le> m \<Longrightarrow> m \<le> length comps \<Longrightarrow>
     future ts comps m x \<Longrightarrow> toks_spec ts (take m comps)"
proof (induction "fst x + snd x" arbitrary: x rule: less_induct)
  case less
  from reach_table_cell [OF less.prems(2)] less.prems(1)
  consider "x = (0, 0)" | z where "z \<in> cells ts comps" "cell comps (reach_table ts comps) z" "edge ts comps z x"
    by blast
  then show ?case
  proof cases
    case 1
    with less.prems(5) show ?thesis by (simp add: future_def)
  next
    case (2 z)
    then have "fst z + snd z < fst x + snd x" "snd z \<le> snd x"
      by (auto simp: edge_def split: prod.splits if_splits)
    with 2 less.prems future_edge [OF 2(3)] show ?thesis
      by (intro less.hyps [of z]) auto
  qed
qed

lemma reach_complete:
  "cell comps (reach_table ts comps) (i, j) \<Longrightarrow> i \<le> length ts \<Longrightarrow> j \<le> m \<Longrightarrow> m \<le> length comps \<Longrightarrow>
     future ts comps m (i, j) \<Longrightarrow> cell comps (reach_table ts comps) (length ts, m)"
proof (induction "length ts - i + (m - j)" arbitrary: i j rule: less_induct)
  case less
  have in_cells: "(i, j) \<in> cells ts comps" using less.prems by (auto simp: cells_def)
  have next_cell: ?case if "edge ts comps (i, j) (i', j')" "future ts comps m (i', j')" "j' \<le> m" for i' j'
  proof -
    have y: "(i', j') \<in> cells ts comps" using edge_in [OF that(1) in_cells] .
    then have "cell comps (reach_table ts comps) (i', j')"
      using reach_table_cell [OF y] in_cells that(1) less.prems(1) by blast
    moreover have "length ts - i' + (m - j') < length ts - i + (m - j)"
      using that y by (auto simp: edge_def cells_def split: if_splits)
    ultimately show ?thesis
      using less.hyps [of i' j'] that y less.prems(4) by (auto simp: cells_def)
  qed
  show ?case
  proof (cases "i < length ts")
    case False
    with less.prems have "m = j" by (simp add: future_def)
    with False less.prems show ?thesis by simp
  next
    case True
    show ?thesis
    proof (cases "ts ! i = dstar")
      case star: True
      then show ?thesis
        using future_star [OF True star less.prems(3,4)] less.prems True
          next_cell [of "i + 1" j] next_cell [of i "j + 1"] by (auto simp: edge_def)
    next
      case lit: False
      then show ?thesis
        using future_lit [OF True lit less.prems(3,4)] less.prems True
          next_cell [of "i + 1" "j + 1"] by (auto simp: edge_def)
    qed
  qed
qed

lemma reach_table_iff:
  assumes "m \<le> length comps"
  shows "reach_table ts comps ! (length ts * (length comps + 1) + m) \<longleftrightarrow> toks_spec ts (take m comps)"
proof -
  have "(length ts, m) \<in> cells ts comps" "(0, 0) \<in> cells ts comps"
    using assms by (auto simp: cells_def)
  moreover have "future ts comps m (length ts, m)" by (simp add: future_def)
  ultimately show ?thesis
    using reach_sound [of comps ts "(length ts, m)" m] reach_complete [of comps ts 0 0 m] assms
      reach_table_cell [of "(0, 0)" ts comps]
    by (auto simp: cell_def future_def)
qed

lemma foldl_last:
  "foldl (\<lambda>b p. if m p then f p else b) b0 ps \<longleftrightarrow>
     (\<exists>xs p ys. ps = xs @ p # ys \<and> m p \<and> f p \<and> (\<forall>q\<in>set ys. \<not> m q))
     \<or> b0 \<and> (\<forall>q\<in>set ps. \<not> m q)"
proof (induction ps arbitrary: b0)
  case (Cons p ps)
  have split: "(\<exists>xs r ys. p # ps = xs @ r # ys \<and> Q r ys) \<longleftrightarrow>
      Q p ps \<or> (\<exists>xs r ys. ps = xs @ r # ys \<and> Q r ys)" for Q
    by (auto simp: Cons_eq_append_conv)
  show ?case
    unfolding split [of "\<lambda>r ys. m r \<and> f r \<and> (\<forall>q\<in>set ys. \<not> m q)"]
    by (simp add: Cons.IH) blast
qed simp

section \<open>Properties\<close>

text \<open>
  The backtracking matcher ends on every pattern and text, and decides the declarative
  meaning of a glob (\<open>*\<close> any run of bytes, \<open>?\<close> one byte, anything else itself): what it
  accepts matches, and on a name without a literal \<open>*\<close> it accepts everything that matches.
\<close>

theorem glob_seg_correct:
  "(\<exists>r. glob_loop (glob_fuel pat tx) pat tx None = Some r)
   \<and> (glob_seg pat tx \<longrightarrow> glob_spec pat tx)
   \<and> (42 \<notin> set tx \<longrightarrow> glob_seg pat tx = glob_spec pat tx)"
  using glob_seg_total glob_seg_sound glob_seg_complete by blast

theorem glob_seg_correct_witness:
  "glob_spec (bstr ''a*c?'') (bstr ''abcbcd'')"
proof -
  have "glob_seg (bstr ''a*c?'') (bstr ''abcbcd'')"
    by code_simp
  then show ?thesis using glob_seg_correct by blast
qed

text \<open>
  A name that contains a literal \<open>*\<close> can defeat the matcher: the pattern \<open>*\<close> does not
  match the name \<open>*ab\<close>, because the star is compared with the first byte as a literal
  before it is tried as a wildcard, and then no star is recorded to fall back to.
\<close>

theorem glob_seg_literal_star:
  "\<not> glob_seg (bstr ''*'') (bstr ''*ab'') \<and> glob_spec (bstr ''*'') (bstr ''*ab'')"
proof
  show "\<not> glob_seg (bstr ''*'') (bstr ''*ab'')"
    by code_simp
  have "glob_spec [] (drop 3 (bstr ''*ab''))" by simp
  then show "glob_spec (bstr ''*'') (bstr ''*ab'')"
    by (auto simp: numeral_eq_Suc intro: exI [of _ "Suc (Suc (Suc 0))"])
qed

text \<open>
  C36. The reachability table of \<open>match_anchored\<close> decides the declarative meaning of an
  anchored pattern: its tokens match some prefix of the path's components (all of them, or
  the components of an ancestor directory), where \<open>**\<close> stands for any number of components;
  a directory-only pattern needs a strict ancestor.
\<close>

theorem match_anchored_iff:
  "match_anchored p comps \<longleftrightarrow>
     (\<exists>m\<le>length comps. toks_spec (toks p) (take m comps) \<and> (dir_only p \<longrightarrow> m < length comps))"
proof -
  have "match_anchored p comps \<longleftrightarrow> (\<exists>m\<le>length comps.
      reach_table (toks p) comps ! (length (toks p) * (length comps + 1) + m)
      \<and> (dir_only p \<longrightarrow> m < length comps))"
  proof -
    have "set [0..<length comps + 1] = {m. m \<le> length comps}" by auto
    then show ?thesis unfolding match_anchored_def Let_def list_ex_iff by blast
  qed
  then show ?thesis using reach_table_iff by blast
qed

theorem match_anchored_iff_witness:
  "match_anchored \<lparr>negated = False, dir_only = True, anchored = True, toks = [dstar]\<rparr> [bstr ''a'']"
proof -
  have "toks_spec [dstar] (take 0 [bstr ''a''])" by simp
  then show ?thesis using match_anchored_iff by fastforce
qed

text \<open>
  The last matching pattern decides: a path with at least one component is ignored
  exactly when some pattern matches it that is not a \<open>!\<close> pattern and no later pattern
  matches it.
\<close>

theorem is_ignored_iff:
  "is_ignored ig path \<longleftrightarrow>
     path_comps path \<noteq> []
     \<and> (\<exists>xs p ys. patterns ig = xs @ p # ys \<and> pattern_matches p (path_comps path)
          \<and> \<not> negated p \<and> (\<forall>q\<in>set ys. \<not> pattern_matches q (path_comps path)))"
  unfolding is_ignored_def Let_def foldl_last by auto

theorem is_ignored_iff_witness:
  "is_ignored (add_bytes ignore_new (bstr ''!k.o'' @ [10] @ bstr ''*.o'')) (bstr ''d/k.o'')"
proof -
  let ?p = "\<lparr>negated = False, dir_only = False, anchored = False, toks = [bstr ''*.o'']\<rparr>"
  have "patterns (add_bytes ignore_new (bstr ''!k.o'' @ [10] @ bstr ''*.o'')) =
      [\<lparr>negated = True, dir_only = False, anchored = False, toks = [bstr ''k.o'']\<rparr>] @ ?p # []"
    by (simp add: add_bytes_def add_line_def compile_line_def trim_spaces_def strip_last_def
        ignore_new_def)
  moreover have "pattern_matches ?p (path_comps (bstr ''d/k.o''))" by code_simp
  moreover have "path_comps (bstr ''d/k.o'') \<noteq> []" by code_simp
  moreover have "\<not> negated ?p" by simp
  ultimately show ?thesis unfolding is_ignored_iff by (metis empty_iff list.set(1))
qed

end
