(* ===== verification/Btree_Map.thy ===== *)
theory Btree_Map
  imports Prelude
begin

text \<open>
  \<open>BTreeMap\<close> of the Rust standard library, as far as the sources use it: a map that iterates
  in the order of its keys. A map is the association list that iteration yields.

  The locale \<open>ordered_map\<close> is the contract the components rely on (what a lookup returns
  after an insertion or a removal, and that iteration is sorted by key); its lemmas about
  \<open>collect\<close> and about extensionality are proved from the contract only, and \<open>bt\<close> is its
  interpretation on the operations the models use.
\<close>

type_synonym ('k, 'v) btree_map = "('k \<times> 'v) list"

definition bt_get :: "('k, 'v) btree_map \<Rightarrow> 'k \<Rightarrow> 'v option" where
  "bt_get m k = map_of m k"

fun bt_insert :: "'k::linorder \<Rightarrow> 'v \<Rightarrow> ('k, 'v) btree_map \<Rightarrow> ('k, 'v) btree_map" where
  "bt_insert k v [] = [(k, v)]"
| "bt_insert k v ((k', v') # m) =
     (if k < k' then (k, v) # (k', v') # m
      else if k = k' then (k, v) # m
      else (k', v') # bt_insert k v m)"

definition bt_remove :: "'k \<Rightarrow> ('k, 'v) btree_map \<Rightarrow> ('k, 'v) btree_map" where
  "bt_remove k m = filter (\<lambda>e. fst e \<noteq> k) m"

text \<open>\<open>into_iter().collect()\<close>: later pairs win.\<close>

definition bt_collect :: "('k::linorder \<times> 'v) list \<Rightarrow> ('k, 'v) btree_map" where
  "bt_collect kvs = foldl (\<lambda>m (k, v). bt_insert k v m) [] kvs"

definition bt_invar :: "('k::linorder, 'v) btree_map \<Rightarrow> bool" where
  "bt_invar m \<longleftrightarrow> sorted_wrt (<) (map fst m)"

section \<open>The contract\<close>

lemma sorted_map_unique:
  fixes ys zs :: "('k::linorder \<times> 'v) list"
  assumes "sorted_wrt (<) (map fst ys)" and "sorted_wrt (<) (map fst zs)" and "map_of ys = map_of zs"
  shows "ys = zs"
proof -
  have k: "sorted (map fst ys)" "distinct (map fst ys)" "sorted (map fst zs)" "distinct (map fst zs)"
    using assms(1,2) by (auto simp: strict_sorted_iff)
  then have "set ys = set zs" using assms(3) by (simp add: map_of_inject_set)
  then show ?thesis
    using k by (intro map_sorted_distinct_set_unique [of fst]) (auto simp: distinct_map)
qed

locale ordered_map =
  fixes empty :: "'m" and insert :: "'k::linorder \<Rightarrow> 'v \<Rightarrow> 'm \<Rightarrow> 'm" and remove :: "'k \<Rightarrow> 'm \<Rightarrow> 'm"
    and get :: "'m \<Rightarrow> 'k \<Rightarrow> 'v option" and iter :: "'m \<Rightarrow> ('k \<times> 'v) list" and invar :: "'m \<Rightarrow> bool"
  assumes invar_empty: "invar empty"
    and invar_insert: "invar m \<Longrightarrow> invar (insert k v m)"
    and invar_remove: "invar m \<Longrightarrow> invar (remove k m)"
    and get_empty: "get empty k = None"
    and get_insert: "invar m \<Longrightarrow> get (insert k v m) k' = (if k' = k then Some v else get m k')"
    and get_remove: "invar m \<Longrightarrow> get (remove k m) k' = (if k' = k then None else get m k')"
    and iter_sorted: "invar m \<Longrightarrow> sorted_wrt (<) (map fst (iter m))"
    and get_iter: "invar m \<Longrightarrow> get m k = map_of (iter m) k"
begin

lemma invar_fold: "invar m \<Longrightarrow> invar (foldl (\<lambda>m (k, v). insert k v m) m kvs)"
  by (induction kvs arbitrary: m) (auto simp: invar_insert split: prod.splits)

lemma get_fold:
  "invar m \<Longrightarrow> get (foldl (\<lambda>m (k, v). insert k v m) m kvs) k =
     (case map_of (rev kvs) k of Some v \<Rightarrow> Some v | None \<Rightarrow> get m k)"
proof (induction kvs arbitrary: m)
  case (Cons a kvs)
  then show ?case
    by (cases a) (auto simp: invar_insert get_insert map_add_def split: option.splits)
qed simp

lemma iter_unique:
  assumes "invar m" and "sorted_wrt (<) (map fst xs)" and "\<And>k. get m k = map_of xs k"
  shows "iter m = xs"
proof (rule sorted_map_unique)
  show "map_of (iter m) = map_of xs"
    using assms(3) get_iter [OF assms(1)] by (metis ext)
qed (use assms iter_sorted in auto)

lemma fold_sorted:
  assumes "sorted_wrt (<) (map fst kvs)"
  shows "iter (foldl (\<lambda>m (k, v). insert k v m) empty kvs) = kvs"
proof (rule iter_unique [OF invar_fold [OF invar_empty] assms])
  fix k
  have "distinct (map fst kvs)" using assms strict_sorted_iff by blast
  then have rev_map_of: "map_of (rev kvs) = map_of kvs"
    by (intro map_of_inject_set [THEN iffD2]) (simp_all add: rev_map [symmetric])
  then show "get (foldl (\<lambda>m (k, v). insert k v m) empty kvs) k = map_of kvs k"
    by (simp add: get_fold [OF invar_empty] get_empty rev_map_of split: option.splits)
qed

end

section \<open>The model provides it\<close>

lemma set_bt_insert: "fst ` set (bt_insert k v m) = insert k (fst ` set m)"
  by (induction k v m rule: bt_insert.induct) auto

lemma bt_invar_insert: "bt_invar m \<Longrightarrow> bt_invar (bt_insert k v m)"
proof (induction k v m rule: bt_insert.induct)
  case (2 k v k' v' m)
  have "\<forall>x\<in>set (bt_insert k v m). k' < fst x" if "k' < k"
    using that "2.prems" set_bt_insert [of k v m] by (fastforce simp: bt_invar_def)
  with 2 show ?case by (auto simp: bt_invar_def)
qed (simp add: bt_invar_def)

lemma bt_get_insert: "bt_invar m \<Longrightarrow> bt_get (bt_insert k v m) k' = (if k' = k then Some v else bt_get m k')"
proof (induction k v m rule: bt_insert.induct)
  case (2 k v k0 v0 m)
  then show ?case by (auto simp: bt_get_def bt_invar_def)
qed (simp add: bt_get_def)

interpretation bt: ordered_map "[]" bt_insert bt_remove bt_get "\<lambda>m. m" bt_invar
proof
  show "bt_get (bt_remove k m) k' = (if k' = k then None else bt_get m k')" for m :: "('k::linorder \<times> 'v) list" and k k'
    by (induction m) (auto simp: bt_get_def bt_remove_def)
  show "bt_invar m \<Longrightarrow> bt_invar (bt_remove k m)" for m :: "('k::linorder \<times> 'v) list" and k
    by (auto simp: bt_invar_def bt_remove_def sorted_wrt_map intro: sorted_wrt_filter)
qed (auto simp: bt_invar_def bt_get_def bt_invar_insert [unfolded bt_invar_def]
    bt_get_insert [unfolded bt_invar_def bt_get_def])

lemma bt_collect_sorted: "sorted_wrt (<) (map fst kvs) \<Longrightarrow> bt_collect kvs = kvs"
  unfolding bt_collect_def by (rule bt.fold_sorted)

lemma bt_invar_collect [simp]: "bt_invar (bt_collect kvs)"
  unfolding bt_collect_def by (rule bt.invar_fold [OF bt.invar_empty])

end
