(* ===== verification/Diff.thy ===== *)
theory Diff
  imports Btree_Map "HOL-Library.Sublist"
begin

text \<open>
  Line diffs and the three-way line merge: src/src/diff.rs. \<open>line_ops\<close> is the edit script
  computed from the table of longest common subsequences (the cells are \<open>u32\<close> counters of
  lines and are natural numbers here), \<open>hunks\<close> and \<open>unified\<close> print it, and \<open>merge3\<close> is the
  diff3 merge.
\<close>

section \<open>Lines and edit scripts\<close>

datatype op = Equal | Delete | Insert

text \<open>\<open>split_lines\<close>: every line with its newline; \<open>cur\<close> is the line that is being read.\<close>

fun split_lines_from :: "bytes \<Rightarrow> bytes \<Rightarrow> bytes list" where
  "split_lines_from cur [] = (if cur = [] then [] else [cur])"
| "split_lines_from cur (c # r) =
     (if c = 10 then (cur @ [c]) # split_lines_from [] r else split_lines_from (cur @ [c]) r)"

definition split_lines :: "bytes \<Rightarrow> bytes list" where
  "split_lines data = split_lines_from [] data"

text \<open>
  The table, from its last row and column: \<open>lcs_row x new below\<close> is the row of line \<open>x\<close> when
  \<open>below\<close> is the row under it.
\<close>

fun lcs_row :: "'a \<Rightarrow> 'a list \<Rightarrow> nat list \<Rightarrow> nat list" where
  "lcs_row x [] below = [0]"
| "lcs_row x (y # ys) below =
     (let right = lcs_row x ys (tl below)
      in (if x = y then below ! 1 + 1 else max (below ! 0) (right ! 0)) # right)"

definition lcs_table :: "'a list \<Rightarrow> 'a list \<Rightarrow> nat list list" where
  "lcs_table old new =
     foldr (\<lambda>x rows. lcs_row x new (hd rows) # rows) old [replicate (length new + 1) 0]"

function ops_loop :: "nat list list \<Rightarrow> 'a list \<Rightarrow> 'a list \<Rightarrow> nat \<Rightarrow> nat \<Rightarrow> (op \<times> 'a) list" where
  "ops_loop lcs old new i j =
     (if i < length old \<and> j < length new then
        (if old ! i = new ! j then (Equal, old ! i) # ops_loop lcs old new (i + 1) (j + 1)
         else if lcs ! i ! (j + 1) \<le> lcs ! (i + 1) ! j
         then (Delete, old ! i) # ops_loop lcs old new (i + 1) j
         else (Insert, new ! j) # ops_loop lcs old new i (j + 1))
      else map (Pair Delete) (drop i old) @ map (Pair Insert) (drop j new))"
  by pat_completeness auto
termination
  by (relation "measure (\<lambda>(l, old, new, i, j). (length old - i) + (length new - j))") auto

declare ops_loop.simps [simp del]

definition line_ops :: "'a list \<Rightarrow> 'a list \<Rightarrow> (op \<times> 'a) list" where
  "line_ops old new = ops_loop (lcs_table old new) old new 0 0"

section \<open>Unified diffs\<close>

text \<open>The scan of the inner loop from \<open>k\<close>: the last change of the hunk that starts at \<open>idx\<close>.\<close>

function hunk_end :: "nat \<Rightarrow> (op \<times> 'a) list \<Rightarrow> nat \<Rightarrow> nat \<Rightarrow> nat \<Rightarrow> nat" where
  "hunk_end ctx ops k equal_run end_ix =
     (if k < length ops then
        (if fst (ops ! k) = Equal then
           (if 2 * ctx < equal_run + 1 then end_ix
            else hunk_end ctx ops (k + 1) (equal_run + 1) end_ix)
         else hunk_end ctx ops (k + 1) 0 k)
      else end_ix)"
  by pat_completeness auto
termination
  by (relation "measure (\<lambda>(c, ops, k, r, e). length ops - k)") auto

declare hunk_end.simps [simp del]

lemma hunk_end_ge: "end_ix \<le> k \<Longrightarrow> end_ix \<le> hunk_end ctx ops k r end_ix"
proof (induction ctx ops k r end_ix rule: hunk_end.induct)
  case (1 ctx ops k r e)
  then show ?case
    by (subst hunk_end.simps) (auto intro: order_trans)
qed

function hunks_from :: "nat \<Rightarrow> (op \<times> 'a) list \<Rightarrow> nat \<Rightarrow> (nat \<times> nat) list" where
  "hunks_from ctx ops idx =
     (if idx < length ops then
        (if fst (ops ! idx) = Equal then hunks_from ctx ops (idx + 1)
         else
           let end_ix = hunk_end ctx ops idx 0 idx;
               start = idx - ctx;
               trail = min (end_ix + ctx + 1) (length ops)
           in (start, trail) # hunks_from ctx ops trail)
      else [])"
  by pat_completeness auto
termination
  by (relation "measure (\<lambda>(c, ops, i). length ops - i)")
    (auto intro!: diff_less_mono2 le_imp_less_Suc trans_le_add1 hunk_end_ge)

declare hunks_from.simps [simp del]

text \<open>The counting loops over a run of operations.\<close>

definition count_op :: "nat \<times> nat \<Rightarrow> op \<times> 'a \<Rightarrow> nat \<times> nat" where
  "count_op no e =
     (case fst e of
        Equal \<Rightarrow> (fst no + 1, snd no + 1)
      | Delete \<Rightarrow> (fst no + 1, snd no)
      | Insert \<Rightarrow> (fst no, snd no + 1))"

definition hunk_range :: "nat \<Rightarrow> nat \<Rightarrow> bytes" where
  "hunk_range start count =
     (if count = 0 then dec_of_nat (start - 1) @ bstr '',0''
      else if count = 1 then dec_of_nat start
      else dec_of_nat start @ [44] @ dec_of_nat count)"

definition hunk_line :: "op \<times> bytes \<Rightarrow> bytes" where
  "hunk_line e =
     (let prefix = (case fst e of Equal \<Rightarrow> 32 | Delete \<Rightarrow> 45 | Insert \<Rightarrow> 43)
      in prefix # from_utf8_lossy (snd e)
         @ (if \<not> ends_with [10] (snd e)
            then 10 # 92 # bstr '' No newline at end of file'' @ [10] else []))"

text \<open>\<open>slice_of xs a b\<close> is \<open>&xs[a..b]\<close>.\<close>

definition slice_of :: "'a list \<Rightarrow> nat \<Rightarrow> nat \<Rightarrow> 'a list" where
  "slice_of xs a b = take (b - a) (drop a xs)"

definition hunk_numbers :: "(op \<times> 'a) list \<Rightarrow> nat \<times> nat \<Rightarrow> (nat \<times> nat) \<times> (nat \<times> nat)" where
  "hunk_numbers ops h =
     (foldl count_op (1, 1) (take (fst h) ops), foldl count_op (0, 0) (slice_of ops (fst h) (snd h)))"

definition hunk_text :: "(op \<times> bytes) list \<Rightarrow> nat \<times> nat \<Rightarrow> bytes" where
  "hunk_text ops h =
     (let ((old_no, new_no), (old_count, new_count)) = hunk_numbers ops h
      in bstr ''@@ -'' @ hunk_range old_no old_count @ bstr '' +'' @ hunk_range new_no new_count
         @ bstr '' @@'' @ [10]
         @ concat (map hunk_line (slice_of ops (fst h) (snd h))))"

definition unified :: "bytes \<Rightarrow> bytes \<Rightarrow> bytes \<Rightarrow> bytes \<Rightarrow> nat \<Rightarrow> bytes" where
  "unified old new old_name new_name context =
     (if old = new then []
      else
        let ops = line_ops (split_lines old) (split_lines new);
            hunks = hunks_from context ops 0
        in bstr ''--- '' @ old_name @ [10] @ bstr ''+++ '' @ new_name @ [10]
           @ concat (map (hunk_text ops) hunks))"

section \<open>The three-way merge\<close>

fun match_pairs :: "nat \<Rightarrow> nat \<Rightarrow> (op \<times> 'a) list \<Rightarrow> (nat \<times> nat) list" where
  "match_pairs bi oi [] = []"
| "match_pairs bi oi ((Equal, l) # ops) = (bi, oi) # match_pairs (bi + 1) (oi + 1) ops"
| "match_pairs bi oi ((Delete, l) # ops) = match_pairs (bi + 1) oi ops"
| "match_pairs bi oi ((Insert, l) # ops) = match_pairs bi (oi + 1) ops"

definition line_matches :: "'a list \<Rightarrow> 'a list \<Rightarrow> (nat \<times> nat) list" where
  "line_matches base other = match_pairs 0 0 (line_ops base other)"

record merge3_result =
  merged :: bytes
  conflicted :: bool

definition append_lines :: "bytes \<Rightarrow> bytes list \<Rightarrow> bytes" where
  "append_lines out ls = out @ concat ls"

definition merge_region :: "bytes list \<Rightarrow> bytes list \<Rightarrow> bytes list \<Rightarrow> bytes \<times> bool" where
  "merge_region base_region ours_region theirs_region =
     (if ours_region = theirs_region then (append_lines [] ours_region, False)
      else if ours_region = base_region then (append_lines [] theirs_region, False)
      else if theirs_region = base_region then (append_lines [] ours_region, False)
      else (append_lines (append_lines (bstr ''<<<<<<< ours'' @ [10]) ours_region
                          @ bstr ''======='' @ [10]) theirs_region
            @ bstr ''>>>>>>> theirs'' @ [10], True))"

fun merge_loop :: "bytes list \<Rightarrow> bytes list \<Rightarrow> bytes list \<Rightarrow> (nat \<times> nat \<times> nat) list
    \<Rightarrow> nat \<times> nat \<times> nat \<Rightarrow> merge3_result \<Rightarrow> merge3_result" where
  "merge_loop bl ol tls [] p r = r"
| "merge_loop bl ol tls ((bi, oi, ti) # anchors) (pb, po, pt) r =
     (let (out, c) = merge_region (slice_of bl pb bi) (slice_of ol po oi) (slice_of tls pt ti);
          r1 = \<lparr>merged = merged r @ out, conflicted = conflicted r \<or> c\<rparr>;
          r2 = (if bi < length bl then r1\<lparr>merged := merged r1 @ bl ! bi\<rparr> else r1)
      in merge_loop bl ol tls anchors (bi + 1, oi + 1, ti + 1) r2)"

definition merge_anchors :: "bytes list \<Rightarrow> bytes list \<Rightarrow> bytes list \<Rightarrow> (nat \<times> nat \<times> nat) list" where
  "merge_anchors bl ol tls =
     (let ours_of = bt_collect (line_matches bl ol);
          theirs_of = bt_collect (line_matches bl tls)
      in concat (map (\<lambda>(bi, oi). case bt_get theirs_of bi of
                        Some ti \<Rightarrow> [(bi, oi, ti)] | None \<Rightarrow> []) ours_of)
         @ [(length bl, length ol, length tls)])"

definition merge3 :: "bytes \<Rightarrow> bytes \<Rightarrow> bytes \<Rightarrow> merge3_result" where
  "merge3 base ours theirs =
     (let bl = split_lines base; ol = split_lines ours; tls = split_lines theirs
      in merge_loop bl ol tls (merge_anchors bl ol tls) (0, 0, 0) \<lparr>merged = [], conflicted = False\<rparr>)"

section \<open>Lemmas\<close>

subsection \<open>Lines\<close>

lemma concat_split_lines [simp]: "concat (split_lines data) = data"
proof -
  have "concat (split_lines_from cur data) = cur @ data" for cur
    by (induction cur data rule: split_lines_from.induct) auto
  then show ?thesis by (simp add: split_lines_def)
qed

subsection \<open>Edit scripts\<close>

definition old_side :: "(op \<times> 'a) list \<Rightarrow> 'a list" where
  "old_side ops = map snd (filter (\<lambda>e. fst e \<noteq> Insert) ops)"

definition new_side :: "(op \<times> 'a) list \<Rightarrow> 'a list" where
  "new_side ops = map snd (filter (\<lambda>e. fst e \<noteq> Delete) ops)"

definition common :: "(op \<times> 'a) list \<Rightarrow> 'a list" where
  "common ops = map snd (filter (\<lambda>e. fst e = Equal) ops)"

lemmas side_defs = old_side_def new_side_def common_def

lemma ops_loop_sides:
  "i \<le> length old \<Longrightarrow> j \<le> length new \<Longrightarrow>
     old_side (ops_loop lcs old new i j) = drop i old \<and> new_side (ops_loop lcs old new i j) = drop j new"
proof (induction lcs old new i j rule: ops_loop.induct)
  case (1 lcs old new i j)
  show ?case
  proof (cases "i < length old \<and> j < length new")
    case True
    then have d: "drop i old = old ! i # drop (i + 1) old" "drop j new = new ! j # drop (j + 1) new"
      by (simp_all add: Cons_nth_drop_Suc)
    show ?thesis
      unfolding ops_loop.simps [of lcs old new i j] using True 1
      by (simp add: d side_defs)
  next
    case False
    with "1.prems" show ?thesis
      by (auto simp: ops_loop.simps [of lcs old new i j] side_defs filter_map comp_def)
  qed
qed

text \<open>The length of a longest common subsequence, by the recursion the table follows.\<close>

fun lcs_len :: "'a list \<Rightarrow> 'a list \<Rightarrow> nat" where
  "lcs_len [] ys = 0"
| "lcs_len xs [] = 0"
| "lcs_len (x # xs) (y # ys) =
     (if x = y then lcs_len xs ys + 1 else max (lcs_len xs (y # ys)) (lcs_len (x # xs) ys))"

lemma lcs_len_Nil2 [simp]: "lcs_len xs [] = 0"
  by (cases xs) auto

lemma lcs_row_nth:
  "length below = length ys + 1 \<Longrightarrow> (\<And>j. j \<le> length ys \<Longrightarrow> below ! j = lcs_len xs (drop j ys)) \<Longrightarrow>
     length (lcs_row x ys below) = length ys + 1
     \<and> (\<forall>j\<le>length ys. lcs_row x ys below ! j = lcs_len (x # xs) (drop j ys))"
proof (induction ys arbitrary: below)
  case (Cons y ys)
  obtain b0 b1 bs where b: "below = b0 # b1 # bs"
    using Cons.prems(1) by (cases below; cases "tl below") auto
  have "(tl below) ! j = lcs_len xs (drop j ys)" if "j \<le> length ys" for j
    using that Cons.prems(2) [of "Suc j"] b by simp
  with Cons.prems(1) have IH: "length (lcs_row x ys (tl below)) = length ys + 1"
      "\<And>j. j \<le> length ys \<Longrightarrow> lcs_row x ys (tl below) ! j = lcs_len (x # xs) (drop j ys)"
    using Cons.IH [of "tl below"] by auto
  have "b0 = lcs_len xs (y # ys)" "b1 = lcs_len xs ys"
    using Cons.prems(2) [of 0] Cons.prems(2) [of 1] b by simp_all
  with IH b show ?case by (auto simp: Let_def nth_Cons split: nat.splits)
qed simp

lemma lcs_table_nth:
  "length (lcs_table old new) = length old + 1
   \<and> (\<forall>i\<le>length old. length (lcs_table old new ! i) = length new + 1
        \<and> (\<forall>j\<le>length new. lcs_table old new ! i ! j = lcs_len (drop i old) (drop j new)))"
proof (induction old)
  case Nil
  then show ?case by (auto simp: lcs_table_def nth_Cons split: nat.splits)
next
  case (Cons x old)
  then obtain r rs where t: "lcs_table old new = r # rs" by (cases "lcs_table old new") auto
  then have tx: "lcs_table (x # old) new = lcs_row x new r # lcs_table old new"
    by (simp add: lcs_table_def)
  have "length r = length new + 1" "\<And>j. j \<le> length new \<Longrightarrow> r ! j = lcs_len old (drop j new)"
    using Cons t by (auto dest: spec [of _ 0])
  from lcs_row_nth [OF this] Cons show ?case
    by (auto simp: tx nth_Cons split: nat.splits)
qed

lemma ops_loop_common:
  "i \<le> length old \<Longrightarrow> j \<le> length new \<Longrightarrow>
     length (common (ops_loop (lcs_table old new) old new i j)) = lcs_len (drop i old) (drop j new)"
proof (induction "lcs_table old new" old new i j rule: ops_loop.induct)
  case (1 old new i j)
  let ?t = "lcs_table old new"
  show ?case
  proof (cases "i < length old \<and> j < length new")
    case True
    then have d: "drop i old = old ! i # drop (i + 1) old" "drop j new = new ! j # drop (j + 1) new"
      by (simp_all add: Cons_nth_drop_Suc)
    have t: "?t ! i ! (j + 1) = lcs_len (drop i old) (drop (j + 1) new)"
        "?t ! (i + 1) ! j = lcs_len (drop (i + 1) old) (drop j new)"
      using lcs_table_nth [of old new] True by (auto simp: Suc_le_eq)
    show ?thesis
      unfolding ops_loop.simps [of ?t old new i j] using True 1 t
      by (auto simp: d common_def)
  next
    case False
    with "1.prems" show ?thesis
      by (auto simp: ops_loop.simps [of ?t old new i j] common_def filter_map comp_def)
  qed
qed

lemma lcs_len_upper: "subseq zs xs \<Longrightarrow> subseq zs ys \<Longrightarrow> length zs \<le> lcs_len xs ys"
proof (induction xs ys arbitrary: zs rule: lcs_len.induct)
  case (3 x xs y ys)
  show ?case
  proof (cases zs)
    case (Cons z zs')
    show ?thesis
    proof (cases "x = y")
      case True
      have "subseq zs' xs" "subseq zs' ys"
        using "3.prems" Cons by (auto elim: subseq_Cons' dest: subseq_Cons' split: if_splits)
      with 3 True Cons show ?thesis by simp
    next
      case False
      then consider "z \<noteq> x" | "z \<noteq> y" by blast
      then show ?thesis
      proof cases
        case 1
        with "3.prems"(1) Cons have "subseq zs xs" by simp
        with 3 False show ?thesis by (simp add: le_max_iff_disj)
      next
        case 2
        with "3.prems"(2) Cons have "subseq zs ys" by simp
        with 3 False show ?thesis by (simp add: le_max_iff_disj)
      qed
    qed
  qed simp
qed auto

lemma common_subseq: "subseq (common ops) (old_side ops) \<and> subseq (common ops) (new_side ops)"
  by (induction ops) (auto simp: side_defs)

subsection \<open>Hunks\<close>

lemma count_ops:
  "foldl count_op (a, b) ops = (a + length (old_side ops), b + length (new_side ops))"
  by (induction ops arbitrary: a b) (auto simp: count_op_def side_defs split: op.splits)

lemma old_side_append: "old_side (xs @ ys) = old_side xs @ old_side ys"
  and new_side_append: "new_side (xs @ ys) = new_side xs @ new_side ys"
  by (simp_all add: side_defs)

lemma slice_split: "a \<le> b \<Longrightarrow> xs = take a xs @ slice_of xs a b @ drop b xs"
  unfolding slice_of_def by (metis append_take_drop_id drop_drop le_add_diff_inverse2)

lemma slice_middle: "slice_of (xs @ ys @ zs) (length xs) (length xs + length ys) = ys"
  by (simp add: slice_of_def)

text \<open>From the last change on, only equal lines up to the end of the scan.\<close>

lemma hunk_end_spec:
  "end_ix < length ops \<Longrightarrow> end_ix + r + (if k = end_ix then 0 else 1) = k \<Longrightarrow> k \<le> length ops \<Longrightarrow>
     (k = end_ix \<Longrightarrow> fst (ops ! k) \<noteq> Equal) \<Longrightarrow>
     (\<And>i. end_ix < i \<Longrightarrow> i < k \<Longrightarrow> fst (ops ! i) = Equal) \<Longrightarrow> r \<le> 2 * ctx \<Longrightarrow>
     e = hunk_end ctx ops k r end_ix \<Longrightarrow>
     e < length ops \<and> (\<forall>i. e < i \<longrightarrow> i < length ops \<longrightarrow> fst (ops ! i) \<noteq> Equal \<longrightarrow> e + 2 * ctx + 1 < i)"
proof (induction ctx ops k r end_ix rule: hunk_end.induct)
  case (1 ctx ops k r end_ix)
  show ?case
  proof (cases "k < length ops")
    case False
    then have "e = end_ix" using "1.prems"(7) by (simp add: hunk_end.simps [of ctx ops k r end_ix])
    with False "1.prems" show ?thesis by fastforce
  next
    case True
    show ?thesis
    proof (cases "fst (ops ! k) = Equal")
      case False
      have "fst (ops ! i) = Equal" if "k < i" "i < k + 1" for i using that by simp
      with False True "1.prems" "1.IH"(2) [OF True False] show ?thesis
        by (simp add: hunk_end.simps [of ctx ops k r end_ix])
    next
      case eq: True
      then have k: "k \<noteq> end_ix" "k = end_ix + r + 1" using "1.prems"(2,4) by (auto split: if_splits)
      have e: "fst (ops ! i) = Equal" if "end_ix < i" "i < k + 1" for i
        using that "1.prems"(5) [of i] eq by (cases "i = k") auto
      show ?thesis
      proof (cases "2 * ctx < r + 1")
        case stop: True
        then have "e = end_ix" "r = 2 * ctx"
          using "1.prems"(6,7) True eq by (simp_all add: hunk_end.simps [of ctx ops k r end_ix])
        with e k "1.prems"(1) show ?thesis by (metis Suc_eq_plus1 linorder_not_less not_less_eq)
      next
        case False
        then have "e = hunk_end ctx ops (k + 1) (r + 1) end_ix"
          using "1.prems"(7) True eq by (simp add: hunk_end.simps [of ctx ops k r end_ix])
        with False True "1.prems"(1) k e "1.IH"(1) [OF True eq False] show ?thesis by simp
      qed
    qed
  qed
qed

lemma hunk_end_run:
  assumes "idx < length ops" and "fst (ops ! idx) \<noteq> Equal" and "e = hunk_end ctx ops idx 0 idx"
  shows "idx \<le> e" "e < length ops"
    "\<And>i. e < i \<Longrightarrow> i < length ops \<Longrightarrow> fst (ops ! i) \<noteq> Equal \<Longrightarrow> e + 2 * ctx + 1 < i"
  using hunk_end_spec [of idx ops 0 idx ctx e] hunk_end_ge [of idx idx ctx ops 0] assms by auto

lemma hunks_from_change:
  assumes "idx < length ops" and "fst (ops ! idx) \<noteq> Equal"
  obtains e where "idx \<le> e" "e < length ops"
    "hunks_from ctx ops idx = (idx - ctx, min (e + ctx + 1) (length ops))
       # hunks_from ctx ops (min (e + ctx + 1) (length ops))"
    "\<And>i. e < i \<Longrightarrow> i < length ops \<Longrightarrow> fst (ops ! i) \<noteq> Equal \<Longrightarrow> e + 2 * ctx + 1 < i"
proof (rule that [of "hunk_end ctx ops idx 0 idx"])
  show "hunks_from ctx ops idx = (idx - ctx, min (hunk_end ctx ops idx 0 idx + ctx + 1) (length ops))
      # hunks_from ctx ops (min (hunk_end ctx ops idx 0 idx + ctx + 1) (length ops))"
    using assms by (simp add: hunks_from.simps [of ctx ops idx] Let_def)
qed (use hunk_end_run [OF assms refl] in auto)

lemma hunks_from_equal:
  "idx < length ops \<Longrightarrow> fst (ops ! idx) = Equal \<Longrightarrow> hunks_from ctx ops idx = hunks_from ctx ops (idx + 1)"
  by (simp add: hunks_from.simps [of ctx ops idx])

lemma hunks_induct [case_names stop equal change]:
  assumes "\<And>idx. length ops \<le> idx \<Longrightarrow> P idx"
    and "\<And>idx. idx < length ops \<Longrightarrow> fst (ops ! idx) = Equal \<Longrightarrow> P (idx + 1) \<Longrightarrow> P idx"
    and "\<And>idx. idx < length ops \<Longrightarrow> fst (ops ! idx) \<noteq> Equal \<Longrightarrow> (\<And>t. idx < t \<Longrightarrow> P t) \<Longrightarrow> P idx"
  shows "P (idx :: nat)"
proof (induction "length ops - idx" arbitrary: idx rule: less_induct)
  case less
  have "P t" if "idx < t" for t
    using that less [of t] assms(1) [of t] by (cases "length ops \<le> t") auto
  with assms [of idx] show ?case by fastforce
qed

lemma hunks_from_start:
  "h \<in> set (hunks_from ctx ops idx) \<Longrightarrow>
     \<exists>c. idx \<le> c \<and> fst (ops ! c) \<noteq> Equal \<and> fst h = c - ctx \<and> c < snd h \<and> snd h \<le> length ops"
proof (induction idx rule: hunks_induct [of ops])
  case (stop idx)
  then show ?case by (simp add: hunks_from.simps)
next
  case (equal idx)
  then have "h \<in> set (hunks_from ctx ops (idx + 1))" by (simp add: hunks_from_equal)
  with equal(3) show ?case by (meson add_leD1)
next
  case (change idx)
  obtain e where e: "idx \<le> e" "e < length ops"
    "hunks_from ctx ops idx = (idx - ctx, min (e + ctx + 1) (length ops))
       # hunks_from ctx ops (min (e + ctx + 1) (length ops))"
    using hunks_from_change [OF change(1,2)] by metis
  show ?case
  proof (cases "h = (idx - ctx, min (e + ctx + 1) (length ops))")
    case True
    with e change(1,2) show ?thesis by (intro exI [of _ idx]) auto
  next
    case False
    with change(4) e have "h \<in> set (hunks_from ctx ops (min (e + ctx + 1) (length ops)))" by simp
    moreover have "idx < min (e + ctx + 1) (length ops)" using e change(1) by simp
    ultimately show ?thesis using change(3) by (meson less_imp_le order_trans)
  qed
qed

lemma hunks_from_cover:
  "idx \<le> k \<Longrightarrow> k < length ops \<Longrightarrow> fst (ops ! k) \<noteq> Equal \<Longrightarrow>
     \<exists>h\<in>set (hunks_from ctx ops idx). fst h \<le> k \<and> k < snd h"
proof (induction idx rule: hunks_induct [of ops])
  case (equal idx)
  then have "idx \<noteq> k" by auto
  with equal show ?case by (simp add: hunks_from_equal)
next
  case (change idx)
  obtain e where e: "idx \<le> e" "e < length ops"
    "hunks_from ctx ops idx = (idx - ctx, min (e + ctx + 1) (length ops))
       # hunks_from ctx ops (min (e + ctx + 1) (length ops))"
    using hunks_from_change [OF change(1,2)] by metis
  show ?case
  proof (cases "k < min (e + ctx + 1) (length ops)")
    case True
    with e change show ?thesis by auto
  next
    case False
    with e change show ?thesis by (simp add: not_less)
  qed
qed simp

lemma hunks_from_sorted: "sorted_wrt (\<lambda>h h'. snd h < fst h') (hunks_from ctx ops idx)"
proof (induction idx rule: hunks_induct [of ops])
  case (stop idx)
  then show ?case by (simp add: hunks_from.simps)
next
  case (equal idx)
  then show ?case by (simp add: hunks_from_equal)
next
  case (change idx)
  obtain e where e: "idx \<le> e" "e < length ops"
    "hunks_from ctx ops idx = (idx - ctx, min (e + ctx + 1) (length ops))
       # hunks_from ctx ops (min (e + ctx + 1) (length ops))"
    "\<And>i. e < i \<Longrightarrow> i < length ops \<Longrightarrow> fst (ops ! i) \<noteq> Equal \<Longrightarrow> e + 2 * ctx + 1 < i"
    using hunks_from_change [OF change(1,2)] by metis
  let ?t = "min (e + ctx + 1) (length ops)"
  have "?t < fst h" if "h \<in> set (hunks_from ctx ops ?t)" for h
  proof -
    obtain c where c: "?t \<le> c" "fst (ops ! c) \<noteq> Equal" "fst h = c - ctx" "c < length ops"
      using hunks_from_start [OF \<open>h \<in> _\<close>] by fastforce
    then have "e < c" using e(2) by (auto simp: min_le_iff_disj)
    with e(4) c have "e + 2 * ctx + 1 < c" by blast
    with c show ?thesis by (simp add: min_less_iff_disj)
  qed
  with e change(3) show ?case by simp
qed

subsection \<open>Matched lines\<close>

lemma match_pairs_valid:
  "(b, o') \<in> set (match_pairs bi oi ops) \<Longrightarrow>
     bi \<le> b \<and> oi \<le> o' \<and> b - bi < length (old_side ops) \<and> o' - oi < length (new_side ops)
     \<and> old_side ops ! (b - bi) = new_side ops ! (o' - oi)"
proof (induction bi oi ops rule: match_pairs.induct)
  case (2 bi oi l ops)
  then show ?case by (force simp: side_defs nth_Cons' Suc_diff_Suc)
next
  case (3 bi oi l ops)
  then show ?case by (force simp: side_defs nth_Cons' Suc_diff_Suc)
next
  case (4 bi oi l ops)
  then show ?case by (force simp: side_defs nth_Cons' Suc_diff_Suc)
qed simp

lemma match_pairs_sorted:
  "sorted_wrt (\<lambda>p q. fst p < fst q \<and> snd p < snd q) (match_pairs bi oi ops)"
  by (induction bi oi ops rule: match_pairs.induct) (auto dest: match_pairs_valid)

lemma line_ops_sides: "old_side (line_ops old new) = old \<and> new_side (line_ops old new) = new"
  unfolding line_ops_def using ops_loop_sides [of 0 old 0 new "lcs_table old new"] by simp

lemma line_matches_valid:
  "(b, i) \<in> set (line_matches base other) \<Longrightarrow>
     b < length base \<and> i < length other \<and> base ! b = other ! i"
  unfolding line_matches_def using match_pairs_valid [of b i 0 0 "line_ops base other"]
  by (simp add: line_ops_sides)

lemma line_matches_sorted: "sorted_wrt (<) (map fst (line_matches base other))"
  unfolding line_matches_def sorted_wrt_map
  by (rule sorted_wrt_mono_rel [OF _ match_pairs_sorted]) simp

lemma line_ops_refl: "line_ops xs xs = map (Pair Equal) xs"
proof -
  have "ops_loop t xs xs i i = map (Pair Equal) (drop i xs)" for t and i
  proof (induction "length xs - i" arbitrary: i)
    case (Suc n)
    then show ?case
      by (simp add: ops_loop.simps [of t xs xs i] Cons_nth_drop_Suc [symmetric])
  qed (simp add: ops_loop.simps)
  then show ?thesis by (simp add: line_ops_def)
qed

lemma line_matches_refl: "line_matches xs xs = map (\<lambda>i. (i, i)) [0..<length xs]"
proof -
  have "match_pairs a a (map (Pair Equal) xs) = map (\<lambda>i. (i, i)) [a..<a + length xs]" for a
    by (induction xs arbitrary: a) (simp_all add: upt_conv_Cons del: upt_Suc)
  from this [of 0] show ?thesis by (simp add: line_matches_def line_ops_refl)
qed

text \<open>The anchors as one sorted list: base line, then the lines it matches on both sides.\<close>

definition anchor_list :: "(nat \<times> nat) list \<Rightarrow> (nat \<times> nat) list \<Rightarrow> (nat \<times> nat \<times> nat) list" where
  "anchor_list M N =
     concat (map (\<lambda>(bi, oi). case map_of N bi of Some ti \<Rightarrow> [(bi, oi, ti)] | None \<Rightarrow> []) M)"

lemma merge_anchors_eq:
  "merge_anchors bl ol tls = anchor_list (line_matches bl ol) (line_matches bl tls)
     @ [(length bl, length ol, length tls)]"
  by (simp add: merge_anchors_def anchor_list_def Let_def bt_get_def
      bt_collect_sorted [OF line_matches_sorted])

lemma anchor_list_Cons:
  "anchor_list ((b, x) # M) N =
     (case map_of N b of Some t \<Rightarrow> [(b, x, t)] | None \<Rightarrow> []) @ anchor_list M N"
  by (simp add: anchor_list_def)

lemma anchor_list_fst: "a \<in> set (anchor_list M N) \<Longrightarrow> fst a \<in> fst ` set M"
  by (force simp: anchor_list_def split: option.splits)

lemma anchor_list_sorted:
  "sorted_wrt (<) (map fst M) \<Longrightarrow> sorted_wrt (<) (map fst (anchor_list M N))"
proof (induction M)
  case (Cons p M)
  obtain b x where p: "p = (b, x)" by force
  have "b < fst a" if "a \<in> set (anchor_list M N)" for a
    using anchor_list_fst [OF that] Cons.prems p by auto
  with Cons p show ?case
    by (auto simp: anchor_list_Cons split: option.splits)
qed (simp add: anchor_list_def)

lemma anchor_list_map_of:
  "sorted_wrt (<) (map fst M) \<Longrightarrow>
     map_of (anchor_list M N) b =
       (case map_of M b of None \<Rightarrow> None | Some x \<Rightarrow> (case map_of N b of None \<Rightarrow> None | Some t \<Rightarrow> Some (x, t)))"
proof (induction M)
  case (Cons p M)
  obtain b' x where p: "p = (b', x)" by force
  have "map_of M b' = None"
    using Cons.prems p by (auto simp: map_of_eq_None_iff)
  with Cons p show ?case
    by (auto simp: anchor_list_Cons split: option.splits)
qed (simp add: anchor_list_def)

lemma map_of_graph: "map_of (map (\<lambda>(k, v). (k, g k v)) M) k = map_option (g k) (map_of M k)"
  by (induction M) auto

lemma anchor_list_unique:
  assumes "sorted_wrt (<) (map fst M)" and "sorted_wrt (<) (map fst K)"
    and "\<And>b. (case map_of M b of None \<Rightarrow> None
          | Some x \<Rightarrow> (case map_of N b of None \<Rightarrow> None | Some t \<Rightarrow> Some (x, t))) = map_option (g b) (map_of K b)"
  shows "anchor_list M N = map (\<lambda>(b, v). (b, g b v)) K"
proof (rule sorted_map_unique)
  show "sorted_wrt (<) (map fst (map (\<lambda>(b, v). (b, g b v)) K))"
    using assms(2) by (simp add: sorted_wrt_map split_beta)
qed (auto simp: anchor_list_sorted anchor_list_map_of map_of_graph assms)

lemma map_of_diag: "map_of (map (\<lambda>i. (i, i)) [0..<n]) b = (if b < n then Some b else None)"
  by (induction n) (auto simp: map_add_def split: option.splits)

lemma sorted_diag: "sorted_wrt (<) (map fst (map (\<lambda>i. (i, i)) [0..<n]))"
  by (simp add: comp_def)

lemma matches_key_bound: "map_of (line_matches bl xl) b = Some i \<Longrightarrow> b < length bl"
  by (auto dest!: map_of_SomeD line_matches_valid)

lemma anchors_ours_base:
  "anchor_list (line_matches bl bl) (line_matches bl tls) = map (\<lambda>(b, t). (b, b, t)) (line_matches bl tls)"
  unfolding line_matches_refl
  by (rule anchor_list_unique [OF sorted_diag line_matches_sorted])
    (auto simp: map_of_diag dest: matches_key_bound split: option.splits)

lemma anchors_theirs_base:
  "anchor_list (line_matches bl ol) (line_matches bl bl) = map (\<lambda>(b, x). (b, x, b)) (line_matches bl ol)"
  unfolding line_matches_refl
proof (rule anchor_list_unique [OF line_matches_sorted line_matches_sorted])
  fix b
  show "(case map_of (line_matches bl ol) b of None \<Rightarrow> None
      | Some x \<Rightarrow> (case map_of (map (\<lambda>i. (i, i)) [0..<length bl]) b of None \<Rightarrow> None | Some t \<Rightarrow> Some (x, t)))
    = map_option (\<lambda>x. (x, b)) (map_of (line_matches bl ol) b)"
    by (cases "map_of (line_matches bl ol) b") (auto simp: map_of_diag dest: matches_key_bound)
qed

lemma anchors_same:
  "anchor_list (line_matches bl ol) (line_matches bl ol) = map (\<lambda>(b, x). (b, x, x)) (line_matches bl ol)"
  by (rule anchor_list_unique [OF line_matches_sorted line_matches_sorted]) (auto split: option.splits)

definition swap_anchor :: "nat \<times> nat \<times> nat \<Rightarrow> nat \<times> nat \<times> nat" where
  "swap_anchor a = (fst a, snd (snd a), fst (snd a))"

lemma swap_anchor_simp [simp]: "swap_anchor (a, x, y) = (a, y, x)"
  by (simp add: swap_anchor_def)

lemma anchors_swap:
  "anchor_list (line_matches bl tls) (line_matches bl ol) =
     map swap_anchor (anchor_list (line_matches bl ol) (line_matches bl tls))"
proof -
  have swap: "swap_anchor = (\<lambda>(b, x). (b, (\<lambda>b x. (snd x, fst x)) b x))"
    by (auto simp: swap_anchor_def)
  show ?thesis
    unfolding swap
    by (rule anchor_list_unique [OF line_matches_sorted anchor_list_sorted [OF line_matches_sorted]])
      (auto simp: anchor_list_map_of [OF line_matches_sorted] split: option.splits)
qed

subsection \<open>The merge loop\<close>

text \<open>
  When every region yields the lines of one side \<open>S\<close>, the loop yields all of \<open>S\<close>. \<open>eo\<close> and
  \<open>et\<close> give the other two cursors in terms of the base line and the line of \<open>S\<close>.
\<close>

fun matched :: "'a list \<Rightarrow> 'a list \<Rightarrow> (nat \<times> nat) list \<Rightarrow> nat \<Rightarrow> bool" where
  "matched bl S [] p \<longleftrightarrow> p \<le> length S"
| "matched bl S ((b, s) # M) p \<longleftrightarrow>
     p \<le> s \<and> s < length S \<and> b < length bl \<and> bl ! b = S ! s \<and> matched bl S M (s + 1)"

lemma slice_step: "p \<le> s \<Longrightarrow> s < length S \<Longrightarrow> slice_of S p s @ S ! s # drop (s + 1) S = drop p S"
  unfolding slice_of_def
  by (metis Cons_nth_drop_Suc Suc_eq_plus1 append_take_drop_id drop_drop le_add_diff_inverse2)

lemma merge_loop_side:
  assumes "\<And>pb ps b s. merge_region (slice_of bl pb b) (slice_of ol (eo pb ps) (eo b s))
      (slice_of tls (et pb ps) (et b s)) = (concat (slice_of S ps s), False)"
    and "\<And>b s. eo (b + 1) (s + 1) = eo b s + 1 \<and> et (b + 1) (s + 1) = et b s + 1"
    and "eo (length bl) (length S) = length ol" and "et (length bl) (length S) = length tls"
  shows "matched bl S M ps \<Longrightarrow>
    merge_loop bl ol tls (map (\<lambda>(b, s). (b, eo b s, et b s)) M @ [(length bl, length ol, length tls)])
      (pb, eo pb ps, et pb ps) r =
    \<lparr>merged = merged r @ concat (drop ps S), conflicted = conflicted r\<rparr>"
proof (induction M arbitrary: pb ps r)
  case Nil
  have "slice_of S ps (length S) = drop ps S" by (simp add: slice_of_def)
  then show ?case
    using assms(1) [of pb "length bl" ps "length S"] assms(3,4) by (simp add: Let_def)
next
  case (Cons m M)
  obtain b s where m: "m = (b, s)" by force
  with Cons.prems have s: "ps \<le> s" "s < length S" "b < length bl" "bl ! b = S ! s" "matched bl S M (s + 1)"
    by simp_all
  have "concat (drop ps S) = concat (slice_of S ps s) @ S ! s @ concat (drop (s + 1) S)"
    unfolding slice_step [OF s(1,2), symmetric] by simp
  then show ?case
    using Cons.IH [OF s(5), of "b + 1"] assms(2) s by (simp add: m assms(1) Let_def)
qed

lemma matched_sorted:
  "sorted_wrt (\<lambda>p q. fst p < fst q \<and> snd p < snd q) M \<Longrightarrow>
     (\<And>b s. (b, s) \<in> set M \<Longrightarrow> b < length bl \<and> s < length S \<and> bl ! b = S ! s) \<Longrightarrow>
     (\<And>b s. (b, s) \<in> set M \<Longrightarrow> p \<le> s) \<Longrightarrow> p \<le> length S \<Longrightarrow> matched bl S M p"
proof (induction M arbitrary: p)
  case (Cons m M)
  obtain b s where m: "m = (b, s)" by force
  have "s + 1 \<le> s'" if "(b', s') \<in> set M" for b' s'
    using that Cons.prems(1) m by force
  then have "matched bl S M (s + 1)"
    using Cons.prems m by (intro Cons.IH) (auto simp: Suc_le_eq)
  with Cons.prems(2,3) [of b s] m show ?case by simp
qed simp

lemma matched_line_matches: "matched bl S (line_matches bl S) 0"
  by (rule matched_sorted) (auto simp: line_matches_def match_pairs_sorted
      dest: line_matches_valid [unfolded line_matches_def])

lemma merge_region_swap:
  "snd (merge_region b t x) = snd (merge_region b x t)
   \<and> (\<not> snd (merge_region b x t) \<longrightarrow> fst (merge_region b t x) = fst (merge_region b x t))"
  by (auto simp: merge_region_def)

definition emit_region :: "bytes list \<Rightarrow> nat \<Rightarrow> bytes \<times> bool \<Rightarrow> merge3_result \<Rightarrow> merge3_result" where
  "emit_region bl bi reg r =
     \<lparr>merged = merged r @ fst reg @ (if bi < length bl then bl ! bi else []),
      conflicted = conflicted r \<or> snd reg\<rparr>"

lemma merge_loop_step:
  "merge_loop bl ol tls ((bi, oi, ti) # A) (pb, po, pt) r =
     merge_loop bl ol tls A (bi + 1, oi + 1, ti + 1)
       (emit_region bl bi (merge_region (slice_of bl pb bi) (slice_of ol po oi) (slice_of tls pt ti)) r)"
  by (simp add: emit_region_def split_beta Let_def)

lemma merge_loop_swap:
  "conflicted r' = conflicted r \<Longrightarrow> (\<not> conflicted r \<Longrightarrow> merged r' = merged r) \<Longrightarrow>
     conflicted (merge_loop bl tls ol (map swap_anchor A) (swap_anchor p) r')
       = conflicted (merge_loop bl ol tls A p r)
     \<and> (\<not> conflicted (merge_loop bl ol tls A p r) \<longrightarrow>
          merged (merge_loop bl tls ol (map swap_anchor A) (swap_anchor p) r')
            = merged (merge_loop bl ol tls A p r))"
proof (induction A arbitrary: p r r')
  case (Cons a A)
  obtain bi oi ti pb po pt where a: "a = (bi, oi, ti)" "p = (pb, po, pt)" by (metis prod.exhaust)
  let ?R = "emit_region bl bi (merge_region (slice_of bl pb bi) (slice_of ol po oi) (slice_of tls pt ti)) r"
  let ?R' = "emit_region bl bi (merge_region (slice_of bl pb bi) (slice_of tls pt ti) (slice_of ol po oi)) r'"
  have "conflicted ?R' = conflicted ?R" "\<not> conflicted ?R \<Longrightarrow> merged ?R' = merged ?R"
    using Cons.prems merge_region_swap [of "slice_of bl pb bi" "slice_of tls pt ti" "slice_of ol po oi"]
    by (auto simp: emit_region_def)
  then have "conflicted (merge_loop bl tls ol (map swap_anchor A) (swap_anchor (bi + 1, oi + 1, ti + 1)) ?R')
        = conflicted (merge_loop bl ol tls A (bi + 1, oi + 1, ti + 1) ?R)
      \<and> (\<not> conflicted (merge_loop bl ol tls A (bi + 1, oi + 1, ti + 1) ?R) \<longrightarrow>
          merged (merge_loop bl tls ol (map swap_anchor A) (swap_anchor (bi + 1, oi + 1, ti + 1)) ?R')
            = merged (merge_loop bl ol tls A (bi + 1, oi + 1, ti + 1) ?R))"
    by (rule Cons.IH)
  then show ?case
    unfolding a list.map merge_loop_step swap_anchor_simp .
qed auto

section \<open>Properties\<close>

text \<open>
  C35. The edit script is right: its equal and deleted lines are exactly the old lines in
  order, its equal and inserted lines exactly the new ones, and it keeps as many lines as
  possible: no common subsequence of the two sides is longer than the script's equal lines.
\<close>

theorem line_ops_correct:
  "old_side (line_ops old new) = old \<and> new_side (line_ops old new) = new
   \<and> (\<forall>zs. subseq zs old \<longrightarrow> subseq zs new \<longrightarrow> length zs \<le> length (common (line_ops old new)))"
proof (intro conjI allI impI)
  fix zs
  assume "subseq zs old" "subseq zs new"
  then show "length zs \<le> length (common (line_ops old new))"
    using lcs_len_upper [of zs old new] ops_loop_common [of 0 old 0 new] by (simp add: line_ops_def)
qed (simp_all add: line_ops_sides)

theorem line_ops_correct_witness:
  "length [2 :: int, 3] \<le> length (common (line_ops [1, 2, 3, 4] [2, 5, 3 :: int]))"
proof -
  have "subseq [2, 3] [1, 2, 3, 4 :: int]" "subseq [2, 3] [2, 5, 3 :: int]" by simp_all
  then show ?thesis using line_ops_correct by blast
qed

text \<open>
  The hunks of a unified diff hold every change, each within its bounds, in order and
  without overlap, and the line numbers of a hunk's header locate it in both files: the
  hunk's old lines are the \<open>old_count\<close> lines of the old file from line \<open>old_no\<close> on, and
  likewise for the new file.
\<close>

theorem hunks_correct:
  "let ops = line_ops old new in
    (\<forall>k<length ops. fst (ops ! k) \<noteq> Equal \<longrightarrow> (\<exists>h\<in>set (hunks_from ctx ops 0). fst h \<le> k \<and> k < snd h))
    \<and> sorted_wrt (\<lambda>h h'. snd h < fst h') (hunks_from ctx ops 0)
    \<and> (\<forall>h\<in>set (hunks_from ctx ops 0).
         case hunk_numbers ops h of ((old_no, new_no), (old_count, new_count)) \<Rightarrow>
           old_side (slice_of ops (fst h) (snd h)) = slice_of old (old_no - 1) (old_no - 1 + old_count)
           \<and> new_side (slice_of ops (fst h) (snd h)) = slice_of new (new_no - 1) (new_no - 1 + new_count))"
proof -
  define ops where "ops = line_ops old new"
  have "old_side (slice_of ops (fst h) (snd h)) = slice_of old (old_no - 1) (old_no - 1 + old_count)
      \<and> new_side (slice_of ops (fst h) (snd h)) = slice_of new (new_no - 1) (new_no - 1 + new_count)"
    if "h \<in> set (hunks_from ctx ops 0)" and n: "hunk_numbers ops h = ((old_no, new_no), (old_count, new_count))"
    for h old_no new_no old_count new_count
  proof -
    have "fst h \<le> snd h" using hunks_from_start [OF that(1)] by auto
    from slice_split [OF this, of ops]
    have "old = old_side (take (fst h) ops) @ old_side (slice_of ops (fst h) (snd h)) @ old_side (drop (snd h) ops)"
      "new = new_side (take (fst h) ops) @ new_side (slice_of ops (fst h) (snd h)) @ new_side (drop (snd h) ops)"
      using line_ops_sides [of old new] by (metis old_side_append ops_def, metis new_side_append ops_def)
    moreover have "old_no - 1 = length (old_side (take (fst h) ops))"
        "new_no - 1 = length (new_side (take (fst h) ops))"
        "old_count = length (old_side (slice_of ops (fst h) (snd h)))"
        "new_count = length (new_side (slice_of ops (fst h) (snd h)))"
      using n by (auto simp: hunk_numbers_def count_ops)
    ultimately show ?thesis by (metis slice_middle)
  qed
  then show ?thesis
    unfolding Let_def ops_def [symmetric]
    using hunks_from_sorted [of ctx ops 0] hunks_from_cover [of 0 _ ops ctx] by (simp split: prod.splits)
qed

theorem hunks_correct_witness:
  "sorted_wrt (\<lambda>h h'. snd h < fst h') (hunks_from 1 (line_ops [bstr ''a''] [bstr ''b'', bstr ''a'']) 0)"
  using hunks_correct [of "[bstr ''a'']" "[bstr ''b'', bstr ''a'']" 1] unfolding Let_def by blast

text \<open>
  The laws of a three-way merge: when only one side changed, the result is that side;
  when both sides are equal, it is that common text; none of these conflicts. And the merge
  does not depend on which side is ours: both orders conflict or neither does, and without a
  conflict both give the same bytes.
\<close>

theorem merge3_laws:
  "merge3 base base theirs = \<lparr>merged = theirs, conflicted = False\<rparr>
   \<and> merge3 base ours base = \<lparr>merged = ours, conflicted = False\<rparr>
   \<and> merge3 base ours ours = \<lparr>merged = ours, conflicted = False\<rparr>
   \<and> conflicted (merge3 base theirs ours) = conflicted (merge3 base ours theirs)
   \<and> (conflicted (merge3 base ours theirs)
       \<or> merged (merge3 base theirs ours) = merged (merge3 base ours theirs))"
proof -
  have base: "merge_region b b x = (concat x, False)" "merge_region b x b = (concat x, False)"
      "merge_region b x x = (concat x, False)" for b x
    by (auto simp: merge_region_def append_lines_def)
  note side = merge_loop_side [where r = "\<lparr>merged = [], conflicted = False\<rparr>" and ps = 0 and pb = 0]
  have a: "merge3 base base theirs = \<lparr>merged = theirs, conflicted = False\<rparr>"
    using side [of _ _ "\<lambda>b s. b" _ "\<lambda>b s. s", OF _ _ _ _ matched_line_matches] base
    by (simp add: merge3_def Let_def merge_anchors_eq anchors_ours_base)
  have b: "merge3 base ours base = \<lparr>merged = ours, conflicted = False\<rparr>"
    using side [of _ _ "\<lambda>b s. s" _ "\<lambda>b s. b", OF _ _ _ _ matched_line_matches] base
    by (simp add: merge3_def Let_def merge_anchors_eq anchors_theirs_base)
  have c: "merge3 base ours ours = \<lparr>merged = ours, conflicted = False\<rparr>"
    using side [of _ _ "\<lambda>b s. s" _ "\<lambda>b s. s", OF _ _ _ _ matched_line_matches] base
    by (simp add: merge3_def Let_def merge_anchors_eq anchors_same)
  have sw: "merge_anchors bl tls ol = map swap_anchor (merge_anchors bl ol tls)" for bl tls ol
    by (simp add: merge_anchors_eq anchors_swap [of bl tls ol])
  have m: "merge3 base theirs ours = merge_loop (split_lines base) (split_lines theirs) (split_lines ours)
      (map swap_anchor (merge_anchors (split_lines base) (split_lines ours) (split_lines theirs)))
      (swap_anchor (0, 0, 0)) \<lparr>merged = [], conflicted = False\<rparr>"
    by (simp only: merge3_def Let_def swap_anchor_simp
        sw [of "split_lines base" "split_lines theirs" "split_lines ours"])
  have "conflicted (merge3 base theirs ours) = conflicted (merge3 base ours theirs)
      \<and> (\<not> conflicted (merge3 base ours theirs) \<longrightarrow>
           merged (merge3 base theirs ours) = merged (merge3 base ours theirs))"
    unfolding m unfolding merge3_def Let_def by (rule merge_loop_swap) simp_all
  with a b c show ?thesis by blast
qed

end
