(* ===== verification/Compress.thy ===== *)
theory Compress
  imports Prelude
begin

text \<open>
  The zlib wrappers of src/src/compress.rs. The codec is the crate \<open>compcol\<close>: the parameter
  \<open>z\<close> holds its one-shot compressor and its streaming decoder (\<open>decode\<close>, \<open>finish\<close>, each
  with the decoder's state \<open>'d\<close>). The loops that drive the decoder run on a fuel of
  \<open>length data + max + 2\<close> and \<open>max + 2\<close> steps; \<open>inflate_counted_total\<close> shows that this is
  enough for every decoder that reports its progress truthfully (\<open>honest\<close>), since a step
  that does not end the loop consumes input or adds to an output of at most \<open>max\<close> bytes.
\<close>

datatype zstatus = StreamEnd | InputEmpty | OutputFull

text \<open>A step of the decoder: the bytes written to the scratch buffer, the count consumed.\<close>

record 'd zlib =
  zl_compress :: "bytes \<Rightarrow> bytes result"
  zl_new :: 'd
  zl_decode :: "'d \<Rightarrow> bytes \<Rightarrow> (bytes \<times> nat \<times> zstatus \<times> 'd) result"
  zl_finish :: "'d \<Rightarrow> (bytes \<times> zstatus \<times> 'd) result"

definition deflate :: "'d zlib \<Rightarrow> bytes \<Rightarrow> bytes result" where
  "deflate z d = zl_compress z d"

text \<open>The first loop; \<open>Inl\<close> is the \<open>return\<close> at the stream end, \<open>Inr\<close> the \<open>break\<close>.\<close>

fun decode_steps :: "nat \<Rightarrow> 'd zlib \<Rightarrow> nat \<Rightarrow> 'd \<Rightarrow> bytes \<Rightarrow> bytes \<Rightarrow> nat
    \<Rightarrow> ((bytes \<times> nat) + ('d \<times> bytes \<times> nat)) result option" where
  "decode_steps 0 z mx dec data out consumed = None"
| "decode_steps (Suc n) z mx dec data out consumed =
     (case zl_decode z dec (drop consumed data) of
        Err e \<Rightarrow> Some (Err e)
      | Ok (w, c, status, dec') \<Rightarrow>
          let out' = out @ w; consumed' = consumed + c
          in if mx < length out' then Some (Err (Compression ''inflate exceeded declared size''))
             else case status of
                    StreamEnd \<Rightarrow> Some (Ok (Inl (out', consumed')))
                  | InputEmpty \<Rightarrow> Some (Ok (Inr (dec', out', consumed')))
                  | OutputFull \<Rightarrow>
                      if w = [] \<and> c = 0 then Some (Ok (Inr (dec', out', consumed')))
                      else decode_steps n z mx dec' data out' consumed')"

fun finish_steps :: "nat \<Rightarrow> 'd zlib \<Rightarrow> nat \<Rightarrow> 'd \<Rightarrow> bytes \<Rightarrow> nat \<Rightarrow> (bytes \<times> nat) result option" where
  "finish_steps 0 z mx dec out consumed = None"
| "finish_steps (Suc n) z mx dec out consumed =
     (case zl_finish z dec of
        Err e \<Rightarrow> Some (Err e)
      | Ok (w, status, dec') \<Rightarrow>
          let out' = out @ w
          in if mx < length out' then Some (Err (Compression ''inflate exceeded declared size''))
             else if status = StreamEnd then Some (Ok (out', consumed))
             else if w = [] then Some (Err (Compression ''truncated zlib stream''))
             else finish_steps n z mx dec' out' consumed)"

definition inflate_run :: "'d zlib \<Rightarrow> bytes \<Rightarrow> nat \<Rightarrow> (bytes \<times> nat) result option" where
  "inflate_run z data mx =
     (case decode_steps (length data + mx + 2) z mx (zl_new z) data [] 0 of
        None \<Rightarrow> None
      | Some (Err e) \<Rightarrow> Some (Err e)
      | Some (Ok (Inl r)) \<Rightarrow> Some (Ok r)
      | Some (Ok (Inr (dec, out, consumed))) \<Rightarrow> finish_steps (mx + 2) z mx dec out consumed)"

definition inflate_counted :: "'d zlib \<Rightarrow> bytes \<Rightarrow> nat \<Rightarrow> (bytes \<times> nat) result" where
  "inflate_counted z data mx =
     (case inflate_run z data mx of
        Some r \<Rightarrow> r | None \<Rightarrow> Err (Compression ''the decoder makes no progress''))"

definition inflate_capped :: "'d zlib \<Rightarrow> bytes \<Rightarrow> nat \<Rightarrow> bytes result" where
  "inflate_capped z data mx = bind_res (inflate_counted z data mx) (\<lambda>(out, consumed). Ok out)"

definition MAX_OVERREAD :: nat where
  "MAX_OVERREAD = 64"

text \<open>The loop of \<open>inflate_exact\<close> shrinks the prefix while it still decodes to the same bytes.\<close>

fun shrink :: "'d zlib \<Rightarrow> bytes \<Rightarrow> nat \<Rightarrow> bytes \<Rightarrow> nat \<Rightarrow> nat \<Rightarrow> nat" where
  "shrink z data mx out flr 0 = 0"
| "shrink z data mx out flr (Suc cand) =
     (if flr < Suc cand then
        (case inflate_counted z (take cand data) mx of
           Ok (o', c) \<Rightarrow> if o' = out then shrink z data mx out flr cand else Suc cand
         | Err e \<Rightarrow> Suc cand)
      else Suc cand)"

definition inflate_exact :: "'d zlib \<Rightarrow> bytes \<Rightarrow> nat \<Rightarrow> (bytes \<times> nat) result" where
  "inflate_exact z data mx =
     bind_res (inflate_counted z data mx) (\<lambda>(out, over).
       Ok (out, shrink z data mx out (over - MAX_OVERREAD) over))"

text \<open>What the code relies on. A decoder does not claim to have read more than it was given.\<close>

definition honest :: "'d zlib \<Rightarrow> bool" where
  "honest z \<longleftrightarrow> (\<forall>dec data w c s dec'. zl_decode z dec data = Ok (w, c, s, dec') \<longrightarrow> c \<le> length data)"

text \<open>
  RFC 1950 as far as git needs it: the compressor succeeds, its output decodes to the input
  whatever follows it in the buffer, the decoder reads the whole stream and at most
  \<open>MAX_OVERREAD\<close> bytes of what follows, and no proper prefix of a stream decodes.
\<close>

definition zlib_ok :: "'d zlib \<Rightarrow> bool" where
  "zlib_ok z \<longleftrightarrow>
     (\<forall>d. \<exists>c. zl_compress z d = Ok c
        \<and> (\<forall>rest mx. length d \<le> mx \<longrightarrow>
             (\<exists>n. inflate_counted z (c @ rest) mx = Ok (d, n)
                \<and> length c \<le> n \<and> n \<le> length c + min MAX_OVERREAD (length rest)))
        \<and> (\<forall>k mx. k < length c \<longrightarrow> is_err (inflate_counted z (take k c) mx)))"

section \<open>Lemmas\<close>

lemma decode_steps_total:
  assumes "honest z"
  shows "consumed \<le> length data \<Longrightarrow> length out \<le> mx \<Longrightarrow>
    length data - consumed + (mx - length out) < n \<Longrightarrow>
    \<exists>r. decode_steps n z mx dec data out consumed = Some r
      \<and> (\<forall>dec' out' c. r = Ok (Inr (dec', out', c)) \<longrightarrow> length out' \<le> mx)"
proof (induction n arbitrary: dec out consumed)
  case (Suc n)
  show ?case
  proof (cases "zl_decode z dec (drop consumed data)")
    case (Ok x)
    obtain w c s dec' where x: "x = (w, c, s, dec')" by (cases x)
    have c: "c \<le> length data - consumed"
      using assms Ok x unfolding honest_def by (metis length_drop)
    have "\<exists>r. decode_steps n z mx dec' data (out @ w) (consumed + c) = Some r
      \<and> (\<forall>dec' out' c. r = Ok (Inr (dec', out', c)) \<longrightarrow> length out' \<le> mx)"
      if "length (out @ w) \<le> mx" "\<not> (w = [] \<and> c = 0)"
      using that c Suc.prems by (intro Suc.IH) (cases w; auto)+
    with Ok x show ?thesis by (cases s) (auto simp: Let_def)
  qed simp
qed simp

lemma finish_steps_total:
  "length out \<le> mx \<Longrightarrow> mx - length out < n \<Longrightarrow> \<exists>r. finish_steps n z mx dec out consumed = Some r"
proof (induction n arbitrary: dec out)
  case (Suc n)
  show ?case
  proof (cases "zl_finish z dec")
    case (Ok x)
    obtain w s dec' where x: "x = (w, s, dec')" by (cases x)
    have "\<exists>r. finish_steps n z mx dec' (out @ w) consumed = Some r"
      if "length (out @ w) \<le> mx" "w \<noteq> []"
      using that Suc.prems by (intro Suc.IH) (cases w; auto)+
    with Ok x show ?thesis by (auto simp: Let_def)
  qed simp
qed simp

lemma inflate_counted_total:
  assumes "honest z"
  shows "\<exists>r. inflate_run z data mx = Some r"
proof -
  obtain r where r: "decode_steps (length data + mx + 2) z mx (zl_new z) data [] 0 = Some r"
      "\<And>dec' out' c. r = Ok (Inr (dec', out', c)) \<Longrightarrow> length out' \<le> mx"
    using decode_steps_total [OF assms, of 0 data "[]" mx "length data + mx + 2" "zl_new z"] by auto
  have "\<exists>q. finish_steps (mx + 2) z mx dec' out' c = Some q" if "r = Ok (Inr (dec', out', c))" for dec' out' c
    using r(2) [OF that] by (intro finish_steps_total) simp_all
  with r(1) show ?thesis
    unfolding inflate_run_def by (auto split: result.splits sum.splits)
qed

lemma zlib_okD:
  assumes "zlib_ok z"
  obtains c where "deflate z d = Ok c"
    "\<And>rest mx. length d \<le> mx \<Longrightarrow> inflate_capped z (c @ rest) mx = Ok d"
    "\<And>rest mx. length d \<le> mx \<Longrightarrow> inflate_exact z (c @ rest) mx = Ok (d, length c)"
proof -
  obtain c where c: "zl_compress z d = Ok c"
    and ok: "\<And>rest mx. length d \<le> mx \<Longrightarrow> \<exists>n. inflate_counted z (c @ rest) mx = Ok (d, n)
                \<and> length c \<le> n \<and> n \<le> length c + min MAX_OVERREAD (length rest)"
    and bad: "\<And>k mx. k < length c \<Longrightarrow> is_err (inflate_counted z (take k c) mx)"
    using assms unfolding zlib_ok_def by metis
  have shrink: "shrink z (c @ rest) mx d flr n = length c"
    if "length d \<le> mx" "flr \<le> length c" "length c \<le> n" "n \<le> length c + length rest" for rest mx flr n
    using that(3,4)
  proof (induction n)
    case (Suc n)
    show ?case
    proof (cases "length c = Suc n")
      case True
      then have "is_err (inflate_counted z (take n (c @ rest)) mx)" using bad [of n] by simp
      with True show ?thesis by (cases "inflate_counted z (take n (c @ rest)) mx") auto
    next
      case False
      then have le: "length c \<le> n" using Suc.prems by simp
      then have "take n (c @ rest) = c @ take (n - length c) rest" by simp
      with ok [OF that(1), of "take (n - length c) rest"] Suc le that(2) show ?thesis by auto
    qed
  qed simp
  show ?thesis
  proof (rule that [of c])
    show "deflate z d = Ok c" by (simp add: deflate_def c)
    fix rest mx
    assume l: "length d \<le> mx"
    from ok [OF l, of rest] obtain n where n: "inflate_counted z (c @ rest) mx = Ok (d, n)"
      "length c \<le> n" "n \<le> length c + min MAX_OVERREAD (length rest)" by blast
    then show "inflate_capped z (c @ rest) mx = Ok d" by (simp add: inflate_capped_def)
    show "inflate_exact z (c @ rest) mx = Ok (d, length c)"
      using n shrink [OF l, of "n - MAX_OVERREAD" n rest] by (simp add: inflate_exact_def)
  qed
qed

section \<open>A codec that meets the contract\<close>

text \<open>
  A concrete instance, used to show that the contract can hold: every byte is preceded by a
  one and the stream ends with a zero. Its decoder writes one byte per step.
\<close>

fun stored_stream :: "bytes \<Rightarrow> bytes" where
  "stored_stream [] = [0]"
| "stored_stream (c # d) = 1 # c # stored_stream d"

fun stored_decode :: "unit \<Rightarrow> bytes \<Rightarrow> (bytes \<times> nat \<times> zstatus \<times> unit) result" where
  "stored_decode u [] = Ok ([], 0, InputEmpty, u)"
| "stored_decode u (a # r) =
     (if a = 0 then Ok ([], 1, StreamEnd, u)
      else if a \<noteq> 1 then Err (Compression ''corrupt'')
      else if r = [] then Ok ([], 0, InputEmpty, u)
      else Ok ([hd r], 2, OutputFull, u))"

definition stored :: "unit zlib" where
  "stored = \<lparr>zl_compress = \<lambda>d. Ok (stored_stream d), zl_new = (), zl_decode = stored_decode,
     zl_finish = \<lambda>u. Ok ([], InputEmpty, u)\<rparr>"

lemma length_stored_stream [simp]: "length (stored_stream d) = 2 * length d + 1"
  by (induction d) auto

lemma stored_run:
  "drop k data = stored_stream d @ rest \<Longrightarrow> length out + length d \<le> mx \<Longrightarrow> length d < n \<Longrightarrow>
     decode_steps n stored mx () data out k = Some (Ok (Inl (out @ d, k + (2 * length d + 1))))"
proof (induction d arbitrary: out k n)
  case Nil
  then show ?case by (cases n) (auto simp: stored_def)
next
  case (Cons c d)
  obtain m where n: "n = Suc m" using Cons.prems(3) by (cases n) auto
  have "drop (k + 2) data = drop 2 (drop k data)" by (simp add: add.commute)
  then have "drop (k + 2) data = stored_stream d @ rest" using Cons.prems(1) by simp
  from Cons.IH [OF this, of "out @ [c]" m] Cons.prems n show ?case
    by (simp add: stored_def Let_def)
qed

lemma stored_prefix:
  "drop k data = take j (stored_stream d) \<Longrightarrow> j < length (stored_stream d) \<Longrightarrow>
     decode_steps n stored mx () data out k \<noteq> Some (Ok (Inl r))"
proof (induction n arbitrary: d out k j)
  case (Suc n)
  show ?case
  proof (cases "take j (stored_stream d)")
    case Nil
    with Suc.prems show ?thesis by (auto simp: stored_def Let_def)
  next
    case (Cons a r')
    then obtain c d' j' where d: "d = c # d'" and j: "j = Suc j'"
      using Suc.prems(2) by (cases d; cases j) auto
    show ?thesis
    proof (cases j')
      case 0
      with Suc.prems d j show ?thesis by (auto simp: stored_def Let_def)
    next
      case (Suc j'')
      have "drop (k + 2) data = drop 2 (drop k data)" by (simp add: add.commute)
      then have "drop (k + 2) data = take j'' (stored_stream d')" using Suc.prems(1) d j Suc by simp
      with Suc.prems(2) d j Suc have "decode_steps n stored mx () data (out @ [c]) (k + 2) \<noteq> Some (Ok (Inl r))"
        by (intro Suc.IH) auto
      with Suc.prems d j Suc show ?thesis by (auto simp: stored_def Let_def)
    qed
  qed
qed simp

lemma zlib_ok_stored: "zlib_ok stored" and honest_stored: "honest stored"
proof -
  have zl_new_stored: "zl_new stored = ()" by simp
  have c: "inflate_counted stored (stored_stream d @ rest) mx = Ok (d, length (stored_stream d))"
    if "length d \<le> mx" for d rest mx
    using stored_run [of 0 "stored_stream d @ rest" d rest "[]" mx
        "length (stored_stream d @ rest) + mx + 2"] that
    by (simp add: inflate_counted_def inflate_run_def zl_new_stored)
  have "is_err (inflate_counted stored (take k (stored_stream d)) mx)"
    if "k < length (stored_stream d)" for d k mx
  proof -
    let ?D = "decode_steps (length (take k (stored_stream d)) + mx + 2) stored mx (zl_new stored)
        (take k (stored_stream d)) [] 0"
    have no: "?D \<noteq> Some (Ok (Inl r))" for r
      using stored_prefix [of 0 "take k (stored_stream d)" k d] that
      by (simp del: decode_steps.simps)
    have fin: "\<exists>e. finish_steps (mx + 2) stored mx u out n = Some (Err e)" for u out n
    proof -
      have "finish_steps (Suc (mx + 1)) stored mx u out n = Some (Err (Compression
          (if mx < length out then ''inflate exceeded declared size'' else ''truncated zlib stream'')))"
        by (simp add: stored_def)
      then show ?thesis by (metis add_2_eq_Suc' Suc_eq_plus1)
    qed
    show ?thesis
    proof (cases ?D)
      case None
      show ?thesis unfolding inflate_counted_def inflate_run_def None by simp
    next
      case (Some x)
      show ?thesis
      proof (cases x)
        case (Ok y)
        with no Some obtain u out n where "y = Inr (u, out, n)" by (cases y) auto
        with fin [of u out n] Ok show ?thesis unfolding inflate_counted_def inflate_run_def Some by auto
      next
        case (Err e)
        show ?thesis unfolding inflate_counted_def inflate_run_def Some Err by simp
      qed
    qed
  qed
  with c show "zlib_ok stored"
    by (auto simp: zlib_ok_def stored_def intro!: exI [of _ "stored_stream _"])
  show "honest stored"
    unfolding honest_def
  proof (intro allI impI)
    fix dec data w c s dec'
    assume "zl_decode stored dec data = Ok (w, c, s, dec')"
    then show "c \<le> length data"
      by (cases data) (auto simp: stored_def Suc_le_eq split: if_splits)
  qed
qed

end
