(* ===== verification/Vfs.thy ===== *)
theory Vfs
  imports Prelude
begin

text \<open>
  The filesystem below a repository: the operations of src/src/vfs/mod.rs as
  src/src/vfs/std_impl.rs implements them on a directory tree. A tree maps the paths of its
  files (lists of components below the root) to their contents and has a set of directories.
  An operation that writes returns its result and the tree it leaves behind. The messages of
  operating system errors are not modelled (every one is \<open>Io ''os''\<close>); the temporary sibling
  of \<open>write\<close> has been renamed or removed when \<open>write\<close> returns.
\<close>

type_synonym path = "bytes list"

record vfs =
  files :: "path \<rightharpoonup> bytes"
  dirs :: "path set"

datatype file_type = File | Dir | SymbolicLink

text \<open>The components that \<open>Path::components\<close> yields: empty ones and \<open>.\<close> disappear.\<close>

definition components :: "bytes \<Rightarrow> path" where
  "components p = filter (\<lambda>c. c \<noteq> [] \<and> c \<noteq> [46]) (split_on 47 p)"

definition resolve :: "bytes \<Rightarrow> path result" where
  "resolve p =
     (if p \<noteq> [] \<and> hd p = 47 then Err (Io ''vfs: absolute path rejected: {path:?}'')
      else if [46, 46] \<in> set (components p) then Err (Io ''vfs: path escapes the root via ..: {path:?}'')
      else Ok (components p))"

definition is_present :: "vfs \<Rightarrow> path \<Rightarrow> bool" where
  "is_present v c \<longleftrightarrow> files v c \<noteq> None \<or> c \<in> dirs v"

definition vfs_exists :: "vfs \<Rightarrow> bytes \<Rightarrow> bool" where
  "vfs_exists v p = (case resolve p of Ok c \<Rightarrow> is_present v c | Err _ \<Rightarrow> False)"

definition vfs_read :: "vfs \<Rightarrow> bytes \<Rightarrow> bytes result" where
  "vfs_read v p = bind_res (resolve p) (\<lambda>c. ok_or (files v c) (Io ''os''))"

definition vfs_metadata :: "vfs \<Rightarrow> bytes \<Rightarrow> file_type result" where
  "vfs_metadata v p =
     bind_res (resolve p) (\<lambda>c.
       if c \<in> dirs v then Ok Dir else if files v c \<noteq> None then Ok File else Err (Io ''os''))"

text \<open>\<open>fs::create_dir_all\<close>: every prefix becomes a directory, unless one of them is a file.\<close>

definition prefixes_of :: "path \<Rightarrow> path list" where
  "prefixes_of c = map (\<lambda>k. take k c) [0..<length c + 1]"

definition make_dirs :: "vfs \<Rightarrow> path \<Rightarrow> (unit result \<times> vfs)" where
  "make_dirs v c =
     (if list_ex (\<lambda>q. files v q \<noteq> None) (prefixes_of c) then (Err (Io ''os''), v)
      else (Ok (), v\<lparr>dirs := dirs v \<union> set (prefixes_of c)\<rparr>))"

definition vfs_create_dir_all :: "vfs \<Rightarrow> bytes \<Rightarrow> unit result \<times> vfs" where
  "vfs_create_dir_all v p = (case resolve p of Err e \<Rightarrow> (Err e, v) | Ok c \<Rightarrow> make_dirs v c)"

definition vfs_write :: "vfs \<Rightarrow> bytes \<Rightarrow> bytes \<Rightarrow> unit result \<times> vfs" where
  "vfs_write v p data =
     (case resolve p of
        Err e \<Rightarrow> (Err e, v)
      | Ok c \<Rightarrow>
          (case make_dirs v (butlast c) of
             (Err e, v1) \<Rightarrow> (Err e, v1)
           | (Ok _, v1) \<Rightarrow>
               if c \<in> dirs v1 then (Err (Io ''os''), v1)
               else (Ok (), v1\<lparr>files := (files v1)(c \<mapsto> data)\<rparr>)))"

definition vfs_create_new :: "vfs \<Rightarrow> bytes \<Rightarrow> bytes \<Rightarrow> unit result \<times> vfs" where
  "vfs_create_new v p data =
     (case resolve p of
        Err e \<Rightarrow> (Err e, v)
      | Ok c \<Rightarrow>
          (case make_dirs v (butlast c) of
             (Err e, v1) \<Rightarrow> (Err e, v1)
           | (Ok _, v1) \<Rightarrow>
               if is_present v1 c then (Err (Io ''os''), v1)
               else (Ok (), v1\<lparr>files := (files v1)(c \<mapsto> data)\<rparr>)))"

definition vfs_remove_file :: "vfs \<Rightarrow> bytes \<Rightarrow> unit result \<times> vfs" where
  "vfs_remove_file v p =
     (case resolve p of
        Err e \<Rightarrow> (Err e, v)
      | Ok c \<Rightarrow> if files v c = None then (Err (Io ''os''), v)
               else (Ok (), v\<lparr>files := (files v)(c := None)\<rparr>))"

text \<open>\<open>fs::rename\<close> of a file: the sources move nothing else (the lock file of a ref).\<close>

definition vfs_rename :: "vfs \<Rightarrow> bytes \<Rightarrow> bytes \<Rightarrow> unit result \<times> vfs" where
  "vfs_rename v p q =
     (case resolve p of
        Err e \<Rightarrow> (Err e, v)
      | Ok c \<Rightarrow>
          (case resolve q of
             Err e \<Rightarrow> (Err e, v)
           | Ok d \<Rightarrow>
               (case files v c of
                  None \<Rightarrow> (Err (Io ''os''), v)
                | Some data \<Rightarrow>
                    if d \<in> dirs v \<or> butlast d \<notin> dirs v then (Err (Io ''os''), v)
                    else (Ok (), v\<lparr>files := ((files v)(c := None))(d \<mapsto> data)\<rparr>))))"

text \<open>
  Listing a directory. The operating system yields the entries in any order: the argument \<open>ord\<close>
  chooses it.
\<close>

record dir_entry =
  de_name :: bytes
  de_type :: file_type

type_synonym dir_order = "bytes set \<Rightarrow> bytes list"

definition vfs_read_dir :: "dir_order \<Rightarrow> vfs \<Rightarrow> bytes \<Rightarrow> dir_entry list result" where
  "vfs_read_dir ord v p =
     bind_res (resolve p) (\<lambda>c.
       if c \<notin> dirs v then Err (Io ''os'')
       else Ok (map (\<lambda>n. \<lparr>de_name = from_utf8_lossy n,
                          de_type = (if c @ [n] \<in> dirs v then Dir else File)\<rparr>)
                  (ord {n. is_present v (c @ [n])})))"

text \<open>A tree: directories are closed under parents, a file lies in a directory and is none.\<close>

definition wf_vfs :: "vfs \<Rightarrow> bool" where
  "wf_vfs v \<longleftrightarrow>
     [] \<in> dirs v \<and> (\<forall>c\<in>dirs v. butlast c \<in> dirs v)
     \<and> (\<forall>c\<in>dom (files v). c \<noteq> [] \<and> butlast c \<in> dirs v \<and> c \<notin> dirs v)"

section \<open>Lemmas\<close>

lemma in_prefixes: "q \<in> set (prefixes_of c) \<longleftrightarrow> (\<exists>k\<le>length c. q = take k c)"
  by (auto simp: prefixes_of_def less_Suc_eq_le simp del: upt_Suc)

lemma self_prefix [simp]: "c \<in> set (prefixes_of c)"
  by (auto simp: in_prefixes intro: exI [of _ "length c"])

lemma butlast_prefix: "q \<in> set (prefixes_of c) \<Longrightarrow> butlast q \<in> set (prefixes_of c)"
  by (metis butlast_take diff_le_self in_prefixes le_trans)

lemma make_dirs_Ok:
  "make_dirs v c = (Ok u, v') \<longleftrightarrow>
     v' = v\<lparr>dirs := dirs v \<union> set (prefixes_of c)\<rparr> \<and> (\<forall>q\<in>set (prefixes_of c). files v q = None)"
  by (auto simp: make_dirs_def list_ex_iff)

lemma make_dirs_Err: "make_dirs v c = (Err e, v') \<Longrightarrow> v' = v"
  by (auto simp: make_dirs_def split: if_splits)

lemma wf_make_dirs:
  assumes "wf_vfs v" and "make_dirs v c = (r, v')"
  shows "wf_vfs v'"
proof (cases r)
  case (Ok u)
  then have "make_dirs v c = (Ok u, v')" using assms(2) by simp
  then have v': "v' = v\<lparr>dirs := dirs v \<union> set (prefixes_of c)\<rparr>" and f: "\<forall>q\<in>set (prefixes_of c). files v q = None"
    unfolding make_dirs_Ok by blast+
  show ?thesis
    using assms(1) f butlast_prefix [of _ c] by (auto simp: v' wf_vfs_def)
qed (use assms make_dirs_Err in auto)

lemma vfs_write_cases:
  assumes "resolve p = Ok c" and "\<forall>q\<in>set (prefixes_of (butlast c)). files v q = None"
    and "c \<notin> dirs v" and "c \<noteq> []"
  shows "vfs_write v p data =
    (Ok (), v\<lparr>files := (files v)(c \<mapsto> data), dirs := dirs v \<union> set (prefixes_of (butlast c))\<rparr>)"
proof -
  have "length q < length c" if "q \<in> set (prefixes_of (butlast c))" for q
  proof -
    have "length q \<le> length (butlast c)" using that by (auto simp: in_prefixes)
    also have "length (butlast c) < length c" using assms(4) by simp
    finally show ?thesis .
  qed
  then have "c \<notin> set (prefixes_of (butlast c))" by blast
  moreover have "make_dirs v (butlast c) = (Ok (), v\<lparr>dirs := dirs v \<union> set (prefixes_of (butlast c))\<rparr>)"
    using assms(2) by (simp add: make_dirs_Ok)
  ultimately show ?thesis using assms(1,3) by (simp add: vfs_write_def)
qed

lemma wf_vfs_write:
  assumes "wf_vfs v"
  shows "wf_vfs (snd (vfs_write v p data))"
proof (cases "resolve p")
  case (Ok c)
  obtain r v1 where m: "make_dirs v (butlast c) = (r, v1)" by force
  have wf: "wf_vfs v1" by (rule wf_make_dirs [OF assms m])
  show ?thesis
  proof (cases r)
    case r: (Ok u)
    then have "butlast c \<in> dirs v1" using m make_dirs_Ok [of v "butlast c" u v1] by simp
    with wf have "c \<notin> dirs v1 \<Longrightarrow> wf_vfs (v1\<lparr>files := (files v1)(c \<mapsto> data)\<rparr>)"
      by (auto simp: wf_vfs_def)
    with Ok m r wf show ?thesis by (simp add: vfs_write_def)
  qed (use Ok m wf in \<open>simp add: vfs_write_def\<close>)
qed (simp add: vfs_write_def assms)

lemma resolve_plain:
  "(\<And>x. x \<in> set c \<Longrightarrow> x \<noteq> [] \<and> x \<noteq> [46] \<and> x \<noteq> [46, 46] \<and> 47 \<notin> set x) \<Longrightarrow> c \<noteq> [] \<Longrightarrow>
     resolve (join_with 47 c) = Ok c"
proof -
  assume c: "\<And>x. x \<in> set c \<Longrightarrow> x \<noteq> [] \<and> x \<noteq> [46] \<and> x \<noteq> [46, 46] \<and> 47 \<notin> set x" and "c \<noteq> []"
  then have "split_on 47 (join_with 47 c) = c" by (intro split_join) auto
  moreover have "filter (\<lambda>x. x \<noteq> [] \<and> x \<noteq> [46]) c = c" using c by (auto simp: filter_id_conv)
  moreover have "hd (join_with 47 c) = hd (hd c)"
  proof -
    have "c = [x] \<or> (\<exists>y ys. c = x # y # ys)" if "c = x # xs" for x xs
      using that by (cases xs) auto
    then show ?thesis using c [of "hd c"] \<open>c \<noteq> []\<close> by (cases c) auto
  qed
  moreover have "hd (hd c) \<noteq> 47"
    using c [of "hd c"] \<open>c \<noteq> []\<close> by (metis hd_in_set)
  ultimately show ?thesis using c by (auto simp: resolve_def components_def)
qed

section \<open>Properties\<close>

text \<open>
  Paths are confined to the root: a path that resolves names a place below the root (no
  component is empty, \<open>.\<close>, \<open>..\<close> or contains a slash), an absolute path or one with a \<open>..\<close>
  component is refused by every operation, which then reads nothing, finds nothing and
  leaves the tree as it was.
\<close>

theorem vfs_confined:
  "(\<forall>c. resolve p = Ok c \<longrightarrow> (\<forall>x\<in>set c. x \<noteq> [] \<and> x \<noteq> [46] \<and> x \<noteq> [46, 46] \<and> 47 \<notin> set x))
   \<and> (p \<noteq> [] \<and> hd p = 47 \<or> [46, 46] \<in> set (split_on 47 p) \<longrightarrow>
        is_err (resolve p) \<and> is_err (vfs_read v p) \<and> \<not> vfs_exists v p
        \<and> is_err (fst (vfs_write v p data)) \<and> snd (vfs_write v p data) = v
        \<and> snd (vfs_create_new v p data) = v \<and> snd (vfs_remove_file v p) = v
        \<and> snd (vfs_create_dir_all v p) = v)"
proof (intro conjI allI impI ballI)
  fix c x
  assume "resolve p = Ok c" "x \<in> set c"
  then have "x \<in> set (split_on 47 p)" "x \<noteq> []" "x \<noteq> [46]" "x \<noteq> [46, 46]"
    by (auto simp: resolve_def components_def split: if_splits)
  with split_on_no_sep [of x 47 p] show "x \<noteq> []" "x \<noteq> [46]" "x \<noteq> [46, 46]" "47 \<notin> set x" by simp_all
next
  assume "p \<noteq> [] \<and> hd p = 47 \<or> [46, 46] \<in> set (split_on 47 p)"
  then have "p \<noteq> [] \<and> hd p = 47 \<or> [46, 46] \<in> set (components p)" by (auto simp: components_def)
  then have "is_err (resolve p)" by (auto simp: resolve_def)
  then obtain e where "resolve p = Err e" by (cases "resolve p") auto
  then show "is_err (resolve p)" "is_err (vfs_read v p)" "\<not> vfs_exists v p"
      "is_err (fst (vfs_write v p data))" "snd (vfs_write v p data) = v"
      "snd (vfs_create_new v p data) = v" "snd (vfs_remove_file v p) = v"
      "snd (vfs_create_dir_all v p) = v"
    by (simp_all add: vfs_read_def vfs_exists_def vfs_write_def vfs_create_new_def
        vfs_remove_file_def vfs_create_dir_all_def)
qed

theorem vfs_confined_witness:
  "is_err (vfs_read \<lparr>files = Map.empty, dirs = {[]}\<rparr> (bstr ''a/../../etc''))"
proof -
  have "[46, 46] \<in> set (split_on 47 (bstr ''a/../../etc''))" by simp
  then show ?thesis using vfs_confined by blast
qed

end
