(* ===== verification/Odb.thy ===== *)
theory Odb
  imports Objects Compress Vfs Btree_Map
begin

text \<open>
  Object databases: the trait \<open>ObjectDatabase\<close> of src/src/odb/mod.rs and two of its
  implementations, \<open>MemoryOdb\<close> (src/src/odb/memory.rs) and \<open>LooseOdb\<close>
  (src/src/odb/loose.rs). The interior mutability of the stores is explicit: \<open>write\<close> returns
  its result and the new store. The default methods \<open>read_object\<close> and \<open>read_typed\<close> take the
  store's \<open>read\<close> as a function.

  The locale \<open>object_database\<close> is the contract of the trait. What the clients need
  (an object that was written reads back, typed, whatever is written later) is proved once
  from the contract, and both stores interpret it.
\<close>

type_synonym reader = "object_id \<Rightarrow> (object_type \<times> bytes) result"

definition read_object :: "hash_algo \<Rightarrow> reader \<Rightarrow> object_id \<Rightarrow> object result" where
  "read_object a rd i = bind_res (rd i) (\<lambda>(ty, pl). object_parse a ty pl)"

definition read_typed :: "reader \<Rightarrow> object_id \<Rightarrow> object_type \<Rightarrow> bytes result" where
  "read_typed rd i expected =
     bind_res (rd i) (\<lambda>(ty, pl).
       if ty \<noteq> expected then Err (UnexpectedType expected ty) else Ok pl)"

section \<open>The in-memory store\<close>

record memory_odb =
  mem_algo :: hash_algo
  mem_objects :: "(object_id, object_type \<times> bytes) btree_map"

definition memory_new :: "hash_algo \<Rightarrow> memory_odb" where
  "memory_new a = \<lparr>mem_algo = a, mem_objects = []\<rparr>"

definition memory_len :: "memory_odb \<Rightarrow> nat" where
  "memory_len s = length (mem_objects s)"

definition memory_is_empty :: "memory_odb \<Rightarrow> bool" where
  "memory_is_empty s \<longleftrightarrow> mem_objects s = []"

definition memory_contains :: "memory_odb \<Rightarrow> object_id \<Rightarrow> bool" where
  "memory_contains s i \<longleftrightarrow> bt_get (mem_objects s) i \<noteq> None"

definition memory_read :: "memory_odb \<Rightarrow> reader" where
  "memory_read s i = ok_or (bt_get (mem_objects s) i) (NotFound (HintObject (to_hex i)))"

definition memory_write :: "digest \<Rightarrow> memory_odb \<Rightarrow> object_type \<Rightarrow> bytes \<Rightarrow> object_id result \<times> memory_odb" where
  "memory_write dg s ty pl =
     (let i = hash_object dg (mem_algo s) ty pl
      in (Ok i,
          case bt_get (mem_objects s) i of
            Some _ \<Rightarrow> s
          | None \<Rightarrow> s\<lparr>mem_objects := bt_insert i (ty, pl) (mem_objects s)\<rparr>))"

section \<open>The loose store\<close>

record loose_odb =
  loose_vfs :: vfs
  loose_algo :: hash_algo
  max_object_size :: nat

definition loose_new :: "vfs \<Rightarrow> hash_algo \<Rightarrow> loose_odb" where
  "loose_new v a = \<lparr>loose_vfs = v, loose_algo = a, max_object_size = 2 ^ 30\<rparr>"

definition with_max_object_size :: "nat \<Rightarrow> loose_odb \<Rightarrow> loose_odb" where
  "with_max_object_size m s = s\<lparr>max_object_size := m\<rparr>"

definition object_path :: "object_id \<Rightarrow> bytes" where
  "object_path i = (let hex = to_hex i in take 2 hex @ 47 # drop 2 hex)"

definition loose_contains :: "loose_odb \<Rightarrow> object_id \<Rightarrow> bool" where
  "loose_contains s i = vfs_exists (loose_vfs s) (object_path i)"

definition loose_read :: "'d zlib \<Rightarrow> digest \<Rightarrow> loose_odb \<Rightarrow> reader" where
  "loose_read z dg s i =
     (if \<not> vfs_exists (loose_vfs s) (object_path i) then Err (NotFound (HintObject (to_hex i)))
      else
        bind_res (vfs_read (loose_vfs s) (object_path i)) (\<lambda>compressed.
        bind_res (inflate_capped z compressed (max_object_size s)) (\<lambda>raw.
        bind_res (parse_loose raw) (\<lambda>(ty, pl).
          if hash_object dg (loose_algo s) ty pl \<noteq> i
          then Err (InvalidOid ''loose object {id} hashes to {computed}'')
          else Ok (ty, pl)))))"

definition loose_write :: "'d zlib \<Rightarrow> digest \<Rightarrow> loose_odb \<Rightarrow> object_type \<Rightarrow> bytes
    \<Rightarrow> object_id result \<times> loose_odb" where
  "loose_write z dg s ty pl =
     (let i = hash_object dg (loose_algo s) ty pl; p = object_path i
      in if vfs_exists (loose_vfs s) p then (Ok i, s)
         else
           (case deflate z (serialize_loose ty pl) of
              Err e \<Rightarrow> (Err e, s)
            | Ok compressed \<Rightarrow>
                (case vfs_write (loose_vfs s) p compressed of
                   (Err e, v) \<Rightarrow> (Err e, s\<lparr>loose_vfs := v\<rparr>)
                 | (Ok _, v) \<Rightarrow> (Ok i, s\<lparr>loose_vfs := v\<rparr>))))"

section \<open>The contract\<close>

text \<open>
  \<open>storable s ty pl\<close> says when the store can take the object (the medium has room for the
  path and the object is within the store's limit). Ids are content addresses, so the laws
  only speak of an id that is not already taken by other content.
\<close>

locale object_database =
  fixes dg :: digest and algo :: "'s \<Rightarrow> hash_algo" and inv :: "'s \<Rightarrow> bool"
    and storable :: "'s \<Rightarrow> object_type \<Rightarrow> bytes \<Rightarrow> bool"
    and contains :: "'s \<Rightarrow> object_id \<Rightarrow> bool" and fetch :: "'s \<Rightarrow> reader"
    and put :: "'s \<Rightarrow> object_type \<Rightarrow> bytes \<Rightarrow> object_id result \<times> 's"
  assumes digest: "inv s \<Longrightarrow> digest_ok dg"
    and put_id: "inv s \<Longrightarrow> storable s ty pl \<Longrightarrow> fst (put s ty pl) = Ok (hash_object dg (algo s) ty pl)"
    and put_inv: "inv s \<Longrightarrow> inv (snd (put s ty pl))"
    and put_present: "inv s \<Longrightarrow> contains s (hash_object dg (algo s) ty pl) \<Longrightarrow> snd (put s ty pl) = s"
    and put_new: "inv s \<Longrightarrow> storable s ty pl \<Longrightarrow> \<not> contains s (hash_object dg (algo s) ty pl) \<Longrightarrow>
      fetch (snd (put s ty pl)) (hash_object dg (algo s) ty pl) = Ok (ty, pl)"
    and put_other: "inv s \<Longrightarrow> wf_oid i \<Longrightarrow> i \<noteq> hash_object dg (algo s) ty pl \<Longrightarrow>
      fetch (snd (put s ty pl)) i = fetch s i"
    and fetch_missing: "inv s \<Longrightarrow> \<not> contains s i \<Longrightarrow> fetch s i = Err (NotFound (HintObject (to_hex i)))"
    and fetch_address: "inv s \<Longrightarrow> fetch s i = Ok (ty, pl) \<Longrightarrow> i = hash_object dg (algo s) ty pl"
begin

lemma put_fetch:
  assumes "inv s" and "storable s ty pl"
    and "contains s (hash_object dg (algo s) ty pl) \<Longrightarrow> fetch s (hash_object dg (algo s) ty pl) = Ok (ty, pl)"
  shows "fst (put s ty pl) = Ok (hash_object dg (algo s) ty pl)
    \<and> fetch (snd (put s ty pl)) (hash_object dg (algo s) ty pl) = Ok (ty, pl)"
proof (cases "contains s (hash_object dg (algo s) ty pl)")
  case True
  with assms show ?thesis by (simp add: put_id put_present)
next
  case False
  with assms show ?thesis by (simp add: put_id put_new)
qed

lemma put_keeps:
  assumes "inv s" and "fetch s i = Ok (ty, pl)"
  shows "fetch (snd (put s ty' pl')) i = Ok (ty, pl)"
proof (cases "i = hash_object dg (algo s) ty' pl'")
  case True
  then have "contains s (hash_object dg (algo s) ty' pl')"
    using assms fetch_missing by fastforce
  with assms show ?thesis by (simp add: put_present)
next
  case False
  have "wf_oid i"
    using fetch_address [OF assms] wf_hash_object [OF digest [OF assms(1)]] by simp
  with False assms show ?thesis by (simp add: put_other)
qed

lemma puts_keep:
  "inv s \<Longrightarrow> fetch s i = Ok (ty, pl) \<Longrightarrow>
     fetch (foldl (\<lambda>s (ty, pl). snd (put s ty pl)) s obs) i = Ok (ty, pl)"
  by (induction obs arbitrary: s) (auto simp: put_inv put_keeps)

lemma put_then_puts:
  assumes "inv s" and "storable s ty pl"
    and "contains s (hash_object dg (algo s) ty pl) \<Longrightarrow> fetch s (hash_object dg (algo s) ty pl) = Ok (ty, pl)"
  shows "fst (put s ty pl) = Ok (hash_object dg (algo s) ty pl)
    \<and> fetch (foldl (\<lambda>s (ty, pl). snd (put s ty pl)) s ((ty, pl) # obs)) (hash_object dg (algo s) ty pl) = Ok (ty, pl)"
  using put_fetch [OF assms] puts_keep put_inv [OF assms(1)] by simp

end

section \<open>The stores provide it\<close>

definition memory_inv :: "digest \<Rightarrow> memory_odb \<Rightarrow> bool" where
  "memory_inv dg s \<longleftrightarrow>
     digest_ok dg \<and> bt_invar (mem_objects s)
     \<and> (\<forall>i ty pl. bt_get (mem_objects s) i = Some (ty, pl) \<longrightarrow> i = hash_object dg (mem_algo s) ty pl)"

definition loose_inv :: "'d zlib \<Rightarrow> digest \<Rightarrow> loose_odb \<Rightarrow> bool" where
  "loose_inv z dg s \<longleftrightarrow> digest_ok dg \<and> zlib_ok z \<and> wf_vfs (loose_vfs s)"

definition object_comps :: "object_id \<Rightarrow> path" where
  "object_comps i = [take 2 (to_hex i), drop 2 (to_hex i)]"

text \<open>No file is in the way of the fan-out directory, no directory in the way of the file.\<close>

definition loose_storable :: "digest \<Rightarrow> loose_odb \<Rightarrow> object_type \<Rightarrow> bytes \<Rightarrow> bool" where
  "loose_storable dg s ty pl \<longleftrightarrow>
     (let c = object_comps (hash_object dg (loose_algo s) ty pl)
      in files (loose_vfs s) [hd c] = None \<and> c \<notin> dirs (loose_vfs s))
     \<and> length (serialize_loose ty pl) \<le> max_object_size s \<and> length pl < 2 ^ 64"

interpretation mem: object_database dg mem_algo "memory_inv dg" "\<lambda>s ty pl. True"
    memory_contains memory_read "memory_write dg" for dg
proof
  fix s ty pl i
  assume inv: "memory_inv dg s"
  then have bt: "bt_invar (mem_objects s)" by (simp add: memory_inv_def)
  show "memory_inv dg (snd (memory_write dg s ty pl))"
    using inv by (auto simp: memory_write_def memory_inv_def Let_def bt_invar_insert bt_get_insert [OF bt]
        split: option.splits if_splits)
  show "wf_oid i \<Longrightarrow> i \<noteq> hash_object dg (mem_algo s) ty pl \<Longrightarrow>
      memory_read (snd (memory_write dg s ty pl)) i = memory_read s i"
    by (auto simp: memory_read_def memory_write_def Let_def bt_get_insert [OF bt] split: option.splits)
  show "\<not> memory_contains s (hash_object dg (mem_algo s) ty pl) \<Longrightarrow>
      memory_read (snd (memory_write dg s ty pl)) (hash_object dg (mem_algo s) ty pl) = Ok (ty, pl)"
    by (cases "bt_get (mem_objects s) (hash_object dg (mem_algo s) ty pl)")
      (simp_all add: memory_contains_def memory_read_def memory_write_def Let_def bt_get_insert [OF bt])
  show "memory_read s i = Ok (ty, pl) \<Longrightarrow> i = hash_object dg (mem_algo s) ty pl"
    using inv by (simp add: memory_read_def memory_inv_def ok_or_eq_Ok)
  show "\<not> memory_contains s i \<Longrightarrow> memory_read s i = Err (NotFound (HintObject (to_hex i)))"
    by (cases "bt_get (mem_objects s) i") (auto simp: memory_contains_def memory_read_def)
qed (auto simp: memory_inv_def memory_write_def memory_contains_def memory_read_def Let_def)

subsection \<open>The loose store\<close>

lemma hex_not_sep: "c \<in> set (to_hex i) \<Longrightarrow> c \<noteq> 46 \<and> c \<noteq> 47"
proof -
  have d: "hex_digit n \<noteq> 46 \<and> hex_digit n \<noteq> 47" if "unat n < 16" for n
    using less16_cases [OF that] by (auto simp: hex_digit_def)
  have "c \<in> set (hex_lower bs) \<Longrightarrow> c \<noteq> 46 \<and> c \<noteq> 47" for bs
  proof (induction bs)
    case (Cons x xs)
    then show ?case using d [OF nibble_bounds(1), of x] d [OF nibble_bounds(2), of x] by (auto simp: hex_lower_Cons)
  qed simp
  then show "c \<in> set (to_hex i) \<Longrightarrow> c \<noteq> 46 \<and> c \<noteq> 47" by (simp add: to_hex_def)
qed

lemma length_hex_ge: "wf_oid i \<Longrightarrow> 40 \<le> length (to_hex i)"
  by (cases "oid_algo i") (simp_all add: length_to_hex hex_len_def)

lemma resolve_object_path: "wf_oid i \<Longrightarrow> resolve (object_path i) = Ok (object_comps i)"
proof -
  assume "wf_oid i"
  then have l: "40 \<le> length (to_hex i)" by (rule length_hex_ge)
  have "x \<noteq> [] \<and> x \<noteq> [46] \<and> x \<noteq> [46, 46] \<and> 47 \<notin> set x" if "x \<in> set (object_comps i)" for x
  proof -
    have "x \<noteq> []" using that l by (auto simp: object_comps_def)
    moreover have "c \<noteq> 46 \<and> c \<noteq> 47" if "c \<in> set x" for c
      using that \<open>x \<in> _\<close> hex_not_sep [of c i] by (auto simp: object_comps_def dest: in_set_takeD in_set_dropD)
    ultimately show ?thesis by force
  qed
  then have "resolve (join_with 47 (object_comps i)) = Ok (object_comps i)"
    by (intro resolve_plain) (auto simp: object_comps_def)
  then show ?thesis by (simp add: object_comps_def object_path_def Let_def)
qed

lemma object_comps_inj:
  assumes "wf_oid i" and "wf_oid j" and "object_comps i = object_comps j"
  shows "i = j"
proof -
  have "to_hex i = to_hex j"
    using assms(3) by (metis append_take_drop_id list.inject object_comps_def)
  then have "as_bytes i = as_bytes j"
    unfolding to_hex_def by (metis decode_hex_lower result.inject(1))
  moreover from this have "oid_algo i = oid_algo j"
    using assms(1,2) by (metis raw_len_inj wf_oid_def)
  ultimately show ?thesis by (simp add: object_id.expand)
qed

lemma prefixes_one: "set (prefixes_of [x]) = {[], [x]}"
  by (auto simp: prefixes_of_def)

lemma loose_write_new:
  assumes "loose_inv z dg s" and "loose_storable dg s ty pl" and "i = hash_object dg (loose_algo s) ty pl"
    and "\<not> loose_contains s i"
  obtains c where "deflate z (serialize_loose ty pl) = Ok c"
    "inflate_capped z c (max_object_size s) = Ok (serialize_loose ty pl)"
    "loose_write z dg s ty pl = (Ok i, s\<lparr>loose_vfs := (loose_vfs s)
       \<lparr>files := (files (loose_vfs s))(object_comps i \<mapsto> c),
        dirs := dirs (loose_vfs s) \<union> {[], [hd (object_comps i)]}\<rparr>\<rparr>)"
proof -
  have ok: "digest_ok dg" "zlib_ok z" "wf_vfs (loose_vfs s)" using assms(1) by (auto simp: loose_inv_def)
  have wf: "wf_oid i" using wf_hash_object [OF ok(1)] assms(3) by simp
  obtain c where c: "deflate z (serialize_loose ty pl) = Ok c"
      "\<And>rest mx. length (serialize_loose ty pl) \<le> mx \<Longrightarrow> inflate_capped z (c @ rest) mx = Ok (serialize_loose ty pl)"
    using zlib_okD [OF ok(2)] by metis
  have st: "files (loose_vfs s) [hd (object_comps i)] = None" "object_comps i \<notin> dirs (loose_vfs s)"
      "length (serialize_loose ty pl) \<le> max_object_size s"
    using assms(2,3) by (auto simp: loose_storable_def Let_def)
  have b: "butlast (object_comps i) = [hd (object_comps i)]" by (simp add: object_comps_def)
  have "files (loose_vfs s) [] = None" using ok(3) by (auto simp: wf_vfs_def)
  then have "vfs_write (loose_vfs s) (object_path i) c = (Ok (), (loose_vfs s)
      \<lparr>files := (files (loose_vfs s))(object_comps i \<mapsto> c),
       dirs := dirs (loose_vfs s) \<union> {[], [hd (object_comps i)]}\<rparr>)"
    using vfs_write_cases [OF resolve_object_path [OF wf], of "loose_vfs s" c] st
    unfolding b prefixes_one by (auto simp: object_comps_def)
  then have "loose_write z dg s ty pl = (Ok i, s\<lparr>loose_vfs := (loose_vfs s)
       \<lparr>files := (files (loose_vfs s))(object_comps i \<mapsto> c),
        dirs := dirs (loose_vfs s) \<union> {[], [hd (object_comps i)]}\<rparr>\<rparr>)"
    using assms(3,4) c(1) by (simp add: loose_write_def loose_contains_def Let_def)
  then show ?thesis using that [of c] c st(3) c(2) [of _ "[]"] by simp
qed

lemma vfs_write_frame:
  assumes "resolve p = Ok c" and "q \<noteq> c" and "q \<notin> set (prefixes_of (butlast c))"
  shows "files (snd (vfs_write v p d)) q = files v q \<and> (q \<in> dirs (snd (vfs_write v p d)) \<longleftrightarrow> q \<in> dirs v)"
  using assms by (auto simp: vfs_write_def make_dirs_def)

lemma loose_vfs_write:
  "snd (loose_write z dg s ty pl) = s \<or>
     (\<exists>c. snd (loose_write z dg s ty pl) = s\<lparr>loose_vfs := snd (vfs_write (loose_vfs s)
        (object_path (hash_object dg (loose_algo s) ty pl)) c)\<rparr>)"
proof (cases "vfs_exists (loose_vfs s) (object_path (hash_object dg (loose_algo s) ty pl))")
  case False
  show ?thesis
  proof (cases "deflate z (serialize_loose ty pl)")
    case (Ok c)
    obtain r v where "vfs_write (loose_vfs s) (object_path (hash_object dg (loose_algo s) ty pl)) c = (r, v)"
      by force
    with False Ok have "snd (loose_write z dg s ty pl) = s\<lparr>loose_vfs := snd (vfs_write (loose_vfs s)
        (object_path (hash_object dg (loose_algo s) ty pl)) c)\<rparr>"
      by (cases r) (simp_all add: loose_write_def Let_def)
    then show ?thesis by blast
  qed (use False in \<open>simp add: loose_write_def Let_def\<close>)
qed (simp add: loose_write_def Let_def)

interpretation loose: object_database dg loose_algo "loose_inv z dg" "loose_storable dg"
    loose_contains "loose_read z dg" "loose_write z dg" for z dg
proof
  fix s ty pl i
  assume inv: "loose_inv z dg s"
  let ?i = "hash_object dg (loose_algo s) ty pl"
  have ok: "digest_ok dg" "zlib_ok z" "wf_vfs (loose_vfs s)" using inv by (auto simp: loose_inv_def)
  have wf: "wf_oid ?i" using wf_hash_object [OF ok(1)] by simp
  show "digest_ok dg" by fact
  show "loose_inv z dg (snd (loose_write z dg s ty pl))"
    using loose_vfs_write [of z dg s ty pl] wf_vfs_write [OF ok(3)] inv by (auto simp: loose_inv_def)
  show present: "loose_contains s ?i \<Longrightarrow> snd (loose_write z dg s ty pl) = s"
    by (simp add: loose_write_def loose_contains_def Let_def)
  show "fst (loose_write z dg s ty pl) = Ok ?i" if st: "loose_storable dg s ty pl"
  proof (cases "loose_contains s ?i")
    case True
    then show ?thesis by (simp add: loose_write_def loose_contains_def Let_def)
  next
    case False
    from loose_write_new [OF inv st refl False] show ?thesis by (metis fst_conv)
  qed
  show "loose_read z dg (snd (loose_write z dg s ty pl)) ?i = Ok (ty, pl)"
    if st: "loose_storable dg s ty pl" and new: "\<not> loose_contains s ?i"
  proof -
    obtain c where c: "inflate_capped z c (max_object_size s) = Ok (serialize_loose ty pl)"
      "loose_write z dg s ty pl = (Ok ?i, s\<lparr>loose_vfs := (loose_vfs s)
       \<lparr>files := (files (loose_vfs s))(object_comps ?i \<mapsto> c),
        dirs := dirs (loose_vfs s) \<union> {[], [hd (object_comps ?i)]}\<rparr>\<rparr>)"
      using loose_write_new [OF inv st refl new] by metis
    have "length pl < 2 ^ 64" using st by (simp add: loose_storable_def)
    with c show ?thesis
      by (simp add: loose_read_def vfs_exists_def vfs_read_def resolve_object_path [OF wf] is_present_def
          parse_serialize_loose)
  qed
  show "loose_read z dg (snd (loose_write z dg s ty pl)) i = loose_read z dg s i"
    if i: "wf_oid i" "i \<noteq> ?i"
  proof -
    have "object_comps i \<noteq> object_comps ?i" using object_comps_inj [OF i(1) wf] i(2) by blast
    moreover have "object_comps i \<notin> set (prefixes_of (butlast (object_comps ?i)))"
      by (simp add: object_comps_def prefixes_one)
    ultimately have "files (snd (vfs_write (loose_vfs s) (object_path ?i) c)) (object_comps i)
        = files (loose_vfs s) (object_comps i)
      \<and> (object_comps i \<in> dirs (snd (vfs_write (loose_vfs s) (object_path ?i) c))
         \<longleftrightarrow> object_comps i \<in> dirs (loose_vfs s))" for c
      using vfs_write_frame [OF resolve_object_path [OF wf]] by blast
    then show ?thesis
      using loose_vfs_write [of z dg s ty pl]
      by (auto simp: loose_read_def vfs_exists_def vfs_read_def resolve_object_path [OF i(1)] is_present_def)
  qed
  show "\<not> loose_contains s i \<Longrightarrow> loose_read z dg s i = Err (NotFound (HintObject (to_hex i)))"
    by (simp add: loose_contains_def loose_read_def)
  show "loose_read z dg s i = Ok (ty, pl) \<Longrightarrow> i = ?i"
    by (auto simp: loose_read_def bind_res_eq_Ok split: if_splits)
qed

text \<open>
  An object is not written when its path is taken, whatever the file there holds: a damaged file
  stays, the write succeeds, and the object cannot be read.
\<close>

lemma loose_write_keeps_damage:
  assumes "i = hash_object dg (loose_algo s) ty pl" and "loose_contains s i" and "is_err (loose_read z dg s i)"
  shows "loose_write z dg s ty pl = (Ok i, s) \<and> is_err (loose_read z dg (snd (loose_write z dg s ty pl)) i)"
  using assms by (simp add: loose_write_def loose_contains_def Let_def)

section \<open>Properties\<close>

text \<open>
  The in-memory store keeps what is written: writing \<open>(ty, pl)\<close> returns the id that
  \<open>hash_object\<close> computes, and reading that id afterwards, whatever else is written in
  between, returns exactly \<open>(ty, pl)\<close>, provided the id was not taken by other content.
\<close>

theorem memory_write_read:
  assumes "memory_inv dg s"
    and "memory_contains s (hash_object dg (mem_algo s) ty pl) \<Longrightarrow>
      memory_read s (hash_object dg (mem_algo s) ty pl) = Ok (ty, pl)"
  shows "fst (memory_write dg s ty pl) = Ok (hash_object dg (mem_algo s) ty pl)
    \<and> memory_read (foldl (\<lambda>s (ty, pl). snd (memory_write dg s ty pl)) s ((ty, pl) # obs))
        (hash_object dg (mem_algo s) ty pl) = Ok (ty, pl)"
  by (rule mem.put_then_puts [OF assms(1) TrueI]) (rule assms(2))

theorem memory_write_read_witness:
  "memory_read (snd (memory_write (\<lambda>a d. replicate (raw_len a) 7) (memory_new Sha1) Blob [104, 105]))
     (ObjectId Sha1 (replicate 20 7)) = Ok (Blob, [104, 105])"
proof -
  let ?dg = "\<lambda>a d. replicate (raw_len a) 7"
  have "memory_inv ?dg (memory_new Sha1)"
    by (simp add: memory_inv_def memory_new_def digest_ok_def bt_invar_def bt_get_def)
  moreover have "\<not> memory_contains (memory_new Sha1) (hash_object ?dg Sha1 Blob [104, 105])"
    by (simp add: memory_contains_def memory_new_def bt_get_def)
  ultimately show ?thesis
    using memory_write_read [of ?dg "memory_new Sha1" Blob "[104, 105]" "[]"]
    by (simp add: hash_object_def memory_new_def)
qed

text \<open>
  C31. The loose store on disk: with a codec that meets the zlib contract, an object within
  the store's size limit, no file in the way of its fan-out directory and no directory in the way of
  its file, and no file at its path or one that reads as this object, writing a well-formed
  object succeeds with its id, and reading the object back by that id (through the filesystem,
  decompression, the loose header, the hash check and the typed parser) gives the object,
  whatever is written later. (Over a damaged file at the path the write does nothing and
  returns \<open>Ok\<close>: lemma \<open>loose_write_keeps_damage\<close>.)
\<close>

theorem loose_write_read_object:
  assumes "loose_inv z dg s" and "loose_storable dg s (obj_type ob) (payload ob)"
    and "wf_object (loose_algo s) ob"
    and "i = hash_object dg (loose_algo s) (obj_type ob) (payload ob)"
    and "loose_contains s i \<longrightarrow> loose_read z dg s i = Ok (obj_type ob, payload ob)"
  shows "fst (loose_write z dg s (obj_type ob) (payload ob)) = Ok i
    \<and> read_object (loose_algo s)
        (loose_read z dg (foldl (\<lambda>s (ty, pl). snd (loose_write z dg s ty pl)) s
          ((obj_type ob, payload ob) # obs))) i = Ok ob"
proof -
  have "fst (loose_write z dg s (obj_type ob) (payload ob)) = Ok i
    \<and> loose_read z dg (foldl (\<lambda>s (ty, pl). snd (loose_write z dg s ty pl)) s
          ((obj_type ob, payload ob) # obs)) i = Ok (obj_type ob, payload ob)"
    unfolding assms(4) by (rule loose.put_then_puts [OF assms(1,2)]) (use assms(4,5) in simp)
  then show ?thesis by (simp add: read_object_def object_parse_payload [OF assms(3)])
qed

theorem loose_write_read_object_witness:
  "fst (loose_write stored (\<lambda>a d. replicate (raw_len a) 7)
      (loose_new \<lparr>files = Map.empty, dirs = {[]}\<rparr> Sha1) Blob [104, 105]) = Ok (ObjectId Sha1 (replicate 20 7))"
proof -
  let ?dg = "\<lambda>a d. replicate (raw_len a) 7"
  let ?s = "loose_new \<lparr>files = Map.empty, dirs = {[]}\<rparr> Sha1"
  have dg: "digest_ok ?dg" by (simp add: digest_ok_def)
  have "loose_inv stored ?dg ?s"
    by (simp add: loose_inv_def loose_new_def dg zlib_ok_stored wf_vfs_def)
  moreover have "length (serialize_loose Blob [104, 105]) \<le> 2 ^ 30"
    by (simp add: serialize_loose_def loose_header_eq dec_of_nat.simps)
  then have "loose_storable ?dg ?s Blob [104, 105]"
    by (simp add: loose_storable_def loose_new_def object_comps_def)
  moreover have "\<not> loose_contains ?s (hash_object ?dg Sha1 Blob [104, 105])"
    using resolve_object_path [OF wf_hash_object [OF dg, of Sha1 Blob "[104, 105]"]]
    by (simp add: loose_contains_def loose_new_def vfs_exists_def is_present_def object_comps_def)
  ultimately show ?thesis
    using loose_write_read_object [of stored ?dg ?s "OBlob [104, 105]"]
    by (simp add: wf_object_def loose_new_def hash_object_def)
qed

text \<open>
  C32. A loose store never returns content under a wrong name, whatever is on the disk: what
  \<open>read\<close> returns for an id hashes to that id, and an id that no path holds is \<open>NotFound\<close>.
\<close>

theorem loose_read_integrity:
  "(loose_read z dg s i = Ok (ty, pl) \<longrightarrow> hash_object dg (loose_algo s) ty pl = i)
   \<and> (\<not> loose_contains s i \<longrightarrow> loose_read z dg s i = Err (NotFound (HintObject (to_hex i))))"
  by (auto simp: loose_read_def loose_contains_def bind_res_eq_Ok split: if_splits)

theorem loose_read_integrity_witness:
  "loose_read stored (\<lambda>a d. replicate (raw_len a) 7)
      (loose_new \<lparr>files = Map.empty, dirs = {[]}\<rparr> Sha1) (zero_oid Sha1)
   = Err (NotFound (HintObject (to_hex (zero_oid Sha1))))"
proof -
  have "\<not> loose_contains (loose_new \<lparr>files = Map.empty, dirs = {[]}\<rparr> Sha1) (zero_oid Sha1)"
    using resolve_object_path [OF wf_zero_oid [of Sha1]]
    by (simp add: loose_contains_def loose_new_def vfs_exists_def is_present_def object_comps_def)
  then show ?thesis using loose_read_integrity by blast
qed

end
