(* ===== verification/Pack_Format.thy ===== *)
theory Pack_Format
  imports Delta Oid
begin

text \<open>
  The framing of pack entries: the type tags, the entry header and the offset varint of
  src/src/pack/mod.rs with their encoders of src/src/pack/writer.rs. Positions are offsets
  into the pack, as in the source; sizes read from a pack are \<open>64 word\<close>s.
\<close>

datatype pack_object_type = PCommit | PTree | PBlob | PTag | OfsDelta | RefDelta

definition from_tag :: "byte \<Rightarrow> pack_object_type result" where
  "from_tag tag =
     (if tag = 1 then Ok PCommit else if tag = 2 then Ok PTree else if tag = 3 then Ok PBlob
      else if tag = 4 then Ok PTag else if tag = 6 then Ok OfsDelta else if tag = 7 then Ok RefDelta
      else Err (Pack ''unknown pack object type {other}''))"

fun as_object_type :: "pack_object_type \<Rightarrow> object_type option" where
  "as_object_type PCommit = Some Commit"
| "as_object_type PTree = Some Tree"
| "as_object_type PBlob = Some Blob"
| "as_object_type PTag = Some Tag"
| "as_object_type OfsDelta = None"
| "as_object_type RefDelta = None"

text \<open>The loop of \<open>parse_entry_header_at\<close>: \<open>c\<close> is the last byte read, \<open>n\<close> counts the bytes.\<close>

fun header_loop :: "byte \<Rightarrow> 64 word \<Rightarrow> nat \<Rightarrow> bytes \<Rightarrow> nat \<Rightarrow> (64 word \<times> nat) result" where
  "header_loop c sz shift [] n =
     (if c AND 0x80 = 0 then Ok (sz, n) else Err (Pack ''pack: truncated entry header''))"
| "header_loop c sz shift (d # r) n =
     (if c AND 0x80 = 0 then Ok (sz, n)
      else if \<not> shift < 64 then Err (Pack ''pack: size varint overflow'')
      else header_loop d (sz OR push_bit shift (ucast (d AND 0x7f))) (shift + 7) r (n + 1))"

definition parse_entry_header_at :: "bytes \<Rightarrow> nat \<Rightarrow> (pack_object_type \<times> 64 word \<times> nat) result" where
  "parse_entry_header_at data offset =
     (case drop offset data of
        [] \<Rightarrow> Err (Pack ''pack: offset past end'')
      | first # r \<Rightarrow>
          bind_res (from_tag (drop_bit 4 first AND 0x7)) (\<lambda>ptype.
          bind_res (header_loop first (ucast (first AND 0xf)) 4 r 1) (\<lambda>(sz, n).
            Ok (ptype, sz, n))))"

text \<open>
  The loop of \<open>read_offset_varint\<close>. \<open>value + 1\<close> and the shift are unchecked: they wrap, as in a
  build without overflow checks.
\<close>

fun offset_loop :: "64 word \<Rightarrow> byte \<Rightarrow> bytes \<Rightarrow> nat \<Rightarrow> (64 word \<times> nat) result" where
  "offset_loop v c [] n =
     (if c AND 0x80 = 0 then Ok (v, n) else Err (Pack ''pack: truncated ofs-delta offset''))"
| "offset_loop v c (d # r) n =
     (if c AND 0x80 = 0 then Ok (v, n)
      else offset_loop (push_bit 7 (v + 1) OR ucast (d AND 0x7f)) d r (n + 1))"

definition read_offset_varint :: "bytes \<Rightarrow> nat \<Rightarrow> (64 word \<times> nat) result" where
  "read_offset_varint data start =
     (case drop start data of
        [] \<Rightarrow> Err (Pack ''pack: truncated ofs-delta offset'')
      | c # r \<Rightarrow> offset_loop (ucast (c AND 0x7f)) c r 1)"

section \<open>The encoders\<close>

fun write_rest :: "nat \<Rightarrow> bytes" where
  "write_rest rest =
     (if rest = 0 then []
      else (if rest div 128 \<noteq> 0 then of_nat (rest mod 128) OR 0x80 else of_nat (rest mod 128))
           # write_rest (rest div 128))"

declare write_rest.simps [simp del]

definition write_entry_header :: "byte \<Rightarrow> nat \<Rightarrow> bytes" where
  "write_entry_header tag sz =
     (let c = push_bit 4 tag OR of_nat (sz mod 16); rest = sz div 16
      in (if rest \<noteq> 0 then c OR 0x80 else c) # write_rest rest)"

fun pack_tag :: "object_type \<Rightarrow> byte" where
  "pack_tag Commit = 1"
| "pack_tag Tree = 2"
| "pack_tag Blob = 3"
| "pack_tag Tag = 4"

definition OFS_DELTA_TAG :: byte where
  "OFS_DELTA_TAG = 6"

definition REF_DELTA_TAG :: byte where
  "REF_DELTA_TAG = 7"

text \<open>The bytes that the loop of \<open>encode_ofs\<close> pushes, before the final \<open>reverse\<close>.\<close>

fun ofs_rest :: "nat \<Rightarrow> bytes" where
  "ofs_rest ofs =
     (if ofs = 0 then []
      else (0x80 OR of_nat ((ofs - 1) mod 128)) # ofs_rest ((ofs - 1) div 128))"

declare ofs_rest.simps [simp del]

definition encode_ofs :: "nat \<Rightarrow> bytes" where
  "encode_ofs ofs = rev (of_nat (ofs mod 128) # ofs_rest (ofs div 128))"

section \<open>Lemmas\<close>

lemma low7_bits:
  fixes n :: nat
  defines "c \<equiv> (of_nat (n mod 128) :: byte)"
  shows "c AND 0x7f = c" "c AND 0x80 = 0" "(c OR 0x80) AND 0x7f = c" "(c OR 0x80) AND 0x80 \<noteq> 0"
    "(ucast c :: 64 word) = of_nat (n mod 128)"
proof -
  have "unat c < 128" unfolding c_def by (subst of_nat_low7) simp
  from byte_top_bit [OF this]
  show "c AND 0x7f = c" "c AND 0x80 = 0" "(c OR 0x80) AND 0x7f = c" "(c OR 0x80) AND 0x80 \<noteq> 0" by blast+
  show "(ucast c :: 64 word) = of_nat (n mod 128)"
    unfolding c_def by (simp add: word_unat_eq_iff unsigned_ucast_eq take_bit_eq_mod of_nat_low7 unat_of_nat)
qed

lemma header_loop_rest:
  "n < 2 ^ (64 - shift) \<Longrightarrow> shift < 64 \<Longrightarrow> (c AND 0x80 \<noteq> 0 \<longleftrightarrow> n \<noteq> 0) \<Longrightarrow>
     header_loop c sz shift (write_rest n @ rest) k =
       Ok (sz OR push_bit shift (of_nat n), k + length (write_rest n))"
proof (induction n arbitrary: c sz shift k rule: write_rest.induct)
  case (1 n)
  show ?case
  proof (cases "n = 0")
    case True
    with "1.prems"(3) show ?thesis by (cases rest) (simp_all add: write_rest.simps)
  next
    case False
    define x where "x = (of_nat (n mod 128) :: byte)"
    note x = low7_bits [of n, folded x_def]
    let ?d = "if n div 128 \<noteq> 0 then x OR 0x80 else x"
    have w: "write_rest n = ?d # write_rest (n div 128)" using False by (simp add: write_rest.simps [of n] x_def)
    have d: "?d AND 0x7f = x" "?d AND 0x80 \<noteq> 0 \<longleftrightarrow> n div 128 \<noteq> 0"
      using x by simp_all
    have split: "push_bit shift (of_nat (n mod 128)) OR push_bit (shift + 7) (of_nat (n div 128)) =
        push_bit shift (of_nat n :: 64 word)"
    proof -
      have "n < 2 ^ 64"
        using "1.prems"(1) power_increasing [of "64 - shift" 64 "2 :: nat"] by simp
      note word_split7 [OF this, symmetric]
      then show ?thesis by (simp add: push_bit_or add.commute)
    qed
    show ?thesis
    proof (cases "n div 128 = 0")
      case True
      then have "write_rest n = [x]" "n mod 128 = n" by (simp_all add: w write_rest.simps [of 0])
      with "1.prems" x \<open>n \<noteq> 0\<close> show ?thesis by (cases rest) simp_all
    next
      case big: False
      then have n: "128 \<le> n" by simp
      have "7 < 64 - shift"
        using n "1.prems"(1) power_increasing [of "64 - shift" 7 "2 :: nat"] by fastforce
      then have sh: "shift + 7 < 64" "64 - shift = 7 + (64 - (shift + 7))" by simp_all
      have "n div 128 < 2 ^ (64 - (shift + 7))"
        using "1.prems"(1) unfolding sh(2) power_add by (simp add: less_mult_imp_div_less mult.commute)
      note IH = "1.IH" [OF \<open>n \<noteq> 0\<close> this sh(1) d(2)]
      show ?thesis
        using IH "1.prems" False big split x
        by (simp add: w or.assoc)
    qed
  qed
qed

lemma parse_write_header [codec]:
  assumes "from_tag tag = Ok ptype" and "sz < 2 ^ 64"
  shows "parse_entry_header_at (pre @ write_entry_header tag sz @ rest) (length pre) =
    Ok (ptype, of_nat sz, length (write_entry_header tag sz))"
proof -
  define lo where "lo = (of_nat (sz mod 16) :: byte)"
  have lo: "unat lo < 2 ^ 4" unfolding lo_def by (simp add: unat_of_nat)
  have "tag \<in> {1, 2, 3, 4, 6, 7}" using assms(1) by (auto simp: from_tag_def split: if_splits)
  then have tag: "unat tag < 2 ^ 3" by auto
  define c where "c = push_bit 4 tag OR lo"
  have c7: "unat c < 2 ^ 7" unfolding c_def using unat_join [OF tag lo] by simp
  then have top: "c AND 0x80 = 0" "(c OR 0x80) AND 0x80 \<noteq> 0" "(c OR 0x80) AND 0x7f = c"
    using byte_top_bit [of c] by simp_all
  have c4: "drop_bit 4 c = tag" "take_bit 4 c = lo"
    unfolding c_def by (rule drop_bit_join; use lo tag in simp)+
  define first where "first = (if sz div 16 \<noteq> 0 then c OR 0x80 else c)"
  have t7: "take_bit 7 first = c"
    using top(3) c7 by (simp add: first_def and_mask_take_bit take_bit_small)
  have f1: "first AND 0xf = lo"
  proof -
    have "take_bit 4 first = take_bit 4 (take_bit 7 first)" by (simp add: min_def)
    then show ?thesis by (simp only: and_mask_take_bit t7 c4)
  qed
  have f2: "drop_bit 4 first AND 0x7 = tag"
  proof -
    have "drop_bit 4 first AND 0x7 = take_bit 3 (drop_bit 4 first)"
      by (simp add: take_bit_eq_mask mask_eq_exp_minus_1)
    also have "\<dots> = drop_bit 4 (take_bit 7 first)" by (simp add: take_bit_drop_bit)
    finally show ?thesis by (simp only: t7 c4)
  qed
  have f3: "first AND 0x80 \<noteq> 0 \<longleftrightarrow> sz div 16 \<noteq> 0" using top by (simp add: first_def)
  have w: "write_entry_header tag sz = first # write_rest (sz div 16)"
    by (simp add: write_entry_header_def first_def c_def lo_def Let_def)
  have "(ucast lo :: 64 word) OR push_bit 4 (of_nat (sz div 16)) = of_nat sz"
  proof -
    have "unat (ucast lo :: 64 word) = sz mod 16"
      by (simp add: lo_def unsigned_ucast_eq take_bit_eq_mod unat_of_nat)
    moreover have "unat (take_bit 4 (of_nat sz :: 64 word)) = sz mod 16"
      by (simp only: unat_take_bit) (use assms(2) in \<open>simp add: unat_of_nat\<close>)
    ultimately have "(ucast lo :: 64 word) = take_bit 4 (of_nat sz)"
      by (simp only: word_unat_eq_iff)
    moreover have "(of_nat (sz div 16) :: 64 word) = drop_bit 4 (of_nat sz)"
      using assms(2) by (simp add: word_unat_eq_iff unat_drop_bit unat_of_nat)
    ultimately show ?thesis by (metis join_take_drop or.commute)
  qed
  moreover have "sz div 16 < 2 ^ (64 - 4)" using assms(2) by (simp add: less_mult_imp_div_less)
  ultimately show ?thesis
    using header_loop_rest [of "sz div 16" 4 first "ucast lo" rest 1] assms(1) f3
    by (simp add: parse_entry_header_at_def w f1 f2)
qed

lemma from_tag_simps [simp]:
  "from_tag (pack_tag ty) = Ok (case ty of Commit \<Rightarrow> PCommit | Tree \<Rightarrow> PTree | Blob \<Rightarrow> PBlob | Tag \<Rightarrow> PTag)"
  "from_tag OFS_DELTA_TAG = Ok OfsDelta" "from_tag REF_DELTA_TAG = Ok RefDelta"
  by (cases ty) (simp_all add: from_tag_def OFS_DELTA_TAG_def REF_DELTA_TAG_def)

lemma offset_loop_rest:
  "m \<noteq> 0 \<Longrightarrow> m \<le> 2 ^ 64 \<Longrightarrow>
     \<exists>f fs. rev (ofs_rest m) = f # fs
       \<and> (\<forall>x xs k. offset_loop (ucast (f AND 0x7f)) f (fs @ x # xs) k =
            offset_loop (push_bit 7 (of_nat m) OR ucast (x AND 0x7f)) x xs (k + length (f # fs)))"
proof (induction m rule: ofs_rest.induct)
  case (1 m)
  define b where "b = (of_nat ((m - 1) mod 128) :: byte)"
  note b = low7_bits [of "m - 1", folded b_def]
  define q where "q = (m - 1) div 128"
  have r: "rev (ofs_rest m) = rev (ofs_rest q) @ [0x80 OR b]"
    using "1.prems"(1) by (simp add: ofs_rest.simps [of m] b_def q_def)
  have top: "(0x80 OR b) AND 0x7f = b" "(0x80 OR b) AND 0x80 \<noteq> 0"
    using b by (simp_all add: or.commute)
  have m1: "m - 1 < 2 ^ 64" using "1.prems" by simp
  have suc: "of_nat (m - 1) + 1 = (of_nat m :: 64 word)" using "1.prems"(1) by (cases m) simp_all
  show ?case
  proof (cases "q = 0")
    case True
    then have "rev (ofs_rest m) = [0x80 OR b]" by (simp add: r ofs_rest.simps [of 0])
    moreover have "(m - 1) mod 128 = m - 1" using True by (simp add: q_def)
    ultimately show ?thesis using top b suc by auto
  next
    case False
    have "q \<le> 2 ^ 64" using m1 by (simp add: q_def)
    with "1.IH" [OF "1.prems"(1)] False obtain f fs where
      f: "rev (ofs_rest q) = f # fs"
        "\<And>x xs k. offset_loop (ucast (f AND 0x7f)) f (fs @ x # xs) k =
            offset_loop (push_bit 7 (of_nat q) OR ucast (x AND 0x7f)) x xs (k + length (f # fs))"
      unfolding q_def by blast
    have v: "push_bit 7 (of_nat q) OR ucast b = (of_nat (m - 1) :: 64 word)"
      using word_split7 [OF m1] b(5) by (simp add: q_def or.commute)
    have "offset_loop (ucast (f AND 0x7f)) f ((fs @ [0x80 OR b]) @ x # xs) k =
        offset_loop (push_bit 7 (of_nat m) OR ucast (x AND 0x7f)) x xs (k + length (f # fs @ [0x80 OR b]))" for x xs k
      using f(2) [of "0x80 OR b" "x # xs" k] top v suc by simp
    with f(1) r show ?thesis by auto
  qed
qed

lemma read_encode_ofs [codec]:
  assumes "n < 2 ^ 64"
  shows "read_offset_varint (pre @ encode_ofs n @ rest) (length pre) = Ok (of_nat n, length (encode_ofs n))"
proof -
  define x where "x = (of_nat (n mod 128) :: byte)"
  note x = low7_bits [of n, folded x_def]
  have stop: "offset_loop v x rest k = Ok (v, k)" for v k using x(2) by (cases rest) simp_all
  show ?thesis
  proof (cases "n div 128 = 0")
    case True
    then have "encode_ofs n = [x]" "n mod 128 = n" by (simp_all add: encode_ofs_def x_def ofs_rest.simps [of 0])
    with x stop show ?thesis by (simp add: read_offset_varint_def)
  next
    case False
    obtain f fs where f: "rev (ofs_rest (n div 128)) = f # fs"
        "\<And>y ys k. offset_loop (ucast (f AND 0x7f)) f (fs @ y # ys) k =
            offset_loop (push_bit 7 (of_nat (n div 128)) OR ucast (y AND 0x7f)) y ys (k + length (f # fs))"
    proof -
      have "n div 128 \<le> 2 ^ 64" using assms by (meson div_le_dividend le_trans less_imp_le)
      from offset_loop_rest [OF False this] that show thesis by blast
    qed
    have "encode_ofs n = f # fs @ [x]" using f(1) by (simp add: encode_ofs_def x_def)
    moreover have "push_bit 7 (of_nat (n div 128)) OR ucast x = (of_nat n :: 64 word)"
      using word_split7 [OF assms] x(5) by (simp add: or.commute)
    ultimately show ?thesis
      using f(2) [of x rest 1] x(1) stop by (simp add: read_offset_varint_def)
  qed
qed

section \<open>Properties\<close>

text \<open>
  Entry headers and base distances round-trip: wherever it stands in a pack, a header
  written for a known tag and a 64-bit size parses to that tag's type, that size and its own
  length, and an encoded distance reads back as the distance and its own length.
\<close>

theorem entry_header_roundtrip:
  assumes "from_tag tag = Ok ptype" and "sz < 2 ^ 64" and "ofs < 2 ^ 64"
  shows "parse_entry_header_at (pre @ write_entry_header tag sz @ rest) (length pre) =
      Ok (ptype, of_nat sz, length (write_entry_header tag sz))
    \<and> read_offset_varint (pre @ encode_ofs ofs @ rest) (length pre) =
      Ok (of_nat ofs, length (encode_ofs ofs))"
  by (simp only: parse_write_header [OF assms(1,2)] read_encode_ofs [OF assms(3)])

theorem entry_header_roundtrip_witness:
  "parse_entry_header_at [0xB5, 0x13] 0 = Ok (PBlob, 0x135, 2)
   \<and> read_offset_varint [0x80, 0x02] 0 = Ok (130, 2)"
proof -
  have "write_entry_header 3 0x135 = [0xB5, 0x13]" "encode_ofs 130 = [0x80, 0x02]"
    by (simp_all add: write_entry_header_def write_rest.simps encode_ofs_def ofs_rest.simps)
  then show ?thesis
    using entry_header_roundtrip [of 3 PBlob "0x135" 130 "[]" "[]"] by (simp add: from_tag_def)
qed

end
