(* ===== verification/Pack_Index.thy ===== *)
theory Pack_Index
  imports Oid
begin

text \<open>
  The version 2 pack index: \<open>PackIndex\<close> of src/src/pack/mod.rs (parsing, the binary search
  \<open>position_of\<close>, \<open>offset_of\<close>) and \<open>build_index\<close> of src/src/pack/writer.rs. Counts are
  \<open>32 word\<close>s and large offsets \<open>64 word\<close>s, as in the file.
\<close>

definition IDX_MAGIC :: bytes where
  "IDX_MAGIC = [0xff, 0x74, 0x4f, 0x63]"

record pack_index =
  ix_algo :: hash_algo
  ix_oids :: bytes
  ix_offsets :: bytes
  ix_large_offsets :: bytes
  ix_count :: nat

definition be32 :: "bytes \<Rightarrow> 32 word" where
  "be32 b = be_word (take 4 b)"

definition be64 :: "bytes \<Rightarrow> 64 word" where
  "be64 b = be_word (take 8 b)"

text \<open>
  The checked products and sums of \<open>parse\<close> cannot overflow a 64-bit \<open>usize\<close>: the count is
  below \<open>2 ^ 32\<close>.
\<close>

definition index_parse :: "hash_algo \<Rightarrow> bytes \<Rightarrow> pack_index result" where
  "index_parse a data =
     (if length data < 8 + 256 * 4 then Err (Pack ''idx: too short'')
      else if take 4 data \<noteq> IDX_MAGIC then Err (Pack ''idx: bad magic (v1 indexes unsupported)'')
      else if be32 (drop 4 data) \<noteq> 2 then Err (Pack ''idx: unsupported version {version}'')
      else
        let id_len = raw_len a;
            count = unat (be32 (drop (8 + 255 * 4) data));
            oids_start = 8 + 256 * 4;
            oids_len = count * id_len;
            off_start = oids_start + oids_len + count * 4;
            large_start = off_start + count * 4;
            large_end = length data - 2 * id_len
        in if length data < large_start then Err (Pack ''idx: truncated'')
           else Ok \<lparr>ix_algo = a,
                    ix_oids = take oids_len (drop oids_start data),
                    ix_offsets = take (count * 4) (drop off_start data),
                    ix_large_offsets = take (max large_end large_start - large_start) (drop large_start data),
                    ix_count = count\<rparr>)"

definition index_row :: "pack_index \<Rightarrow> nat \<Rightarrow> bytes" where
  "index_row ix k = (let id_len = raw_len (ix_algo ix) in take id_len (drop (k * id_len) (ix_oids ix)))"

function search_loop :: "(nat \<Rightarrow> bytes) \<Rightarrow> bytes \<Rightarrow> nat \<Rightarrow> nat \<Rightarrow> nat option" where
  "search_loop row needle lo hi =
     (if lo < hi then
        let mid = (lo + hi) div 2
        in if row mid < needle then search_loop row needle (mid + 1) hi
           else if needle < row mid then search_loop row needle lo mid
           else Some mid
      else None)"
  by pat_completeness auto
termination
  by (relation "measure (\<lambda>(r, n, lo, hi). hi - lo)") auto

declare search_loop.simps [simp del]

definition position_of :: "pack_index \<Rightarrow> object_id \<Rightarrow> nat option" where
  "position_of ix i =
     (if oid_algo i \<noteq> ix_algo ix then None
      else search_loop (index_row ix) (as_bytes i) 0 (ix_count ix))"

definition offset_of :: "pack_index \<Rightarrow> object_id \<Rightarrow> nat option" where
  "offset_of ix i =
     (case position_of ix i of
        None \<Rightarrow> None
      | Some k \<Rightarrow>
          let raw = be32 (drop (k * 4) (ix_offsets ix))
          in if raw AND 0x80000000 = 0 then Some (unat raw)
             else
               let off = unat (raw AND 0x7fffffff) * 8
               in if length (ix_large_offsets ix) < off + 8 then None
                  else Some (unat (be64 (drop off (ix_large_offsets ix)))))"

definition index_contains :: "pack_index \<Rightarrow> object_id \<Rightarrow> bool" where
  "index_contains ix i \<longleftrightarrow> position_of ix i \<noteq> None"

definition index_id_at :: "pack_index \<Rightarrow> nat \<Rightarrow> object_id option" where
  "index_id_at ix k =
     (let id_len = raw_len (ix_algo ix)
      in if length (ix_oids ix) < k * id_len + id_len then None
         else case from_bytes (ix_algo ix) (index_row ix k) of Ok i \<Rightarrow> Some i | Err _ \<Rightarrow> None)"

definition index_offset_at :: "pack_index \<Rightarrow> nat \<Rightarrow> nat option" where
  "index_offset_at ix k =
     (if length (ix_offsets ix) < k * 4 + 4 then None
      else
        let raw = be32 (drop (k * 4) (ix_offsets ix))
        in if raw AND 0x80000000 = 0 then Some (unat raw)
           else
             let off = unat (raw AND 0x7fffffff) * 8
             in if length (ix_large_offsets ix) < off + 8 then None
                else Some (unat (be64 (drop off (ix_large_offsets ix)))))"

section \<open>Building\<close>

type_synonym meta = "object_id \<times> nat \<times> 32 word"

text \<open>The fan-out table: the counts by first byte, then their running sums.\<close>

definition fanout_counts :: "meta list \<Rightarrow> 32 word list" where
  "fanout_counts ms =
     foldl (\<lambda>f m. let k = unat (as_bytes (fst m) ! 0) in f[k := f ! k + 1]) (replicate 256 0) ms"

fun running_sums :: "32 word \<Rightarrow> 32 word list \<Rightarrow> 32 word list" where
  "running_sums acc [] = []"
| "running_sums acc (s # ss) = (acc + s) # running_sums (acc + s) ss"

text \<open>The offset table and the large offsets; \<open>n\<close> counts the large ones so far.\<close>

fun offset_table :: "nat \<Rightarrow> nat list \<Rightarrow> bytes \<times> 64 word list" where
  "offset_table n [] = ([], [])"
| "offset_table n (off # offs) =
     (if off < 0x80000000 then
        (let (t, l) = offset_table n offs in (be_bytes (of_nat off :: 32 word) @ t, l))
      else
        (let (t, l) = offset_table (n + 1) offs
         in (be_bytes (0x80000000 OR of_nat n :: 32 word) @ t, of_nat off # l)))"

definition build_index :: "digest \<Rightarrow> hash_algo \<Rightarrow> meta list \<Rightarrow> bytes \<Rightarrow> bytes" where
  "build_index dg a ms pack_hash =
     (let sorted_ms = sort_key (as_bytes \<circ> fst) ms;
          (table, large) = offset_table 0 (map (fst \<circ> snd) sorted_ms);
          idx = IDX_MAGIC @ be_bytes (2 :: 32 word)
                @ concat (map be_bytes (running_sums 0 (fanout_counts sorted_ms)))
                @ concat (map (\<lambda>m. take (raw_len a) (as_bytes (fst m))) sorted_ms)
                @ concat (map (\<lambda>m. be_bytes (snd (snd m))) sorted_ms)
                @ table @ concat (map be_bytes large) @ pack_hash
      in idx @ hash_bytes dg a idx)"

section \<open>Lemmas\<close>

subsection \<open>Binary search\<close>

lemma search_loop_sound: "search_loop row needle lo hi = Some k \<Longrightarrow> lo \<le> k \<and> k < hi \<and> row k = needle"
proof (induction row needle lo hi rule: search_loop.induct)
  case (1 row needle lo hi)
  then show ?case
    by (subst (asm) (3) search_loop.simps) (force simp: Let_def split: if_splits)
qed

lemma search_loop_complete:
  "(\<And>i j. i < j \<Longrightarrow> j < n \<Longrightarrow> row i < row j) \<Longrightarrow> lo \<le> k \<Longrightarrow> k < hi \<Longrightarrow> hi \<le> n \<Longrightarrow> row k = needle \<Longrightarrow>
     search_loop row needle lo hi = Some k"
proof (induction row needle lo hi rule: search_loop.induct)
  case (1 row needle lo hi)
  define mid where "mid = (lo + hi) div 2"
  have mid: "lo \<le> mid" "mid < hi" "lo < hi" using "1.prems" by (auto simp: mid_def)
  have inj: "row i < row j \<longleftrightarrow> i < j" if "i < n" "j < n" for i j
    using that "1.prems"(1) by (metis less_asym linorder_neqE_nat less_irrefl)
  consider "mid < k" | "k < mid" | "k = mid" by linarith
  then show ?case
  proof cases
    case 1
    then have "row mid < needle" using inj [of mid k] "1.prems" mid by simp
    with 1 "1.prems" "1.IH"(1) [OF mid(3) mid_def] mid show ?thesis
      by (subst search_loop.simps) (simp add: Let_def mid_def [symmetric])
  next
    case 2
    then have "needle < row mid" "\<not> row mid < needle" using inj [of k mid] "1.prems" mid by auto
    with 2 "1.prems" "1.IH"(2) [OF mid(3) mid_def] mid show ?thesis
      by (subst search_loop.simps) (simp add: Let_def mid_def [symmetric])
  next
    case 3
    with "1.prems" mid show ?thesis
      by (subst search_loop.simps) (simp add: Let_def mid_def [symmetric])
  qed
qed

subsection \<open>The fan-out table\<close>

lemma sum_list_incr: "k < length f \<Longrightarrow> sum_list (f[k := f ! k + 1]) = sum_list f + (1 :: 32 word)"
  by (induction f arbitrary: k) (auto simp: algebra_simps split: nat.splits)

lemma fanout_counts_sum:
  "length (fanout_counts ms) = 256 \<and> sum_list (fanout_counts ms) = of_nat (length ms)"
proof -
  have "length (foldl (\<lambda>f m. let k = unat (as_bytes (fst m) ! 0) in f[k := f ! k + 1]) f ms) = 256
      \<and> sum_list (foldl (\<lambda>f m. let k = unat (as_bytes (fst m) ! 0) in f[k := f ! k + 1]) f ms)
        = sum_list f + of_nat (length ms)" if "length f = 256" for f :: "32 word list" and ms :: "meta list"
    using that
  proof (induction ms arbitrary: f)
    case (Cons m ms)
    have "unat (as_bytes (fst m) ! 0) < length f" using Cons.prems unat_byte by simp
    with Cons show ?case by (simp add: Let_def sum_list_incr add.assoc)
  qed simp
  from this [of "replicate 256 0" ms] show ?thesis
    by (simp add: fanout_counts_def sum_list_replicate)
qed

lemma length_running_sums [simp]: "length (running_sums acc ss) = length ss"
  by (induction ss arbitrary: acc) auto

lemma running_sums_last: "ss \<noteq> [] \<Longrightarrow> last (running_sums acc ss) = acc + sum_list ss"
proof (induction ss arbitrary: acc)
  case (Cons s ss)
  have "running_sums (acc + s) ss = [] \<longleftrightarrow> ss = []"
    by (metis length_0_conv length_running_sums)
  with Cons.IH [of "acc + s"] show ?case by (cases "ss = []") (simp_all add: add.assoc)
qed simp

subsection \<open>Tables of equal blocks\<close>

lemma length_concat_block: "(\<And>x. x \<in> set xs \<Longrightarrow> length (f x) = n) \<Longrightarrow> length (concat (map f xs)) = length xs * n"
  by (induction xs) auto

lemma concat_block:
  "(\<And>x. x \<in> set xs \<Longrightarrow> length (f x) = n) \<Longrightarrow> k < length xs \<Longrightarrow>
     take n (drop (k * n) (concat (map f xs) @ rest)) = f (xs ! k)"
proof (induction xs arbitrary: k)
  case (Cons x xs)
  then show ?case by (cases k) simp_all
qed simp

lemma be32_bytes [simp]: "be32 (be_bytes w @ rest) = w"
  by (simp add: be32_def codec)

lemma be64_bytes [simp]: "be64 (be_bytes w @ rest) = w"
  by (simp add: be64_def codec)

lemma bit31_small:
  assumes "n < 2 ^ 31"
  shows "(of_nat n :: 32 word) AND 0x80000000 = 0" "unat (of_nat n :: 32 word) = n"
proof -
  show u: "unat (of_nat n :: 32 word) = n" using assms by (simp add: unat_of_nat)
  have "\<not> bit (of_nat n :: 32 word) 31" using bit_small [of "of_nat n :: 32 word" 31 31] u assms by auto
  moreover have p: "(0x80000000 :: 32 word) = push_bit 31 1" by simp
  ultimately show "(of_nat n :: 32 word) AND 0x80000000 = 0"
    unfolding p by (metis bit_iff_and_push_bit_not_eq_0)
qed

lemma bit31_large:
  assumes "n < 2 ^ 31"
  shows "(0x80000000 OR of_nat n :: 32 word) AND 0x80000000 \<noteq> 0"
    "unat ((0x80000000 OR of_nat n :: 32 word) AND 0x7fffffff) = n"
proof -
  have p: "(0x80000000 :: 32 word) = push_bit 31 1" by simp
  have "bit (push_bit 31 1 OR of_nat n :: 32 word) 31" by (simp add: bit_simps)
  then show "(0x80000000 OR of_nat n :: 32 word) AND 0x80000000 \<noteq> 0"
    unfolding p by (metis bit_iff_and_push_bit_not_eq_0)
  have u: "unat (of_nat n :: 32 word) = n" using assms by (simp add: unat_of_nat)
  have "take_bit 31 (push_bit 31 1 OR of_nat n :: 32 word) = of_nat n"
    by (rule drop_bit_join) (use u assms in simp_all)
  moreover have "w AND 0x7fffffff = take_bit 31 w" for w :: "32 word"
    by (simp add: take_bit_eq_mask mask_eq_exp_minus_1)
  ultimately show "unat ((0x80000000 OR of_nat n :: 32 word) AND 0x7fffffff) = n"
    by (simp only: p u)
qed

lemma offset_table_spec:
  "snd (offset_table n offs) = map of_nat (filter (\<lambda>x. \<not> x < 0x80000000) offs)
   \<and> fst (offset_table n offs) = concat (map (\<lambda>k. be_bytes
       (if offs ! k < 0x80000000 then of_nat (offs ! k)
        else 0x80000000 OR of_nat (n + length (filter (\<lambda>x. \<not> x < 0x80000000) (take k offs))) :: 32 word))
       [0..<length offs])"
proof (induction n offs rule: offset_table.induct)
  case (2 n off offs)
  have u: "[0..<length (off # offs)] = 0 # map Suc [0..<length offs]"
    by (simp add: map_Suc_upt upt_conv_Cons del: upt_Suc)
  show ?case
  proof (cases "off < 0x80000000")
    case True
    with "2.IH"(1) show ?thesis unfolding u by (simp add: split_beta comp_def cong: if_cong)
  next
    case False
    with "2.IH"(2) show ?thesis unfolding u by (simp add: split_beta comp_def ac_simps cong: if_cong)
  qed
qed simp

lemma filter_nth_take:
  "k < length xs \<Longrightarrow> P (xs ! k) \<Longrightarrow>
     length (filter P (take k xs)) < length (filter P xs)
     \<and> filter P xs ! length (filter P (take k xs)) = xs ! k"
proof (induction xs arbitrary: k)
  case (Cons x xs)
  then show ?case by (cases k) auto
qed simp

subsection \<open>Reading back what was built\<close>

text \<open>What \<open>build_index\<close> is given: ids of the algorithm, no two equal, 64-bit offsets.\<close>

definition wf_meta :: "hash_algo \<Rightarrow> meta list \<Rightarrow> bool" where
  "wf_meta a ms \<longleftrightarrow>
     distinct (map fst ms) \<and> length ms < 2 ^ 31
     \<and> (\<forall>m\<in>set ms. wf_oid (fst m) \<and> oid_algo (fst m) = a \<and> fst (snd m) < 2 ^ 64)"

lemma take_drop_app: "length xs = n \<Longrightarrow> drop n (xs @ ys) = ys" "length xs = n \<Longrightarrow> take n (xs @ ys) = xs"
  by simp_all

lemma index_parse_build:
  assumes "wf_meta a ms" and "digest_ok dg" and "length pack_hash = raw_len a"
  defines "S \<equiv> sort_key (as_bytes \<circ> fst) ms"
  defines "offs \<equiv> map (fst \<circ> snd) S"
  shows "index_parse a (build_index dg a ms pack_hash) =
    Ok \<lparr>ix_algo = a, ix_oids = concat (map (as_bytes \<circ> fst) S),
        ix_offsets = fst (offset_table 0 offs),
        ix_large_offsets = concat (map be_bytes (snd (offset_table 0 offs))),
        ix_count = length ms\<rparr>"
proof -
  let ?n = "length ms"
  define R where "R = running_sums 0 (fanout_counts S)"
  define O' where "O' = concat (map (as_bytes \<circ> fst) S)"
  define C where "C = concat (map (\<lambda>m. be_bytes (snd (snd m))) S)"
  define T where "T = fst (offset_table 0 offs)"
  define L where "L = concat (map be_bytes (snd (offset_table 0 offs)))"
  have S: "length S = ?n" "set S = set ms" by (simp_all add: S_def)
  have wf: "length (as_bytes (fst m)) = raw_len a" if "m \<in> set S" for m
    using that assms(1) S by (auto simp: wf_meta_def wf_oid_def)
  have "length O' = ?n * raw_len a"
    unfolding O'_def using length_concat_block [of S "as_bytes \<circ> fst" "raw_len a"] wf S by simp
  moreover have "length C = ?n * 4"
    unfolding C_def using length_concat_block [of S "\<lambda>m. be_bytes (snd (snd m))" 4] S by simp
  moreover have "length T = ?n * 4"
    unfolding T_def offset_table_spec [THEN conjunct2] using S
    by (subst length_concat_block [where n = 4]) (simp_all add: offs_def)
  ultimately have lens: "length O' = ?n * raw_len a" "length C = ?n * 4" "length T = ?n * 4" .
  have R: "length R = 256" "R \<noteq> []" "last R = of_nat ?n"
  proof -
    have fc: "length (fanout_counts S) = 256" "sum_list (fanout_counts S) = of_nat ?n"
      using fanout_counts_sum [of S] S by simp_all
    then have "fanout_counts S \<noteq> []" by (metis length_0_conv zero_neq_numeral)
    from running_sums_last [OF this, of 0] fc show "last R = of_nat ?n" by (simp add: R_def)
    show "length R = 256" using fc by (simp add: R_def)
    then show "R \<noteq> []" by (metis length_0_conv zero_neq_numeral)
  qed
  have F: "concat (map be_bytes R) = concat (map be_bytes (butlast R)) @ be_bytes (last R)"
  proof -
    have "R = butlast R @ [last R]" using R(2) by simp
    from arg_cong [OF this, of "\<lambda>l. concat (map be_bytes l)"] show ?thesis by simp
  qed
  define F0 where "F0 = concat (map be_bytes (butlast R))"
  have F0: "length F0 = 255 * 4" unfolding F0_def using R by (subst length_concat_block [of _ _ 4]) simp_all
  obtain X where X: "length X = raw_len a" and
    b: "build_index dg a ms pack_hash = IDX_MAGIC @ be_bytes (2 :: 32 word) @ F0 @ be_bytes (last R)
       @ O' @ C @ T @ L @ pack_hash @ X"
  proof -
    have "take (raw_len a) (as_bytes (fst m)) = (as_bytes \<circ> fst) m" if "m \<in> set S" for m
      using wf [OF that] by simp
    then have o: "concat (map (\<lambda>m. take (raw_len a) (as_bytes (fst m))) S) = O'"
      unfolding O'_def by (metis (mono_tags, lifting) map_cong)
    show thesis
      by (rule that [of "hash_bytes dg a (IDX_MAGIC @ be_bytes (2 :: 32 word) @ F0 @ be_bytes (last R)
          @ O' @ C @ T @ L @ pack_hash)"])
        (use assms(2) F o in \<open>simp_all add: build_index_def hash_bytes_def digest_ok_def split_beta Let_def
          S_def [symmetric] offs_def [symmetric] R_def [symmetric] F0_def C_def T_def L_def\<close>)
  qed
  let ?d = "build_index dg a ms pack_hash"
  have m: "length IDX_MAGIC = 4" by (simp add: IDX_MAGIC_def)
  have d1: "drop 4 ?d = be_bytes (2 :: 32 word) @ F0 @ be_bytes (last R) @ O' @ C @ T @ L @ pack_hash @ X"
    unfolding b by (rule take_drop_app [OF m])
  have d2: "drop (8 + 255 * 4) ?d = be_bytes (last R) @ O' @ C @ T @ L @ pack_hash @ X"
    unfolding b using F0 m by simp
  have d_add: "drop (m + k) xs = drop k (drop m xs)" for m k and xs :: bytes
    by (simp add: add.commute)
  have d3: "drop (8 + 256 * 4) ?d = O' @ C @ T @ L @ pack_hash @ X"
    unfolding b using F0 m by simp
  have d4: "drop (8 + 256 * 4 + ?n * raw_len a + ?n * 4) ?d = T @ L @ pack_hash @ X"
    unfolding d_add [of _ "?n * 4"] d_add [of "8 + 256 * 4"] d3 take_drop_app [OF lens(1)] take_drop_app [OF lens(2)] ..
  have d5: "drop (8 + 256 * 4 + ?n * raw_len a + ?n * 4 + ?n * 4) ?d = L @ pack_hash @ X"
    by (subst d_add, subst d4, rule take_drop_app [OF lens(3)])
  have len: "length ?d = 8 + 256 * 4 + ?n * raw_len a + ?n * 4 + ?n * 4 + length L + 2 * raw_len a"
    unfolding b using F0 m lens X assms(3) by simp
  have n: "unat (be32 (drop (8 + 255 * 4) ?d)) = ?n"
    unfolding d2 be32_bytes R(3) using assms(1) by (simp add: wf_meta_def unat_of_nat)
  show ?thesis
    unfolding index_parse_def Let_def n d3 d4 d5 d1 be32_bytes
    using len lens m by (simp add: b O'_def [symmetric] T_def [symmetric] L_def [symmetric])
qed

lemma offset_at_row:
  assumes "k < length offs" and "length offs < 2 ^ 31" and "offs ! k < 2 ^ 64"
  defines "T \<equiv> fst (offset_table 0 offs)" and "L \<equiv> concat (map be_bytes (snd (offset_table 0 offs)))"
  defines "raw \<equiv> be32 (drop (k * 4) T)"
  shows "raw AND 0x80000000 = 0 \<and> unat raw = offs ! k
    \<or> raw AND 0x80000000 \<noteq> 0 \<and> unat (raw AND 0x7fffffff) * 8 + 8 \<le> length L
      \<and> unat (be64 (drop (unat (raw AND 0x7fffffff) * 8) L)) = offs ! k"
proof -
  define big where "big = (\<lambda>x. \<not> x < (0x80000000 :: nat))"
  define j where "j = length (filter big (take k offs))"
  have raw: "raw = (if offs ! k < 0x80000000 then of_nat (offs ! k) else 0x80000000 OR of_nat j)"
    unfolding raw_def T_def offset_table_spec [THEN conjunct2] be32_def
    by (subst concat_block [where rest = "[]", simplified]) (use assms(1) in \<open>simp_all add: codec j_def big_def\<close>)
  show ?thesis
  proof (cases "offs ! k < 0x80000000")
    case True
    then show ?thesis using bit31_small [of "offs ! k"] by (simp add: raw)
  next
    case False
    have lj: "j < length (filter big offs)" "filter big offs ! j = offs ! k"
      using filter_nth_take [of k offs big] assms(1) False by (simp_all add: j_def big_def)
    have j31: "j < 2 ^ 31" using lj(1) assms(2) length_filter_le [of big offs] by linarith
    have r: "raw AND 0x80000000 \<noteq> 0" "unat (raw AND 0x7fffffff) = j"
      using False bit31_large [OF j31] by (simp_all add: raw)
    have L: "L = concat (map be_bytes (map of_nat (filter big offs) :: 64 word list))"
      unfolding L_def big_def offset_table_spec [THEN conjunct1] ..
    have "be64 (drop (j * 8) L) = of_nat (offs ! k)"
      unfolding L be64_def using lj
      by (subst concat_block [where rest = "[]", simplified]) (simp_all add: codec)
    moreover have "length L = length (filter big offs) * 8"
      unfolding L by (subst length_concat_block [where n = 8]) simp_all
    moreover have "unat (of_nat (offs ! k) :: 64 word) = offs ! k"
      using assms(3) by (simp add: unat_of_nat)
    ultimately show ?thesis using r lj(1) by simp
  qed
qed

lemma index_lookup_built:
  assumes "wf_meta a ms" and "digest_ok dg" and "length pack_hash = raw_len a"
  shows "\<exists>ix. index_parse a (build_index dg a ms pack_hash) = Ok ix
    \<and> (\<forall>i off crc. (i, off, crc) \<in> set ms \<longrightarrow> offset_of ix i = Some off)
    \<and> (\<forall>i. i \<notin> fst ` set ms \<longrightarrow> offset_of ix i = None)"
proof -
  define S where "S = sort_key (as_bytes \<circ> fst) ms"
  define offs where "offs = map (fst \<circ> snd) S"
  define ix where "ix = \<lparr>ix_algo = a, ix_oids = concat (map (as_bytes \<circ> fst) S),
        ix_offsets = fst (offset_table 0 offs),
        ix_large_offsets = concat (map be_bytes (snd (offset_table 0 offs))), ix_count = length ms\<rparr>"
  have S: "length S = length ms" "set S = set ms" by (simp_all add: S_def)
  have wf: "length (as_bytes (fst m)) = raw_len a" "oid_algo (fst m) = a" "fst (snd m) < 2 ^ 64" if "m \<in> set S" for m
    using that assms(1) S by (auto simp: wf_meta_def wf_oid_def)
  have row: "index_row ix k = as_bytes (fst (S ! k))" if "k < length ms" for k
    unfolding index_row_def Let_def ix_def using that S wf(1)
      concat_block [of S "as_bytes \<circ> fst" "raw_len a" k "[]"] by simp
  have "distinct (map (as_bytes \<circ> fst) ms)"
    unfolding distinct_map
  proof (intro conjI inj_onI)
    show "distinct ms" using assms(1) by (simp add: wf_meta_def distinct_map)
    fix m m'
    assume m: "m \<in> set ms" "m' \<in> set ms" "(as_bytes \<circ> fst) m = (as_bytes \<circ> fst) m'"
    then have "fst m = fst m'" using wf(2) [of m] wf(2) [of m'] S by (auto intro: object_id.expand)
    moreover have "inj_on fst (set ms)" using assms(1) by (simp add: wf_meta_def distinct_map)
    ultimately show "m = m'" using m by (auto dest: inj_onD)
  qed
  then have "sorted_wrt (<) (map (as_bytes \<circ> fst) S)"
    by (simp add: S_def strict_sorted_iff distinct_map)
  then have mono: "index_row ix i < index_row ix j" if "i < j" "j < length ms" for i j
    using that S row by (simp add: sorted_wrt_iff_nth_less)
  have found: "offset_of ix i = Some off" if "(i, off, crc) \<in> set ms" for i off crc
  proof -
    have "(i, off, crc) \<in> set S" using that S(2) by simp
    then obtain k where k: "k < length ms" "S ! k = (i, off, crc)"
      using S(1) by (auto simp only: in_set_conv_nth)
    have "search_loop (index_row ix) (as_bytes i) 0 (length ms) = Some k"
      by (rule search_loop_complete [where n = "length ms"])
        (use k row [OF k(1)] in \<open>simp_all add: mono\<close>)
    moreover have "oid_algo i = a" using wf(2) [of "(i, off, crc)"] that S by simp
    ultimately have "position_of ix i = Some k" by (simp add: position_of_def ix_def)
    moreover have "k < length offs" "length offs < 2 ^ 31" "offs ! k = off" "off < 2 ^ 64"
      using k S wf(3) [of "(i, off, crc)"] that assms(1) by (simp_all add: offs_def wf_meta_def)
    moreover note offset_at_row [of k offs]
    ultimately show ?thesis
      by (simp only: offset_of_def ix_def Let_def option.case pack_index.select_convs) auto
  qed
  have missing: "offset_of ix i = None" if "i \<notin> fst ` set ms" for i
  proof -
    have "position_of ix i = None"
    proof (rule ccontr)
      assume "position_of ix i \<noteq> None"
      then obtain k where "oid_algo i = a" "k < length ms" "index_row ix k = as_bytes i"
        using search_loop_sound by (fastforce simp: position_of_def ix_def split: if_splits)
      moreover have m: "S ! k \<in> set ms" using \<open>k < length ms\<close> S nth_mem [of k S] by simp
      ultimately have "fst (S ! k) = i"
        using row [OF \<open>k < length ms\<close>] wf(2) [of "S ! k"] S by (auto intro: object_id.expand)
      with m that show False by force
    qed
    then show ?thesis by (simp add: offset_of_def)
  qed
  have "index_parse a (build_index dg a ms pack_hash) = Ok ix"
    using index_parse_build [OF assms] by (simp add: ix_def S_def offs_def)
  with found missing show ?thesis by blast
qed

section \<open>Properties\<close>

text \<open>
  An index answers for the pack it was built from: parsing the bytes of \<open>build_index\<close>
  succeeds, and \<open>offset_of\<close> (binary search over the sorted ids, then the small or the large
  offset table) returns the recorded offset for every object and nothing for any other id.
\<close>

theorem index_lookup:
  assumes "wf_meta a ms" and "digest_ok dg" and "length pack_hash = raw_len a"
  shows "\<exists>ix. index_parse a (build_index dg a ms pack_hash) = Ok ix
    \<and> (\<forall>i off crc. (i, off, crc) \<in> set ms \<longrightarrow> offset_of ix i = Some off)
    \<and> (\<forall>i. i \<notin> fst ` set ms \<longrightarrow> offset_of ix i = None)"
  by (rule index_lookup_built [OF assms])

theorem index_lookup_witness:
  "\<exists>ix. index_parse Sha1 (build_index (\<lambda>a d. replicate (raw_len a) 7) Sha1
        [(ObjectId Sha1 (replicate 20 9), 12, 0), (zero_oid Sha1, 0x80000001, 1)] (replicate 20 7)) = Ok ix
     \<and> offset_of ix (zero_oid Sha1) = Some 0x80000001"
proof -
  have "wf_meta Sha1 [(ObjectId Sha1 (replicate 20 9), 12, 0), (zero_oid Sha1, 0x80000001, 1)]"
    by (simp add: wf_meta_def zero_oid_def wf_oid_def)
  moreover have "digest_ok (\<lambda>a d. replicate (raw_len a) 7)" by (simp add: digest_ok_def)
  ultimately show ?thesis using index_lookup [of Sha1 _ _ "replicate 20 7"] by fastforce
qed

end
