(* ===== verification/Pack.thy ===== *)
theory Pack
  imports Odb Delta Pack_Format Pack_Index
begin

text \<open>
  Packs: reading entries by offset with their delta chains (\<open>Pack\<close>), decoding a whole pack
  (\<open>explode_pack\<close>), delimiting one entry (\<open>pack_frame_end\<close>) and checking a pack against its
  index (\<open>verify_pack\<close>), all of src/src/pack/mod.rs, and \<open>PackWriter\<close> of
  src/src/pack/writer.rs. The external resolver is a \<open>reader\<close>. Offsets are natural numbers;
  sizes and distances read from a pack are \<open>64 word\<close>s.
\<close>

section \<open>Random access\<close>

definition PACK_SIGNATURE :: bytes where
  "PACK_SIGNATURE = bstr ''PACK''"

definition MAX_DELTA_CHAIN_DEPTH :: nat where
  "MAX_DELTA_CHAIN_DEPTH = 10000"

record pack =
  pk_data :: bytes
  pk_algo :: hash_algo
  pk_object_count :: "32 word"

definition pack_new :: "bytes \<Rightarrow> hash_algo \<Rightarrow> pack result" where
  "pack_new data a =
     (if length data < 12 then Err (error.Pack ''pack: too short'')
      else if take 4 data \<noteq> PACK_SIGNATURE then Err (error.Pack ''pack: bad signature'')
      else
        let version = be32 (drop 4 data)
        in if version \<noteq> 2 \<and> version \<noteq> 3 then Err (error.Pack ''pack: unsupported version {version}'')
           else Ok \<lparr>pk_data = data, pk_algo = a, pk_object_count = be32 (drop 8 data)\<rparr>)"

text \<open>
  The loop of \<open>read_at_with\<close>. It ends: every round pushes a delta, and the loop gives up when
  there are more than \<open>MAX_DELTA_CHAIN_DEPTH\<close>. The result is the base and the deltas.
\<close>

function chain_loop :: "'d zlib \<Rightarrow> pack \<Rightarrow> (object_id \<Rightarrow> nat option) \<Rightarrow> reader
    \<Rightarrow> bytes list \<Rightarrow> nat set \<Rightarrow> nat \<Rightarrow> ((object_type \<times> bytes) \<times> bytes list) result" where
  "chain_loop z p locate ext deltas visited cur =
     (if MAX_DELTA_CHAIN_DEPTH < length deltas then Err (error.Pack ''pack: delta chain too deep'')
      else if cur \<in> visited then Err (error.Pack ''pack: delta chain is cyclic'')
      else
        bind_res (parse_entry_header_at (pk_data p) cur) (\<lambda>(ptype, sz, hdr_len).
        let body_start = cur + hdr_len
        in case as_object_type ptype of
             Some ty \<Rightarrow>
               bind_res (inflate_capped z (drop body_start (pk_data p)) (unat sz)) (\<lambda>d.
                 Ok ((ty, d), deltas))
           | None \<Rightarrow>
               if ptype = OfsDelta then
                 bind_res (read_offset_varint (pk_data p) body_start) (\<lambda>(rel, n).
                   if rel = 0 then Err (error.Pack ''pack: ofs-delta base is self-referential'')
                   else if cur < unat rel then Err (error.Pack ''pack: ofs-delta base before pack start'')
                   else
                     bind_res (inflate_capped z (drop (body_start + n) (pk_data p)) (unat sz)) (\<lambda>d.
                       chain_loop z p locate ext (deltas @ [d]) (insert cur visited) (cur - unat rel)))
               else
                 let id_len = raw_len (pk_algo p)
                 in if length (pk_data p) < body_start + id_len then
                      Err (error.Pack ''pack: truncated ref-delta base id'')
                    else
                      bind_res (from_bytes (pk_algo p) (take id_len (drop body_start (pk_data p)))) (\<lambda>base_id.
                      bind_res (inflate_capped z (drop (body_start + id_len) (pk_data p)) (unat sz)) (\<lambda>d.
                        case locate base_id of
                          Some base_offset \<Rightarrow>
                            chain_loop z p locate ext (deltas @ [d]) (insert cur visited) base_offset
                        | None \<Rightarrow> bind_res (ext base_id) (\<lambda>base. Ok (base, deltas @ [d]))))))"
  by pat_completeness auto
termination
  by (relation "measure (\<lambda>(z, p, l, e, ds, v, c). MAX_DELTA_CHAIN_DEPTH + 1 - length ds)") auto

declare chain_loop.simps [simp del]

fun apply_deltas :: "bytes \<Rightarrow> bytes list \<Rightarrow> bytes result" where
  "apply_deltas d [] = Ok d"
| "apply_deltas d (delta # ds) = bind_res (apply_delta d delta) (\<lambda>d'. apply_deltas d' ds)"

definition read_at_with :: "'d zlib \<Rightarrow> pack \<Rightarrow> nat \<Rightarrow> (object_id \<Rightarrow> nat option) \<Rightarrow> reader
    \<Rightarrow> (object_type \<times> bytes) result" where
  "read_at_with z p offset locate ext =
     bind_res (chain_loop z p locate ext [] {} offset) (\<lambda>((base_ty, d), deltas).
     bind_res (apply_deltas d (rev deltas)) (\<lambda>d'. Ok (base_ty, d')))"

definition read_at :: "'d zlib \<Rightarrow> pack \<Rightarrow> nat \<Rightarrow> reader \<Rightarrow> (object_type \<times> bytes) result" where
  "read_at z p offset ext = read_at_with z p offset (\<lambda>_. None) ext"

section \<open>Decoding a whole pack\<close>

type_synonym exploded_object = "object_id \<times> object_type \<times> bytes"

text \<open>One round of the loop of \<open>explode_pack_prefix\<close>: the object and the next offset.\<close>

definition explode_entry :: "'d zlib \<Rightarrow> hash_algo \<Rightarrow> reader \<Rightarrow> bytes
    \<Rightarrow> (nat \<rightharpoonup> object_type \<times> bytes) \<Rightarrow> (object_id \<rightharpoonup> object_type \<times> bytes) \<Rightarrow> nat
    \<Rightarrow> (object_type \<times> bytes \<times> nat) result" where
  "explode_entry z a ext data by_offset by_id offset =
     bind_res (parse_entry_header_at data offset) (\<lambda>(ptype, sz, hdr_len).
     let body = offset + hdr_len
     in case as_object_type ptype of
          Some ty \<Rightarrow>
            bind_res (inflate_exact z (drop body data) (unat sz)) (\<lambda>(content, clen).
              Ok (ty, content, body + clen))
        | None \<Rightarrow>
            if ptype = OfsDelta then
              bind_res (read_offset_varint data body) (\<lambda>(rel, n).
                if offset < unat rel then Err (error.Pack ''pack: ofs-delta base before pack start'')
                else
                  bind_res (inflate_exact z (drop (body + n) data) (unat sz)) (\<lambda>(delta, clen).
                  bind_res (ok_or (by_offset (offset - unat rel))
                      (error.Pack ''pack: ofs-delta base not yet seen'')) (\<lambda>(base_ty, base).
                  bind_res (apply_delta base delta) (\<lambda>target.
                    Ok (base_ty, target, body + n + clen)))))
            else
              let id_len = raw_len a
              in if length data < body + id_len then Err (error.Pack ''pack: truncated ref-delta base id'')
                 else
                   bind_res (from_bytes a (take id_len (drop body data))) (\<lambda>base_id.
                   bind_res (inflate_exact z (drop (body + id_len) data) (unat sz)) (\<lambda>(delta, clen).
                   bind_res (case by_id base_id of Some b \<Rightarrow> Ok b | None \<Rightarrow> ext base_id) (\<lambda>(base_ty, base).
                   bind_res (apply_delta base delta) (\<lambda>target.
                     Ok (base_ty, target, body + id_len + clen))))))"

record explode_state =
  ex_by_offset :: "nat \<rightharpoonup> object_type \<times> bytes"
  ex_by_id :: "object_id \<rightharpoonup> object_type \<times> bytes"
  ex_results :: "exploded_object list"
  ex_offset :: nat

definition explode_step :: "'d zlib \<Rightarrow> digest \<Rightarrow> hash_algo \<Rightarrow> reader \<Rightarrow> bytes \<Rightarrow> explode_state
    \<Rightarrow> explode_state result" where
  "explode_step z dg a ext data st =
     bind_res (explode_entry z a ext data (ex_by_offset st) (ex_by_id st) (ex_offset st))
       (\<lambda>(ty, content, next_offset).
       let i = hash_object dg a ty content
       in Ok \<lparr>ex_by_offset = (ex_by_offset st)(ex_offset st \<mapsto> (ty, content)),
              ex_by_id = (ex_by_id st)(i \<mapsto> (ty, content)),
              ex_results = ex_results st @ [(i, ty, content)],
              ex_offset = next_offset\<rparr>)"

fun explode_loop :: "nat \<Rightarrow> 'd zlib \<Rightarrow> digest \<Rightarrow> hash_algo \<Rightarrow> reader \<Rightarrow> bytes \<Rightarrow> explode_state
    \<Rightarrow> explode_state result" where
  "explode_loop 0 z dg a ext data st = Ok st"
| "explode_loop (Suc n) z dg a ext data st =
     bind_res (explode_step z dg a ext data st) (\<lambda>st'. explode_loop n z dg a ext data st')"

definition explode_pack_prefix :: "'d zlib \<Rightarrow> digest \<Rightarrow> bytes \<Rightarrow> hash_algo \<Rightarrow> reader
    \<Rightarrow> (exploded_object list \<times> nat) result" where
  "explode_pack_prefix z dg data a ext =
     (if length data < 12 \<or> take 4 data \<noteq> PACK_SIGNATURE then Err (error.Pack ''pack: bad signature'')
      else
        let count = be32 (drop 8 data)
        in bind_res (explode_loop (unat count) z dg a ext data
                \<lparr>ex_by_offset = Map.empty, ex_by_id = Map.empty, ex_results = [], ex_offset = 12\<rparr>) (\<lambda>st.
           let consumed = ex_offset st + raw_len a
           in if length data < consumed then Err (error.Pack ''pack: truncated trailing checksum'')
              else Ok (ex_results st, consumed)))"

definition explode_pack :: "'d zlib \<Rightarrow> digest \<Rightarrow> bytes \<Rightarrow> hash_algo \<Rightarrow> reader \<Rightarrow> exploded_object list result" where
  "explode_pack z dg data a ext =
     bind_res (explode_pack_prefix z dg data a ext) (\<lambda>(objects, consumed). Ok objects)"

definition pack_frame_end :: "'d zlib \<Rightarrow> bytes \<Rightarrow> nat \<Rightarrow> hash_algo \<Rightarrow> nat result" where
  "pack_frame_end z data offset a =
     bind_res (parse_entry_header_at data offset) (\<lambda>(ptype, sz, hdr_len).
     let body = offset + hdr_len
     in bind_res
          (case ptype of
             OfsDelta \<Rightarrow>
               bind_res (read_offset_varint data body) (\<lambda>(rel, n).
               bind_res (inflate_exact z (drop (body + n) data) (unat sz)) (\<lambda>(delta, clen).
                 Ok (hdr_len + n + clen)))
           | RefDelta \<Rightarrow>
               let id_len = raw_len a
               in if length data < body + id_len then Err (error.Pack ''pack: truncated ref-delta base id'')
                  else bind_res (inflate_exact z (drop (body + id_len) data) (unat sz)) (\<lambda>(delta, clen).
                         Ok (hdr_len + id_len + clen))
           | _ \<Rightarrow>
               bind_res (inflate_exact z (drop body data) (unat sz)) (\<lambda>(content, clen).
                 Ok (hdr_len + clen)))
          (\<lambda>consumed. Ok (offset + consumed)))"

record pack_verification =
  pv_objects :: nat
  pv_problems :: "string list"

definition verify_pack :: "'d zlib \<Rightarrow> digest \<Rightarrow> bytes \<Rightarrow> bytes \<Rightarrow> hash_algo \<Rightarrow> reader \<Rightarrow> pack_verification result" where
  "verify_pack z dg pack_bytes idx a ext =
     bind_res (index_parse a idx) (\<lambda>index.
     bind_res (explode_pack z dg pack_bytes a ext) (\<lambda>objects.
       Ok \<lparr>pv_objects = length objects,
           pv_problems =
             map (\<lambda>_. ''object {id} decoded from the pack is absent from the index (corrupt or wrong idx)'')
               (filter (\<lambda>(i, _, _). \<not> index_contains index i) objects)
             @ (if length objects \<noteq> ix_count index
                then [''pack contains {} object(s) but the index lists {}''] else [])\<rparr>))"

definition pv_is_ok :: "pack_verification \<Rightarrow> bool" where
  "pv_is_ok v \<longleftrightarrow> pv_problems v = []"

section \<open>Writing a pack\<close>

record pack_entry =
  e_id :: object_id
  e_ty :: object_type
  e_payload :: bytes

record pack_writer =
  pw_algo :: hash_algo
  pw_entries :: "pack_entry list"
  pw_external_bases :: "pack_entry list"

definition pack_writer_new :: "hash_algo \<Rightarrow> pack_writer" where
  "pack_writer_new a = \<lparr>pw_algo = a, pw_entries = [], pw_external_bases = []\<rparr>"

definition pw_add :: "digest \<Rightarrow> pack_writer \<Rightarrow> object_type \<Rightarrow> bytes \<Rightarrow> object_id \<times> pack_writer" where
  "pw_add dg w ty pl =
     (let i = hash_object dg (pw_algo w) ty pl
      in (i, if list_ex (\<lambda>e. e_id e = i) (pw_entries w) then w
             else w\<lparr>pw_entries := pw_entries w @ [\<lparr>e_id = i, e_ty = ty, e_payload = pl\<rparr>]\<rparr>))"

definition pw_add_external_base :: "digest \<Rightarrow> pack_writer \<Rightarrow> object_type \<Rightarrow> bytes \<Rightarrow> object_id \<times> pack_writer" where
  "pw_add_external_base dg w ty pl =
     (let i = hash_object dg (pw_algo w) ty pl
      in (i, if list_ex (\<lambda>e. e_id e = i) (pw_external_bases w) then w
             else w\<lparr>pw_external_bases := pw_external_bases w @ [\<lparr>e_id = i, e_ty = ty, e_payload = pl\<rparr>]\<rparr>))"

definition EXTERNAL_BASE_WINDOW :: nat where
  "EXTERNAL_BASE_WINDOW = 16"

definition MAX_DELTA_SIZE :: nat where
  "MAX_DELTA_SIZE = 2 ^ 20"

definition DELTA_WINDOW :: nat where
  "DELTA_WINDOW = 10"

record base_cand =
  bc_ty :: object_type
  bc_offset :: nat
  bc_idx :: nat

text \<open>The best delta so far: the compressed delta, the prefix bytes, the delta's length, the tag.\<close>

type_synonym best_delta = "(bytes \<times> bytes \<times> nat \<times> byte) option"

definition better :: "bytes \<Rightarrow> bytes \<Rightarrow> bytes \<Rightarrow> best_delta \<Rightarrow> bool" where
  "better raw zd pfx cur \<longleftrightarrow>
     length zd + length pfx < length raw
     \<and> (case cur of None \<Rightarrow> True
        | Some (bz, bp, _, _) \<Rightarrow> length zd + length pfx < length bz + length bp)"

fun ofs_candidates :: "'d zlib \<Rightarrow> pack_entry list \<Rightarrow> bytes \<Rightarrow> bytes \<Rightarrow> nat \<Rightarrow> base_cand list \<Rightarrow> best_delta
    \<Rightarrow> best_delta result" where
  "ofs_candidates z entries raw pl offset [] best = Ok best"
| "ofs_candidates z entries raw pl offset (cand # cs) best =
     (let base = e_payload (entries ! bc_idx cand)
      in if MAX_DELTA_SIZE < length base then ofs_candidates z entries raw pl offset cs best
         else
           let delta = create_delta base pl
           in bind_res (deflate z delta) (\<lambda>zdelta.
              let ofs = encode_ofs (offset - bc_offset cand)
              in ofs_candidates z entries raw pl offset cs
                   (if better raw zdelta ofs best then Some (zdelta, ofs, length delta, OFS_DELTA_TAG) else best)))"

fun ref_candidates :: "'d zlib \<Rightarrow> nat \<Rightarrow> bytes \<Rightarrow> bytes \<Rightarrow> pack_entry list \<Rightarrow> best_delta \<Rightarrow> best_delta result" where
  "ref_candidates z id_len raw pl [] best = Ok best"
| "ref_candidates z id_len raw pl (base # bs) best =
     (let delta = create_delta (e_payload base) pl
      in bind_res (deflate z delta) (\<lambda>zdelta.
         let id_bytes = take id_len (as_bytes (e_id base))
         in ref_candidates z id_len raw pl bs
              (if better raw zdelta id_bytes best then Some (zdelta, id_bytes, length delta, REF_DELTA_TAG) else best)))"

definition choose_delta :: "'d zlib \<Rightarrow> pack_writer \<Rightarrow> pack_entry \<Rightarrow> bytes \<Rightarrow> nat \<Rightarrow> base_cand list \<Rightarrow> best_delta result" where
  "choose_delta z w e raw offset bases =
     (if length (e_payload e) \<le> MAX_DELTA_SIZE then
        bind_res (ofs_candidates z (pw_entries w) raw (e_payload e) offset
            (take DELTA_WINDOW (filter (\<lambda>c. bc_ty c = e_ty e) (rev bases))) None) (\<lambda>best.
        ref_candidates z (raw_len (pw_algo w)) raw (e_payload e)
            (take EXTERNAL_BASE_WINDOW
              (filter (\<lambda>b. e_ty b = e_ty e \<and> length (e_payload b) \<le> MAX_DELTA_SIZE) (pw_external_bases w))) best)
      else Ok None)"

fun crc32_bits :: "nat \<Rightarrow> 32 word \<Rightarrow> 32 word" where
  "crc32_bits 0 crc = crc"
| "crc32_bits (Suc n) crc =
     (let mask = - (crc AND 1) in crc32_bits n (drop_bit 1 crc XOR (0xedb88320 AND mask)))"

definition crc32 :: "bytes \<Rightarrow> 32 word" where
  "crc32 data = NOT (foldl (\<lambda>crc c. crc32_bits 8 (crc XOR ucast c)) 0xffffffff data)"

record write_state =
  ws_pack :: bytes
  ws_meta :: "meta list"
  ws_bases :: "base_cand list"

definition write_entry :: "'d zlib \<Rightarrow> pack_writer \<Rightarrow> write_state \<Rightarrow> nat \<Rightarrow> pack_entry \<Rightarrow> write_state result" where
  "write_entry z w st k e =
     (let offset = length (ws_pack st)
      in bind_res (deflate z (e_payload e)) (\<lambda>raw.
         bind_res (choose_delta z w e raw offset (ws_bases st)) (\<lambda>best.
         let (bytes, bases) =
               (case best of
                  Some (zdelta, prefix, delta_len, tag) \<Rightarrow>
                    (write_entry_header tag delta_len @ prefix @ zdelta, ws_bases st)
                | None \<Rightarrow>
                    (write_entry_header (pack_tag (e_ty e)) (length (e_payload e)) @ raw,
                     ws_bases st @ [\<lparr>bc_ty = e_ty e, bc_offset = offset, bc_idx = k\<rparr>]))
         in Ok \<lparr>ws_pack = ws_pack st @ bytes,
                ws_meta = ws_meta st @ [(e_id e, offset, crc32 bytes)],
                ws_bases = bases\<rparr>)))"

fun write_entries :: "'d zlib \<Rightarrow> pack_writer \<Rightarrow> write_state \<Rightarrow> nat \<Rightarrow> pack_entry list \<Rightarrow> write_state result" where
  "write_entries z w st k [] = Ok st"
| "write_entries z w st k (e # es) =
     bind_res (write_entry z w st k e) (\<lambda>st'. write_entries z w st' (k + 1) es)"

record pack_output =
  po_pack :: bytes
  po_idx :: bytes
  po_hash :: object_id

definition pack_header :: "nat \<Rightarrow> bytes" where
  "pack_header n = PACK_SIGNATURE @ be_bytes (2 :: 32 word) @ be_bytes (of_nat n :: 32 word)"

text \<open>The \<open>expect\<close> on \<open>from_bytes\<close> cannot fire under \<open>digest_ok\<close>.\<close>

definition pw_finish :: "'d zlib \<Rightarrow> digest \<Rightarrow> pack_writer \<Rightarrow> pack_output result" where
  "pw_finish z dg w =
     bind_res (write_entries z w \<lparr>ws_pack = pack_header (length (pw_entries w)), ws_meta = [], ws_bases = []\<rparr>
         0 (pw_entries w)) (\<lambda>st.
     let pack_hash = hash_bytes dg (pw_algo w) (ws_pack st)
     in bind_res (from_bytes (pw_algo w) pack_hash) (\<lambda>h.
          Ok \<lparr>po_pack = ws_pack st @ pack_hash,
              po_idx = build_index dg (pw_algo w) (ws_meta st) pack_hash,
              po_hash = h\<rparr>))"

section \<open>What the writer leaves behind\<close>

text \<open>
  The layouts that \<open>finish\<close> can produce, as a relation between the bytes so far and the
  entries in them (offset, entry, whether it is stored in full): an entry is stored in full, or
  as a delta against an earlier full entry, or against an external base.
\<close>

definition small :: "pack_entry \<Rightarrow> bool" where
  "small e \<longleftrightarrow> length (e_payload e) \<le> MAX_DELTA_SIZE"

inductive written :: "'d zlib \<Rightarrow> bytes \<Rightarrow> pack_entry list \<Rightarrow> bytes \<Rightarrow> (nat \<times> pack_entry \<times> bool) list \<Rightarrow> bool"
  for z :: "'d zlib" and hdr :: bytes and exts :: "pack_entry list" where
  written_nil: "written z hdr exts hdr []"
| written_full:
    "written z hdr exts pk L \<Longrightarrow> deflate z (e_payload e) = Ok raw \<Longrightarrow>
     written z hdr exts (pk @ write_entry_header (pack_tag (e_ty e)) (length (e_payload e)) @ raw)
       (L @ [(length pk, e, True)])"
| written_ofs:
    "written z hdr exts pk L \<Longrightarrow> (off, b, True) \<in> set L \<Longrightarrow> e_ty b = e_ty e \<Longrightarrow> small b \<Longrightarrow> small e \<Longrightarrow>
     deflate z (create_delta (e_payload b) (e_payload e)) = Ok zd \<Longrightarrow>
     written z hdr exts
       (pk @ write_entry_header OFS_DELTA_TAG (length (create_delta (e_payload b) (e_payload e)))
           @ encode_ofs (length pk - off) @ zd)
       (L @ [(length pk, e, False)])"
| written_ref:
    "written z hdr exts pk L \<Longrightarrow> b \<in> set exts \<Longrightarrow> e_ty b = e_ty e \<Longrightarrow> small b \<Longrightarrow> small e \<Longrightarrow>
     deflate z (create_delta (e_payload b) (e_payload e)) = Ok zd \<Longrightarrow>
     written z hdr exts
       (pk @ write_entry_header REF_DELTA_TAG (length (create_delta (e_payload b) (e_payload e)))
           @ as_bytes (e_id b) @ zd)
       (L @ [(length pk, e, False)])"

section \<open>Lemmas\<close>

subsection \<open>Reading one entry\<close>

lemma small_delta:
  assumes "small b" and "small e"
  shows "apply_delta (e_payload b) (create_delta (e_payload b) (e_payload e)) = Ok (e_payload e)"
    "length (create_delta (e_payload b) (e_payload e)) < 2 ^ 64"
proof -
  have l: "length (e_payload b) \<le> 2 ^ 20" "length (e_payload e) \<le> 2 ^ 20"
    using assms by (simp_all add: small_def MAX_DELTA_SIZE_def)
  show "apply_delta (e_payload b) (create_delta (e_payload b) (e_payload e)) = Ok (e_payload e)"
    by (rule apply_create_delta) (use l in \<open>simp_all add: MAX_DELTA_TARGET_SIZE_def\<close>)
  show "length (create_delta (e_payload b) (e_payload e)) < 2 ^ 64"
    using length_create_delta [of "e_payload b" "e_payload e"] l by simp
qed

lemma unat_of_nat64: "n < 2 ^ 64 \<Longrightarrow> unat (of_nat n :: 64 word) = n"
  by (simp add: unat_of_nat)

lemma inflate_deflated:
  assumes "zlib_ok z" and "deflate z d = Ok c"
  shows "inflate_capped z (c @ rest) (length d) = Ok d"
    "inflate_exact z (c @ rest) (length d) = Ok (d, length c)"
  using zlib_okD [OF assms(1), of d] assms(2) by (metis order_refl result.inject(1))+

lemma as_object_type_tag [simp]:
  "as_object_type (case ty of Commit \<Rightarrow> PCommit | Tree \<Rightarrow> PTree | Blob \<Rightarrow> PBlob | Tag \<Rightarrow> PTag) = Some ty"
  by (cases ty) simp_all

text \<open>The bytes before an entry do not matter to what is read at its offset.\<close>

lemma drop_pre: "drop (length pre + n) (pre @ d) = drop n d"
  by simp

lemmas entry_simps = parse_write_header [where tag = "pack_tag _", OF from_tag_simps(1)]
  parse_write_header [OF from_tag_simps(2)] parse_write_header [OF from_tag_simps(3)]

lemma explode_full:
  assumes "zlib_ok z" and "deflate z (e_payload e) = Ok raw" and "length (e_payload e) < 2 ^ 64"
  shows "explode_entry z a ext (pk @ (write_entry_header (pack_tag (e_ty e)) (length (e_payload e)) @ raw) @ rest)
      bo bi (length pk) =
    Ok (e_ty e, e_payload e,
        length (pk @ write_entry_header (pack_tag (e_ty e)) (length (e_payload e)) @ raw))"
  using assms inflate_deflated [OF assms(1,2), of rest]
  by (simp add: explode_entry_def entry_simps unat_of_nat64 drop_pre)

lemma explode_ofs:
  assumes "zlib_ok z" and "deflate z delta = Ok zd" and "delta = create_delta (e_payload b) (e_payload e)"
    and "small b" and "small e" and "off < length pk" and "length pk < 2 ^ 64"
    and "bo off = Some (e_ty b, e_payload b)" and "e_ty b = e_ty e"
  shows "explode_entry z a ext (pk @ (write_entry_header OFS_DELTA_TAG (length delta)
        @ encode_ofs (length pk - off) @ zd) @ rest) bo bi (length pk) =
    Ok (e_ty e, e_payload e,
        length (pk @ write_entry_header OFS_DELTA_TAG (length delta) @ encode_ofs (length pk - off) @ zd))"
proof -
  let ?h = "write_entry_header OFS_DELTA_TAG (length delta)"
  define r where "r = (of_nat (length pk - off) :: 64 word)"
  have ofs: "read_offset_varint (pk @ ?h @ encode_ofs (length pk - off) @ zd @ rest) (length pk + length ?h) =
      Ok (r, length (encode_ofs (length pk - off)))"
    using read_encode_ofs [of "length pk - off" "pk @ ?h" "zd @ rest"] assms(7) by (simp add: r_def)
  have "unat r = length pk - off" unfolding r_def using assms(7) by (intro unat_of_nat64) simp
  with assms small_delta [OF assms(4,5)] inflate_deflated [OF assms(1,2), of rest] ofs
  show ?thesis
    by (simp add: explode_entry_def entry_simps unat_of_nat64 drop_pre ok_or_def Let_def)
qed

lemma explode_ref:
  assumes "zlib_ok z" and "deflate z delta = Ok zd" and "delta = create_delta (e_payload b) (e_payload e)"
    and "small b" and "small e" and "e_ty b = e_ty e"
    and "wf_oid (e_id b)" and "oid_algo (e_id b) = a"
    and "(case bi (e_id b) of Some x \<Rightarrow> Ok x | None \<Rightarrow> ext (e_id b)) = Ok (e_ty b, e_payload b)"
  shows "explode_entry z a ext (pk @ (write_entry_header REF_DELTA_TAG (length delta)
        @ as_bytes (e_id b) @ zd) @ rest) bo bi (length pk) =
    Ok (e_ty e, e_payload e,
        length (pk @ write_entry_header REF_DELTA_TAG (length delta) @ as_bytes (e_id b) @ zd))"
proof -
  have "length (as_bytes (e_id b)) = raw_len a" "from_bytes a (as_bytes (e_id b)) = Ok (e_id b)"
    using assms(7,8) by (simp_all add: wf_oid_def from_bytes_def object_id.expand)
  with assms small_delta [OF assms(4,5)] inflate_deflated [OF assms(1,2), of rest]
  show ?thesis
    by (simp add: explode_entry_def entry_simps unat_of_nat64 drop_pre)
qed

lemma write_entry_header_nonempty: "0 < length (write_entry_header tag n)"
  by (simp add: write_entry_header_def Let_def)

lemma written_bounds:
  "written z hdr exts pk L \<Longrightarrow>
     length hdr \<le> length pk \<and> (\<forall>(off, e, f)\<in>set L. length hdr \<le> off \<and> off < length pk)"
proof (induction rule: written.induct)
  case (written_full pk L e raw)
  then show ?case using write_entry_header_nonempty [of "pack_tag (e_ty e)"] by fastforce
next
  case (written_ofs pk L off b e zd)
  then show ?case using write_entry_header_nonempty [of OFS_DELTA_TAG] by fastforce
next
  case (written_ref pk L b e zd)
  then show ?case using write_entry_header_nonempty [of REF_DELTA_TAG] by fastforce
qed simp

lemma written_distinct: "written z hdr exts pk L \<Longrightarrow> distinct (map fst L)"
proof (induction rule: written.induct)
  case (written_full pk L e raw)
  then show ?case using written_bounds by fastforce
next
  case (written_ofs pk L off b e zd)
  then show ?case using written_bounds by fastforce
next
  case (written_ref pk L b e zd)
  then show ?case using written_bounds by fastforce
qed simp

subsection \<open>Decoding a written pack\<close>

text \<open>
  What the readers need to know of the writer's data: ids are hashes, the resolver has the
  external bases, and an external base that is also an entry is the same object.
\<close>

definition entry_ok :: "digest \<Rightarrow> hash_algo \<Rightarrow> pack_entry \<Rightarrow> bool" where
  "entry_ok dg a e \<longleftrightarrow>
     e_id e = hash_object dg a (e_ty e) (e_payload e) \<and> length (e_payload e) < 2 ^ 64"

definition bases_ok :: "digest \<Rightarrow> hash_algo \<Rightarrow> reader \<Rightarrow> pack_entry list \<Rightarrow> pack_entry list \<Rightarrow> bool" where
  "bases_ok dg a ext exts entries \<longleftrightarrow>
     (\<forall>b\<in>set exts. entry_ok dg a b \<and> ext (e_id b) = Ok (e_ty b, e_payload b)
        \<and> (\<forall>e\<in>set entries. e_id e = e_id b \<longrightarrow> e_ty e = e_ty b \<and> e_payload e = e_payload b))"

lemma entry_ok_oid: "digest_ok dg \<Longrightarrow> entry_ok dg a e \<Longrightarrow> wf_oid (e_id e) \<and> oid_algo (e_id e) = a"
  by (simp add: entry_ok_def hash_object_def wf_oid_def digest_ok_def)

lemma explode_loop_snoc:
  "explode_loop (Suc n) z dg a ext data st =
     bind_res (explode_loop n z dg a ext data st) (explode_step z dg a ext data)"
proof (induction n arbitrary: st)
  case 0
  then show ?case by (cases "explode_step z dg a ext data st") simp_all
next
  case (Suc n)
  show ?case
  proof (cases "explode_step z dg a ext data st")
    case (Ok s)
    then have *: "explode_loop (Suc m) z dg a ext data st = explode_loop m z dg a ext data s" for m
      by (simp only: explode_loop.simps(2) bind_res_Ok bind_res_Err)
    show ?thesis unfolding * [of "Suc n"] * [of n] by (rule Suc)
  next
    case (Err e)
    then have "explode_loop (Suc m) z dg a ext data st = Err e" for m
      by (simp only: explode_loop.simps(2) bind_res_Ok bind_res_Err)
    then show ?thesis by (simp only: bind_res_Ok bind_res_Err)
  qed
qed

definition exploded :: "nat \<times> pack_entry \<times> bool \<Rightarrow> exploded_object" where
  "exploded = (\<lambda>(off, e, f). (e_id e, e_ty e, e_payload e))"

definition explode_inv :: "bytes \<Rightarrow> (nat \<times> pack_entry \<times> bool) list \<Rightarrow> explode_state \<Rightarrow> bool" where
  "explode_inv pk L st \<longleftrightarrow>
     ex_offset st = length pk \<and> ex_results st = map exploded L
     \<and> (\<forall>(off, e, f)\<in>set L. ex_by_offset st off = Some (e_ty e, e_payload e))
     \<and> (\<forall>i x. ex_by_id st i = Some x \<longrightarrow>
          (\<exists>(off, e, f)\<in>set L. e_id e = i \<and> x = (e_ty e, e_payload e)))"

lemma explode_step_inv:
  assumes "explode_inv pk L st" and "\<forall>(off, e, f)\<in>set L. off < length pk" and "entry_ok dg a e"
    and "explode_entry z a ext data (ex_by_offset st) (ex_by_id st) (length pk) =
           Ok (e_ty e, e_payload e, length (pk @ enc))"
  shows "\<exists>st'. explode_step z dg a ext data st = Ok st' \<and> explode_inv (pk @ enc) (L @ [(length pk, e, f)]) st'"
proof -
  from assms(1) have off: "ex_offset st = length pk" by (simp add: explode_inv_def)
  show ?thesis
    unfolding explode_step_def off assms(4)
    using assms(1-3) by (fastforce simp: explode_inv_def exploded_def entry_ok_def Let_def)
qed

abbreviation explode_start :: explode_state where
  "explode_start \<equiv> \<lparr>ex_by_offset = Map.empty, ex_by_id = Map.empty, ex_results = [], ex_offset = 12\<rparr>"

lemma explode_written_snoc:
  assumes "\<exists>st. explode_loop (length L) z dg a ext (pk @ enc @ rest) explode_start = Ok st \<and> explode_inv pk L st"
    and "\<And>st. explode_inv pk L st \<Longrightarrow>
      explode_entry z a ext (pk @ enc @ rest) (ex_by_offset st) (ex_by_id st) (length pk) =
        Ok (e_ty e, e_payload e, length (pk @ enc))"
    and "\<forall>(off, e, f)\<in>set L. off < length pk" and "entry_ok dg a e"
  shows "\<exists>st. explode_loop (length (L @ [(length pk, e, f)])) z dg a ext ((pk @ enc) @ rest) explode_start = Ok st
    \<and> explode_inv (pk @ enc) (L @ [(length pk, e, f)]) st"
proof -
  from assms(1) obtain st where st: "explode_loop (length L) z dg a ext (pk @ enc @ rest) explode_start = Ok st"
    "explode_inv pk L st" by blast
  have "length (L @ [(length pk, e, f)]) = Suc (length L)" by simp
  then show ?thesis
    using explode_step_inv [OF st(2) assms(3,4) assms(2) [OF st(2)], of f] st(1)
    by (simp only: explode_loop_snoc append_assoc bind_res_Ok bind_res_Err)
qed

lemma bases_ok_butlast:
  "bases_ok dg a ext exts (es @ [e]) \<Longrightarrow> bases_ok dg a ext exts es"
  by (simp add: bases_ok_def)

lemma explode_written:
  assumes "written z hdr exts pk L" and "zlib_ok z" and "digest_ok dg" and "length hdr = 12"
    and "length pk < 2 ^ 64"
    and "\<forall>(off, e, f)\<in>set L. entry_ok dg a e"
    and "bases_ok dg a ext exts (map (fst \<circ> snd) L)"
  shows "\<exists>st. explode_loop (length L) z dg a ext (pk @ rest) explode_start = Ok st \<and> explode_inv pk L st"
  using assms(1,5-)
proof (induction arbitrary: rest rule: written.induct)
  case written_nil
  then show ?case using assms(4) by (simp add: explode_inv_def)
next
  case (written_full pk L e raw)
  have e: "entry_ok dg a e" using written_full.prems by simp
  show ?case
  proof (rule explode_written_snoc [OF written_full.IH _ _ e])
    fix st assume "explode_inv pk L st"
    show "explode_entry z a ext (pk @ (write_entry_header (pack_tag (e_ty e)) (length (e_payload e)) @ raw) @ rest)
        (ex_by_offset st) (ex_by_id st) (length pk) = Ok (e_ty e, e_payload e,
          length (pk @ write_entry_header (pack_tag (e_ty e)) (length (e_payload e)) @ raw))"
      by (rule explode_full) (use assms(2) written_full.hyps e in \<open>simp_all add: entry_ok_def\<close>)
  qed (use written_full.prems written_bounds [OF written_full.hyps(1)] in \<open>auto dest: bases_ok_butlast\<close>)
next
  case (written_ofs pk L off b e zd)
  have e: "entry_ok dg a e" using written_ofs.prems by simp
  show ?case
  proof (rule explode_written_snoc [OF written_ofs.IH _ _ e])
    fix st assume "explode_inv pk L st"
    then show "explode_entry z a ext (pk @ (write_entry_header OFS_DELTA_TAG
          (length (create_delta (e_payload b) (e_payload e))) @ encode_ofs (length pk - off) @ zd) @ rest)
        (ex_by_offset st) (ex_by_id st) (length pk) = Ok (e_ty e, e_payload e,
          length (pk @ write_entry_header OFS_DELTA_TAG (length (create_delta (e_payload b) (e_payload e)))
            @ encode_ofs (length pk - off) @ zd))"
      by (intro explode_ofs [OF assms(2) _ refl, where b = b])
        (use written_ofs.hyps written_ofs.prems(1) written_bounds [OF written_ofs.hyps(1)] in \<open>auto simp: explode_inv_def\<close>)
  qed (use written_ofs.prems written_bounds [OF written_ofs.hyps(1)] in \<open>auto dest: bases_ok_butlast\<close>)
next
  case (written_ref pk L b e zd)
  have e: "entry_ok dg a e" using written_ref.prems by simp
  have bok: "bases_ok dg a ext exts (map (fst \<circ> snd) L)"
    using written_ref.prems(3) by (auto simp: comp_def dest: bases_ok_butlast)
  then have "entry_ok dg a b" using written_ref.hyps(2) by (simp add: bases_ok_def)
  note b = entry_ok_oid [OF assms(3) this]
  show ?case
  proof (rule explode_written_snoc [OF written_ref.IH _ _ e])
    fix st assume "explode_inv pk L st"
    with bok have "(case ex_by_id st (e_id b) of Some x \<Rightarrow> Ok x | None \<Rightarrow> ext (e_id b)) = Ok (e_ty b, e_payload b)"
      using written_ref.hyps(2) by (force simp: explode_inv_def bases_ok_def split: option.split)
    then show "explode_entry z a ext (pk @ (write_entry_header REF_DELTA_TAG
          (length (create_delta (e_payload b) (e_payload e))) @ as_bytes (e_id b) @ zd) @ rest)
        (ex_by_offset st) (ex_by_id st) (length pk) = Ok (e_ty e, e_payload e,
          length (pk @ write_entry_header REF_DELTA_TAG (length (create_delta (e_payload b) (e_payload e)))
            @ as_bytes (e_id b) @ zd))"
      by (intro explode_ref [OF assms(2) _ refl]) (use written_ref.hyps b in simp_all)
  qed (use written_ref.prems bok written_bounds [OF written_ref.hyps(1)] in \<open>auto simp: comp_def\<close>)
qed

subsection \<open>Random access to a written pack\<close>

text \<open>A pack in memory with its header fields.\<close>

abbreviation opened :: "hash_algo \<Rightarrow> 32 word \<Rightarrow> bytes \<Rightarrow> pack" where
  "opened a c data \<equiv> \<lparr>pk_data = data, pk_algo = a, pk_object_count = c\<rparr>"

lemma chain_full:
  assumes "zlib_ok z" and "deflate z (e_payload e) = Ok raw" and "length (e_payload e) < 2 ^ 64"
    and "length deltas \<le> MAX_DELTA_CHAIN_DEPTH" and "length pk \<notin> visited"
  shows "chain_loop z (opened a c (pk @ (write_entry_header (pack_tag (e_ty e)) (length (e_payload e)) @ raw) @ rest))
      locate ext deltas visited (length pk) = Ok ((e_ty e, e_payload e), deltas)"
  using assms inflate_deflated [OF assms(1,2), of rest]
  by (subst chain_loop.simps) (simp add: entry_simps unat_of_nat64 drop_pre Let_def)

lemma chain_ofs:
  assumes "zlib_ok z" and "deflate z delta = Ok zd" and "length delta < 2 ^ 64"
    and "off < length pk" and "length pk < 2 ^ 64"
  shows "chain_loop z (opened a c (pk @ (write_entry_header OFS_DELTA_TAG (length delta)
        @ encode_ofs (length pk - off) @ zd) @ rest)) locate ext [] {} (length pk) =
    chain_loop z (opened a c (pk @ (write_entry_header OFS_DELTA_TAG (length delta)
        @ encode_ofs (length pk - off) @ zd) @ rest)) locate ext [delta] {length pk} off"
proof -
  let ?h = "write_entry_header OFS_DELTA_TAG (length delta)"
  define r where "r = (of_nat (length pk - off) :: 64 word)"
  have ofs: "read_offset_varint (pk @ ?h @ encode_ofs (length pk - off) @ zd @ rest) (length pk + length ?h) =
      Ok (r, length (encode_ofs (length pk - off)))"
    using read_encode_ofs [of "length pk - off" "pk @ ?h" "zd @ rest"] assms(5) by (simp add: r_def)
  have r: "unat r = length pk - off" unfolding r_def using assms(5) by (intro unat_of_nat64) simp
  with assms(4) have "r \<noteq> 0" by auto
  with assms r inflate_deflated [OF assms(1,2), of rest] ofs
  show ?thesis
    by (subst (1) chain_loop.simps) (auto simp: entry_simps unat_of_nat64 drop_pre Let_def MAX_DELTA_CHAIN_DEPTH_def)
qed

lemma chain_ref:
  assumes "zlib_ok z" and "deflate z delta = Ok zd" and "length delta < 2 ^ 64"
    and "wf_oid i" and "oid_algo i = a" and "locate i = None" and "ext i = Ok base"
  shows "chain_loop z (opened a c (pk @ (write_entry_header REF_DELTA_TAG (length delta)
        @ as_bytes i @ zd) @ rest)) locate ext [] {} (length pk) = Ok (base, [delta])"
proof -
  have "length (as_bytes i) = raw_len a" "from_bytes a (as_bytes i) = Ok i"
    using assms(4,5) by (simp_all add: wf_oid_def from_bytes_def object_id.expand)
  with assms inflate_deflated [OF assms(1,2), of rest]
  show ?thesis
    by (subst chain_loop.simps) (simp add: entry_simps unat_of_nat64 drop_pre Let_def MAX_DELTA_CHAIN_DEPTH_def)
qed

lemma chain_written_full:
  assumes "written z hdr exts pk L" and "zlib_ok z" and "(off, e, True) \<in> set L"
    and "\<forall>(off, e, f)\<in>set L. length (e_payload e) < 2 ^ 64"
    and "length deltas \<le> MAX_DELTA_CHAIN_DEPTH" and "off \<notin> visited"
  shows "chain_loop z (opened a c (pk @ rest)) locate ext deltas visited off = Ok ((e_ty e, e_payload e), deltas)"
  using assms(1,3,4)
proof (induction arbitrary: rest rule: written.induct)
  case (written_full pk L e' raw)
  show ?case
  proof (cases "(off, e, True) \<in> set L")
    case True
    have "\<forall>(off, e, f)\<in>set L. length (e_payload e) < 2 ^ 64" using written_full.prems(2) by simp
    note written_full.IH [OF True this, of "(write_entry_header (pack_tag (e_ty e')) (length (e_payload e')) @ raw) @ rest"]
    then show ?thesis by (simp only: append_assoc)
  next
    case False
    with written_full.prems have "off = length pk" "e = e'" "length (e_payload e) < 2 ^ 64" by auto
    with chain_full [OF assms(2) written_full.hyps(2), where deltas = deltas and pk = pk and visited = visited] assms(5,6)
    show ?thesis by simp
  qed
next
  case (written_ofs pk L boff b e' zd)
  then have "(off, e, True) \<in> set L" "\<forall>(off, e, f)\<in>set L. length (e_payload e) < 2 ^ 64" by auto
  from written_ofs.IH [OF this] show ?case by (simp only: append_assoc)
next
  case (written_ref pk L b e' zd)
  then have "(off, e, True) \<in> set L" "\<forall>(off, e, f)\<in>set L. length (e_payload e) < 2 ^ 64" by auto
  from written_ref.IH [OF this] show ?case by (simp only: append_assoc)
qed simp

lemma read_written:
  assumes "written z hdr exts pk L" and "zlib_ok z" and "digest_ok dg"
    and "(off, e, f) \<in> set L" and "\<forall>(off, e, f)\<in>set L. entry_ok dg a e"
    and "\<forall>b\<in>set exts. entry_ok dg a b \<and> ext (e_id b) = Ok (e_ty b, e_payload b) \<and> locate (e_id b) = None"
    and "length pk < 2 ^ 64"
  shows "read_at_with z (opened a c (pk @ rest)) off locate ext = Ok (e_ty e, e_payload e)"
  using assms(1,4,5,7)
proof (induction arbitrary: rest rule: written.induct)
  case (written_full pk L e' raw)
  let ?enc = "write_entry_header (pack_tag (e_ty e')) (length (e_payload e')) @ raw"
  show ?case
  proof (cases "(off, e, f) \<in> set L")
    case True
    with written_full.prems written_full.IH [of "?enc @ rest"] show ?thesis by simp
  next
    case False
    with written_full.prems have "off = length pk" "e = e'" "length (e_payload e) < 2 ^ 64"
      by (auto simp: entry_ok_def)
    with chain_full [OF assms(2) written_full.hyps(2), where deltas = "[]" and pk = pk and visited = "{}"]
    show ?thesis by (simp add: read_at_with_def)
  qed
next
  case (written_ofs pk L boff b e' zd)
  let ?d = "create_delta (e_payload b) (e_payload e')"
  let ?enc = "write_entry_header OFS_DELTA_TAG (length ?d) @ encode_ofs (length pk - boff) @ zd"
  show ?case
  proof (cases "(off, e, f) \<in> set L")
    case True
    with written_ofs.prems written_ofs.IH [of "?enc @ rest"] show ?thesis by simp
  next
    case False
    with written_ofs.prems have e: "off = length pk" "e = e'" by auto
    have boff: "boff < length pk" using written_bounds [OF written_ofs.hyps(1)] written_ofs.hyps(2) by auto
    have "\<forall>(off, e, f)\<in>set L. length (e_payload e) < 2 ^ 64"
      using written_ofs.prems(2) by (auto simp: entry_ok_def)
    from chain_written_full [OF written_ofs.hyps(1) assms(2) written_ofs.hyps(2) this, 
        where deltas = "[?d]" and visited = "{length pk}"] boff
    have "chain_loop z (opened a c (pk @ ?enc @ rest)) locate ext [?d] {length pk} boff
        = Ok ((e_ty b, e_payload b), [?d])" by (simp add: MAX_DELTA_CHAIN_DEPTH_def)
    moreover have "chain_loop z (opened a c (pk @ ?enc @ rest)) locate ext [] {} (length pk)
        = chain_loop z (opened a c (pk @ ?enc @ rest)) locate ext [?d] {length pk} boff"
      by (rule chain_ofs [OF assms(2) written_ofs.hyps(6) _ boff])
        (use small_delta [OF written_ofs.hyps(4,5)] written_ofs.prems in auto)
    ultimately show ?thesis
      using e small_delta [OF written_ofs.hyps(4,5)] written_ofs.hyps(3)
      by (simp only: read_at_with_def append_assoc bind_res_Ok bind_res_Err) simp
  qed
next
  case (written_ref pk L b e' zd)
  let ?d = "create_delta (e_payload b) (e_payload e')"
  let ?enc = "write_entry_header REF_DELTA_TAG (length ?d) @ as_bytes (e_id b) @ zd"
  show ?case
  proof (cases "(off, e, f) \<in> set L")
    case True
    with written_ref.prems written_ref.IH [of "?enc @ rest"] show ?thesis by simp
  next
    case False
    with written_ref.prems have e: "off = length pk" "e = e'" by auto
    have b: "entry_ok dg a b" "ext (e_id b) = Ok (e_ty b, e_payload b)" "locate (e_id b) = None"
      using assms(6) written_ref.hyps(2) by auto
    have "chain_loop z (opened a c (pk @ ?enc @ rest)) locate ext [] {} (length pk)
        = Ok ((e_ty b, e_payload b), [?d])"
      by (rule chain_ref [OF assms(2) written_ref.hyps(6)])
        (use b entry_ok_oid [OF assms(3) b(1)] small_delta [OF written_ref.hyps(4,5)] in auto)
    then show ?thesis
      using e small_delta [OF written_ref.hyps(4,5)] written_ref.hyps(3)
      by (simp only: read_at_with_def append_assoc bind_res_Ok bind_res_Err) simp
  qed
qed simp

subsection \<open>The writer\<close>

text \<open>A delta that the candidate loops picked: its base and how it is encoded.\<close>

definition picked :: "'d zlib \<Rightarrow> pack_entry \<Rightarrow> bytes \<Rightarrow> bytes \<Rightarrow> byte \<Rightarrow> pack_entry \<Rightarrow> (bytes \<times> bytes \<times> nat \<times> byte) \<Rightarrow> bool" where
  "picked z e raw pfx tag b d \<longleftrightarrow>
     (\<exists>zd. deflate z (create_delta (e_payload b) (e_payload e)) = Ok zd
        \<and> d = (zd, pfx, length (create_delta (e_payload b) (e_payload e)), tag))"

lemma deflate_total: "zlib_ok z \<Longrightarrow> \<exists>c. deflate z d = Ok c"
  by (erule zlib_okD [of z d]) blast

lemma ofs_candidates_ok:
  assumes "zlib_ok z"
  shows "\<exists>best'. ofs_candidates z entries raw (e_payload e) offset cs best = Ok best'
    \<and> (best' = best \<or> (\<exists>c\<in>set cs. \<exists>d. best' = Some d \<and> small (entries ! bc_idx c)
        \<and> picked z e raw (encode_ofs (offset - bc_offset c)) OFS_DELTA_TAG (entries ! bc_idx c) d))"
proof (induction cs arbitrary: best)
  case (Cons c cs)
  let ?b = "entries ! bc_idx c"
  obtain zd where zd: "deflate z (create_delta (e_payload ?b) (e_payload e)) = Ok zd"
    using deflate_total [OF assms] by blast
  show ?case
  proof (cases "MAX_DELTA_SIZE < length (e_payload ?b)")
    case True
    with Cons [of best] show ?thesis by auto
  next
    case False
    let ?d = "(zd, encode_ofs (offset - bc_offset c), length (create_delta (e_payload ?b) (e_payload e)), OFS_DELTA_TAG)"
    have "small ?b" "picked z e raw (encode_ofs (offset - bc_offset c)) OFS_DELTA_TAG ?b ?d"
      using False zd by (simp_all add: small_def picked_def)
    with Cons [of "Some ?d"] Cons [of best] False zd show ?thesis by (auto simp: Let_def)
  qed
qed simp

lemma ref_candidates_ok:
  assumes "zlib_ok z"
  shows "\<exists>best'. ref_candidates z n raw (e_payload e) bs best = Ok best'
    \<and> (best' = best \<or> (\<exists>b\<in>set bs. \<exists>d. best' = Some d
        \<and> picked z e raw (take n (as_bytes (e_id b))) REF_DELTA_TAG b d))"
proof (induction bs arbitrary: best)
  case (Cons b bs)
  obtain zd where zd: "deflate z (create_delta (e_payload b) (e_payload e)) = Ok zd"
    using deflate_total [OF assms] by blast
  let ?d = "(zd, take n (as_bytes (e_id b)), length (create_delta (e_payload b) (e_payload e)), REF_DELTA_TAG)"
  have "picked z e raw (take n (as_bytes (e_id b))) REF_DELTA_TAG b ?d"
    using zd by (simp add: picked_def)
  with Cons [of "Some ?d"] Cons [of best] zd show ?case by (auto simp: Let_def)
qed simp

lemma choose_delta_ok:
  assumes "zlib_ok z"
  shows "\<exists>best. choose_delta z w e raw offset bases = Ok best
    \<and> (case best of None \<Rightarrow> True | Some d \<Rightarrow>
         small e
         \<and> ((\<exists>c\<in>set bases. bc_ty c = e_ty e \<and> small (pw_entries w ! bc_idx c)
               \<and> picked z e raw (encode_ofs (offset - bc_offset c)) OFS_DELTA_TAG (pw_entries w ! bc_idx c) d)
            \<or> (\<exists>b\<in>set (pw_external_bases w). e_ty b = e_ty e \<and> small b
               \<and> picked z e raw (take (raw_len (pw_algo w)) (as_bytes (e_id b))) REF_DELTA_TAG b d)))"
proof (cases "length (e_payload e) \<le> MAX_DELTA_SIZE")
  case True
  let ?cs = "take DELTA_WINDOW (filter (\<lambda>c. bc_ty c = e_ty e) (rev bases))"
  let ?bs = "take EXTERNAL_BASE_WINDOW
    (filter (\<lambda>b. e_ty b = e_ty e \<and> length (e_payload b) \<le> MAX_DELTA_SIZE) (pw_external_bases w))"
  obtain best1 where b1: "ofs_candidates z (pw_entries w) raw (e_payload e) offset ?cs None = Ok best1"
    "best1 = None \<or> (\<exists>c\<in>set ?cs. \<exists>d. best1 = Some d \<and> small (pw_entries w ! bc_idx c)
        \<and> picked z e raw (encode_ofs (offset - bc_offset c)) OFS_DELTA_TAG (pw_entries w ! bc_idx c) d)"
    using ofs_candidates_ok [OF assms] by blast
  obtain best2 where b2: "ref_candidates z (raw_len (pw_algo w)) raw (e_payload e) ?bs best1 = Ok best2"
    "best2 = best1 \<or> (\<exists>b\<in>set ?bs. \<exists>d. best2 = Some d
        \<and> picked z e raw (take (raw_len (pw_algo w)) (as_bytes (e_id b))) REF_DELTA_TAG b d)"
    using ref_candidates_ok [OF assms] by blast
  have "set ?cs \<subseteq> {c \<in> set bases. bc_ty c = e_ty e}" "set ?bs \<subseteq> {b \<in> set (pw_external_bases w). e_ty b = e_ty e \<and> small b}"
    by (auto simp: small_def dest!: in_set_takeD)
  with True b1 b2 show ?thesis
    by (cases best2) (fastforce simp: choose_delta_def small_def)+
qed (simp add: choose_delta_def)

definition write_inv :: "'d zlib \<Rightarrow> pack_writer \<Rightarrow> bytes \<Rightarrow> nat \<Rightarrow> write_state \<Rightarrow> (nat \<times> pack_entry \<times> bool) list \<Rightarrow> bool" where
  "write_inv z w hdr k st L \<longleftrightarrow>
     written z hdr (pw_external_bases w) (ws_pack st) L
     \<and> map (fst \<circ> snd) L = take k (pw_entries w)
     \<and> (\<forall>c\<in>set (ws_bases st). (bc_offset c, pw_entries w ! bc_idx c, True) \<in> set L
          \<and> bc_ty c = e_ty (pw_entries w ! bc_idx c))
     \<and> map (\<lambda>m. (fst m, fst (snd m))) (ws_meta st) = map (\<lambda>(off, e, f). (e_id e, off)) L"

lemma write_entry_inv:
  assumes "zlib_ok z" and "write_inv z w hdr k st L" and "k < length (pw_entries w)"
    and "\<forall>b\<in>set (pw_external_bases w). length (as_bytes (e_id b)) = raw_len (pw_algo w)"
  shows "\<exists>st' L'. write_entry z w st k (pw_entries w ! k) = Ok st' \<and> write_inv z w hdr (k + 1) st' L'"
proof -
  let ?e = "pw_entries w ! k" and ?o = "length (ws_pack st)"
  obtain raw where raw: "deflate z (e_payload ?e) = Ok raw" using deflate_total [OF assms(1)] by blast
  obtain best where best: "choose_delta z w ?e raw ?o (ws_bases st) = Ok best"
    "case best of None \<Rightarrow> True | Some d \<Rightarrow>
         small ?e
         \<and> ((\<exists>c\<in>set (ws_bases st). bc_ty c = e_ty ?e \<and> small (pw_entries w ! bc_idx c)
               \<and> picked z ?e raw (encode_ofs (?o - bc_offset c)) OFS_DELTA_TAG (pw_entries w ! bc_idx c) d)
            \<or> (\<exists>b\<in>set (pw_external_bases w). e_ty b = e_ty ?e \<and> small b
               \<and> picked z ?e raw (take (raw_len (pw_algo w)) (as_bytes (e_id b))) REF_DELTA_TAG b d))"
    using choose_delta_ok [OF assms(1)] by blast
  have W: "written z hdr (pw_external_bases w) (ws_pack st) L" and T: "take (k + 1) (pw_entries w) = map (fst \<circ> snd) L @ [?e]"
    using assms(2,3) by (simp_all add: write_inv_def take_Suc_conv_app_nth)
  show ?thesis
  proof (cases best)
    case None
    with raw best(1) assms(2) T written_full [OF W raw] show ?thesis
      by (intro exI [of _ "L @ [(?o, ?e, True)]"] exI)
        (auto simp: write_entry_def write_inv_def Let_def intro!: exI)
  next
    case (Some d)
    obtain zd pfx n tag where d: "d = (zd, pfx, n, tag)" by (cases d)
    have "written z hdr (pw_external_bases w) (ws_pack st @ write_entry_header tag n @ pfx @ zd) (L @ [(?o, ?e, False)])"
      using best(2) unfolding Some option.case
    proof (elim conjE disjE bexE)
      fix c assume c: "c \<in> set (ws_bases st)" "bc_ty c = e_ty ?e" "small (pw_entries w ! bc_idx c)" "small ?e"
        "picked z ?e raw (encode_ofs (?o - bc_offset c)) OFS_DELTA_TAG (pw_entries w ! bc_idx c) d"
      with assms(2) have "(bc_offset c, pw_entries w ! bc_idx c, True) \<in> set L" "e_ty (pw_entries w ! bc_idx c) = e_ty ?e"
        by (auto simp: write_inv_def)
      from written_ofs [OF W this c(3,4)] c(5) show ?thesis by (auto simp: picked_def d)
    next
      fix b assume b: "b \<in> set (pw_external_bases w)" "e_ty b = e_ty ?e" "small b" "small ?e"
        "picked z ?e raw (take (raw_len (pw_algo w)) (as_bytes (e_id b))) REF_DELTA_TAG b d"
      from written_ref [OF W b(1-4)] b assms(4) show ?thesis by (auto simp: picked_def d)
    qed
    with raw best(1) assms(2) T Some d show ?thesis
      by (intro exI [of _ "L @ [(?o, ?e, False)]"] exI)
        (auto simp: write_entry_def write_inv_def Let_def intro!: exI)
  qed
qed

lemma write_entries_inv:
  assumes "zlib_ok z"
    and "\<forall>b\<in>set (pw_external_bases w). length (as_bytes (e_id b)) = raw_len (pw_algo w)"
  shows "write_inv z w hdr k st L \<Longrightarrow> k \<le> length (pw_entries w) \<Longrightarrow>
    \<exists>st' L'. write_entries z w st k (drop k (pw_entries w)) = Ok st'
      \<and> write_inv z w hdr (length (pw_entries w)) st' L'"
proof (induction "length (pw_entries w) - k" arbitrary: k st L)
  case 0
  then show ?case by auto
next
  case (Suc n)
  then have k: "k < length (pw_entries w)" by simp
  then have d: "drop k (pw_entries w) = pw_entries w ! k # drop (k + 1) (pw_entries w)"
    by (simp add: Cons_nth_drop_Suc)
  obtain st' L' where "write_entry z w st k (pw_entries w ! k) = Ok st'" "write_inv z w hdr (k + 1) st' L'"
    using write_entry_inv [OF assms(1) Suc.prems(1) k assms(2)] by blast
  with Suc.hyps(1) [of "k + 1" st' L'] Suc.hyps(2) k show ?case unfolding d by simp
qed

subsection \<open>The invariant of the writer\<close>

definition wf_writer :: "digest \<Rightarrow> pack_writer \<Rightarrow> bool" where
  "wf_writer dg w \<longleftrightarrow>
     (\<forall>e\<in>set (pw_entries w) \<union> set (pw_external_bases w). entry_ok dg (pw_algo w) e)
     \<and> distinct (map e_id (pw_entries w)) \<and> distinct (map e_id (pw_external_bases w))"

lemma wf_writer_new: "wf_writer dg (pack_writer_new a)"
  by (simp add: wf_writer_def pack_writer_new_def)

lemma wf_writer_add:
  assumes "wf_writer dg w" and "length pl < 2 ^ 64"
  shows "wf_writer dg (snd (pw_add dg w ty pl))" "wf_writer dg (snd (pw_add_external_base dg w ty pl))"
  using assms by (auto simp: wf_writer_def pw_add_def pw_add_external_base_def entry_ok_def Let_def list_ex_iff)

lemma length_pack_header: "length (pack_header n) = 12"
  by (simp add: pack_header_def PACK_SIGNATURE_def bstr_def)

lemma finish_written:
  assumes "zlib_ok z" and "digest_ok dg" and "wf_writer dg w"
  shows "\<exists>(st :: write_state) L h. pw_finish z dg w = Ok \<lparr>po_pack = ws_pack st @ dg (pw_algo w) (ws_pack st),
        po_idx = build_index dg (pw_algo w) (ws_meta st) (dg (pw_algo w) (ws_pack st)), po_hash = h\<rparr>
    \<and> written z (pack_header (length (pw_entries w))) (pw_external_bases w) (ws_pack st) L
    \<and> map (fst \<circ> snd) L = pw_entries w
    \<and> map (\<lambda>m. (fst m, fst (snd m))) (ws_meta st) = map (\<lambda>(off, e, f). (e_id e, off)) L"
proof -
  let ?h = "pack_header (length (pw_entries w))"
  let ?s0 = "\<lparr>ws_pack = ?h, ws_meta = [], ws_bases = []\<rparr>"
  have "write_inv z w ?h 0 ?s0 []" by (simp add: write_inv_def written_nil)
  moreover have "\<forall>b\<in>set (pw_external_bases w). length (as_bytes (e_id b)) = raw_len (pw_algo w)"
    using assms(3) entry_ok_oid [OF assms(2)] by (fastforce simp: wf_writer_def wf_oid_def)
  ultimately obtain st L where st: "write_entries z w ?s0 0 (pw_entries w) = Ok st"
    "write_inv z w ?h (length (pw_entries w)) st L"
    using write_entries_inv [OF assms(1), of w ?h 0 ?s0 "[]"] by auto
  moreover have "from_bytes (pw_algo w) (dg (pw_algo w) (ws_pack st)) = Ok (ObjectId (pw_algo w) (dg (pw_algo w) (ws_pack st)))"
    using assms(2) by (simp add: from_bytes_def digest_ok_def)
  ultimately show ?thesis
    by (intro exI [of _ st] exI [of _ L] exI conjI) (simp_all add: pw_finish_def hash_bytes_def write_inv_def Let_def)
qed

lemma layout_entries:
  "map (fst \<circ> snd) L = es \<Longrightarrow> (\<forall>(off, e, f)\<in>set L. P e) \<longleftrightarrow> (\<forall>e\<in>set es. P e)"
  by force

lemma written_header: "written z hdr exts pk L \<Longrightarrow> \<exists>r. pk = hdr @ r"
  by (induction rule: written.induct) auto

lemma pack_header_fields:
  assumes "n < 2 ^ 32"
  shows "take 4 (pack_header n @ r) = PACK_SIGNATURE" "be32 (drop 4 (pack_header n @ r)) = 2"
    "unat (be32 (drop 8 (pack_header n @ r))) = n"
proof -
  have l: "length PACK_SIGNATURE = 4" by (simp add: PACK_SIGNATURE_def bstr_def)
  then show "take 4 (pack_header n @ r) = PACK_SIGNATURE" by (simp add: pack_header_def)
  have "drop 4 (pack_header n @ r) = be_bytes (2 :: 32 word) @ be_bytes (of_nat n :: 32 word) @ r"
    using l by (simp add: pack_header_def)
  then show "be32 (drop 4 (pack_header n @ r)) = 2" by (simp only: be32_bytes)
  have "drop 8 (pack_header n @ r) = be_bytes (of_nat n :: 32 word) @ r"
    using l by (simp add: pack_header_def)
  then have "be32 (drop 8 (pack_header n @ r)) = of_nat n" by (simp only: be32_bytes)
  then show "unat (be32 (drop 8 (pack_header n @ r))) = n"
    using assms by (simp add: unat_of_nat)
qed

lemma explode_finished:
  assumes "written z (pack_header n) exts pk L" and "n = length L" and "n < 2 ^ 32"
    and "zlib_ok z" and "digest_ok dg" and "length pk < 2 ^ 64"
    and "\<forall>(off, e, f)\<in>set L. entry_ok dg a e" and "bases_ok dg a ext exts (map (fst \<circ> snd) L)"
    and "length trl = raw_len a"
  shows "explode_pack_prefix z dg (pk @ trl @ rest) a ext = Ok (map exploded L, length (pk @ trl))"
proof -
  obtain st where st: "explode_loop (length L) z dg a ext (pk @ trl @ rest) explode_start = Ok st" "explode_inv pk L st"
    using explode_written [OF assms(1,4,5) length_pack_header assms(6-8)] by blast
  obtain r where "pk = pack_header n @ r" using written_header [OF assms(1)] by blast
  then have "take 4 (pk @ trl @ rest) = PACK_SIGNATURE" "unat (be32 (drop 8 (pk @ trl @ rest))) = length L"
      "12 \<le> length pk"
    using pack_header_fields [OF assms(3), of "r @ trl @ rest"] assms(2) by (simp_all add: length_pack_header)
  with st assms(9) show ?thesis
    by (simp add: explode_pack_prefix_def explode_inv_def Let_def)
qed

lemma finish_explodes:
  assumes "zlib_ok z" and "digest_ok dg" and "wf_writer dg w" and "length (pw_entries w) < 2 ^ 32"
    and "bases_ok dg (pw_algo w) ext (pw_external_bases w) (pw_entries w)"
  shows "\<exists>out. pw_finish z dg w = Ok out
    \<and> (length (po_pack out) < 2 ^ 64 \<longrightarrow>
        explode_pack_prefix z dg (po_pack out @ rest) (pw_algo w) ext =
          Ok (map (\<lambda>e. (e_id e, e_ty e, e_payload e)) (pw_entries w), length (po_pack out)))"
proof -
  obtain st :: write_state and L h where f: "pw_finish z dg w = Ok \<lparr>po_pack = ws_pack st @ dg (pw_algo w) (ws_pack st),
        po_idx = build_index dg (pw_algo w) (ws_meta st) (dg (pw_algo w) (ws_pack st)), po_hash = h\<rparr>"
    and W: "written z (pack_header (length (pw_entries w))) (pw_external_bases w) (ws_pack st) L"
    and L: "map (fst \<circ> snd) L = pw_entries w"
    using finish_written [OF assms(1-3)] by blast
  have "length L = length (pw_entries w)" using arg_cong [OF L, of length] by simp
  moreover have "\<forall>(off, e, f)\<in>set L. entry_ok dg (pw_algo w) e"
    using assms(3) unfolding layout_entries [OF L] by (simp add: wf_writer_def)
  moreover have "length (dg (pw_algo w) (ws_pack st)) = raw_len (pw_algo w)"
    using assms(2) by (simp add: digest_ok_def)
  moreover have "map exploded L = map (\<lambda>e. (e_id e, e_ty e, e_payload e)) (pw_entries w)"
    by (simp add: L [symmetric] exploded_def split_beta)
  ultimately have "explode_pack_prefix z dg (ws_pack st @ dg (pw_algo w) (ws_pack st) @ rest) (pw_algo w) ext =
      Ok (map (\<lambda>e. (e_id e, e_ty e, e_payload e)) (pw_entries w), length (ws_pack st @ dg (pw_algo w) (ws_pack st)))"
    if "length (ws_pack st) < 2 ^ 64"
    using explode_finished [OF W _ assms(4,1,2) that, of "pw_algo w" ext "dg (pw_algo w) (ws_pack st)" rest]
      assms(5) L by simp
  with f show ?thesis by simp
qed

subsection \<open>The index of a written pack\<close>

lemma finished_index:
  assumes "written z hdr exts pk L" and "length pk < 2 ^ 64" and "length L < 2 ^ 31"
    and "\<forall>(off, e, f)\<in>set L. entry_ok dg a e" and "distinct (map (e_id \<circ> fst \<circ> snd) L)" and "digest_ok dg"
    and "map (\<lambda>m. (fst m, fst (snd m))) ms = map (\<lambda>(off, e, f). (e_id e, off)) L"
    and "length trl = raw_len a"
  shows "\<exists>ix. index_parse a (build_index dg a ms trl) = Ok ix \<and> ix_count ix = length L
    \<and> (\<forall>(off, e, f)\<in>set L. offset_of ix (e_id e) = Some off)
    \<and> (\<forall>i. i \<notin> (e_id \<circ> fst \<circ> snd) ` set L \<longrightarrow> offset_of ix i = None)"
proof -
  have fst_ms: "map fst ms = map (e_id \<circ> fst \<circ> snd) L"
    using arg_cong [OF assms(7), of "map fst"] by (simp add: comp_def split_beta)
  have mem: "\<exists>e f. (fst (snd m), e, f) \<in> set L \<and> fst m = e_id e" if "m \<in> set ms" for m
  proof -
    have "(fst m, fst (snd m)) \<in> set (map (\<lambda>m. (fst m, fst (snd m))) ms)" using that by auto
    then show ?thesis unfolding assms(7) by auto
  qed
  have mem': "\<exists>crc. (e_id e, off, crc) \<in> set ms" if "(off, e, f) \<in> set L" for off e f
  proof -
    have "(e_id e, off) \<in> set (map (\<lambda>(off, e, f). (e_id e, off)) L)" using that by force
    then show ?thesis unfolding assms(7) [symmetric] by auto
  qed
  have "length ms = length L" using arg_cong [OF fst_ms, of length] by simp
  moreover have "wf_meta a ms"
    unfolding wf_meta_def
  proof (intro conjI ballI)
    show "distinct (map fst ms)" using assms(5) by (simp add: fst_ms)
    show "length ms < 2 ^ 31" using \<open>length ms = length L\<close> assms(3) by simp
    fix m assume "m \<in> set ms"
    then obtain e f where e: "(fst (snd m), e, f) \<in> set L" "fst m = e_id e" using mem by blast
    then have "entry_ok dg a e" using assms(4) by auto
    with entry_ok_oid [OF assms(6)] e(2) show "wf_oid (fst m)" "oid_algo (fst m) = a" by auto
    show "fst (snd m) < 2 ^ 64" using written_bounds [OF assms(1)] e(1) assms(2) by fastforce
  qed
  moreover from this obtain ix where ix: "index_parse a (build_index dg a ms trl) = Ok ix"
    "\<And>i off crc. (i, off, crc) \<in> set ms \<Longrightarrow> offset_of ix i = Some off"
    "\<And>i. i \<notin> fst ` set ms \<Longrightarrow> offset_of ix i = None"
    using index_lookup_built [OF _ assms(6,8)] by blast
  ultimately have "ix_count ix = length L"
    using index_parse_build [OF _ assms(6,8)] by fastforce
  moreover have "offset_of ix (e_id e) = Some off" if "(off, e, f) \<in> set L" for off e f
    using mem' [OF that] ix(2) by blast
  moreover have "fst ` set ms = (e_id \<circ> fst \<circ> snd) ` set L"
    using arg_cong [OF fst_ms, of set] by simp
  ultimately show ?thesis using ix by fastforce
qed

lemma contains_offset: "offset_of ix i = Some off \<Longrightarrow> index_contains ix i"
  by (auto simp: offset_of_def index_contains_def split: option.splits)

text \<open>The streaming reader and the decoder agree on where an entry ends.\<close>

lemma frame_end_explode:
  assumes "explode_entry z a ext data bo bi offset = Ok (ty, content, next_offset)"
  shows "pack_frame_end z data offset a = Ok next_offset"
proof -
  obtain ptype sz n where h: "parse_entry_header_at data offset = Ok (ptype, sz, n)"
    using assms by (auto simp: explode_entry_def bind_res_eq_Ok)
  show ?thesis
    using assms h
    by (cases ptype) (auto simp: explode_entry_def pack_frame_end_def bind_res_eq_Ok Let_def split: if_splits)
qed

section \<open>Properties\<close>

text \<open>
  C23. What the pack writer writes, the pack reader decodes: for every set of queued objects
  (any mix of types and sizes) and of external bases, \<open>finish\<close> succeeds, whatever deltas it
  chooses, and decoding its bytes, even with more data behind them, gives back exactly the
  queued objects, in order, with their ids, and the exact length of the pack. The zlib codec and
  the hash are as documented, the resolver has the external bases, and an external base that is
  also queued is the same object; there are fewer than \<open>2 ^ 32\<close> objects.
\<close>

theorem pack_roundtrip:
  assumes "zlib_ok z" and "digest_ok dg" and "wf_writer dg w" and "length (pw_entries w) < 2 ^ 32"
    and "bases_ok dg (pw_algo w) ext (pw_external_bases w) (pw_entries w)"
  shows "\<exists>out. pw_finish z dg w = Ok out
    \<and> (length (po_pack out) < 2 ^ 64 \<longrightarrow>
        explode_pack_prefix z dg (po_pack out @ rest) (pw_algo w) ext =
          Ok (map (\<lambda>e. (e_id e, e_ty e, e_payload e)) (pw_entries w), length (po_pack out)))"
  using finish_explodes [OF assms] .

definition example_writer :: "digest \<Rightarrow> pack_writer" where
  "example_writer dg = snd (pw_add dg (snd (pw_add_external_base dg (pack_writer_new Sha1) Blob [1, 2, 3])) Blob [4, 5])"

definition length_digest :: digest where
  "length_digest a d = replicate (raw_len a) (of_nat (length d))"

lemma example_writer_ok:
  "zlib_ok stored" "digest_ok length_digest" "wf_writer length_digest (example_writer length_digest)"
  "length (pw_entries (example_writer length_digest)) = 1" "pw_algo (example_writer length_digest) = Sha1"
  "\<forall>b\<in>set (pw_external_bases (example_writer length_digest)). e_id b \<notin> e_id ` set (pw_entries (example_writer length_digest))"
  "bases_ok length_digest Sha1 (\<lambda>i. Ok (Blob, [1, 2, 3])) (pw_external_bases (example_writer length_digest))
    (pw_entries (example_writer length_digest))"
proof -
  show "zlib_ok stored" by (rule zlib_ok_stored)
  show "digest_ok length_digest" by (simp add: digest_ok_def length_digest_def)
  show "wf_writer length_digest (example_writer length_digest)"
    unfolding example_writer_def by (intro wf_writer_add wf_writer_new) simp_all
  have e: "pw_entries (example_writer length_digest) =
      [\<lparr>e_id = hash_object length_digest Sha1 Blob [4, 5], e_ty = Blob, e_payload = [4, 5]\<rparr>]"
    "pw_external_bases (example_writer length_digest) =
      [\<lparr>e_id = hash_object length_digest Sha1 Blob [1, 2, 3], e_ty = Blob, e_payload = [1, 2, 3]\<rparr>]"
    "pw_algo (example_writer length_digest) = Sha1"
    by (simp_all add: example_writer_def pw_add_def pw_add_external_base_def pack_writer_new_def Let_def)
  have ne: "hash_object length_digest Sha1 Blob [4, 5] \<noteq> hash_object length_digest Sha1 Blob [1, 2, 3]"
    by (simp add: hash_object_def length_digest_def loose_header_def push_decimal_def push_digits.simps bstr_def)
  show "length (pw_entries (example_writer length_digest)) = 1" "pw_algo (example_writer length_digest) = Sha1"
    by (simp_all add: e)
  show "\<forall>b\<in>set (pw_external_bases (example_writer length_digest)). e_id b \<notin> e_id ` set (pw_entries (example_writer length_digest))"
    using ne by (simp add: e eq_commute)
  show "bases_ok length_digest Sha1 (\<lambda>i. Ok (Blob, [1, 2, 3])) (pw_external_bases (example_writer length_digest))
    (pw_entries (example_writer length_digest))"
    using ne by (simp add: bases_ok_def e entry_ok_def)
qed

theorem pack_roundtrip_witness:
  "\<exists>out. pw_finish stored length_digest (example_writer length_digest) = Ok out
     \<and> (length (po_pack out) < 2 ^ 64 \<longrightarrow>
         explode_pack_prefix stored length_digest (po_pack out @ [9]) Sha1 (\<lambda>i. Ok (Blob, [1, 2, 3])) =
           Ok (map (\<lambda>e. (e_id e, e_ty e, e_payload e)) (pw_entries (example_writer length_digest)), length (po_pack out)))"
  using pack_roundtrip [OF example_writer_ok(1-3), of "\<lambda>i. Ok (Blob, [1, 2, 3])" "[9]"] example_writer_ok(4,5,7) by simp

lemma finished_random_access:
  assumes "zlib_ok z" and "digest_ok dg" and "wf_writer dg w" and "length (pw_entries w) < 2 ^ 31"
    and "bases_ok dg (pw_algo w) ext (pw_external_bases w) (pw_entries w)"
    and "\<forall>b\<in>set (pw_external_bases w). e_id b \<notin> e_id ` set (pw_entries w)"
  shows "\<exists>out. pw_finish z dg w = Ok out
    \<and> (length (po_pack out) < 2 ^ 64 \<longrightarrow>
        (\<exists>ix p. index_parse (pw_algo w) (po_idx out) = Ok ix \<and> pack_new (po_pack out) (pw_algo w) = Ok p
          \<and> (\<forall>e\<in>set (pw_entries w). \<exists>off. offset_of ix (e_id e) = Some off
               \<and> read_at_with z p off (offset_of ix) ext = Ok (e_ty e, e_payload e))
          \<and> (\<forall>i. i \<notin> e_id ` set (pw_entries w) \<longrightarrow> offset_of ix i = None)
          \<and> verify_pack z dg (po_pack out) (po_idx out) (pw_algo w) ext =
              Ok \<lparr>pv_objects = length (pw_entries w), pv_problems = []\<rparr>))"
proof -
  let ?a = "pw_algo w"
  obtain st :: write_state and L h where f: "pw_finish z dg w = Ok \<lparr>po_pack = ws_pack st @ dg ?a (ws_pack st),
        po_idx = build_index dg ?a (ws_meta st) (dg ?a (ws_pack st)), po_hash = h\<rparr>"
    and W: "written z (pack_header (length (pw_entries w))) (pw_external_bases w) (ws_pack st) L"
    and L: "map (fst \<circ> snd) L = pw_entries w"
    and M: "map (\<lambda>m. (fst m, fst (snd m))) (ws_meta st) = map (\<lambda>(off, e, f). (e_id e, off)) L"
    using finish_written [OF assms(1-3)] by blast
  let ?t = "dg ?a (ws_pack st)"
  have n: "length L = length (pw_entries w)" using arg_cong [OF L, of length] by simp
  have ok: "\<forall>(off, e, f)\<in>set L. entry_ok dg ?a e"
    using assms(3) unfolding layout_entries [OF L] by (simp add: wf_writer_def)
  have t: "length ?t = raw_len ?a" using assms(2) by (simp add: digest_ok_def)
  have ids: "(e_id \<circ> fst \<circ> snd) ` set L = e_id ` set (pw_entries w)" "distinct (map (e_id \<circ> fst \<circ> snd) L)"
    using assms(3) by (simp_all add: L [symmetric] wf_writer_def image_comp comp_def)
  have mem: "\<exists>off f. (off, e, f) \<in> set L" if "e \<in> set (pw_entries w)" for e
  proof -
    have "e \<in> (fst \<circ> snd) ` set L" using that unfolding L [symmetric] by simp
    then obtain x where "x \<in> set L" "e = fst (snd x)" by auto
    then have "(fst x, e, snd (snd x)) \<in> set L" by simp
    then show ?thesis by blast
  qed
  have main: "\<exists>ix p. index_parse ?a (build_index dg ?a (ws_meta st) ?t) = Ok ix \<and> pack_new (ws_pack st @ ?t) ?a = Ok p
      \<and> (\<forall>e\<in>set (pw_entries w). \<exists>off. offset_of ix (e_id e) = Some off
           \<and> read_at_with z p off (offset_of ix) ext = Ok (e_ty e, e_payload e))
      \<and> (\<forall>i. i \<notin> e_id ` set (pw_entries w) \<longrightarrow> offset_of ix i = None)
      \<and> verify_pack z dg (ws_pack st @ ?t) (build_index dg ?a (ws_meta st) ?t) ?a ext =
          Ok \<lparr>pv_objects = length (pw_entries w), pv_problems = []\<rparr>"
    if len: "length (ws_pack st) < 2 ^ 64"
  proof -
    have "length L < 2 ^ 31" using assms(4) n by simp
    from finished_index [OF W len this ok ids(2) assms(2) M t, unfolded ids(1)]
    obtain ix where ix0: "index_parse ?a (build_index dg ?a (ws_meta st) ?t) = Ok ix" "ix_count ix = length L"
      "\<forall>(off, e, f)\<in>set L. offset_of ix (e_id e) = Some off"
      "\<forall>i. i \<notin> e_id ` set (pw_entries w) \<longrightarrow> offset_of ix i = None"
      by blast
    have ix: "index_parse ?a (build_index dg ?a (ws_meta st) ?t) = Ok ix" "ix_count ix = length L"
      "\<And>off e f. (off, e, f) \<in> set L \<Longrightarrow> offset_of ix (e_id e) = Some off"
      "\<And>i. i \<notin> e_id ` set (pw_entries w) \<Longrightarrow> offset_of ix i = None"
      using ix0 by auto
    obtain r where r: "ws_pack st = pack_header (length (pw_entries w)) @ r" using written_header [OF W] by blast
    have n32: "length (pw_entries w) < 2 ^ 32" using assms(4) by simp
    have p: "pack_new (ws_pack st @ ?t) ?a = Ok (opened ?a (be32 (drop 8 (ws_pack st @ ?t))) (ws_pack st @ ?t))"
      using pack_header_fields [OF n32, of "r @ ?t"] by (simp add: pack_new_def r length_pack_header)
    have rd: "read_at_with z (opened ?a c (ws_pack st @ ?t)) off (offset_of ix) ext = Ok (e_ty e, e_payload e)"
      if "(off, e, f) \<in> set L" for off e f c
      by (rule read_written [OF W assms(1,2) that ok _ len])
        (use assms(5,6) ix(4) in \<open>auto simp: bases_ok_def\<close>)
    have ex: "explode_pack z dg (ws_pack st @ ?t) ?a ext = Ok (map exploded L)"
      using explode_finished [OF W n [symmetric] n32 assms(1,2) len ok _ t, of ext "[]"] assms(5) L
      by (simp add: explode_pack_def)
    have c: "index_contains ix (fst (exploded x))" if "x \<in> set L" for x
      using contains_offset [OF ix(3)] that by (cases x) (auto simp: exploded_def)
    have "filter (\<lambda>(i, _, _). \<not> index_contains ix i) (map exploded L) = []"
      using c by (simp add: filter_empty_conv split_beta)
    then have "verify_pack z dg (ws_pack st @ ?t) (build_index dg ?a (ws_meta st) ?t) ?a ext =
        Ok \<lparr>pv_objects = length (pw_entries w), pv_problems = []\<rparr>"
      using ix(1,2) ex n by (simp add: verify_pack_def)
    moreover have "\<forall>e\<in>set (pw_entries w). \<exists>off. offset_of ix (e_id e) = Some off
        \<and> read_at_with z (opened ?a (be32 (drop 8 (ws_pack st @ ?t))) (ws_pack st @ ?t)) off (offset_of ix) ext
          = Ok (e_ty e, e_payload e)"
      using mem ix(3) rd by fastforce
    ultimately show ?thesis
      using ix(1) p ix0(4) by (intro exI [of _ ix] exI conjI)
  qed
  with f show ?thesis by simp
qed

text \<open>
  C24. Random access agrees: the index that \<open>finish\<close> returns parses, finds every queued object
  and no other, and reading the pack at the offset it gives (with the index locating bases
  inside the pack, as the object store does) resolves the delta chain to exactly that object.
  The pack verifies against its index with no problem reported. External bases are not
  queued themselves, and there are fewer than \<open>2 ^ 31\<close> objects.
\<close>

theorem pack_random_access:
  assumes "zlib_ok z" and "digest_ok dg" and "wf_writer dg w" and "length (pw_entries w) < 2 ^ 31"
    and "bases_ok dg (pw_algo w) ext (pw_external_bases w) (pw_entries w)"
    and "\<forall>b\<in>set (pw_external_bases w). e_id b \<notin> e_id ` set (pw_entries w)"
  shows "\<exists>out. pw_finish z dg w = Ok out
    \<and> (length (po_pack out) < 2 ^ 64 \<longrightarrow>
        (\<exists>ix p. index_parse (pw_algo w) (po_idx out) = Ok ix \<and> pack_new (po_pack out) (pw_algo w) = Ok p
          \<and> (\<forall>e\<in>set (pw_entries w). \<exists>off. offset_of ix (e_id e) = Some off
               \<and> read_at_with z p off (offset_of ix) ext = Ok (e_ty e, e_payload e))
          \<and> (\<forall>i. i \<notin> e_id ` set (pw_entries w) \<longrightarrow> offset_of ix i = None)
          \<and> verify_pack z dg (po_pack out) (po_idx out) (pw_algo w) ext =
              Ok \<lparr>pv_objects = length (pw_entries w), pv_problems = []\<rparr>))"
  by (rule finished_random_access [OF assms])

theorem pack_random_access_witness:
  "\<exists>out. pw_finish stored length_digest (example_writer length_digest) = Ok out
     \<and> (length (po_pack out) < 2 ^ 64 \<longrightarrow>
         verify_pack stored length_digest (po_pack out) (po_idx out) Sha1 (\<lambda>i. Ok (Blob, [1, 2, 3])) =
           Ok \<lparr>pv_objects = 1, pv_problems = []\<rparr>)"
  using pack_random_access [OF example_writer_ok(1-3), of "\<lambda>i. Ok (Blob, [1, 2, 3])"] example_writer_ok(4-7)
  by (simp only: example_writer_ok(5)) auto

text \<open>A second sample: one blob and no external base.\<close>

definition plain_writer :: "digest \<Rightarrow> pack_writer" where
  "plain_writer dg = snd (pw_add dg (pack_writer_new Sha1) Blob [4, 5])"

lemma plain_writer_ok:
  "wf_writer length_digest (plain_writer length_digest)" "pw_algo (plain_writer length_digest) = Sha1"
  "pw_entries (plain_writer length_digest) =
    [\<lparr>e_id = hash_object length_digest Sha1 Blob [4, 5], e_ty = Blob, e_payload = [4, 5]\<rparr>]"
  "pw_external_bases (plain_writer length_digest) = []"
proof -
  show "wf_writer length_digest (plain_writer length_digest)"
    unfolding plain_writer_def by (intro wf_writer_add wf_writer_new) simp_all
qed (simp_all add: plain_writer_def pw_add_def pack_writer_new_def Let_def)

lemma written_single:
  assumes "written z hdr [] pk [(off, e, f)]"
  shows "\<exists>raw. deflate z (e_payload e) = Ok raw \<and> pk = hdr @ write_entry_header (pack_tag (e_ty e)) (length (e_payload e)) @ raw"
proof -
  have none: "pk0 = hdr" if "written z hdr [] pk0 []" for pk0 using that by (cases rule: written.cases) auto
  from assms show ?thesis by (cases rule: written.cases) (auto dest: none)
qed

lemma plain_writer_finish:
  "\<exists>pk. pw_finish stored length_digest (plain_writer length_digest) = Ok pk \<and> length (po_pack pk) < 2 ^ 64"
proof -
  let ?w = "plain_writer length_digest"
  note w = plain_writer_ok
  obtain st :: write_state and L h where f: "pw_finish stored length_digest ?w =
        Ok \<lparr>po_pack = ws_pack st @ length_digest Sha1 (ws_pack st),
          po_idx = build_index length_digest Sha1 (ws_meta st) (length_digest Sha1 (ws_pack st)), po_hash = h\<rparr>"
    and W: "written stored (pack_header (length (pw_entries ?w))) [] (ws_pack st) L" and L: "map (fst \<circ> snd) L = pw_entries ?w"
    using finish_written [OF example_writer_ok(1,2) w(1)] unfolding w(2,4) by blast
  obtain x where x: "L = [x]" "e_payload (fst (snd x)) = [4, 5]" "e_ty (fst (snd x)) = Blob"
    using L unfolding w(3) by (auto simp: map_eq_Cons_conv)
  obtain off e fl where e: "x = (off, e, fl)" by (cases x)
  have "written stored (pack_header (length (pw_entries ?w))) [] (ws_pack st) [(off, e, fl)]" using W x(1) e by simp
  from written_single [OF this] x e have "length (ws_pack st) < 2 ^ 63"
    by (auto simp: deflate_def stored_def length_pack_header write_entry_header_def write_rest.simps)
  with f show ?thesis by (simp add: length_digest_def)
qed

end
