(* ===== verification/Combined_Odb.thy ===== *)
theory Combined_Odb
  imports Pack
begin

text \<open>
  The object database of a repository on disk: \<open>CombinedOdb\<close> of src/src/odb/combined.rs, the
  loose objects, every pack below \<open>pack/\<close> and the alternate object stores. \<open>open_relative\<close>
  reaches trees outside the root: the argument \<open>elsewhere\<close> gives the tree at a path as the
  configuration spells it.
\<close>

section \<open>Opening\<close>

record loaded_pack =
  lp_index :: pack_index
  lp_pack :: pack

datatype combined_odb =
  Combined (co_loose: loose_odb) (co_packs: "loaded_pack list") (co_alternates: "combined_odb list")
    (co_algo: hash_algo) (co_max_delta_depth: nat)

text \<open>The loop of \<open>open_inner\<close> over the entries of \<open>pack/\<close>.\<close>

definition pack_file :: "bytes \<Rightarrow> bytes" where
  "pack_file name = bstr ''pack/'' @ name"

definition pack_stem :: "bytes \<Rightarrow> bytes" where
  "pack_stem name = take (length name - 4) name"

fun load_packs :: "vfs \<Rightarrow> hash_algo \<Rightarrow> dir_entry list \<Rightarrow> loaded_pack list result" where
  "load_packs v a [] = Ok []"
| "load_packs v a (entry # entries) =
     (if \<not> ends_with (bstr ''.idx'') (de_name entry) then load_packs v a entries
      else
        let idx_path = pack_file (de_name entry);
            pack_path = pack_file (pack_stem (de_name entry) @ bstr ''.pack'')
        in if \<not> vfs_exists v pack_path then load_packs v a entries
           else
             bind_res (bind_res (vfs_read v idx_path) (index_parse a)) (\<lambda>ix.
             bind_res (bind_res (vfs_read v pack_path) (\<lambda>d. pack_new d a)) (\<lambda>p.
             bind_res (load_packs v a entries) (\<lambda>rest.
               Ok (\<lparr>lp_index = ix, lp_pack = p\<rparr> # rest)))))"

definition open_inner :: "dir_order \<Rightarrow> vfs \<Rightarrow> hash_algo \<Rightarrow> combined_odb list \<Rightarrow> combined_odb result" where
  "open_inner ord v a alternates =
     bind_res
       (if vfs_exists v (bstr ''pack'') then
          bind_res (vfs_read_dir ord v (bstr ''pack'')) (load_packs v a)
        else Ok [])
       (\<lambda>packs. Ok (Combined (loose_new v a) packs alternates a 50))"

text \<open>
  An alternate is opened with no alternates of its own; one that does not open is skipped.
\<close>

fun open_alternates :: "dir_order \<Rightarrow> (bytes \<Rightarrow> vfs) \<Rightarrow> hash_algo \<Rightarrow> bytes list \<Rightarrow> combined_odb list" where
  "open_alternates ord elsewhere a [] = []"
| "open_alternates ord elsewhere a (raw # rest) =
     (let line = str_trim raw
      in if line = [] \<or> starts_with [35] line then open_alternates ord elsewhere a rest
         else case open_inner ord (elsewhere line) a [] of
                Ok alt \<Rightarrow> alt # open_alternates ord elsewhere a rest
              | Err _ \<Rightarrow> open_alternates ord elsewhere a rest)"

definition load_alternates :: "dir_order \<Rightarrow> (bytes \<Rightarrow> vfs) \<Rightarrow> vfs \<Rightarrow> hash_algo \<Rightarrow> combined_odb list" where
  "load_alternates ord elsewhere v a =
     (case vfs_read v (bstr ''info/alternates'') of
        Err _ \<Rightarrow> []
      | Ok bs \<Rightarrow> open_alternates ord elsewhere a (str_lines (if utf8_valid bs then bs else [])))"

definition combined_open :: "dir_order \<Rightarrow> (bytes \<Rightarrow> vfs) \<Rightarrow> vfs \<Rightarrow> hash_algo \<Rightarrow> combined_odb result" where
  "combined_open ord elsewhere v a = open_inner ord v a (load_alternates ord elsewhere v a)"

definition pack_count :: "combined_odb \<Rightarrow> nat" where
  "pack_count c = length (co_packs c)"

section \<open>Reading and writing\<close>

text \<open>The first pack whose index has the id, with the offset.\<close>

fun locate_packed :: "loaded_pack list \<Rightarrow> object_id \<Rightarrow> (loaded_pack \<times> nat) option" where
  "locate_packed [] i = None"
| "locate_packed (lp # lps) i =
     (case offset_of (lp_index lp) i of
        Some off \<Rightarrow> Some (lp, off)
      | None \<Rightarrow> locate_packed lps i)"

lemma alternates_smaller [simp]: "size_list size (co_alternates c) < size c"
  by (cases c) simp

text \<open>
  Reading: the loose store, the packs in the order they were loaded, the alternates. A delta
  base outside the pack is read through the whole store, one level deeper; the recursion ends
  because the depth is bounded and an alternate is a smaller store.
\<close>

function read_depth :: "'d zlib \<Rightarrow> digest \<Rightarrow> combined_odb \<Rightarrow> nat \<Rightarrow> reader"
  and read_alternates :: "'d zlib \<Rightarrow> digest \<Rightarrow> combined_odb list \<Rightarrow> nat \<Rightarrow> reader" where
  "read_depth z dg c depth i =
     (if co_max_delta_depth c < depth then Err (error.Pack ''delta chain too deep (possible cycle)'')
      else if loose_contains (co_loose c) i then loose_read z dg (co_loose c) i
      else
        case locate_packed (co_packs c) i of
          Some (lp, off) \<Rightarrow>
            read_at_with z (lp_pack lp) off (offset_of (lp_index lp)) (\<lambda>base. read_depth z dg c (depth + 1) base)
        | None \<Rightarrow> read_alternates z dg (co_alternates c) depth i)"
| "read_alternates z dg [] depth i = Err (NotFound (HintObject (to_hex i)))"
| "read_alternates z dg (alt # alts) depth i =
     (case read_depth z dg alt depth i of
        Ok obj \<Rightarrow> Ok obj
      | Err _ \<Rightarrow> read_alternates z dg alts depth i)"
  by pat_completeness auto
termination
  by (relation "measures
    [case_sum (\<lambda>(z, dg, c, d, i). size c) (\<lambda>(z, dg, cs, d, i). size_list size cs),
     case_sum (\<lambda>(z, dg, c, d, i). co_max_delta_depth c + 1 - d) (\<lambda>(z, dg, cs, d, i). 0)]")
    (auto simp: order.strict_implies_not_eq)

declare read_depth.simps [simp del]

definition combined_read :: "'d zlib \<Rightarrow> digest \<Rightarrow> combined_odb \<Rightarrow> reader" where
  "combined_read z dg c i = read_depth z dg c 0 i"

fun combined_contains :: "combined_odb \<Rightarrow> object_id \<Rightarrow> bool" where
  "combined_contains (Combined l packs alts a m) i \<longleftrightarrow>
     loose_contains l i \<or> list_ex (\<lambda>lp. index_contains (lp_index lp) i) packs
     \<or> list_ex (\<lambda>alt. combined_contains alt i) alts"

definition with_loose :: "loose_odb \<Rightarrow> combined_odb \<Rightarrow> combined_odb" where
  "with_loose l c = Combined l (co_packs c) (co_alternates c) (co_algo c) (co_max_delta_depth c)"

definition combined_write :: "'d zlib \<Rightarrow> digest \<Rightarrow> combined_odb \<Rightarrow> object_type \<Rightarrow> bytes
    \<Rightarrow> object_id result \<times> combined_odb" where
  "combined_write z dg c ty pl =
     (case loose_write z dg (co_loose c) ty pl of (r, l) \<Rightarrow> (r, with_loose l c))"

section \<open>What a write changes\<close>

text \<open>A reader that knows more reads every entry the other one reads, with the same content.\<close>

definition reads_more :: "reader \<Rightarrow> reader \<Rightarrow> bool" where
  "reads_more rd rd' \<longleftrightarrow> (\<forall>i x. wf_oid i \<longrightarrow> rd i = Ok x \<longrightarrow> rd' i = Ok x)"

lemma reads_moreD: "reads_more rd rd' \<Longrightarrow> wf_oid i \<Longrightarrow> rd i = Ok x \<Longrightarrow> rd' i = Ok x"
  unfolding reads_more_def by blast

text \<open>The same for one result; the rules follow the shape of a definition.\<close>

definition refines :: "'a result \<Rightarrow> 'a result \<Rightarrow> bool" where
  "refines r r' \<longleftrightarrow> (\<forall>x. r = Ok x \<longrightarrow> r' = Ok x)"

lemma refines_self: "refines r r"
  by (simp add: refines_def)

lemma refines_err: "refines (Err e) r"
  by (simp add: refines_def)

lemma refines_bind: "(\<And>x. r = Ok x \<Longrightarrow> refines (f x) (g x)) \<Longrightarrow> refines (bind_res r f) (bind_res r g)"
  by (cases r) (auto simp: refines_def)

lemma refines_case_prod:
  "(\<And>a b. p = (a, b) \<Longrightarrow> refines (f a b) (g a b)) \<Longrightarrow> refines (case_prod f p) (case_prod g p)"
  by (cases p) auto

lemma refines_case_option:
  "(x = None \<Longrightarrow> refines a b) \<Longrightarrow> (\<And>y. x = Some y \<Longrightarrow> refines (f y) (g y)) \<Longrightarrow>
     refines (case_option a f x) (case_option b g x)"
  by (cases x) auto

lemma refines_if:
  "(P \<Longrightarrow> refines a b) \<Longrightarrow> (\<not> P \<Longrightarrow> refines c d) \<Longrightarrow> refines (if P then a else c) (if P then b else d)"
  by auto

lemmas refines_rules = refines_err refines_bind refines_case_prod refines_case_option refines_if

lemma chain_loop_more:
  assumes more: "reads_more ext ext'"
  shows "refines (chain_loop z p locate ext deltas visited cur) (chain_loop z p locate ext' deltas visited cur)"
proof (induction "MAX_DELTA_CHAIN_DEPTH + 1 - length deltas" arbitrary: deltas visited cur rule: less_induct)
  case less
  have base: "refines (bind_res (ext i) f) (bind_res (ext' i) f)" if "from_bytes a raw = Ok i" for i f a raw
    using reads_moreD [OF more conjunct1 [OF from_bytes_wf [OF that]]]
    by (cases "ext i") (auto simp: refines_def)
  show ?case
    unfolding chain_loop.simps [of z p locate _ deltas visited cur] Let_def
    by (intro refines_rules base less.hyps refines_self) (assumption | simp)+
qed

lemma read_at_with_more:
  "reads_more ext ext' \<Longrightarrow> read_at_with z p off locate ext = Ok r \<Longrightarrow> read_at_with z p off locate ext' = Ok r"
  using chain_loop_more [of ext ext' z p locate "[]" "{}" off]
  by (auto simp: read_at_with_def bind_res_eq_Ok refines_def)

lemma with_loose_simps [simp]:
  "co_loose (with_loose l c) = l" "co_packs (with_loose l c) = co_packs c"
  "co_alternates (with_loose l c) = co_alternates c" "co_max_delta_depth (with_loose l c) = co_max_delta_depth c"
  by (simp_all add: with_loose_def)

lemma loose_write_other:
  assumes "loose_inv z dg s" and i: "wf_oid i" "i \<noteq> hash_object dg (loose_algo s) ty pl"
  shows "loose_contains (snd (loose_write z dg s ty pl)) i = loose_contains s i"
proof -
  let ?i = "hash_object dg (loose_algo s) ty pl"
  have wf: "wf_oid ?i" using assms(1) wf_hash_object by (simp add: loose_inv_def)
  have "object_comps i \<noteq> object_comps ?i" using object_comps_inj [OF i(1) wf] i(2) by blast
  moreover have "object_comps i \<notin> set (prefixes_of (butlast (object_comps ?i)))"
    by (simp add: object_comps_def prefixes_one)
  ultimately have "files (snd (vfs_write (loose_vfs s) (object_path ?i) c)) (object_comps i) = files (loose_vfs s) (object_comps i)
    \<and> (object_comps i \<in> dirs (snd (vfs_write (loose_vfs s) (object_path ?i) c)) \<longleftrightarrow> object_comps i \<in> dirs (loose_vfs s))" for c
    using vfs_write_frame [OF resolve_object_path [OF wf]] by blast
  then show ?thesis
    using loose_vfs_write [of z dg s ty pl]
    by (auto simp: loose_contains_def vfs_exists_def resolve_object_path [OF i(1)] is_present_def)
qed

text \<open>
  A loose store that has more objects than the one it replaces, and nothing else under the ids
  that are new to it, makes the whole store read more.
\<close>

lemma read_depth_more:
  assumes kept: "\<And>i. wf_oid i \<Longrightarrow> loose_contains (co_loose c) i \<Longrightarrow>
      loose_contains l i \<and> refines (loose_read z dg (co_loose c) i) (loose_read z dg l i)"
    and new: "\<And>i d. wf_oid i \<Longrightarrow> \<not> loose_contains (co_loose c) i \<Longrightarrow> loose_contains l i \<Longrightarrow>
      refines (read_depth z dg c d i) (loose_read z dg l i)"
  shows "reads_more (read_depth z dg c depth) (read_depth z dg (with_loose l c) depth)"
proof (induction "co_max_delta_depth c + 1 - depth" arbitrary: depth rule: less_induct)
  case less
  have "refines (read_depth z dg c depth i) (read_depth z dg (with_loose l c) depth i)" if i: "wf_oid i" for i
  proof -
    consider "co_max_delta_depth c < depth" | "depth \<le> co_max_delta_depth c" "loose_contains (co_loose c) i"
      | "depth \<le> co_max_delta_depth c" "\<not> loose_contains (co_loose c) i" "loose_contains l i"
      | "depth \<le> co_max_delta_depth c" "\<not> loose_contains (co_loose c) i" "\<not> loose_contains l i"
      by fastforce
    then show ?thesis
    proof cases
      case 1
      then show ?thesis by (simp add: read_depth.simps(1) [of z dg c] refines_err)
    next
      case 2
      with kept [OF i 2(2)] show ?thesis by (simp add: read_depth.simps(1))
    next
      case 3
      with new [OF i 3(2,3), of depth] show ?thesis by (simp add: read_depth.simps(1) [of z dg "with_loose l c"])
    next
      case 4
      have "reads_more (read_depth z dg c (depth + 1)) (read_depth z dg (with_loose l c) (depth + 1))"
        using 4(1) by (intro less.hyps) simp
      then have "refines (read_at_with z p off lo (read_depth z dg c (depth + 1)))
          (read_at_with z p off lo (read_depth z dg (with_loose l c) (depth + 1)))" for p off lo
        using read_at_with_more by (auto simp: refines_def)
      with 4 show ?thesis
        by (simp add: read_depth.simps(1) [of z dg _ depth i] refines_self split: option.split)
    qed
  qed
  then show ?case by (auto simp: reads_more_def refines_def)
qed

section \<open>Packs on disk\<close>

text \<open>
  The entry of \<open>pack/\<close> with this name is the index of a pack that the writer \<open>w\<close> finished, with
  the pack beside it; the external bases of a thin pack are in the loose store.
\<close>

definition holds_pack :: "'d zlib \<Rightarrow> digest \<Rightarrow> vfs \<Rightarrow> hash_algo \<Rightarrow> pack_writer \<Rightarrow> bytes \<Rightarrow> bool" where
  "holds_pack z dg v a w name \<longleftrightarrow>
     wf_writer dg w \<and> pw_algo w = a \<and> length (pw_entries w) < 2 ^ 31
     \<and> bases_ok dg a (loose_read z dg (loose_new v a)) (pw_external_bases w) (pw_entries w)
     \<and> (\<forall>b\<in>set (pw_external_bases w). e_id b \<notin> e_id ` set (pw_entries w))
     \<and> (case pw_finish z dg w of
          Err _ \<Rightarrow> False
        | Ok out \<Rightarrow> length (po_pack out) < 2 ^ 64 \<and> vfs_read v (pack_file name) = Ok (po_idx out)
            \<and> vfs_read v (pack_file (pack_stem name @ bstr ''.pack'')) = Ok (po_pack out))"

definition packed_ids :: "pack_writer \<Rightarrow> object_id set" where
  "packed_ids w = e_id ` set (pw_entries w)"

text \<open>A loaded pack that has the objects of \<open>w\<close>, for any reader of the external bases.\<close>

definition loads_pack :: "'d zlib \<Rightarrow> digest \<Rightarrow> reader \<Rightarrow> pack_writer \<Rightarrow> loaded_pack \<Rightarrow> bool" where
  "loads_pack z dg ext w lp \<longleftrightarrow>
     (\<forall>e\<in>set (pw_entries w). \<exists>off. offset_of (lp_index lp) (e_id e) = Some off
        \<and> read_at_with z (lp_pack lp) off (offset_of (lp_index lp)) ext = Ok (e_ty e, e_payload e))
     \<and> (\<forall>i. i \<notin> packed_ids w \<longrightarrow> offset_of (lp_index lp) i = None)"

lemma bases_ok_more:
  assumes "digest_ok dg" and "reads_more ext ext'" and "bases_ok dg a ext exts entries"
  shows "bases_ok dg a ext' exts entries"
  using assms(3) reads_moreD [OF assms(2)] entry_ok_oid [OF assms(1)]
  unfolding bases_ok_def by blast

lemma vfs_read_exists: "vfs_read v p = Ok d \<Longrightarrow> vfs_exists v p"
  by (auto simp: vfs_read_def vfs_exists_def is_present_def bind_res_eq_Ok ok_or_def split: option.splits)

lemma load_packs_entry:
  assumes "zlib_ok z" and "digest_ok dg" and "holds_pack z dg v a w name"
    and "reads_more (loose_read z dg (loose_new v a)) ext"
  shows "\<exists>ix p. bind_res (vfs_read v (pack_file name)) (index_parse a) = Ok ix
    \<and> bind_res (vfs_read v (pack_file (pack_stem name @ bstr ''.pack''))) (\<lambda>d. pack_new d a) = Ok p
    \<and> loads_pack z dg ext w \<lparr>lp_index = ix, lp_pack = p\<rparr>"
proof -
  from assms(3) obtain out where w: "wf_writer dg w" "pw_algo w = a" "length (pw_entries w) < 2 ^ 31"
      "bases_ok dg a (loose_read z dg (loose_new v a)) (pw_external_bases w) (pw_entries w)"
      "\<forall>b\<in>set (pw_external_bases w). e_id b \<notin> e_id ` set (pw_entries w)"
    and out: "pw_finish z dg w = Ok out" "length (po_pack out) < 2 ^ 64" "vfs_read v (pack_file name) = Ok (po_idx out)"
      "vfs_read v (pack_file (pack_stem name @ bstr ''.pack'')) = Ok (po_pack out)"
    by (auto simp: holds_pack_def simp del: bstr_simps split: result.splits)
  have "bases_ok dg (pw_algo w) ext (pw_external_bases w) (pw_entries w)"
    using bases_ok_more [OF assms(2,4) w(4)] w(2) by simp
  from finished_random_access [OF assms(1,2) w(1,3) this w(5)] out(1,2) w(2)
  obtain ix p where "index_parse a (po_idx out) = Ok ix" "pack_new (po_pack out) a = Ok p"
      "loads_pack z dg ext w \<lparr>lp_index = ix, lp_pack = p\<rparr>"
    unfolding loads_pack_def packed_ids_def by auto
  with out(3,4) show ?thesis by (simp del: bstr_simps)
qed

abbreviation idx_names :: "dir_entry list \<Rightarrow> bytes list" where
  "idx_names entries \<equiv> filter (ends_with (bstr ''.idx'')) (map de_name entries)"

lemma load_packs_written:
  assumes "zlib_ok z" and "digest_ok dg" and "\<forall>n\<in>set (idx_names entries). holds_pack z dg v a (W n) n"
    and "reads_more (loose_read z dg (loose_new v a)) ext"
  shows "\<exists>packs. load_packs v a entries = Ok packs
    \<and> list_all2 (\<lambda>n. loads_pack z dg ext (W n)) (idx_names entries) packs"
  using assms(3)
proof (induction entries)
  case (Cons en entries)
  then obtain packs where IH: "load_packs v a entries = Ok packs"
      "list_all2 (\<lambda>n. loads_pack z dg ext (W n)) (idx_names entries) packs" by auto
  show ?case
  proof (cases "ends_with (bstr ''.idx'') (de_name en)")
    case True
    with Cons.prems have h: "holds_pack z dg v a (W (de_name en)) (de_name en)" by simp
    then have "vfs_exists v (pack_file (pack_stem (de_name en) @ bstr ''.pack''))"
      by (auto simp: holds_pack_def simp del: bstr_simps intro: vfs_read_exists split: result.splits)
    with IH True load_packs_entry [OF assms(1,2) h assms(4)] show ?thesis
      by (auto simp: Let_def simp del: bstr_simps)
  next
    case False
    with IH show ?thesis by (simp del: bstr_simps)
  qed
qed simp

lemma locate_packed_loaded:
  assumes "list_all2 (\<lambda>n. loads_pack z dg ext (W n)) names packs"
  shows "case locate_packed packs i of
      None \<Rightarrow> \<forall>n\<in>set names. i \<notin> packed_ids (W n)
    | Some (lp, off) \<Rightarrow> \<exists>n\<in>set names. \<exists>e\<in>set (pw_entries (W n)). e_id e = i
        \<and> read_at_with z (lp_pack lp) off (offset_of (lp_index lp)) ext = Ok (e_ty e, e_payload e)"
  using assms
proof (induction rule: list_all2_induct)
  case (Cons n names lp packs)
  show ?case
  proof (cases "i \<in> packed_ids (W n)")
    case True
    then obtain e where e: "e \<in> set (pw_entries (W n))" "e_id e = i" by (auto simp: packed_ids_def)
    with Cons.hyps(1) obtain off where "offset_of (lp_index lp) i = Some off"
        "read_at_with z (lp_pack lp) off (offset_of (lp_index lp)) ext = Ok (e_ty e, e_payload e)"
      unfolding loads_pack_def by blast
    with e show ?thesis by auto
  next
    case False
    with Cons.hyps(1) have "offset_of (lp_index lp) i = None" by (simp add: loads_pack_def)
    with Cons.IH False show ?thesis by (auto split: option.splits)
  qed
qed simp

section \<open>Properties\<close>

text \<open>
  C11. Writing to a repository's store neither loses nor changes an object: when the loose store
  can take the object and its id is not taken by other content at any depth of the lookup, the write
  returns the id that \<open>hash_object\<close> computes, reading that id gives the object, and whatever
  could be read before, loose, packed (through delta chains that cross packs and loose objects) or in an
  alternate, is read with the same content.
\<close>

theorem combined_write_keeps:
  assumes "loose_inv z dg (co_loose c)" and "loose_storable dg (co_loose c) ty pl"
    and "i = hash_object dg (loose_algo (co_loose c)) ty pl"
    and "\<forall>depth x. read_depth z dg c depth i = Ok x \<longrightarrow> x = (ty, pl)"
    and "loose_contains (co_loose c) i \<longrightarrow> loose_read z dg (co_loose c) i = Ok (ty, pl)"
  shows "fst (combined_write z dg c ty pl) = Ok i
    \<and> combined_read z dg (snd (combined_write z dg c ty pl)) i = Ok (ty, pl)
    \<and> reads_more (combined_read z dg c) (combined_read z dg (snd (combined_write z dg c ty pl)))"
proof -
  let ?l = "snd (loose_write z dg (co_loose c) ty pl)"
  have w: "combined_write z dg c ty pl = (fst (loose_write z dg (co_loose c) ty pl), with_loose ?l c)"
    by (simp add: combined_write_def split_beta)
  have put: "fst (loose_write z dg (co_loose c) ty pl) = Ok i" "loose_read z dg ?l i = Ok (ty, pl)"
    using loose.put_fetch [OF assms(1,2)] assms(3,5) by auto
  have c: "loose_contains ?l i" using put(2) by (auto simp: loose_read_def loose_contains_def split: if_splits)
  have kept: "loose_contains ?l j \<and> refines (loose_read z dg (co_loose c) j) (loose_read z dg ?l j)"
    if j: "wf_oid j" "loose_contains (co_loose c) j" for j
  proof (cases "j = i")
    case True
    with c put(2) assms(5) j(2) show ?thesis by (simp add: refines_def)
  next
    case False
    with loose_write_other [OF assms(1) j(1)] loose.put_other [OF assms(1) j(1)] j(2) assms(3)
    show ?thesis by (simp add: refines_self)
  qed
  have new: "refines (read_depth z dg c d j) (loose_read z dg ?l j)"
    if j: "wf_oid j" "\<not> loose_contains (co_loose c) j" "loose_contains ?l j" for j d
  proof -
    have "j = i" using loose_write_other [OF assms(1) j(1)] j(2,3) assms(3) by blast
    with put(2) assms(4) show ?thesis by (auto simp: refines_def)
  qed
  show ?thesis
    using read_depth_more [where z = z and dg = dg, OF kept new, of 0] put c
    by (simp add: w combined_read_def [abs_def] read_depth.simps(1) [of z dg _ 0 i])
qed

definition empty_vfs :: vfs where
  "empty_vfs = \<lparr>files = Map.empty, dirs = {[]}\<rparr>"

lemma empty_loose:
  assumes "digest_ok dg"
  shows "loose_inv stored dg (loose_new empty_vfs a)" "loose_storable dg (loose_new empty_vfs Sha1) Blob [104, 105]"
    "wf_oid i \<Longrightarrow> \<not> loose_contains (loose_new empty_vfs a) i"
proof -
  show "loose_inv stored dg (loose_new empty_vfs a)"
    by (simp add: loose_inv_def loose_new_def empty_vfs_def assms zlib_ok_stored wf_vfs_def)
  have "length (serialize_loose Blob [104, 105]) \<le> 2 ^ 30"
    by (simp add: serialize_loose_def loose_header_eq dec_of_nat.simps)
  then show "loose_storable dg (loose_new empty_vfs Sha1) Blob [104, 105]"
    by (simp add: loose_storable_def loose_new_def empty_vfs_def object_comps_def)
  show "\<not> loose_contains (loose_new empty_vfs a) i" if "wf_oid i"
    using resolve_object_path [OF that]
    by (simp add: loose_contains_def loose_new_def empty_vfs_def vfs_exists_def is_present_def object_comps_def)
qed

theorem combined_write_keeps_witness:
  "combined_read stored length_digest
     (snd (combined_write stored length_digest (Combined (loose_new empty_vfs Sha1) [] [] Sha1 50) Blob [104, 105]))
     (hash_object length_digest Sha1 Blob [104, 105]) = Ok (Blob, [104, 105])"
proof -
  let ?c = "Combined (loose_new empty_vfs Sha1) [] [] Sha1 50"
  let ?i = "hash_object length_digest Sha1 Blob [104, 105]"
  note dg = example_writer_ok(2)
  note fresh = empty_loose(3) [OF dg wf_hash_object [OF dg, of Sha1 Blob "[104, 105]"], of Sha1]
  have a: "loose_algo (loose_new empty_vfs Sha1) = Sha1" by (simp add: loose_new_def)
  have none: "\<forall>depth x. read_depth stored length_digest ?c depth ?i = Ok x \<longrightarrow> x = (Blob, [104, 105])"
    using fresh by (simp add: read_depth.simps(1))
  show ?thesis
    using combined_write_keeps [of stored length_digest ?c Blob "[104, 105]" ?i]
      empty_loose(1) [OF dg, of Sha1] empty_loose(2) [OF dg] fresh none a by simp
qed

text \<open>
  C12. Opening a repository's store and reading from it: when every index below \<open>pack/\<close> belongs to a
  pack that \<open>PackWriter\<close> finished (thin packs included, their bases in the loose store), \<open>open\<close>
  loads them all, and a read gives the loose object where there is one, else the object that was
  added to one of the packs, with its deltas resolved, else what the alternates have. A pack has
  fewer than \<open>2 ^ 31\<close> objects and \<open>2 ^ 64\<close> bytes, and its external bases are not among its objects.
\<close>

theorem combined_open_reads:
  assumes "zlib_ok z" and "digest_ok dg" and "vfs_read_dir ord v (bstr ''pack'') = Ok entries"
    and "\<forall>n\<in>set (idx_names entries). holds_pack z dg v a (W n) n"
  shows "\<exists>c. combined_open ord elsewhere v a = Ok c \<and> pack_count c = length (idx_names entries)
    \<and> (\<forall>i. if loose_contains (loose_new v a) i
           then combined_read z dg c i = loose_read z dg (loose_new v a) i
           else if i \<in> (\<Union>n\<in>set (idx_names entries). packed_ids (W n))
           then \<exists>n\<in>set (idx_names entries). \<exists>e\<in>set (pw_entries (W n)).
                  e_id e = i \<and> combined_read z dg c i = Ok (e_ty e, e_payload e)
           else combined_read z dg c i = read_alternates z dg (load_alternates ord elsewhere v a) 0 i)"
proof -
  have pd: "vfs_exists v (bstr ''pack'')"
    using assms(3) by (auto simp: vfs_read_dir_def vfs_exists_def is_present_def bind_res_eq_Ok simp del: bstr_simps split: if_splits)
  obtain packs where packs: "load_packs v a entries = Ok packs"
    using load_packs_written [OF assms(1,2,4), of "loose_read z dg (loose_new v a)"] by (auto simp: reads_more_def)
  let ?c = "Combined (loose_new v a) packs (load_alternates ord elsewhere v a) a 50"
  have open_c: "combined_open ord elsewhere v a = Ok ?c"
    using pd assms(3) packs by (simp add: combined_open_def open_inner_def del: bstr_simps)
  let ?ext = "read_depth z dg ?c 1"
  have "reads_more (loose_read z dg (loose_new v a)) ?ext"
    by (auto simp: reads_more_def read_depth.simps(1) [of z dg ?c] loose_read_def loose_contains_def)
  from load_packs_written [OF assms(1,2,4) this] packs
  have loaded: "list_all2 (\<lambda>n. loads_pack z dg ?ext (W n)) (idx_names entries) packs" by simp
  have "if loose_contains (loose_new v a) i
           then combined_read z dg ?c i = loose_read z dg (loose_new v a) i
           else if i \<in> (\<Union>n\<in>set (idx_names entries). packed_ids (W n))
           then \<exists>n\<in>set (idx_names entries). \<exists>e\<in>set (pw_entries (W n)).
                  e_id e = i \<and> combined_read z dg ?c i = Ok (e_ty e, e_payload e)
           else combined_read z dg ?c i = read_alternates z dg (load_alternates ord elsewhere v a) 0 i" for i
  proof (cases "locate_packed packs i")
    case None
    with locate_packed_loaded [OF loaded, of i] show ?thesis
      by (simp add: combined_read_def read_depth.simps(1) [of z dg ?c 0 i])
  next
    case (Some x)
    then obtain lp off where x: "locate_packed packs i = Some (lp, off)" by (cases x) simp
    with locate_packed_loaded [OF loaded, of i] obtain n e where "n \<in> set (idx_names entries)"
        "e \<in> set (pw_entries (W n))" "e_id e = i"
        "read_at_with z (lp_pack lp) off (offset_of (lp_index lp)) ?ext = Ok (e_ty e, e_payload e)"
      by auto
    with x show ?thesis
      by (auto simp: combined_read_def read_depth.simps(1) [of z dg ?c 0 i] packed_ids_def)
  qed
  moreover have "pack_count ?c = length (idx_names entries)"
    using list_all2_lengthD [OF loaded] by (simp add: pack_count_def)
  ultimately show ?thesis using open_c by blast
qed

theorem combined_open_reads_witness:
  "\<exists>out c. pw_finish stored length_digest (plain_writer length_digest) = Ok out
     \<and> combined_open sorted_list_of_set (\<lambda>_. empty_vfs)
         \<lparr>files = [[bstr ''pack'', bstr ''a.idx''] \<mapsto> po_idx out, [bstr ''pack'', bstr ''a.pack''] \<mapsto> po_pack out],
          dirs = {[], [bstr ''pack'']}\<rparr> Sha1 = Ok c
     \<and> pack_count c = 1
     \<and> combined_read stored length_digest c (hash_object length_digest Sha1 Blob [4, 5]) = Ok (Blob, [4, 5])"
proof -
  let ?w = "plain_writer length_digest" and ?i = "hash_object length_digest Sha1 Blob [4, 5]"
  obtain out where out: "pw_finish stored length_digest ?w = Ok out" "length (po_pack out) < 2 ^ 64"
    using plain_writer_finish by blast
  let ?v = "\<lparr>files = [[bstr ''pack'', bstr ''a.idx''] \<mapsto> po_idx out, [bstr ''pack'', bstr ''a.pack''] \<mapsto> po_pack out],
      dirs = {[], [bstr ''pack'']}\<rparr> :: vfs"
  have "{n. is_present ?v ([bstr ''pack''] @ [n])} = {bstr ''a.idx'', bstr ''a.pack''}"
    by (auto simp: is_present_def simp del: bstr_simps split: if_splits)
  moreover have "sorted_list_of_set {bstr ''a.idx'', bstr ''a.pack''} = [bstr ''a.idx'', bstr ''a.pack'']"
  proof -
    have "sorted [bstr ''a.idx'', bstr ''a.pack'']" "distinct [bstr ''a.idx'', bstr ''a.pack'']" by code_simp+
    from sorted_list_of_set.idem_if_sorted_distinct [OF this] show ?thesis by (simp del: bstr_simps)
  qed
  moreover have "resolve (bstr ''pack'') = Ok [bstr ''pack'']" by code_simp
  moreover have "from_utf8_lossy (bstr ''a.idx'') = bstr ''a.idx''" "from_utf8_lossy (bstr ''a.pack'') = bstr ''a.pack''"
    by code_simp+
  ultimately have ls: "vfs_read_dir sorted_list_of_set ?v (bstr ''pack'')
      = Ok [\<lparr>de_name = bstr ''a.idx'', de_type = File\<rparr>, \<lparr>de_name = bstr ''a.pack'', de_type = File\<rparr>]"
    by (simp add: vfs_read_dir_def del: bstr_simps)
  have ends: "ends_with (bstr ''.idx'') (bstr ''a.idx'')" "\<not> ends_with (bstr ''.idx'') (bstr ''a.pack'')" by code_simp+
  have paths: "resolve (pack_file (bstr ''a.idx'')) = Ok [bstr ''pack'', bstr ''a.idx'']"
      "resolve (pack_file (pack_stem (bstr ''a.idx'') @ bstr ''.pack'')) = Ok [bstr ''pack'', bstr ''a.pack'']"
      "bstr ''a.idx'' \<noteq> bstr ''a.pack''" by code_simp+
  then have files: "vfs_read ?v (pack_file (bstr ''a.idx'')) = Ok (po_idx out)"
      "vfs_read ?v (pack_file (pack_stem (bstr ''a.idx'') @ bstr ''.pack'')) = Ok (po_pack out)"
    by (simp_all add: vfs_read_def del: bstr_simps)
  have h: "holds_pack stored length_digest ?v Sha1 ?w (bstr ''a.idx'')"
    using out files plain_writer_ok by (simp add: holds_pack_def bases_ok_def del: bstr_simps)
  have "resolve (object_path ?i) = Ok (object_comps ?i)"
    by (rule resolve_object_path [OF wf_hash_object [OF example_writer_ok(2)]])
  moreover have "object_comps ?i \<noteq> [bstr ''pack'', n]" "object_comps ?i \<noteq> [bstr ''pack'']" for n
    by (auto simp: object_comps_def dest: arg_cong [where f = length])
  ultimately have nl: "\<not> loose_contains (loose_new ?v Sha1) ?i"
    by (simp add: loose_contains_def loose_new_def vfs_exists_def is_present_def object_comps_def del: bstr_simps)
  have names: "idx_names [\<lparr>de_name = bstr ''a.idx'', de_type = File\<rparr>, \<lparr>de_name = bstr ''a.pack'', de_type = File\<rparr>]
      = [bstr ''a.idx'']"
    using ends by (simp del: bstr_simps)
  from combined_open_reads [OF example_writer_ok(1,2) ls, of Sha1 "\<lambda>_. ?w" "\<lambda>_. empty_vfs", unfolded names] h
  obtain c where c: "combined_open sorted_list_of_set (\<lambda>_. empty_vfs) ?v Sha1 = Ok c" "pack_count c = 1"
    and rd: "if loose_contains (loose_new ?v Sha1) ?i then combined_read stored length_digest c ?i = loose_read stored length_digest (loose_new ?v Sha1) ?i
       else if ?i \<in> (\<Union>n\<in>set [bstr ''a.idx'']. packed_ids ?w)
       then \<exists>n\<in>set [bstr ''a.idx'']. \<exists>e\<in>set (pw_entries ?w). e_id e = ?i \<and> combined_read stored length_digest c ?i = Ok (e_ty e, e_payload e)
       else combined_read stored length_digest c ?i
         = read_alternates stored length_digest (load_alternates sorted_list_of_set (\<lambda>_. empty_vfs) ?v Sha1) 0 ?i"
    by (auto simp del: bstr_simps)
  have "combined_read stored length_digest c ?i = Ok (Blob, [4, 5])"
    using rd nl by (simp add: packed_ids_def plain_writer_ok)
  with out(1) c show ?thesis by blast
qed

end
