(* ===== verification/Walk.thy ===== *)
theory Walk
  imports Odb "HOL-Library.Multiset"
begin

text \<open>
  Object-graph traversal, src/src/walk.rs: reachability closures, the object set of a transfer,
  ancestry, merge bases and the date-ordered revision walk. A database is its \<open>reader\<close> (and
  its \<open>contains\<close>); a \<open>BTreeSet\<close> is a set, iterated in id order. The traversals are total
  functions: the ids in a parsed object have the algorithm's length, so there are finitely many,
  and no loop visits one twice, whatever the database returns (even a cyclic graph).
\<close>

section \<open>Termination\<close>

definition known_ids :: "hash_algo \<Rightarrow> object_id set" where
  "known_ids a = {i. wf_oid i \<and> oid_algo i = a}"

lemma finite_known_ids: "finite (known_ids a)"
proof -
  have "known_ids a \<subseteq> ObjectId a ` {bs. set bs \<subseteq> UNIV \<and> length bs = raw_len a}"
  proof
    fix i assume "i \<in> known_ids a"
    then show "i \<in> ObjectId a ` {bs. set bs \<subseteq> UNIV \<and> length bs = raw_len a}"
      by (cases i) (auto simp: known_ids_def wf_oid_def)
  qed
  moreover have "finite {bs :: bytes. set bs \<subseteq> UNIV \<and> length bs = raw_len a}"
    by (rule finite_lists_length_eq) simp
  ultimately show ?thesis by (meson finite_imageI finite_subset)
qed

lemma parse_hex_oid_known: "parse_hex_oid a v = Ok i \<Longrightarrow> i \<in> known_ids a"
  by (auto simp: parse_hex_oid_def bind_res_eq_Ok from_hex_iff known_ids_def)

lemma commit_lines_known:
  "commit_lines a st ls = Ok st' \<Longrightarrow>
     set_option (cf_tree st) \<union> set (cf_parents st) \<subseteq> known_ids a \<Longrightarrow>
     set_option (cf_tree st') \<union> set (cf_parents st') \<subseteq> known_ids a"
proof (induction ls arbitrary: st)
  case (Cons l ls)
  then obtain st1 where st1: "commit_line a st l = Ok st1" "commit_lines a st1 ls = Ok st'"
    by (auto simp: bind_res_eq_Ok)
  from st1(1) Cons.prems(2)
  have "set_option (cf_tree st1) \<union> set (cf_parents st1) \<subseteq> known_ids a"
    by (auto simp: commit_line_def bind_res_eq_Ok split: option.splits dest: parse_hex_oid_known)
  with Cons.IH st1(2) show ?case by blast
qed simp

lemma commit_parse_known: "commit_parse a pl = Ok c \<Longrightarrow> insert (c_tree c) (set (c_parents c)) \<subseteq> known_ids a"
proof -
  assume "commit_parse a pl = Ok c"
  then obtain hs st where "commit_lines a \<lparr>cf_tree = None, cf_parents = [], cf_author = None,
                     cf_committer = None, cf_extra = []\<rparr> hs = Ok st"
    "cf_tree st = Some (c_tree c)" "cf_parents st = c_parents c"
    by (auto simp: commit_parse_def bind_res_eq_Ok ok_or_eq_Ok Let_def)
  with commit_lines_known [OF this(1)] show ?thesis by auto
qed

lemma tag_lines_known:
  "tag_lines a st ls = Ok st' \<Longrightarrow> set_option (tf_object st) \<subseteq> known_ids a \<Longrightarrow>
     set_option (tf_object st') \<subseteq> known_ids a"
proof (induction ls arbitrary: st)
  case (Cons l ls)
  then obtain st1 where st1: "tag_line a st l = Ok st1" "tag_lines a st1 ls = Ok st'"
    by (auto simp: bind_res_eq_Ok)
  from st1(1) Cons.prems(2) have "set_option (tf_object st1) \<subseteq> known_ids a"
    by (auto simp: tag_line_def bind_res_eq_Ok known_ids_def from_hex_iff split: option.splits)
  with Cons.IH st1(2) show ?case by blast
qed simp

lemma tag_parse_known: "tag_parse a pl = Ok t \<Longrightarrow> t_object t \<in> known_ids a"
proof -
  assume "tag_parse a pl = Ok t"
  then obtain hs st where "tag_lines a \<lparr>tf_object = None, tf_type = None, tf_name = None, tf_tagger = None\<rparr> hs = Ok st"
    "tf_object st = Some (t_object t)"
    by (auto simp: tag_parse_def bind_res_eq_Ok ok_or_eq_Ok Let_def)
  with tag_lines_known [OF this(1)] show ?thesis by auto
qed

lemma tree_parse_known: "tree_parse a pl = Ok t \<Longrightarrow> e \<in> set (tree_entries t) \<Longrightarrow> te_id e \<in> known_ids a"
  by (auto simp: tree_parse_def bind_res_eq_Ok known_ids_def wf_tree_entry_def dest: tree_parse_loop_wf)

section \<open>Reachability\<close>

text \<open>The ids that an object's payload makes the walk push, in order.\<close>

fun object_links :: "hash_algo \<Rightarrow> object_type \<Rightarrow> bytes \<Rightarrow> object_id list result" where
  "object_links a Commit pl = bind_res (commit_parse a pl) (\<lambda>c. Ok (c_tree c # c_parents c))"
| "object_links a Tree pl =
     bind_res (tree_parse a pl) (\<lambda>t. Ok (map te_id (filter (\<lambda>e. te_mode e \<noteq> Gitlink) (tree_entries t))))"
| "object_links a Tag pl = bind_res (tag_parse a pl) (\<lambda>t. Ok [t_object t])"
| "object_links a Blob pl = Ok []"

lemma object_links_known: "object_links a ty pl = Ok ls \<Longrightarrow> set ls \<subseteq> known_ids a"
  by (cases ty) (auto simp: bind_res_eq_Ok dest!: commit_parse_known tag_parse_known intro: tree_parse_known)

text \<open>The stack has its top at the head.\<close>

definition push_if_new :: "object_id set \<Rightarrow> object_id set \<Rightarrow> object_id list \<Rightarrow> object_id \<Rightarrow> object_id list" where
  "push_if_new seen exclude stack i = (if i \<notin> seen \<and> i \<notin> exclude then i # stack else stack)"

lemma set_push_if_new:
  "set (foldl (push_if_new seen exclude) stack ls) = set stack \<union> (set ls - seen - exclude)"
  by (induction ls arbitrary: stack) (auto simp: push_if_new_def)

definition is_not_found :: "error \<Rightarrow> bool" where
  "is_not_found e \<longleftrightarrow> (case e of NotFound _ \<Rightarrow> True | _ \<Rightarrow> False)"

function closure_loop :: "hash_algo \<Rightarrow> reader \<Rightarrow> object_id set \<Rightarrow> object_id set \<Rightarrow> object_id list \<Rightarrow> object_id set result" where
  "closure_loop a rd exclude seen [] = Ok seen"
| "closure_loop a rd exclude seen (i # stack) =
     (if i \<in> exclude \<or> i \<in> seen then closure_loop a rd exclude seen stack
      else
        case rd i of
          Err e \<Rightarrow> if is_not_found e then closure_loop a rd exclude (insert i seen) stack else Err e
        | Ok (ty, pl) \<Rightarrow>
            bind_res (object_links a ty pl) (\<lambda>ls.
              closure_loop a rd exclude (insert i seen)
                (foldl (push_if_new (insert i seen) exclude) stack ls)))"
  by pat_completeness auto
termination
proof (relation "measures [\<lambda>(a, rd, x, seen, stack). card ((set stack \<union> known_ids a) - seen),
      \<lambda>(a, rd, x, seen, stack). length stack]")
  fix a and rd :: reader and exclude seen :: "object_id set" and i and stack :: "object_id list"
  assume "i \<in> exclude \<or> i \<in> seen"
  have "card ((set stack \<union> known_ids a) - seen) \<le> card ((set (i # stack) \<union> known_ids a) - seen)"
    by (rule card_mono) (auto simp: finite_known_ids)
  then show "((a, rd, exclude, seen, stack), a, rd, exclude, seen, i # stack)
    \<in> measures [\<lambda>(a, rd, x, seen, stack). card ((set stack \<union> known_ids a) - seen),
      \<lambda>(a, rd, x, seen, stack). length stack]" by (auto simp: le_less)
next
  fix a and rd :: reader and exclude seen :: "object_id set" and i and stack :: "object_id list" and e
  assume "\<not> (i \<in> exclude \<or> i \<in> seen)"
  then have "card ((set stack \<union> known_ids a) - insert i seen) < card ((set (i # stack) \<union> known_ids a) - seen)"
    by (intro psubset_card_mono) (auto simp: finite_known_ids)
  then show "((a, rd, exclude, insert i seen, stack), a, rd, exclude, seen, i # stack)
    \<in> measures [\<lambda>(a, rd, x, seen, stack). card ((set stack \<union> known_ids a) - seen),
      \<lambda>(a, rd, x, seen, stack). length stack]" by simp
next
  fix a and rd :: reader and exclude seen :: "object_id set" and i and stack ls :: "object_id list" and x ty pl
  assume "\<not> (i \<in> exclude \<or> i \<in> seen)" and "object_links a ty pl = Ok ls"
  moreover from this(2) have "set ls \<subseteq> known_ids a" by (rule object_links_known)
  ultimately have "card ((set (foldl (push_if_new (insert i seen) exclude) stack ls) \<union> known_ids a) - insert i seen)
      < card ((set (i # stack) \<union> known_ids a) - seen)"
    by (intro psubset_card_mono) (auto simp: finite_known_ids set_push_if_new)
  then show "((a, rd, exclude, insert i seen, foldl (push_if_new (insert i seen) exclude) stack ls),
      a, rd, exclude, seen, i # stack)
    \<in> measures [\<lambda>(a, rd, x, seen, stack). card ((set stack \<union> known_ids a) - seen),
      \<lambda>(a, rd, x, seen, stack). length stack]" by simp
qed simp

definition collect_closure :: "hash_algo \<Rightarrow> reader \<Rightarrow> object_id list \<Rightarrow> object_id set \<Rightarrow> object_id set result" where
  "collect_closure a rd roots exclude =
     closure_loop a rd exclude {} (rev (filter (\<lambda>i. i \<notin> exclude) roots))"

definition reachable_objects :: "hash_algo \<Rightarrow> reader \<Rightarrow> object_id list \<Rightarrow> object_id set result" where
  "reachable_objects a rd roots = collect_closure a rd roots {}"

definition reachable_objects_excluding :: "hash_algo \<Rightarrow> reader \<Rightarrow> object_id list \<Rightarrow> object_id set \<Rightarrow> object_id set result" where
  "reachable_objects_excluding a rd roots exclude = collect_closure a rd roots exclude"

definition objects_to_send :: "hash_algo \<Rightarrow> reader \<Rightarrow> object_id list \<Rightarrow> object_id list \<Rightarrow> object_id set result" where
  "objects_to_send a rd wants haves =
     bind_res (collect_closure a rd haves {}) (\<lambda>exclude. collect_closure a rd wants exclude)"

section \<open>Ancestry\<close>

definition is_unexpected_type :: "error \<Rightarrow> bool" where
  "is_unexpected_type e \<longleftrightarrow> (case e of UnexpectedType _ _ \<Rightarrow> True | _ \<Rightarrow> False)"

text \<open>The parents of a commit; a missing object and an object of another type have none.\<close>

definition parents_of :: "hash_algo \<Rightarrow> reader \<Rightarrow> object_id \<Rightarrow> object_id list result" where
  "parents_of a rd i =
     (case read_typed rd i Commit of
        Ok pl \<Rightarrow> bind_res (commit_parse a pl) (\<lambda>c. Ok (c_parents c))
      | Err e \<Rightarrow> if is_not_found e \<or> is_unexpected_type e then Ok [] else Err e)"

lemma parents_of_known: "parents_of a rd i = Ok ps \<Longrightarrow> set ps \<subseteq> known_ids a"
  by (auto simp: parents_of_def bind_res_eq_Ok split: result.splits if_splits dest!: commit_parse_known)

definition queue_parent :: "object_id set \<times> object_id list \<Rightarrow> object_id \<Rightarrow> object_id set \<times> object_id list" where
  "queue_parent = (\<lambda>(seen, queue) p. if p \<in> seen then (seen, queue) else (insert p seen, queue @ [p]))"

lemma queue_parents_seen: "fst (foldl queue_parent (seen, queue) ps) = seen \<union> set ps"
  by (induction ps arbitrary: seen queue) (auto simp: queue_parent_def)

lemma queue_parents_queue: "set (snd (foldl queue_parent (seen, queue) ps)) = set queue \<union> (set ps - seen)"
  by (induction ps arbitrary: seen queue) (auto simp: queue_parent_def)

lemma queue_parents_decrease:
  assumes "set ps \<subseteq> known_ids a" and "foldl queue_parent (seen, queue) ps = (seen', queue')"
  shows "card (known_ids a - seen') < card (known_ids a - seen)
    \<or> card (known_ids a - seen') = card (known_ids a - seen) \<and> queue' = queue"
proof (cases "set ps \<subseteq> seen")
  case True
  then have "foldl queue_parent (seen, queue) ps = (seen, queue)"
    by (induction ps) (auto simp: queue_parent_def)
  with assms(2) show ?thesis by simp
next
  case False
  have "seen' = seen \<union> set ps" using assms(2) queue_parents_seen [of seen queue ps] by simp
  with False assms(1) have "known_ids a - seen' \<subset> known_ids a - seen" by blast
  then show ?thesis by (intro disjI1 psubset_card_mono) (auto simp: finite_known_ids)
qed

function ancestors_loop :: "hash_algo \<Rightarrow> reader \<Rightarrow> object_id set \<Rightarrow> object_id list \<Rightarrow> object_id set result" where
  "ancestors_loop a rd seen [] = Ok seen"
| "ancestors_loop a rd seen (i # queue) =
     bind_res (parents_of a rd i) (\<lambda>ps.
       case foldl queue_parent (seen, queue) ps of
         (seen', queue') \<Rightarrow> ancestors_loop a rd seen' queue')"
  by pat_completeness auto
termination
proof (relation "measures [\<lambda>(a, rd, seen, queue). card (known_ids a - seen), \<lambda>(a, rd, seen, queue). length queue]")
  fix a and rd :: reader and seen seen' and i and queue queue' ps :: "object_id list"
  assume "parents_of a rd i = Ok ps" "(seen', queue') = foldl queue_parent (seen, queue) ps"
  then have "card (known_ids a - seen') < card (known_ids a - seen)
    \<or> card (known_ids a - seen') = card (known_ids a - seen) \<and> queue' = queue"
    by (intro queue_parents_decrease parents_of_known) simp_all
  then show "((a, rd, seen', queue'), a, rd, seen, i # queue)
    \<in> measures [\<lambda>(a, rd, seen, queue). card (known_ids a - seen), \<lambda>(a, rd, seen, queue). length queue]"
    by auto
qed simp

definition commit_ancestors :: "hash_algo \<Rightarrow> reader \<Rightarrow> object_id \<Rightarrow> object_id set result" where
  "commit_ancestors a rd tip = ancestors_loop a rd {tip} [tip]"

text \<open>The inner loop of \<open>is_ancestor\<close>: \<open>None\<close> when the ancestor is among the parents.\<close>

fun scan_parents :: "object_id \<Rightarrow> object_id list \<Rightarrow> object_id set \<times> object_id list \<Rightarrow> (object_id set \<times> object_id list) option" where
  "scan_parents anc [] st = Some st"
| "scan_parents anc (p # ps) st = (if p = anc then None else scan_parents anc ps (queue_parent st p))"

lemma scan_parents_eq:
  "scan_parents anc ps st = (if anc \<in> set ps then None else Some (foldl queue_parent st ps))"
  by (induction ps arbitrary: st) auto

function is_ancestor_loop :: "hash_algo \<Rightarrow> reader \<Rightarrow> object_id \<Rightarrow> object_id set \<Rightarrow> object_id list \<Rightarrow> bool result" where
  "is_ancestor_loop a rd anc seen [] = Ok False"
| "is_ancestor_loop a rd anc seen (i # queue) =
     bind_res (parents_of a rd i) (\<lambda>ps.
       case scan_parents anc ps (seen, queue) of
         None \<Rightarrow> Ok True
       | Some (seen', queue') \<Rightarrow> is_ancestor_loop a rd anc seen' queue')"
  by pat_completeness auto
termination
proof (relation "measures [\<lambda>(a, rd, anc, seen, queue). card (known_ids a - seen),
      \<lambda>(a, rd, anc, seen, queue). length queue]")
  fix a and rd :: reader and anc :: object_id and seen seen' and i and queue queue' ps :: "object_id list" and x
  assume "parents_of a rd i = Ok ps" "scan_parents anc ps (seen, queue) = Some x" "(seen', queue') = x"
  then have "card (known_ids a - seen') < card (known_ids a - seen)
    \<or> card (known_ids a - seen') = card (known_ids a - seen) \<and> queue' = queue"
    by (intro queue_parents_decrease parents_of_known) (auto simp: scan_parents_eq split: if_splits)
  then show "((a, rd, anc, seen', queue'), a, rd, anc, seen, i # queue)
    \<in> measures [\<lambda>(a, rd, anc, seen, queue). card (known_ids a - seen),
      \<lambda>(a, rd, anc, seen, queue). length queue]"
    by auto
qed simp

definition is_ancestor :: "hash_algo \<Rightarrow> reader \<Rightarrow> object_id \<Rightarrow> object_id \<Rightarrow> bool result" where
  "is_ancestor a rd anc descendant =
     (if anc = descendant then Ok True else is_ancestor_loop a rd anc {descendant} [descendant])"

section \<open>Merge bases\<close>

fun redundant_loop :: "hash_algo \<Rightarrow> reader \<Rightarrow> object_id set \<Rightarrow> object_id list \<Rightarrow> object_id set \<Rightarrow> object_id set result" where
  "redundant_loop a rd common [] redundant = Ok redundant"
| "redundant_loop a rd common (i # ids) redundant =
     bind_res (parents_of a rd i) (\<lambda>ps.
       redundant_loop a rd common ids (redundant \<union> (set ps \<inter> common)))"

definition merge_bases :: "hash_algo \<Rightarrow> reader \<Rightarrow> (object_id \<Rightarrow> bool) \<Rightarrow> object_id \<Rightarrow> object_id \<Rightarrow> object_id list result" where
  "merge_bases a rd has i j =
     bind_res (commit_ancestors a rd i) (\<lambda>ancestors_of_a.
     bind_res (commit_ancestors a rd j) (\<lambda>ancestors_of_b.
     let common = ancestors_of_a \<inter> ancestors_of_b;
         ids = sorted_list_of_set common
     in bind_res (redundant_loop a rd common ids {}) (\<lambda>redundant.
          Ok (filter (\<lambda>k. k \<notin> redundant \<and> has k) ids))))"

fun newest_base :: "hash_algo \<Rightarrow> reader \<Rightarrow> object_id list \<Rightarrow> (int \<times> object_id) option \<Rightarrow> (int \<times> object_id) option result" where
  "newest_base a rd [] best = Ok best"
| "newest_base a rd (i # ids) best =
     bind_res (read_typed rd i Commit) (\<lambda>pl.
     bind_res (commit_parse a pl) (\<lambda>c.
       let time = sig_time (c_committer c)
       in newest_base a rd ids
            (case best of None \<Rightarrow> Some (time, i) | Some (t, _) \<Rightarrow> if t < time then Some (time, i) else best)))"

definition merge_base :: "hash_algo \<Rightarrow> reader \<Rightarrow> (object_id \<Rightarrow> bool) \<Rightarrow> object_id \<Rightarrow> object_id \<Rightarrow> object_id option result" where
  "merge_base a rd has i j =
     bind_res (merge_bases a rd has i j) (\<lambda>ids.
     bind_res (newest_base a rd ids None) (\<lambda>best. Ok (map_option snd best)))"

section \<open>The revision walk\<close>

record queued =
  q_time :: int
  q_seq :: nat
  q_id :: object_id
  q_commit :: commit

text \<open>The order of \<open>impl Ord for Queued\<close>: a later date, then an earlier sequence number, is greater.\<close>

definition queued_less :: "queued \<Rightarrow> queued \<Rightarrow> bool" where
  "queued_less x y \<longleftrightarrow> q_time x < q_time y \<or> q_time x = q_time y \<and> q_seq y < q_seq x"

text \<open>\<open>BinaryHeap::pop\<close>: a greatest element and the others.\<close>

fun heap_pop :: "queued list \<Rightarrow> (queued \<times> queued list) option" where
  "heap_pop [] = None"
| "heap_pop (x # xs) =
     (case heap_pop xs of
        None \<Rightarrow> Some (x, [])
      | Some (m, r) \<Rightarrow> if queued_less x m then Some (m, x # r) else Some (x, xs))"

record rev_walk =
  rw_pending_tips :: "object_id list"
  rw_queue :: "queued list"
  rw_seen :: "object_id set"
  rw_seq :: nat

definition rev_walk_new :: "object_id list \<Rightarrow> rev_walk" where
  "rev_walk_new tips = \<lparr>rw_pending_tips = tips, rw_queue = [], rw_seen = {}, rw_seq = 0\<rparr>"

definition enqueue :: "hash_algo \<Rightarrow> reader \<Rightarrow> rev_walk \<Rightarrow> object_id \<Rightarrow> unit result \<times> rev_walk" where
  "enqueue a rd w i =
     (if i \<in> rw_seen w then (Ok (), w)
      else
        let w1 = w\<lparr>rw_seen := insert i (rw_seen w)\<rparr>
        in case read_typed rd i Commit of
             Err e \<Rightarrow> if is_not_found e then (Ok (), w1) else (Err e, w1)
           | Ok pl \<Rightarrow>
               (case commit_parse a pl of
                  Err e \<Rightarrow> (Err e, w1)
                | Ok c \<Rightarrow>
                    (Ok (), w1\<lparr>rw_seq := rw_seq w1 + 1,
                               rw_queue := rw_queue w1 @ [\<lparr>q_time = sig_time (c_committer c),
                                 q_seq = rw_seq w1 + 1, q_id = i, q_commit = c\<rparr>]\<rparr>)))"

fun enqueue_all :: "hash_algo \<Rightarrow> reader \<Rightarrow> rev_walk \<Rightarrow> object_id list \<Rightarrow> unit result \<times> rev_walk" where
  "enqueue_all a rd w [] = (Ok (), w)"
| "enqueue_all a rd w (i # ids) =
     (case enqueue a rd w i of (Err e, w') \<Rightarrow> (Err e, w') | (Ok _, w') \<Rightarrow> enqueue_all a rd w' ids)"

definition rev_step :: "hash_algo \<Rightarrow> reader \<Rightarrow> rev_walk \<Rightarrow> (object_id \<times> commit) option result \<times> rev_walk" where
  "rev_step a rd w =
     (case enqueue_all a rd (w\<lparr>rw_pending_tips := []\<rparr>) (rw_pending_tips w) of
        (Err e, w1) \<Rightarrow> (Err e, w1)
      | (Ok _, w1) \<Rightarrow>
          (case heap_pop (rw_queue w1) of
             None \<Rightarrow> (Ok None, w1)
           | Some (q, rest) \<Rightarrow>
               (case enqueue_all a rd (w1\<lparr>rw_queue := rest\<rparr>) (c_parents (q_commit q)) of
                  (Err e, w2) \<Rightarrow> (Err e, w2)
                | (Ok _, w2) \<Rightarrow> (Ok (Some (q_id q, q_commit q)), w2))))"

text \<open>What a caller that collects the iterator into a \<open>Result\<close> of a vector gets, within \<open>n\<close> steps.\<close>

fun rev_collect :: "nat \<Rightarrow> hash_algo \<Rightarrow> reader \<Rightarrow> rev_walk \<Rightarrow> (object_id \<times> commit) list result option" where
  "rev_collect 0 a rd w = None"
| "rev_collect (Suc n) a rd w =
     (case rev_step a rd w of
        (Err e, _) \<Rightarrow> Some (Err e)
      | (Ok None, _) \<Rightarrow> Some (Ok [])
      | (Ok (Some x), w') \<Rightarrow>
          (case rev_collect n a rd w' of
             None \<Rightarrow> None
           | Some (Err e) \<Rightarrow> Some (Err e)
           | Some (Ok xs) \<Rightarrow> Some (Ok (x # xs))))"

section \<open>Lemmas\<close>

subsection \<open>Closures\<close>

text \<open>An object links to another one unless that is excluded; objects that stop a walk with an error.\<close>

definition link :: "hash_algo \<Rightarrow> reader \<Rightarrow> object_id set \<Rightarrow> (object_id \<times> object_id) set" where
  "link a rd X = {(i, j). j \<notin> X \<and> (\<exists>ty pl ls. rd i = Ok (ty, pl) \<and> object_links a ty pl = Ok ls \<and> j \<in> set ls)}"

definition unreadable :: "hash_algo \<Rightarrow> reader \<Rightarrow> object_id \<Rightarrow> bool" where
  "unreadable a rd i \<longleftrightarrow>
     (case rd i of Err e \<Rightarrow> \<not> is_not_found e | Ok (ty, pl) \<Rightarrow> is_err (object_links a ty pl))"

definition reach :: "hash_algo \<Rightarrow> reader \<Rightarrow> object_id set \<Rightarrow> object_id list \<Rightarrow> object_id set" where
  "reach a rd X roots = (link a rd X)\<^sup>* `` (set roots - X)"

lemma rtrancl_closed: "R `` S \<subseteq> S \<Longrightarrow> R\<^sup>* `` S = S"
proof -
  assume S: "R `` S \<subseteq> S"
  have "j \<in> S" if "(i, j) \<in> R\<^sup>*" "i \<in> S" for i j
    using that by (induction rule: rtrancl_induct) (use S in auto)
  then show ?thesis by auto
qed

lemma rtrancl_add_step: "i \<in> S \<Longrightarrow> T \<subseteq> R `` {i} \<Longrightarrow> R\<^sup>* `` (S \<union> T) = R\<^sup>* `` S"
proof -
  assume "i \<in> S" "T \<subseteq> R `` {i}"
  then have "\<exists>x\<in>S. (x, j) \<in> R\<^sup>*" if "t \<in> T" "(t, j) \<in> R\<^sup>*" for t j
    using that by (blast intro: converse_rtrancl_into_rtrancl)
  then show ?thesis by blast
qed

lemma link_object:
  "rd i = Ok (ty, pl) \<Longrightarrow> object_links a ty pl = Ok ls \<Longrightarrow> link a rd X `` {i} = set ls - X"
  by (auto simp: link_def)

lemma link_missing: "rd i = Err e \<Longrightarrow> link a rd X `` {i} = {}"
  by (auto simp: link_def)

lemma closure_loop_spec:
  assumes "link a rd X `` seen \<subseteq> seen \<union> set stack" and "seen \<inter> X = {}" and "\<forall>i\<in>seen. \<not> unreadable a rd i"
  shows "case closure_loop a rd X seen stack of
      Ok S \<Rightarrow> S = (link a rd X)\<^sup>* `` (seen \<union> (set stack - X)) \<and> (\<forall>i\<in>S. \<not> unreadable a rd i)
    | Err e \<Rightarrow> \<exists>i\<in>(link a rd X)\<^sup>* `` (seen \<union> (set stack - X)). unreadable a rd i"
  using assms
proof (induction a rd X seen stack rule: closure_loop.induct)
  case (1 a rd X seen)
  then show ?case by (simp add: rtrancl_closed)
next
  case (2 a rd X seen i stack)
  let ?R = "link a rd X"
  show ?case
  proof (cases "i \<in> X \<or> i \<in> seen")
    case True
    then have same: "seen \<union> (set (i # stack) - X) = seen \<union> (set stack - X)" by auto
    have "?R `` seen \<subseteq> seen \<union> set stack"
    proof
      fix j assume j: "j \<in> ?R `` seen"
      then have "j \<notin> X" by (auto simp: link_def)
      with j "2.prems"(1) True show "j \<in> seen \<union> set stack" by auto
    qed
    then show ?thesis using "2.IH"(1) [OF True] "2.prems"(2,3) True unfolding same by simp
  next
    case False
    have grow: "seen \<union> (set (i # stack) - X) = insert i seen \<union> (set stack - X)" using False by auto
    show ?thesis
    proof (cases "rd i")
      case (Err e)
      show ?thesis
      proof (cases "is_not_found e")
        case True
        have "?R `` insert i seen \<subseteq> insert i seen \<union> set stack" "\<not> unreadable a rd i"
          using "2.prems"(1) link_missing [of rd i e a X, OF Err] Err True by (auto simp: unreadable_def)
        then show ?thesis
          using "2.IH"(3) [OF False Err True] "2.prems" False Err True unfolding grow by simp
      next
        case nf: False
        then have "unreadable a rd i" using Err by (simp add: unreadable_def)
        then show ?thesis using False Err nf unfolding grow by auto
      qed
    next
      case (Ok x)
      obtain ty pl where x: "x = (ty, pl)" by (cases x)
      show ?thesis
      proof (cases "object_links a ty pl")
        case (Err e)
        then have "unreadable a rd i" using Ok x by (simp add: unreadable_def)
        then show ?thesis using False Ok x Err unfolding grow by auto
      next
        case ls: (Ok ls)
        let ?stack = "foldl (push_if_new (insert i seen) X) stack ls"
        have l: "?R `` {i} = set ls - X" using link_object [of rd i ty pl a ls X] Ok x ls by blast
        have c: "?R `` insert i seen \<subseteq> insert i seen \<union> set ?stack" "\<not> unreadable a rd i"
          using "2.prems"(1) l Ok x ls by (auto simp: unreadable_def set_push_if_new)
        have eq: "?R\<^sup>* `` (insert i seen \<union> (set ?stack - X)) = ?R\<^sup>* `` (insert i seen \<union> (set stack - X))"
        proof -
          have "insert i seen \<union> (set ?stack - X) = (insert i seen \<union> (set stack - X)) \<union> (set ls - X)"
            by (auto simp: set_push_if_new)
          then show ?thesis using rtrancl_add_step [of i "insert i seen \<union> (set stack - X)" "set ls - X" ?R] l by simp
        qed
        show ?thesis
          using "2.IH"(2) [OF False Ok [unfolded x] refl ls c(1), unfolded eq] c(2) "2.prems"(2,3) False Ok x ls
          unfolding grow by simp
      qed
    qed
  qed
qed

lemma collect_closure_spec:
  "case collect_closure a rd roots X of
      Ok S \<Rightarrow> S = reach a rd X roots \<and> (\<forall>i\<in>S. \<not> unreadable a rd i)
    | Err e \<Rightarrow> \<exists>i\<in>reach a rd X roots. unreadable a rd i"
proof -
  have "set (rev (filter (\<lambda>i. i \<notin> X) roots)) - X = set roots - X" by auto
  then show ?thesis
    using closure_loop_spec [of a rd X "{}" "rev (filter (\<lambda>i. i \<notin> X) roots)"]
    unfolding collect_closure_def reach_def by (simp only: Un_empty_left) simp
qed

text \<open>Avoiding a set that is closed under links is the same as removing it.\<close>

lemma reach_avoid_closed:
  assumes "link a rd {} `` X \<subseteq> X"
  shows "reach a rd X roots = reach a rd {} roots - X"
proof
  have sub: "link a rd X \<subseteq> link a rd {}" by (auto simp: link_def)
  show "reach a rd X roots \<subseteq> reach a rd {} roots - X"
  proof
    fix j assume "j \<in> reach a rd X roots"
    then obtain i where i: "i \<in> set roots - X" "(i, j) \<in> (link a rd X)\<^sup>*" by (auto simp: reach_def)
    from i(2,1) have "j \<notin> X" by (induction rule: rtrancl_induct) (auto simp: link_def)
    with i rtrancl_mono [OF sub] show "j \<in> reach a rd {} roots - X" by (auto simp: reach_def)
  qed
  show "reach a rd {} roots - X \<subseteq> reach a rd X roots"
  proof
    fix j assume "j \<in> reach a rd {} roots - X"
    then obtain i where i: "i \<in> set roots" "(i, j) \<in> (link a rd {})\<^sup>*" "j \<notin> X" by (auto simp: reach_def)
    from i(2,3) have "i \<notin> X \<and> (i, j) \<in> (link a rd X)\<^sup>*"
    proof (induction rule: rtrancl_induct)
      case (step j k)
      then have "j \<notin> X" using assms by blast
      with step show ?case by (auto simp: link_def intro: rtrancl_into_rtrancl)
    qed simp
    with i(1) show "j \<in> reach a rd X roots" by (auto simp: reach_def)
  qed
qed

lemma reach_closed: "link a rd {} `` reach a rd {} roots \<subseteq> reach a rd {} roots"
  by (auto simp: reach_def intro: rtrancl_into_rtrancl)

subsection \<open>Ancestry\<close>

definition parent_rel :: "hash_algo \<Rightarrow> reader \<Rightarrow> (object_id \<times> object_id) set" where
  "parent_rel a rd = {(i, j). \<exists>ps. parents_of a rd i = Ok ps \<and> j \<in> set ps}"

lemma parent_rel_Image: "parents_of a rd i = Ok ps \<Longrightarrow> parent_rel a rd `` {i} = set ps"
  by (auto simp: parent_rel_def)

lemma ancestors_loop_spec:
  assumes "set queue \<subseteq> seen" and "parent_rel a rd `` (seen - set queue) \<subseteq> seen"
    and "ancestors_loop a rd seen queue = Ok S"
  shows "S = (parent_rel a rd)\<^sup>* `` seen"
  using assms
proof (induction a rd seen queue rule: ancestors_loop.induct)
  case (1 a rd seen)
  then show ?case by (simp add: rtrancl_closed)
next
  case (2 a rd seen i queue)
  then obtain ps where ps: "parents_of a rd i = Ok ps" by (auto simp: bind_res_eq_Ok)
  obtain seen' queue' where f: "foldl queue_parent (seen, queue) ps = (seen', queue')" by fastforce
  have s: "seen' = seen \<union> set ps" "set queue' = set queue \<union> (set ps - seen)"
    using queue_parents_seen [of seen queue ps] queue_parents_queue [of seen queue ps] f by simp_all
  have "parent_rel a rd `` (seen' - set queue') \<subseteq> seen'"
    using "2.prems"(1,2) s parent_rel_Image [OF ps] by auto
  moreover have "set queue' \<subseteq> seen'" using "2.prems"(1) s by auto
  ultimately have "S = (parent_rel a rd)\<^sup>* `` seen'"
    using "2.IH" [OF ps f [symmetric]] "2.prems"(3) ps f by simp
  with s(1) rtrancl_add_step [of i seen "set ps" "parent_rel a rd"] parent_rel_Image [OF ps] "2.prems"(1)
  show ?case by simp
qed

lemma commit_ancestors_spec:
  "commit_ancestors a rd tip = Ok S \<Longrightarrow> S = (parent_rel a rd)\<^sup>* `` {tip}"
  unfolding commit_ancestors_def by (rule ancestors_loop_spec [of "[tip]" "{tip}"]) auto

lemma is_ancestor_loop_spec:
  assumes "set queue \<subseteq> seen" and "parent_rel a rd `` (seen - set queue) \<subseteq> seen" and "anc \<notin> seen"
    and "is_ancestor_loop a rd anc seen queue = Ok b"
  shows "b \<longleftrightarrow> anc \<in> (parent_rel a rd)\<^sup>* `` seen"
  using assms
proof (induction a rd anc seen queue rule: is_ancestor_loop.induct)
  case (1 a rd anc seen)
  then show ?case by (simp add: rtrancl_closed)
next
  case (2 a rd anc seen i queue)
  then obtain ps where ps: "parents_of a rd i = Ok ps" by (auto simp: bind_res_eq_Ok)
  show ?case
  proof (cases "anc \<in> set ps")
    case True
    then have "(i, anc) \<in> parent_rel a rd" using parent_rel_Image [OF ps] by blast
    with 2 ps True show ?thesis by (auto simp: scan_parents_eq)
  next
    case False
    obtain seen' queue' where f: "foldl queue_parent (seen, queue) ps = (seen', queue')" by fastforce
    have s: "seen' = seen \<union> set ps" "set queue' = set queue \<union> (set ps - seen)"
      using queue_parents_seen [of seen queue ps] queue_parents_queue [of seen queue ps] f by simp_all
    have "parent_rel a rd `` (seen' - set queue') \<subseteq> seen'"
      using "2.prems"(1,2) s parent_rel_Image [OF ps] by auto
    moreover have "set queue' \<subseteq> seen'" "anc \<notin> seen'" using "2.prems"(1,3) s False by auto
    ultimately have "b \<longleftrightarrow> anc \<in> (parent_rel a rd)\<^sup>* `` seen'"
      using "2.IH" [OF ps, of "(seen', queue')" seen' queue'] "2.prems"(4) ps f False
      by (simp add: scan_parents_eq)
    with s(1) rtrancl_add_step [of i seen "set ps" "parent_rel a rd"] parent_rel_Image [OF ps] "2.prems"(1)
    show ?thesis by simp
  qed
qed

lemma redundant_loop_spec:
  "redundant_loop a rd common ids redundant = Ok S \<Longrightarrow>
     S = redundant \<union> (parent_rel a rd `` set ids \<inter> common)"
proof (induction ids arbitrary: redundant)
  case (Cons i ids)
  then obtain ps where "parents_of a rd i = Ok ps"
    "redundant_loop a rd common ids (redundant \<union> (set ps \<inter> common)) = Ok S" by (auto simp: bind_res_eq_Ok)
  with Cons.IH have "S = redundant \<union> (set ps \<inter> common) \<union> (parent_rel a rd `` set ids \<inter> common)" by blast
  moreover have "parent_rel a rd `` set (i # ids) = set ps \<union> parent_rel a rd `` set ids"
    using parent_rel_Image [OF \<open>parents_of a rd i = Ok ps\<close>] by auto
  ultimately show ?case by auto
qed simp

subsection \<open>The revision walk\<close>

text \<open>Reading a commit in the walk: a missing one is skipped.\<close>

definition load :: "hash_algo \<Rightarrow> reader \<Rightarrow> object_id \<Rightarrow> commit option result" where
  "load a rd i =
     (case read_typed rd i Commit of
        Err e \<Rightarrow> if is_not_found e then Ok None else Err e
      | Ok pl \<Rightarrow> bind_res (commit_parse a pl) (\<lambda>c. Ok (Some c)))"

definition commits_rel :: "hash_algo \<Rightarrow> reader \<Rightarrow> (object_id \<times> object_id) set" where
  "commits_rel a rd = {(i, j). \<exists>c. load a rd i = Ok (Some c) \<and> j \<in> set (c_parents c)}"

lemma commits_rel_Image: "load a rd i = Ok (Some c) \<Longrightarrow> commits_rel a rd `` {i} = set (c_parents c)"
  by (auto simp: commits_rel_def)

lemma load_known: "load a rd i = Ok (Some c) \<Longrightarrow> set (c_parents c) \<subseteq> known_ids a"
  by (auto simp: load_def bind_res_eq_Ok split: result.splits if_splits dest!: commit_parse_known)

lemma enqueue_eq:
  "enqueue a rd w i =
     (if i \<in> rw_seen w then (Ok (), w)
      else
        let w1 = w\<lparr>rw_seen := insert i (rw_seen w)\<rparr>
        in case load a rd i of
             Err e \<Rightarrow> (Err e, w1)
           | Ok None \<Rightarrow> (Ok (), w1)
           | Ok (Some c) \<Rightarrow>
               (Ok (), w1\<lparr>rw_seq := rw_seq w1 + 1,
                          rw_queue := rw_queue w1 @ [\<lparr>q_time = sig_time (c_committer c),
                            q_seq = rw_seq w1 + 1, q_id = i, q_commit = c\<rparr>]\<rparr>))"
  by (auto simp: enqueue_def load_def Let_def bind_res_def split: result.split)

definition rev_inv :: "hash_algo \<Rightarrow> reader \<Rightarrow> object_id set \<Rightarrow> rev_walk \<Rightarrow> bool" where
  "rev_inv a rd D w \<longleftrightarrow>
     distinct (map q_id (rw_queue w)) \<and> D \<subseteq> rw_seen w
     \<and> (\<forall>q\<in>set (rw_queue w). q_id q \<in> rw_seen w \<and> q_id q \<notin> D \<and> load a rd (q_id q) = Ok (Some (q_commit q))
          \<and> q_time q = sig_time (c_committer (q_commit q)))
     \<and> (\<forall>i\<in>D. \<exists>c. load a rd i = Ok (Some c))
     \<and> (\<forall>i\<in>rw_seen w. load a rd i = Ok None \<or> i \<in> D \<or> (\<exists>q\<in>set (rw_queue w). q_id q = i))"

lemma enqueue_inv:
  assumes "enqueue a rd w i = (Ok (), w')" and "rev_inv a rd D w"
  shows "rev_inv a rd D w' \<and> rw_seen w' = insert i (rw_seen w) \<and> rw_pending_tips w' = rw_pending_tips w
    \<and> (\<forall>q\<in>set (rw_queue w'). q \<in> set (rw_queue w) \<or> q_id q = i)"
proof (cases "i \<in> rw_seen w")
  case True
  with assms show ?thesis by (auto simp: enqueue_eq)
next
  case False
  then have "i \<notin> q_id ` set (rw_queue w)" "i \<notin> D" using assms(2) by (auto simp: rev_inv_def)
  with False assms show ?thesis
    by (auto simp: enqueue_eq Let_def rev_inv_def split: result.splits option.splits) blast+
qed

lemma enqueue_all_inv:
  "enqueue_all a rd w ids = (Ok (), w') \<Longrightarrow> rev_inv a rd D w \<Longrightarrow>
     rev_inv a rd D w' \<and> rw_seen w' = rw_seen w \<union> set ids \<and> rw_pending_tips w' = rw_pending_tips w
     \<and> (\<forall>q\<in>set (rw_queue w'). q \<in> set (rw_queue w) \<or> q_id q \<in> set ids)"
proof (induction ids arbitrary: w)
  case (Cons i ids)
  obtain w1 where w1: "enqueue a rd w i = (Ok (), w1)" "enqueue_all a rd w1 ids = (Ok (), w')"
    using Cons.prems(1) by (auto split: prod.splits result.splits)
  from enqueue_inv [OF w1(1) Cons.prems(2)] Cons.IH [OF w1(2)] show ?case by fastforce
qed simp

lemma heap_pop_None: "heap_pop xs = None \<longleftrightarrow> xs = []"
  by (cases xs) (auto split: option.splits prod.splits if_splits)

lemma heap_pop_Some:
  "heap_pop xs = Some (m, r) \<Longrightarrow> mset xs = add_mset m (mset r) \<and> (\<forall>x\<in>set r. q_time x \<le> q_time m)"
proof (induction xs arbitrary: m r)
  case (Cons x xs)
  show ?case
  proof (cases "heap_pop xs")
    case None
    with Cons.prems heap_pop_None [of xs] show ?thesis by auto
  next
    case (Some y)
    obtain m1 r1 where y: "y = (m1, r1)" by (cases y)
    have IH: "mset xs = add_mset m1 (mset r1)" "\<forall>x\<in>set r1. q_time x \<le> q_time m1"
      using Cons.IH [OF Some [unfolded y]] by simp_all
    then have "set xs = insert m1 (set r1)" by (metis set_mset_add_mset_insert set_mset_mset)
    with Cons.prems Some y IH show ?thesis
      by (auto simp: queued_less_def split: if_splits)
  qed
qed simp

text \<open>One step of a walk whose tips are loaded: it emits a newest queued commit.\<close>

lemma rev_step_Some:
  assumes "rev_step a rd w = (Ok (Some (i, c)), w')" and "rw_pending_tips w = []" and "rev_inv a rd D w"
  shows "rev_inv a rd (insert i D) w' \<and> rw_seen w' = rw_seen w \<union> set (c_parents c) \<and> rw_pending_tips w' = []
    \<and> load a rd i = Ok (Some c) \<and> i \<in> rw_seen w \<and> i \<notin> D
    \<and> (\<exists>q\<in>set (rw_queue w). q_time q = sig_time (c_committer c))
    \<and> (\<forall>q\<in>set (rw_queue w'). q_time q \<le> sig_time (c_committer c) \<or> q_id q \<in> set (c_parents c))"
proof -
  obtain q r where q: "heap_pop (rw_queue w) = Some (q, r)" "i = q_id q" "c = q_commit q"
    and e: "enqueue_all a rd (w\<lparr>rw_queue := r\<rparr>) (c_parents c) = (Ok (), w')"
  proof -
    have "w\<lparr>rw_pending_tips := []\<rparr> = w" using assms(2) by simp
    with assms(1,2) that show thesis
      by (auto simp: rev_step_def split: prod.splits result.splits option.splits)
  qed
  note pop = heap_pop_Some [OF q(1)]
  then have set_q: "set (rw_queue w) = insert q (set r)" by (metis set_mset_add_mset_insert set_mset_mset)
  have "mset (map q_id (rw_queue w)) = mset (q_id q # map q_id r)" using pop by (simp add: mset_map)
  then have d: "distinct (q_id q # map q_id r)"
    using assms(3) unfolding rev_inv_def by (metis mset_eq_imp_distinct_iff)
  have ld: "load a rd i = Ok (Some c)" "q_time q = sig_time (c_committer c)" "i \<in> rw_seen w" "i \<notin> D"
    using assms(3) set_q q by (auto simp: rev_inv_def)
  have "rev_inv a rd (insert i D) (w\<lparr>rw_queue := r\<rparr>)"
    using assms(3) d set_q q ld by (auto simp: rev_inv_def) (metis imageI)
  from enqueue_all_inv [OF e this] assms(2) ld set_q pop show ?thesis by fastforce
qed

lemma rev_collect_terminates:
  assumes "finite U" and "commits_rel a rd `` U \<subseteq> U"
  shows "rev_inv a rd D w \<Longrightarrow> rw_pending_tips w = [] \<Longrightarrow> rw_seen w \<subseteq> U \<Longrightarrow> card (U - D) < n \<Longrightarrow>
    \<exists>r. rev_collect n a rd w = Some r"
proof (induction n arbitrary: w D)
  case (Suc n)
  obtain o' w' where st: "rev_step a rd w = (o', w')" by fastforce
  show ?case
  proof (cases "\<exists>i c. o' = Ok (Some (i, c))")
    case True
    then obtain i c where o: "o' = Ok (Some (i, c))" by blast
    note step = rev_step_Some [OF st [unfolded o] Suc.prems(2,1)]
    then have "i \<in> U - D" using Suc.prems(3) by auto
    then have "card (U - insert i D) < card (U - D)"
      using assms(1) by (intro psubset_card_mono) auto
    moreover have "rw_seen w' \<subseteq> U"
      using step Suc.prems(3) commits_rel_Image [of a rd i c] assms(2) by auto
    ultimately obtain r where "rev_collect n a rd w' = Some r"
      using Suc.IH [of "insert i D" w'] step Suc.prems(4) by auto
    with st o show ?thesis by (cases r) auto
  next
    case False
    with st show ?thesis by (cases o') (auto split: option.splits)
  qed
qed simp

definition dates_monotone :: "hash_algo \<Rightarrow> reader \<Rightarrow> bool" where
  "dates_monotone a rd \<longleftrightarrow>
     (\<forall>i j c d. load a rd i = Ok (Some c) \<and> j \<in> set (c_parents c) \<and> load a rd j = Ok (Some d) \<longrightarrow>
        sig_time (c_committer d) \<le> sig_time (c_committer c))"

lemma rev_collect_spec:
  assumes "rev_collect n a rd w = Some (Ok out)" and "rw_pending_tips w = []" and "rev_inv a rd D w"
    and "commits_rel a rd `` D \<subseteq> rw_seen w"
  shows "distinct (map fst out) \<and> fst ` set out \<inter> D = {}
    \<and> (\<forall>(i, c)\<in>set out. load a rd i = Ok (Some c))
    \<and> fst ` set out \<union> D = {i \<in> (commits_rel a rd)\<^sup>* `` rw_seen w. \<exists>c. load a rd i = Ok (Some c)}
    \<and> (dates_monotone a rd \<longrightarrow>
         sorted_wrt (\<lambda>x y. sig_time (c_committer (snd y)) \<le> sig_time (c_committer (snd x))) out
         \<and> (\<forall>T. (\<forall>q\<in>set (rw_queue w). q_time q \<le> T) \<longrightarrow> (\<forall>(i, c)\<in>set out. sig_time (c_committer c) \<le> T)))"
  using assms
proof (induction n arbitrary: w D out)
  case (Suc n)
  obtain o' w' where st: "rev_step a rd w = (o', w')" by fastforce
  consider "o' = Ok None" "out = []" | i c xs where "o' = Ok (Some (i, c))" "rev_collect n a rd w' = Some (Ok xs)" "out = (i, c) # xs"
    using Suc.prems(1) st by (auto split: result.splits option.splits)
  then show ?case
  proof cases
    case 1
    then have "rw_queue w = []"
      using st Suc.prems(2) heap_pop_None [of "rw_queue w"]
      by (auto simp: rev_step_def split: prod.splits result.splits option.splits)
    moreover from this have "commits_rel a rd `` rw_seen w \<subseteq> rw_seen w"
      using Suc.prems(3,4) by (force simp: rev_inv_def commits_rel_def)
    ultimately show ?thesis
      using 1 Suc.prems(3) rtrancl_closed [of "commits_rel a rd" "rw_seen w"] by (auto simp: rev_inv_def)
  next
    case (2 i c xs)
    note step = rev_step_Some [OF st [unfolded 2(1)] Suc.prems(2,3)]
    have img: "commits_rel a rd `` {i} = set (c_parents c)" using commits_rel_Image step by blast
    then have "commits_rel a rd `` insert i D \<subseteq> rw_seen w'" using step Suc.prems(4) by auto
    note IH = Suc.IH [OF 2(2) _ _ this]
    have seen: "(commits_rel a rd)\<^sup>* `` rw_seen w' = (commits_rel a rd)\<^sup>* `` rw_seen w"
      using rtrancl_add_step [of i "rw_seen w" "set (c_parents c)" "commits_rel a rd"] img step by simp
    have bound: "\<forall>q\<in>set (rw_queue w'). q_time q \<le> sig_time (c_committer c)" if "dates_monotone a rd"
    proof
      fix q assume q: "q \<in> set (rw_queue w')"
      with step have "load a rd (q_id q) = Ok (Some (q_commit q))" "q_time q = sig_time (c_committer (q_commit q))"
        by (auto simp: rev_inv_def)
      with q step that show "q_time q \<le> sig_time (c_committer c)" unfolding dates_monotone_def by metis
    qed
    have "distinct (map fst out)" "fst ` set out \<inter> D = {}" "\<forall>(i, c)\<in>set out. load a rd i = Ok (Some c)"
      using IH step 2(3) by auto
    moreover have "fst ` set out \<union> D = {i \<in> (commits_rel a rd)\<^sup>* `` rw_seen w. \<exists>c. load a rd i = Ok (Some c)}"
    proof -
      have "fst ` set xs \<union> insert i D = {i \<in> (commits_rel a rd)\<^sup>* `` rw_seen w'. \<exists>c. load a rd i = Ok (Some c)}"
        using IH step by blast
      then show ?thesis unfolding seen by (simp add: 2(3))
    qed
    moreover have "sorted_wrt (\<lambda>x y. sig_time (c_committer (snd y)) \<le> sig_time (c_committer (snd x))) out
         \<and> (\<forall>T. (\<forall>q\<in>set (rw_queue w). q_time q \<le> T) \<longrightarrow> (\<forall>(i, c)\<in>set out. sig_time (c_committer c) \<le> T))"
      if m: "dates_monotone a rd"
    proof -
      have xs: "sorted_wrt (\<lambda>x y. sig_time (c_committer (snd y)) \<le> sig_time (c_committer (snd x))) xs"
        "\<forall>(j, d)\<in>set xs. sig_time (c_committer d) \<le> sig_time (c_committer c)"
        using IH step m bound [OF m] by blast+
      moreover have "sig_time (c_committer c) \<le> T" if "\<forall>q\<in>set (rw_queue w). q_time q \<le> T" for T
        using step that by auto
      ultimately show ?thesis unfolding 2(3) by fastforce
    qed
    ultimately show ?thesis by blast
  qed
qed simp

lemma rev_inv_new: "rev_inv a rd {} (rev_walk_new tips\<lparr>rw_pending_tips := []\<rparr>)"
  by (simp add: rev_inv_def rev_walk_new_def)

text \<open>The first step loads the tips; from then on the walk is the walk of the loaded state.\<close>

lemma rev_collect_loaded:
  assumes "enqueue_all a rd (rev_walk_new tips\<lparr>rw_pending_tips := []\<rparr>) tips = (Ok (), w)"
  shows "rev_collect n a rd (rev_walk_new tips) = rev_collect n a rd w"
proof (cases n)
  case (Suc m)
  have p: "rw_pending_tips w = []" using enqueue_all_inv [OF assms rev_inv_new] by simp
  have "rw_pending_tips (rev_walk_new tips) = tips" by (simp add: rev_walk_new_def)
  moreover have "w\<lparr>rw_pending_tips := []\<rparr> = w" using p by (cases w) simp
  ultimately have "rev_step a rd (rev_walk_new tips) = rev_step a rd w"
    unfolding rev_step_def p using assms by simp
  with Suc show ?thesis by simp
qed simp

lemma rev_collect_failed:
  assumes "enqueue_all a rd (rev_walk_new tips\<lparr>rw_pending_tips := []\<rparr>) tips = (Err e, w)"
  shows "rev_collect (Suc n) a rd (rev_walk_new tips) = Some (Err e)"
proof -
  have "rw_pending_tips (rev_walk_new tips) = tips" by (simp add: rev_walk_new_def)
  then show ?thesis using assms by (simp add: rev_step_def)
qed

section \<open>Properties\<close>

text \<open>
  C16. The closure walk computes reachability: on every database and for every set of roots and
  exclusions the walk ends, and it returns exactly the ids that links (a commit's tree and
  parents, a tree's entries other than gitlinks, a tag's target) lead to from the roots without
  entering the excluded set; it fails exactly when an object on the way cannot be read or parsed
  (a missing object only ends its branch).
\<close>

theorem collect_closure_reach:
  "case collect_closure a rd roots X of
      Ok S \<Rightarrow> S = reach a rd X roots \<and> (\<forall>i\<in>S. \<not> unreadable a rd i)
    | Err e \<Rightarrow> \<exists>i\<in>reach a rd X roots. unreadable a rd i"
  by (rule collect_closure_spec)

theorem collect_closure_reach_witness:
  "collect_closure Sha1 (\<lambda>i. Err (NotFound (HintObject []))) [zero_oid Sha1] {} = Ok {zero_oid Sha1}
   \<and> {zero_oid Sha1} = reach Sha1 (\<lambda>i. Err (NotFound (HintObject []))) {} [zero_oid Sha1]"
proof -
  have "collect_closure Sha1 (\<lambda>i. Err (NotFound (HintObject []))) [zero_oid Sha1] {} = Ok {zero_oid Sha1}"
    by (simp add: collect_closure_def is_not_found_def)
  with collect_closure_reach [where a = Sha1 and rd = "\<lambda>i. Err (NotFound (HintObject []))" and roots = "[zero_oid Sha1]" and X = "{}"]
  show ?thesis by simp
qed

text \<open>
  C17. A transfer sends neither too little nor too much: the set computed for \<open>wants\<close> and
  \<open>haves\<close> is exactly what is reachable from the wants and not reachable from the haves, so a
  peer that has everything reachable from the haves ends up with everything reachable from the
  wants.
\<close>

theorem objects_to_send_exact:
  assumes "objects_to_send a rd wants haves = Ok S"
  shows "S = reach a rd {} wants - reach a rd {} haves"
proof -
  obtain X where X: "collect_closure a rd haves {} = Ok X" "collect_closure a rd wants X = Ok S"
    using assms by (auto simp: objects_to_send_def bind_res_eq_Ok)
  have "X = reach a rd {} haves" "S = reach a rd X wants"
    using collect_closure_spec [where a = a and rd = rd and roots = haves and X = "{}"]
      collect_closure_spec [where a = a and rd = rd and roots = wants and X = X] X by simp_all
  then show ?thesis using reach_avoid_closed [OF reach_closed] by simp
qed

theorem objects_to_send_exact_witness:
  "{zero_oid Sha1} = reach Sha1 (\<lambda>i. Err (NotFound (HintObject []))) {} [zero_oid Sha1]
     - reach Sha1 (\<lambda>i. Err (NotFound (HintObject []))) {} []"
  by (rule objects_to_send_exact) (simp add: objects_to_send_def collect_closure_def is_not_found_def)

text \<open>
  C20. Ancestry and merge bases: \<open>is_ancestor\<close> decides whether parent links lead from the
  descendant to the ancestor; \<open>merge_bases\<close> returns, in id order and without repetition,
  exactly the common ancestors that the database has and that are not proper ancestors of another
  common ancestor.
\<close>

theorem merge_bases_best:
  "(\<forall>b. is_ancestor a rd i j = Ok b \<longrightarrow> (b \<longleftrightarrow> (j, i) \<in> (parent_rel a rd)\<^sup>*))
   \<and> (\<forall>bs. merge_bases a rd has i j = Ok bs \<longrightarrow>
        sorted_wrt (<) bs
        \<and> (\<forall>k. k \<in> set bs \<longleftrightarrow> has k \<and> (i, k) \<in> (parent_rel a rd)\<^sup>* \<and> (j, k) \<in> (parent_rel a rd)\<^sup>*
             \<and> \<not> (\<exists>l. (i, l) \<in> (parent_rel a rd)\<^sup>* \<and> (j, l) \<in> (parent_rel a rd)\<^sup>* \<and> (l, k) \<in> (parent_rel a rd)\<^sup>+)))"
proof (intro conjI allI impI)
  fix b assume "is_ancestor a rd i j = Ok b"
  then show "b \<longleftrightarrow> (j, i) \<in> (parent_rel a rd)\<^sup>*"
    using is_ancestor_loop_spec [of "[j]" "{j}" a rd i b] by (auto simp: is_ancestor_def split: if_splits)
next
  fix bs assume bs: "merge_bases a rd has i j = Ok bs"
  let ?R = "parent_rel a rd"
  define common where "common = ?R\<^sup>* `` {i} \<inter> ?R\<^sup>* `` {j}"
  obtain redundant where r: "redundant_loop a rd common (sorted_list_of_set common) {} = Ok redundant"
    "bs = filter (\<lambda>k. k \<notin> redundant \<and> has k) (sorted_list_of_set common)"
    using bs commit_ancestors_spec
    by (fastforce simp: merge_bases_def bind_res_eq_Ok Let_def common_def)
  show "sorted_wrt (<) bs" unfolding r(2) by (rule sorted_wrt_filter) simp
  have fin: "finite common"
  proof -
    have "?R\<^sup>* `` {i} \<subseteq> insert i (known_ids a)"
    proof
      fix k assume "k \<in> ?R\<^sup>* `` {i}"
      then have "(i, k) \<in> ?R\<^sup>*" by simp
      then show "k \<in> insert i (known_ids a)"
        by (cases rule: rtrancl.cases) (auto simp: parent_rel_def dest: parents_of_known)
    qed
    then show ?thesis unfolding common_def by (meson finite_Int finite_insert finite_known_ids finite_subset)
  qed
  have closed: "?R `` common \<subseteq> common" by (auto simp: common_def intro: rtrancl_into_rtrancl)
  have red: "k \<in> redundant \<longleftrightarrow> (\<exists>l\<in>common. (l, k) \<in> ?R)" if "k \<in> common" for k
    using redundant_loop_spec [OF r(1)] fin that by auto
  have plus: "(\<exists>l\<in>common. (l, k) \<in> ?R) \<longleftrightarrow> (\<exists>l\<in>common. (l, k) \<in> ?R\<^sup>+)" for k
  proof
    assume "\<exists>l\<in>common. (l, k) \<in> ?R\<^sup>+"
    then obtain l m where "l \<in> common" "(l, m) \<in> ?R\<^sup>*" "(m, k) \<in> ?R" by (auto dest: tranclD2)
    moreover from this(1,2) rtrancl_closed [OF closed] have "m \<in> common" by blast
    ultimately show "\<exists>l\<in>common. (l, k) \<in> ?R" by blast
  qed blast
  fix k
  show "k \<in> set bs \<longleftrightarrow> has k \<and> (i, k) \<in> ?R\<^sup>* \<and> (j, k) \<in> ?R\<^sup>*
      \<and> \<not> (\<exists>l. (i, l) \<in> ?R\<^sup>* \<and> (j, l) \<in> ?R\<^sup>* \<and> (l, k) \<in> ?R\<^sup>+)"
    using fin red [of k] plus [of k] by (auto simp: r(2) common_def)
qed

theorem merge_bases_best_witness:
  "is_ancestor Sha1 (\<lambda>i. Err (NotFound (HintObject []))) (zero_oid Sha1) (zero_oid Sha1) = Ok True
   \<and> (zero_oid Sha1, zero_oid Sha1) \<in> (parent_rel Sha1 (\<lambda>i. Err (NotFound (HintObject []))))\<^sup>*
   \<and> merge_bases Sha1 (\<lambda>i. Err (NotFound (HintObject []))) (\<lambda>i. True) (zero_oid Sha1) (zero_oid Sha1) = Ok [zero_oid Sha1]
   \<and> sorted_wrt (<) [zero_oid Sha1]"
proof -
  let ?rd = "\<lambda>i. Err (NotFound (HintObject []))"
  have "parents_of Sha1 ?rd i = Ok []" for i
    by (simp add: parents_of_def read_typed_def is_not_found_def)
  then have "is_ancestor Sha1 ?rd (zero_oid Sha1) (zero_oid Sha1) = Ok True"
    "merge_bases Sha1 ?rd (\<lambda>i. True) (zero_oid Sha1) (zero_oid Sha1) = Ok [zero_oid Sha1]"
    by (simp_all add: is_ancestor_def merge_bases_def commit_ancestors_def)
  with merge_bases_best [of Sha1 ?rd "zero_oid Sha1" "zero_oid Sha1" "\<lambda>i. True"] show ?thesis by blast
qed

text \<open>
  C21. The revision walk is complete and in order: it ends after at most one step per reachable
  id and one more, and the commits it yields are exactly the commits that parent links lead to
  from the tips and that the database has, each once, with its parsed value; when no commit is
  older than its parents, they come out newest first.
\<close>

theorem rev_walk_correct:
  "(card ((commits_rel a rd)\<^sup>* `` set tips) < n \<longrightarrow> (\<exists>r. rev_collect n a rd (rev_walk_new tips) = Some r))
   \<and> (\<forall>out. rev_collect n a rd (rev_walk_new tips) = Some (Ok out) \<longrightarrow>
        distinct (map fst out) \<and> (\<forall>(i, c)\<in>set out. load a rd i = Ok (Some c))
        \<and> fst ` set out = {i \<in> (commits_rel a rd)\<^sup>* `` set tips. \<exists>c. load a rd i = Ok (Some c)}
        \<and> (dates_monotone a rd \<longrightarrow>
             sorted_wrt (\<lambda>x y. sig_time (c_committer (snd y)) \<le> sig_time (c_committer (snd x))) out))"
proof -
  let ?w = "rev_walk_new tips\<lparr>rw_pending_tips := []\<rparr>" and ?U = "(commits_rel a rd)\<^sup>* `` set tips"
  have U: "finite ?U" "commits_rel a rd `` ?U \<subseteq> ?U"
  proof -
    have "?U \<subseteq> set tips \<union> known_ids a"
    proof
      fix k assume "k \<in> ?U"
      then obtain i where i: "i \<in> set tips" "(i, k) \<in> (commits_rel a rd)\<^sup>*" by blast
      from i(2) show "k \<in> set tips \<union> known_ids a"
        by (cases rule: rtrancl.cases) (use i(1) in \<open>auto simp: commits_rel_def dest: load_known\<close>)
    qed
    then show "finite ?U" by (rule finite_subset) (simp add: finite_known_ids)
    show "commits_rel a rd `` ?U \<subseteq> ?U" by (auto intro: rtrancl_into_rtrancl)
  qed
  obtain r w where e: "enqueue_all a rd ?w tips = (r, w)" by fastforce
  show ?thesis
  proof (cases r)
    case (Err x)
    with e rev_collect_failed [of a rd tips x w] show ?thesis by (cases n) auto
  next
    case (Ok u)
    then have e': "enqueue_all a rd ?w tips = (Ok (), w)" using e by simp
    note c = rev_collect_loaded [OF e']
    have w: "rev_inv a rd {} w" "rw_seen w = set tips" "rw_pending_tips w = []"
      using enqueue_all_inv [OF e' rev_inv_new] by (simp_all add: rev_walk_new_def)
    have "\<exists>r. rev_collect n a rd w = Some r" if "card ?U < n"
      by (rule rev_collect_terminates [OF U w(1,3)]) (use w(2) that in auto)
    moreover note rev_collect_spec [OF _ w(3,1)]
    ultimately show ?thesis unfolding c w(2) by (simp add: w(2))
  qed
qed

theorem rev_walk_correct_witness:
  "rev_collect 1 Sha1 (\<lambda>i. Err (NotFound (HintObject []))) (rev_walk_new [zero_oid Sha1]) = Some (Ok [])
   \<and> fst ` set [] = {i \<in> (commits_rel Sha1 (\<lambda>i. Err (NotFound (HintObject []))))\<^sup>* `` set [zero_oid Sha1].
        \<exists>c. load Sha1 (\<lambda>i. Err (NotFound (HintObject []))) i = Ok (Some c)}"
proof -
  have r: "rev_collect 1 Sha1 (\<lambda>i. Err (NotFound (HintObject []))) (rev_walk_new [zero_oid Sha1]) = Some (Ok [])"
    by (simp add: rev_step_def rev_walk_new_def enqueue_def read_typed_def is_not_found_def)
  from rev_walk_correct [THEN conjunct2, rule_format, OF r] r show ?thesis by simp
qed

end
