(* ===== verification/Tree_Walk.thy ===== *)
theory Tree_Walk
  imports Walk Diff
begin

text \<open>
  Trees as files by path: flattening a tree and comparing two trees (\<open>flatten_tree\<close> and
  \<open>diff_trees\<close> of src/src/walk.rs), building nested trees from a flat list of paths
  (src/src/tree_builder.rs) and the three-way merge of trees (\<open>merge_trees\<close> of
  src/src/merge.rs). The recursion of \<open>flatten_into\<close> follows ids, so it takes a fuel for its
  depth; \<open>None\<close> is a recursion that does not end within it. Writing goes through the store's
  \<open>write\<close>, a parameter \<open>put\<close> with the store as state.
\<close>

section \<open>Flattening\<close>

type_synonym flat = "(bytes, file_mode \<times> object_id) btree_map"

definition join_path :: "bytes \<Rightarrow> bytes \<Rightarrow> bytes" where
  "join_path pfx name = (if pfx = [] then name else pfx @ [47] @ name)"

function flatten_into :: "nat \<Rightarrow> hash_algo \<Rightarrow> reader \<Rightarrow> object_id \<Rightarrow> bytes \<Rightarrow> flat \<Rightarrow> flat result option"
  and flatten_entries :: "nat \<Rightarrow> hash_algo \<Rightarrow> reader \<Rightarrow> tree_entry list \<Rightarrow> bytes \<Rightarrow> flat \<Rightarrow> flat result option" where
  "flatten_into 0 a rd t pfx out = None"
| "flatten_into (Suc n) a rd t pfx out =
     (case bind_res (read_typed rd t Tree) (tree_parse a) of
        Err e \<Rightarrow> Some (Err e)
      | Ok tree \<Rightarrow> flatten_entries n a rd (tree_entries tree) pfx out)"
| "flatten_entries n a rd [] pfx out = Some (Ok out)"
| "flatten_entries n a rd (e # es) pfx out =
     (let path = join_path pfx (te_name e)
      in if te_mode e = MTree then
           (case flatten_into n a rd (te_id e) path out of
              None \<Rightarrow> None
            | Some (Err x) \<Rightarrow> Some (Err x)
            | Some (Ok out') \<Rightarrow> flatten_entries n a rd es pfx out')
         else flatten_entries n a rd es pfx (bt_insert path (te_mode e, te_id e) out))"
  by pat_completeness auto
termination
  by (relation "measures [\<lambda>x. case x of Inl (n, _) \<Rightarrow> n | Inr (n, _) \<Rightarrow> n,
      \<lambda>x. case x of Inl _ \<Rightarrow> 0 | Inr (n, a, rd, es, _) \<Rightarrow> Suc (length es)]") auto

definition flatten_tree :: "nat \<Rightarrow> hash_algo \<Rightarrow> reader \<Rightarrow> object_id \<Rightarrow> flat result option" where
  "flatten_tree n a rd t = flatten_into n a rd t [] []"

section \<open>Comparing trees\<close>

datatype tree_change = Added | Modified | Deleted

record tree_diff_entry =
  td_path :: bytes
  td_change :: tree_change

definition diff_maps :: "flat \<Rightarrow> flat \<Rightarrow> tree_diff_entry list" where
  "diff_maps old_map new_map =
     sort_key td_path
       (List.map_filter (\<lambda>(path, old).
            case bt_get new_map path of
              None \<Rightarrow> Some \<lparr>td_path = path, td_change = Deleted\<rparr>
            | Some new \<Rightarrow> if fst new \<noteq> fst old \<or> snd new \<noteq> snd old
                          then Some \<lparr>td_path = path, td_change = Modified\<rparr> else None) old_map
        @ List.map_filter (\<lambda>(path, _).
            if bt_get old_map path = None then Some \<lparr>td_path = path, td_change = Added\<rparr> else None) new_map)"

definition flatten_option :: "nat \<Rightarrow> hash_algo \<Rightarrow> reader \<Rightarrow> object_id option \<Rightarrow> flat result option" where
  "flatten_option n a rd t = (case t of Some i \<Rightarrow> flatten_tree n a rd i | None \<Rightarrow> Some (Ok []))"

definition diff_trees :: "nat \<Rightarrow> hash_algo \<Rightarrow> reader \<Rightarrow> object_id option \<Rightarrow> object_id option
    \<Rightarrow> tree_diff_entry list result option" where
  "diff_trees n a rd old new =
     (case flatten_option n a rd old of
        None \<Rightarrow> None
      | Some (Err e) \<Rightarrow> Some (Err e)
      | Some (Ok old_map) \<Rightarrow>
          (case flatten_option n a rd new of
             None \<Rightarrow> None
           | Some (Err e) \<Rightarrow> Some (Err e)
           | Some (Ok new_map) \<Rightarrow> Some (Ok (diff_maps old_map new_map))))"

section \<open>Building trees\<close>

type_synonym flat_entry = "bytes \<times> file_mode \<times> object_id"

definition in_dir :: "bytes \<Rightarrow> flat_entry \<Rightarrow> bool" where
  "in_dir dir e \<longleftrightarrow>
     length dir < length (fst e) \<and> take (length dir) (fst e) = dir \<and> fst e ! length dir = 47"

definition strip_dir :: "bytes \<Rightarrow> flat_entry \<Rightarrow> flat_entry" where
  "strip_dir dir e = (drop (length dir + 1) (fst e), snd e)"

definition entries_size :: "flat_entry list \<Rightarrow> nat" where
  "entries_size es = sum_list (map (\<lambda>e. length (fst e) + 1) es)"

lemma entries_size_simps [simp]:
  "entries_size [] = 0" "entries_size (e # es) = length (fst e) + 1 + entries_size es"
  by (simp_all add: entries_size_def)

lemma entries_size_append: "entries_size (xs @ ys) = entries_size xs + entries_size ys"
  by (simp add: entries_size_def)

lemma entries_size_strip:
  "\<forall>e\<in>set es. in_dir dir e \<Longrightarrow> entries_size (map (strip_dir dir) es) + length es \<le> entries_size es"
  by (induction es) (auto simp: in_dir_def strip_dir_def)

lemma position_slash: "position (\<lambda>c. c = 47) path = Some k \<Longrightarrow> k < length path \<and> path ! k = 47"
  by (induction path arbitrary: k) (auto split: if_splits option.splits)

lemma head_in_dir: "position (\<lambda>c. c = 47) path = Some k \<Longrightarrow> in_dir (take k path) (path, v)"
  using position_slash [of path k] by (simp add: in_dir_def)

lemma sub_smaller:
  assumes "position (\<lambda>c. c = 47) path = Some k"
  shows "entries_size (map (strip_dir (take k path)) (takeWhile (in_dir (take k path)) ((path, v) # es)))
      < entries_size ((path, v) # es)"
    "entries_size (dropWhile (in_dir (take k path)) ((path, v) # es)) < entries_size ((path, v) # es)"
proof -
  let ?d = "take k path"
  let ?g = "takeWhile (in_dir ?d) ((path, v) # es)" and ?r = "dropWhile (in_dir ?d) ((path, v) # es)"
  have h: "in_dir ?d (path, v)" by (rule head_in_dir [OF assms])
  have s: "entries_size ((path, v) # es) = entries_size ?g + entries_size ?r"
    by (metis entries_size_append takeWhile_dropWhile_id)
  have "entries_size (map (strip_dir ?d) ?g) + length ?g \<le> entries_size ?g"
    by (rule entries_size_strip) (auto dest: set_takeWhileD)
  moreover have "0 < length ?g" "0 < entries_size ?g" using h by simp_all
  ultimately show "entries_size (map (strip_dir ?d) ?g) < entries_size ((path, v) # es)"
    "entries_size ?r < entries_size ((path, v) # es)" using s by linarith+
qed

function build :: "('s \<Rightarrow> object_type \<Rightarrow> bytes \<Rightarrow> object_id result \<times> 's) \<Rightarrow> 's \<Rightarrow> flat_entry list \<Rightarrow> object_id result \<times> 's"
  and build_entries :: "('s \<Rightarrow> object_type \<Rightarrow> bytes \<Rightarrow> object_id result \<times> 's) \<Rightarrow> 's \<Rightarrow> flat_entry list \<Rightarrow> tree_entry list result \<times> 's" where
  "build put s entries =
     (case build_entries put s entries of
        (Err e, s1) \<Rightarrow> (Err e, s1)
      | (Ok es, s1) \<Rightarrow> put s1 Tree (tree_serialize \<lparr>tree_entries = es\<rparr>))"
| "build_entries put s [] = (Ok [], s)"
| "build_entries put s ((path, mode, i) # entries) =
     (case position (\<lambda>c. c = 47) path of
        None \<Rightarrow>
          (case build_entries put s entries of
             (Err e, s1) \<Rightarrow> (Err e, s1)
           | (Ok es, s1) \<Rightarrow> (Ok (\<lparr>te_mode = mode, te_name = path, te_id = i\<rparr> # es), s1))
      | Some slash \<Rightarrow>
          let dir = take slash path;
              sub = map (strip_dir dir) (takeWhile (in_dir dir) ((path, mode, i) # entries))
          in case build put s sub of
               (Err e, s1) \<Rightarrow> (Err e, s1)
             | (Ok subtree, s1) \<Rightarrow>
                 (case build_entries put s1 (dropWhile (in_dir dir) ((path, mode, i) # entries)) of
                    (Err e, s2) \<Rightarrow> (Err e, s2)
                  | (Ok es, s2) \<Rightarrow> (Ok (\<lparr>te_mode = MTree, te_name = dir, te_id = subtree\<rparr> # es), s2)))"
  by pat_completeness auto
termination
  apply (relation "measure (\<lambda>x. case x of Inl (put, s, es) \<Rightarrow> 2 * entries_size es + 1 | Inr (put, s, es) \<Rightarrow> 2 * entries_size es)")
  apply (auto simp del: takeWhile.simps dropWhile.simps)
  subgoal for path mode i entries k
    using sub_smaller(1) [of path k "(mode, i)" entries] by (simp del: takeWhile.simps)
  subgoal for put s path mode i entries k
    using sub_smaller(2) [of path k "(mode, i)" entries] by (simp del: dropWhile.simps)
  done

declare build.simps [simp del] build_entries.simps [simp del]

definition write_tree_from_entries :: "('s \<Rightarrow> object_type \<Rightarrow> bytes \<Rightarrow> object_id result \<times> 's) \<Rightarrow> 's \<Rightarrow> flat_entry list \<Rightarrow> object_id result \<times> 's" where
  "write_tree_from_entries put s entries = build put s (sort_key fst entries)"

section \<open>The files of a tree\<close>

definition read_tree :: "hash_algo \<Rightarrow> reader \<Rightarrow> object_id \<Rightarrow> git_tree result" where
  "read_tree a rd t = bind_res (read_typed rd t Tree) (tree_parse a)"

inductive tree_file :: "hash_algo \<Rightarrow> reader \<Rightarrow> object_id \<Rightarrow> bytes \<Rightarrow> file_mode \<times> object_id \<Rightarrow> bool"
  for a :: hash_algo and rd :: reader where
  tree_file_leaf:
    "read_tree a rd t = Ok tr \<Longrightarrow> e \<in> set (tree_entries tr) \<Longrightarrow> te_mode e \<noteq> MTree \<Longrightarrow>
     tree_file a rd t (te_name e) (te_mode e, te_id e)"
| tree_file_sub:
    "read_tree a rd t = Ok tr \<Longrightarrow> e \<in> set (tree_entries tr) \<Longrightarrow> te_mode e = MTree \<Longrightarrow>
     tree_file a rd (te_id e) p v \<Longrightarrow> tree_file a rd t (te_name e @ 47 # p) v"

text \<open>The files below a list of entries.\<close>

definition entry_file :: "hash_algo \<Rightarrow> reader \<Rightarrow> tree_entry list \<Rightarrow> bytes \<Rightarrow> file_mode \<times> object_id \<Rightarrow> bool" where
  "entry_file a rd es q v \<longleftrightarrow>
     (\<exists>e\<in>set es. te_mode e \<noteq> MTree \<and> q = te_name e \<and> v = (te_mode e, te_id e)
        \<or> te_mode e = MTree \<and> (\<exists>p. q = te_name e @ 47 # p \<and> tree_file a rd (te_id e) p v))"

lemma tree_file_iff:
  "read_tree a rd t = Ok tr \<Longrightarrow> tree_file a rd t q v \<longleftrightarrow> entry_file a rd (tree_entries tr) q v"
proof -
  assume t: "read_tree a rd t = Ok tr"
  show ?thesis
  proof
    assume "tree_file a rd t q v"
    then show "entry_file a rd (tree_entries tr) q v"
      by cases (use t in \<open>auto simp: entry_file_def\<close>)
  next
    assume "entry_file a rd (tree_entries tr) q v"
    then show "tree_file a rd t q v"
      by (auto simp: entry_file_def intro: tree_file_leaf [OF t] tree_file_sub [OF t])
  qed
qed

lemma tree_file_read: "tree_file a rd t q v \<Longrightarrow> \<exists>tr. read_tree a rd t = Ok tr"
  by (cases rule: tree_file.cases) auto

lemma entry_file_Cons:
  "entry_file a rd (e # es) q v \<longleftrightarrow>
     (te_mode e \<noteq> MTree \<and> q = te_name e \<and> v = (te_mode e, te_id e)
      \<or> te_mode e = MTree \<and> (\<exists>p. q = te_name e @ 47 # p \<and> tree_file a rd (te_id e) p v))
     \<or> entry_file a rd es q v"
  by (auto simp: entry_file_def)

lemma entry_file_Nil [simp]: "\<not> entry_file a rd [] q v"
  by (simp add: entry_file_def)

lemma join_join: "name \<noteq> [] \<Longrightarrow> join_path (join_path pfx name) q = join_path pfx (name @ 47 # q)"
  by (simp add: join_path_def)

text \<open>A map that extends \<open>out\<close> by the files \<open>F\<close> below \<open>pfx\<close>.\<close>

definition extends :: "flat \<Rightarrow> flat \<Rightarrow> bytes \<Rightarrow> (bytes \<Rightarrow> file_mode \<times> object_id \<Rightarrow> bool) \<Rightarrow> bool" where
  "extends m out pfx F \<longleftrightarrow>
     bt_invar m
     \<and> (\<forall>p v. bt_get m p = Some v \<longrightarrow> bt_get out p = Some v \<or> (\<exists>q. p = join_path pfx q \<and> F q v))
     \<and> (\<forall>p v. bt_get out p = Some v \<longrightarrow> (\<exists>v'. bt_get m p = Some v'))
     \<and> (\<forall>q v. F q v \<longrightarrow> (\<exists>v'. bt_get m (join_path pfx q) = Some v'))"

lemma extends_refl: "bt_invar out \<Longrightarrow> extends out out pfx (\<lambda>q v. False)"
  by (simp add: extends_def)

lemma extends_trans:
  assumes "extends m1 out pfx F" and "extends m2 m1 pfx G"
  shows "extends m2 out pfx (\<lambda>q v. F q v \<or> G q v)"
proof -
  note e = assms [unfolded extends_def]
  have "bt_get out p = Some v \<or> (\<exists>q. p = join_path pfx q \<and> (F q v \<or> G q v))" if "bt_get m2 p = Some v" for p v
    using e that by blast
  moreover have "\<exists>v'. bt_get m2 p = Some v'" if "bt_get out p = Some v" for p v
    using e that by blast
  moreover have "\<exists>v'. bt_get m2 (join_path pfx q) = Some v'" if "F q v \<or> G q v" for q v
    using e that by blast
  ultimately show ?thesis unfolding extends_def using e by blast
qed

lemma extends_insert:
  assumes "bt_invar out"
  shows "extends (bt_insert (join_path pfx name) v out) out pfx (\<lambda>q w. q = name \<and> w = v)"
  using assms bt_get_insert [OF assms] by (auto simp: extends_def bt_invar_insert)

lemma extends_sub:
  assumes "name \<noteq> []" and "extends m out (join_path pfx name) F"
  shows "extends m out pfx (\<lambda>q v. \<exists>p. q = name @ 47 # p \<and> F p v)"
  using assms unfolding extends_def join_join [OF assms(1)] by blast

lemma read_tree_names: "read_tree a rd t = Ok tr \<Longrightarrow> e \<in> set (tree_entries tr) \<Longrightarrow> te_name e \<noteq> []"
  by (auto simp: read_tree_def tree_parse_def bind_res_eq_Ok wf_tree_entry_def dest: tree_parse_loop_wf)

lemma flatten_extends:
  "flatten_into n a rd t pfx out = Some (Ok m) \<Longrightarrow> bt_invar out \<Longrightarrow> extends m out pfx (tree_file a rd t)"
  "flatten_entries n a rd es pfx out = Some (Ok m) \<Longrightarrow> bt_invar out \<Longrightarrow> \<forall>e\<in>set es. te_name e \<noteq> [] \<Longrightarrow>
     extends m out pfx (entry_file a rd es)"
proof (induction n a rd t pfx out and n a rd es pfx out arbitrary: m and m rule: flatten_into_flatten_entries.induct)
  case (2 n a rd t pfx out)
  then obtain tr where tr: "read_tree a rd t = Ok tr" by (auto simp: read_tree_def split: result.splits)
  have "tree_file a rd t = entry_file a rd (tree_entries tr)" using tree_file_iff [OF tr] by blast
  with 2 tr read_tree_names [OF tr] show ?case by (simp add: read_tree_def)
next
  case (4 n a rd e es pfx out)
  show ?case
  proof (cases "te_mode e = MTree")
    case True
    with "4.prems"(1) obtain m1 where m1: "flatten_into n a rd (te_id e) (join_path pfx (te_name e)) out = Some (Ok m1)"
      "flatten_entries n a rd es pfx m1 = Some (Ok m)" by (auto simp: Let_def split: option.splits result.splits)
    have e1: "extends m1 out (join_path pfx (te_name e)) (tree_file a rd (te_id e))"
      by (rule "4.IH"(1) [OF refl True m1(1) "4.prems"(2)])
    moreover from this have "bt_invar m1" by (simp add: extends_def)
    ultimately have "extends m out pfx (\<lambda>q v. (\<exists>p. q = te_name e @ 47 # p \<and> tree_file a rd (te_id e) p v)
        \<or> entry_file a rd es q v)"
      using extends_trans [OF extends_sub "4.IH"(2) [OF refl True m1(1) refl m1(2)]] "4.prems"(3) by simp
    moreover have "entry_file a rd (e # es) = (\<lambda>q v. (\<exists>p. q = te_name e @ 47 # p \<and> tree_file a rd (te_id e) p v)
        \<or> entry_file a rd es q v)" using True by (intro ext) (simp add: entry_file_Cons)
    ultimately show ?thesis by simp
  next
    case False
    let ?o = "bt_insert (join_path pfx (te_name e)) (te_mode e, te_id e) out"
    have "flatten_entries n a rd es pfx ?o = Some (Ok m)" using False "4.prems"(1) by (simp add: Let_def)
    then have "extends m ?o pfx (entry_file a rd es)"
      using "4.IH"(3) [OF refl False] "4.prems"(2,3) by (simp add: bt_invar_insert)
    from extends_trans [OF extends_insert [OF "4.prems"(2)] this]
    have "extends m out pfx (\<lambda>q v. (q = te_name e \<and> v = (te_mode e, te_id e)) \<or> entry_file a rd es q v)" .
    moreover have "entry_file a rd (e # es) = (\<lambda>q v. (q = te_name e \<and> v = (te_mode e, te_id e)) \<or> entry_file a rd es q v)"
      using False by (intro ext) (simp add: entry_file_Cons)
    ultimately show ?thesis by simp
  qed
qed (auto intro: extends_refl simp: extends_def entry_file_def)

lemma flatten_tree_files:
  assumes "flatten_tree n a rd t = Some (Ok m)"
  shows "bt_invar m" "bt_get m p = Some v \<Longrightarrow> tree_file a rd t p v"
    "tree_file a rd t p v \<Longrightarrow> \<exists>v'. bt_get m p = Some v'"
proof -
  have "extends m [] [] (tree_file a rd t)"
    by (rule flatten_extends(1) [OF assms [unfolded flatten_tree_def]]) (simp add: bt_invar_def)
  then show "bt_invar m" "bt_get m p = Some v \<Longrightarrow> tree_file a rd t p v"
    "tree_file a rd t p v \<Longrightarrow> \<exists>v'. bt_get m p = Some v'"
    by (auto simp: extends_def join_path_def bt_get_def simp del: split_paired_All split_paired_Ex)
qed

section \<open>Comparing: lemmas\<close>

text \<open>The change of one path.\<close>

fun change_of :: "'a option \<Rightarrow> 'a option \<Rightarrow> tree_change option" where
  "change_of None None = None"
| "change_of None (Some v) = Some Added"
| "change_of (Some u) None = Some Deleted"
| "change_of (Some u) (Some v) = (if u = v then None else Some Modified)"

lemma change_of_eq_Some:
  "change_of x y = Some Added \<longleftrightarrow> x = None \<and> y \<noteq> None"
  "change_of x y = Some Deleted \<longleftrightarrow> x \<noteq> None \<and> y = None"
  "change_of x y = Some Modified \<longleftrightarrow> (\<exists>u v. x = Some u \<and> y = Some v \<and> u \<noteq> v)"
  by (cases x; cases y; simp)+

lemma set_map_filter: "set (List.map_filter f xs) = {y. \<exists>x\<in>set xs. f x = Some y}"
  by (induction xs) (auto simp: List.map_filter_simps split: option.split)

lemma bt_get_iff: "bt_invar m \<Longrightarrow> (p, v) \<in> set m \<longleftrightarrow> bt_get m p = Some v"
  by (simp add: bt_get_def bt_invar_def strict_sorted_iff)

lemma map_filter_paths:
  assumes "\<And>x y. f x = Some y \<Longrightarrow> td_path y = fst x"
  shows "map td_path (List.map_filter f xs) = map fst (filter (\<lambda>x. f x \<noteq> None) xs)"
  using assms by (induction xs) (auto simp: List.map_filter_simps split: option.split)

lemma diff_maps_spec:
  assumes "bt_invar om" and "bt_invar nm"
  shows "sorted_wrt (<) (map td_path (diff_maps om nm))
    \<and> (\<forall>d. d \<in> set (diff_maps om nm) \<longleftrightarrow> change_of (bt_get om (td_path d)) (bt_get nm (td_path d)) = Some (td_change d))"
proof -
  define f where "f = (\<lambda>(path :: bytes, old :: file_mode \<times> object_id).
            case bt_get nm path of
              None \<Rightarrow> Some \<lparr>td_path = path, td_change = Deleted\<rparr>
            | Some new \<Rightarrow> if fst new \<noteq> fst old \<or> snd new \<noteq> snd old
                          then Some \<lparr>td_path = path, td_change = Modified\<rparr> else None)"
  define g where "g = (\<lambda>(path :: bytes, _ :: file_mode \<times> object_id).
            if bt_get om path = None then Some \<lparr>td_path = path, td_change = Added\<rparr> else None)"
  have d: "diff_maps om nm = sort_key td_path (List.map_filter f om @ List.map_filter g nm)"
    by (simp add: diff_maps_def f_def g_def)
  have paths: "map td_path (List.map_filter f om) = map fst (filter (\<lambda>x. f x \<noteq> None) om)"
      "map td_path (List.map_filter g nm) = map fst (filter (\<lambda>x. g x \<noteq> None) nm)"
    by (rule map_filter_paths; auto simp: f_def g_def split: option.splits if_splits)+
  have dist: "distinct (map fst om)" "distinct (map fst nm)"
    using assms by (simp_all add: bt_invar_def strict_sorted_iff)
  have "distinct (map td_path (List.map_filter f om @ List.map_filter g nm))"
    unfolding map_append distinct_append paths
  proof (intro conjI)
    show "distinct (map fst (filter (\<lambda>x. f x \<noteq> None) om))" "distinct (map fst (filter (\<lambda>x. g x \<noteq> None) nm))"
      using dist by (simp_all add: distinct_map_filter)
    show "set (map fst (filter (\<lambda>x. f x \<noteq> None) om)) \<inter> set (map fst (filter (\<lambda>x. g x \<noteq> None) nm)) = {}"
      using bt_get_iff [OF assms(1)] by (fastforce simp: g_def split: if_splits)
  qed
  then have "distinct (map td_path (diff_maps om nm))"
    unfolding d by (metis distinct_map distinct_sort set_sort)
  moreover have "sorted (map td_path (diff_maps om nm))" unfolding d by simp
  ultimately have "sorted_wrt (<) (map td_path (diff_maps om nm))" by (simp add: strict_sorted_iff)
  moreover have "x \<in> set (diff_maps om nm) \<longleftrightarrow>
      change_of (bt_get om (td_path x)) (bt_get nm (td_path x)) = Some (td_change x)" for x
  proof (cases x)
    case (fields p c)
    have old: "(\<exists>v. bt_get om p = Some v \<and> f (p, v) = Some x) \<longleftrightarrow> x \<in> set (List.map_filter f om)"
      unfolding set_map_filter using bt_get_iff [OF assms(1)] fields
      by (fastforce simp: f_def split: option.splits if_splits)
    have new: "(\<exists>v. bt_get nm p = Some v \<and> g (p, v) = Some x) \<longleftrightarrow> x \<in> set (List.map_filter g nm)"
      unfolding set_map_filter using bt_get_iff [OF assms(2)] fields
      by (fastforce simp: g_def split: if_splits)
    have "x \<in> set (diff_maps om nm) \<longleftrightarrow>
        (\<exists>v. bt_get om p = Some v \<and> f (p, v) = Some x) \<or> (\<exists>v. bt_get nm p = Some v \<and> g (p, v) = Some x)"
      unfolding old new by (simp add: d)
    also have "\<dots> \<longleftrightarrow> change_of (bt_get om p) (bt_get nm p) = Some c"
      by (cases "bt_get om p"; cases "bt_get nm p") (auto simp: f_def g_def fields prod_eq_iff)
    finally show ?thesis by (simp add: fields)
  qed
  ultimately show ?thesis by blast
qed

section \<open>Building: lemmas\<close>

text \<open>A store that only records what is written; what any other store gets is the same sequence.\<close>

definition log_put :: "digest \<Rightarrow> hash_algo \<Rightarrow> (object_type \<times> bytes) list \<Rightarrow> object_type \<Rightarrow> bytes
    \<Rightarrow> object_id result \<times> (object_type \<times> bytes) list" where
  "log_put dg a l ty pl = (Ok (hash_object dg a ty pl), l @ [(ty, pl)])"

definition put_all :: "('s \<Rightarrow> object_type \<Rightarrow> bytes \<Rightarrow> object_id result \<times> 's) \<Rightarrow> 's \<Rightarrow> (object_type \<times> bytes) list \<Rightarrow> 's" where
  "put_all put s ws = foldl (\<lambda>s (ty, pl). snd (put s ty pl)) s ws"

lemma put_all_simps [simp]:
  "put_all put s [] = s" "put_all put s (ws @ vs) = put_all put (put_all put s ws) vs"
  "put_all put s [(ty, pl)] = snd (put s ty pl)"
  by (simp_all add: put_all_def)

lemma build_entries_dir:
  assumes "position (\<lambda>c. c = 47) path = Some k"
    and "sub = map (strip_dir (take k path)) (takeWhile (in_dir (take k path)) ((path, mode, i) # rest))"
    and "rst = dropWhile (in_dir (take k path)) ((path, mode, i) # rest)"
  shows "build_entries put s ((path, mode, i) # rest) =
    (case build put s sub of
       (Err e, s1) \<Rightarrow> (Err e, s1)
     | (Ok subtree, s1) \<Rightarrow>
         (case build_entries put s1 rst of
            (Err e, s2) \<Rightarrow> (Err e, s2)
          | (Ok es, s2) \<Rightarrow> (Ok (\<lparr>te_mode = MTree, te_name = take k path, te_id = subtree\<rparr> # es), s2)))"
  by (simp only: build_entries.simps(2) assms option.case Let_def)

lemma build_logged:
  assumes put: "\<And>s ty pl. P s \<Longrightarrow> fst (put s ty pl) = Ok (hash_object dg a ty pl) \<and> P (snd (put s ty pl))"
  shows "P s \<Longrightarrow>
    (\<exists>r ws. (\<forall>l. build (log_put dg a) l entries = (Ok r, l @ ws))
      \<and> build put s entries = (Ok r, put_all put s ws) \<and> P (put_all put s ws))
    \<and> (\<exists>es ws. (\<forall>l. build_entries (log_put dg a) l entries = (Ok es, l @ ws))
      \<and> build_entries put s entries = (Ok es, put_all put s ws) \<and> P (put_all put s ws))"
proof (induction "entries_size entries" arbitrary: s entries rule: less_induct)
  case less
  have entries: "\<exists>es ws. (\<forall>l. build_entries (log_put dg a) l entries = (Ok es, l @ ws))
      \<and> build_entries put s entries = (Ok es, put_all put s ws) \<and> P (put_all put s ws)"
  proof (cases entries)
    case Nil
    with less.prems show ?thesis by (simp add: build_entries.simps exI [of _ "[]"])
  next
    case (Cons e rest)
    obtain path mode i where e: "e = (path, mode, i)" by (cases e)
    show ?thesis
    proof (cases "position (\<lambda>c. c = 47) path")
      case None
      have "entries_size rest < entries_size entries" by (simp add: Cons)
      from less.hyps [OF this less.prems] obtain es ws where
        "\<And>l. build_entries (log_put dg a) l rest = (Ok es, l @ ws)"
        "build_entries put s rest = (Ok es, put_all put s ws)" "P (put_all put s ws)" by blast
      then show ?thesis
        unfolding Cons e using None
        by (intro exI [of _ "\<lparr>te_mode = mode, te_name = path, te_id = i\<rparr> # es"] exI [of _ ws])
          (simp add: build_entries.simps)
    next
      case (Some k)
      define sub where "sub = map (strip_dir (take k path)) (takeWhile (in_dir (take k path)) ((path, mode, i) # rest))"
      define rst where "rst = dropWhile (in_dir (take k path)) ((path, mode, i) # rest)"
      have sz: "entries_size sub < entries_size entries" "entries_size rst < entries_size entries"
        unfolding sub_def rst_def Cons e by (rule sub_smaller [OF Some])+
      obtain r ws where 1: "\<And>l. build (log_put dg a) l sub = (Ok r, l @ ws)"
        "build put s sub = (Ok r, put_all put s ws)" "P (put_all put s ws)"
        using less.hyps [OF sz(1) less.prems] by blast
      obtain es vs where 2: "\<And>l. build_entries (log_put dg a) l rst = (Ok es, l @ vs)"
        "build_entries put (put_all put s ws) rst = (Ok es, put_all put (put_all put s ws) vs)"
        "P (put_all put (put_all put s ws) vs)"
        using less.hyps [OF sz(2) 1(3)] by blast
      show ?thesis
        unfolding Cons e using 1 2 Some
        by (intro exI [of _ "\<lparr>te_mode = MTree, te_name = take k path, te_id = r\<rparr> # es"] exI [of _ "ws @ vs"])
          (simp add: build_entries_dir [OF Some sub_def rst_def])
    qed
  qed
  moreover from entries obtain es ws where es: "\<And>l. build_entries (log_put dg a) l entries = (Ok es, l @ ws)"
    "build_entries put s entries = (Ok es, put_all put s ws)" "P (put_all put s ws)" by blast
  let ?pl = "tree_serialize \<lparr>tree_entries = es\<rparr>"
  have "build put s entries = (Ok (hash_object dg a Tree ?pl), put_all put s (ws @ [(Tree, ?pl)]))"
    using es(2) put [OF es(3), of Tree ?pl] by (cases "put (put_all put s ws) Tree ?pl") (simp add: build.simps)
  then have "\<exists>r ws. (\<forall>l. build (log_put dg a) l entries = (Ok r, l @ ws))
      \<and> build put s entries = (Ok r, put_all put s ws) \<and> P (put_all put s ws)"
    using es put [OF es(3), of Tree ?pl]
    by (intro exI [of _ "hash_object dg a Tree ?pl"] exI [of _ "ws @ [(Tree, ?pl)]"])
      (simp add: build.simps log_put_def)
  ultimately show ?case by blast
qed

text \<open>Paths that a tree can hold: non-empty components, no NUL; and what else an entry needs.\<close>

definition wf_flat :: "hash_algo \<Rightarrow> flat_entry \<Rightarrow> bool" where
  "wf_flat a e \<longleftrightarrow>
     (case e of (path, mode, i) \<Rightarrow>
        [] \<notin> set (split_on 47 path) \<and> 0 \<notin> set path \<and> mode \<noteq> MTree \<and> wf_oid i \<and> oid_algo i = a)"

lemma in_dir_strip: "in_dir dir e \<Longrightarrow> e = (dir @ 47 # fst (strip_dir dir e), snd (strip_dir dir e))"
proof -
  assume "in_dir dir e"
  then have "length dir < length (fst e)" "take (length dir) (fst e) = dir" "fst e ! length dir = 47"
    by (simp_all add: in_dir_def)
  from id_take_nth_drop [OF this(1)] this(2,3) have "fst e = dir @ 47 # drop (Suc (length dir)) (fst e)" by simp
  then show ?thesis by (cases e) (simp add: strip_dir_def)
qed

lemma strip_mem:
  assumes "\<forall>x\<in>set xs. in_dir dir x"
  shows "(\<exists>p. q = dir @ 47 # p \<and> (p, v) \<in> set (map (strip_dir dir) xs)) \<longleftrightarrow> (q, v) \<in> set xs"
proof
  assume "\<exists>p. q = dir @ 47 # p \<and> (p, v) \<in> set (map (strip_dir dir) xs)"
  then obtain p x where "q = dir @ 47 # p" "x \<in> set xs" "strip_dir dir x = (p, v)" by (metis imageE list.set_map)
  with assms in_dir_strip [of dir x] show "(q, v) \<in> set xs" by auto
next
  assume x: "(q, v) \<in> set xs"
  with assms in_dir_strip [of dir "(q, v)"] have "(q, v) = (dir @ 47 # fst (strip_dir dir (q, v)), snd (strip_dir dir (q, v)))"
    by blast
  moreover have "strip_dir dir (q, v) \<in> set (map (strip_dir dir) xs)" using x by simp
  ultimately show "\<exists>p. q = dir @ 47 # p \<and> (p, v) \<in> set (map (strip_dir dir) xs)" by (metis Pair_inject prod.collapse)
qed

lemma wf_flat_strip:
  assumes "wf_flat a e" and "in_dir dir e" and "47 \<notin> set dir"
  shows "wf_flat a (strip_dir dir e)"
proof -
  obtain p m i where e: "e = (dir @ 47 # p, m, i)" "strip_dir dir e = (p, m, i)"
    using in_dir_strip [OF assms(2)] by (cases "strip_dir dir e") auto
  from assms(1) have "wf_flat a (dir @ 47 # p, m, i)" by (simp only: e(1))
  then have "wf_flat a (p, m, i)" using assms(3) by (simp add: wf_flat_def split_on_append)
  then show ?thesis by (simp only: e(2))
qed

lemma flatten_entries_ok:
  "(\<And>e pfx out. e \<in> set es \<Longrightarrow> te_mode e = MTree \<Longrightarrow> \<exists>m. flatten_into n a rd (te_id e) pfx out = Some (Ok m)) \<Longrightarrow>
     \<exists>m. flatten_entries n a rd es pfx out = Some (Ok m)"
proof (induction es arbitrary: out)
  case (Cons e es)
  show ?case
  proof (cases "te_mode e = MTree")
    case True
    with Cons.prems [of e] obtain m where "flatten_into n a rd (te_id e) (join_path pfx (te_name e)) out = Some (Ok m)"
      by auto
    with Cons True show ?thesis by (simp add: Let_def)
  qed (use Cons in \<open>simp add: Let_def\<close>)
qed simp

lemma entry_file_set: "set es = set es' \<Longrightarrow> entry_file a rd es q v \<longleftrightarrow> entry_file a rd es' q v"
  by (simp add: entry_file_def)

text \<open>Reading back a tree that was written.\<close>

lemma read_written_tree:
  assumes "\<forall>e\<in>set es. wf_tree_entry a e"
    and "rd t = Ok (Tree, tree_serialize \<lparr>tree_entries = es\<rparr>)"
  shows "read_tree a rd t = Ok \<lparr>tree_entries = sort_key effective_name es\<rparr>"
  using assms tree_parse_sorted [of "\<lparr>tree_entries = es\<rparr>" a] by (simp add: read_tree_def read_typed_def)

lemma build_files:
  assumes dg: "digest_ok dg"
  shows "\<forall>e\<in>set entries. wf_flat a e \<Longrightarrow>
    (\<forall>r ws. build (log_put dg a) [] entries = (Ok r, ws) \<and> (\<forall>(ty, pl)\<in>set ws. rd (hash_object dg a ty pl) = Ok (ty, pl)) \<longrightarrow>
       wf_oid r \<and> oid_algo r = a \<and> (\<forall>q v. tree_file a rd r q v \<longleftrightarrow> (q, v) \<in> set entries)
       \<and> (\<forall>n pfx out. entries_size entries < n \<longrightarrow> (\<exists>m. flatten_into n a rd r pfx out = Some (Ok m))))
    \<and> (\<forall>es ws. build_entries (log_put dg a) [] entries = (Ok es, ws) \<and> (\<forall>(ty, pl)\<in>set ws. rd (hash_object dg a ty pl) = Ok (ty, pl)) \<longrightarrow>
       (\<forall>e\<in>set es. wf_tree_entry a e) \<and> (\<forall>q v. entry_file a rd es q v \<longleftrightarrow> (q, v) \<in> set entries)
       \<and> (\<forall>n pfx out. \<forall>e\<in>set es. entries_size entries \<le> n \<and> te_mode e = MTree \<longrightarrow>
            (\<exists>m. flatten_into n a rd (te_id e) pfx out = Some (Ok m))))"
proof (induction "entries_size entries" arbitrary: entries rule: less_induct)
  case less
  have put: "\<And>s ty pl. True \<Longrightarrow> fst (log_put dg a s ty pl) = Ok (hash_object dg a ty pl) \<and> True"
    by (simp add: log_put_def)
  note logged = build_logged [where P = "\<lambda>_. True" and put = "log_put dg a", OF put TrueI]
  have entries: "(\<forall>e\<in>set es. wf_tree_entry a e) \<and> (\<forall>q v. entry_file a rd es q v \<longleftrightarrow> (q, v) \<in> set entries)
       \<and> (\<forall>n pfx out. \<forall>e\<in>set es. entries_size entries \<le> n \<and> te_mode e = MTree \<longrightarrow>
            (\<exists>m. flatten_into n a rd (te_id e) pfx out = Some (Ok m)))"
    if b: "build_entries (log_put dg a) [] entries = (Ok es, ws)"
      and w: "\<forall>(ty, pl)\<in>set ws. rd (hash_object dg a ty pl) = Ok (ty, pl)" for es ws
  proof (cases entries)
    case Nil
    with b show ?thesis by (simp add: build_entries.simps)
  next
    case (Cons e rest)
    obtain path mode i where e: "e = (path, mode, i)" by (cases e)
    have wf: "wf_flat a (path, mode, i)" "\<forall>e\<in>set rest. wf_flat a e" using less.prems by (simp_all add: Cons e)
    show ?thesis
    proof (cases "position (\<lambda>c. c = 47) path")
      case None
      then have "47 \<notin> set path" by (auto simp: position_None_iff)
      with wf(1) have "wf_tree_entry a \<lparr>te_mode = mode, te_name = path, te_id = i\<rparr>" "mode \<noteq> MTree"
        by (auto simp: wf_flat_def wf_tree_entry_def split_on_plain)
      moreover obtain es' where es': "build_entries (log_put dg a) [] rest = (Ok es', ws)"
        "es = \<lparr>te_mode = mode, te_name = path, te_id = i\<rparr> # es'"
        using b None by (auto simp: Cons e build_entries.simps split: prod.splits result.splits)
      moreover have "entries_size rest < entries_size entries" by (simp add: Cons)
      ultimately show ?thesis
        using less.hyps [OF _ wf(2)] w by (auto simp: Cons e entry_file_Cons)
    next
      case (Some k)
      let ?d = "take k path"
      define sub where "sub = map (strip_dir ?d) (takeWhile (in_dir ?d) ((path, mode, i) # rest))"
      define rst where "rst = dropWhile (in_dir ?d) ((path, mode, i) # rest)"
      have sz: "entries_size sub < entries_size entries" "entries_size rst < entries_size entries"
        unfolding sub_def rst_def Cons e by (rule sub_smaller [OF Some])+
      have d: "47 \<notin> set ?d" using position_SomeD [OF Some] by auto
      have g: "\<forall>x\<in>set (takeWhile (in_dir ?d) ((path, mode, i) # rest)). in_dir ?d x \<and> wf_flat a x"
        using wf by (auto dest!: set_takeWhileD)
      have wfs: "\<forall>e\<in>set sub. wf_flat a e" "\<forall>e\<in>set rst. wf_flat a e"
        using g wf_flat_strip [OF _ _ d] wf unfolding sub_def rst_def by (auto dest!: set_dropWhileD)
      have wfe: "wf_tree_entry a \<lparr>te_mode = MTree, te_name = ?d, te_id = r\<rparr>" if "wf_oid r" "oid_algo r = a" for r
      proof -
        have "path = ?d @ 47 # drop (Suc k) path" using position_slash [OF Some] by (metis id_take_nth_drop)
        then have "split_on 47 path = ?d # split_on 47 (drop (Suc k) path)" using split_on_append [OF d] by metis
        then have "?d \<noteq> []" using wf(1) by (auto simp: wf_flat_def)
        then show ?thesis using d wf(1) that by (auto simp: wf_tree_entry_def wf_flat_def dest: in_set_takeD)
      qed
      obtain r vs where r: "\<And>l. build (log_put dg a) l sub = (Ok r, l @ vs)"
        using logged [where s = "[]" and entries = sub] by blast
      obtain es' us where es': "\<And>l. build_entries (log_put dg a) l rst = (Ok es', l @ us)"
        using logged [where s = "[]" and entries = rst] by blast
      have es: "es = \<lparr>te_mode = MTree, te_name = ?d, te_id = r\<rparr> # es'" "ws = vs @ us"
        using b r es' unfolding Cons e build_entries_dir [OF Some sub_def rst_def] by simp_all
      have IH1: "wf_oid r \<and> oid_algo r = a \<and> (\<forall>q v. tree_file a rd r q v \<longleftrightarrow> (q, v) \<in> set sub)
          \<and> (\<forall>n pfx out. entries_size sub < n \<longrightarrow> (\<exists>m. flatten_into n a rd r pfx out = Some (Ok m)))"
        using less.hyps [OF sz(1) wfs(1)] r [of "[]"] w es(2) by simp
      have IH2: "(\<forall>e\<in>set es'. wf_tree_entry a e) \<and> (\<forall>q v. entry_file a rd es' q v \<longleftrightarrow> (q, v) \<in> set rst)
          \<and> (\<forall>n pfx out. \<forall>e\<in>set es'. entries_size rst \<le> n \<and> te_mode e = MTree \<longrightarrow>
            (\<exists>m. flatten_into n a rd (te_id e) pfx out = Some (Ok m)))"
        using less.hyps [OF sz(2) wfs(2)] es' [of "[]"] w es(2) by simp
      have split: "set entries = set (takeWhile (in_dir ?d) ((path, mode, i) # rest)) \<union> set rst"
        unfolding Cons e rst_def by (metis set_append takeWhile_dropWhile_id)
      have mem: "(\<exists>p. q = ?d @ 47 # p \<and> (p, v) \<in> set sub) \<longleftrightarrow> (q, v) \<in> set (takeWhile (in_dir ?d) ((path, mode, i) # rest))" for q v
        unfolding sub_def by (rule strip_mem) (use g in blast)
      have "entry_file a rd es q v \<longleftrightarrow> (q, v) \<in> set entries" for q v
      proof -
        have "tree_file a rd r p v \<longleftrightarrow> (p, v) \<in> set sub" "entry_file a rd es' q v \<longleftrightarrow> (q, v) \<in> set rst" for p
          using IH1 IH2 by blast+
        then show ?thesis unfolding es(1) entry_file_Cons split Un_iff mem [of q v, symmetric] by simp
      qed
      moreover have "\<forall>e\<in>set es. wf_tree_entry a e" using IH1 IH2 wfe [of r] by (simp add: es(1))
      moreover have "\<exists>m. flatten_into n a rd (te_id x) pfx out = Some (Ok m)"
        if "x \<in> set es" "entries_size entries \<le> n" "te_mode x = MTree" for n pfx out x
        using that IH1 IH2 sz by (auto simp: es(1))
      ultimately show ?thesis by blast
    qed
  qed
  have "wf_oid r \<and> oid_algo r = a \<and> (\<forall>q v. tree_file a rd r q v \<longleftrightarrow> (q, v) \<in> set entries)
       \<and> (\<forall>n pfx out. entries_size entries < n \<longrightarrow> (\<exists>m. flatten_into n a rd r pfx out = Some (Ok m)))"
    if b: "build (log_put dg a) [] entries = (Ok r, ws)"
      and w: "\<forall>(ty, pl)\<in>set ws. rd (hash_object dg a ty pl) = Ok (ty, pl)" for r ws
  proof -
    obtain es vs where es: "build_entries (log_put dg a) [] entries = (Ok es, vs)"
      using logged [where s = "[]" and entries = entries] by auto
    let ?pl = "tree_serialize \<lparr>tree_entries = es\<rparr>"
    have r: "r = hash_object dg a Tree ?pl" "ws = vs @ [(Tree, ?pl)]"
      using b es by (simp_all add: build.simps log_put_def)
    note e = entries [OF es]
    have w': "\<forall>(ty, pl)\<in>set vs. rd (hash_object dg a ty pl) = Ok (ty, pl)" "rd r = Ok (Tree, ?pl)"
      using w by (auto simp: r)
    have t: "read_tree a rd r = Ok \<lparr>tree_entries = sort_key effective_name es\<rparr>"
      using e [OF w'(1)] w'(2) by (simp add: read_written_tree)
    have "tree_file a rd r q v \<longleftrightarrow> (q, v) \<in> set entries" for q v
      using tree_file_iff [OF t] entry_file_set [of "sort_key effective_name es" es] e [OF w'(1)] by simp
    moreover have "\<exists>m. flatten_into n a rd r pfx out = Some (Ok m)" if n: "entries_size entries < n" for n pfx out
    proof -
      obtain k where k: "n = Suc k" "entries_size entries \<le> k" using n by (cases n) auto
      have "\<exists>m. flatten_entries k a rd (sort_key effective_name es) pfx out = Some (Ok m)"
        by (rule flatten_entries_ok) (use e [OF w'(1)] k(2) in auto)
      then show ?thesis using t by (simp add: k(1) read_tree_def)
    qed
    ultimately show ?thesis using wf_hash_object [OF dg, of a Tree ?pl] by (simp add: r(1) hash_object_def)
  qed
  with entries show ?case by blast
qed

section \<open>Writing trees to a store\<close>

text \<open>
  The trees that a list of entries makes, in the order they are written, and what content
  addressing asks for: the store has no other content at the id of one of them.
\<close>

definition tree_writes :: "digest \<Rightarrow> hash_algo \<Rightarrow> flat_entry list \<Rightarrow> (object_type \<times> bytes) list" where
  "tree_writes dg a entries = snd (write_tree_from_entries (log_put dg a) [] entries)"

definition no_collision :: "digest \<Rightarrow> hash_algo \<Rightarrow> reader \<Rightarrow> (object_type \<times> bytes) list \<Rightarrow> bool" where
  "no_collision dg a rd ws \<longleftrightarrow>
     list_all (\<lambda>(ty, pl). case rd (hash_object dg a ty pl) of Ok x \<Rightarrow> x = (ty, pl) | Err e \<Rightarrow> True) ws"

text \<open>A store that takes every object and reads every object it contains.\<close>

locale total_store = object_database +
  assumes takes: "inv s \<Longrightarrow> storable s ty pl"
    and algo_put: "algo (snd (put s ty pl)) = algo s"
    and fetch_present: "inv s \<Longrightarrow> contains s i \<Longrightarrow> \<exists>x. fetch s i = Ok x"
begin

lemma put_readable:
  assumes "inv s"
  shows "\<exists>x. fetch (snd (put s ty pl)) (hash_object dg (algo s) ty pl) = Ok x"
  using put_present [OF assms] put_new [OF assms takes [OF assms]] fetch_present [OF assms] by metis

lemma put_all_inv: "inv s \<Longrightarrow> inv (put_all put s ws) \<and> algo (put_all put s ws) = algo s"
  by (induction ws arbitrary: s) (auto simp: put_all_def put_inv algo_put)

lemma put_all_readable:
  assumes "inv s" and "(ty, pl) \<in> set ws"
  shows "\<exists>x. fetch (put_all put s ws) (hash_object dg (algo s) ty pl) = Ok x"
proof -
  obtain us vs where ws: "ws = (us @ [(ty, pl)]) @ vs" using assms(2) by (metis append_Cons append_Nil append_assoc split_list)
  have u: "inv (put_all put s us)" "algo (put_all put s us) = algo s" using put_all_inv [OF assms(1)] by simp_all
  obtain x where "fetch (put_all put s (us @ [(ty, pl)])) (hash_object dg (algo s) ty pl) = Ok x"
    using put_readable [OF u(1)] u(2) by force
  moreover have "inv (put_all put s (us @ [(ty, pl)]))" using u(1) by (simp add: put_inv)
  ultimately show ?thesis unfolding ws put_all_simps(2) [of _ _ _ vs]
    by (cases x) (auto simp: put_all_def [of _ _ vs] dest: puts_keep)
qed

lemma write_tree_files:
  assumes "inv s" and "\<forall>e\<in>set entries. wf_flat (algo s) e" and "distinct (map fst entries)"
    and "no_collision dg (algo s) (fetch (snd (write_tree_from_entries put s entries))) (tree_writes dg (algo s) entries)"
  shows "\<exists>r. fst (write_tree_from_entries put s entries) = Ok r \<and> wf_oid r
    \<and> inv (snd (write_tree_from_entries put s entries))
    \<and> (\<forall>n>entries_size (sort_key fst entries).
         flatten_tree n (algo s) (fetch (snd (write_tree_from_entries put s entries))) r = Some (Ok (sort_key fst entries)))"
proof -
  let ?a = "algo s" and ?es = "sort_key fst entries"
  have put: "\<And>t ty pl. inv t \<and> algo t = ?a \<Longrightarrow>
      fst (put t ty pl) = Ok (hash_object dg ?a ty pl) \<and> inv (snd (put t ty pl)) \<and> algo (snd (put t ty pl)) = ?a"
    using put_id takes put_inv algo_put by metis
  obtain r ws where b: "\<And>l. build (log_put dg ?a) l ?es = (Ok r, l @ ws)"
      "build put s ?es = (Ok r, put_all put s ws)" "inv (put_all put s ws)"
    using build_logged [where P = "\<lambda>t. inv t \<and> algo t = ?a" and put = put and s = s and entries = ?es, OF put] assms(1)
    by blast
  let ?s = "put_all put s ws"
  have w: "write_tree_from_entries put s entries = (Ok r, ?s)" "tree_writes dg ?a entries = ws"
    using b by (simp_all add: write_tree_from_entries_def tree_writes_def)
  have "\<forall>(ty, pl)\<in>set ws. fetch ?s (hash_object dg ?a ty pl) = Ok (ty, pl)"
  proof (clarify)
    fix ty pl assume "(ty, pl) \<in> set ws"
    with put_all_readable [OF assms(1) this] assms(4) show "fetch ?s (hash_object dg ?a ty pl) = Ok (ty, pl)"
      unfolding w no_collision_def by (auto simp: list_all_iff)
  qed
  moreover have wf: "\<forall>e\<in>set ?es. wf_flat ?a e" using assms(2) by simp
  ultimately have f: "wf_oid r" "\<And>q v. tree_file ?a (fetch ?s) r q v \<longleftrightarrow> (q, v) \<in> set ?es"
      "\<And>n. entries_size ?es < n \<Longrightarrow> \<exists>m. flatten_tree n ?a (fetch ?s) r = Some (Ok m)"
    using build_files [OF digest [OF assms(1)] wf, of "fetch ?s"] b(1) [of "[]"]
    by (simp_all add: flatten_tree_def del: split_paired_All)
  have sorted: "sorted_wrt (<) (map fst ?es)"
    using assms(3) by (simp add: strict_sorted_iff distinct_map)
  have "flatten_tree n ?a (fetch ?s) r = Some (Ok ?es)" if "entries_size ?es < n" for n
  proof -
    obtain m where m: "flatten_tree n ?a (fetch ?s) r = Some (Ok m)" using f(3) [OF \<open>entries_size ?es < n\<close>] by blast
    have "bt_get m p = Some v \<longleftrightarrow> map_of ?es p = Some v" for p v
    proof -
      have "map_of ?es p = Some v \<longleftrightarrow> (p, v) \<in> set ?es" for v using sorted by (simp add: strict_sorted_iff)
      then show ?thesis using flatten_tree_files(2,3) [OF m] f(2) by (metis option.inject)
    qed
    then have "m = ?es"
      using sorted flatten_tree_files(1) [OF m] by (intro bt.iter_unique) (metis option.exhaust)+
    with m show ?thesis by simp
  qed
  then show ?thesis using w b(3) f(1) by simp
qed

end

interpretation memtotal: total_store dg mem_algo "memory_inv dg" "\<lambda>s ty pl. True"
    memory_contains memory_read "memory_write dg" for dg
  by unfold_locales (auto simp: memory_write_def memory_contains_def memory_read_def Let_def split: option.split)

section \<open>Properties\<close>

text \<open>What a tree, or no tree, has at a path; and that no path is given twice.\<close>

definition file_at :: "hash_algo \<Rightarrow> reader \<Rightarrow> object_id option \<Rightarrow> bytes \<Rightarrow> file_mode \<times> object_id \<Rightarrow> bool" where
  "file_at a rd t p v \<longleftrightarrow> (case t of None \<Rightarrow> False | Some i \<Rightarrow> tree_file a rd i p v)"

definition unique_files :: "hash_algo \<Rightarrow> reader \<Rightarrow> object_id option \<Rightarrow> bool" where
  "unique_files a rd t \<longleftrightarrow> (\<forall>p u v. file_at a rd t p u \<longrightarrow> file_at a rd t p v \<longrightarrow> u = v)"

lemma flatten_option_files:
  assumes "flatten_option n a rd t = Some (Ok m)" and "unique_files a rd t"
  shows "bt_invar m" "bt_get m p = Some v \<longleftrightarrow> file_at a rd t p v"
proof -
  show "bt_invar m"
    using assms(1) flatten_tree_files(1) by (cases t) (auto simp: flatten_option_def bt_invar_def)
  show "bt_get m p = Some v \<longleftrightarrow> file_at a rd t p v"
  proof (cases t)
    case None
    with assms(1) show ?thesis by (simp add: flatten_option_def file_at_def bt_get_def)
  next
    case (Some i)
    with assms(1) have m: "flatten_tree n a rd i = Some (Ok m)" by (simp add: flatten_option_def)
    then show ?thesis
      using flatten_tree_files(2,3) [OF m] assms(2) unfolding Some unique_files_def file_at_def
      by (metis option.inject option.simps(5))
  qed
qed

text \<open>
  C15. \<open>diff_trees\<close> reports, in path order and each path once, exactly the files on which two
  trees differ: \<open>Added\<close> when only the new tree has the path, \<open>Deleted\<close> when only the old one
  has it, \<open>Modified\<close> when the mode or the id differs; unchanged files are not reported. This is
  for a run that succeeds, on trees in which no path occurs twice.
\<close>

theorem diff_trees_correct:
  assumes "diff_trees n a rd old new = Some (Ok ds)"
    and "unique_files a rd old" and "unique_files a rd new"
  shows "sorted_wrt (<) (map td_path ds)
    \<and> (\<forall>p. \<lparr>td_path = p, td_change = Added\<rparr> \<in> set ds \<longleftrightarrow> (\<forall>u. \<not> file_at a rd old p u) \<and> (\<exists>v. file_at a rd new p v))
    \<and> (\<forall>p. \<lparr>td_path = p, td_change = Deleted\<rparr> \<in> set ds \<longleftrightarrow> (\<exists>u. file_at a rd old p u) \<and> (\<forall>v. \<not> file_at a rd new p v))
    \<and> (\<forall>p. \<lparr>td_path = p, td_change = Modified\<rparr> \<in> set ds \<longleftrightarrow>
          (\<exists>u v. file_at a rd old p u \<and> file_at a rd new p v \<and> u \<noteq> v))"
proof -
  obtain om nm where om: "flatten_option n a rd old = Some (Ok om)" and nm: "flatten_option n a rd new = Some (Ok nm)"
    and ds: "ds = diff_maps om nm"
    using assms(1) by (auto simp: diff_trees_def split: option.splits result.splits)
  note o = flatten_option_files [OF om assms(2)] and n = flatten_option_files [OF nm assms(3)]
  have mem: "\<lparr>td_path = p, td_change = c\<rparr> \<in> set ds \<longleftrightarrow> change_of (bt_get om p) (bt_get nm p) = Some c" for p c
    using diff_maps_spec [OF o(1) n(1)] by (simp add: ds)
  have "sorted_wrt (<) (map td_path ds)" using diff_maps_spec [OF o(1) n(1)] by (simp add: ds)
  then show ?thesis
    unfolding mem o(2) [symmetric] n(2) [symmetric] change_of_eq_Some not_Some_eq not_None_eq by blast
qed

text \<open>A database of one tree with one file, for the witnesses.\<close>

definition one_file :: reader where
  "one_file i =
     (if i = zero_oid Sha1
      then Ok (Tree, tree_serialize \<lparr>tree_entries = [\<lparr>te_mode = Regular, te_name = [102], te_id = zero_oid Sha1\<rparr>]\<rparr>)
      else Err (NotFound (HintObject (to_hex i))))"

lemma read_one_file:
  "read_tree Sha1 one_file (zero_oid Sha1) = Ok \<lparr>tree_entries = [\<lparr>te_mode = Regular, te_name = [102], te_id = zero_oid Sha1\<rparr>]\<rparr>"
  using read_written_tree [of "[\<lparr>te_mode = Regular, te_name = [102], te_id = zero_oid Sha1\<rparr>]" Sha1 one_file "zero_oid Sha1"]
  by (simp add: one_file_def wf_tree_entry_def) (simp add: zero_oid_def)

theorem diff_trees_correct_witness:
  "(\<exists>v. file_at Sha1 one_file (Some (zero_oid Sha1)) [102] v)
   \<and> diff_trees 1 Sha1 one_file None (Some (zero_oid Sha1)) = Some (Ok [\<lparr>td_path = [102], td_change = Added\<rparr>])"
proof -
  have d: "diff_trees 1 Sha1 one_file None (Some (zero_oid Sha1)) = Some (Ok [\<lparr>td_path = [102], td_change = Added\<rparr>])"
    using read_one_file
    by (simp add: diff_trees_def flatten_option_def flatten_tree_def read_tree_def diff_maps_def bt_get_def
        List.map_filter_simps join_path_def)
  have "unique_files Sha1 one_file (Some (zero_oid Sha1))"
    unfolding unique_files_def file_at_def option.case tree_file_iff [OF read_one_file] by (simp add: entry_file_def)
  moreover have "unique_files Sha1 one_file None" by (simp add: unique_files_def file_at_def)
  ultimately have "\<exists>v. file_at Sha1 one_file (Some (zero_oid Sha1)) [102] v"
    using diff_trees_correct [OF d] by (metis list.set_intros(1))
  with d show ?thesis by blast
qed

text \<open>
  C14. Writing a tree keeps its files: for files with well-formed, distinct paths in any order,
  \<open>write_tree_from_entries\<close> on the in-memory store succeeds, and flattening the tree it returns
  gives exactly those files, sorted by path, as long as the store has no other content at the
  id of one of the trees written. The recursion is as deep as the longest path, so a fuel above
  the total length of the paths is enough.
\<close>

theorem write_tree_roundtrip:
  assumes "memory_inv dg s" and "list_all (wf_flat (mem_algo s)) entries" and "distinct (map fst entries)"
    and "no_collision dg (mem_algo s) (memory_read (snd (write_tree_from_entries (memory_write dg) s entries)))
      (tree_writes dg (mem_algo s) entries)"
  shows "\<exists>r. fst (write_tree_from_entries (memory_write dg) s entries) = Ok r
    \<and> memory_inv dg (snd (write_tree_from_entries (memory_write dg) s entries))
    \<and> (\<forall>n>entries_size (sort_key fst entries).
         flatten_tree n (mem_algo s) (memory_read (snd (write_tree_from_entries (memory_write dg) s entries))) r
           = Some (Ok (sort_key fst entries)))"
  using memtotal.write_tree_files [OF assms(1) _ assms(3,4)] assms(2) by (auto simp: list_all_iff)

definition head_digest :: digest where
  "head_digest a d = take (raw_len a) (d @ replicate (raw_len a) 0)"

lemma memory_inv_new: "digest_ok dg \<Longrightarrow> memory_inv dg (memory_new a)"
  by (simp add: memory_inv_def memory_new_def bt_invar_def bt_get_def)

lemma digest_ok_head: "digest_ok head_digest"
  by (auto simp: digest_ok_def head_digest_def)

theorem write_tree_roundtrip_witness:
  "\<exists>r. flatten_tree 9 Sha1 (memory_read (snd (write_tree_from_entries (memory_write head_digest) (memory_new Sha1)
        [([99], Regular, zero_oid Sha1), ([97, 47, 98], Executable, zero_oid Sha1)]))) r
     = Some (Ok [([97, 47, 98], Executable, zero_oid Sha1), ([99], Regular, zero_oid Sha1)])"
proof -
  let ?es = "[([99], Regular, zero_oid Sha1), ([97, 47, 98], Executable, zero_oid Sha1)] :: flat_entry list"
  have "list_all (wf_flat Sha1) ?es" by code_simp
  moreover have "no_collision head_digest Sha1 (memory_read (snd (write_tree_from_entries (memory_write head_digest) (memory_new Sha1) ?es)))
      (tree_writes head_digest Sha1 ?es)" by code_simp
  moreover have "sort_key fst ?es = [([97, 47, 98], Executable, zero_oid Sha1), ([99], Regular, zero_oid Sha1)]"
    by code_simp
  moreover have "mem_algo (memory_new Sha1) = Sha1" by (simp add: memory_new_def)
  moreover note memory_inv_new [OF digest_ok_head, of Sha1]
  ultimately show ?thesis using write_tree_roundtrip [of head_digest "memory_new Sha1" ?es] by (auto dest!: spec [of _ "9 :: nat"])
qed

end
