(* ===== verification/Tree_Merge.thy ===== *)
theory Tree_Merge
  imports Tree_Walk
begin

text \<open>
  The three-way merge of trees (src/src/merge.rs): every path of the three flattened trees is
  resolved by itself, regular files changed on both sides are merged line by line, and the
  resulting files are written as a tree. The store is a state with its \<open>read\<close> (\<open>fetch\<close>) and
  its \<open>write\<close> (\<open>put\<close>), since a merge writes the blobs it makes.
\<close>

record tree_merge_result =
  tm_tree :: object_id
  tm_conflicts :: "bytes list"

definition is_file :: "file_mode \<Rightarrow> bool" where
  "is_file mode \<longleftrightarrow> mode = Regular \<or> mode = Executable"

definition read_blob :: "hash_algo \<Rightarrow> reader \<Rightarrow> object_id \<Rightarrow> bytes result" where
  "read_blob a rd i =
     bind_res (read_typed rd i Blob) (\<lambda>pl.
     bind_res (object_parse a Blob pl) (\<lambda>ob.
       case ob of OBlob b \<Rightarrow> Ok b | _ \<Rightarrow> Err (Parse ''merge: expected a blob'')))"

definition entry_of :: "bytes \<Rightarrow> (file_mode \<times> object_id) option \<Rightarrow> flat_entry list" where
  "entry_of path v = (case v of Some (mode, i) \<Rightarrow> [(path, mode, i)] | None \<Rightarrow> [])"

text \<open>The content merge of a file that is regular in all three trees.\<close>

definition merge_content :: "hash_algo \<Rightarrow> ('s \<Rightarrow> reader) \<Rightarrow> ('s \<Rightarrow> object_type \<Rightarrow> bytes \<Rightarrow> object_id result \<times> 's) \<Rightarrow> 's \<Rightarrow> bytes
    \<Rightarrow> file_mode \<Rightarrow> object_id \<Rightarrow> object_id \<Rightarrow> object_id \<Rightarrow> (flat_entry list \<times> bool) result \<times> 's" where
  "merge_content a fetch put s path om bid i tid =
     (case bind_res (read_blob a (fetch s) bid) (\<lambda>base_bytes.
           bind_res (read_blob a (fetch s) i) (\<lambda>ours_bytes.
           bind_res (read_blob a (fetch s) tid) (\<lambda>theirs_bytes.
             Ok (merge3 base_bytes ours_bytes theirs_bytes)))) of
        Err e \<Rightarrow> (Err e, s)
      | Ok m \<Rightarrow>
          (case put s Blob (merged m) of
             (Err e, s1) \<Rightarrow> (Err e, s1)
           | (Ok merged_id, s1) \<Rightarrow> (Ok ([(path, om, merged_id)], conflicted m), s1)))"

definition merge_path :: "hash_algo \<Rightarrow> ('s \<Rightarrow> reader) \<Rightarrow> ('s \<Rightarrow> object_type \<Rightarrow> bytes \<Rightarrow> object_id result \<times> 's) \<Rightarrow> 's \<Rightarrow> bytes
    \<Rightarrow> (file_mode \<times> object_id) option \<Rightarrow> (file_mode \<times> object_id) option \<Rightarrow> (file_mode \<times> object_id) option
    \<Rightarrow> (flat_entry list \<times> bool) result \<times> 's" where
  "merge_path a fetch put s path b ours theirs =
     (if ours = theirs then (Ok (entry_of path ours, False), s)
      else if ours = b then (Ok (entry_of path theirs, False), s)
      else if theirs = b then (Ok (entry_of path ours, False), s)
      else
        let unmergeable = (Ok (if ours \<noteq> None then entry_of path ours else entry_of path theirs, True), s)
        in case (b, ours, theirs) of
             (Some (bm, bid), Some (om, i), Some (tm, tid)) \<Rightarrow>
               if is_file bm \<and> is_file om \<and> is_file tm \<and> om = tm
               then merge_content a fetch put s path om bid i tid
               else unmergeable
           | _ \<Rightarrow> unmergeable)"

fun merge_paths :: "hash_algo \<Rightarrow> ('s \<Rightarrow> reader) \<Rightarrow> ('s \<Rightarrow> object_type \<Rightarrow> bytes \<Rightarrow> object_id result \<times> 's) \<Rightarrow> flat \<Rightarrow> flat \<Rightarrow> flat
    \<Rightarrow> bytes list \<Rightarrow> 's \<Rightarrow> (flat_entry list \<times> bytes list) result \<times> 's" where
  "merge_paths a fetch put base_map ours_map theirs_map [] s = (Ok ([], []), s)"
| "merge_paths a fetch put base_map ours_map theirs_map (path # paths) s =
     (case merge_path a fetch put s path (bt_get base_map path) (bt_get ours_map path) (bt_get theirs_map path) of
        (Err e, s1) \<Rightarrow> (Err e, s1)
      | (Ok (es, conflict), s1) \<Rightarrow>
          (case merge_paths a fetch put base_map ours_map theirs_map paths s1 of
             (Err e, s2) \<Rightarrow> (Err e, s2)
           | (Ok (entries, conflicts), s2) \<Rightarrow>
               (Ok (es @ entries, (if conflict then [path] else []) @ conflicts), s2)))"

definition all_paths :: "flat \<Rightarrow> flat \<Rightarrow> flat \<Rightarrow> bytes list" where
  "all_paths base_map ours_map theirs_map =
     map fst (bt_collect (map (\<lambda>e. (fst e, ())) (base_map @ ours_map @ theirs_map)))"

text \<open>The maps of the three trees, with the errors in the order the code meets them.\<close>

definition flatten_three :: "nat \<Rightarrow> hash_algo \<Rightarrow> reader \<Rightarrow> object_id option \<Rightarrow> object_id \<Rightarrow> object_id
    \<Rightarrow> (flat \<times> flat \<times> flat) result option" where
  "flatten_three n a rd base ours theirs =
     (case flatten_option n a rd base of
        None \<Rightarrow> None
      | Some (Err e) \<Rightarrow> Some (Err e)
      | Some (Ok base_map) \<Rightarrow>
          (case flatten_tree n a rd ours of
             None \<Rightarrow> None
           | Some (Err e) \<Rightarrow> Some (Err e)
           | Some (Ok ours_map) \<Rightarrow>
               (case flatten_tree n a rd theirs of
                  None \<Rightarrow> None
                | Some (Err e) \<Rightarrow> Some (Err e)
                | Some (Ok theirs_map) \<Rightarrow> Some (Ok (base_map, ours_map, theirs_map)))))"

definition merge_trees :: "nat \<Rightarrow> hash_algo \<Rightarrow> ('s \<Rightarrow> reader) \<Rightarrow> ('s \<Rightarrow> object_type \<Rightarrow> bytes \<Rightarrow> object_id result \<times> 's) \<Rightarrow> 's
    \<Rightarrow> object_id option \<Rightarrow> object_id \<Rightarrow> object_id \<Rightarrow> (tree_merge_result result \<times> 's) option" where
  "merge_trees n a fetch put s base ours theirs =
     (case flatten_three n a (fetch s) base ours theirs of
        None \<Rightarrow> None
      | Some (Err e) \<Rightarrow> Some (Err e, s)
      | Some (Ok (base_map, ours_map, theirs_map)) \<Rightarrow> Some
          (case merge_paths a fetch put base_map ours_map theirs_map (all_paths base_map ours_map theirs_map) s of
             (Err e, s1) \<Rightarrow> (Err e, s1)
           | (Ok (entries, conflicts), s1) \<Rightarrow>
               (case write_tree_from_entries put s1 entries of
                  (Err e, s2) \<Rightarrow> (Err e, s2)
                | (Ok tree, s2) \<Rightarrow> (Ok \<lparr>tm_tree = tree, tm_conflicts = conflicts\<rparr>, s2))))"

section \<open>Lemmas\<close>

lemma set_bt_collect: "fst ` set (bt_collect kvs) = fst ` set kvs"
proof -
  have "fst ` set (foldl (\<lambda>m (k, v). bt_insert k v m) m kvs) = fst ` set m \<union> fst ` set kvs" for m
    by (induction kvs arbitrary: m) (simp_all add: set_bt_insert split_beta)
  from this [of "[]"] show ?thesis by (simp add: bt_collect_def)
qed

lemma all_paths_spec:
  "sorted_wrt (<) (all_paths bm om tm)" "set (all_paths bm om tm) = fst ` set (bm @ om @ tm)"
proof -
  show "sorted_wrt (<) (all_paths bm om tm)"
    using bt_invar_collect [of "map (\<lambda>e. (fst e, ())) (bm @ om @ tm)"] by (simp add: all_paths_def bt_invar_def)
  show "set (all_paths bm om tm) = fst ` set (bm @ om @ tm)"
    by (simp add: all_paths_def set_bt_collect image_image image_Un)
qed

text \<open>The files of a tree that was read are well formed, so they can be written again.\<close>

lemma tree_file_wf: "tree_file a rd t p v \<Longrightarrow> wf_flat a (p, v)"
proof (induction rule: tree_file.induct)
  case (tree_file_leaf t tr e)
  then have "wf_tree_entry a e"
    by (auto simp: read_tree_def tree_parse_def bind_res_eq_Ok dest: tree_parse_loop_wf)
  with tree_file_leaf(3) show ?case by (auto simp: wf_flat_def wf_tree_entry_def split_on_plain)
next
  case (tree_file_sub t tr e p v)
  then have "wf_tree_entry a e"
    by (auto simp: read_tree_def tree_parse_def bind_res_eq_Ok dest: tree_parse_loop_wf)
  with tree_file_sub.IH show ?case
    by (cases v) (auto simp: wf_flat_def wf_tree_entry_def split_on_append)
qed


text \<open>
  What the merge of one path has to be, from the path's state in the three trees to its state
  in the merged tree and whether it conflicts: a side that did not change yields to the other,
  the same change on both sides is kept, two different changes of a regular file are merged by
  content, and anything else is a conflict that keeps ours, or theirs where ours deleted it.
\<close>

type_synonym file_state = "(file_mode \<times> object_id) option"

definition mergeable :: "file_state \<Rightarrow> file_state \<Rightarrow> file_state \<Rightarrow> bool" where
  "mergeable b ours theirs \<longleftrightarrow>
     (\<exists>bm bi mode i j. b = Some (bm, bi) \<and> ours = Some (mode, i) \<and> theirs = Some (mode, j) \<and> is_file bm \<and> is_file mode)"

definition content_merged :: "digest \<Rightarrow> hash_algo \<Rightarrow> reader \<Rightarrow> file_state \<Rightarrow> file_state \<Rightarrow> file_state \<Rightarrow> file_state \<Rightarrow> bool \<Rightarrow> bool" where
  "content_merged dg a rd b ours theirs m c \<longleftrightarrow>
     (\<exists>bm bi mode i j x y z. b = Some (bm, bi) \<and> ours = Some (mode, i) \<and> theirs = Some (mode, j) \<and> is_file bm \<and> is_file mode
        \<and> read_blob a rd bi = Ok x \<and> read_blob a rd i = Ok y \<and> read_blob a rd j = Ok z
        \<and> m = Some (mode, hash_object dg a Blob (merged (merge3 x y z))) \<and> c = conflicted (merge3 x y z))"

definition resolved :: "digest \<Rightarrow> hash_algo \<Rightarrow> reader \<Rightarrow> file_state \<Rightarrow> file_state \<Rightarrow> file_state \<Rightarrow> file_state \<Rightarrow> bool \<Rightarrow> bool" where
  "resolved dg a rd b ours theirs m c \<longleftrightarrow>
     (ours = theirs \<longrightarrow> m = ours \<and> \<not> c) \<and> (ours = b \<longrightarrow> m = theirs \<and> \<not> c) \<and> (theirs = b \<longrightarrow> m = ours \<and> \<not> c)
     \<and> (ours \<noteq> theirs \<and> ours \<noteq> b \<and> theirs \<noteq> b \<longrightarrow>
          (if mergeable b ours theirs then content_merged dg a rd b ours theirs m c
           else c \<and> m = (if ours \<noteq> None then ours else theirs)))"

lemma read_blob_eq_Ok: "read_blob a rd i = Ok x \<longleftrightarrow> rd i = Ok (Blob, x)"
  by (auto simp: read_blob_def read_typed_def bind_res_eq_Ok split: if_splits)

lemma resolved_mono:
  assumes "\<And>i x. rd i = Ok x \<Longrightarrow> rd' i = Ok x" and "resolved dg a rd b ours theirs m c"
  shows "resolved dg a rd' b ours theirs m c"
proof -
  have "content_merged dg a rd b ours theirs m c \<Longrightarrow> content_merged dg a rd' b ours theirs m c"
    unfolding content_merged_def read_blob_eq_Ok using assms(1) by blast
  with assms(2) show ?thesis by (auto simp: resolved_def)
qed

lemma entry_of_simps [simp]: "entry_of p None = []" "entry_of p (Some v) = [(p, v)]"
  by (simp_all add: entry_of_def split_beta)

context total_store
begin

lemma write_tree_keeps:
  assumes "inv s"
  shows "\<forall>i x. fetch s i = Ok x \<longrightarrow> fetch (snd (write_tree_from_entries put s entries)) i = Ok x"
    "inv (snd (write_tree_from_entries put s entries))"
proof -
  let ?P = "\<lambda>t. inv t \<and> algo t = algo s \<and> (\<forall>i x. fetch s i = Ok x \<longrightarrow> fetch t i = Ok x)"
  have put: "\<And>t ty pl. ?P t \<Longrightarrow> fst (put t ty pl) = Ok (hash_object dg (algo s) ty pl) \<and> ?P (snd (put t ty pl))"
    using put_id takes put_inv algo_put put_keeps by (metis surj_pair)
  have "?P (snd (write_tree_from_entries put s entries))"
    using build_logged [where P = ?P and put = put and s = s and entries = "sort_key fst entries", OF put] assms
    unfolding write_tree_from_entries_def by (metis snd_conv)
  then show "\<forall>i x. fetch s i = Ok x \<longrightarrow> fetch (snd (write_tree_from_entries put s entries)) i = Ok x"
    "inv (snd (write_tree_from_entries put s entries))" by blast+
qed

lemma merge_content_spec:
  assumes "inv s" and "merge_content (algo s) fetch put s path om bid i tid = (Ok (es, c), s1)"
    and "is_file bm" and "is_file om"
  shows "inv s1 \<and> algo s1 = algo s \<and> (\<forall>i x. fetch s i = Ok x \<longrightarrow> fetch s1 i = Ok x)
    \<and> (\<exists>m. es = entry_of path m \<and> content_merged dg (algo s) (fetch s1) (Some (bm, bid)) (Some (om, i)) (Some (om, tid)) m c)"
proof -
  obtain x y z where xyz: "read_blob (algo s) (fetch s) bid = Ok x" "read_blob (algo s) (fetch s) i = Ok y"
      "read_blob (algo s) (fetch s) tid = Ok z"
    using assms(2) by (auto simp: merge_content_def bind_res_def split: result.splits)
  let ?m = "merge3 x y z"
  have p: "put s Blob (merged ?m) = (Ok (hash_object dg (algo s) Blob (merged ?m)), s1)"
      "es = [(path, om, hash_object dg (algo s) Blob (merged ?m))]" "c = conflicted ?m"
    using assms(2) xyz put_id [OF assms(1) takes [OF assms(1)], of Blob "merged ?m"]
    by (auto simp: merge_content_def split: prod.splits result.splits)
  have keep: "\<forall>i x. fetch s i = Ok x \<longrightarrow> fetch s1 i = Ok x"
    using put_keeps [OF assms(1), of _ _ _ Blob "merged ?m"] p(1) by auto
  have "content_merged dg (algo s) (fetch s1) (Some (bm, bid)) (Some (om, i)) (Some (om, tid))
      (Some (om, hash_object dg (algo s) Blob (merged ?m))) c"
    unfolding content_merged_def read_blob_eq_Ok using xyz [unfolded read_blob_eq_Ok] keep assms(3,4) p(3) by blast
  moreover have "es = entry_of path (Some (om, hash_object dg (algo s) Blob (merged ?m)))" by (simp add: p(2))
  moreover have "inv s1" "algo s1 = algo s"
    using put_inv [OF assms(1), of Blob "merged ?m"] algo_put [of s Blob "merged ?m"] p(1) by simp_all
  ultimately show ?thesis using keep by blast
qed

lemma merge_path_spec:
  assumes "inv s" and "merge_path (algo s) fetch put s path b ours theirs = (Ok (es, c), s1)"
  shows "inv s1 \<and> algo s1 = algo s \<and> (\<forall>i x. fetch s i = Ok x \<longrightarrow> fetch s1 i = Ok x)
    \<and> (\<exists>m. es = entry_of path m \<and> resolved dg (algo s) (fetch s1) b ours theirs m c)"
proof (cases "ours \<noteq> theirs \<and> ours \<noteq> b \<and> theirs \<noteq> b \<and> mergeable b ours theirs")
  case True
  then obtain bm bid om i tid where v: "b = Some (bm, bid)" "ours = Some (om, i)" "theirs = Some (om, tid)" "is_file bm" "is_file om"
    unfolding mergeable_def by blast
  then have "merge_content (algo s) fetch put s path om bid i tid = (Ok (es, c), s1)"
    using assms(2) True by (simp add: merge_path_def Let_def split: if_splits)
  from merge_content_spec [OF assms(1) this v(4,5)] show ?thesis
    using True unfolding v(1-3) resolved_def by auto
next
  case False
  then have "s1 = s" and "es = entry_of path (if ours = theirs then ours else if ours = b then theirs else if theirs = b then ours
        else if ours \<noteq> None then ours else theirs)"
      and "c \<longleftrightarrow> ours \<noteq> theirs \<and> ours \<noteq> b \<and> theirs \<noteq> b"
    using assms(2)
    by (auto simp: merge_path_def Let_def mergeable_def split: if_splits option.splits prod.splits)
  with False assms(1) show ?thesis by (auto simp: resolved_def)
qed

lemma merge_paths_spec:
  assumes "inv s" and "distinct paths"
    and "merge_paths (algo s) fetch put bm om tm paths s = (Ok (entries, conflicts), s1)"
  shows "inv s1 \<and> algo s1 = algo s \<and> (\<forall>i x. fetch s i = Ok x \<longrightarrow> fetch s1 i = Ok x)
    \<and> (\<exists>f c. entries = concat (map (\<lambda>p. entry_of p (f p)) paths) \<and> conflicts = filter c paths
        \<and> (\<forall>p\<in>set paths. resolved dg (algo s) (fetch s1) (bt_get bm p) (bt_get om p) (bt_get tm p) (f p) (c p)))"
  using assms
proof (induction paths arbitrary: s entries conflicts)
  case (Cons p paths)
  obtain es c0 s0 es' cs' where h: "merge_path (algo s) fetch put s p (bt_get bm p) (bt_get om p) (bt_get tm p) = (Ok (es, c0), s0)"
      "merge_paths (algo s) fetch put bm om tm paths s0 = (Ok (es', cs'), s1)"
      "entries = es @ es'" "conflicts = (if c0 then [p] else []) @ cs'"
    using Cons.prems(3) by (auto split: prod.splits result.splits)
  from merge_path_spec [OF Cons.prems(1) h(1)] obtain m where m: "inv s0" "algo s0 = algo s"
      "\<forall>i x. fetch s i = Ok x \<longrightarrow> fetch s0 i = Ok x" "es = entry_of p m"
      "resolved dg (algo s) (fetch s0) (bt_get bm p) (bt_get om p) (bt_get tm p) m c0" by blast
  from Cons.IH [OF m(1) _ h(2) [folded m(2)]] Cons.prems(2) m(2)
  obtain f c where f: "inv s1" "algo s1 = algo s" "\<forall>i x. fetch s0 i = Ok x \<longrightarrow> fetch s1 i = Ok x"
      "es' = concat (map (\<lambda>p. entry_of p (f p)) paths)" "cs' = filter c paths"
      "\<forall>p\<in>set paths. resolved dg (algo s) (fetch s1) (bt_get bm p) (bt_get om p) (bt_get tm p) (f p) (c p)"
    by (auto simp del: split_paired_All)
  have p: "p \<notin> set paths" using Cons.prems(2) by simp
  then have upd: "map (\<lambda>q. entry_of q ((f(p := m)) q)) paths = map (\<lambda>q. entry_of q (f q)) paths"
    "filter (c(p := c0)) paths = filter c paths"
    by (auto cong: map_cong intro!: filter_cong split: if_splits)
  have "entries = concat (map (\<lambda>q. entry_of q ((f(p := m)) q)) (p # paths))" "conflicts = filter (c(p := c0)) (p # paths)"
    unfolding h(3,4) m(4) f(4,5) list.map filter.simps upd fun_upd_same by simp_all
  moreover have "resolved dg (algo s) (fetch s1) (bt_get bm p) (bt_get om p) (bt_get tm p) m c0"
    by (rule resolved_mono [OF _ m(5)]) (use f(3) in blast)
  then have "\<forall>q\<in>set (p # paths). resolved dg (algo s) (fetch s1) (bt_get bm q) (bt_get om q) (bt_get tm q) ((f(p := m)) q) ((c(p := c0)) q)"
    using p f(6) by auto
  ultimately have "entries = concat (map (\<lambda>q. entry_of q ((f(p := m)) q)) (p # paths)) \<and> conflicts = filter (c(p := c0)) (p # paths)
      \<and> (\<forall>q\<in>set (p # paths). resolved dg (algo s) (fetch s1) (bt_get bm q) (bt_get om q) (bt_get tm q) ((f(p := m)) q) ((c(p := c0)) q))"
    by blast
  then show ?case using f(1-3) m(3) by blast
qed simp

end

lemma concat_entry_of:
  "distinct paths \<Longrightarrow> map_of (concat (map (\<lambda>p. entry_of p (f p)) paths)) p = (if p \<in> set paths then f p else None)"
proof (induction paths)
  case (Cons q paths)
  then show ?case by (cases "f q") (auto simp: map_add_def split: option.splits)
qed simp

lemma concat_entry_sorted:
  "sorted_wrt (<) paths \<Longrightarrow> sorted_wrt (<) (map fst (concat (map (\<lambda>p. entry_of p (f p)) paths)))"
proof (induction paths)
  case (Cons q paths)
  have "fst ` set (concat (map (\<lambda>p. entry_of p (f p)) paths)) \<subseteq> set paths"
    by (auto simp: entry_of_def split: option.splits)
  with Cons show ?case by (cases "f q") auto
qed simp

lemma resolved_cases:
  assumes "resolved dg a rd b ours theirs (Some v) c"
  shows "ours = Some v \<or> theirs = Some v \<or> (\<exists>u mode x. b = Some u \<and> is_file mode \<and> v = (mode, hash_object dg a Blob x))"
  using assms by (auto simp: resolved_def content_merged_def split: if_splits)

lemma resolved_wf:
  assumes "digest_ok dg" and "resolved dg a rd b ours theirs (Some v) c"
    and "\<And>u. b = Some u \<or> ours = Some u \<or> theirs = Some u \<Longrightarrow> wf_flat a (p, u)"
  shows "wf_flat a (p, v)"
proof -
  from resolved_cases [OF assms(2)] consider "ours = Some v \<or> theirs = Some v"
    | u mode x where "b = Some u" "is_file mode" "v = (mode, hash_object dg a Blob x)" by blast
  then show ?thesis
  proof cases
    case 2
    have "wf_flat a (p, u)" by (rule assms(3)) (simp add: 2)
    then show ?thesis
      using 2 wf_hash_object [OF assms(1), of a Blob x] by (auto simp: wf_flat_def is_file_def split: prod.splits)
  qed (use assms(3) in blast)
qed

lemma flatten_three_files:
  assumes "flatten_three n a rd base ours theirs = Some (Ok (bm, om, tm))"
  shows "bt_get bm p = Some u \<or> bt_get om p = Some u \<or> bt_get tm p = Some u \<Longrightarrow> wf_flat a (p, u)"
    "bt_invar bm" "bt_invar om" "bt_invar tm"
proof -
  have f: "flatten_option n a rd base = Some (Ok bm)" "flatten_tree n a rd ours = Some (Ok om)" "flatten_tree n a rd theirs = Some (Ok tm)"
    using assms by (auto simp: flatten_three_def split: option.splits result.splits)
  have "wf_flat a (p, u)" if "flatten_option n a rd t = Some (Ok m)" "bt_get m p = Some u" for t m
  proof (cases t)
    case None
    with that show ?thesis by (simp add: flatten_option_def bt_get_def)
  next
    case (Some i)
    with that(1) have "flatten_tree n a rd i = Some (Ok m)" by (simp add: flatten_option_def)
    from flatten_tree_files(2) [OF this that(2)] show ?thesis by (rule tree_file_wf)
  qed
  from this [of base bm] this [of "Some ours" om] this [of "Some theirs" tm] f
  show "bt_get bm p = Some u \<or> bt_get om p = Some u \<or> bt_get tm p = Some u \<Longrightarrow> wf_flat a (p, u)"
    by (auto simp: flatten_option_def)
  show "bt_invar bm" using f(1) flatten_tree_files(1) by (cases base) (auto simp: flatten_option_def bt_invar_def)
  show "bt_invar om" "bt_invar tm" using f(2,3) flatten_tree_files(1) by blast+
qed

section \<open>Properties\<close>

text \<open>
  C13. The merge of two trees against their base: flattening the tree that \<open>merge_trees\<close> writes
  gives, at every path, what the three-way rule asks for. A side that did not change from the
  base yields to the other side (a deletion included), equal changes are kept once, files that
  are regular on both sides and in the base get the line merge of their contents, and everything
  else keeps ours, or theirs where ours deleted the file. The paths reported as conflicts are
  exactly the ones whose changes clash. The merge succeeds, on the in-memory store, and what it
  writes does not collide with other content under the same digest; a path that is a file on one side
  and a directory on the other is the subject of \<open>merge_trees_file_directory\<close>.
\<close>

theorem merge_trees_correct:
  assumes "memory_inv dg s"
    and "merge_trees n (mem_algo s) memory_read (memory_write dg) s base ours theirs = Some (Ok r, s2)"
    and "flatten_three n (mem_algo s) (memory_read s) base ours theirs = Some (Ok (bm, om, tm))"
    and "merge_paths (mem_algo s) memory_read (memory_write dg) bm om tm (all_paths bm om tm) s = (Ok (entries, conflicts), s1)"
    and "no_collision dg (mem_algo s) (memory_read s2) (tree_writes dg (mem_algo s) entries)"
  shows "\<exists>m. flatten_tree (Suc (entries_size entries)) (mem_algo s) (memory_read s2) (tm_tree r) = Some (Ok m)
    \<and> (\<forall>p. resolved dg (mem_algo s) (memory_read s2) (bt_get bm p) (bt_get om p) (bt_get tm p)
          (bt_get m p) (p \<in> set (tm_conflicts r)))"
proof -
  let ?ps = "all_paths bm om tm"
  note fl = flatten_three_files [OF assms(3)]
  have ps: "sorted_wrt (<) ?ps" "distinct ?ps" using all_paths_spec(1) by (auto simp: strict_sorted_iff)
  have inv_ok: "memory_inv dg s1 \<and> mem_algo s1 = mem_algo s \<and> (\<forall>i x. memory_read s i = Ok x \<longrightarrow> memory_read s1 i = Ok x)
    \<and> (\<exists>f c. entries = concat (map (\<lambda>p. entry_of p (f p)) ?ps) \<and> conflicts = filter c ?ps
        \<and> (\<forall>p\<in>set ?ps. resolved dg (mem_algo s) (memory_read s1) (bt_get bm p) (bt_get om p) (bt_get tm p) (f p) (c p)))"
    by (rule memtotal.merge_paths_spec [OF assms(1) ps(2) assms(4)])
  then obtain f c where m: "memory_inv dg s1" "mem_algo s1 = mem_algo s"
      "entries = concat (map (\<lambda>p. entry_of p (f p)) ?ps)" "conflicts = filter c ?ps"
      "\<And>p. p \<in> set ?ps \<Longrightarrow> resolved dg (mem_algo s) (memory_read s1) (bt_get bm p) (bt_get om p) (bt_get tm p) (f p) (c p)"
    by blast
  have get: "map_of entries p = (if p \<in> set ?ps then f p else None)" for p
    unfolding m(3) by (rule concat_entry_of [OF ps(2)])
  have sorted: "sorted_wrt (<) (map fst entries)" unfolding m(3) by (rule concat_entry_sorted [OF ps(1)])
  then have sort: "sort_key fst entries = entries" "distinct (map fst entries)"
    by (simp_all add: strict_sorted_iff sort_key_id_if_sorted)
  have wf: "\<forall>e\<in>set entries. wf_flat (mem_algo s) e"
  proof
    fix e assume "e \<in> set entries"
    then have e: "map_of entries (fst e) = Some (snd e)" using sort(2) by simp
    then have "fst e \<in> set ?ps" "f (fst e) = Some (snd e)" unfolding get by (auto split: if_splits)
    from resolved_wf [OF mem.digest [OF assms(1)] m(5) [OF this(1), unfolded this(2)], of "fst e"] fl(1)
    show "wf_flat (mem_algo s) e" by simp
  qed
  have w: "write_tree_from_entries (memory_write dg) s1 entries = (Ok (tm_tree r), s2)" "tm_conflicts r = conflicts"
    using assms(2-4) by (auto simp: merge_trees_def split: prod.splits result.splits)
  have flat: "flatten_tree (Suc (entries_size entries)) (mem_algo s) (memory_read s2) (tm_tree r) = Some (Ok entries)"
    using memtotal.write_tree_files [OF m(1), of entries] wf sort assms(5) unfolding m(2) w(1) by auto
  have keep: "memory_read s1 i = Ok x \<Longrightarrow> memory_read s2 i = Ok x" for i x
    using memtotal.write_tree_keeps(1) [OF m(1), of entries] w(1) by (cases x) simp
  have "resolved dg (mem_algo s) (memory_read s2) (bt_get bm p) (bt_get om p) (bt_get tm p) (bt_get entries p) (p \<in> set (tm_conflicts r))" for p
  proof (cases "p \<in> set ?ps")
    case True
    then show ?thesis
      using resolved_mono [OF keep m(5)] w(2) get [of p] by (simp add: bt_get_def m(4))
  next
    case False
    then have "bt_get bm p = None" "bt_get om p = None" "bt_get tm p = None"
      unfolding all_paths_spec by (auto simp: bt_get_def map_of_eq_None_iff)
    then show ?thesis using False get [of p] w(2) by (simp add: bt_get_def m(4) resolved_def)
  qed
  with flat show ?thesis by blast
qed

text \<open>
  A store for the witnesses: a base tree with the file \<open>f\<close>, and trees that change it and add \<open>g\<close>.
\<close>

definition demo_trees :: "(object_id \<times> object_id \<times> object_id) \<times> memory_odb" where
  "demo_trees =
     (let w = memory_write head_digest;
          f1 = (ObjectId Sha1 (replicate 20 1)); f2 = (ObjectId Sha1 (replicate 20 2));
          (b, s1) = write_tree_from_entries w (memory_new Sha1) [([102], Regular, f1)];
          (t1, s2) = write_tree_from_entries w s1 [([102], Executable, f2)];
          (t2, s3) = write_tree_from_entries w s2 [([102], Regular, f1), ([103], Symlink, f1)]
      in ((unwrap b, unwrap t1, unwrap t2), s3))"

lemma demo_inv: "memory_inv head_digest (snd demo_trees)"
  unfolding demo_trees_def Let_def split_beta snd_conv
  by (intro memtotal.write_tree_keeps(2) memory_inv_new digest_ok_head)

theorem merge_trees_correct_witness:
  "\<exists>r s2 k m. merge_trees 3 Sha1 memory_read (memory_write head_digest) (snd demo_trees)
       (Some (fst (fst demo_trees))) (fst (snd (fst demo_trees))) (snd (snd (fst demo_trees))) = Some (Ok r, s2)
     \<and> flatten_tree k Sha1 (memory_read s2) (tm_tree r) = Some (Ok m)
     \<and> bt_get m [102] = Some (Executable, ObjectId Sha1 (replicate 20 2)) \<and> [102] \<notin> set (tm_conflicts r)"
proof -
  let ?s = "snd demo_trees" and ?b = "Some (fst (fst demo_trees))"
  let ?o = "fst (snd (fst demo_trees))" and ?t = "snd (snd (fst demo_trees))"
  let ?f1 = "ObjectId Sha1 (replicate 20 1)" and ?f2 = "ObjectId Sha1 (replicate 20 2)"
  let ?bm = "[([102], Regular, ?f1)] :: flat" and ?om = "[([102], Executable, ?f2)] :: flat"
  let ?tm = "[([102], Regular, ?f1), ([103], Symlink, ?f1)] :: flat" and ?es = "[([102], Executable, ?f2), ([103], Symlink, ?f1)] :: flat"
  have a: "mem_algo ?s = Sha1" by code_simp
  have f: "flatten_three 3 Sha1 (memory_read ?s) ?b ?o ?t = Some (Ok (?bm, ?om, ?tm))" by code_simp
  have p: "merge_paths Sha1 memory_read (memory_write head_digest) ?bm ?om ?tm (all_paths ?bm ?om ?tm) ?s = (Ok (?es, []), ?s)"
    by code_simp
  have "case merge_trees 3 Sha1 memory_read (memory_write head_digest) ?s ?b ?o ?t of
      Some (Ok r, s2) \<Rightarrow> no_collision head_digest Sha1 (memory_read s2) (tree_writes head_digest Sha1 ?es)
    | _ \<Rightarrow> False" by code_simp
  then obtain r s2 where
      m: "merge_trees 3 Sha1 memory_read (memory_write head_digest) ?s ?b ?o ?t = Some (Ok r, s2)"
    and n: "no_collision head_digest Sha1 (memory_read s2) (tree_writes head_digest Sha1 ?es)"
    by (simp only: split: option.split_asm prod.split_asm result.split_asm)
  from merge_trees_correct [OF demo_inv, unfolded a, OF m f p n] obtain k flat where
      flat: "flatten_tree k Sha1 (memory_read s2) (tm_tree r) = Some (Ok flat)"
      "resolved head_digest Sha1 (memory_read s2) (bt_get ?bm [102]) (bt_get ?om [102]) (bt_get ?tm [102])
        (bt_get flat [102]) ([102] \<in> set (tm_conflicts r))" by blast
  from flat(2) have "bt_get flat [102] = bt_get ?om [102] \<and> [102] \<notin> set (tm_conflicts r)"
    by (simp add: resolved_def bt_get_def)
  then have "bt_get flat [102] = Some (Executable, ?f2) \<and> [102] \<notin> set (tm_conflicts r)" by (simp add: bt_get_def)
  with m flat(1) show ?thesis by blast
qed

text \<open>
  A file against a directory: when ours adds the file \<open>a\<close> and theirs adds \<open>a/b\<close>, no path
  is in both maps, so the merge reports no conflict and writes a tree with two entries named \<open>a\<close>.
\<close>

theorem merge_trees_file_directory:
  "case write_tree_from_entries (memory_write head_digest) (memory_new Sha1) [([97], Regular, zero_oid Sha1)] of
     (ours, s1) \<Rightarrow>
       (case write_tree_from_entries (memory_write head_digest) s1 [([97, 47, 98], Regular, zero_oid Sha1)] of
          (theirs, s2) \<Rightarrow>
            (case merge_trees 3 Sha1 memory_read (memory_write head_digest) s2 None (unwrap ours) (unwrap theirs) of
               Some (Ok r, s3) \<Rightarrow>
                 tm_conflicts r = []
                 \<and> (case read_tree Sha1 (memory_read s3) (tm_tree r) of
                      Ok tr \<Rightarrow> map te_name (tree_entries tr) = [[97], [97]] | Err e \<Rightarrow> False)
             | _ \<Rightarrow> False))"
  by code_simp

end
