(* ===== verification/Ewah.thy ===== *)
theory Ewah
  imports Prelude
begin

text \<open>
  The EWAH compression of bitmaps (src/src/pack/ewah.rs): run-length words and literals over
  64-bit words, the on-disk layout, and the conversion to and from positions of set bits. The
  cursor \<open>i\<close> of the loops is the list that is left to read. A run of clean words and a run of
  literals are counted in 32 and 31 bits of a word; the counts are packed with shifts that do not
  check them, so the laws ask for bitmaps of less than \<open>2 ^ 31\<close> words.
\<close>

unbundle bit_operations_syntax

section \<open>Model\<close>

record ewah =
  ew_bit_size :: nat
  ew_words :: "64 word list"
  ew_rlw_position :: nat

definition make_rlw :: "bool \<Rightarrow> 64 word \<Rightarrow> 64 word \<Rightarrow> 64 word" where
  "make_rlw b run_len literals = of_bool b OR push_bit 1 run_len OR push_bit 33 literals"

definition split_rlw :: "64 word \<Rightarrow> bool \<times> 64 word \<times> 64 word" where
  "split_rlw rlw = (rlw AND 1 \<noteq> 0, drop_bit 1 rlw AND 0xFFFFFFFF, drop_bit 33 rlw AND 0x7FFFFFFF)"

definition is_literal :: "64 word \<Rightarrow> bool" where
  "is_literal w \<longleftrightarrow> w \<noteq> 0 \<and> w \<noteq> - 1"

function compress_loop :: "64 word list \<Rightarrow> 64 word list \<Rightarrow> nat \<Rightarrow> 64 word list \<times> nat" where
  "compress_loop [] words rlw_position = (words, rlw_position)"
| "compress_loop (w # bits) words rlw_position =
     (if is_literal w then
        let literals = takeWhile is_literal (w # bits)
        in compress_loop (dropWhile is_literal (w # bits))
             (words @ make_rlw False 0 (of_nat (length literals)) # literals) (length words)
      else
        let run_len = length (takeWhile (\<lambda>v. v = w) (w # bits));
            rest = dropWhile (\<lambda>v. v = w) (w # bits);
            literals = takeWhile is_literal rest
        in compress_loop (dropWhile is_literal rest)
             (words @ make_rlw (w = - 1) (of_nat run_len) (of_nat (length literals)) # literals) (length words))"
  by pat_completeness auto
termination
  by (relation "measure (\<lambda>(bits, words, p). length bits)")
    (auto simp: less_Suc_eq_le intro: order_trans [OF length_dropWhile_le])

definition compress :: "64 word list \<Rightarrow> nat \<Rightarrow> ewah" where
  "compress bits bit_size =
     (let (words, rlw_position) = compress_loop bits [] 0
      in \<lparr>ew_bit_size = bit_size,
          ew_words = (if words = [] then [make_rlw False 0 0] else words),
          ew_rlw_position = rlw_position\<rparr>)"

fun or_bits :: "nat \<Rightarrow> nat list \<Rightarrow> 64 word list \<Rightarrow> 64 word list" where
  "or_bits bit_size [] words = words"
| "or_bits bit_size (b # bs) words =
     or_bits bit_size bs
       (if b < bit_size then words[b div 64 := words ! (b div 64) OR push_bit (b mod 64) 1] else words)"

definition from_set_bits :: "nat list \<Rightarrow> nat \<Rightarrow> ewah" where
  "from_set_bits set_positions bit_size =
     compress (or_bits bit_size set_positions (replicate ((bit_size + 63) div 64) 0)) bit_size"

definition ewah_to_bytes :: "ewah \<Rightarrow> bytes" where
  "ewah_to_bytes e =
     be_bytes (of_nat (ew_bit_size e) :: 32 word) @ be_bytes (of_nat (length (ew_words e)) :: 32 word)
     @ concat (map be_bytes (ew_words e)) @ be_bytes (of_nat (ew_rlw_position e) :: 32 word)"

fun words_of :: "nat \<Rightarrow> bytes \<Rightarrow> 64 word list" where
  "words_of 0 data = []"
| "words_of (Suc n) data = be_word (take 8 data) # words_of n (drop 8 data)"

definition ewah_from_bytes :: "bytes \<Rightarrow> (ewah \<times> nat) result" where
  "ewah_from_bytes data =
     (if length data < 8 then Err (Parse ''ewah: truncated header'')
      else
        let bit_size = unat (be_word (take 4 data) :: 32 word);
            word_count = unat (be_word (take 4 (drop 4 data)) :: 32 word);
            stop = 8 + word_count * 8
        in if length data < stop + 4 then Err (Parse ''ewah: truncated words'')
           else Ok (\<lparr>ew_bit_size = bit_size,
                     ew_words = words_of word_count (drop 8 data),
                     ew_rlw_position = unat (be_word (take 4 (drop stop data)) :: 32 word)\<rparr>,
                    stop + 4))"

function decompress_loop :: "64 word list \<Rightarrow> 64 word list" where
  "decompress_loop [] = []"
| "decompress_loop (rlw # ws) =
     (let (b, run_len, literals) = split_rlw rlw
      in replicate (unat run_len) (if b then - 1 else 0) @ take (unat literals) ws
         @ decompress_loop (drop (unat literals) ws))"
  by pat_completeness auto
termination
  by (relation "measure length") auto

definition decompress :: "ewah \<Rightarrow> 64 word list" where
  "decompress e = decompress_loop (ew_words e)"

text \<open>The inner loop over the bits of a word; the flag is the early \<open>return\<close>.\<close>

fun word_bits :: "nat \<Rightarrow> nat \<Rightarrow> 64 word \<Rightarrow> nat list \<Rightarrow> nat list \<times> bool" where
  "word_bits bit_size wi w [] = ([], False)"
| "word_bits bit_size wi w (b # bs) =
     (if wi * 64 + b \<ge> bit_size then ([], True)
      else
        let (out, stop) = word_bits bit_size wi w bs
        in ((if w AND push_bit b 1 \<noteq> 0 then [wi * 64 + b] else []) @ out, stop))"

fun set_bits_loop :: "nat \<Rightarrow> nat \<Rightarrow> 64 word list \<Rightarrow> nat list" where
  "set_bits_loop bit_size wi [] = []"
| "set_bits_loop bit_size wi (w # ws) =
     (if w = 0 then set_bits_loop bit_size (wi + 1) ws
      else
        let (out, stop) = word_bits bit_size wi w [0..<64]
        in if stop then out else out @ set_bits_loop bit_size (wi + 1) ws)"

definition set_bits :: "ewah \<Rightarrow> nat list" where
  "set_bits e = set_bits_loop (ew_bit_size e) 0 (decompress e)"

section \<open>Lemmas\<close>

subsection \<open>Run-length words\<close>

lemma split_make_rlw:
  assumes "unat r < 2 ^ 32" and "unat l < 2 ^ 31"
  shows "split_rlw (make_rlw b r l) = (b, r, l)"
proof -
  have r: "bit r m \<Longrightarrow> m < 32" and l: "bit l m \<Longrightarrow> m < 31" for m
    using bit_small [OF assms(1)] bit_small [OF assms(2)] by blast+
  have m: "(0xFFFFFFFF :: 64 word) = mask 32" "(0x7FFFFFFF :: 64 word) = mask 31" by (simp_all add: mask_eq_exp_minus_1)
  have g: "bit (make_rlw b r l) n \<longleftrightarrow> n < 64 \<and> (b \<and> n = 0 \<or> 1 \<le> n \<and> bit r (n - 1) \<or> 33 \<le> n \<and> bit l (n - 33))" for n
    unfolding make_rlw_def bit_or_iff bit_push_bit_iff by (auto simp: bit_simps dest: r l)
  have "make_rlw b r l AND 1 \<noteq> 0 \<longleftrightarrow> b"
    unfolding and_one_eq mod_2_eq_odd bit_0 [symmetric] by (simp add: g)
  moreover have "drop_bit 1 (make_rlw b r l) AND 0xFFFFFFFF = r"
    unfolding m by (rule bit_word_eqI, unfold bit_and_iff bit_drop_bit_eq comp_def g) (auto simp: bit_simps dest: r l)
  moreover have "drop_bit 33 (make_rlw b r l) AND 0x7FFFFFFF = l"
    unfolding m by (rule bit_word_eqI, unfold bit_and_iff bit_drop_bit_eq comp_def g) (auto simp: bit_simps dest: r l)
  ultimately show ?thesis by (simp add: split_rlw_def)
qed

subsection \<open>Compression\<close>

lemma unat_count: "n < 2 ^ 31 \<Longrightarrow> unat (of_nat n :: 64 word) = n"
  by (simp add: unat_of_nat take_bit_nat_eq_self)

lemma decompress_block:
  assumes "n < 2 ^ 31" and "length literals < 2 ^ 31"
  shows "decompress_loop (make_rlw b (of_nat n) (of_nat (length literals)) # literals @ ws)
    = replicate n (if b then - 1 else 0) @ literals @ decompress_loop ws"
  using assms by (simp add: split_make_rlw unat_count)

lemma takeWhile_eq_replicate: "takeWhile (\<lambda>v. v = w) xs = replicate (length (takeWhile (\<lambda>v. v = w) xs)) w"
  by (induction xs) auto

lemma run_split:
  assumes "xs = w # bits"
  shows "xs = replicate (length (takeWhile (\<lambda>v. v = w) xs)) w @ takeWhile is_literal (dropWhile (\<lambda>v. v = w) xs)
      @ dropWhile is_literal (dropWhile (\<lambda>v. v = w) xs)"
  using takeWhile_eq_replicate [of w xs] takeWhile_dropWhile_id [of "\<lambda>v. v = w" xs] by (metis takeWhile_dropWhile_id)

lemma compress_block:
  assumes "compress_loop r (words @ make_rlw b (of_nat n) (of_nat (length l)) # l) (length words)
      = ((words @ make_rlw b (of_nat n) (of_nat (length l)) # l) @ ws, q)"
    and "decompress_loop ws = r" and "length ws \<le> 2 * length r"
    and "q \<le> max (length words) (length (words @ make_rlw b (of_nat n) (of_nat (length l)) # l) + length ws)"
    and "xs = replicate n (if b then - 1 else 0) @ l @ r" and "0 < n + length l" and "length xs < 2 ^ 31"
  shows "\<exists>ws q. compress_loop r (words @ make_rlw b (of_nat n) (of_nat (length l)) # l) (length words) = (words @ ws, q)
    \<and> decompress_loop ws = xs \<and> length ws \<le> 2 * length xs \<and> q \<le> max p (length words + length ws) \<and> ws \<noteq> []"
proof -
  let ?ws = "make_rlw b (of_nat n) (of_nat (length l)) # l @ ws"
  have "decompress_loop ?ws = xs" using assms(2,5,7) by (subst decompress_block) simp_all
  moreover have "length ?ws \<le> 2 * length xs"
  proof -
    have "length xs = n + length l + length r" by (simp add: assms(5))
    moreover have "length ?ws = 1 + length l + length ws" by simp
    ultimately show ?thesis using assms(3,6) by linarith
  qed
  moreover have "q \<le> max p (length words + length ?ws)" using assms(4) by simp
  ultimately show ?thesis using assms(1) by (intro exI [of _ ?ws] exI [of _ q]) simp
qed

lemma compress_loop_spec:
  "length bits < 2 ^ 31 \<Longrightarrow> \<exists>ws q. compress_loop bits words p = (words @ ws, q) \<and> decompress_loop ws = bits
     \<and> length ws \<le> 2 * length bits \<and> q \<le> max p (length words + length ws) \<and> (ws = [] \<longrightarrow> bits = [])"
proof (induction bits words p rule: compress_loop.induct)
  case (2 w bits words p)
  define xs where "xs = w # bits"
  have xs: "length xs < 2 ^ 31" "xs \<noteq> []" using "2.prems" by (simp_all add: xs_def)
  show ?case
  proof (cases "is_literal w")
    case True
    define l where "l = takeWhile is_literal xs"
    define r where "r = dropWhile is_literal xs"
    have lr: "xs = l @ r" "0 < length l" using True by (simp_all add: l_def r_def xs_def)
    then have "length r < 2 ^ 31" using xs(1) by simp
    from "2.IH"(1) [OF True l_def [unfolded xs_def], folded xs_def r_def, OF this] obtain ws q where
      q: "compress_loop r (words @ make_rlw False (of_nat 0) (of_nat (length l)) # l) (length words)
          = ((words @ make_rlw False (of_nat 0) (of_nat (length l)) # l) @ ws, q)"
        "decompress_loop ws = r" "length ws \<le> 2 * length r"
        "q \<le> max (length words) (length (words @ make_rlw False (of_nat 0) (of_nat (length l)) # l) + length ws)" by auto
    have c: "compress_loop xs words p = compress_loop r (words @ make_rlw False (of_nat 0) (of_nat (length l)) # l) (length words)"
      using True by (simp add: xs_def l_def r_def)
    show ?thesis
      using compress_block [OF q, of xs p] lr xs(1) unfolding xs_def [symmetric] c by auto
  next
    case False
    define n where "n = length (takeWhile (\<lambda>v. v = w) xs)"
    define rest where "rest = dropWhile (\<lambda>v. v = w) xs"
    define l where "l = takeWhile is_literal rest"
    define r where "r = dropWhile is_literal rest"
    have w: "(if w = - 1 then - 1 else 0) = w" using False by (auto simp: is_literal_def)
    have lr: "xs = replicate n w @ l @ r" unfolding n_def l_def r_def rest_def by (rule run_split [OF xs_def])
    have n: "0 < n" by (simp add: n_def xs_def)
    from lr have "length r < 2 ^ 31" using xs(1) by simp
    from "2.IH"(2) [OF False n_def [unfolded xs_def] rest_def [unfolded xs_def] l_def, folded r_def, OF this] obtain ws q where
      q: "compress_loop r (words @ make_rlw (w = - 1) (of_nat n) (of_nat (length l)) # l) (length words)
          = ((words @ make_rlw (w = - 1) (of_nat n) (of_nat (length l)) # l) @ ws, q)"
        "decompress_loop ws = r" "length ws \<le> 2 * length r"
        "q \<le> max (length words) (length (words @ make_rlw (w = - 1) (of_nat n) (of_nat (length l)) # l) + length ws)" by auto
    have c: "compress_loop xs words p = compress_loop r (words @ make_rlw (w = - 1) (of_nat n) (of_nat (length l)) # l) (length words)"
      unfolding xs_def compress_loop.simps n_def l_def r_def rest_def Let_def using False by simp
    show ?thesis
      using compress_block [OF q, of xs p] lr n xs(1) unfolding xs_def [symmetric] c w by auto
  qed
qed simp

lemma decompress_compress:
  assumes "length bits < 2 ^ 31"
  shows "decompress (compress bits n) = bits" "ew_bit_size (compress bits n) = n"
    "length (ew_words (compress bits n)) < 2 ^ 32" "ew_rlw_position (compress bits n) < 2 ^ 32"
proof -
  obtain ws q where c: "compress_loop bits [] 0 = (ws, q)" "decompress_loop ws = bits" "length ws \<le> 2 * length bits"
      "q \<le> length ws" "ws = [] \<longrightarrow> bits = []"
    using compress_loop_spec [OF assms, of "[]" 0] by auto
  have "decompress_loop [make_rlw False 0 0] = []" using decompress_block [of 0 "[]" False "[]"] by simp
  then show "decompress (compress bits n) = bits" using c by (auto simp: compress_def decompress_def)
  show "ew_bit_size (compress bits n) = n" by (simp add: compress_def c(1))
  show "length (ew_words (compress bits n)) < 2 ^ 32" "ew_rlw_position (compress bits n) < 2 ^ 32"
    using c(3,4) assms by (auto simp: compress_def c(1))
qed

subsection \<open>Layout\<close>

lemma words_of_concat: "words_of (length ws) (concat (map be_bytes ws) @ rest) = ws"
  by (induction ws) (simp_all add: codec)

lemma length_words: "length (concat (map be_bytes (ws :: 64 word list))) = 8 * length ws"
  by (induction ws) simp_all

lemma from_to_bytes:
  assumes "ew_bit_size e < 2 ^ 32" and "length (ew_words e) < 2 ^ 32" and "ew_rlw_position e < 2 ^ 32"
  shows "ewah_from_bytes (ewah_to_bytes e @ rest) = Ok (e, length (ewah_to_bytes e))"
proof -
  have u: "n < 2 ^ 32 \<Longrightarrow> unat (of_nat n :: 32 word) = n" for n
    by (simp add: unat_of_nat take_bit_nat_eq_self)
  let ?w = "concat (map be_bytes (ew_words e))"
  have "drop (8 + length (ew_words e) * 8) (ewah_to_bytes e @ rest) = be_bytes (of_nat (ew_rlw_position e) :: 32 word) @ rest"
    by (simp add: ewah_to_bytes_def length_words)
  moreover have "words_of (length (ew_words e)) (drop 8 (ewah_to_bytes e @ rest)) = ew_words e"
    by (simp add: ewah_to_bytes_def words_of_concat)
  moreover have "take 4 (ewah_to_bytes e @ rest) = be_bytes (of_nat (ew_bit_size e) :: 32 word)"
    "take 4 (drop 4 (ewah_to_bytes e @ rest)) = be_bytes (of_nat (length (ew_words e)) :: 32 word)"
    "length (ewah_to_bytes e) = 12 + 8 * length (ew_words e)"
    by (simp_all add: ewah_to_bytes_def length_words)
  ultimately show ?thesis using assms by (simp add: ewah_from_bytes_def codec u Let_def)
qed

subsection \<open>Positions\<close>

lemma bit_test: "(w :: 64 word) AND push_bit b 1 \<noteq> 0 \<longleftrightarrow> bit w b"
  by (metis and_exp_eq_0_iff_not_bit push_bit_of_1)

lemmas bit_tests = bit_test bit_test [unfolded push_bit_of_1]

lemma word_bits_spec:
  "b \<le> 64 \<Longrightarrow> word_bits n wi w [b..<64]
     = (filter (\<lambda>p. p < n \<and> bit w (p mod 64)) [wi * 64 + b..<wi * 64 + 64], b < 64 \<and> n < wi * 64 + 64)"
proof (induction "64 - b" arbitrary: b)
  case (Suc k)
  then have b: "b < 64" "Suc b \<le> 64" "k = 64 - Suc b" by simp_all
  have u: "[b..<64] = b # [Suc b..<64]" "[wi * 64 + b..<wi * 64 + 64] = (wi * 64 + b) # [wi * 64 + Suc b..<wi * 64 + 64]"
    using b(1) by (simp_all add: upt_conv_Cons)
  show ?case
  proof (cases "n \<le> wi * 64 + b")
    case True
    then have "filter (\<lambda>p. p < n \<and> bit w (p mod 64)) [wi * 64 + b..<wi * 64 + 64] = []"
      by (auto simp: filter_empty_conv)
    with True b(1) show ?thesis by (simp add: u(1))
  next
    case False
    have "(wi * 64 + b) mod 64 = b" using b(1) by simp
    with False Suc.hyps(1) [OF b(3,2)] b(1) show ?thesis
      unfolding u by (auto simp: bit_tests)
  qed
qed simp

lemma set_bits_loop_spec:
  "set_bits_loop n wi ws = filter (\<lambda>p. p < n \<and> bit (ws ! (p div 64 - wi)) (p mod 64)) [wi * 64..<(wi + length ws) * 64]"
proof (induction ws arbitrary: wi)
  case (Cons w ws)
  let ?P = "\<lambda>p. p < n \<and> bit ((w # ws) ! (p div 64 - wi)) (p mod 64)"
  have u: "[wi * 64..<(wi + length (w # ws)) * 64] = [wi * 64..<wi * 64 + 64] @ [(wi + 1) * 64..<(wi + 1 + length ws) * 64]"
    using upt_add_eq_append [of "wi * 64" "wi * 64 + 64" "length ws * 64"] by (simp add: algebra_simps)
  have one: "filter ?P [wi * 64..<wi * 64 + 64] = filter (\<lambda>p. p < n \<and> bit w (p mod 64)) [wi * 64..<wi * 64 + 64]"
  proof (rule filter_cong [OF refl])
    fix p assume "p \<in> set [wi * 64..<wi * 64 + 64]"
    then have "p div 64 = wi" by (simp add: div_nat_eqI)
    then show "?P p \<longleftrightarrow> p < n \<and> bit w (p mod 64)" by simp
  qed
  have rest: "filter ?P [(wi + 1) * 64..<(wi + 1 + length ws) * 64] = set_bits_loop n (wi + 1) ws"
    unfolding Cons.IH
  proof (rule filter_cong [OF refl])
    fix p assume "p \<in> set [(wi + 1) * 64..<(wi + 1 + length ws) * 64]"
    then have "wi + 1 \<le> p div 64" by (simp add: less_eq_div_iff_mult_less_eq)
    then have "p div 64 - wi = Suc (p div 64 - (wi + 1))" by simp
    then show "?P p \<longleftrightarrow> p < n \<and> bit (ws ! (p div 64 - (wi + 1))) (p mod 64)" by simp
  qed
  have "set_bits_loop n (wi + 1) ws = []" if "n < wi * 64 + 64"
    unfolding Cons.IH using that by (auto simp: filter_empty_conv)
  then show ?case
    unfolding u filter_append one rest using word_bits_spec [of 0 n wi w] by (auto simp: filter_empty_conv)
qed simp

lemma length_or_bits [simp]: "length (or_bits n bs ws) = length ws"
  by (induction bs arbitrary: ws) auto

lemma bit_or_bits:
  assumes "j < 64 * length ws" and "n \<le> 64 * length ws"
  shows "bit (or_bits n bs ws ! (j div 64)) (j mod 64) \<longleftrightarrow> bit (ws ! (j div 64)) (j mod 64) \<or> (j \<in> set bs \<and> j < n)"
  using assms
proof (induction bs arbitrary: ws)
  case (Cons b bs)
  let ?ws = "ws[b div 64 := ws ! (b div 64) OR push_bit (b mod 64) 1]"
  have eq: "j div 64 = b div 64 \<and> j mod 64 = b mod 64 \<longleftrightarrow> j = b" by (metis div_mult_mod_eq)
  have "bit (?ws ! (j div 64)) (j mod 64) \<longleftrightarrow> bit (ws ! (j div 64)) (j mod 64) \<or> j = b" if "b < n"
  proof -
    have "b div 64 < length ws" using that Cons.prems(2) by (simp add: less_mult_imp_div_less mult.commute)
    then show ?thesis unfolding eq [symmetric]
      by (cases "j div 64 = b div 64") (auto simp: bit_simps)
  qed
  with Cons show ?case by (auto split: if_splits)
qed simp

lemma set_bits_from_set_bits:
  assumes "n < 2 ^ 32"
  shows "set_bits (from_set_bits bs n) = filter (\<lambda>p. p \<in> set bs) [0..<n]"
proof -
  let ?ws = "or_bits n bs (replicate ((n + 63) div 64) 0)"
  define k where "k = (n + 63) div 64"
  have k: "n \<le> 64 * k" "k < 2 ^ 31" using assms by (simp_all add: k_def)
  have "set_bits (from_set_bits bs n) = set_bits_loop n 0 ?ws"
    using k(2) by (simp add: set_bits_def from_set_bits_def decompress_compress k_def)
  also have "\<dots> = filter (\<lambda>p. p < n \<and> p \<in> set bs) [0..<k * 64]"
    unfolding set_bits_loop_spec k_def [symmetric]
    using k(1) by (auto simp: bit_or_bits less_mult_imp_div_less intro!: filter_cong)
  also have "[0..<k * 64] = [0..<n] @ [n..<k * 64]" using k(1) upt_add_eq_append [of 0 n "k * 64 - n"] by (simp add: mult.commute)
  also have "filter (\<lambda>p. p < n \<and> p \<in> set bs) ([0..<n] @ [n..<k * 64]) = filter (\<lambda>p. p \<in> set bs) [0..<n]"
    by (auto simp: filter_empty_conv intro!: filter_cong)
  finally show ?thesis .
qed

section \<open>Properties\<close>

text \<open>
  EWAH bitmaps keep their bits: a bitmap of less than \<open>2 ^ 31\<close> words decompresses to the
  words it was made of, the on-disk layout (followed by anything) parses back to the same
  compressed bitmap and consumes exactly its bytes, and the bitmap made of a list of positions
  lists exactly the ones below its size, in increasing order.
\<close>

theorem ewah_roundtrip:
  assumes "length bits < 2 ^ 31" and "n < 2 ^ 32"
  shows "decompress (compress bits n) = bits
    \<and> ewah_from_bytes (ewah_to_bytes (compress bits n) @ rest)
        = Ok (compress bits n, length (ewah_to_bytes (compress bits n)))
    \<and> set_bits (from_set_bits positions n) = filter (\<lambda>p. p \<in> set positions) [0..<n]"
  using decompress_compress [OF assms(1), of n] assms(2)
  by (simp add: from_to_bytes set_bits_from_set_bits)

theorem ewah_roundtrip_witness:
  "decompress (compress [0, 0, 5, - 1, 7] 320) = [0, 0, 5, - 1, 7]
   \<and> set_bits (from_set_bits [3, 70, 3, 99] 80) = [3, 70]"
  using ewah_roundtrip [of "[0, 0, 5, - 1, 7]" 320] ewah_roundtrip [of "[]" 80 _ "[3, 70, 3, 99]"]
  by (simp add: upt_rec)

end
