(* ===== verification/Index_File.thy ===== *)
theory Index_File
  imports Object_Tree Pack_Format "HOL-Library.Product_Lexorder"
begin

text \<open>
  The staging index (src/src/index.rs): its entries, the binary format in versions 2, 3 and 4,
  the extension blocks and the checksum. Positions are offsets into the file, as in the source.
  The pre-allocation of the entry vector has no counterpart here.
\<close>

section \<open>Data\<close>

definition FLAG_EXTENDED :: "16 word" where
  "FLAG_EXTENDED = 0x4000"

definition EXT_INTENT_TO_ADD :: "16 word" where
  "EXT_INTENT_TO_ADD = 0x2000"

record index_entry =
  ie_ctime :: "32 word \<times> 32 word"
  ie_mtime :: "32 word \<times> 32 word"
  ie_dev :: "32 word"
  ie_ino :: "32 word"
  ie_mode :: "32 word"
  ie_uid :: "32 word"
  ie_gid :: "32 word"
  ie_size :: "32 word"
  ie_id :: object_id
  ie_stage :: byte
  ie_assume_valid :: bool
  ie_extended_flags :: "16 word"
  ie_path :: bytes

record index =
  ix_version :: "32 word"
  ix_algo :: hash_algo
  ix_entries :: "index_entry list"
  ix_extensions :: bytes
  ix_parsed :: "(32 word \<times> bytes) option"

definition index_new :: "hash_algo \<Rightarrow> index" where
  "index_new a = \<lparr>ix_version = 2, ix_algo = a, ix_entries = [], ix_extensions = [], ix_parsed = None\<rparr>"

definition index_get :: "index \<Rightarrow> bytes \<Rightarrow> index_entry option" where
  "index_get ix path = find (\<lambda>e. ie_stage e = 0 \<and> ie_path e = path) (ix_entries ix)"

definition is_safe_index_path :: "bytes \<Rightarrow> bool" where
  "is_safe_index_path path \<longleftrightarrow> path \<noteq> [] \<and> list_all is_safe_path_component (split_on 47 path)"

section \<open>Varints and extension blocks\<close>

text \<open>
  The value is kept in \<open>usize\<close> with checked arithmetic; the low seven bits of a multiple of 128
  are free, so the \<open>|\<close> of the source is an addition.
\<close>

fun index_varint_loop :: "nat \<Rightarrow> byte \<Rightarrow> bytes \<Rightarrow> nat \<Rightarrow> (nat \<times> nat) result" where
  "index_varint_loop v c [] n =
     (if c AND 0x80 = 0 then Ok (v, n) else Err (Parse ''index: truncated varint''))"
| "index_varint_loop v c (d # r) n =
     (if c AND 0x80 = 0 then Ok (v, n)
      else if (v + 1) * 128 \<ge> 2 ^ 64 then Err (Parse ''index: varint overflow'')
      else index_varint_loop ((v + 1) * 128 + unat (d AND 0x7f)) d r (n + 1))"

definition index_read_varint :: "bytes \<Rightarrow> nat \<Rightarrow> (nat \<times> nat) result" where
  "index_read_varint data start =
     (case drop start data of
        [] \<Rightarrow> Err (Parse ''index: truncated varint'')
      | c # r \<Rightarrow> index_varint_loop (unat (c AND 0x7f)) c r 1)"

text \<open>The bytes that the loop of \<open>write_varint\<close> puts in front, from the last position backwards.\<close>

fun varint_high :: "nat \<Rightarrow> bytes" where
  "varint_high v =
     (if v = 0 then [] else varint_high ((v - 1) div 128) @ [0x80 OR of_nat ((v - 1) mod 128)])"

declare varint_high.simps [simp del]

definition index_write_varint :: "nat \<Rightarrow> bytes" where
  "index_write_varint v = varint_high (v div 128) @ [of_nat (v mod 128)]"

function extension_blocks :: "bytes \<Rightarrow> (bytes \<times> bytes) list" where
  "extension_blocks data =
     (if length data < 8 then []
      else
        let stop = unat (be_word (take 4 (drop 4 data)) :: 32 word) + 8
        in if stop \<le> length data then (take 4 data, take stop data) # extension_blocks (drop stop data)
           else [])"
  by pat_completeness auto
termination
  by (relation "measure length") auto

declare extension_blocks.simps [simp del]

section \<open>Reading\<close>

definition entry_path :: "bytes \<Rightarrow> nat \<Rightarrow> 32 word \<Rightarrow> bytes \<Rightarrow> nat \<Rightarrow> nat \<Rightarrow> (bytes \<times> nat) result" where
  "entry_path data start version prev_path name_len p =
     (if version \<ge> 4 then
        bind_res (index_read_varint data p) (\<lambda>(strip, n).
        let p = p + n
        in if length prev_path < strip then Err (Parse ''index: v4 prefix longer than previous path'')
           else
             bind_res (ok_or (position (\<lambda>b. b = 0) (drop p data)) (Parse ''index: unterminated path'')) (\<lambda>nul.
               Ok (take (length prev_path - strip) prev_path @ take nul (drop p data), p + nul + 1)))
      else
        bind_res
          (if name_len < 0xfff then Ok (p + name_len)
           else bind_res (ok_or (position (\<lambda>b. b = 0) (drop p data)) (Parse ''index: unterminated long path''))
                  (\<lambda>i. Ok (p + i))) (\<lambda>name_end.
        if name_end > length data then Err (Parse ''index: path past end'')
        else
          let unpadded = name_end - start + 1;
              padded = (unpadded + 7) div 8 * 8
          in Ok (take (name_end - p) (drop p data), start + padded)))"

definition parse_entry :: "hash_algo \<Rightarrow> bytes \<Rightarrow> nat \<Rightarrow> 32 word \<Rightarrow> bytes \<Rightarrow> (index_entry \<times> nat) result" where
  "parse_entry a data start version prev_path =
     (let fixed = 40 + raw_len a + 2
      in if start + fixed > length data then Err (Parse ''index: truncated entry'')
         else
           let f = (\<lambda>i. be_word (take 4 (drop (start + i * 4) data)));
               p = start + 40
           in bind_res (from_bytes a (take (raw_len a) (drop p data))) (\<lambda>i.
              let flags = be_word (take 2 (drop (p + raw_len a) data)) :: 16 word;
                  p = p + raw_len a + 2;
                  assume_valid = flags AND 0x8000 \<noteq> 0;
                  extended = flags AND FLAG_EXTENDED \<noteq> 0;
                  stage = ucast (drop_bit 12 flags AND 0x3);
                  name_len = unat (flags AND 0xfff)
              in bind_res
                   (if extended then
                      (if version < 3 then Err (Parse ''index: extended flag in v2 entry'')
                       else if p + 2 > length data then Err (Parse ''index: truncated entry'')
                       else Ok (be_word (take 2 (drop p data)), p + 2))
                    else Ok (0, p)) (\<lambda>(extended_flags, p).
                 bind_res (entry_path data start version prev_path name_len p) (\<lambda>(path, next).
                 if next > length data then Err (Parse ''index: path past end'')
                 else if \<not> is_safe_index_path path then Err (Parse ''index: unsafe entry path'')
                 else Ok (\<lparr>ie_ctime = (f 0, f 1), ie_mtime = (f 2, f 3), ie_dev = f 4, ie_ino = f 5,
                           ie_mode = f 6, ie_uid = f 7, ie_gid = f 8, ie_size = f 9, ie_id = i,
                           ie_stage = stage, ie_assume_valid = assume_valid,
                           ie_extended_flags = extended_flags, ie_path = path\<rparr>, next)))))"

fun parse_entries :: "hash_algo \<Rightarrow> bytes \<Rightarrow> 32 word \<Rightarrow> nat \<Rightarrow> nat \<Rightarrow> bytes \<Rightarrow> (index_entry list \<times> nat) result" where
  "parse_entries a body version 0 pos prev_path = Ok ([], pos)"
| "parse_entries a body version (Suc n) pos prev_path =
     bind_res (parse_entry a body pos version prev_path) (\<lambda>(entry, next).
     bind_res (parse_entries a body version n next (ie_path entry)) (\<lambda>(entries, end_pos).
       Ok (entry # entries, end_pos)))"

definition index_file_parse :: "digest \<Rightarrow> hash_algo \<Rightarrow> bytes \<Rightarrow> index result" where
  "index_file_parse dg a data =
     (let checksum_len = raw_len a
      in if length data < 12 + checksum_len then Err (Parse ''index: file too short'')
         else
           let body = take (length data - checksum_len) data;
               stored = drop (length data - checksum_len) data
           in if list_ex (\<lambda>b. b \<noteq> 0) stored \<and> stored \<noteq> hash_bytes dg a body
              then Err (Parse ''index: checksum mismatch'')
              else if take 4 data \<noteq> bstr ''DIRC'' then Err (Parse ''index: bad signature'')
              else
                let version = be_word (take 4 (drop 4 data)) :: 32 word
                in if \<not> (2 \<le> version \<and> version \<le> 4)
                   then Err (Unsupported ''index version {version} (only 2, 3 and 4 are supported)'')
                   else
                     bind_res (parse_entries a body version (unat (be_word (take 4 (drop 8 data)) :: 32 word)) 12 [])
                       (\<lambda>(entries, pos).
                         let extensions = drop pos body
                         in if list_ex (\<lambda>(sig, _). sig = bstr ''link'') (extension_blocks extensions)
                            then Err (Unsupported ''index: split index (core.splitIndex) is not supported'')
                            else Ok \<lparr>ix_version = version, ix_algo = a, ix_entries = entries,
                                     ix_extensions = extensions,
                                     ix_parsed = Some (version, take (pos - 12) (drop 12 body))\<rparr>))"

section \<open>Writing\<close>

definition entry_flags :: "32 word \<Rightarrow> index_entry \<Rightarrow> 16 word" where
  "entry_flags version e =
     (let name_len = of_nat (min (length (ie_path e)) 0xfff);
          flags = (if ie_assume_valid e then name_len OR 0x8000 else name_len);
          flags = flags OR push_bit 12 (ucast (ie_stage e) AND 0x3)
      in if version \<ge> 3 \<and> ie_extended_flags e \<noteq> 0 then flags OR FLAG_EXTENDED else flags)"

fun common_len :: "bytes \<Rightarrow> bytes \<Rightarrow> nat" where
  "common_len (x # xs) (y # ys) = (if x = y then Suc (common_len xs ys) else 0)"
| "common_len _ _ = 0"

definition entry_stat :: "index_entry \<Rightarrow> bytes" where
  "entry_stat e =
     be_bytes (fst (ie_ctime e)) @ be_bytes (snd (ie_ctime e)) @ be_bytes (fst (ie_mtime e)) @ be_bytes (snd (ie_mtime e))
     @ be_bytes (ie_dev e) @ be_bytes (ie_ino e) @ be_bytes (ie_mode e) @ be_bytes (ie_uid e) @ be_bytes (ie_gid e)
     @ be_bytes (ie_size e)"

text \<open>What \<open>write_entry\<close> appends.\<close>

definition index_write_entry :: "index_entry \<Rightarrow> 32 word \<Rightarrow> bytes \<Rightarrow> bytes" where
  "index_write_entry e version prev_path =
     (let head = entry_stat e @ as_bytes (ie_id e) @ be_bytes (entry_flags version e)
            @ (if version \<ge> 3 \<and> ie_extended_flags e \<noteq> 0 then be_bytes (ie_extended_flags e) else [])
      in if version \<ge> 4 then
           let common = common_len prev_path (ie_path e)
           in head @ index_write_varint (length prev_path - common) @ drop common (ie_path e) @ [0]
         else
           let out = head @ ie_path e @ [0];
               padded = (length out + 7) div 8 * 8
           in out @ replicate (padded - length out) 0)"

fun write_index_entries :: "index_entry list \<Rightarrow> 32 word \<Rightarrow> bytes \<Rightarrow> bytes" where
  "write_index_entries [] version prev = []"
| "write_index_entries (e # es) version prev =
     index_write_entry e version prev @ write_index_entries es version (ie_path e)"

definition write_version :: "index \<Rightarrow> 32 word" where
  "write_version ix =
     (if ix_version ix = 4 then 4
      else if list_ex (\<lambda>e. ie_extended_flags e \<noteq> 0) (ix_entries ix) then 3 else 2)"

definition index_sorted :: "index \<Rightarrow> index_entry list" where
  "index_sorted ix = sort_key (\<lambda>e. (ie_path e, ie_stage e)) (ix_entries ix)"

definition kept_extensions :: "index \<Rightarrow> bytes \<Rightarrow> bytes" where
  "kept_extensions ix body =
     (if ix_parsed ix = Some (write_version ix, body) then ix_extensions ix
      else concat (map snd (filter (\<lambda>(sig, _). sig = bstr ''REUC'') (extension_blocks (ix_extensions ix)))))"

definition index_serialize :: "digest \<Rightarrow> index \<Rightarrow> bytes" where
  "index_serialize dg ix =
     (let version = write_version ix;
          body = write_index_entries (index_sorted ix) version [];
          out = bstr ''DIRC'' @ be_bytes version @ be_bytes (of_nat (length (ix_entries ix)) :: 32 word)
            @ body @ kept_extensions ix body
      in out @ hash_bytes dg (ix_algo ix) out)"

section \<open>Lemmas\<close>

subsection \<open>Varints\<close>

lemma varint_loop_high:
  "m \<noteq> 0 \<Longrightarrow> m * 128 < 2 ^ 64 \<Longrightarrow>
     \<exists>f fs. varint_high m = f # fs
       \<and> (\<forall>x xs k. index_varint_loop (unat (f AND 0x7f)) f (fs @ x # xs) k =
            index_varint_loop (m * 128 + unat (x AND 0x7f)) x xs (k + length (f # fs)))"
proof (induction m rule: varint_high.induct)
  case (1 m)
  define b where "b = (of_nat ((m - 1) mod 128) :: byte)"
  note b = low7_bits [of "m - 1", folded b_def]
  have ub: "unat b = (m - 1) mod 128" by (simp add: b_def of_nat_low7)
  define q where "q = (m - 1) div 128"
  have r: "varint_high m = varint_high q @ [0x80 OR b]"
    using "1.prems"(1) by (simp add: varint_high.simps [of m] b_def q_def)
  have top: "(0x80 OR b) AND 0x7f = b" "(0x80 OR b) AND 0x80 \<noteq> 0"
    using b by (simp_all add: or.commute)
  show ?case
  proof (cases "q = 0")
    case True
    then have "varint_high m = [0x80 OR b]" by (simp add: r varint_high.simps [of 0])
    moreover have "unat b + 1 = m" using True "1.prems"(1) by (simp add: ub q_def)
    ultimately show ?thesis using top "1.prems"(2) by auto
  next
    case False
    have "q * 128 \<le> m - 1" unfolding q_def by (rule div_times_less_eq_dividend)
    then have "q * 128 < 2 ^ 64" using "1.prems"(2) by simp
    with "1.IH" [OF "1.prems"(1)] False obtain f fs where
      f: "varint_high q = f # fs"
        "\<And>x xs k. index_varint_loop (unat (f AND 0x7f)) f (fs @ x # xs) k =
            index_varint_loop (q * 128 + unat (x AND 0x7f)) x xs (k + length (f # fs))"
      unfolding q_def by blast
    have v: "q * 128 + unat b = m - 1" by (simp add: ub q_def mult.commute)
    have "index_varint_loop (unat (f AND 0x7f)) f ((fs @ [0x80 OR b]) @ x # xs) k =
        index_varint_loop (m * 128 + unat (x AND 0x7f)) x xs (k + length (f # fs @ [0x80 OR b]))" for x xs k
      using f(2) [of "0x80 OR b" "x # xs" k] top v "1.prems" by simp
    with f(1) r show ?thesis by auto
  qed
qed

lemma index_varint_roundtrip:
  assumes "n < 2 ^ 64"
  shows "index_read_varint (pre @ index_write_varint n @ rest) (length pre) = Ok (n, length (index_write_varint n))"
proof -
  define x where "x = (of_nat (n mod 128) :: byte)"
  note x = low7_bits [of n, folded x_def]
  have ux: "unat x = n mod 128" by (simp add: x_def of_nat_low7)
  have stop: "index_varint_loop v x rest k = Ok (v, k)" for v k using x(2) by (cases rest) simp_all
  show ?thesis
  proof (cases "n div 128 = 0")
    case True
    then have "index_write_varint n = [x]" "n mod 128 = n"
      by (simp_all add: index_write_varint_def x_def varint_high.simps [of 0])
    with x stop ux show ?thesis by (simp add: index_read_varint_def)
  next
    case False
    have "n div 128 * 128 < 2 ^ 64" using assms div_times_less_eq_dividend [of n 128] by linarith
    from varint_loop_high [OF False this] obtain f fs where f: "varint_high (n div 128) = f # fs"
        "\<And>y ys k. index_varint_loop (unat (f AND 0x7f)) f (fs @ y # ys) k =
            index_varint_loop (n div 128 * 128 + unat (y AND 0x7f)) y ys (k + length (f # fs))" by blast
    have "index_write_varint n = f # fs @ [x]" using f(1) by (simp add: index_write_varint_def x_def)
    then show ?thesis
      using f(2) [of x rest 1] x(1) stop ux by (simp add: index_read_varint_def)
  qed
qed

subsection \<open>Flags and fields\<close>

lemma bit_consts:
  "bit (0x8000 :: 16 word) m \<longleftrightarrow> m = 15" "bit (0x4000 :: 16 word) m \<longleftrightarrow> m = 14" "bit (0x3 :: 16 word) m \<longleftrightarrow> m < 2"
  "bit (0xfff :: 16 word) m \<longleftrightarrow> m < 12"
proof -
  have "(0x8000 :: 16 word) = 2 ^ 15" "(0x4000 :: 16 word) = 2 ^ 14" "(0x3 :: 16 word) = mask 2" "(0xfff :: 16 word) = mask 12"
    by (simp_all add: mask_eq_exp_minus_1)
  then show "bit (0x8000 :: 16 word) m \<longleftrightarrow> m = 15" "bit (0x4000 :: 16 word) m \<longleftrightarrow> m = 14" "bit (0x3 :: 16 word) m \<longleftrightarrow> m < 2"
    "bit (0xfff :: 16 word) m \<longleftrightarrow> m < 12"
    by (simp_all only: bit_exp_iff bit_mask_iff) auto
qed

lemma bit_flags:
  assumes "unat (l :: 16 word) < 4096"
  shows "bit ((if v then l OR 0x8000 else l) OR push_bit 12 (ucast (s :: byte) AND 0x3)) m
    \<longleftrightarrow> (m < 12 \<and> bit l m) \<or> (v \<and> m = 15) \<or> (12 \<le> m \<and> m < 14 \<and> bit s (m - 12))"
proof -
  have l: "bit l m \<Longrightarrow> m < 12" using bit_small [of l 12] assms by simp
  show ?thesis
    by (cases v; simp only: if_True if_False bit_or_iff bit_push_bit_iff bit_and_iff bit_consts bit_ucast_iff)
      (auto dest: l)
qed

lemma entry_flags_decode:
  assumes "unat (ie_stage e) < 4"
  shows "entry_flags ver e AND 0x8000 \<noteq> 0 \<longleftrightarrow> ie_assume_valid e"
    "entry_flags ver e AND FLAG_EXTENDED \<noteq> 0 \<longleftrightarrow> ver \<ge> 3 \<and> ie_extended_flags e \<noteq> 0"
    "ucast (drop_bit 12 (entry_flags ver e) AND 0x3) = ie_stage e"
    "unat (entry_flags ver e AND 0xfff) = min (length (ie_path e)) 0xfff"
proof -
  define l :: "16 word" where "l = of_nat (min (length (ie_path e)) 0xfff)"
  have ul: "unat l = min (length (ie_path e)) 0xfff" by (simp add: l_def unat_of_nat)
  then have l4: "unat l < 4096" by simp
  have l: "bit l m \<Longrightarrow> m < 12" for m using bit_small [of l 12 m] l4 by simp
  have s: "bit (ie_stage e) m \<Longrightarrow> m < 2" for m using bit_small [of "ie_stage e" 2 m] assms by simp
  let ?x = "ver \<ge> 3 \<and> ie_extended_flags e \<noteq> 0"
  define base where "base = (if ie_assume_valid e then l OR 0x8000 else l) OR push_bit 12 (ucast (ie_stage e) AND 0x3)"
  have f: "entry_flags ver e = (if ?x then base OR 0x4000 else base)"
    by (simp add: entry_flags_def Let_def l_def base_def FLAG_EXTENDED_def)
  have bf: "bit base m \<longleftrightarrow> (m < 12 \<and> bit l m) \<or> (ie_assume_valid e \<and> m = 15) \<or> (12 \<le> m \<and> m < 14 \<and> bit (ie_stage e) (m - 12))" for m
    unfolding base_def by (rule bit_flags [OF l4])
  have g: "bit (entry_flags ver e) m \<longleftrightarrow> (m < 12 \<and> bit l m) \<or> (ie_assume_valid e \<and> m = 15)
      \<or> (12 \<le> m \<and> m < 14 \<and> bit (ie_stage e) (m - 12)) \<or> (?x \<and> m = 14)" for m
  proof (cases ?x)
    case True
    show ?thesis unfolding f if_P [OF True] bit_or_iff bit_consts bf using True by blast
  next
    case False
    show ?thesis unfolding f if_not_P [OF False] bf using False by blast
  qed
  have t: "w AND 2 ^ k \<noteq> 0 \<longleftrightarrow> bit w k" for w :: "16 word" and k
    by (metis and_exp_eq_0_iff_not_bit)
  show "entry_flags ver e AND 0x8000 \<noteq> 0 \<longleftrightarrow> ie_assume_valid e"
    using t [of "entry_flags ver e" 15] g [of 15] by simp
  show "entry_flags ver e AND FLAG_EXTENDED \<noteq> 0 \<longleftrightarrow> ?x"
    using t [of "entry_flags ver e" 14] g [of 14] by (simp add: FLAG_EXTENDED_def)
  show "ucast (drop_bit 12 (entry_flags ver e) AND 0x3) = ie_stage e"
    by (rule bit_word_eqI, unfold bit_ucast_iff bit_and_iff bit_drop_bit_eq comp_def bit_consts g) (auto dest: s l)
  have "entry_flags ver e AND 0xfff = l"
    by (rule bit_word_eqI, unfold bit_and_iff bit_consts g) (auto dest: l)
  then show "unat (entry_flags ver e AND 0xfff) = min (length (ie_path e)) 0xfff" by (simp add: ul)
qed

lemma length_entry_stat [simp]: "length (entry_stat e) = 40"
  by (simp add: entry_stat_def)

lemma entry_stat_fields:
  "be_word (take 4 (entry_stat e @ r)) = fst (ie_ctime e)" "be_word (take 4 (drop 4 (entry_stat e @ r))) = snd (ie_ctime e)"
  "be_word (take 4 (drop 8 (entry_stat e @ r))) = fst (ie_mtime e)" "be_word (take 4 (drop 12 (entry_stat e @ r))) = snd (ie_mtime e)"
  "be_word (take 4 (drop 16 (entry_stat e @ r))) = ie_dev e" "be_word (take 4 (drop 20 (entry_stat e @ r))) = ie_ino e"
  "be_word (take 4 (drop 24 (entry_stat e @ r))) = ie_mode e" "be_word (take 4 (drop 28 (entry_stat e @ r))) = ie_uid e"
  "be_word (take 4 (drop 32 (entry_stat e @ r))) = ie_gid e" "be_word (take 4 (drop 36 (entry_stat e @ r))) = ie_size e"
  by (simp_all add: entry_stat_def codec)

subsection \<open>Paths\<close>

lemma set_split_on: "c \<in> set path \<Longrightarrow> c = sep \<or> (\<exists>x\<in>set (split_on sep path). c \<in> set x)"
proof (induction path rule: split_on.induct)
qed (auto split: list.splits if_splits)

lemma safe_path_no_nul: "is_safe_index_path path \<Longrightarrow> 0 \<notin> set path"
proof
  assume safe: "is_safe_index_path path" and "0 \<in> set path"
  then obtain x where "x \<in> set (split_on 47 path)" "0 \<in> set x" using set_split_on [of 0 path 47] by auto
  with safe have "is_safe_path_component x" by (simp add: is_safe_index_path_def list_all_iff)
  with \<open>0 \<in> set x\<close> show False by (auto simp: is_safe_path_component_def list_ex_iff split: if_splits)
qed

lemma common_len_take: "take (common_len xs ys) xs = take (common_len xs ys) ys" "common_len xs ys \<le> length xs" "common_len xs ys \<le> length ys"
  by (induction xs ys rule: common_len.induct) auto

lemma position_nul: "0 \<notin> set path \<Longrightarrow> position (\<lambda>b. b = 0) (path @ 0 # r) = Some (length path)"
  by (rule position_hit) auto

lemma entry_path_v4:
  assumes "ver \<ge> 4" and "0 \<notin> set path" and "length prev < 2 ^ 64"
    and "tail = index_write_varint (length prev - common_len prev path) @ drop (common_len prev path) path @ [0]"
  shows "entry_path (pre @ tail @ rest) start ver prev nl (length pre) = Ok (path, length pre + length tail)"
proof -
  let ?c = "common_len prev path" and ?w = "index_write_varint (length prev - common_len prev path)"
  have "index_read_varint (pre @ tail @ rest) (length pre) = Ok (length prev - ?c, length ?w)"
    using index_varint_roundtrip [of "length prev - ?c" pre "drop ?c path @ 0 # rest"] assms(3) by (simp add: assms(4))
  moreover have d: "drop (length pre + length ?w) (pre @ tail @ rest) = drop ?c path @ 0 # rest" by (simp add: assms(4))
  moreover have "0 \<notin> set (drop ?c path)" using assms(2) by (auto dest: in_set_dropD)
  ultimately show ?thesis
    using assms(1) common_len_take [of prev path] 
    unfolding entry_path_def by (simp add: position_nul assms(4) Let_def not_less)
qed

lemma entry_path_padded:
  assumes "\<not> ver \<ge> 4" and "0 \<notin> set path"
    and "pad = (length h + length path + 1 + 7) div 8 * 8 - (length h + length path + 1)"
  shows "entry_path (pre @ h @ path @ [0] @ replicate pad 0 @ rest) (length pre) ver prev (min (length path) 0xfff) (length pre + length h)
    = Ok (path, length pre + length (h @ path @ [0] @ replicate pad 0))"
proof -
  have d: "drop (length pre + length h) (pre @ h @ path @ [0] @ replicate pad 0 @ rest) = path @ 0 # replicate pad 0 @ rest" by simp
  have "length h + length path + 1 \<le> (length h + length path + 1 + 7) div 8 * 8" by simp
  then have "length (h @ path @ [0] @ replicate pad 0) = (length h + length path + 1 + 7) div 8 * 8" by (simp add: assms(3))
  then show ?thesis
    using assms(1,2) unfolding entry_path_def d by (simp add: position_nul min_def)
qed

subsection \<open>Entries\<close>

definition wf_index_entry :: "hash_algo \<Rightarrow> index_entry \<Rightarrow> bool" where
  "wf_index_entry a e \<longleftrightarrow>
     wf_oid (ie_id e) \<and> oid_algo (ie_id e) = a \<and> unat (ie_stage e) < 4 \<and> is_safe_index_path (ie_path e)
     \<and> length (ie_path e) < 2 ^ 64"

text \<open>The part of an entry before its path.\<close>

definition entry_head :: "index_entry \<Rightarrow> 32 word \<Rightarrow> bytes" where
  "entry_head e ver =
     entry_stat e @ as_bytes (ie_id e) @ be_bytes (entry_flags ver e)
     @ (if ver \<ge> 3 \<and> ie_extended_flags e \<noteq> 0 then be_bytes (ie_extended_flags e) else [])"

lemma index_write_entry_split:
  assumes "index_write_entry e ver prev = out" and "length prev < 2 ^ 64" and "0 \<notin> set (ie_path e)"
  shows "\<exists>tail. out = entry_head e ver @ tail
    \<and> (\<forall>pre rest. entry_path (pre @ entry_head e ver @ tail @ rest) (length pre) ver prev (min (length (ie_path e)) 0xfff)
          (length pre + length (entry_head e ver)) = Ok (ie_path e, length pre + length out))"
proof (cases "ver \<ge> 4")
  case True
  let ?t = "index_write_varint (length prev - common_len prev (ie_path e)) @ drop (common_len prev (ie_path e)) (ie_path e) @ [0]"
  have "out = entry_head e ver @ ?t" using assms(1) True by (simp add: index_write_entry_def entry_head_def Let_def)
  moreover from this have "entry_path (pre @ entry_head e ver @ ?t @ rest) (length pre) ver prev nl (length pre + length (entry_head e ver))
      = Ok (ie_path e, length pre + length out)" for pre rest nl
    using entry_path_v4 [OF True assms(3,2) refl, of "pre @ entry_head e ver" rest "length pre" nl] by (simp add: add.assoc)
  ultimately show ?thesis by blast
next
  case False
  let ?h = "entry_head e ver"
  define pad where "pad = (length ?h + length (ie_path e) + 1 + 7) div 8 * 8 - (length ?h + length (ie_path e) + 1)"
  have o: "out = ?h @ ie_path e @ [0] @ replicate pad 0"
    using assms(1) False by (simp add: index_write_entry_def entry_head_def pad_def Let_def)
  have "entry_path (pre @ ?h @ (ie_path e @ [0] @ replicate pad 0) @ rest) (length pre) ver prev (min (length (ie_path e)) 0xfff)
      (length pre + length ?h) = Ok (ie_path e, length pre + length out)" for pre rest
    using entry_path_padded [OF False assms(3) pad_def, of pre rest prev] unfolding o by simp
  then show ?thesis using o by blast
qed

lemma parse_entry_stages:
  assumes "start + (40 + raw_len a + 2) \<le> length data"
    and "from_bytes a (take (raw_len a) (drop (start + 40) data)) = Ok i"
    and "be_word (take 2 (drop (start + 40 + raw_len a) data)) = (flags :: 16 word)"
    and "(if flags AND FLAG_EXTENDED \<noteq> 0 then
            (if ver < 3 then Err (Parse ''index: extended flag in v2 entry'')
             else if start + 40 + raw_len a + 2 + 2 > length data then Err (Parse ''index: truncated entry'')
             else Ok (be_word (take 2 (drop (start + 40 + raw_len a + 2) data)), start + 40 + raw_len a + 2 + 2))
          else Ok (0, start + 40 + raw_len a + 2)) = Ok (x, q)"
    and "entry_path data start ver prev (unat (flags AND 0xfff)) q = Ok (path, next)"
    and "next \<le> length data" and "is_safe_index_path path"
    and "\<And>k. f k = be_word (take 4 (drop (start + k * 4) data))"
  shows "parse_entry a data start ver prev = Ok
    (\<lparr>ie_ctime = (f 0, f 1), ie_mtime = (f 2, f 3), ie_dev = f 4, ie_ino = f 5, ie_mode = f 6, ie_uid = f 7,
      ie_gid = f 8, ie_size = f 9, ie_id = i, ie_stage = ucast (drop_bit 12 flags AND 0x3),
      ie_assume_valid = (flags AND 0x8000 \<noteq> 0), ie_extended_flags = x, ie_path = path\<rparr>, next)"
proof -
  have "\<not> length data < start + (40 + raw_len a + 2)" "\<not> length data < next" using assms(1,6) by simp_all
  then show ?thesis
    unfolding parse_entry_def Let_def assms(2,3,4) bind_res_Ok prod.case assms(5) assms(8)
    using assms(7) by (simp only: if_False not_True_eq_False)
qed

lemma parse_write_entry:
  assumes "wf_index_entry a e" and "length prev < 2 ^ 64" and "ie_extended_flags e \<noteq> 0 \<Longrightarrow> ver \<ge> 3"
  shows "parse_entry a (pre @ index_write_entry e ver prev @ rest) (length pre) ver prev
    = Ok (e, length pre + length (index_write_entry e ver prev))"
proof -
  define out where "out = index_write_entry e ver prev"
  have wf: "unat (ie_stage e) < 4" "is_safe_index_path (ie_path e)" "length (as_bytes (ie_id e)) = raw_len a"
      "from_bytes a (as_bytes (ie_id e)) = Ok (ie_id e)"
    using assms(1) by (auto simp: wf_index_entry_def wf_oid_def from_bytes_def)
  obtain tail where t: "out = entry_head e ver @ tail"
      "\<And>pre rest. entry_path (pre @ entry_head e ver @ tail @ rest) (length pre) ver prev (min (length (ie_path e)) 0xfff)
          (length pre + length (entry_head e ver)) = Ok (ie_path e, length pre + length out)"
    using index_write_entry_split [OF out_def [symmetric] assms(2) safe_path_no_nul [OF wf(2)]] by blast
  define x where "x \<longleftrightarrow> ver \<ge> 3 \<and> ie_extended_flags e \<noteq> 0"
  define ext where "ext = (if x then be_bytes (ie_extended_flags e) else [])"
  define data where "data = pre @ entry_head e ver @ tail @ rest"
  define q where "q = length pre + 40 + raw_len a + 2"
  have h: "entry_head e ver = entry_stat e @ as_bytes (ie_id e) @ be_bytes (entry_flags ver e) @ ext"
    by (simp add: entry_head_def ext_def x_def)
  have d: "drop (length pre + k) data = drop k (entry_stat e @ as_bytes (ie_id e) @ be_bytes (entry_flags ver e) @ ext @ tail @ rest)" for k
    by (simp add: h data_def)
  have ids: "take (raw_len a) (drop (length pre + 40) data) = as_bytes (ie_id e)"
      "be_word (take 2 (drop (length pre + 40 + raw_len a) data)) = entry_flags ver e"
      "drop q data = ext @ tail @ rest"
    using d [of 40] d [of "40 + raw_len a"] d [of "40 + raw_len a + 2"] wf(3) by (simp_all add: ac_simps codec q_def)
  have lh: "length pre + length (entry_head e ver) = q + length ext" by (simp add: h q_def wf(3))
  have bound: "length pre + (40 + raw_len a + 2) \<le> length data" "q + length ext \<le> length data" "length pre + length out \<le> length data"
    using lh t(1) by (simp_all add: data_def q_def h)
  note fl = entry_flags_decode [OF wf(1), of ver]
  have path: "entry_path data (length pre) ver prev (unat (entry_flags ver e AND 0xfff)) (q + length ext) = Ok (ie_path e, length pre + length out)"
    using t(2) [of pre rest] unfolding lh data_def [symmetric] fl(4) .
  have e: "(if entry_flags ver e AND FLAG_EXTENDED \<noteq> 0 then
            (if ver < 3 then Err (Parse ''index: extended flag in v2 entry'')
             else if q + 2 > length data then Err (Parse ''index: truncated entry'')
             else Ok (be_word (take 2 (drop q data)), q + 2))
          else Ok (0, q)) = Ok (ie_extended_flags e, q + length ext)"
    using bound(2) assms(3) unfolding fl(2) ids(3) by (auto simp: ext_def x_def codec)
  define f :: "nat \<Rightarrow> 32 word" where "f k = be_word (take 4 (drop (length pre + k * 4) data))" for k
  have f: "f k = be_word (take 4 (drop (k * 4) (entry_stat e @ as_bytes (ie_id e) @ be_bytes (entry_flags ver e) @ ext @ tail @ rest)))" for k
    unfolding f_def d ..
  note fs = f [of 0] f [of 1] f [of 2] f [of 3] f [of 4] f [of 5] f [of 6] f [of 7] f [of 8] f [of 9]
  have stat: "f 0 = fst (ie_ctime e)" "f 1 = snd (ie_ctime e)" "f 2 = fst (ie_mtime e)" "f 3 = snd (ie_mtime e)" "f 4 = ie_dev e"
      "f 5 = ie_ino e" "f 6 = ie_mode e" "f 7 = ie_uid e" "f 8 = ie_gid e" "f 9 = ie_size e"
    unfolding fs using entry_stat_fields [of e] by (simp_all del: drop_append take_append)
  have "from_bytes a (take (raw_len a) (drop (length pre + 40) data)) = Ok (ie_id e)" unfolding ids(1) by (rule wf(4))
  from parse_entry_stages [OF bound(1) this ids(2) e [unfolded q_def] path [unfolded q_def] bound(3) wf(2) f_def]
  have "parse_entry a data (length pre) ver prev = Ok (e, length pre + length out)"
    unfolding stat fl(1,3) by (cases e) simp
  then show ?thesis by (simp add: data_def out_def [symmetric] t(1))
qed

lemma parse_write_entries:
  "\<forall>e\<in>set es. wf_index_entry a e \<and> (ie_extended_flags e \<noteq> 0 \<longrightarrow> ver \<ge> 3) \<Longrightarrow> length prev < 2 ^ 64 \<Longrightarrow>
     parse_entries a (pre @ write_index_entries es ver prev @ rest) ver (length es) (length pre) prev
       = Ok (es, length pre + length (write_index_entries es ver prev))"
proof (induction es arbitrary: pre prev)
  case (Cons e es)
  let ?w = "index_write_entry e ver prev"
  have "parse_entry a (pre @ ?w @ write_index_entries es ver (ie_path e) @ rest) (length pre) ver prev = Ok (e, length pre + length ?w)"
    by (rule parse_write_entry) (use Cons.prems in auto)
  moreover have "parse_entries a ((pre @ ?w) @ write_index_entries es ver (ie_path e) @ rest) ver (length es) (length (pre @ ?w)) (ie_path e)
      = Ok (es, length (pre @ ?w) + length (write_index_entries es ver (ie_path e)))"
    by (rule Cons.IH) (use Cons.prems in \<open>auto simp: wf_index_entry_def\<close>)
  ultimately show ?case by (simp add: add.assoc)
qed simp

subsection \<open>Extension blocks\<close>

lemma extension_block_hd:
  assumes "8 \<le> length b" and "unat (be_word (take 4 (drop 4 b)) :: 32 word) + 8 = length b"
  shows "extension_blocks (b @ r) = (take 4 b, b) # extension_blocks r"
proof -
  have "take 4 (drop 4 (b @ r)) = take 4 (drop 4 b)" "take 4 (b @ r) = take 4 b" using assms(1) by simp_all
  then show ?thesis using assms by (subst extension_blocks.simps) (simp add: Let_def)
qed

lemma extension_block_split:
  "(sig, b) \<in> set (extension_blocks d) \<Longrightarrow> sig = take 4 b \<and> extension_blocks (b @ r) = (sig, b) # extension_blocks r"
proof (induction d rule: extension_blocks.induct)
  case (1 d)
  let ?stop = "unat (be_word (take 4 (drop 4 d)) :: 32 word) + 8"
  show ?case
  proof (cases "length d < 8 \<or> \<not> ?stop \<le> length d")
    case True
    then have "extension_blocks d = []" by (subst extension_blocks.simps) (auto simp: Let_def)
    with "1.prems" show ?thesis by simp
  next
    case False
    then have d: "extension_blocks d = (take 4 d, take ?stop d) # extension_blocks (drop ?stop d)"
      by (simp add: extension_blocks.simps [of d] Let_def)
    show ?thesis
    proof (cases "(sig, b) = (take 4 d, take ?stop d)")
      case here: True
      then have b: "length b = ?stop" "take 4 b = take 4 d" "take 4 (drop 4 b) = take 4 (drop 4 d)"
        using False by (auto simp: min_def drop_take)
      then have "extension_blocks (b @ r) = (take 4 b, b) # extension_blocks r" by (intro extension_block_hd) simp_all
      with b(2) here show ?thesis by simp
    next
      case later: False
      with "1.prems" d have "(sig, b) \<in> set (extension_blocks (drop ?stop d))" by auto
      with "1.IH" [of ?stop] False show ?thesis by simp
    qed
  qed
qed

lemma extension_blocks_concat:
  "set bs \<subseteq> set (extension_blocks d) \<Longrightarrow> extension_blocks (concat (map snd bs)) = bs"
proof (induction bs)
  case (Cons x bs)
  then show ?case using extension_block_split [of "fst x" "snd x" d "concat (map snd bs)"] by simp
qed (simp add: extension_blocks.simps [of "[]"])

definition wf_index :: "index \<Rightarrow> bool" where
  "wf_index ix \<longleftrightarrow>
     list_all (wf_index_entry (ix_algo ix)) (ix_entries ix) \<and> length (ix_entries ix) < 2 ^ 32
     \<and> \<not> list_ex (\<lambda>(sig, _). sig = bstr ''link'') (extension_blocks (ix_extensions ix))"

lemma kept_no_link:
  assumes "wf_index ix"
  shows "\<not> list_ex (\<lambda>(sig, _). sig = bstr ''link'') (extension_blocks (kept_extensions ix body))"
proof (cases "ix_parsed ix = Some (write_version ix, body)")
  case True
  with assms show ?thesis by (simp add: kept_extensions_def wf_index_def)
next
  case False
  let ?bs = "filter (\<lambda>(sig, _). sig = bstr ''REUC'') (extension_blocks (ix_extensions ix))"
  have "extension_blocks (kept_extensions ix body) = ?bs"
    using False extension_blocks_concat [of ?bs "ix_extensions ix"] by (simp add: kept_extensions_def)
  then show ?thesis by (auto simp: list_ex_iff)
qed

subsection \<open>The file\<close>

text \<open>What reading a file that was written gives.\<close>

definition reread :: "index \<Rightarrow> index" where
  "reread ix =
     (let body = write_index_entries (index_sorted ix) (write_version ix) []
      in \<lparr>ix_version = write_version ix, ix_algo = ix_algo ix, ix_entries = index_sorted ix,
          ix_extensions = kept_extensions ix body, ix_parsed = Some (write_version ix, body)\<rparr>)"

lemma write_version_cases: "write_version ix = 2 \<or> write_version ix = 3 \<or> write_version ix = 4"
  by (simp add: write_version_def)

lemma set_index_sorted [simp]: "set (index_sorted ix) = set (ix_entries ix)" "length (index_sorted ix) = length (ix_entries ix)"
  by (simp_all add: index_sorted_def)

lemma parse_serialize:
  assumes "digest_ok dg" and "wf_index ix"
  shows "index_file_parse dg (ix_algo ix) (index_serialize dg ix) = Ok (reread ix)"
proof -
  let ?a = "ix_algo ix" and ?v = "write_version ix" and ?es = "index_sorted ix"
  define body where "body = write_index_entries ?es ?v []"
  define ext where "ext = kept_extensions ix body"
  define hd where "hd = bstr ''DIRC'' @ be_bytes ?v @ be_bytes (of_nat (length (ix_entries ix)) :: 32 word)"
  define out where "out = hd @ body @ ext"
  have data: "index_serialize dg ix = out @ hash_bytes dg ?a out"
    by (simp add: index_serialize_def Let_def body_def ext_def out_def hd_def)
  have lh: "length (hash_bytes dg ?a out) = raw_len ?a" using assms(1) by (simp add: hash_bytes_def digest_ok_def)
  have h12: "length hd = 12" by (simp add: hd_def)
  have version: "be_word (take 4 (drop 4 (out @ r))) = ?v"
    "be_word (take 4 (drop 8 (out @ r))) = (of_nat (length (ix_entries ix)) :: 32 word)" "take 4 (out @ r) = bstr ''DIRC''" for r
    by (simp_all add: out_def hd_def codec)
  have count: "unat (of_nat (length (ix_entries ix)) :: 32 word) = length ?es"
    using assms(2) by (simp add: wf_index_def unat_of_nat take_bit_nat_eq_self)
  have "\<forall>e\<in>set ?es. wf_index_entry ?a e \<and> (ie_extended_flags e \<noteq> 0 \<longrightarrow> ?v \<ge> 3)"
    using assms(2) by (auto simp: wf_index_def list_all_iff write_version_def list_ex_iff)
  then have entries: "parse_entries ?a out ?v (length ?es) 12 [] = Ok (?es, 12 + length body)"
    using parse_write_entries [of ?es ?a ?v "[]" hd ext] h12 by (simp add: out_def body_def)
  have rest: "drop (12 + length body) out = ext" "take (length body) (drop 12 out) = body"
    using h12 by (simp_all add: out_def)
  have ver: "2 \<le> ?v \<and> ?v \<le> 4" using write_version_cases [of ix] by auto
  have len: "\<not> length (out @ hash_bytes dg ?a out) < 12 + raw_len ?a" using h12 lh by (simp add: out_def [symmetric]) (simp add: out_def)
  have cut: "take (length (out @ hash_bytes dg ?a out) - raw_len ?a) (out @ hash_bytes dg ?a out) = out"
    "drop (length (out @ hash_bytes dg ?a out) - raw_len ?a) (out @ hash_bytes dg ?a out) = hash_bytes dg ?a out"
    by (simp_all add: lh)
  show ?thesis
    unfolding data index_file_parse_def Let_def cut version count entries bind_res_Ok prod.case if_not_P [OF len]
    using ver kept_no_link [OF assms(2), of body] rest
    by (simp add: ext_def [symmetric] reread_def Let_def body_def [symmetric])
qed

lemma index_sorted_reread [simp]: "index_sorted (reread ix) = index_sorted ix"
  by (simp add: index_sorted_def reread_def Let_def sort_key_id_if_sorted)

lemma write_version_reread [simp]: "write_version (reread ix) = write_version ix"
  by (auto simp: write_version_def reread_def Let_def list_ex_iff index_sorted_def)

lemma serialize_reread: "index_serialize dg (reread ix) = index_serialize dg ix"
proof -
  have "kept_extensions (reread ix) (write_index_entries (index_sorted ix) (write_version ix) [])
      = kept_extensions ix (write_index_entries (index_sorted ix) (write_version ix) [])"
    by (simp add: kept_extensions_def [of "reread ix"]) (simp add: reread_def Let_def)
  moreover have "length (ix_entries (reread ix)) = length (ix_entries ix)" "ix_algo (reread ix) = ix_algo ix"
    by (simp_all add: reread_def Let_def)
  ultimately show ?thesis by (simp add: index_serialize_def Let_def)
qed

subsection \<open>What a parsed index promises\<close>

lemma parse_entry_wf:
  assumes "parse_entry a data start ver prev = Ok (e, next)"
  shows "wf_oid (ie_id e) \<and> oid_algo (ie_id e) = a \<and> unat (ie_stage e) < 4 \<and> is_safe_index_path (ie_path e) \<and> next \<le> length data"
proof -
  have st: "unat (ucast (drop_bit 12 (w :: 16 word) AND 0x3) :: byte) < 4" for w
  proof -
    have "bit (ucast (drop_bit 12 w AND 0x3) :: byte) m \<Longrightarrow> m < 2" for m
      unfolding bit_ucast_iff bit_and_iff bit_consts by simp
    from unat_less_bits [OF this] show ?thesis by simp
  qed
  from assms show ?thesis
    by (auto simp: parse_entry_def Let_def bind_res_eq_Ok st dest: from_bytes_wf split: if_splits)
qed

lemma parse_entries_wf:
  "parse_entries a data ver n pos prev = Ok (es, q) \<Longrightarrow>
     length es = n \<and> (\<forall>e\<in>set es. wf_oid (ie_id e) \<and> oid_algo (ie_id e) = a \<and> unat (ie_stage e) < 4 \<and> is_safe_index_path (ie_path e))
     \<and> (pos \<le> length data \<longrightarrow> q \<le> length data)"
proof (induction n arbitrary: pos prev es)
  case (Suc n)
  then show ?case by (fastforce simp: bind_res_eq_Ok dest: parse_entry_wf)
qed simp

section \<open>Properties\<close>

text \<open>
  C26. The index file keeps the index: for well-formed entries and no split-index extension,
  \<open>parse\<close> reads back what \<open>serialize\<close> writes (in the version the entries need, 2, 3 or the
  requested 4 with its prefix compression) as the same entries in canonical order, and
  serializing what was read gives the file again byte for byte, extensions included.
\<close>

theorem index_file_roundtrip:
  assumes "digest_ok dg" and "wf_index ix"
  shows "\<exists>ix'. index_file_parse dg (ix_algo ix) (index_serialize dg ix) = Ok ix'
    \<and> ix_entries ix' = sort_key (\<lambda>e. (ie_path e, ie_stage e)) (ix_entries ix)
    \<and> ix_version ix' = write_version ix
    \<and> index_serialize dg ix' = index_serialize dg ix"
  using parse_serialize [OF assms] serialize_reread [of dg ix]
  by (intro exI [of _ "reread ix"]) (simp add: reread_def Let_def index_sorted_def)

definition demo_index :: index where
  "demo_index =
     (index_new Sha1)\<lparr>ix_version := 4, ix_entries :=
       [\<lparr>ie_ctime = (1, 2), ie_mtime = (3, 4), ie_dev = 5, ie_ino = 6, ie_mode = 0x81A4, ie_uid = 7, ie_gid = 8,
         ie_size = 9, ie_id = zero_oid Sha1, ie_stage = 0, ie_assume_valid = True,
         ie_extended_flags = EXT_INTENT_TO_ADD, ie_path = bstr ''a/b''\<rparr>]\<rparr>"

lemma wf_demo_index: "wf_index demo_index"
proof -
  have "is_safe_index_path (bstr ''a/b'')" by code_simp
  then show ?thesis
    by (simp add: wf_index_def demo_index_def index_new_def wf_index_entry_def extension_blocks.simps [of "[]"])
      (simp add: zero_oid_def)
qed

theorem index_file_roundtrip_witness:
  "\<exists>ix'. index_file_parse (\<lambda>a d. replicate (raw_len a) 7) Sha1
       (index_serialize (\<lambda>a d. replicate (raw_len a) 7) demo_index) = Ok ix'
     \<and> map ie_path (ix_entries ix') = [bstr ''a/b'']"
proof -
  have "wf_index demo_index" by (rule wf_demo_index)
  moreover have "ix_algo demo_index = Sha1" by (simp add: demo_index_def index_new_def)
  moreover have "map ie_path (sort_key (\<lambda>e. (ie_path e, ie_stage e)) (ix_entries demo_index)) = [bstr ''a/b'']"
    by (simp add: demo_index_def)
  ultimately show ?thesis
    using index_file_roundtrip [of "\<lambda>a d. replicate (raw_len a) 7" demo_index] by (auto simp: digest_ok_def)
qed

text \<open>
  C27. Nothing unsafe gets out of an index file, whatever its bytes: when \<open>parse\<close> succeeds, every
  entry's path is relative and made of safe components only (no empty, \<open>.\<close>, \<open>..\<close> or
  \<open>.git\<close> component, no NUL, backslash or colon), every id has the repository's hash, every
  stage is below 4, there are as many entries as the header says, and the index is not split.
\<close>

theorem index_file_safe:
  assumes "index_file_parse dg a data = Ok ix"
  shows "(\<forall>e\<in>set (ix_entries ix). ie_path e \<noteq> [] \<and> list_all is_safe_path_component (split_on 47 (ie_path e))
      \<and> wf_oid (ie_id e) \<and> oid_algo (ie_id e) = a \<and> unat (ie_stage e) < 4)
    \<and> length (ix_entries ix) = unat (be_word (take 4 (drop 8 data)) :: 32 word)
    \<and> (\<forall>b. (bstr ''link'', b) \<notin> set (extension_blocks (ix_extensions ix)))"
proof -
  obtain pos where p: "parse_entries a (take (length data - raw_len a) data) (be_word (take 4 (drop 4 data)) :: 32 word)
        (unat (be_word (take 4 (drop 8 data)) :: 32 word)) 12 [] = Ok (ix_entries ix, pos)"
    and x: "\<not> list_ex (\<lambda>(sig, _). sig = bstr ''link'') (extension_blocks (ix_extensions ix))"
    using assms by (auto simp: index_file_parse_def Let_def bind_res_eq_Ok split: if_splits)
  from parse_entries_wf [OF p] x show ?thesis
    by (auto simp: is_safe_index_path_def list_ex_iff)
qed

theorem index_file_safe_witness:
  "\<exists>ix. index_file_parse (\<lambda>a d. replicate (raw_len a) 7) Sha1
       (index_serialize (\<lambda>a d. replicate (raw_len a) 7) demo_index) = Ok ix
     \<and> (\<forall>e\<in>set (ix_entries ix). ie_path e \<noteq> [] \<and> list_all is_safe_path_component (split_on 47 (ie_path e)))"
proof -
  have "wf_index demo_index" by (rule wf_demo_index)
  moreover have "ix_algo demo_index = Sha1" by (simp add: demo_index_def index_new_def)
  ultimately have "index_file_parse (\<lambda>a d. replicate (raw_len a) 7) Sha1
      (index_serialize (\<lambda>a d. replicate (raw_len a) 7) demo_index) = Ok (reread demo_index)"
    using parse_serialize [of "\<lambda>a d. replicate (raw_len a) 7" demo_index] by (simp add: digest_ok_def)
  then show ?thesis using index_file_safe by blast
qed

end
