(* ===== verification/Index_Tree.thy ===== *)
theory Index_Tree
  imports Tree_Walk Index_File
begin

text \<open>
  From the staging index to a tree: \<open>write_tree_from_index\<close> of src/src/tree_builder.rs, over the
  model of the index and of \<open>write_tree_from_entries\<close>.
\<close>

section \<open>Model\<close>

fun staged :: "index_entry list \<Rightarrow> flat_entry list result" where
  "staged [] = Ok []"
| "staged (e # es) =
     (if ie_stage e \<noteq> 0 then Err (Reference ''cannot write-tree: index has unmerged (conflict) entries'')
      else if ie_extended_flags e AND EXT_INTENT_TO_ADD \<noteq> 0 then staged es
      else
        bind_res (from_mode_bits (ie_mode e)) (\<lambda>mode.
        bind_res (staged es) (\<lambda>flat. Ok ((ie_path e, mode, ie_id e) # flat))))"

definition write_tree_from_index :: "('s \<Rightarrow> object_type \<Rightarrow> bytes \<Rightarrow> object_id result \<times> 's) \<Rightarrow> 's \<Rightarrow> index \<Rightarrow> object_id result \<times> 's" where
  "write_tree_from_index put s ix =
     (case staged (ix_entries ix) of
        Err e \<Rightarrow> (Err e, s)
      | Ok flat \<Rightarrow> write_tree_from_entries put s flat)"

section \<open>Lemmas\<close>

text \<open>The entries that count, those not marked as intent-to-add.\<close>

definition real_entries :: "index \<Rightarrow> index_entry list" where
  "real_entries ix = filter (\<lambda>e. ie_extended_flags e AND EXT_INTENT_TO_ADD = 0) (ix_entries ix)"

lemma staged_Ok:
  "staged es = Ok flat \<Longrightarrow>
     (\<forall>e\<in>set es. ie_stage e = 0)
     \<and> map fst flat = map ie_path (filter (\<lambda>e. ie_extended_flags e AND EXT_INTENT_TO_ADD = 0) es)
     \<and> (\<forall>p m i. (p, m, i) \<in> set flat \<longleftrightarrow>
          (\<exists>e\<in>set es. ie_extended_flags e AND EXT_INTENT_TO_ADD = 0 \<and> ie_path e = p \<and> from_mode_bits (ie_mode e) = Ok m \<and> ie_id e = i))"
proof (induction es arbitrary: flat)
  case (Cons e es)
  show ?case
  proof (cases "ie_extended_flags e AND EXT_INTENT_TO_ADD = 0")
    case True
    with Cons.prems obtain m flat' where f: "ie_stage e = 0" "from_mode_bits (ie_mode e) = Ok m" "staged es = Ok flat'"
        "flat = (ie_path e, m, ie_id e) # flat'"
      by (auto simp: bind_res_eq_Ok split: if_splits)
    from Cons.IH [OF f(3)] f True show ?thesis by auto
  next
    case False
    with Cons.prems have f: "ie_stage e = 0" "staged es = Ok flat" by (auto split: if_splits)
    from Cons.IH [OF f(2)] f False show ?thesis by auto
  qed
qed simp

lemma staged_Err:
  "e \<in> set es \<Longrightarrow> ie_stage e \<noteq> 0 \<Longrightarrow> \<exists>x. staged es = Err x"
  using staged_Ok [of es] by (cases "staged es") auto

lemma staged_total:
  "\<forall>e\<in>set es. ie_stage e = 0 \<and> (ie_extended_flags e AND EXT_INTENT_TO_ADD = 0 \<longrightarrow> (\<exists>m. from_mode_bits (ie_mode e) = Ok m))
     \<Longrightarrow> \<exists>flat. staged es = Ok flat"
  by (induction es) (auto split: if_splits)

lemma safe_path_flat:
  assumes "is_safe_index_path p" and "m \<noteq> MTree" and "wf_oid i" and "oid_algo i = a"
  shows "wf_flat a (p, m, i)"
proof -
  have "[] \<notin> set (split_on 47 p)"
    using assms(1) by (auto simp: is_safe_index_path_def list_all_iff is_safe_path_component_def split: if_splits)
  then show ?thesis using assms safe_path_no_nul [OF assms(1)] by (simp add: wf_flat_def)
qed

section \<open>Properties\<close>

text \<open>
  C25. \<open>git write-tree\<close> commits what is staged: for an index without conflicts, with well-formed
  entries of representable file modes and one entry per path, \<open>write_tree_from_index\<close> on the
  in-memory store succeeds, and the tree it returns has exactly the staged files, each with the
  mode and the blob of its entry; intent-to-add entries are left out. No tree that is written
  collides with other content under the same digest.
\<close>

theorem write_tree_from_index_files:
  assumes "memory_inv dg s" and "staged (ix_entries ix) = Ok flat"
    and "list_all (wf_index_entry (mem_algo s)) (ix_entries ix)"
    and "list_all (\<lambda>e. from_mode_bits (ie_mode e) \<noteq> Ok MTree) (ix_entries ix)"
    and "distinct (map ie_path (real_entries ix))"
    and "no_collision dg (mem_algo s) (memory_read (snd (write_tree_from_index (memory_write dg) s ix)))
      (tree_writes dg (mem_algo s) flat)"
  shows "\<exists>r n m. fst (write_tree_from_index (memory_write dg) s ix) = Ok r
    \<and> flatten_tree n (mem_algo s) (memory_read (snd (write_tree_from_index (memory_write dg) s ix))) r = Some (Ok m)
    \<and> (\<forall>p v. bt_get m p = Some v \<longleftrightarrow>
          (\<exists>e\<in>set (real_entries ix). ie_path e = p \<and> from_mode_bits (ie_mode e) = Ok (fst v) \<and> ie_id e = snd v))"
proof -
  have st: "map fst flat = map ie_path (real_entries ix)"
      "\<And>p m i. (p, m, i) \<in> set flat \<longleftrightarrow> (\<exists>e\<in>set (real_entries ix). ie_path e = p \<and> from_mode_bits (ie_mode e) = Ok m \<and> ie_id e = i)"
    using staged_Ok [OF assms(2)] by (auto simp: real_entries_def)
  have w: "write_tree_from_index (memory_write dg) s ix = write_tree_from_entries (memory_write dg) s flat"
    by (simp add: write_tree_from_index_def assms(2))
  have "wf_flat (mem_algo s) x" if "x \<in> set flat" for x
  proof -
    obtain p m i where x: "x = (p, m, i)" by (cases x)
    with that st(2) obtain e where e: "e \<in> set (ix_entries ix)" "ie_path e = p" "from_mode_bits (ie_mode e) = Ok m" "ie_id e = i"
      by (auto simp: real_entries_def)
    then show ?thesis
      unfolding x using assms(3,4) by (intro safe_path_flat) (auto simp: list_all_iff wf_index_entry_def)
  qed
  then have wf: "\<forall>x\<in>set flat. wf_flat (mem_algo s) x" by blast
  have dist: "distinct (map fst flat)" using assms(5) st(1) by simp
  from memtotal.write_tree_files [OF assms(1) wf dist assms(6) [unfolded w]] obtain r where
    r: "fst (write_tree_from_entries (memory_write dg) s flat) = Ok r"
      "flatten_tree (Suc (entries_size (sort_key fst flat))) (mem_algo s)
        (memory_read (snd (write_tree_from_entries (memory_write dg) s flat))) r = Some (Ok (sort_key fst flat))" by blast
  have "bt_get (sort_key fst flat) p = Some v \<longleftrightarrow> (p, fst v, snd v) \<in> set flat" for p v
    using dist by (simp add: bt_get_def distinct_map)
  then show ?thesis unfolding w using r st(2) by blast
qed

theorem write_tree_from_index_files_witness:
  "\<exists>r n m. flatten_tree n Sha1
       (memory_read (snd (write_tree_from_index (memory_write head_digest) (memory_new Sha1)
          ((index_new Sha1)\<lparr>ix_entries :=
            [\<lparr>ie_ctime = (0, 0), ie_mtime = (0, 0), ie_dev = 0, ie_ino = 0, ie_mode = 0x81A4, ie_uid = 0, ie_gid = 0,
              ie_size = 0, ie_id = zero_oid Sha1, ie_stage = 0, ie_assume_valid = False,
              ie_extended_flags = 0, ie_path = bstr ''a/b''\<rparr>]\<rparr>)))) r = Some (Ok m)
     \<and> bt_get m (bstr ''a/b'') = Some (Regular, zero_oid Sha1)"
proof -
  let ?e = "\<lparr>ie_ctime = (0, 0), ie_mtime = (0, 0), ie_dev = 0, ie_ino = 0, ie_mode = 0x81A4, ie_uid = 0, ie_gid = 0,
              ie_size = 0, ie_id = zero_oid Sha1, ie_stage = 0, ie_assume_valid = False,
              ie_extended_flags = 0, ie_path = bstr ''a/b''\<rparr> :: index_entry"
  let ?ix = "(index_new Sha1)\<lparr>ix_entries := [?e]\<rparr>" and ?s = "memory_new Sha1"
  have a: "mem_algo ?s = Sha1" by (simp add: memory_new_def)
  have mode: "from_mode_bits 0x81A4 = Ok Regular" by code_simp
  have f: "staged (ix_entries ?ix) = Ok [(bstr ''a/b'', Regular, zero_oid Sha1)]" by code_simp
  have "is_safe_index_path (bstr ''a/b'')" by code_simp
  then have wf: "list_all (wf_index_entry (mem_algo ?s)) (ix_entries ?ix)"
    by (simp add: a wf_index_entry_def) (simp add: zero_oid_def)
  have m: "list_all (\<lambda>e. from_mode_bits (ie_mode e) \<noteq> Ok MTree) (ix_entries ?ix)" by (simp add: mode)
  have d: "distinct (map ie_path (real_entries ?ix))" by (simp add: real_entries_def)
  have n: "no_collision head_digest (mem_algo ?s) (memory_read (snd (write_tree_from_index (memory_write head_digest) ?s ?ix)))
      (tree_writes head_digest (mem_algo ?s) [(bstr ''a/b'', Regular, zero_oid Sha1)])" by code_simp
  from write_tree_from_index_files [OF memory_inv_new [OF digest_ok_head] f wf m d n]
  obtain r n fl where fl: "flatten_tree n Sha1 (memory_read (snd (write_tree_from_index (memory_write head_digest) ?s ?ix))) r = Some (Ok fl)"
      "\<And>p v. bt_get fl p = Some v \<longleftrightarrow>
        (\<exists>e\<in>set (real_entries ?ix). ie_path e = p \<and> from_mode_bits (ie_mode e) = Ok (fst v) \<and> ie_id e = snd v)"
    unfolding a by blast
  have "bt_get fl (bstr ''a/b'') = Some (Regular, zero_oid Sha1)"
    unfolding fl(2) by (simp add: real_entries_def mode)
  with fl(1) show ?thesis by blast
qed

text \<open>
  C40. An index that cannot be committed is refused and nothing is written: with any entry at a
  conflict stage, or with a staged entry whose mode no tree can hold, \<open>write_tree_from_index\<close>
  returns an error and leaves the store as it was.
\<close>

theorem write_tree_from_index_refuses:
  assumes "e \<in> set (ix_entries ix)"
    and "ie_stage e \<noteq> 0 \<or> ie_extended_flags e AND EXT_INTENT_TO_ADD = 0 \<and> is_err (from_mode_bits (ie_mode e))"
  shows "is_err (fst (write_tree_from_index put s ix)) \<and> snd (write_tree_from_index put s ix) = s"
proof -
  have "\<exists>x. staged es = Err x" if "e \<in> set es" for es
    using that
  proof (induction es)
    case (Cons d es)
    show ?case
    proof (cases "d = e")
      case True
      with assms(2) show ?thesis by (cases "from_mode_bits (ie_mode e)") auto
    next
      case False
      with Cons obtain x where "staged es = Err x" by auto
      then show ?thesis by (cases "from_mode_bits (ie_mode d)") auto
    qed
  qed simp
  from this [OF assms(1)] show ?thesis by (auto simp: write_tree_from_index_def)
qed

theorem write_tree_from_index_refuses_witness:
  "is_err (fst (write_tree_from_index (memory_write head_digest) (memory_new Sha1)
     (demo_index\<lparr>ix_entries := map (\<lambda>e. e\<lparr>ie_stage := 2\<rparr>) (ix_entries demo_index)\<rparr>)))"
proof -
  let ?ix = "demo_index\<lparr>ix_entries := map (\<lambda>e. e\<lparr>ie_stage := 2\<rparr>) (ix_entries demo_index)\<rparr>"
  have "\<exists>e\<in>set (ix_entries ?ix). ie_stage e \<noteq> 0" by (simp add: demo_index_def)
  then obtain e where e: "e \<in> set (ix_entries ?ix)" "ie_stage e \<noteq> 0" by (rule bexE)
  from write_tree_from_index_refuses [OF e(1) disjI1 [OF e(2)]] show ?thesis by (rule conjunct1)
qed

end
