(* ===== verification/Config_File.thy ===== *)
theory Config_File
  imports Oid
begin

text \<open>
  The configuration format (src/src/config.rs): an ordered list of keys and values, its parser
  with quoting, escapes, comments and continuation lines, and its printer. The parser's cursor is
  the text that is left to read; the line number, which only error messages show, is left out.
  A text is valid UTF-8 and is split at ASCII characters only, so the lossy conversions of the
  pieces (\<open>String::from_utf8_lossy\<close>) are the identity and are left out as well.
\<close>

section \<open>Model\<close>

subsection \<open>Keys and values\<close>

record config_key =
  ck_section :: bytes
  ck_subsection :: "bytes option"
  ck_name :: bytes

type_synonym config = "(config_key \<times> bytes) list"

definition to_lower :: "bytes \<Rightarrow> bytes" where
  "to_lower = map ascii_lower"

definition key_new :: "bytes \<Rightarrow> bytes option \<Rightarrow> bytes \<Rightarrow> config_key" where
  "key_new section subsection name =
     \<lparr>ck_section = to_lower section, ck_subsection = subsection, ck_name = to_lower name\<rparr>"

definition config_get :: "config \<Rightarrow> bytes \<Rightarrow> bytes option \<Rightarrow> bytes \<Rightarrow> bytes option" where
  "config_get cfg section subsection name =
     map_option snd (find (\<lambda>(k, _). k = key_new section subsection name) (rev cfg))"

definition config_get_all :: "config \<Rightarrow> bytes \<Rightarrow> bytes option \<Rightarrow> bytes \<Rightarrow> bytes list" where
  "config_get_all cfg section subsection name =
     map snd (filter (\<lambda>(k, _). k = key_new section subsection name) cfg)"

definition parse_bool :: "bytes \<Rightarrow> bool" where
  "parse_bool v \<longleftrightarrow> to_lower v \<in> {bstr ''true'', bstr ''yes'', bstr ''on'', bstr ''1''}"

definition config_get_bool :: "config \<Rightarrow> bytes \<Rightarrow> bytes option \<Rightarrow> bytes \<Rightarrow> bool option" where
  "config_get_bool cfg section subsection name = map_option parse_bool (config_get cfg section subsection name)"

definition config_set :: "config \<Rightarrow> bytes \<Rightarrow> bytes option \<Rightarrow> bytes \<Rightarrow> bytes \<Rightarrow> config" where
  "config_set cfg section subsection name v =
     (let key = key_new section subsection name in filter (\<lambda>(k, _). k \<noteq> key) cfg @ [(key, v)])"

subsection \<open>Printing\<close>

definition needs_quotes :: "bytes \<Rightarrow> bool" where
  "needs_quotes v \<longleftrightarrow> starts_with [32] v \<or> ends_with [32] v \<or> 35 \<in> set v \<or> 59 \<in> set v"

definition escape_char :: "byte \<Rightarrow> bytes" where
  "escape_char c =
     (if c = 10 then [92, 110] else if c = 9 then [92, 116] else if c = 8 then [92, 98]
      else if c = 34 then [92, 34] else if c = 92 then [92, 92] else [c])"

definition quote_value :: "bytes \<Rightarrow> bytes" where
  "quote_value v =
     (if needs_quotes v then [34] else []) @ concat (map escape_char v) @ (if needs_quotes v then [34] else [])"

definition escape_subsection :: "bytes \<Rightarrow> bytes" where
  "escape_subsection name = concat (map (\<lambda>c. if c = 34 \<or> c = 92 then [92, c] else [c]) name)"

definition section_text :: "bytes \<Rightarrow> bytes option \<Rightarrow> bytes" where
  "section_text section subsection =
     (case subsection of
        Some ss \<Rightarrow> [91] @ section @ [32, 34] @ escape_subsection ss @ [34, 93, 10]
      | None \<Rightarrow> [91] @ section @ [93, 10])"

fun serialize_loop :: "bytes \<Rightarrow> (bytes \<times> bytes option) option \<Rightarrow> config \<Rightarrow> bytes" where
  "serialize_loop out current [] = out"
| "serialize_loop out current ((key, v) # es) =
     (let header = (ck_section key, ck_subsection key);
          out = (if current = Some header then out
                 else (if out = [] then out else out @ [10]) @ section_text (ck_section key) (ck_subsection key));
          out = out @ [9] @ ck_name key @ bstr '' = '' @ quote_value v @ [10]
      in serialize_loop out (Some header) es)"

definition config_serialize :: "config \<Rightarrow> bytes" where
  "config_serialize cfg = serialize_loop [] None cfg"

subsection \<open>Parsing\<close>

definition config_ws :: "byte \<Rightarrow> bool" where
  "config_ws c \<longleftrightarrow> c = 32 \<or> c = 9 \<or> c = 10 \<or> c = 12 \<or> c = 13"

definition is_alpha :: "byte \<Rightarrow> bool" where
  "is_alpha c \<longleftrightarrow> (65 \<le> c \<and> c \<le> 90) \<or> (97 \<le> c \<and> c \<le> 122)"

definition is_alnum :: "byte \<Rightarrow> bool" where
  "is_alnum c \<longleftrightarrow> is_alpha c \<or> (48 \<le> c \<and> c \<le> 57)"

definition skip_blanks :: "bytes \<Rightarrow> bytes" where
  "skip_blanks s = dropWhile (\<lambda>c. c = 32 \<or> c = 9 \<or> c = 13) s"

definition skip_line :: "bytes \<Rightarrow> bytes" where
  "skip_line s = drop 1 (dropWhile (\<lambda>c. c \<noteq> 10) s)"

text \<open>The loop over a quoted subsection name, after the opening quote.\<close>

fun subsection_loop :: "bytes \<Rightarrow> bytes \<Rightarrow> (bytes \<times> bytes) result" where
  "subsection_loop sub [] = Err (Config ''line {}: unterminated subsection'')"
| "subsection_loop sub (c # r) =
     (if c = 10 then Err (Config ''line {}: unterminated subsection'')
      else if c = 34 then Ok (sub, r)
      else if c = 92 then
        (case r of
           [] \<Rightarrow> Err (Config ''line {}: unterminated subsection'')
         | d # r' \<Rightarrow>
             if d = 10 then Err (Config ''line {}: unterminated subsection'')
             else subsection_loop (sub @ [d]) r')
      else subsection_loop (sub @ [c]) r)"

text \<open>What follows the section name in a header.\<close>

definition header_tail :: "bytes \<Rightarrow> bytes \<Rightarrow> ((bytes \<times> bytes option) \<times> bytes) result" where
  "header_tail name s =
     (case s of
        [] \<Rightarrow> Err (Config ''line {}: unclosed section'')
      | c # r \<Rightarrow>
          if c = 93 then
            (case split_once 46 name of
               Some (sec, sub) \<Rightarrow> Ok ((sec, Some sub), r)
             | None \<Rightarrow> Ok ((name, None), r))
          else if c = 32 \<or> c = 9 then
            (case skip_blanks r of
               [] \<Rightarrow> Err (Config ''line {}: bad section header'')
             | d # r' \<Rightarrow>
                 if d \<noteq> 34 then Err (Config ''line {}: bad section header'')
                 else
                   bind_res (subsection_loop [] r') (\<lambda>(sub, r'').
                     case r'' of
                       e # r3 \<Rightarrow>
                         if e = 93 then Ok ((name, Some sub), r3)
                         else Err (Config ''line {}: bad section header'')
                     | [] \<Rightarrow> Err (Config ''line {}: bad section header'')))
          else Err (Config ''line {}: unclosed section''))"

definition header_char :: "byte \<Rightarrow> bool" where
  "header_char c \<longleftrightarrow> is_alnum c \<or> c = 45 \<or> c = 46"

definition section_header :: "bytes \<Rightarrow> ((bytes \<times> bytes option) \<times> bytes) result" where
  "section_header s =
     (let name = to_lower (takeWhile header_char s)
      in if name = [] then Err (Config ''line {}: empty section name'')
         else header_tail name (dropWhile header_char s))"

text \<open>What follows a backslash in a value: the characters it stands for, none for a line continuation.\<close>

definition unescape :: "bytes \<Rightarrow> (bytes \<times> bytes) result" where
  "unescape s =
     (case s of
        [] \<Rightarrow> Err (Config ''line {}: bad escape in value'')
      | d # r \<Rightarrow>
          if d = 10 then Ok ([], r)
          else if d = 13 \<and> r \<noteq> [] \<and> hd r = 10 then Ok ([], tl r)
          else if d = 110 then Ok ([10], r)
          else if d = 116 then Ok ([9], r)
          else if d = 98 then Ok ([8], r)
          else if d = 34 \<or> d = 92 then Ok ([d], r)
          else Err (Config ''line {}: bad escape in value''))"

lemma unescape_shorter: "unescape s = Ok (cs, r) \<Longrightarrow> length r < length s"
  by (auto simp: unescape_def split: list.splits if_splits)

function value_loop :: "bytes \<Rightarrow> bool \<Rightarrow> bool \<Rightarrow> nat \<Rightarrow> bytes \<Rightarrow> (bytes \<times> bytes) result" where
  "value_loop out in_quotes in_comment pending [] =
     (if in_quotes then Err (Config ''line {}: unterminated quoted value'') else Ok (out, []))"
| "value_loop out in_quotes in_comment pending (c # r) =
     (if c = 10 then
        (if in_quotes then Err (Config ''line {}: unterminated quoted value'') else Ok (out, r))
      else if in_comment then value_loop out in_quotes in_comment pending r
      else if config_ws c \<and> \<not> in_quotes then
        value_loop out in_quotes in_comment (if out \<noteq> [] then pending + 1 else pending) r
      else if \<not> in_quotes \<and> (c = 35 \<or> c = 59) then value_loop out in_quotes True pending r
      else if c = 92 then
        bind_res (unescape r) (\<lambda>(cs, r').
          value_loop (out @ replicate pending 32 @ cs) in_quotes in_comment 0 r')
      else if c = 34 then value_loop (out @ replicate pending 32) (\<not> in_quotes) in_comment 0 r
      else value_loop (out @ replicate pending 32 @ [c]) in_quotes in_comment 0 r)"
  by pat_completeness auto
termination
  by (relation "measure (\<lambda>(out, q, c, p, s). length s)") (auto dest: unescape_shorter)

lemma skip_blanks_le: "length (skip_blanks s) \<le> length s"
  by (simp add: skip_blanks_def length_dropWhile_le)

lemma subsection_loop_le: "subsection_loop sub s = Ok (x, r) \<Longrightarrow> length r \<le> length s"
  by (induction sub s rule: subsection_loop.induct) (auto split: if_splits list.splits)

lemma value_loop_backslash:
  "c = 92 \<Longrightarrow> value_loop out q False p (c # r)
     = bind_res (unescape r) (\<lambda>(cs, r'). value_loop (out @ replicate p 32 @ cs) q False 0 r')"
  by (simp add: config_ws_def)

lemma value_loop_le: "value_loop out q c p s = Ok (x, y) \<Longrightarrow> length y \<le> length s"
proof (induction out q c p s rule: value_loop.induct)
  case (2 out q c p ch r)
  consider "ch = 10" | "ch \<noteq> 10" "c" | "ch \<noteq> 10" "\<not> c" "config_ws ch \<and> \<not> q"
    | "ch \<noteq> 10" "\<not> c" "\<not> (config_ws ch \<and> \<not> q)" "\<not> q \<and> (ch = 35 \<or> ch = 59)"
    | "ch \<noteq> 10" "\<not> c" "\<not> (config_ws ch \<and> \<not> q)" "\<not> (\<not> q \<and> (ch = 35 \<or> ch = 59))" "ch = 92"
    | "ch \<noteq> 10" "\<not> c" "\<not> (config_ws ch \<and> \<not> q)" "\<not> (\<not> q \<and> (ch = 35 \<or> ch = 59))" "ch \<noteq> 92" "ch = 34"
    | "ch \<noteq> 10" "\<not> c" "\<not> (config_ws ch \<and> \<not> q)" "\<not> (\<not> q \<and> (ch = 35 \<or> ch = 59))" "ch \<noteq> 92" "ch \<noteq> 34"
    by blast
  then show ?case
  proof cases
    case 1
    with "2.prems" show ?thesis by (simp split: if_splits)
  next
    case 2
    with "2.prems" have "value_loop out q c p r = Ok (x, y)" by simp
    from "2.IH"(1) [OF 2 this] show ?thesis by simp
  next
    case 3
    then have "value_loop out q c (if out \<noteq> [] then p + 1 else p) r = Ok (x, y)" using "2.prems" by simp
    from "2.IH"(2) [OF 3 this] show ?thesis by simp
  next
    case 4
    then have "value_loop out q True p r = Ok (x, y)" using "2.prems" by (simp split: if_splits)
    from "2.IH"(3) [OF 4 this] show ?thesis by simp
  next
    case 5
    have "c = False" using 5(2) by simp
    with "2.prems" obtain cs r' where u: "unescape r = Ok (cs, r')" "value_loop (out @ replicate p 32 @ cs) q c 0 r' = Ok (x, y)"
      unfolding \<open>c = False\<close> value_loop_backslash [OF 5(5)] by (auto simp: bind_res_eq_Ok)
    from "2.IH"(4) [OF 5 u(1) refl u(2)] unescape_shorter [OF u(1)] show ?thesis by simp
  next
    case 6
    then have "value_loop (out @ replicate p 32) (\<not> q) c 0 r = Ok (x, y)" using "2.prems" by (simp split: if_splits)
    from "2.IH"(5) [OF 6 this] show ?thesis by simp
  next
    case 7
    then have "value_loop (out @ replicate p 32 @ [ch]) q c 0 r = Ok (x, y)" using "2.prems" by (simp split: if_splits)
    from "2.IH"(6) [OF 7 this] show ?thesis by simp
  qed
qed (simp split: if_splits)

lemma header_tail_le: "header_tail name s = Ok (x, r) \<Longrightarrow> length r \<le> length s"
proof (cases s)
  case (Cons c rest)
  assume h: "header_tail name s = Ok (x, r)"
  show ?thesis
  proof (cases "c = 93")
    case True
    with h Cons show ?thesis by (simp add: header_tail_def split: option.splits prod.splits)
  next
    case False
    with h Cons obtain d r' where d: "skip_blanks rest = d # r'"
      and s: "bind_res (subsection_loop [] r') (\<lambda>(sub, r''). case r'' of
             e # r3 \<Rightarrow> if e = 93 then Ok ((name, Some sub), r3) else Err (Config ''line {}: bad section header'')
           | [] \<Rightarrow> Err (Config ''line {}: bad section header'')) = Ok (x, r)"
      by (auto simp: header_tail_def split: if_splits list.split_asm)
    from s obtain sub r'' where t: "subsection_loop [] r' = Ok (sub, r'')"
      "(case r'' of
             e # r3 \<Rightarrow> if e = 93 then Ok ((name, Some sub), r3) else Err (Config ''line {}: bad section header'')
           | [] \<Rightarrow> Err (Config ''line {}: bad section header'')) = Ok (x, r)"
      unfolding bind_res_eq_Ok by (metis (no_types, lifting) case_prod_conv surj_pair)
    then have "length r \<le> length r''" by (cases r'') (simp_all split: if_splits)
    with subsection_loop_le [OF t(1)] skip_blanks_le [of rest] show ?thesis by (simp add: d Cons)
  qed
qed (simp add: header_tail_def)

lemma section_header_le: "section_header s = Ok (x, r) \<Longrightarrow> length r \<le> length s"
proof -
  assume "section_header s = Ok (x, r)"
  then have "length r \<le> length (dropWhile header_char s)"
    by (intro header_tail_le) (simp add: section_header_def Let_def split: if_splits)
  also have "\<dots> \<le> length s" by (rule length_dropWhile_le)
  finally show ?thesis .
qed

definition key_char :: "byte \<Rightarrow> bool" where
  "key_char c \<longleftrightarrow> is_alnum c \<or> c = 45"

text \<open>The value of an entry, after its name and blanks.\<close>

definition entry_value :: "bytes \<Rightarrow> (bytes \<times> bytes) result" where
  "entry_value s =
     (case s of
        [] \<Rightarrow> Ok (bstr ''true'', [])
      | c # r \<Rightarrow>
          if c = 61 then value_loop [] False False 0 r
          else if c = 10 \<or> c = 13 \<or> c = 35 \<or> c = 59 then Ok (bstr ''true'', s)
          else Err (Config ''line {}: bad config line''))"

lemma entry_value_le: "entry_value s = Ok (v, r) \<Longrightarrow> length r \<le> length s"
  by (auto simp: entry_value_def split: list.splits if_splits dest: value_loop_le)

function config_loop :: "(bytes \<times> bytes option) option \<Rightarrow> config \<Rightarrow> bytes \<Rightarrow> config result" where
  "config_loop section cfg s =
     (case dropWhile config_ws s of
        [] \<Rightarrow> Ok cfg
      | c # r \<Rightarrow>
          if c = 35 \<or> c = 59 then config_loop section cfg (skip_line r)
          else if c = 91 then
            bind_res (section_header r) (\<lambda>(sec, r'). config_loop (Some sec) cfg r')
          else if is_alpha c then
            (case section of
               None \<Rightarrow> Err (Config ''line {}: entry before any section'')
             | Some (sec, subsec) \<Rightarrow>
                 bind_res (entry_value (skip_blanks (dropWhile key_char r))) (\<lambda>(v, r').
                   config_loop section (cfg @ [(key_new sec subsec (c # takeWhile key_char r), v)]) r'))
          else Err (Config ''line {}: bad config line''))"
  by pat_completeness auto
termination
proof (relation "measure (\<lambda>(section, cfg, s). length s)", goal_cases)
  case (2 sec\<^sub>0 cfg s c r)
  have "length (skip_line r) \<le> length r" using length_dropWhile_le [of "\<lambda>c. c \<noteq> 10" r] by (simp add: skip_line_def del: length_dropWhile_le)
  moreover have "length (c # r) \<le> length s" unfolding 2(1) [symmetric] by (rule length_dropWhile_le)
  ultimately show ?case by simp
next
  case (3 sec\<^sub>0 cfg s c r x sec r')
  then have "length r' \<le> length r" by (auto dest: section_header_le)
  moreover have "length (c # r) \<le> length s" unfolding 3(1) [symmetric] by (rule length_dropWhile_le)
  ultimately show ?case by simp
next
  case (4 sec\<^sub>0 cfg s c r h sec subsec x v r')
  then have "length r' \<le> length (skip_blanks (dropWhile key_char r))" by (auto dest: entry_value_le)
  also have "\<dots> \<le> length r" using skip_blanks_le length_dropWhile_le order_trans by blast
  finally have "length r' \<le> length r" .
  moreover have "length (c # r) \<le> length s" unfolding 4(1) [symmetric] by (rule length_dropWhile_le)
  ultimately show ?case by simp
qed simp

declare config_loop.simps [simp del]

definition config_parse :: "bytes \<Rightarrow> config result" where
  "config_parse s =
     config_loop None [] (case strip_prefix [0xEF, 0xBB, 0xBF] s of Some r \<Rightarrow> r | None \<Rightarrow> s)"

section \<open>Lemmas\<close>

subsection \<open>Values\<close>

lemma value_loop_escape:
  assumes "q \<or> c \<notin> {32, 12, 13, 35, 59}"
  shows "value_loop out q False p (escape_char c @ r) = value_loop (out @ replicate p 32 @ [c]) q False 0 r"
proof -
  consider "c = 10" | "c = 9" | "c = 8" | "c = 34" | "c = 92" | "c \<noteq> 10" "c \<noteq> 9" "c \<noteq> 8" "c \<noteq> 34" "c \<noteq> 92" by blast
  then show ?thesis
  proof cases
    case 6
    then have "escape_char c = [c]" "\<not> (config_ws c \<and> \<not> q)" "\<not> (\<not> q \<and> (c = 35 \<or> c = 59))"
      using assms by (auto simp: escape_char_def config_ws_def)
    with 6 show ?thesis by (cases q) auto
  qed (simp_all add: escape_char_def value_loop_backslash unescape_def del: value_loop.simps)
qed

lemma value_loop_quoted: "value_loop out True False 0 (concat (map escape_char v) @ 34 # r) = value_loop (out @ v) False False 0 r"
proof (induction v arbitrary: out)
  case (Cons c v)
  then show ?case by (simp add: value_loop_escape del: value_loop.simps)
qed (simp add: config_ws_def)

lemma value_loop_plain:
  "set v \<inter> {12, 13, 35, 59} = {} \<Longrightarrow> v \<noteq> [] \<Longrightarrow> last v \<noteq> 32 \<Longrightarrow> out \<noteq> [] \<or> hd v \<noteq> 32 \<Longrightarrow>
     value_loop out False False p (concat (map escape_char v) @ 10 # r) = Ok (out @ replicate p 32 @ v, r)"
proof (induction v arbitrary: out p)
  case (Cons c v)
  show ?case
  proof (cases "c = 32")
    case True
    then have "v \<noteq> []" "out \<noteq> []" using Cons.prems by auto
    moreover have "value_loop out False False (p + 1) (concat (map escape_char v) @ 10 # r) = Ok (out @ replicate (p + 1) 32 @ v, r)"
      using Cons.prems calculation by (intro Cons.IH) auto
    moreover have "replicate (p + 1) 32 @ v = replicate p 32 @ 32 # v" by (simp add: replicate_app_Cons_same)
    moreover have "escape_char 32 = [32]" by (simp add: escape_char_def)
    ultimately show ?thesis using True by (simp add: config_ws_def)
  next
    case False
    then have e: "value_loop out False False p (escape_char c @ concat (map escape_char v) @ 10 # r)
        = value_loop (out @ replicate p 32 @ [c]) False False 0 (concat (map escape_char v) @ 10 # r)"
      using Cons.prems(1) by (intro value_loop_escape) auto
    show ?thesis
    proof (cases "v = []")
      case True
      then show ?thesis using e by simp
    next
      case False
      then have "value_loop (out @ replicate p 32 @ [c]) False False 0 (concat (map escape_char v) @ 10 # r)
          = Ok ((out @ replicate p 32 @ [c]) @ replicate 0 32 @ v, r)"
        using Cons.prems by (intro Cons.IH) auto
      then show ?thesis using e by simp
    qed
  qed
qed simp

definition wf_value :: "bytes \<Rightarrow> bool" where
  "wf_value v \<longleftrightarrow> needs_quotes v \<or> (12 \<notin> set v \<and> 13 \<notin> set v)"

lemma value_roundtrip:
  assumes "wf_value v"
  shows "value_loop [] False False 0 (32 # quote_value v @ 10 # r) = Ok (v, r)"
proof (cases "needs_quotes v")
  case True
  have "value_loop [] False False 0 (32 # 34 # concat (map escape_char v) @ 34 # 10 # r)
      = value_loop [] True False 0 (concat (map escape_char v) @ 34 # 10 # r)"
    by (simp add: config_ws_def)
  also have "\<dots> = Ok (v, r)" unfolding value_loop_quoted by simp
  finally show ?thesis using True by (simp add: quote_value_def)
next
  case False
  then have v: "35 \<notin> set v" "59 \<notin> set v" "12 \<notin> set v" "13 \<notin> set v" using assms by (auto simp: needs_quotes_def wf_value_def)
  have "value_loop [] False False 0 (32 # concat (map escape_char v) @ 10 # r)
      = value_loop [] False False 0 (concat (map escape_char v) @ 10 # r)" by (simp add: config_ws_def)
  also have "\<dots> = Ok (v, r)"
  proof (cases "v = []")
    case nonempty: False
    have "hd v \<noteq> 32" using False nonempty by (cases v) (auto simp: needs_quotes_def starts_with_iff)
    moreover have "last v \<noteq> 32" using False nonempty by (cases v rule: rev_cases) (auto simp: needs_quotes_def ends_with_iff)
    ultimately show ?thesis using value_loop_plain [of v "[]" 0 r] nonempty v by auto
  qed simp
  finally show ?thesis using False by (simp add: quote_value_def)
qed

subsection \<open>Headers and names\<close>

lemma subsection_roundtrip:
  "10 \<notin> set ss \<Longrightarrow> subsection_loop sub (escape_subsection ss @ 34 # r) = Ok (sub @ ss, r)"
proof (induction ss arbitrary: sub)
  case (Cons c ss)
  then show ?case by (auto simp: escape_subsection_def)
qed (simp add: escape_subsection_def)

definition wf_section :: "bytes \<Rightarrow> bytes option \<Rightarrow> bool" where
  "wf_section sec subsec \<longleftrightarrow>
     sec \<noteq> [] \<and> list_all header_char sec \<and> to_lower sec = sec
     \<and> (case subsec of Some ss \<Rightarrow> 10 \<notin> set ss | None \<Rightarrow> 46 \<notin> set sec)"

lemma header_char_stop: "\<not> header_char 93" "\<not> header_char 32" "\<not> key_char 32"
  by (simp_all add: header_char_def key_char_def is_alnum_def is_alpha_def)

lemma takeWhile_stop: "list_all P xs \<Longrightarrow> \<not> P c \<Longrightarrow> takeWhile P (xs @ c # r) = xs \<and> dropWhile P (xs @ c # r) = c # r"
  by (induction xs) auto

lemma section_roundtrip:
  assumes "wf_section sec subsec"
  shows "section_header (tl (section_text sec subsec) @ r) = Ok ((sec, subsec), 10 # r)"
proof (cases subsec)
  case None
  with assms have w: "sec \<noteq> []" "list_all header_char sec" "to_lower sec = sec" "split_once 46 sec = None"
    by (simp_all add: wf_section_def split_once_None)
  show ?thesis
    using w takeWhile_stop [OF w(2) header_char_stop(1), of "10 # r"]
    by (simp add: section_header_def section_text_def None header_tail_def)
next
  case (Some ss)
  with assms have w: "sec \<noteq> []" "list_all header_char sec" "to_lower sec = sec" "10 \<notin> set ss"
    by (simp_all add: wf_section_def)
  show ?thesis
    using w takeWhile_stop [OF w(2) header_char_stop(2), of "34 # escape_subsection ss @ 34 # 93 # 10 # r"]
      subsection_roundtrip [OF w(4), of "[]" "93 # 10 # r"]
    by (simp add: section_header_def section_text_def Some header_tail_def skip_blanks_def)
qed

definition wf_name :: "bytes \<Rightarrow> bool" where
  "wf_name name \<longleftrightarrow> name \<noteq> [] \<and> is_alpha (hd name) \<and> list_all key_char name \<and> to_lower name = name"

definition wf_config :: "config \<Rightarrow> bool" where
  "wf_config cfg \<longleftrightarrow>
     list_all (\<lambda>(k, v). wf_section (ck_section k) (ck_subsection k) \<and> wf_name (ck_name k) \<and> wf_value v) cfg"

subsection \<open>The file\<close>

lemma is_alpha_facts: "is_alpha c \<Longrightarrow> \<not> config_ws c \<and> c \<noteq> 35 \<and> c \<noteq> 59 \<and> c \<noteq> 91"
  by (auto simp: is_alpha_def config_ws_def)

lemma config_loop_entry:
  assumes "wf_name name" and "wf_value v" and "to_lower sec = sec"
  shows "config_loop (Some (sec, subsec)) cfg (9 # name @ bstr '' = '' @ quote_value v @ 10 # r)
    = config_loop (Some (sec, subsec)) (cfg @ [(\<lparr>ck_section = sec, ck_subsection = subsec, ck_name = name\<rparr>, v)]) r"
proof -
  obtain c n where name: "name = c # n" using assms(1) by (cases name) (auto simp: wf_name_def)
  with assms(1) have c: "is_alpha c" "list_all key_char n" "to_lower (c # n) = c # n" by (simp_all add: wf_name_def)
  have d: "dropWhile config_ws (9 # name @ bstr '' = '' @ quote_value v @ 10 # r) = c # n @ 32 # 61 # 32 # quote_value v @ 10 # r"
    using is_alpha_facts [OF c(1)] by (simp add: name config_ws_def [of 9])
  have "skip_blanks (32 # 61 # x) = 61 # x" for x by (simp add: skip_blanks_def)
  then show ?thesis
    using c(1) is_alpha_facts [OF c(1)] takeWhile_stop [OF c(2) header_char_stop(3), of "61 # 32 # quote_value v @ 10 # r"]
    by (subst config_loop.simps, unfold d)
      (simp add: entry_value_def value_roundtrip [OF assms(2)] key_new_def assms(3) c(3) name del: value_loop.simps)
qed


lemma config_loop_ws: "config_ws c \<Longrightarrow> config_loop sec cfg (c # s) = config_loop sec cfg s"
  by (subst (1 2) config_loop.simps) simp

lemma config_loop_header:
  assumes "wf_section sec subsec"
  shows "config_loop x cfg (section_text sec subsec @ r) = config_loop (Some (sec, subsec)) cfg r"
proof -
  have s: "section_text sec subsec @ r = 91 # tl (section_text sec subsec) @ r"
    by (simp add: section_text_def split: option.split)
  have "config_loop x cfg (section_text sec subsec @ r) = config_loop (Some (sec, subsec)) cfg (10 # r)"
    unfolding s by (subst config_loop.simps) (simp add: config_ws_def section_roundtrip [OF assms])
  then show ?thesis by (simp add: config_loop_ws config_ws_def)
qed

text \<open>What the printer appends for the entries that remain.\<close>

fun entries_text :: "bool \<Rightarrow> (bytes \<times> bytes option) option \<Rightarrow> config \<Rightarrow> bytes" where
  "entries_text first current [] = []"
| "entries_text first current ((key, v) # es) =
     (let header = (ck_section key, ck_subsection key)
      in (if current = Some header then []
          else (if first then [] else [10]) @ section_text (ck_section key) (ck_subsection key))
         @ 9 # ck_name key @ bstr '' = '' @ quote_value v @ 10 # entries_text False (Some header) es)"

lemma serialize_loop_text: "serialize_loop out current es = out @ entries_text (out = []) current es"
  by (induction out current es rule: serialize_loop.induct) (auto simp: Let_def)

lemma config_loop_entries:
  assumes "wf_config es" and "current \<noteq> None \<Longrightarrow> x = current"
    and "\<forall>h. current = Some h \<longrightarrow> to_lower (fst h) = fst h"
  shows "config_loop x cfg (entries_text first current es) = Ok (cfg @ es)"
  using assms
proof (induction es arbitrary: first current x cfg)
  case Nil
  then show ?case by (subst config_loop.simps) simp
next
  case (Cons e es)
  obtain k v where e: "e = (k, v)" by (cases e)
  let ?h = "(ck_section k, ck_subsection k)"
  let ?tail = "9 # ck_name k @ bstr '' = '' @ quote_value v @ 10 # entries_text False (Some ?h) es"
  have wf: "wf_section (ck_section k) (ck_subsection k)" "wf_name (ck_name k)" "wf_value v" "wf_config es"
    using Cons.prems(1) by (simp_all add: wf_config_def e)
  then have low: "to_lower (ck_section k) = ck_section k" by (simp add: wf_section_def)
  have "config_loop x cfg (entries_text first current (e # es)) = config_loop (Some ?h) cfg ?tail"
  proof (cases "current = Some ?h")
    case True
    with Cons.prems(2) show ?thesis by (simp add: e)
  next
    case False
    then have "entries_text first current (e # es) = (if first then [] else [10]) @ section_text (ck_section k) (ck_subsection k) @ ?tail"
      by (simp add: e)
    moreover have "config_ws 10" by (simp add: config_ws_def)
    ultimately show ?thesis using config_loop_header [OF wf(1)] by (simp add: config_loop_ws)
  qed
  also have "\<dots> = config_loop (Some ?h) (cfg @ [(k, v)]) (entries_text False (Some ?h) es)"
    unfolding config_loop_entry [OF wf(2,3) low] by (cases k) simp
  also have "\<dots> = Ok ((cfg @ [(k, v)]) @ es)"
    by (rule Cons.IH) (use wf low in auto)
  finally show ?case by (simp add: e)
qed

section \<open>Properties\<close>

text \<open>
  C28. Configuration files keep the configuration that the file format can express: parsing what
  \<open>serialize\<close> prints gives back the same entries in the same order, quotes, escapes, comment
  characters and blanks included, when every entry has a section name of lower-case letters,
  digits, hyphens and dots (no dot if there is no subsection), no line feed in its subsection, a key
  name that begins with a letter and consists of lower-case letters, digits and hyphens, and a value
  that is free of carriage returns and form feeds or that the printer quotes (\<open>wf_config\<close>).
  \<open>Key::new\<close> and \<open>set\<close> do not check this; the theorems after this one show what is lost otherwise.
\<close>

theorem config_roundtrip:
  assumes "wf_config cfg"
  shows "config_parse (config_serialize cfg) = Ok cfg"
proof -
  have "config_serialize cfg = entries_text True None cfg" by (simp add: config_serialize_def serialize_loop_text)
  moreover have "strip_prefix [0xEF, 0xBB, 0xBF] (entries_text True None cfg) = None"
    by (cases cfg) (auto simp: Let_def section_text_def split: option.split)
  ultimately show ?thesis using config_loop_entries [OF assms, of None None "[]" True] by (simp add: config_parse_def)
qed

theorem config_roundtrip_witness:
  "config_parse (config_serialize
     [(\<lparr>ck_section = bstr ''remote'', ck_subsection = Some (bstr ''o\"x''), ck_name = bstr ''url''\<rparr>, bstr '' a # b''),
      (\<lparr>ck_section = bstr ''core'', ck_subsection = None, ck_name = bstr ''bare''\<rparr>, [])]) =
   Ok [(\<lparr>ck_section = bstr ''remote'', ck_subsection = Some (bstr ''o\"x''), ck_name = bstr ''url''\<rparr>, bstr '' a # b''),
      (\<lparr>ck_section = bstr ''core'', ck_subsection = None, ck_name = bstr ''bare''\<rparr>, [])]"
  by (rule config_roundtrip) code_simp

text \<open>
  Setting a key and reading keys agree: after \<open>set\<close> the key, in any letter case of its section
  and name, has exactly the new value (all earlier values are gone), every other key keeps all its
  values in order, and the boolean reading follows git's words for true.
\<close>

theorem config_set_get:
  fixes cfg s ss n v
  defines "cfg' \<equiv> config_set cfg s ss n v"
  shows "config_get_all cfg' s' ss' n' =
      (if to_lower s' = to_lower s \<and> ss' = ss \<and> to_lower n' = to_lower n then [v] else config_get_all cfg s' ss' n')
    \<and> config_get cfg' s' ss' n' = (if config_get_all cfg' s' ss' n' = [] then None else Some (last (config_get_all cfg' s' ss' n')))
    \<and> config_get_bool cfg' s ss n = Some (to_lower v \<in> bstr ` {''true'', ''yes'', ''on'', ''1''})"
proof -
  have key: "key_new s' ss' n' = key_new s ss n \<longleftrightarrow> to_lower s' = to_lower s \<and> ss' = ss \<and> to_lower n' = to_lower n" for s' ss' n'
    by (auto simp: key_new_def)
  have get: "config_get c s' ss' n' = (if config_get_all c s' ss' n' = [] then None else Some (last (config_get_all c s' ss' n')))" for c s' ss' n'
  proof (induction c rule: rev_induct)
    case (snoc x c)
    then show ?case by (cases x) (auto simp: config_get_def config_get_all_def)
  qed (simp add: config_get_def config_get_all_def)
  have all: "config_get_all cfg' s' ss' n' = (if key_new s' ss' n' = key_new s ss n then [v] else config_get_all cfg s' ss' n')" for s' ss' n'
    by (auto simp: config_get_all_def config_set_def cfg'_def Let_def filter_empty_conv intro!: arg_cong [where f = "map snd"] filter_cong)
  have "config_get cfg' s ss n = Some v" unfolding get all by simp
  then have "config_get_bool cfg' s ss n = Some (to_lower v \<in> bstr ` {''true'', ''yes'', ''on'', ''1''})"
    by (simp add: config_get_bool_def parse_bool_def)
  then show ?thesis using get [of cfg' s' ss' n'] all [of s' ss' n'] unfolding key by simp
qed

text \<open>
  A value that ends in a carriage return is not kept: the printer neither quotes nor escapes it,
  and the parser takes it for trailing white space.
\<close>

theorem config_loses_carriage_return:
  "config_parse (config_serialize
     [(\<lparr>ck_section = bstr ''core'', ck_subsection = None, ck_name = bstr ''path''\<rparr>, bstr ''x'' @ [13])]) =
   Ok [(\<lparr>ck_section = bstr ''core'', ck_subsection = None, ck_name = bstr ''path''\<rparr>, bstr ''x'')]"
  by code_simp

text \<open>
  \<open>set\<close> takes any name: a key name with an underscore is printed and then refused by the parser, and
  a section name with a dot and no subsection is read back as a section with a subsection.
\<close>

theorem config_set_unreadable:
  "is_err (config_parse (config_serialize (config_set [] (bstr ''user'') None (bstr ''my_name'') (bstr ''x''))))"
  by code_simp

theorem config_set_dotted_section:
  "config_parse (config_serialize (config_set [] (bstr ''a.b'') None (bstr ''c'') (bstr ''x''))) =
   Ok [(\<lparr>ck_section = bstr ''a'', ck_subsection = Some (bstr ''b''), ck_name = bstr ''c''\<rparr>, bstr ''x'')]"
  by code_simp

end
