(* ===== verification/Refs.thy ===== *)
theory Refs
  imports Vfs Oid
begin

text \<open>
  References (src/src/refs.rs): the rules for names, the contents of a loose ref file, the
  \<open>packed-refs\<close> file, and the store that looks refs up, follows symbolic ones, updates them under
  a lock file and deletes them. The store's filesystem is the model of Vfs.thy; its listing
  (\<open>list\<close>, over directory listings in no fixed order) is left out.
\<close>

section \<open>Model\<close>

subsection \<open>Names and values\<close>

definition contains_sub :: "bytes \<Rightarrow> bytes \<Rightarrow> bool" where
  "contains_sub pat s \<longleftrightarrow> find_sub pat s \<noteq> None"

definition is_valid_ref_name :: "bytes \<Rightarrow> bool" where
  "is_valid_ref_name name =
     (if name = [] \<or> name = bstr ''@'' then False
      else if starts_with [47] name \<or> ends_with [47] name \<or> contains_sub (bstr ''//'') name then False
      else if contains_sub (bstr ''..'') name \<or> contains_sub ([64, 123]) name then False
      else if ends_with [46] name \<or> ends_with (bstr ''.lock'') name then False
      else if list_ex (\<lambda>c. c = [] \<or> starts_with [46] c \<or> ends_with (bstr ''.lock'') c) (split_on 47 name) then False
      else list_all (\<lambda>b. \<not> (b \<le> 0x20 \<or> b = 0x7f) \<and> b \<notin> set (bstr ''~^:?*['') \<and> b \<noteq> 92) name)"

datatype reference = Direct object_id | Symbolic bytes

definition reference_parse :: "hash_algo \<Rightarrow> bytes \<Rightarrow> reference result" where
  "reference_parse a contents =
     bind_res (from_utf8 contents (Reference ''non-utf8 ref contents'')) (\<lambda>t.
       let text = str_trim t
       in case strip_prefix (bstr ''ref:'') text of
            Some target \<Rightarrow>
              (let target = str_trim target
               in if \<not> is_valid_ref_name target
                  then Err (Reference ''symbolic ref target is not a valid name: {target:?}'')
                  else Ok (Symbolic target))
          | None \<Rightarrow> bind_res (from_hex a text) (\<lambda>i. Ok (Direct i)))"

fun to_file_contents :: "reference \<Rightarrow> bytes" where
  "to_file_contents (Direct i) = to_hex i @ [10]"
| "to_file_contents (Symbolic target) = bstr ''ref: '' @ target @ [10]"

subsection \<open>packed-refs\<close>

record packed_ref =
  pr_name :: bytes
  pr_id :: object_id
  pr_peeled :: "object_id option"

definition packed_lines :: "packed_ref \<Rightarrow> bytes" where
  "packed_lines e =
     to_hex (pr_id e) @ [32] @ pr_name e @ [10]
     @ (case pr_peeled e of Some p \<Rightarrow> [94] @ to_hex p @ [10] | None \<Rightarrow> [])"

definition serialize_packed_refs :: "packed_ref list \<Rightarrow> bytes" where
  "serialize_packed_refs es =
     bstr ''# pack-refs with: peeled fully-peeled sorted '' @ [10] @ concat (map packed_lines es)"

fun packed_loop :: "hash_algo \<Rightarrow> packed_ref list \<Rightarrow> bool \<Rightarrow> bytes list \<Rightarrow> packed_ref list result" where
  "packed_loop a out last_skipped [] = Ok out"
| "packed_loop a out last_skipped (line # ls) =
     (if line = [] \<or> starts_with [35] line then packed_loop a out last_skipped ls
      else
        (case strip_prefix [94] line of
           Some peel \<Rightarrow>
             bind_res (from_hex a (str_trim peel)) (\<lambda>i.
               if last_skipped then packed_loop a out last_skipped ls
               else if out = [] then Err (Reference ''packed-refs: peel line without ref'')
               else packed_loop a (butlast out @ [(last out)\<lparr>pr_peeled := Some i\<rparr>]) last_skipped ls)
         | None \<Rightarrow>
             bind_res (ok_or (split_once 32 line) (Reference ''packed-refs: malformed line'')) (\<lambda>(oid, name).
               let name = str_trim name
               in if \<not> is_valid_ref_name name then packed_loop a out True ls
                  else
                    bind_res (from_hex a (str_trim oid)) (\<lambda>i.
                      packed_loop a (out @ [\<lparr>pr_name = name, pr_id = i, pr_peeled = None\<rparr>]) False ls))))"

definition parse_packed_refs :: "hash_algo \<Rightarrow> bytes \<Rightarrow> packed_ref list result" where
  "parse_packed_refs a contents =
     bind_res (from_utf8 contents (Reference ''non-utf8 packed-refs'')) (\<lambda>text.
       packed_loop a [] False (str_lines text))"

subsection \<open>The store\<close>

definition PACKED_REFS :: bytes where
  "PACKED_REFS = bstr ''packed-refs''"

definition MAX_SYMREF_DEPTH :: nat where
  "MAX_SYMREF_DEPTH = 5"

definition ref_packed :: "hash_algo \<Rightarrow> vfs \<Rightarrow> packed_ref list result" where
  "ref_packed a v =
     (if \<not> vfs_exists v PACKED_REFS then Ok []
      else bind_res (vfs_read v PACKED_REFS) (parse_packed_refs a))"

definition ref_lookup :: "hash_algo \<Rightarrow> vfs \<Rightarrow> bytes \<Rightarrow> reference result" where
  "ref_lookup a v name =
     (if vfs_exists v name then bind_res (vfs_read v name) (reference_parse a)
      else
        bind_res (ref_packed a v) (\<lambda>es.
          case find (\<lambda>e. pr_name e = name) es of
            Some e \<Rightarrow> Ok (Direct (pr_id e))
          | None \<Rightarrow> Err (NotFound (HintReference name))))"

fun ref_resolve_loop :: "hash_algo \<Rightarrow> vfs \<Rightarrow> nat \<Rightarrow> bytes \<Rightarrow> object_id result" where
  "ref_resolve_loop a v 0 current = Err (Reference ''symref chain too deep starting at {name}'')"
| "ref_resolve_loop a v (Suc n) current =
     bind_res (ref_lookup a v current) (\<lambda>r.
       case r of Direct i \<Rightarrow> Ok i | Symbolic target \<Rightarrow> ref_resolve_loop a v n target)"

definition ref_resolve :: "hash_algo \<Rightarrow> vfs \<Rightarrow> bytes \<Rightarrow> object_id result" where
  "ref_resolve a v name = ref_resolve_loop a v MAX_SYMREF_DEPTH name"

definition lock_name :: "bytes \<Rightarrow> bytes" where
  "lock_name name = name @ bstr ''.lock''"

text \<open>The two steps of \<open>update\<close>: taking the lock with the new contents, and moving it into place.\<close>

definition lock_ref :: "vfs \<Rightarrow> bytes \<Rightarrow> reference \<Rightarrow> unit result \<times> vfs" where
  "lock_ref v name r =
     (case vfs_create_new v (lock_name name) (to_file_contents r) of
        (Err _, v1) \<Rightarrow>
          (Err (Reference ''cannot lock ref {name:?}: it is already locked (another update in progress?)''), v1)
      | (Ok _, v1) \<Rightarrow> (Ok (), v1))"

definition commit_ref :: "vfs \<Rightarrow> bytes \<Rightarrow> unit result \<times> vfs" where
  "commit_ref v name =
     (case vfs_rename v (lock_name name) name of
        (Ok _, v1) \<Rightarrow> (Ok (), v1)
      | (Err e, v1) \<Rightarrow> (Err e, snd (vfs_remove_file v1 (lock_name name))))"

definition ref_update :: "vfs \<Rightarrow> bytes \<Rightarrow> reference \<Rightarrow> unit result \<times> vfs" where
  "ref_update v name r =
     (if \<not> is_valid_ref_name name \<and> name \<noteq> bstr ''HEAD'' then (Err (Reference ''invalid ref name {name:?}''), v)
      else
        (case lock_ref v name r of
           (Err e, v1) \<Rightarrow> (Err e, v1)
         | (Ok _, v1) \<Rightarrow> commit_ref v1 name))"

definition ref_delete :: "hash_algo \<Rightarrow> vfs \<Rightarrow> bytes \<Rightarrow> unit result \<times> vfs" where
  "ref_delete a v name =
     (case (if vfs_exists v name then vfs_remove_file v name else (Ok (), v)) of
        (Err e, v1) \<Rightarrow> (Err e, v1)
      | (Ok _, v1) \<Rightarrow>
          if vfs_exists v1 PACKED_REFS then
            (case bind_res (vfs_read v1 PACKED_REFS) (parse_packed_refs a) of
               Err e \<Rightarrow> (Err e, v1)
             | Ok es \<Rightarrow>
                 if list_ex (\<lambda>e. pr_name e = name) es
                 then vfs_write v1 PACKED_REFS (serialize_packed_refs (filter (\<lambda>e. pr_name e \<noteq> name) es))
                 else (Ok (), v1))
          else (Ok (), v1))"

section \<open>Lemmas\<close>

subsection \<open>Names\<close>

lemma valid_name_components:
  assumes "is_valid_ref_name name" and "c \<in> set (split_on 47 name)"
  shows "c \<noteq> [] \<and> \<not> starts_with [46] c \<and> \<not> ends_with (bstr ''.lock'') c \<and> c \<noteq> [46] \<and> c \<noteq> [46, 46]"
  using assms by (auto simp: is_valid_ref_name_def list_ex_iff starts_with_def split: if_splits)

lemma resolve_valid:
  assumes "is_valid_ref_name name"
  shows "resolve name = Ok (split_on 47 name)"
proof -
  have c: "c \<noteq> [] \<and> c \<noteq> [46] \<and> c \<noteq> [46, 46] \<and> 47 \<notin> set c" if "c \<in> set (split_on 47 name)" for c
    using valid_name_components [OF assms that] split_on_no_sep [OF that] by simp
  have "resolve (join_with 47 (split_on 47 name)) = Ok (split_on 47 name)"
    by (rule resolve_plain) (use c in auto)
  then show ?thesis by (simp add: join_split)
qed

lemma str_trim_newline:
  assumes "s \<noteq> []" and "graphic (hd s)" and "graphic (last s)"
  shows "str_trim (s @ [10]) = s"
proof -
  have "trim_start (s @ [10]) = s @ [10]" using assms by (intro trim_start_graphic) auto
  moreover have "trim_start_rev (10 # rev s) = trim_start_rev (rev s)"
    by (cases "rev s" rule: trim_start_rev.cases) (simp_all add: ascii_ws_def)
  moreover have "trim_start_rev (rev s) = rev s" using assms by (intro trim_start_rev_graphic) (auto simp: hd_rev)
  ultimately show ?thesis by (simp add: str_trim_def)
qed

lemma str_trim_blank:
  assumes "s \<noteq> []" and "graphic (hd s)" and "graphic (last s)"
  shows "str_trim (32 # s) = s"
proof -
  have "trim_start (32 # s) = trim_start s"
    by (cases s rule: trim_start.cases) (simp_all add: ascii_ws_def)
  then show ?thesis using assms str_trim_graphic [of s] by (simp add: str_trim_def)
qed

text \<open>Names and values that reading gives back: valid, and not trimmed at the ends.\<close>

definition plain_name :: "bytes \<Rightarrow> bool" where
  "plain_name n \<longleftrightarrow> is_valid_ref_name n \<and> utf8_valid n \<and> graphic (hd n) \<and> graphic (last n)"

fun wf_reference :: "hash_algo \<Rightarrow> reference \<Rightarrow> bool" where
  "wf_reference a (Direct i) \<longleftrightarrow> wf_oid i \<and> oid_algo i = a"
| "wf_reference a (Symbolic t) \<longleftrightarrow> plain_name t"

lemma valid_name_nonempty: "is_valid_ref_name n \<Longrightarrow> n \<noteq> []"
  by (auto simp: is_valid_ref_name_def)

lemma plain_name_nonempty: "plain_name n \<Longrightarrow> n \<noteq> []"
  by (simp add: plain_name_def valid_name_nonempty)

lemma to_hex_letters: "c \<in> set (to_hex i) \<Longrightarrow> c \<noteq> 114 \<and> c \<noteq> 35 \<and> c \<noteq> 94"
proof -
  have d: "hex_digit n \<noteq> 114 \<and> hex_digit n \<noteq> 35 \<and> hex_digit n \<noteq> 94" if "unat n < 16" for n :: byte
    using less16_cases [OF that] by (auto simp: hex_digit_def)
  have "c \<in> set (hex_lower bs) \<Longrightarrow> c \<noteq> 114 \<and> c \<noteq> 35 \<and> c \<noteq> 94" for bs
  proof (induction bs)
    case (Cons b bs)
    then show ?case using d [of "drop_bit 4 b"] d [of "b AND 0xf"] nibble_bounds [of b] by (auto simp: hex_lower_Cons)
  qed (simp add: hex_lower_def)
  then show "c \<in> set (to_hex i) \<Longrightarrow> c \<noteq> 114 \<and> c \<noteq> 35 \<and> c \<noteq> 94" by (simp add: to_hex_def)
qed

lemma to_hex_starts:
  assumes "wf_oid i"
  shows "\<exists>c r. to_hex i = c # r \<and> c \<noteq> 114 \<and> c \<noteq> 35 \<and> c \<noteq> 94"
  using to_hex_nonempty [OF assms] to_hex_letters [of "hd (to_hex i)" i] by (cases "to_hex i") auto

lemma from_utf8_valid: "utf8_valid s \<Longrightarrow> from_utf8 s e = Ok s"
  by (simp add: from_utf8_def)

lemma reference_roundtrip:
  assumes "wf_reference a r"
  shows "reference_parse a (to_file_contents r) = Ok r"
proof (cases r)
  case (Direct i)
  with assms have i: "wf_oid i" "oid_algo i = a" by simp_all
  obtain c h where c: "to_hex i = c # h" "c \<noteq> 114" using to_hex_starts [OF i(1)] by blast
  have g: "\<And>x. x \<in> set (to_hex i) \<Longrightarrow> graphic x" by (rule to_hex_graphic)
  have "str_trim (to_hex i @ [10]) = to_hex i"
    using c(1) by (intro str_trim_newline) (auto intro!: g)
  moreover have "strip_prefix (bstr ''ref:'') (to_hex i) = None" using c by simp
  moreover have "utf8_valid (to_hex i @ [10])" by (intro utf8_valid_append to_hex_utf8 utf8_valid_ascii) simp
  ultimately show ?thesis
    using from_hex_to_hex [OF i] by (simp add: Direct reference_parse_def from_utf8_valid)
next
  case (Symbolic t)
  with assms have t: "is_valid_ref_name t" "utf8_valid t" "graphic (hd t)" "graphic (last t)" "t \<noteq> []"
    by (simp_all add: plain_name_def valid_name_nonempty)
  have "str_trim ((bstr ''ref: '' @ t) @ [10]) = bstr ''ref: '' @ t"
    using t by (intro str_trim_newline) (simp_all add: graphic_def)
  moreover have "utf8_valid (bstr ''ref: '' @ t @ [10])"
    by (intro utf8_valid_append t(2) utf8_valid_ascii) auto
  moreover have "strip_prefix (bstr ''ref:'') (bstr ''ref: '' @ t) = Some (32 # t)" by simp
  ultimately show ?thesis
    using str_trim_blank [OF t(5,3,4)] t(1) by (simp add: Symbolic reference_parse_def from_utf8_valid)
qed

subsection \<open>packed-refs\<close>

definition wf_packed_ref :: "hash_algo \<Rightarrow> packed_ref \<Rightarrow> bool" where
  "wf_packed_ref a e \<longleftrightarrow>
     plain_name (pr_name e) \<and> wf_oid (pr_id e) \<and> oid_algo (pr_id e) = a
     \<and> (case pr_peeled e of Some p \<Rightarrow> wf_oid p \<and> oid_algo p = a | None \<Rightarrow> True)"

lemma valid_name_chars: "is_valid_ref_name n \<Longrightarrow> c \<in> set n \<Longrightarrow> c \<noteq> 10 \<and> c \<noteq> 32 \<and> c \<noteq> 13"
proof -
  assume n: "is_valid_ref_name n" "c \<in> set n"
  then have "\<not> (c \<le> 0x20 \<or> c = 0x7f)"
    unfolding is_valid_ref_name_def list_all_iff by (simp only: split: if_split_asm) blast
  then show ?thesis by auto
qed

lemma packed_loop_entry:
  assumes "wf_packed_ref a e"
  shows "packed_loop a out sk (str_lines (packed_lines e @ rest)) = packed_loop a (out @ [e]) False (str_lines rest)"
proof -
  have e: "is_valid_ref_name (pr_name e)" "graphic (hd (pr_name e))" "graphic (last (pr_name e))" "pr_name e \<noteq> []"
      "wf_oid (pr_id e)" "oid_algo (pr_id e) = a"
    using assms by (auto simp: wf_packed_ref_def plain_name_def valid_name_nonempty)
  let ?line = "to_hex (pr_id e) @ 32 # pr_name e"
  let ?peel = "case pr_peeled e of Some p \<Rightarrow> [94] @ to_hex p @ [10] | None \<Rightarrow> []"
  obtain c h where c: "to_hex (pr_id e) = c # h" "c \<noteq> 35" "c \<noteq> 94" using to_hex_starts [OF e(5)] by blast
  have "10 \<notin> set ?line" using valid_name_chars [OF e(1)] to_hex_chars [of _ "pr_id e"] by auto
  moreover have "13 \<notin> set ?line" using valid_name_chars [OF e(1)] to_hex_chars [of _ "pr_id e"] by auto
  moreover have "packed_lines e @ rest = ?line @ 10 # (?peel @ rest)" by (simp add: packed_lines_def)
  ultimately have l: "str_lines (packed_lines e @ rest) = ?line # str_lines (?peel @ rest)"
    using str_lines_append [of ?line "?peel @ rest"] by (simp add: strip_cr_id)
  have "32 \<notin> set (to_hex (pr_id e))" using to_hex_chars by blast
  then have s: "split_once 32 ?line = Some (to_hex (pr_id e), pr_name e)" by (rule split_once_append)
  have not: "\<not> starts_with [35] ?line" "strip_prefix [94] ?line = None" "?line \<noteq> []"
    using c by (auto simp: starts_with_iff)
  have "packed_loop a out sk (str_lines (packed_lines e @ rest)) =
      packed_loop a (out @ [\<lparr>pr_name = pr_name e, pr_id = pr_id e, pr_peeled = None\<rparr>]) False (str_lines (?peel @ rest))"
    unfolding l packed_loop.simps s using not e(1) from_hex_to_hex [OF e(5,6)] str_trim_graphic [OF e(4,2,3)] by simp
  also have "\<dots> = packed_loop a (out @ [e]) False (str_lines rest)"
  proof (cases "pr_peeled e")
    case None
    then show ?thesis by (cases e) simp
  next
    case (Some p)
    with assms have p: "wf_oid p" "oid_algo p = a" by (simp_all add: wf_packed_ref_def)
    have "10 \<notin> set (94 # to_hex p)" "13 \<notin> set (94 # to_hex p)" using to_hex_chars [of _ p] by auto
    then have "str_lines ((94 # to_hex p) @ 10 # rest) = (94 # to_hex p) # str_lines rest"
      by (simp add: str_lines_append strip_cr_id del: append_Cons)
    then have "str_lines (?peel @ rest) = (94 # to_hex p) # str_lines rest" by (simp add: Some)
    then show ?thesis using from_hex_to_hex [OF p] Some by (cases e) (simp add: starts_with_def)
  qed
  finally show ?thesis .
qed

lemma packed_roundtrip:
  assumes "list_all (wf_packed_ref a) es"
  shows "parse_packed_refs a (serialize_packed_refs es) = Ok es"
proof -
  let ?h = "bstr ''# pack-refs with: peeled fully-peeled sorted ''"
  have utf8: "utf8_valid (packed_lines e)" if "wf_packed_ref a e" for e
  proof -
    have line: "utf8_valid (to_hex (pr_id e) @ [32] @ pr_name e @ [10])"
      using that by (intro utf8_valid_append to_hex_utf8) (auto simp: wf_packed_ref_def plain_name_def intro: utf8_valid_ascii)
    have "utf8_valid ([94] @ to_hex p @ [10])" for p
      by (intro utf8_valid_append to_hex_utf8) (auto intro: utf8_valid_ascii)
    then show ?thesis using utf8_valid_append [OF line] line by (auto simp: packed_lines_def split: option.split)
  qed
  have "utf8_valid (concat (map packed_lines es))"
    using assms
  proof (induction es)
    case (Cons e es)
    then show ?case using utf8_valid_append [OF utf8 [of e], of "concat (map packed_lines es)"] by simp
  qed simp
  moreover have "utf8_valid (?h @ [10])" by (rule utf8_valid_ascii) auto
  ultimately have u: "utf8_valid (serialize_packed_refs es)"
    using utf8_valid_append [of "?h @ [10]"] by (simp add: serialize_packed_refs_def)
  have loop: "packed_loop a out sk (str_lines (concat (map packed_lines es))) = Ok (out @ es)" for out sk
    using assms by (induction es arbitrary: out sk) (auto simp: packed_loop_entry)
  have "str_lines (serialize_packed_refs es) = ?h # str_lines (concat (map packed_lines es))"
    using str_lines_append [of ?h "concat (map packed_lines es)"] by (simp add: serialize_packed_refs_def strip_cr_def)
  then show ?thesis
    using u loop [of "[]" False] by (simp add: parse_packed_refs_def from_utf8_valid starts_with_def)
qed

subsection \<open>The lock file\<close>

definition lock_path :: "path \<Rightarrow> path" where
  "lock_path c = butlast c @ [last c @ bstr ''.lock'']"

lemma split_on_append_last:
  "sep \<notin> set ys \<Longrightarrow> split_on sep (xs @ ys) = butlast (split_on sep xs) @ [last (split_on sep xs) @ ys]"
proof (induction xs)
  case Nil
  then show ?case by (simp add: split_on_plain)
next
  case (Cons x xs)
  obtain w ws where w: "split_on sep xs = w # ws" using split_on_nonempty [of sep xs] by (cases "split_on sep xs") auto
  show ?case using Cons by (cases ws) (auto simp: w)
qed

lemma resolve_lock:
  assumes "is_valid_ref_name name"
  shows "resolve (lock_name name) = Ok (lock_path (split_on 47 name))"
proof -
  let ?c = "split_on 47 name"
  have s: "split_on 47 (lock_name name) = lock_path ?c"
    unfolding lock_name_def lock_path_def by (rule split_on_append_last) simp
  have "x \<noteq> [] \<and> x \<noteq> [46] \<and> x \<noteq> [46, 46] \<and> 47 \<notin> set x" if "x \<in> set (lock_path ?c)" for x
  proof -
    have "x \<in> set ?c \<or> x = last ?c @ bstr ''.lock''" using that by (auto simp: lock_path_def dest: in_set_butlastD)
    then show ?thesis
    proof
      assume "x \<in> set ?c"
      then show ?thesis using valid_name_components [OF assms, of x] split_on_no_sep [of x 47 name] by simp
    next
      assume x: "x = last ?c @ bstr ''.lock''"
      have "47 \<notin> set (last ?c)" using split_on_no_sep [of "last ?c" 47 name] by simp
      have no: "47 \<notin> set (l @ bstr ''.lock'')" and len: "l @ bstr ''.lock'' \<notin> {[], [46], [46, 46]}" if "47 \<notin> set l" for l
        using that by (auto simp: append_eq_Cons_conv)
      from no len \<open>47 \<notin> set (last ?c)\<close> show ?thesis unfolding x by blast
    qed
  qed
  then have "resolve (join_with 47 (lock_path ?c)) = Ok (lock_path ?c)"
    by (intro resolve_plain) (auto simp: lock_path_def)
  then show ?thesis using join_split [of 47 "lock_name name"] by (simp add: s)
qed

lemma lock_path_simps [simp]:
  "butlast (lock_path c) = butlast c" "lock_path c \<noteq> []" "length (lock_path c) = Suc (length c - 1)"
  by (simp_all add: lock_path_def)

lemma lock_path_not_name:
  assumes "is_valid_ref_name name"
  shows "lock_path c \<noteq> split_on 47 name"
proof
  assume "lock_path c = split_on 47 name"
  then have "last c @ bstr ''.lock'' \<in> set (split_on 47 name)" by (metis lock_path_def last_in_set last_snoc snoc_eq_iff_butlast)
  then have "\<not> ends_with (bstr ''.lock'') (last c @ bstr ''.lock'')" using valid_name_components [OF assms] by blast
  then show False by (auto simp: ends_with_iff)
qed

lemma lock_path_inject: "c \<noteq> [] \<Longrightarrow> d \<noteq> [] \<Longrightarrow> lock_path c = lock_path d \<longleftrightarrow> c = d"
  by (simp add: lock_path_def) (metis append_butlast_last_id)

lemma split_on_inject: "split_on c xs = split_on c ys \<longleftrightarrow> xs = ys"
  by (metis join_split)

text \<open>What each step does to the tree.\<close>

lemma prefixes_shorter:
  assumes "q \<in> set (prefixes_of (butlast c))" and "c \<noteq> []"
  shows "length q < length c"
proof -
  have "length q \<le> length (butlast c)" using assms(1) by (auto simp: in_prefixes)
  also have "\<dots> < length c" using assms(2) by simp
  finally show ?thesis .
qed

lemma lock_ref_Ok:
  assumes "is_valid_ref_name name" and "lock_ref v name r = (Ok u, v')"
  shows "\<not> is_present v (lock_path (split_on 47 name))
    \<and> (\<forall>q\<in>set (prefixes_of (butlast (split_on 47 name))). files v q = None)
    \<and> v' = v\<lparr>files := (files v)(lock_path (split_on 47 name) \<mapsto> to_file_contents r),
           dirs := dirs v \<union> set (prefixes_of (butlast (split_on 47 name)))\<rparr>"
  using assms
  by (auto simp: lock_ref_def vfs_create_new_def resolve_lock make_dirs_def list_ex_iff is_present_def
      split: prod.splits result.splits if_splits)

lemma lock_ref_Err:
  assumes "lock_ref v name r = (Err e, v')"
  shows "files v' = files v \<and> dirs v \<subseteq> dirs v'"
  using assms
  by (auto simp: lock_ref_def vfs_create_new_def make_dirs_def split: prod.splits result.splits if_splits)

lemma commit_ref_cases:
  assumes "is_valid_ref_name name" and "files v (lock_path (split_on 47 name)) = Some d"
  shows "commit_ref v name =
    (if split_on 47 name \<in> dirs v \<or> butlast (split_on 47 name) \<notin> dirs v
     then (Err (Io ''os''), v\<lparr>files := (files v)(lock_path (split_on 47 name) := None)\<rparr>)
     else (Ok (), v\<lparr>files := (files v)(lock_path (split_on 47 name) := None, split_on 47 name \<mapsto> d)\<rparr>))"
  using assms by (simp add: commit_ref_def vfs_rename_def vfs_remove_file_def resolve_lock resolve_valid)

lemma ref_update_Ok:
  assumes "is_valid_ref_name name" and "ref_update v name r = (Ok u, v')"
  shows "v' = v\<lparr>files := (files v)(split_on 47 name \<mapsto> to_file_contents r),
           dirs := dirs v \<union> set (prefixes_of (butlast (split_on 47 name)))\<rparr>
    \<and> split_on 47 name \<notin> dirs v \<and> (\<forall>q\<in>set (prefixes_of (butlast (split_on 47 name))). files v q = None)"
proof -
  let ?c = "split_on 47 name"
  obtain v1 where l: "lock_ref v name r = (Ok (), v1)" and c: "commit_ref v1 name = (Ok u, v')"
    using assms by (auto simp: ref_update_def split: prod.splits result.splits)
  note lk = lock_ref_Ok [OF assms(1) l]
  then have f: "files v1 (lock_path ?c) = Some (to_file_contents r)" by simp
  have n: "files v (lock_path ?c) = None" using lk by (simp add: is_present_def)
  have d: "?c \<notin> dirs v1 \<and> butlast ?c \<in> dirs v1 \<and> v' = v1\<lparr>files := (files v1)(lock_path ?c := None, ?c \<mapsto> to_file_contents r)\<rparr>"
    using c unfolding commit_ref_cases [OF assms(1) f] by (simp split: if_splits)
  have "(files v)(lock_path ?c := None) = files v" using n by (simp add: fun_upd_idem)
  then show ?thesis using d lk by simp
qed

subsection \<open>The store as a map\<close>

text \<open>What a store says about a name; and the names in use, below \<open>refs/\<close> and \<open>HEAD\<close>.\<close>

definition ref_view :: "hash_algo \<Rightarrow> vfs \<Rightarrow> bytes \<Rightarrow> reference option" where
  "ref_view a v n = (case ref_lookup a v n of Ok r \<Rightarrow> Some r | Err e \<Rightarrow> None)"

definition ref_name :: "bytes \<Rightarrow> bool" where
  "ref_name n \<longleftrightarrow> plain_name n \<and> (n = bstr ''HEAD'' \<or> starts_with (bstr ''refs/'') n)"

lemma ref_name_valid: "ref_name n \<Longrightarrow> is_valid_ref_name n"
  by (simp add: ref_name_def plain_name_def)

lemma PACKED_plain: "resolve PACKED_REFS = Ok [PACKED_REFS]" "split_on 47 PACKED_REFS = [PACKED_REFS]"
  by code_simp+

lemma ref_name_head: "ref_name n \<Longrightarrow> hd (split_on 47 n) \<in> {bstr ''HEAD'', bstr ''refs''} \<and> split_on 47 n \<noteq> [PACKED_REFS]"
proof -
  assume "ref_name n"
  then consider "n = bstr ''HEAD''" | r where "n = bstr ''refs'' @ 47 # r"
    by (auto simp: ref_name_def starts_with_iff)
  then show ?thesis
  proof cases
    case 1
    have "split_on 47 (bstr ''HEAD'') = [bstr ''HEAD'']" "PACKED_REFS \<noteq> bstr ''HEAD''" by code_simp+
    then show ?thesis unfolding 1 by simp
  next
    case (2 r)
    have "split_on 47 n = bstr ''refs'' # split_on 47 r" unfolding 2 by (rule split_on_append) simp
    then show ?thesis by simp
  qed
qed

lemma ref_lookup_valid:
  assumes "is_valid_ref_name n"
  shows "ref_lookup a v n =
    (if files v (split_on 47 n) \<noteq> None \<or> split_on 47 n \<in> dirs v
     then bind_res (ok_or (files v (split_on 47 n)) (Io ''os'')) (reference_parse a)
     else bind_res (ref_packed a v) (\<lambda>es.
            case find (\<lambda>e. pr_name e = n) es of Some e \<Rightarrow> Ok (Direct (pr_id e)) | None \<Rightarrow> Err (NotFound (HintReference n))))"
  by (simp add: ref_lookup_def vfs_exists_def vfs_read_def is_present_def resolve_valid [OF assms])

lemma ref_packed_eq:
  "ref_packed a v =
    (if files v [PACKED_REFS] = None \<and> [PACKED_REFS] \<notin> dirs v then Ok []
     else bind_res (ok_or (files v [PACKED_REFS]) (Io ''os'')) (parse_packed_refs a))"
  by (simp add: ref_packed_def vfs_exists_def vfs_read_def is_present_def PACKED_plain)

lemma join_with_append: "xs \<noteq> [] \<Longrightarrow> ys \<noteq> [] \<Longrightarrow> join_with c (xs @ ys) = join_with c xs @ c # join_with c ys"
proof (induction xs)
  case (Cons x xs)
  then show ?case by (cases xs; cases ys) auto
qed simp

lemma prefix_of_butlast:
  assumes "q \<in> set (prefixes_of (butlast c))"
  obtains k where "k \<le> length c - 1" and "q = take k c"
proof -
  obtain k where k: "k \<le> length (butlast c)" "q = take k (butlast c)" using assms unfolding in_prefixes by blast
  then have "q = take k c" by (simp add: butlast_conv_take)
  then show thesis using that k(1) by simp
qed

lemma prefix_name:
  assumes "split_on 47 n \<in> set (prefixes_of (butlast (split_on 47 name)))"
  shows "starts_with (n @ [47]) name"
proof -
  let ?c = "split_on 47 name"
  obtain k where k: "k \<le> length ?c - 1" "split_on 47 n = take k ?c" by (rule prefix_of_butlast [OF assms])
  have "0 < length ?c" using split_on_nonempty by (metis length_greater_0_conv)
  with k(1) have "drop k ?c \<noteq> []" by (simp del: length_greater_0_conv)
  moreover have "take k ?c \<noteq> []" using k(2) split_on_nonempty by metis
  ultimately have "join_with 47 ?c = join_with 47 (take k ?c) @ 47 # join_with 47 (drop k ?c)"
    by (metis append_take_drop_id join_with_append)
  then show ?thesis using k(2) by (metis append.assoc append_Cons append_Nil join_split starts_with_iff)
qed

lemma update_packed:
  assumes "ref_name name" and "ref_update v name r = (Ok (), v')"
  shows "ref_packed a v' = ref_packed a v"
proof -
  let ?c = "split_on 47 name"
  have u: "v' = v\<lparr>files := (files v)(?c \<mapsto> to_file_contents r), dirs := dirs v \<union> set (prefixes_of (butlast ?c))\<rparr>"
    using ref_update_Ok [OF ref_name_valid [OF assms(1)] assms(2)] by blast
  have "[PACKED_REFS] \<notin> set (prefixes_of (butlast ?c))"
  proof
    assume "[PACKED_REFS] \<in> set (prefixes_of (butlast ?c))"
    then obtain k where k: "k \<le> length ?c - 1" "[PACKED_REFS] = take k ?c" by (rule prefix_of_butlast)
    then have "hd ?c = PACKED_REFS" by (cases ?c; cases k) auto
    moreover have "PACKED_REFS \<notin> {bstr ''HEAD'', bstr ''refs''}" by code_simp
    ultimately show False using ref_name_head [OF assms(1)] by simp
  qed
  moreover have "?c \<noteq> [PACKED_REFS]" using ref_name_head [OF assms(1)] by blast
  ultimately show ?thesis by (simp add: ref_packed_eq u)
qed

lemma update_view:
  assumes "ref_name name" and "wf_reference a r" and "ref_update v name r = (Ok (), v')"
    and "ref_name n" and "\<not> starts_with (n @ [47]) name"
  shows "ref_view a v' n = ((ref_view a v)(name \<mapsto> r)) n"
proof -
  let ?c = "split_on 47 name" and ?p = "split_on 47 n"
  have u: "v' = v\<lparr>files := (files v)(?c \<mapsto> to_file_contents r), dirs := dirs v \<union> set (prefixes_of (butlast ?c))\<rparr>"
    using ref_update_Ok [OF ref_name_valid [OF assms(1)] assms(3)] by blast
  show ?thesis
  proof (cases "n = name")
    case True
    then show ?thesis
      using ref_lookup_valid [OF ref_name_valid [OF assms(1)], of a v'] reference_roundtrip [OF assms(2)]
      by (simp add: ref_view_def u)
  next
    case False
    have p: "?p \<noteq> ?c" "?p \<notin> set (prefixes_of (butlast ?c))"
      using False assms(5) prefix_name by (auto simp: split_on_inject)
    have "ref_packed a v' = ref_packed a v" by (rule update_packed [OF assms(1,3)])
    then have "ref_lookup a v' n = ref_lookup a v n"
      unfolding ref_lookup_valid [OF ref_name_valid [OF assms(4)]] using p by (simp add: u)
    with False show ?thesis by (simp add: ref_view_def)
  qed
qed

lemma find_filter_other: "n \<noteq> name \<Longrightarrow> find (\<lambda>e. pr_name e = n) (filter (\<lambda>e. pr_name e \<noteq> name) es) = find (\<lambda>e. pr_name e = n) es"
  by (induction es) auto

lemma find_filter_self: "find (\<lambda>e. pr_name e = name) (filter (\<lambda>e. pr_name e \<noteq> name) es) = None"
  by (simp add: find_None_iff)

lemma delete_steps:
  assumes "is_valid_ref_name name" and "split_on 47 name \<noteq> [PACKED_REFS]" and "wf_vfs v" and "ref_delete a v name = (Ok (), v')"
  obtains es where "ref_packed a v = Ok es" and "split_on 47 name \<notin> dirs v"
    and "dirs v' = dirs v" and "\<And>q. q \<noteq> split_on 47 name \<Longrightarrow> q \<noteq> [PACKED_REFS] \<Longrightarrow> files v' q = files v q"
    and "files v' (split_on 47 name) = None"
    and "if list_ex (\<lambda>e. pr_name e = name) es
         then files v' [PACKED_REFS] = Some (serialize_packed_refs (filter (\<lambda>e. pr_name e \<noteq> name) es))
         else files v' [PACKED_REFS] = files v [PACKED_REFS]"
proof -
  let ?c = "split_on 47 name"
  note np = assms(2) assms(2) [symmetric]
  define v1 where "v1 = v\<lparr>files := (files v)(?c := None)\<rparr>"
  have nd: "?c \<notin> dirs v"
    using assms(4) assms(3)
    by (auto simp: ref_delete_def vfs_exists_def is_present_def vfs_remove_file_def resolve_valid [OF assms(1)] wf_vfs_def
        split: if_splits)
  have s1: "(if vfs_exists v name then vfs_remove_file v name else (Ok (), v)) = (Ok (), v1)"
    using nd by (auto simp: vfs_exists_def is_present_def vfs_remove_file_def resolve_valid [OF assms(1)] v1_def fun_upd_idem)
  have pk: "ref_packed a v1 = ref_packed a v" using np by (simp add: ref_packed_eq v1_def)
  have ex: "vfs_exists v1 PACKED_REFS \<longleftrightarrow> files v [PACKED_REFS] \<noteq> None \<or> [PACKED_REFS] \<in> dirs v"
    using np by (simp add: vfs_exists_def is_present_def PACKED_plain v1_def)
  show thesis
  proof (cases "vfs_exists v1 PACKED_REFS")
    case False
    then have "ref_packed a v = Ok []" using ex by (simp add: ref_packed_eq)
    moreover have "v' = v1" using assms(4) False by (simp add: ref_delete_def s1)
    ultimately show thesis using nd np by (intro that [of "[]"]) (simp_all add: v1_def)
  next
    case True
    then have "bind_res (vfs_read v1 PACKED_REFS) (parse_packed_refs a) = ref_packed a v" using pk by (simp add: ref_packed_def)
    with assms(4) True obtain es where es: "ref_packed a v = Ok es"
      "(if list_ex (\<lambda>e. pr_name e = name) es
        then vfs_write v1 PACKED_REFS (serialize_packed_refs (filter (\<lambda>e. pr_name e \<noteq> name) es)) else (Ok (), v1)) = (Ok (), v')"
      by (auto simp: ref_delete_def s1 split: result.splits)
    show thesis
    proof (cases "list_ex (\<lambda>e. pr_name e = name) es")
      case False
      then have "v' = v1" using es(2) by simp
      then show thesis using False es(1) nd np by (intro that [of es]) (simp_all add: v1_def)
    next
      case True
      have pre: "prefixes_of [] = [[]]" by (simp add: prefixes_of_def)
      have "[] \<in> dirs v" using assms(3) by (simp add: wf_vfs_def)
      with es(2) True have "v' = v1\<lparr>files := (files v1)([PACKED_REFS] \<mapsto> serialize_packed_refs (filter (\<lambda>e. pr_name e \<noteq> name) es))\<rparr>"
        by (auto simp: vfs_write_def PACKED_plain make_dirs_def pre v1_def insert_absorb split: if_splits)
      then show thesis using True es(1) nd np by (intro that [of es]) (simp_all add: v1_def)
    qed
  qed
qed

lemma delete_packed:
  assumes "ref_name name" and "wf_vfs v" and "ref_delete a v name = (Ok (), v')"
    and "\<And>es. ref_packed a v = Ok es \<Longrightarrow> list_all (wf_packed_ref a) es" and "ref_packed a v = Ok es"
  shows "ref_packed a v' = Ok (filter (\<lambda>e. pr_name e \<noteq> name) es)"
proof -
  note np = ref_name_head [OF assms(1), THEN conjunct2]
  obtain es' where es': "ref_packed a v = Ok es'" "dirs v' = dirs v"
      "if list_ex (\<lambda>e. pr_name e = name) es'
         then files v' [PACKED_REFS] = Some (serialize_packed_refs (filter (\<lambda>e. pr_name e \<noteq> name) es'))
         else files v' [PACKED_REFS] = files v [PACKED_REFS]"
    using delete_steps [OF ref_name_valid [OF assms(1)] np assms(2,3)] by blast
  have es: "es' = es" using es'(1) assms(5) by simp
  show ?thesis
  proof (cases "list_ex (\<lambda>e. pr_name e = name) es")
    case True
    have "list_all (wf_packed_ref a) (filter (\<lambda>e. pr_name e \<noteq> name) es)" using assms(4) [OF assms(5)] by (auto simp: list_all_iff)
    with True es'(3) show ?thesis by (simp add: ref_packed_eq packed_roundtrip es)
  next
    case False
    then have "filter (\<lambda>e. pr_name e \<noteq> name) es = es" by (auto simp: filter_id_conv list_ex_iff)
    moreover have "files v' [PACKED_REFS] = files v [PACKED_REFS]" using False es'(3) by (simp add: es)
    then have "ref_packed a v' = ref_packed a v" by (simp add: ref_packed_eq es'(2))
    ultimately show ?thesis using assms(5) by simp
  qed
qed

lemma delete_view:
  assumes "ref_name name" and "wf_vfs v" and "ref_delete a v name = (Ok (), v')"
    and "\<And>es. ref_packed a v = Ok es \<Longrightarrow> list_all (wf_packed_ref a) es" and "ref_name n"
  shows "ref_view a v' n = ((ref_view a v)(name := None)) n"
proof -
  let ?c = "split_on 47 name" and ?p = "split_on 47 n"
  note np = ref_name_head [OF assms(1), THEN conjunct2]
  obtain es where es: "ref_packed a v = Ok es" "?c \<notin> dirs v" "dirs v' = dirs v"
      "\<And>q. q \<noteq> ?c \<Longrightarrow> q \<noteq> [PACKED_REFS] \<Longrightarrow> files v' q = files v q" "files v' ?c = None"
      "if list_ex (\<lambda>e. pr_name e = name) es
         then files v' [PACKED_REFS] = Some (serialize_packed_refs (filter (\<lambda>e. pr_name e \<noteq> name) es))
         else files v' [PACKED_REFS] = files v [PACKED_REFS]"
    using delete_steps [OF ref_name_valid [OF assms(1)] np assms(2,3)] by blast
  have pk: "ref_packed a v' = Ok (filter (\<lambda>e. pr_name e \<noteq> name) es)"
    by (rule delete_packed [OF assms(1-4) es(1)])
  show ?thesis
  proof (cases "n = name")
    case True
    then show ?thesis
      using es(2,3,5) pk by (simp add: ref_view_def ref_lookup_valid [OF ref_name_valid [OF assms(1)]] find_filter_self)
  next
    case False
    then have "?p \<noteq> ?c" by (simp add: split_on_inject)
    then have "files v' ?p = files v ?p" using es(4) ref_name_head [OF assms(5)] by blast
    then have "ref_lookup a v' n = ref_lookup a v n"
      unfolding ref_lookup_valid [OF ref_name_valid [OF assms(5)]] pk es(1,3) using False by (simp add: find_filter_other)
    with False show ?thesis by (simp add: ref_view_def)
  qed
qed

subsection \<open>The invariant of the store\<close>

definition ref_inv :: "hash_algo \<Rightarrow> vfs \<Rightarrow> bool" where
  "ref_inv a v \<longleftrightarrow> wf_vfs v \<and> (\<forall>es. ref_packed a v = Ok es \<longrightarrow> list_all (wf_packed_ref a) es)"

lemma wf_put_file:
  assumes "wf_vfs v" and "c \<noteq> []" and "c \<notin> dirs v"
    and "\<forall>q\<in>set (prefixes_of (butlast c)). files v q = None"
  shows "wf_vfs (v\<lparr>files := (files v)(c \<mapsto> d), dirs := dirs v \<union> set (prefixes_of (butlast c))\<rparr>)"
proof -
  have "c \<notin> set (prefixes_of (butlast c))" using prefixes_shorter [of c c] assms(2) by blast
  then show ?thesis using assms butlast_prefix by (auto simp: wf_vfs_def)
qed

lemma update_inv:
  assumes "ref_name name" and "ref_inv a v" and "ref_update v name r = (Ok (), v')"
  shows "ref_inv a v'"
proof -
  let ?c = "split_on 47 name"
  have u: "v' = v\<lparr>files := (files v)(?c \<mapsto> to_file_contents r), dirs := dirs v \<union> set (prefixes_of (butlast ?c))\<rparr>"
    and n: "?c \<notin> dirs v" "\<forall>q\<in>set (prefixes_of (butlast ?c)). files v q = None"
    using ref_update_Ok [OF ref_name_valid [OF assms(1)] assms(3)] by blast+
  have "wf_vfs v'" unfolding u using assms(2) n by (intro wf_put_file) (simp_all add: ref_inv_def)
  moreover have "ref_packed a v' = ref_packed a v" by (rule update_packed [OF assms(1,3)])
  ultimately show ?thesis using assms(2) by (simp add: ref_inv_def)
qed

lemma delete_inv:
  assumes "ref_name name" and "ref_inv a v" and "ref_delete a v name = (Ok (), v')"
  shows "ref_inv a v'"
proof -
  have i: "wf_vfs v" "\<And>es. ref_packed a v = Ok es \<Longrightarrow> list_all (wf_packed_ref a) es"
    using assms(2) by (simp_all add: ref_inv_def)
  have p: "[PACKED_REFS] \<noteq> split_on 47 name" using ref_name_head [OF assms(1)] by force
  obtain es where es: "ref_packed a v = Ok es" "dirs v' = dirs v"
      "\<And>q. q \<noteq> split_on 47 name \<Longrightarrow> q \<noteq> [PACKED_REFS] \<Longrightarrow> files v' q = files v q" "files v' (split_on 47 name) = None"
      "if list_ex (\<lambda>e. pr_name e = name) es
         then files v' [PACKED_REFS] = Some (serialize_packed_refs (filter (\<lambda>e. pr_name e \<noteq> name) es))
         else files v' [PACKED_REFS] = files v [PACKED_REFS]"
    using delete_steps [OF ref_name_valid [OF assms(1)] p [symmetric] i(1) assms(3)] by blast
  have "files v' q = None \<or> files v q \<noteq> None" for q
  proof (cases "q = [PACKED_REFS]")
    case True
    have "es = []" if "files v [PACKED_REFS] = None"
      using es(1) that by (simp add: ref_packed_eq split: if_splits)
    then have "files v [PACKED_REFS] \<noteq> None \<or> es = []" by blast
    then show ?thesis using es(5) True by (cases "files v [PACKED_REFS]") (auto split: if_splits)
  next
    case False
    then show ?thesis using es(3,4) by metis
  qed
  then have "\<forall>q. files v' q = None \<or> files v q \<noteq> None" by blast
  then have "dom (files v') \<subseteq> dom (files v)" by (auto simp: dom_def) (metis option.distinct(1))
  then have "wf_vfs v'" using i(1) unfolding wf_vfs_def es(2) by blast
  moreover have "list_all (wf_packed_ref a) (filter (\<lambda>e. pr_name e \<noteq> name) es)" using i(2) [OF es(1)] by (auto simp: list_all_iff)
  moreover have "ref_packed a v' = Ok (filter (\<lambda>e. pr_name e \<noteq> name) es)"
    by (rule delete_packed [OF assms(1) i(1) assms(3) _ es(1)]) (rule i(2))
  ultimately show ?thesis by (simp add: ref_inv_def)
qed

subsection \<open>Following symbolic refs\<close>

text \<open>A chain of symbolic refs of a given length that ends in an object id.\<close>

inductive ref_chain :: "hash_algo \<Rightarrow> vfs \<Rightarrow> nat \<Rightarrow> bytes \<Rightarrow> object_id \<Rightarrow> bool" for a v where
  chain_direct: "ref_lookup a v n = Ok (Direct i) \<Longrightarrow> ref_chain a v 0 n i"
| chain_symbolic: "ref_lookup a v n = Ok (Symbolic t) \<Longrightarrow> ref_chain a v k t i \<Longrightarrow> ref_chain a v (Suc k) n i"

inductive_cases ref_chain_0: "ref_chain a v 0 n i"
inductive_cases ref_chain_Suc: "ref_chain a v (Suc k) n i"
inductive_cases ref_chain_any: "ref_chain a v k n i"

lemma resolve_loop_iff: "ref_resolve_loop a v d n = Ok i \<longleftrightarrow> (\<exists>k<d. ref_chain a v k n i)"
proof (induction d arbitrary: n)
  case (Suc d)
  show ?case
  proof (cases "ref_lookup a v n")
    case (Err e)
    then show ?thesis by (auto elim: ref_chain_any)
  next
    case (Ok r)
    show ?thesis
    proof (cases r)
      case (Direct j)
      with Ok have "ref_chain a v k n i \<longleftrightarrow> k = 0 \<and> i = j" for k by (auto elim: ref_chain_any intro: chain_direct)
      with Ok Direct show ?thesis by auto
    next
      case (Symbolic t)
      with Ok have "ref_chain a v k n i \<longleftrightarrow> (\<exists>k'. k = Suc k' \<and> ref_chain a v k' t i)" for k
        by (auto elim: ref_chain_any intro: chain_symbolic)
      with Ok Symbolic Suc.IH [of t] show ?thesis by auto
    qed
  qed
qed simp

subsection \<open>Writers that compete for locks\<close>

text \<open>
  Writers take the two steps of \<open>update\<close> in any order: each takes the lock with its value, or is
  refused, and later moves the lock file into place (or fails and drops it).
\<close>

record ref_system =
  store :: vfs
  holds :: "nat \<Rightarrow> (bytes \<times> reference) option"

inductive ref_step :: "ref_system \<Rightarrow> ref_system \<Rightarrow> bool" where
  step_lock: "holds s w = None \<Longrightarrow> is_valid_ref_name n \<Longrightarrow> lock_ref (store s) n r = (Ok (), v) \<Longrightarrow>
     ref_step s (s\<lparr>store := v, holds := (holds s)(w \<mapsto> (n, r))\<rparr>)"
| step_refused: "is_valid_ref_name n \<Longrightarrow> lock_ref (store s) n r = (Err e, v) \<Longrightarrow> ref_step s (s\<lparr>store := v\<rparr>)"
| step_commit: "holds s w = Some (n, r) \<Longrightarrow> commit_ref (store s) n = (res, v) \<Longrightarrow>
     ref_step s (s\<lparr>store := v, holds := (holds s)(w := None)\<rparr>)"

definition ref_reachable :: "vfs \<Rightarrow> ref_system \<Rightarrow> bool" where
  "ref_reachable v s \<longleftrightarrow> ref_step\<^sup>*\<^sup>* \<lparr>store = v, holds = (\<lambda>_. None)\<rparr> s"

definition lock_inv :: "ref_system \<Rightarrow> bool" where
  "lock_inv s \<longleftrightarrow>
     (\<forall>w n r. holds s w = Some (n, r) \<longrightarrow>
        is_valid_ref_name n \<and> files (store s) (lock_path (split_on 47 n)) = Some (to_file_contents r)
        \<and> butlast (split_on 47 n) \<in> dirs (store s)
        \<and> (\<forall>w' r'. holds s w' = Some (n, r') \<longrightarrow> w' = w))"

lemma lock_inv_step:
  assumes "ref_step s s'" and "lock_inv s"
  shows "lock_inv s'"
  using assms(1)
proof cases
  case (step_lock w n r v)
  note lk = lock_ref_Ok [OF step_lock(3,4)]
  have other: "m \<noteq> n" if "holds s w' = Some (m, r')" for w' m r'
  proof
    assume "m = n"
    then have "files (store s) (lock_path (split_on 47 n)) \<noteq> None" using assms(2) that by (auto simp: lock_inv_def)
    then show False using lk by (simp add: is_present_def)
  qed
  have "lock_path (split_on 47 m) \<noteq> lock_path (split_on 47 n)" if "m \<noteq> n" for m
    using that by (simp add: lock_path_inject split_on_inject)
  then show ?thesis
    using assms(2) lk step_lock(3) unfolding lock_inv_def step_lock(1)
    by (auto split: if_splits dest: other)
next
  case (step_refused n r e v)
  then show ?thesis using assms(2) lock_ref_Err [OF step_refused(3)] unfolding lock_inv_def by auto
next
  case (step_commit w n r res v)
  have n: "is_valid_ref_name n" "files (store s) (lock_path (split_on 47 n)) = Some (to_file_contents r)"
      "\<And>w' r'. holds s w' = Some (n, r') \<Longrightarrow> w' = w"
    using assms(2) step_commit(2) unfolding lock_inv_def by blast+
  have v: "dirs v = dirs (store s)"
      "\<And>q. q \<noteq> lock_path (split_on 47 n) \<Longrightarrow> q \<noteq> split_on 47 n \<Longrightarrow> files v q = files (store s) q"
    using step_commit(3) unfolding commit_ref_cases [OF n(1,2)] by (auto split: if_splits)
  have f: "files v (lock_path (split_on 47 m)) = files (store s) (lock_path (split_on 47 m))" if "m \<noteq> n" for m
    using that lock_path_not_name [OF n(1)] by (intro v(2)) (auto simp: lock_path_inject split_on_inject)
  show ?thesis
    unfolding lock_inv_def step_commit(1)
  proof (intro allI impI)
    fix w' m r'
    assume "holds (s\<lparr>store := v, holds := (holds s)(w := None)\<rparr>) w' = Some (m, r')"
    then have h: "holds s w' = Some (m, r')" "w' \<noteq> w" by (auto split: if_splits)
    then have "m \<noteq> n" using n(3) by blast
    with h f [of m] assms(2) show "is_valid_ref_name m
        \<and> files (store (s\<lparr>store := v, holds := (holds s)(w := None)\<rparr>)) (lock_path (split_on 47 m)) = Some (to_file_contents r')
        \<and> butlast (split_on 47 m) \<in> dirs (store (s\<lparr>store := v, holds := (holds s)(w := None)\<rparr>))
        \<and> (\<forall>w'' r''. holds (s\<lparr>store := v, holds := (holds s)(w := None)\<rparr>) w'' = Some (m, r'') \<longrightarrow> w'' = w')"
      unfolding lock_inv_def by (auto simp: v(1))
  qed
qed

lemma lock_inv_reachable: "ref_reachable v s \<Longrightarrow> lock_inv s"
proof -
  assume "ref_reachable v s"
  then have "ref_step\<^sup>*\<^sup>* \<lparr>store = v, holds = (\<lambda>_. None)\<rparr> s" by (simp add: ref_reachable_def)
  then show ?thesis
    by (induction rule: rtranclp_induct) (simp add: lock_inv_def, blast intro: lock_inv_step)
qed

lemma finite_holders:
  assumes "ref_reachable v s"
  shows "finite (dom (holds s))"
proof -
  have step: "finite (dom (holds s'))" if "ref_step s s'" "finite (dom (holds s))" for s s'
    using that(1)
  proof cases
    case (step_commit w n r res v)
    have "dom ((holds s)(w := None)) \<subseteq> dom (holds s)" by auto
    then show ?thesis using that(2) finite_subset by (auto simp: step_commit(1))
  qed (use that(2) in auto)
  have "ref_step\<^sup>*\<^sup>* \<lparr>store = v, holds = (\<lambda>_. None)\<rparr> s" using assms by (simp add: ref_reachable_def)
  then show ?thesis by (induction rule: rtranclp_induct) (simp add: dom_def, blast intro: step)
qed

lemma commit_step:
  assumes "lock_inv s" and "holds s w = Some (n, r)"
  shows "\<exists>s'. ref_step s s' \<and> holds s' = (holds s)(w := None)
    \<and> files (store s') (lock_path (split_on 47 n)) = None
    \<and> (split_on 47 n \<notin> dirs (store s) \<longrightarrow> files (store s') (split_on 47 n) = Some (to_file_contents r))"
proof -
  obtain res v where c: "commit_ref (store s) n = (res, v)" by force
  have n: "is_valid_ref_name n" "files (store s) (lock_path (split_on 47 n)) = Some (to_file_contents r)"
      "butlast (split_on 47 n) \<in> dirs (store s)"
    using assms unfolding lock_inv_def by blast+
  have "ref_step s (s\<lparr>store := v, holds := (holds s)(w := None)\<rparr>)" using assms(2) c by (rule step_commit)
  moreover have "files v (lock_path (split_on 47 n)) = None
      \<and> (split_on 47 n \<notin> dirs (store s) \<longrightarrow> files v (split_on 47 n) = Some (to_file_contents r))"
    using c n(3) lock_path_not_name [OF n(1), of "split_on 47 n"]
    unfolding commit_ref_cases [OF n(1,2)] by (auto split: if_splits)
  ultimately show ?thesis by (intro exI [of _ "s\<lparr>store := v, holds := (holds s)(w := None)\<rparr>"]) simp
qed

lemma all_released:
  assumes "finite (dom (holds s))" and "lock_inv s"
  shows "\<exists>s'. ref_step\<^sup>*\<^sup>* s s' \<and> holds s' = (\<lambda>_. None)"
  using assms
proof (induction "card (dom (holds s))" arbitrary: s)
  case 0
  then have "dom (holds s) = {}" by simp
  then have "holds s = (\<lambda>_. None)" by auto
  then show ?case by blast
next
  case (Suc k)
  then obtain w n r where w: "holds s w = Some (n, r)" by (metis card.empty dom_eq_empty_conv nat.distinct(1) not_None_eq surj_pair ext)
  then obtain s' where s': "ref_step s s'" "holds s' = (holds s)(w := None)" using commit_step [OF Suc.prems(2)] by blast
  have d: "dom (holds s') = dom (holds s) - {w}" by (simp add: s'(2))
  have "k = card (dom (holds s'))" "finite (dom (holds s'))"
    unfolding d using Suc.hyps(2) Suc.prems(1) w by (simp_all add: domI)
  then obtain t where "ref_step\<^sup>*\<^sup>* s' t" "holds t = (\<lambda>_. None)"
    using Suc.hyps(1) lock_inv_step [OF s'(1) Suc.prems(2)] by blast
  then show ?case using s'(1) by (meson converse_rtranclp_into_rtranclp)
qed

section \<open>Properties\<close>

text \<open>
  C3. The store refines a map from names to values: under the store's invariant (a well-formed
  tree, a readable \<open>packed-refs\<close>), a successful update binds the name and changes no other name,
  except that a name below which the new one lies (\<open>refs/heads/a\<close> for \<open>refs/heads/a/b\<close>) may be
  hidden; a successful deletion changes no other name, and unbinds its own when \<open>packed-refs\<close> has
  no entry for it. Both keep the invariant. All names are \<open>HEAD\<close> or valid names below \<open>refs/\<close>
  that are UTF-8 and neither begin nor end with a byte that is not graphic (\<open>ref_name\<close>), so
  not, say, a reference called \<open>packed-refs\<close>. What a deletion does to a packed entry of its own
  name, on which the code and its doc comment differ, is the lemma \<open>delete_view\<close>.
\<close>

theorem ref_store_refines_map:
  assumes "ref_inv a v" and "ref_name name"
  shows "(wf_reference a r \<and> ref_update v name r = (Ok (), v') \<longrightarrow>
      ref_inv a v' \<and> (\<forall>n. ref_name n \<and> \<not> starts_with (n @ [47]) name \<longrightarrow> ref_view a v' n = ((ref_view a v)(name \<mapsto> r)) n))
    \<and> (ref_delete a v name = (Ok (), v') \<longrightarrow>
      ref_inv a v' \<and> (\<forall>n. ref_name n \<and> n \<noteq> name \<longrightarrow> ref_view a v' n = ref_view a v n)
      \<and> ((\<forall>es. ref_packed a v = Ok es \<longrightarrow> name \<notin> pr_name ` set es) \<longrightarrow> ref_view a v' name = None))"
  using assms update_inv [OF assms(2,1)] delete_inv [OF assms(2,1)] update_view [OF assms(2)] delete_view [OF assms(2)]
  by (auto simp: ref_inv_def)

theorem ref_store_refines_map_witness:
  "\<exists>v'. ref_update \<lparr>files = Map.empty, dirs = {[]}\<rparr> (bstr ''HEAD'') (Symbolic (bstr ''refs/heads/main'')) = (Ok (), v')
     \<and> ref_view Sha1 v' (bstr ''HEAD'') = Some (Symbolic (bstr ''refs/heads/main''))"
proof -
  let ?v = "\<lparr>files = Map.empty, dirs = {[]}\<rparr>" and ?r = "Symbolic (bstr ''refs/heads/main'')"
  have p: "prefixes_of [] = [[]]" by (simp add: prefixes_of_def)
  have e: "split_on 47 (bstr ''HEAD'') = [bstr ''HEAD'']" "lock_name (bstr ''HEAD'') = bstr ''HEAD.lock''"
      "resolve (bstr ''HEAD'') = Ok [bstr ''HEAD'']" "resolve (bstr ''HEAD.lock'') = Ok [bstr ''HEAD.lock'']"
      "is_valid_ref_name (bstr ''HEAD'')"
    by code_simp+
  have n: "ref_name (bstr ''HEAD'')" "wf_reference Sha1 ?r" by code_simp+
  have i: "ref_inv Sha1 ?v" by (simp add: ref_inv_def ref_packed_eq wf_vfs_def)
  have "\<exists>v'. ref_update ?v (bstr ''HEAD'') ?r = (Ok (), v')"
    unfolding ref_update_def lock_ref_def commit_ref_def vfs_create_new_def vfs_rename_def e
    by (simp add: make_dirs_def p is_present_def)
  then obtain v' where u: "ref_update ?v (bstr ''HEAD'') ?r = (Ok (), v')" by blast
  have "\<not> starts_with (bstr ''HEAD'' @ [47]) (bstr ''HEAD'')" by code_simp
  then have "ref_view Sha1 v' (bstr ''HEAD'') = ((ref_view Sha1 ?v)(bstr ''HEAD'' \<mapsto> ?r)) (bstr ''HEAD'')"
    using ref_store_refines_map [OF i n(1), of ?r v'] u n by blast
  with u show ?thesis by auto
qed

text \<open>
  C9. Resolving a ref: the result is the object id at the end of a chain of at most four symbolic
  refs, and there is a result exactly if such a chain exists; so a cycle or a longer chain is an
  error, never a loop.
\<close>

theorem ref_resolve_iff:
  "ref_resolve a v n = Ok i \<longleftrightarrow> (\<exists>k<5. ref_chain a v k n i)"
  by (simp add: ref_resolve_def MAX_SYMREF_DEPTH_def resolve_loop_iff)

text \<open>
  C5. The lock protocol: in every state that writers reach by locking and committing in any
  order, a ref has at most one holder; whoever else tries to lock it is refused and changes no
  file; and when the holder commits successfully, the ref has the holder's value.
\<close>

theorem ref_locks_exclusive:
  assumes "ref_reachable v0 s" and "holds s w = Some (n, r)"
  shows "(\<forall>w' r'. holds s w' = Some (n, r') \<longrightarrow> w' = w)
    \<and> is_err (fst (lock_ref (store s) n r')) \<and> files (snd (lock_ref (store s) n r')) = files (store s)
    \<and> (wf_reference a r \<and> commit_ref (store s) n = (Ok (), v') \<longrightarrow> ref_lookup a v' n = Ok r)"
proof (intro conjI impI)
  have inv: "lock_inv s" by (rule lock_inv_reachable [OF assms(1)])
  then have n: "is_valid_ref_name n" "files (store s) (lock_path (split_on 47 n)) = Some (to_file_contents r)"
    using assms(2) unfolding lock_inv_def by blast+
  show "\<forall>w' r'. holds s w' = Some (n, r') \<longrightarrow> w' = w" using inv assms(2) unfolding lock_inv_def by blast
  obtain x v1 where l: "lock_ref (store s) n r' = (x, v1)" by force
  have "\<not> lock_ref (store s) n r' = (Ok (), v1)" for v1
    using lock_ref_Ok [OF n(1)] n(2) by (auto simp: is_present_def)
  with l obtain e where x: "x = Err e" by (cases x) auto
  with l lock_ref_Err [of "store s" n r' e v1]
  show "is_err (fst (lock_ref (store s) n r'))" "files (snd (lock_ref (store s) n r')) = files (store s)" by simp_all
  assume "wf_reference a r \<and> commit_ref (store s) n = (Ok (), v')"
  then show "ref_lookup a v' n = Ok r"
    unfolding commit_ref_cases [OF n] ref_lookup_valid [OF n(1)]
    by (auto simp: reference_roundtrip split: if_splits)
qed

text \<open>A run of one writer that holds the lock of \<open>HEAD\<close>.\<close>

lemma lock_head:
  defines "v \<equiv> \<lparr>files = Map.empty, dirs = {[]}\<rparr>"
  shows "\<exists>s. ref_reachable v s \<and> holds s 0 = Some (bstr ''HEAD'', Symbolic (bstr ''refs/heads/main''))"
proof -
  let ?r = "Symbolic (bstr ''refs/heads/main'')"
  have p: "prefixes_of [] = [[]]" by (simp add: prefixes_of_def)
  have e: "lock_name (bstr ''HEAD'') = bstr ''HEAD.lock''" "resolve (bstr ''HEAD.lock'') = Ok [bstr ''HEAD.lock'']"
      "is_valid_ref_name (bstr ''HEAD'')"
    by code_simp+
  have "\<exists>v'. lock_ref v (bstr ''HEAD'') ?r = (Ok (), v')"
    unfolding lock_ref_def vfs_create_new_def e by (simp add: make_dirs_def p is_present_def v_def)
  then obtain v' where "lock_ref v (bstr ''HEAD'') ?r = (Ok (), v')" by blast
  then have "ref_step \<lparr>store = v, holds = (\<lambda>_. None)\<rparr>
      (\<lparr>store = v, holds = (\<lambda>_. None)\<rparr>\<lparr>store := v', holds := (holds \<lparr>store = v, holds = (\<lambda>_. None)\<rparr>)(0 \<mapsto> (bstr ''HEAD'', ?r))\<rparr>)"
    by (intro step_lock e(3)) simp_all
  then show ?thesis unfolding ref_reachable_def by (intro exI conjI) (rule r_into_rtranclp, assumption, simp)
qed

theorem ref_locks_exclusive_witness:
  "\<exists>s. ref_reachable \<lparr>files = Map.empty, dirs = {[]}\<rparr> s \<and> is_err (fst (lock_ref (store s) (bstr ''HEAD'') (Symbolic (bstr ''refs/x''))))"
  using lock_head ref_locks_exclusive by blast

text \<open>
  C8. No writer blocks another for ever: in every reachable state a holder can commit, which
  frees its lock file, stores its value (unless a directory is in the way) and changes no other
  writer's hold; and from there a state in which no lock is held can be reached.
\<close>

theorem ref_lock_progress:
  assumes "ref_reachable v0 s" and "holds s w = Some (n, r)"
  shows "\<exists>s'. ref_step s s' \<and> holds s' = (holds s)(w := None)
    \<and> files (store s') (lock_path (split_on 47 n)) = None
    \<and> (split_on 47 n \<notin> dirs (store s) \<longrightarrow> files (store s') (split_on 47 n) = Some (to_file_contents r))
    \<and> (\<exists>t. ref_step\<^sup>*\<^sup>* s' t \<and> holds t = (\<lambda>_. None))"
proof -
  have inv: "lock_inv s" by (rule lock_inv_reachable [OF assms(1)])
  obtain s' where s': "ref_step s s'" "holds s' = (holds s)(w := None)"
      "files (store s') (lock_path (split_on 47 n)) = None"
      "split_on 47 n \<notin> dirs (store s) \<longrightarrow> files (store s') (split_on 47 n) = Some (to_file_contents r)"
    using commit_step [OF inv assms(2)] by blast
  have "ref_reachable v0 s'" using assms(1) s'(1) by (simp add: ref_reachable_def rtranclp.rtrancl_into_rtrancl)
  then have "\<exists>t. ref_step\<^sup>*\<^sup>* s' t \<and> holds t = (\<lambda>_. None)"
    by (intro all_released finite_holders lock_inv_reachable)
  with s' show ?thesis by blast
qed

theorem ref_lock_progress_witness:
  "\<exists>s s'. ref_reachable \<lparr>files = Map.empty, dirs = {[]}\<rparr> s \<and> ref_step s s' \<and> holds s' 0 = None"
proof -
  obtain s where s: "ref_reachable \<lparr>files = Map.empty, dirs = {[]}\<rparr> s"
      "holds s 0 = Some (bstr ''HEAD'', Symbolic (bstr ''refs/heads/main''))"
    using lock_head by blast
  obtain s' where "ref_step s s'" "holds s' = (holds s)(0 := None)" using ref_lock_progress [OF s] by blast
  then show ?thesis using s(1) by (intro exI [of _ s] exI [of _ s']) simp
qed

end
