(* ===== verification/Ref_List.thy ===== *)
theory Ref_List
  imports Refs Btree_Map
begin

text \<open>
  Listing the references: \<open>RefStore::list\<close> and \<open>collect_loose\<close> of src/src/refs.rs. The walk over
  the directories is recursive; \<open>fuel\<close> bounds its depth, and \<open>ref_list_exact\<close> shows that a fuel
  above the depth of the tree is enough. The names that a listing yields are those of a file
  system: \<open>plain_tree\<close>.
\<close>

section \<open>The walk\<close>

function collect_loose :: "dir_order \<Rightarrow> hash_algo \<Rightarrow> vfs \<Rightarrow> nat \<Rightarrow> bytes \<Rightarrow> (bytes, object_id) btree_map
    \<Rightarrow> (bytes, object_id) btree_map result"
  and collect_entries :: "dir_order \<Rightarrow> hash_algo \<Rightarrow> vfs \<Rightarrow> nat \<Rightarrow> bytes \<Rightarrow> dir_entry list
    \<Rightarrow> (bytes, object_id) btree_map \<Rightarrow> (bytes, object_id) btree_map result" where
  "collect_loose ord a v 0 dir m = Err (Io ''os'')"
| "collect_loose ord a v (Suc fuel) dir m =
     (if \<not> vfs_exists v dir then Ok m
      else bind_res (vfs_read_dir ord v dir) (\<lambda>entries. collect_entries ord a v fuel dir entries m))"
| "collect_entries ord a v fuel dir [] m = Ok m"
| "collect_entries ord a v fuel dir (entry # entries) m =
     (let child = dir @ 47 # de_name entry
      in bind_res
           (if de_type entry = Dir then collect_loose ord a v fuel child m
            else Ok (case ref_resolve a v child of Ok i \<Rightarrow> bt_insert child i m | Err _ \<Rightarrow> m))
           (\<lambda>m'. collect_entries ord a v fuel dir entries m'))"
  by pat_completeness auto
termination
  by (relation "measures
    [case_sum (\<lambda>(ord, a, v, n, d, m). n) (\<lambda>(ord, a, v, n, d, es, m). n),
     case_sum (\<lambda>_. 0) (\<lambda>(ord, a, v, n, d, es, m). Suc (length es))]") auto

definition ref_list :: "dir_order \<Rightarrow> hash_algo \<Rightarrow> vfs \<Rightarrow> nat \<Rightarrow> (bytes, object_id) btree_map result" where
  "ref_list ord a v fuel =
     bind_res (ref_packed a v) (\<lambda>es.
       collect_loose ord a v fuel (bstr ''refs'')
         (foldl (\<lambda>m e. bt_insert (pr_name e) (pr_id e) m) [] es))"

section \<open>What it collects\<close>

text \<open>
  A tree as a file system can hold it: finitely many paths, whose components are text, not
  empty, without a slash, and no \<open>.\<close> or \<open>..\<close>.
\<close>

definition plain_tree :: "vfs \<Rightarrow> bool" where
  "plain_tree v \<longleftrightarrow> wf_vfs v \<and> finite {c. is_present v c}
     \<and> (\<forall>c. is_present v c \<longrightarrow> (\<forall>n\<in>set c. utf8_valid n \<and> n \<noteq> [] \<and> n \<noteq> [46] \<and> n \<noteq> [46, 46] \<and> 47 \<notin> set n))"

definition any_order :: "dir_order \<Rightarrow> bool" where
  "any_order ord \<longleftrightarrow> (\<forall>A. finite A \<longrightarrow> set (ord A) = A)"

text \<open>The files below a directory that resolve, by name.\<close>

definition names_below :: "hash_algo \<Rightarrow> vfs \<Rightarrow> path \<Rightarrow> bytes set" where
  "names_below a v c = {n. \<exists>q. q \<noteq> [] \<and> files v (c @ q) \<noteq> None \<and> n = join_with 47 (c @ q) \<and> is_ok (ref_resolve a v n)}"

definition collected :: "hash_algo \<Rightarrow> vfs \<Rightarrow> bytes set \<Rightarrow> (bytes, object_id) btree_map \<Rightarrow> (bytes, object_id) btree_map \<Rightarrow> bool" where
  "collected a v S m m' \<longleftrightarrow> bt_invar m'
     \<and> (\<forall>n. bt_get m' n = (if n \<in> S then Some (unwrap (ref_resolve a v n)) else bt_get m n))"

lemma collected_refl: "bt_invar m \<Longrightarrow> collected a v {} m m"
  by (simp add: collected_def)

lemma collected_insert: "bt_invar m \<Longrightarrow> ref_resolve a v n = Ok i \<Longrightarrow> collected a v {n} m (bt_insert n i m)"
  by (simp add: collected_def bt_invar_insert bt_get_insert)

lemma collected_trans: "collected a v S m m' \<Longrightarrow> collected a v T m' m'' \<Longrightarrow> collected a v (S \<union> T) m m''"
  by (simp add: collected_def)

lemma plain_components:
  assumes "plain_tree v" and "is_present v c" and "n \<in> set c"
  shows "utf8_valid n \<and> n \<noteq> [] \<and> n \<noteq> [46] \<and> n \<noteq> [46, 46] \<and> 47 \<notin> set n"
  using assms by (simp add: plain_tree_def)

lemma plain_resolve: "plain_tree v \<Longrightarrow> is_present v c \<Longrightarrow> c \<noteq> [] \<Longrightarrow> resolve (join_with 47 c) = Ok c"
  using plain_components by (intro resolve_plain) auto

lemma join_with_last: "c \<noteq> [] \<Longrightarrow> join_with x (c @ [n]) = join_with x c @ x # n"
  by (induction x c rule: join_with.induct) auto

lemma present_butlast:
  assumes "wf_vfs v" and "is_present v (c @ q)" and "q \<noteq> []"
  shows "c \<in> dirs v"
  using assms(2,3)
proof (induction q rule: rev_induct)
  case (snoc n q)
  have "c @ q \<in> dirs v"
    using assms(1) snoc.prems(1) by (auto simp: wf_vfs_def is_present_def dom_def butlast_append split: if_splits)
  with snoc.IH show ?case by (cases "q = []") (auto simp: is_present_def)
qed simp

text \<open>The entries of a directory split what is below it.\<close>

definition child_names :: "hash_algo \<Rightarrow> vfs \<Rightarrow> path \<Rightarrow> bytes \<Rightarrow> bytes set" where
  "child_names a v c n =
     (if c @ [n] \<in> dirs v then names_below a v (c @ [n])
      else {x. x = join_with 47 (c @ [n]) \<and> is_ok (ref_resolve a v x)})"

lemma names_below_children:
  assumes "wf_vfs v"
  shows "names_below a v c = (\<Union>n\<in>{n. is_present v (c @ [n])}. child_names a v c n)" (is "?l = ?r")
proof (intro set_eqI iffI)
  fix x assume "x \<in> ?l"
  then obtain q where q: "q \<noteq> []" "files v (c @ q) \<noteq> None" "x = join_with 47 (c @ q)" "is_ok (ref_resolve a v x)"
    by (auto simp: names_below_def)
  then obtain n r where r: "q = n # r" by (cases q) auto
  show "x \<in> ?r"
  proof (cases "r = []")
    case True
    with q r have "c @ [n] \<notin> dirs v" "is_present v (c @ [n])"
      using assms by (auto simp: wf_vfs_def is_present_def dom_def)
    with q r True show ?thesis by (auto simp: child_names_def)
  next
    case False
    have "is_present v ((c @ [n]) @ r)" using q r by (auto simp: is_present_def)
    from present_butlast [OF assms this False] have d: "c @ [n] \<in> dirs v" .
    moreover have "x \<in> names_below a v (c @ [n])" using q r False by (auto simp: names_below_def)
    ultimately show ?thesis by (auto simp: child_names_def is_present_def)
  qed
next
  fix x assume "x \<in> ?r"
  then obtain n where n: "is_present v (c @ [n])" "x \<in> child_names a v c n" by blast
  show "x \<in> ?l"
  proof (cases "c @ [n] \<in> dirs v")
    case True
    with n(2) obtain q where "q \<noteq> []" "files v (c @ n # q) \<noteq> None" "x = join_with 47 (c @ n # q)" "is_ok (ref_resolve a v x)"
      by (auto simp: child_names_def names_below_def)
    then show ?thesis unfolding names_below_def by blast
  next
    case False
    with n have "files v (c @ [n]) \<noteq> None" "x = join_with 47 (c @ [n])" "is_ok (ref_resolve a v x)"
      by (auto simp: child_names_def is_present_def)
    then show ?thesis unfolding names_below_def by blast
  qed
qed

lemma read_dir_entries:
  assumes "plain_tree v" and "any_order ord" and "c \<in> dirs v" and "c \<noteq> []"
  shows "\<exists>ns. set ns = {n. is_present v (c @ [n])}
    \<and> vfs_read_dir ord v (join_with 47 c) = Ok (map (\<lambda>n. \<lparr>de_name = n, de_type = (if c @ [n] \<in> dirs v then Dir else File)\<rparr>) ns)"
proof -
  let ?N = "{n. is_present v (c @ [n])}"
  have "?N \<subseteq> last ` {c. is_present v c}" by (auto simp: image_iff intro!: exI [of _ "c @ [_]"])
  then have fin: "finite ?N" using assms(1) finite_subset by (auto simp: plain_tree_def)
  then have s: "set (ord ?N) = ?N" using assms(2) by (simp add: any_order_def)
  have "from_utf8_lossy n = n" if "n \<in> set (ord ?N)" for n
    using plain_components [OF assms(1), of "c @ [n]" n] that s by (intro lossy_valid) auto
  then show ?thesis
    using s assms(3) plain_resolve [OF assms(1) _ assms(4)]
    by (intro exI [of _ "ord ?N"]) (simp add: vfs_read_dir_def is_present_def)
qed

lemma collect_loose_correct:
  assumes v: "plain_tree v" and ord: "any_order ord"
  shows "c \<in> dirs v \<Longrightarrow> c \<noteq> [] \<Longrightarrow> \<forall>d\<in>dirs v. length d < length c + fuel \<Longrightarrow> bt_invar m \<Longrightarrow>
    \<exists>m'. collect_loose ord a v fuel (join_with 47 c) m = Ok m' \<and> collected a v (names_below a v c) m m'"
proof (induction fuel arbitrary: c m)
  case 0
  then show ?case by auto
next
  case (Suc fuel)
  let ?entry = "\<lambda>n. \<lparr>de_name = n, de_type = (if c @ [n] \<in> dirs v then Dir else File)\<rparr>"
  have entries: "\<exists>m'. collect_entries ord a v fuel (join_with 47 c) (map ?entry ns) m = Ok m'
      \<and> collected a v (\<Union>n\<in>set ns. child_names a v c n) m m'" if "bt_invar m" for ns m
    using that
  proof (induction ns arbitrary: m)
    case Nil
    then show ?case by (simp add: collected_refl)
  next
    case (Cons n ns)
    have child: "join_with 47 c @ 47 # n = join_with 47 (c @ [n])" using join_with_last [OF Suc.prems(2)] by metis
    have "\<exists>m1. (if c @ [n] \<in> dirs v then collect_loose ord a v fuel (join_with 47 (c @ [n])) m
        else Ok (case ref_resolve a v (join_with 47 (c @ [n])) of Ok i \<Rightarrow> bt_insert (join_with 47 (c @ [n])) i m | Err _ \<Rightarrow> m)) = Ok m1
      \<and> collected a v (child_names a v c n) m m1"
    proof (cases "c @ [n] \<in> dirs v")
      case True
      with Suc.IH [OF True _ _ Cons.prems] Suc.prems(3) show ?thesis by (simp add: child_names_def)
    next
      case False
      then show ?thesis
      proof (cases "ref_resolve a v (join_with 47 (c @ [n]))")
        case (Ok i)
        then have "{x. x = join_with 47 (c @ [n]) \<and> is_ok (ref_resolve a v x)} = {join_with 47 (c @ [n])}" by auto
        with False have "child_names a v c n = {join_with 47 (c @ [n])}" by (simp add: child_names_def)
        with False Ok collected_insert [OF Cons.prems Ok] show ?thesis by simp
      next
        case (Err e)
        then have "{x. x = join_with 47 (c @ [n]) \<and> is_ok (ref_resolve a v x)} = {}" by auto
        with False have "child_names a v c n = {}" by (simp add: child_names_def)
        with False Err collected_refl [OF Cons.prems] show ?thesis by simp
      qed
    qed
    then obtain m1 where m1: "(if c @ [n] \<in> dirs v then collect_loose ord a v fuel (join_with 47 (c @ [n])) m
        else Ok (case ref_resolve a v (join_with 47 (c @ [n])) of Ok i \<Rightarrow> bt_insert (join_with 47 (c @ [n])) i m | Err _ \<Rightarrow> m)) = Ok m1"
      "collected a v (child_names a v c n) m m1" by blast
    from m1(2) have "bt_invar m1" by (simp add: collected_def)
    from Cons.IH [OF this] obtain m2 where m2: "collect_entries ord a v fuel (join_with 47 c) (map ?entry ns) m1 = Ok m2"
      "collected a v (\<Union>n\<in>set ns. child_names a v c n) m1 m2" by blast
    have "collect_entries ord a v fuel (join_with 47 c) (map ?entry (n # ns)) m = Ok m2"
      using m1(1) m2(1) by (simp add: child Let_def split: if_splits)
    moreover have "collected a v (\<Union>n\<in>set (n # ns). child_names a v c n) m m2"
      using collected_trans [OF m1(2) m2(2)] by simp
    ultimately show ?case by blast
  qed
  obtain ns where ns: "set ns = {n. is_present v (c @ [n])}" "vfs_read_dir ord v (join_with 47 c) = Ok (map ?entry ns)"
    using read_dir_entries [OF v ord Suc.prems(1,2)] by blast
  have "vfs_exists v (join_with 47 c)"
    using plain_resolve [OF v _ Suc.prems(2)] Suc.prems(1) by (simp add: vfs_exists_def is_present_def)
  moreover have "wf_vfs v" using v by (simp add: plain_tree_def)
  ultimately show ?case
    using entries [OF Suc.prems(4), of ns] ns by (simp add: names_below_children)
qed

lemma ref_list_spec:
  assumes "plain_tree v" and "any_order ord" and "files v [bstr ''refs''] = None" and "\<forall>d\<in>dirs v. length d < fuel"
  shows "case ref_packed a v of
      Err e \<Rightarrow> ref_list ord a v fuel = Err e
    | Ok es \<Rightarrow> \<exists>m. ref_list ord a v fuel = Ok m \<and> bt_invar m
        \<and> (\<forall>n. bt_get m n =
             (if n \<in> names_below a v [bstr ''refs''] then Some (unwrap (ref_resolve a v n))
              else map_of (rev (map (\<lambda>e. (pr_name e, pr_id e)) es)) n))"
proof (cases "ref_packed a v")
  case (Err e)
  then show ?thesis by (simp add: ref_list_def)
next
  case (Ok es)
  let ?m0 = "foldl (\<lambda>m e. bt_insert (pr_name e) (pr_id e) m) [] es"
  have m0: "bt_invar ?m0 \<and> (\<forall>n. bt_get ?m0 n = map_of (rev (map (\<lambda>e. (pr_name e, pr_id e)) es)) n)"
  proof (induction es rule: rev_induct)
    case Nil
    show ?case by (simp add: bt_get_def bt_invar_def)
  next
    case (snoc e es)
    then show ?case by (simp add: bt_invar_insert bt_get_insert)
  qed
  have refs: "resolve (bstr ''refs'') = Ok [bstr ''refs'']" by code_simp
  have "\<exists>m. collect_loose ord a v fuel (bstr ''refs'') ?m0 = Ok m \<and> collected a v (names_below a v [bstr ''refs'']) ?m0 m"
  proof (cases "[bstr ''refs''] \<in> dirs v")
    case True
    from collect_loose_correct [OF assms(1,2) True _ _ conjunct1 [OF m0], of fuel a] assms(4) show ?thesis
      by (fastforce simp del: bstr_simps)
  next
    case False
    have "names_below a v [bstr ''refs''] = {}"
      using present_butlast [of v "[bstr ''refs'']"] assms(1) False
      by (auto simp: names_below_def plain_tree_def is_present_def simp del: bstr_simps)
    moreover obtain k where "fuel = Suc k" using assms(1,4) by (cases fuel) (auto simp: plain_tree_def wf_vfs_def)
    ultimately show ?thesis
      using False assms(3) refs m0 by (simp add: vfs_exists_def is_present_def collected_refl del: bstr_simps)
  qed
  with Ok m0 show ?thesis by (auto simp: ref_list_def collected_def)
qed

text \<open>
  A reference that is being updated: the lock file below \<open>refs/\<close> is a file that resolves, so
  \<open>list\<close> reports it as a reference of its own until the update is done.
\<close>

lemma resolve_direct_file:
  assumes "resolve n = Ok c" and "files v c = Some (to_file_contents (Direct i))" and "wf_oid i" and "oid_algo i = a"
  shows "ref_resolve a v n = Ok i"
proof -
  have "reference_parse a (to_file_contents (Direct i)) = Ok (Direct i)" using assms(3,4) by (intro reference_roundtrip) simp
  with assms(1,2) show ?thesis
    by (simp add: ref_resolve_def MAX_SYMREF_DEPTH_def eval_nat_numeral ref_lookup_def vfs_exists_def is_present_def vfs_read_def)
qed

lemma list_shows_locks:
  assumes "is_valid_ref_name (bstr ''refs/'' @ r)" and "lock_ref v (bstr ''refs/'' @ r) (Direct i) = (Ok (), v1)"
    and "wf_oid i" and "oid_algo i = a" and "plain_tree v1" and "any_order ord"
    and "\<forall>d\<in>dirs v1. length d < fuel" and "ref_list ord a v1 fuel = Ok m"
  shows "bt_get m (lock_name (bstr ''refs/'' @ r)) = Some i"
proof -
  let ?n = "bstr ''refs/'' @ r"
  have sp: "split_on 47 ?n = bstr ''refs'' # split_on 47 r"
    using split_on_append [of 47 "bstr ''refs''" r] by simp
  then have lp: "lock_path (split_on 47 ?n) = bstr ''refs'' # lock_path (split_on 47 r)"
    by (simp add: lock_path_def split_on_nonempty del: bstr_simps)
  note l = lock_ref_Ok [OF assms(1,2)]
  then have f: "files v1 (lock_path (split_on 47 ?n)) = Some (to_file_contents (Direct i))" by (simp del: bstr_simps)
  have rs: "ref_resolve a v1 (lock_name ?n) = Ok i"
    by (rule resolve_direct_file [OF resolve_lock [OF assms(1)] f assms(3,4)])
  have jn: "lock_name ?n = join_with 47 (lock_path (split_on 47 ?n))"
    using split_on_append_last [of 47 "bstr ''.lock''" ?n] join_split [of 47 "lock_name ?n"]
    by (simp add: lock_name_def lock_path_def)
  have "lock_name ?n \<in> names_below a v1 [bstr ''refs'']"
    unfolding names_below_def using f rs jn lp by (auto simp del: bstr_simps intro!: exI [of _ "lock_path (split_on 47 r)"])
  moreover have "files v1 [bstr ''refs''] = None"
    using present_butlast [of v1 "[bstr ''refs'']" "lock_path (split_on 47 r)"] assms(5) f lp
    by (auto simp: plain_tree_def wf_vfs_def is_present_def dom_def simp del: bstr_simps)
  ultimately show ?thesis
    using ref_list_spec [OF assms(5,6) _ assms(7), of a] assms(8) rs
    by (auto simp del: bstr_simps split: result.splits)
qed

section \<open>Properties\<close>

text \<open>
  C10. \<open>list\<close> is what the store resolves: on a tree as a file system can hold it, with \<open>refs\<close> not a
  file, it returns a sorted map that has, for every file below \<open>refs/\<close> that resolves, the id that
  \<open>resolve\<close> gives for its name, for every other name the packed entry (the last one, if a name is
  packed twice), and nothing else; it fails only when \<open>packed-refs\<close> does not parse. The order in which
  directories are read does not matter, and a fuel above the depth of the tree is enough.
\<close>

theorem ref_list_exact:
  assumes "plain_tree v" and "any_order ord" and "files v [bstr ''refs''] = None" and "\<forall>d\<in>dirs v. length d < fuel"
  shows "case ref_packed a v of
      Err e \<Rightarrow> ref_list ord a v fuel = Err e
    | Ok es \<Rightarrow> \<exists>m. ref_list ord a v fuel = Ok m \<and> bt_invar m
        \<and> (\<forall>n. bt_get m n =
             (if n \<in> names_below a v [bstr ''refs''] then Some (unwrap (ref_resolve a v n))
              else map_of (rev (map (\<lambda>e. (pr_name e, pr_id e)) es)) n))"
  by (rule ref_list_spec [OF assms])

definition one_branch :: vfs where
  "one_branch = \<lparr>files = [[bstr ''refs'', bstr ''heads'', bstr ''main''] \<mapsto> to_file_contents (Direct (zero_oid Sha1))],
     dirs = {[], [bstr ''refs''], [bstr ''refs'', bstr ''heads'']}\<rparr>"

theorem ref_list_exact_witness:
  "\<exists>m. ref_list sorted_list_of_set Sha1 one_branch 3 = Ok m \<and> bt_get m (bstr ''refs/heads/main'') = Some (zero_oid Sha1)"
proof -
  have present: "is_present one_branch c \<longleftrightarrow> c \<in> {[], [bstr ''refs''], [bstr ''refs'', bstr ''heads''],
      [bstr ''refs'', bstr ''heads'', bstr ''main'']}" for c
    by (auto simp: is_present_def one_branch_def simp del: bstr_simps)
  have wf: "wf_vfs one_branch" by (auto simp: wf_vfs_def one_branch_def simp del: bstr_simps)
  have ok: "\<forall>n\<in>{bstr ''refs'', bstr ''heads'', bstr ''main''}. utf8_valid n \<and> n \<noteq> [] \<and> n \<noteq> [46] \<and> n \<noteq> [46, 46] \<and> 47 \<notin> set n"
    by code_simp
  have "plain_tree one_branch"
    unfolding plain_tree_def present using wf ok by (auto simp del: bstr_simps)
  moreover have "any_order sorted_list_of_set" by (simp add: any_order_def)
  moreover have "files one_branch [bstr ''refs''] = None" "\<forall>d\<in>dirs one_branch. length d < 3"
    by (auto simp: one_branch_def simp del: bstr_simps)
  ultimately have "case ref_packed Sha1 one_branch of
      Err e \<Rightarrow> ref_list sorted_list_of_set Sha1 one_branch 3 = Err e
    | Ok es \<Rightarrow> \<exists>m. ref_list sorted_list_of_set Sha1 one_branch 3 = Ok m \<and> bt_invar m
        \<and> (\<forall>n. bt_get m n =
             (if n \<in> names_below Sha1 one_branch [bstr ''refs''] then Some (unwrap (ref_resolve Sha1 one_branch n))
              else map_of (rev (map (\<lambda>e. (pr_name e, pr_id e)) es)) n))"
    by (rule ref_list_exact)
  moreover have "bstr ''packed-refs'' \<noteq> bstr ''refs''" by code_simp
  then have "ref_packed Sha1 one_branch = Ok []"
    using PACKED_plain(1) present by (simp add: ref_packed_def vfs_exists_def PACKED_REFS_def del: bstr_simps)
  ultimately obtain m where m: "ref_list sorted_list_of_set Sha1 one_branch 3 = Ok m"
      "\<And>n. n \<in> names_below Sha1 one_branch [bstr ''refs''] \<Longrightarrow> bt_get m n = Some (unwrap (ref_resolve Sha1 one_branch n))"
    by auto
  have "resolve (bstr ''refs/heads/main'') = Ok [bstr ''refs'', bstr ''heads'', bstr ''main'']"
      "bstr ''refs/heads/main'' = join_with 47 [bstr ''refs'', bstr ''heads'', bstr ''main'']" by code_simp+
  moreover from this(1) have "ref_resolve Sha1 one_branch (bstr ''refs/heads/main'') = Ok (zero_oid Sha1)"
    by (rule resolve_direct_file) (simp_all add: one_branch_def zero_oid_def wf_oid_def del: bstr_simps)
  ultimately have "bstr ''refs/heads/main'' \<in> names_below Sha1 one_branch [bstr ''refs'']"
      "ref_resolve Sha1 one_branch (bstr ''refs/heads/main'') = Ok (zero_oid Sha1)"
    unfolding names_below_def
    by (auto simp: one_branch_def simp del: bstr_simps intro!: exI [of _ "[bstr ''heads'', bstr ''main'']"])
  with m show ?thesis by auto
qed

end
