(* ===== verification/Shallow.thy ===== *)
theory Shallow
  imports Walk
begin

text \<open>
  The two partial traversals of src/src/walk.rs: the depth-limited walk of a shallow fetch and the
  scan for the missing objects below a tree. The recursion of \<open>collect_missing\<close> over the entries
  of nested trees is a list of entries that are left to do.
\<close>

section \<open>Model\<close>

subsection \<open>Shallow fetches\<close>

record shallow_result =
  sr_objects :: "object_id set"
  sr_shallow :: "object_id set"

text \<open>
  What the visit of one object at a depth adds: the boundary, trees, other objects to send, and
  the ids to queue with their depths.
\<close>

definition shallow_visit :: "hash_algo \<Rightarrow> reader \<Rightarrow> nat \<Rightarrow> object_id set \<Rightarrow> object_id \<Rightarrow> nat \<Rightarrow>
    (object_id set \<times> object_id list \<times> object_id set \<times> (object_id \<times> nat) list) result" where
  "shallow_visit a rd depth already i d =
     (case rd i of
        Err e \<Rightarrow> if is_not_found e then Ok ({}, [], {}, []) else Err e
      | Ok (ty, pl) \<Rightarrow>
          (case ty of
             Commit \<Rightarrow>
               bind_res (commit_parse a pl) (\<lambda>c.
                 if depth \<le> d \<or> i \<in> already
                 then Ok (if c_parents c \<noteq> [] then {i} else {}, [c_tree c], {i}, [])
                 else Ok ({}, [c_tree c], {i}, map (\<lambda>p. (p, d + 1)) (c_parents c)))
           | Tag \<Rightarrow> bind_res (tag_parse a pl) (\<lambda>t. Ok ({}, [], {i}, [(t_object t, d)]))
           | Tree \<Rightarrow> Ok ({}, [i], {}, [])
           | Blob \<Rightarrow> Ok ({}, [], {i}, [])))"

definition reached_before :: "(object_id \<rightharpoonup> nat) \<Rightarrow> object_id \<Rightarrow> nat \<Rightarrow> bool" where
  "reached_before best i d \<longleftrightarrow> (case best i of Some prev \<Rightarrow> prev \<le> d | None \<Rightarrow> False)"

lemma shallow_visit_next:
  assumes "shallow_visit a rd depth already i d = Ok (bd, ts, cs, nx)"
  shows "fst ` set nx \<subseteq> known_ids a" and "\<forall>(j, d')\<in>set nx. d' = d \<or> d' = d + 1 \<and> d < depth"
proof -
  have "fst ` set nx \<subseteq> known_ids a \<and> (\<forall>(j, d')\<in>set nx. d' = d \<or> d' = d + 1 \<and> d < depth)"
    using assms
    by (auto simp: shallow_visit_def bind_res_eq_Ok split: result.splits if_splits object_type.splits
        dest!: commit_parse_known tag_parse_known simp: subset_iff)
  then show "fst ` set nx \<subseteq> known_ids a" "\<forall>(j, d')\<in>set nx. d' = d \<or> d' = d + 1 \<and> d < depth" by blast+
qed

text \<open>The termination measure: the room left to improve the depths.\<close>

definition depth_bound :: "nat \<Rightarrow> (object_id \<times> nat) list \<Rightarrow> nat" where
  "depth_bound depth queue = foldr max (map snd queue) depth"

definition depth_room :: "hash_algo \<Rightarrow> nat \<Rightarrow> (object_id \<rightharpoonup> nat) \<Rightarrow> (object_id \<times> nat) list \<Rightarrow> nat" where
  "depth_room a depth best queue =
     (\<Sum>i\<in>fst ` set queue \<union> known_ids a. case best i of Some d \<Rightarrow> d | None \<Rightarrow> Suc (depth_bound depth queue))"

lemma depth_bound_le: "depth_bound depth queue \<le> m \<longleftrightarrow> depth \<le> m \<and> (\<forall>(i, d)\<in>set queue. d \<le> m)"
  by (induction queue) (auto simp: depth_bound_def)

lemma depth_bound_ge: "depth \<le> depth_bound depth queue" "(i, d) \<in> set queue \<Longrightarrow> d \<le> depth_bound depth queue"
  using depth_bound_le [of depth queue "depth_bound depth queue"] by auto

lemma depth_room_less:
  assumes "fst ` set queue' \<union> known_ids a \<subseteq> fst ` set queue \<union> known_ids a"
    and "depth_bound depth queue' \<le> depth_bound depth queue"
    and "(i, d) \<in> set queue" and "\<not> reached_before best i d"
  shows "depth_room a depth (best(i \<mapsto> d)) queue' < depth_room a depth best queue"
proof -
  let ?U = "fst ` set queue \<union> known_ids a"
  let ?f = "\<lambda>b q j. case b j of Some d \<Rightarrow> d | None \<Rightarrow> Suc (depth_bound depth q)"
  have fin: "finite ?U" by (simp add: finite_known_ids)
  have "depth_room a depth (best(i \<mapsto> d)) queue' \<le> (\<Sum>j\<in>?U. ?f (best(i \<mapsto> d)) queue' j)"
    unfolding depth_room_def by (rule sum_mono2 [OF fin assms(1)]) simp
  also have "\<dots> < (\<Sum>j\<in>?U. ?f best queue j)"
  proof (rule sum_strict_mono_ex1 [OF fin])
    have "d \<le> depth_bound depth queue" using assms(3) by (rule depth_bound_ge)
    then have i: "?f (best(i \<mapsto> d)) queue' i < ?f best queue i"
      using assms(4) by (auto simp: reached_before_def split: option.splits)
    moreover have "i \<in> ?U" using assms(3) by force
    ultimately show "\<exists>j\<in>?U. ?f (best(i \<mapsto> d)) queue' j < ?f best queue j" by blast
    show "\<forall>j\<in>?U. ?f (best(i \<mapsto> d)) queue' j \<le> ?f best queue j"
    proof
      fix j
      show "?f (best(i \<mapsto> d)) queue' j \<le> ?f best queue j"
      proof (cases "j = i")
        case False
        then show ?thesis using assms(2) by (auto split: option.split)
      qed (use i in simp)
    qed
  qed
  finally show ?thesis by (simp add: depth_room_def)
qed

lemma depth_room_le:
  assumes "fst ` set queue' \<subseteq> fst ` set queue" and "depth_bound depth queue' \<le> depth_bound depth queue"
  shows "depth_room a depth best queue' \<le> depth_room a depth best queue"
proof -
  have "depth_room a depth best queue' \<le> (\<Sum>i\<in>fst ` set queue \<union> known_ids a.
      case best i of Some d \<Rightarrow> d | None \<Rightarrow> Suc (depth_bound depth queue'))"
    unfolding depth_room_def by (rule sum_mono2) (use assms(1) in \<open>auto simp: finite_known_ids\<close>)
  also have "\<dots> \<le> depth_room a depth best queue"
    unfolding depth_room_def by (rule sum_mono) (use assms(2) in \<open>auto split: option.split\<close>)
  finally show ?thesis .
qed

lemma depth_step_less:
  assumes "\<not> reached_before best i d" and "fst ` set nx \<subseteq> known_ids a"
    and "\<forall>(j, d')\<in>set nx. d' = d \<or> d' = d + 1 \<and> d < depth"
  shows "depth_room a depth (best(i \<mapsto> d)) (queue @ nx) < depth_room a depth best ((i, d) # queue)"
proof -
  have "d' \<le> depth_bound depth ((i, d) # queue)" if "(j, d') \<in> set (queue @ nx)" for j d'
  proof (cases "(j, d') \<in> set queue")
    case True
    then show ?thesis by (intro depth_bound_ge(2) [of j]) simp
  next
    case False
    then have "d' = d \<or> d' = d + 1 \<and> d < depth" using that assms(3) by auto
    then have "d' \<le> d \<or> d' \<le> depth" by auto
    moreover have "d \<le> depth_bound depth ((i, d) # queue)" by (rule depth_bound_ge(2) [of i]) simp
    ultimately show ?thesis using depth_bound_ge(1) [of depth "(i, d) # queue"] by linarith
  qed
  then have "depth_bound depth (queue @ nx) \<le> depth_bound depth ((i, d) # queue)"
    using depth_bound_ge(1) by (simp only: depth_bound_le) blast
  moreover have "fst ` set (queue @ nx) \<union> known_ids a \<subseteq> fst ` set ((i, d) # queue) \<union> known_ids a"
    using assms(2) by auto
  ultimately show ?thesis using assms(1) by (intro depth_room_less) simp_all
qed

lemma shallow_step_less:
  assumes "\<not> reached_before best i d" and "shallow_visit a rd depth already i d = Ok (bd, ts, cs, nx)"
  shows "depth_room a depth (best(i \<mapsto> d)) (queue @ nx) < depth_room a depth best ((i, d) # queue)"
  using depth_step_less [OF assms(1) shallow_visit_next [OF assms(2)]] .

record shallow_state =
  ss_best :: "object_id \<rightharpoonup> nat"
  ss_shallow :: "object_id set"
  ss_trees :: "object_id list"
  ss_commits :: "object_id set"

function shallow_loop :: "hash_algo \<Rightarrow> reader \<Rightarrow> nat \<Rightarrow> object_id set \<Rightarrow> shallow_state \<Rightarrow>
    (object_id \<times> nat) list \<Rightarrow> shallow_state result" where
  "shallow_loop a rd depth already st [] = Ok st"
| "shallow_loop a rd depth already st ((i, d) # queue) =
     (if reached_before (ss_best st) i d then shallow_loop a rd depth already st queue
      else
        bind_res (shallow_visit a rd depth already i d) (\<lambda>(bd, ts, cs, nx).
          shallow_loop a rd depth already
            \<lparr>ss_best = (ss_best st)(i \<mapsto> d), ss_shallow = ss_shallow st \<union> bd,
             ss_trees = ss_trees st @ ts, ss_commits = ss_commits st \<union> cs\<rparr>
            (queue @ nx)))"
  by pat_completeness auto
termination
proof (relation "measures [\<lambda>(a, rd, depth, x, st, queue). depth_room a depth (ss_best st) queue,
      \<lambda>(a, rd, depth, x, st, queue). length queue]", goal_cases)
  case (2 a rd depth already st i d queue)
  have "depth_room a depth (ss_best st) queue \<le> depth_room a depth (ss_best st) ((i, d) # queue)"
    by (rule depth_room_le) (auto simp: depth_bound_def)
  then show ?case by (auto simp: le_less)
qed (auto intro!: disjI1 shallow_step_less)

definition shallow_start :: shallow_state where
  "shallow_start = \<lparr>ss_best = Map.empty, ss_shallow = {}, ss_trees = [], ss_commits = {}\<rparr>"

definition shallow_objects_to_send :: "hash_algo \<Rightarrow> reader \<Rightarrow> object_id list \<Rightarrow> nat \<Rightarrow> object_id set \<Rightarrow> shallow_result result" where
  "shallow_objects_to_send a rd wants depth already =
     bind_res (shallow_loop a rd (max depth 1) already shallow_start (map (\<lambda>w. (w, 1)) wants)) (\<lambda>st.
     bind_res (collect_closure a rd (ss_trees st) {}) (\<lambda>objects.
       Ok \<lparr>sr_objects = objects \<union> ss_commits st, sr_shallow = ss_shallow st\<rparr>))"

subsection \<open>Missing objects below a tree\<close>

lemma room_less:
  assumes "i \<notin> seen" and "finite U" and "U' \<subseteq> U"
  shows "card (U' - insert i seen) < card (insert i U - seen)"
  using assms by (intro psubset_card_mono) auto

function missing_loop :: "hash_algo \<Rightarrow> reader \<Rightarrow> (object_id \<Rightarrow> bool) \<Rightarrow> object_id list \<Rightarrow> object_id set \<Rightarrow>
    (file_mode \<times> object_id) list \<Rightarrow> object_id list result" where
  "missing_loop a rd has missing seen [] = Ok missing"
| "missing_loop a rd has missing seen ((mode, i) # entries) =
     (if mode = Gitlink \<or> i \<in> seen then missing_loop a rd has missing seen entries
      else if mode = MTree then
        (case rd i of
           Err e \<Rightarrow> if is_not_found e then missing_loop a rd has (missing @ [i]) (insert i seen) entries else Err e
         | Ok (ty, pl) \<Rightarrow>
             if ty \<noteq> Tree then missing_loop a rd has missing (insert i seen) entries
             else
               bind_res (tree_parse a pl) (\<lambda>t.
                 missing_loop a rd has missing (insert i seen)
                   (map (\<lambda>e. (te_mode e, te_id e)) (tree_entries t) @ entries)))
      else missing_loop a rd has (if has i then missing else missing @ [i]) (insert i seen) entries)"
  by pat_completeness auto

termination
proof (relation "measures [\<lambda>(a, rd, has, ms, seen, es). card ((snd ` set es \<union> known_ids a) - seen),
      \<lambda>(a, rd, has, ms, seen, es). length es]", goal_cases)
  case (2 a rd has missing seen mode i entries)
  have "card ((snd ` set entries \<union> known_ids a) - seen) \<le> card ((snd ` set ((mode, i) # entries) \<union> known_ids a) - seen)"
    by (rule card_mono) (auto simp: finite_known_ids)
  then show ?case by (auto simp: le_less)
qed (auto intro!: disjI1 room_less simp: finite_known_ids image_Un image_image dest: tree_parse_known)

definition missing_tree_objects :: "hash_algo \<Rightarrow> reader \<Rightarrow> (object_id \<Rightarrow> bool) \<Rightarrow> object_id \<Rightarrow> object_id list result" where
  "missing_tree_objects a rd has tree_id = missing_loop a rd has [] {} [(MTree, tree_id)]"

section \<open>Lemmas\<close>

subsection \<open>Shallow fetches\<close>

text \<open>The ids that the walk reaches, with every depth at which it does.\<close>

inductive near :: "hash_algo \<Rightarrow> reader \<Rightarrow> nat \<Rightarrow> object_id set \<Rightarrow> object_id list \<Rightarrow> object_id \<Rightarrow> nat \<Rightarrow> bool"
  for a rd depth already wants where
  near_want: "w \<in> set wants \<Longrightarrow> near a rd depth already wants w 1"
| near_next: "near a rd depth already wants i d \<Longrightarrow> shallow_visit a rd depth already i d = Ok (bd, ts, cs, nx) \<Longrightarrow>
    (j, e) \<in> set nx \<Longrightarrow> near a rd depth already wants j e"

text \<open>What an object contributes, whatever its depth.\<close>

definition root_tree :: "hash_algo \<Rightarrow> reader \<Rightarrow> object_id \<Rightarrow> object_id \<Rightarrow> bool" where
  "root_tree a rd i t \<longleftrightarrow>
     (\<exists>pl. rd i = Ok (Tree, pl) \<and> t = i \<or> (\<exists>c. rd i = Ok (Commit, pl) \<and> commit_parse a pl = Ok c \<and> t = c_tree c))"

definition sent_itself :: "reader \<Rightarrow> object_id \<Rightarrow> bool" where
  "sent_itself rd i \<longleftrightarrow> (\<exists>ty pl. rd i = Ok (ty, pl) \<and> ty \<noteq> Tree)"

definition has_parents :: "hash_algo \<Rightarrow> reader \<Rightarrow> object_id \<Rightarrow> bool" where
  "has_parents a rd i \<longleftrightarrow> (\<exists>pl c. rd i = Ok (Commit, pl) \<and> commit_parse a pl = Ok c \<and> c_parents c \<noteq> [])"

lemma shallow_visit_Ok:
  assumes "shallow_visit a rd depth already i d = Ok (bd, ts, cs, nx)"
  shows "set ts = {t. root_tree a rd i t}" and "cs = (if sent_itself rd i then {i} else {})"
    and "bd = (if has_parents a rd i \<and> (depth \<le> d \<or> i \<in> already) then {i} else {})"
  using assms
  by (auto simp: shallow_visit_def bind_res_eq_Ok root_tree_def sent_itself_def has_parents_def
      split: result.splits if_splits object_type.splits)

lemma shallow_visit_mono:
  assumes "shallow_visit a rd depth already i d = Ok (bd, ts, cs, nx)" and "d' \<le> d"
  shows "\<exists>bd' nx'. shallow_visit a rd depth already i d' = Ok (bd', ts, cs, nx') \<and> (\<forall>(j, e)\<in>set nx. \<exists>e'\<le>e. (j, e') \<in> set nx')"
proof (cases "\<exists>pl c. rd i = Ok (Commit, pl) \<and> commit_parse a pl = Ok c")
  case True
  then obtain pl c where c: "rd i = Ok (Commit, pl)" "commit_parse a pl = Ok c" by blast
  have v: "shallow_visit a rd depth already i e =
      (if depth \<le> e \<or> i \<in> already then Ok (if c_parents c \<noteq> [] then {i} else {}, [c_tree c], {i}, [])
       else Ok ({}, [c_tree c], {i}, map (\<lambda>p. (p, e + 1)) (c_parents c)))" for e
    by (simp add: shallow_visit_def c)
  show ?thesis
  proof (cases "depth \<le> d' \<or> i \<in> already")
    case True
    then have "depth \<le> d \<or> i \<in> already" using assms(2) by auto
    then show ?thesis using assms(1) True unfolding v by auto
  next
    case False
    have n: "ts = [c_tree c]" "cs = {i}" "set nx \<subseteq> (\<lambda>p. (p, d + 1)) ` set (c_parents c)"
      using assms(1) unfolding v by (auto split: if_splits)
    have "\<exists>e'\<le>e. (j, e') \<in> set (map (\<lambda>p. (p, d' + 1)) (c_parents c))" if "(j, e) \<in> set nx" for j e
      using n(3) that assms(2) by (intro exI [of _ "d' + 1"]) auto
    then show ?thesis using False n(1,2) unfolding v by auto
  qed
next
  case False
  then show ?thesis using assms
    by (fastforce simp: shallow_visit_def bind_res_eq_Ok split: result.splits if_splits object_type.splits)
qed

lemma shallow_visit_no_tag:
  assumes "shallow_visit a rd depth already i d = Ok (bd, ts, cs, nx)" and "\<forall>pl. rd i \<noteq> Ok (Tag, pl)"
  shows "snd ` set nx \<subseteq> {d + 1}"
  using assms
  by (auto simp: shallow_visit_def bind_res_eq_Ok split: result.splits if_splits object_type.splits)

definition covered :: "(object_id \<rightharpoonup> nat) \<Rightarrow> (object_id \<times> nat) list \<Rightarrow> object_id \<Rightarrow> nat \<Rightarrow> bool" where
  "covered best queue j d \<longleftrightarrow> (\<exists>d'\<le>d. best j = Some d' \<or> (j, d') \<in> set queue)"

definition shallow_inv :: "hash_algo \<Rightarrow> reader \<Rightarrow> nat \<Rightarrow> object_id set \<Rightarrow> object_id list \<Rightarrow> shallow_state \<Rightarrow> (object_id \<times> nat) list \<Rightarrow> bool" where
  "shallow_inv a rd depth already wants st queue \<longleftrightarrow>
     (\<forall>(i, d)\<in>set queue. near a rd depth already wants i d)
     \<and> (\<forall>i d. ss_best st i = Some d \<longrightarrow> near a rd depth already wants i d)
     \<and> (\<forall>w\<in>set wants. covered (ss_best st) queue w 1)
     \<and> (\<forall>i d. ss_best st i = Some d \<longrightarrow>
          (\<exists>bd ts cs nx. shallow_visit a rd depth already i d = Ok (bd, ts, cs, nx) \<and> (\<forall>(j, e)\<in>set nx. covered (ss_best st) queue j e)))
     \<and> set (ss_trees st) = {t. \<exists>i\<in>dom (ss_best st). root_tree a rd i t}
     \<and> ss_commits st = {i \<in> dom (ss_best st). sent_itself rd i}
     \<and> ss_shallow st \<subseteq> {i. has_parents a rd i \<and> (\<exists>d. near a rd depth already wants i d \<and> (depth \<le> d \<or> i \<in> already))}
     \<and> (\<forall>i d. ss_best st i = Some d \<and> has_parents a rd i \<and> (depth \<le> d \<or> i \<in> already) \<longrightarrow> i \<in> ss_shallow st)"

lemma covered_step:
  assumes "covered best ((i, d) # queue) j e" and "\<not> reached_before best i d"
  shows "covered (best(i \<mapsto> d)) (queue @ nx) j e"
proof -
  obtain e' where e: "e' \<le> e" "best j = Some e' \<or> (j, e') = (i, d) \<or> (j, e') \<in> set queue"
    using assms(1) by (auto simp: covered_def)
  have "d \<le> e" if "j = i" "best i = Some e'" using assms(2) that e(1) by (simp add: reached_before_def)
  with e show ?thesis by (cases "j = i") (auto simp: covered_def)
qed

lemma covered_skip:
  assumes "covered best ((i, d) # queue) j e" and "reached_before best i d"
  shows "covered best queue j e"
proof -
  obtain p where p: "best i = Some p" "p \<le> d" using assms(2) by (auto simp: reached_before_def split: option.splits)
  obtain e' where "e' \<le> e" "best j = Some e' \<or> (j, e') = (i, d) \<or> (j, e') \<in> set queue"
    using assms(1) by (auto simp: covered_def)
  with p have "\<exists>e''\<le>e. best j = Some e'' \<or> (j, e'') \<in> set queue" by (cases "(j, e') = (i, d)") (auto intro: exI [of _ p])
  then show ?thesis by (simp add: covered_def)
qed

lemma shallow_inv_skip:
  assumes "shallow_inv a rd depth already wants st ((i, d) # queue)" and "reached_before (ss_best st) i d"
  shows "shallow_inv a rd depth already wants st queue"
proof -
  note cov = covered_skip [OF _ assms(2)]
  have "\<exists>bd ts cs nx. shallow_visit a rd depth already i' d' = Ok (bd, ts, cs, nx) \<and> (\<forall>(j, e)\<in>set nx. covered (ss_best st) queue j e)"
    if "ss_best st i' = Some d'" for i' d'
  proof -
    have "\<forall>i' d'. ss_best st i' = Some d' \<longrightarrow> (\<exists>bd ts cs nx. shallow_visit a rd depth already i' d' = Ok (bd, ts, cs, nx)
        \<and> (\<forall>(j, e)\<in>set nx. covered (ss_best st) ((i, d) # queue) j e))"
      using assms(1) unfolding shallow_inv_def by blast
    then obtain bd ts cs nx where v: "shallow_visit a rd depth already i' d' = Ok (bd, ts, cs, nx)"
        "\<forall>(j, e)\<in>set nx. covered (ss_best st) ((i, d) # queue) j e"
      using \<open>ss_best st i' = Some d'\<close> by blast
    then have "\<forall>(j, e)\<in>set nx. covered (ss_best st) queue j e" using cov by blast
    with v(1) show ?thesis by blast
  qed
  moreover have "\<forall>w\<in>set wants. covered (ss_best st) queue w 1" using assms(1) cov unfolding shallow_inv_def by blast
  ultimately show ?thesis using assms(1) unfolding shallow_inv_def by simp
qed

lemma shallow_inv_step:
  assumes inv: "shallow_inv a rd depth already wants st ((i, d) # queue)" and new: "\<not> reached_before (ss_best st) i d"
    and v: "shallow_visit a rd depth already i d = Ok (bd, ts, cs, nx)"
  shows "shallow_inv a rd depth already wants
    \<lparr>ss_best = (ss_best st)(i \<mapsto> d), ss_shallow = ss_shallow st \<union> bd, ss_trees = ss_trees st @ ts, ss_commits = ss_commits st \<union> cs\<rparr>
    (queue @ nx)"
proof -
  note vo = shallow_visit_Ok [OF v]
  note cov = covered_step [OF _ new, of _ _ _ nx]
  have ni: "near a rd depth already wants i d" using inv by (simp add: shallow_inv_def)
  have nn: "near a rd depth already wants j e" if "(j, e) \<in> set nx" for j e using ni v that by (rule near_next)
  have I: "\<forall>(i, d)\<in>set queue. near a rd depth already wants i d"
      "\<And>i d. ss_best st i = Some d \<Longrightarrow> near a rd depth already wants i d"
      "\<And>w. w \<in> set wants \<Longrightarrow> covered (ss_best st) ((i, d) # queue) w 1"
      "\<And>i' d'. ss_best st i' = Some d' \<Longrightarrow> \<exists>bd ts cs nx. shallow_visit a rd depth already i' d' = Ok (bd, ts, cs, nx)
           \<and> (\<forall>(j, e)\<in>set nx. covered (ss_best st) ((i, d) # queue) j e)"
      "set (ss_trees st) = {t. \<exists>i\<in>dom (ss_best st). root_tree a rd i t}"
      "ss_commits st = {i \<in> dom (ss_best st). sent_itself rd i}"
      "ss_shallow st \<subseteq> {i. has_parents a rd i \<and> (\<exists>d. near a rd depth already wants i d \<and> (depth \<le> d \<or> i \<in> already))}"
      "\<And>i d. ss_best st i = Some d \<Longrightarrow> has_parents a rd i \<Longrightarrow> depth \<le> d \<or> i \<in> already \<Longrightarrow> i \<in> ss_shallow st"
    using inv unfolding shallow_inv_def by auto
  let ?b = "(ss_best st)(i \<mapsto> d)"
  have c: "\<exists>bd ts cs nx'. shallow_visit a rd depth already k b = Ok (bd, ts, cs, nx') \<and> (\<forall>(j, e)\<in>set nx'. covered ?b (queue @ nx) j e)"
    if "?b k = Some b" for k b
  proof (cases "k = i")
    case True
    then show ?thesis using that v by (auto simp: covered_def)
  next
    case False
    then have "ss_best st k = Some b" using that by simp
    from I(4) [OF this] show ?thesis using cov by fast
  qed
  show ?thesis
    unfolding shallow_inv_def shallow_state.simps
  proof (intro conjI)
    show "\<forall>(i, d)\<in>set (queue @ nx). near a rd depth already wants i d" using I(1) nn by auto
    show "\<forall>k b. ?b k = Some b \<longrightarrow> near a rd depth already wants k b" using I(2) ni by simp
    show "\<forall>w\<in>set wants. covered ?b (queue @ nx) w 1" using I(3) cov by blast
    show "\<forall>k b. ?b k = Some b \<longrightarrow> (\<exists>bd ts cs nx'. shallow_visit a rd depth already k b = Ok (bd, ts, cs, nx')
        \<and> (\<forall>(j, e)\<in>set nx'. covered ?b (queue @ nx) j e))" using c by blast
    show "set (ss_trees st @ ts) = {t. \<exists>i\<in>dom ?b. root_tree a rd i t}" using I(5) vo(1) by auto
    show "ss_commits st \<union> cs = {i \<in> dom ?b. sent_itself rd i}" using I(6) vo(2) by auto
    show "ss_shallow st \<union> bd \<subseteq> {i. has_parents a rd i \<and> (\<exists>d. near a rd depth already wants i d \<and> (depth \<le> d \<or> i \<in> already))}"
      using I(7) vo(3) ni by auto
    show "\<forall>k b. ?b k = Some b \<and> has_parents a rd k \<and> (depth \<le> b \<or> k \<in> already) \<longrightarrow> k \<in> ss_shallow st \<union> bd"
      using I(8) vo(3) by auto
  qed
qed

lemma shallow_loop_inv:
  assumes "shallow_loop a rd depth already st queue = Ok st'" and "shallow_inv a rd depth already wants st queue"
  shows "shallow_inv a rd depth already wants st' []"
  using assms
proof (induction a rd depth already st queue rule: shallow_loop.induct)
  case (2 a rd depth already st i d queue)
  show ?case
  proof (cases "reached_before (ss_best st) i d")
    case True
    with "2.IH"(1) "2.prems" shallow_inv_skip show ?thesis by auto
  next
    case False
    with "2.prems"(1) obtain bd ts cs nx where v: "shallow_visit a rd depth already i d = Ok (bd, ts, cs, nx)"
      by (auto simp: bind_res_eq_Ok)
    show ?thesis
      using "2.IH"(2) [OF False v refl refl refl] "2.prems"(1) False v shallow_inv_step [OF "2.prems"(2) False v]
      by simp
  qed
qed simp

lemma shallow_inv_end:
  assumes "shallow_inv a rd depth already wants st []" and "near a rd depth already wants i d"
  shows "\<exists>d'\<le>d. ss_best st i = Some d'"
  using assms(2)
proof (induction rule: near.induct)
  case (near_want w)
  then show ?case using assms(1) by (auto simp: shallow_inv_def covered_def)
next
  case (near_next i d bd ts cs nx j e)
  then obtain b where b: "b \<le> d" "ss_best st i = Some b" by blast
  obtain bd' nx' where v: "shallow_visit a rd depth already i b = Ok (bd', ts, cs, nx')" "\<forall>(j, e)\<in>set nx. \<exists>e'\<le>e. (j, e') \<in> set nx'"
    using shallow_visit_mono [OF near_next(2) b(1)] by blast
  obtain e' where e: "e' \<le> e" "(j, e') \<in> set nx'" using v(2) near_next(3) by blast
  have "\<forall>(j, e)\<in>set nx'. covered (ss_best st) [] j e" using assms(1) b(2) v(1) unfolding shallow_inv_def by fastforce
  then have "covered (ss_best st) [] j e'" using e(2) by blast
  then show ?case using e(1) by (auto simp: covered_def)
qed

text \<open>Without tags the depths in the queue never go down, so no object is visited twice.\<close>

definition level_inv :: "hash_algo \<Rightarrow> reader \<Rightarrow> nat \<Rightarrow> object_id set \<Rightarrow> shallow_state \<Rightarrow> (object_id \<times> nat) list \<Rightarrow> bool" where
  "level_inv a rd depth already st queue \<longleftrightarrow>
     sorted (map snd queue) \<and> (\<forall>(i, d)\<in>set queue. d \<le> snd (hd queue) + 1)
     \<and> (\<forall>i b. ss_best st i = Some b \<longrightarrow> (\<forall>(j, d)\<in>set queue. b \<le> d))
     \<and> ss_shallow st = {i. has_parents a rd i \<and> (\<exists>b. ss_best st i = Some b \<and> (depth \<le> b \<or> i \<in> already))}"

lemma level_inv_skip:
  assumes "level_inv a rd depth already st ((i, d) # queue)"
  shows "level_inv a rd depth already st queue"
proof -
  have "d' \<le> snd (hd queue) + 1" if "(j, d') \<in> set queue" for j d'
  proof -
    have "d' \<le> d + 1" using assms that unfolding level_inv_def by fastforce
    moreover have "d \<le> snd (hd queue)" using assms that unfolding level_inv_def by (cases queue) auto
    ultimately show ?thesis by linarith
  qed
  with assms show ?thesis unfolding level_inv_def by auto
qed

lemma level_inv_step:
  assumes inv: "level_inv a rd depth already st ((i, d) # queue)" and new: "\<not> reached_before (ss_best st) i d"
    and v: "shallow_visit a rd depth already i d = Ok (bd, ts, cs, nx)" and tag: "\<forall>pl. rd i \<noteq> Ok (Tag, pl)"
  shows "level_inv a rd depth already
    \<lparr>ss_best = (ss_best st)(i \<mapsto> d), ss_shallow = ss_shallow st \<union> bd, ss_trees = ss_trees st @ ts, ss_commits = ss_commits st \<union> cs\<rparr>
    (queue @ nx)"
proof -
  have nx: "\<And>j e. (j, e) \<in> set nx \<Longrightarrow> e = d + 1" using shallow_visit_no_tag [OF v tag] by force
  have le: "d \<le> e \<and> e \<le> d + 1" if "(j, e) \<in> set (queue @ nx)" for j e
    using that nx inv unfolding level_inv_def by force
  have I: "sorted (map snd queue)" "\<And>k b. ss_best st k = Some b \<Longrightarrow> b \<le> d"
      "ss_shallow st = {i. has_parents a rd i \<and> (\<exists>b. ss_best st i = Some b \<and> (depth \<le> b \<or> i \<in> already))}"
    using inv unfolding level_inv_def by auto
  have none: "ss_best st i = None"
  proof (cases "ss_best st i")
    case (Some b)
    then show ?thesis using I(2) [OF Some] new by (simp add: reached_before_def)
  qed
  have in_left: "(j, e) \<in> set queue \<Longrightarrow> (j, e) \<in> set (queue @ nx)" for j e by simp
  have "map snd nx = replicate (length nx) (d + 1)" using nx by (intro replicate_eqI) auto
  then have "sorted (map snd (queue @ nx))"
    using I(1) by (auto simp: sorted_append dest: le [OF in_left])
  moreover have "e \<le> snd (hd (queue @ nx)) + 1" if "(j, e) \<in> set (queue @ nx)" for j e
  proof -
    have "hd (queue @ nx) \<in> set (queue @ nx)" using that by (intro hd_in_set) auto
    then have "d \<le> snd (hd (queue @ nx))" using le [of "fst (hd (queue @ nx))"] by simp
    then show ?thesis using le [OF that] by linarith
  qed
  moreover have "b \<le> e" if "((ss_best st)(i \<mapsto> d)) k = Some b" "(j, e) \<in> set (queue @ nx)" for k b j e
    using that(1) le [OF that(2)] I(2) [of k b] by (auto split: if_splits)
  moreover have "ss_shallow st \<union> bd = {k. has_parents a rd k \<and> (\<exists>b. ((ss_best st)(i \<mapsto> d)) k = Some b \<and> (depth \<le> b \<or> k \<in> already))}"
    using I(3) shallow_visit_Ok(3) [OF v] none by auto
  ultimately show ?thesis unfolding level_inv_def shallow_state.simps by blast
qed

lemma shallow_loop_level:
  assumes "shallow_loop a rd depth already st queue = Ok st'" and "shallow_inv a rd depth already wants st queue"
    and "level_inv a rd depth already st queue" and "\<forall>i d pl. near a rd depth already wants i d \<longrightarrow> rd i \<noteq> Ok (Tag, pl)"
  shows "level_inv a rd depth already st' []"
  using assms
proof (induction a rd depth already st queue rule: shallow_loop.induct)
  case (2 a rd depth already st i d queue)
  show ?case
  proof (cases "reached_before (ss_best st) i d")
    case True
    with "2.IH"(1) "2.prems" shallow_inv_skip level_inv_skip show ?thesis by auto
  next
    case False
    with "2.prems"(1) obtain bd ts cs nx where v: "shallow_visit a rd depth already i d = Ok (bd, ts, cs, nx)"
      by (auto simp: bind_res_eq_Ok)
    have tag: "\<forall>pl. rd i \<noteq> Ok (Tag, pl)" using "2.prems"(2,4) by (auto simp: shallow_inv_def)
    show ?thesis
      using "2.IH"(2) [OF False v refl refl refl] "2.prems"(1,4) False v
        shallow_inv_step [OF "2.prems"(2) False v] level_inv_step [OF "2.prems"(3) False v tag]
      by simp
  qed
qed simp

subsection \<open>Missing objects\<close>

definition tree_link :: "hash_algo \<Rightarrow> reader \<Rightarrow> (object_id \<times> object_id) set" where
  "tree_link a rd =
     {(i, j). \<exists>pl t e. rd i = Ok (Tree, pl) \<and> tree_parse a pl = Ok t \<and> e \<in> set (tree_entries t) \<and> te_mode e \<noteq> Gitlink \<and> j = te_id e}"

text \<open>The entries of trees have the mode of what they name: only a tree entry names a tree.\<close>

definition modes_agree :: "hash_algo \<Rightarrow> reader \<Rightarrow> bool" where
  "modes_agree a rd \<longleftrightarrow>
     (\<forall>i pl t e pl'. rd i = Ok (Tree, pl) \<and> tree_parse a pl = Ok t \<and> e \<in> set (tree_entries t)
        \<and> rd (te_id e) = Ok (Tree, pl') \<longrightarrow> te_mode e \<in> {MTree, Gitlink})"

definition absent :: "reader \<Rightarrow> object_id \<Rightarrow> bool" where
  "absent rd i \<longleftrightarrow> (case rd i of Ok _ \<Rightarrow> False | Err e \<Rightarrow> is_not_found e)"

abbreviation live_ids :: "(file_mode \<times> object_id) list \<Rightarrow> object_id set" where
  "live_ids es \<equiv> {i. \<exists>m. (m, i) \<in> set es \<and> m \<noteq> Gitlink}"

lemma missing_loop_spec:
  assumes "missing_loop a rd has missing seen es = Ok ms" and "modes_agree a rd" and "\<And>i. has i \<longleftrightarrow> \<not> absent rd i"
    and "\<forall>(m, i)\<in>set es. \<forall>pl. rd i = Ok (Tree, pl) \<longrightarrow> m \<in> {MTree, Gitlink}"
    and "tree_link a rd `` seen \<subseteq> seen \<union> live_ids es"
    and "distinct missing" and "set missing = {i \<in> seen. absent rd i}"
  shows "distinct ms \<and> set ms = {i \<in> (tree_link a rd)\<^sup>* `` (seen \<union> live_ids es). absent rd i}"
  using assms
proof (induction a rd has missing seen es rule: missing_loop.induct)
  case (1 a rd has missing seen)
  then show ?case by (simp add: rtrancl_closed)
next
  case (2 a rd has missing seen mode i entries)
  let ?R = "tree_link a rd"
  have tail: "\<forall>(m, i)\<in>set entries. \<forall>pl. rd i = Ok (Tree, pl) \<longrightarrow> m \<in> {MTree, Gitlink}" using "2.prems"(4) by simp
  show ?case
  proof (cases "mode = Gitlink \<or> i \<in> seen")
    case True
    then have eq: "seen \<union> live_ids ((mode, i) # entries) = seen \<union> live_ids entries" by auto
    show ?thesis
      using "2.IH"(1) [OF True] "2.prems"(1-3) tail "2.prems"(5-7) True unfolding eq by simp
  next
    case new: False
    have eq: "seen \<union> live_ids ((mode, i) # entries) = insert i seen \<union> live_ids entries" using new by auto
    have leaf: "?R `` insert i seen \<subseteq> insert i seen \<union> live_ids entries" if "?R `` {i} = {}"
      using that "2.prems"(5) unfolding eq by auto
    have yes: "{k \<in> insert i seen. absent rd k} = insert i {k \<in> seen. absent rd k}" if "absent rd i" using that by auto
    have no: "{k \<in> insert i seen. absent rd k} = {k \<in> seen. absent rd k}" if "\<not> absent rd i" using that by auto
    have fresh: "i \<notin> set missing" using new "2.prems"(7) by auto
    show ?thesis
    proof (cases "mode = MTree")
      case tree: True
      show ?thesis
      proof (cases "rd i")
        case (Err e)
        then have l: "?R `` {i} = {}" by (auto simp: tree_link_def)
        have nf: "is_not_found e" using "2.prems"(1) new tree Err by (simp split: if_splits)
        then have ab: "absent rd i" using Err by (simp add: absent_def)
        show ?thesis
          using "2.IH"(4) [OF new tree Err nf] "2.prems"(1-3) tail leaf [OF l] "2.prems"(6,7) fresh new tree Err nf yes [OF ab]
          unfolding eq by simp
      next
        case (Ok x)
        obtain ty pl where x: "x = (ty, pl)" by (cases x)
        have ab: "\<not> absent rd i" using Ok by (simp add: absent_def)
        show ?thesis
        proof (cases "ty = Tree")
          case False
          then have l: "?R `` {i} = {}" using Ok x by (auto simp: tree_link_def)
          show ?thesis
            using "2.IH"(2) [OF new tree Ok x [symmetric] False] "2.prems"(1-3) tail leaf [OF l] "2.prems"(6,7) new tree Ok x False no [OF ab]
            unfolding eq by simp
        next
          case True
          then obtain t where t: "tree_parse a pl = Ok t" using "2.prems"(1) new tree Ok x by (auto simp: bind_res_eq_Ok)
          let ?es = "map (\<lambda>e. (te_mode e, te_id e)) (tree_entries t) @ entries"
          have l: "?R `` {i} = live_ids (map (\<lambda>e. (te_mode e, te_id e)) (tree_entries t))"
            using Ok x True t by (auto simp: tree_link_def)
          have u: "live_ids ?es = live_ids (map (\<lambda>e. (te_mode e, te_id e)) (tree_entries t)) \<union> live_ids entries" by auto
          have "?R `` insert i seen = ?R `` {i} \<union> ?R `` seen" by blast
          then have c: "?R `` insert i seen \<subseteq> insert i seen \<union> live_ids ?es"
            using "2.prems"(5) unfolding eq l u by blast
          have m: "\<forall>(m, i)\<in>set ?es. \<forall>pl. rd i = Ok (Tree, pl) \<longrightarrow> m \<in> {MTree, Gitlink}"
          proof -
            have "te_mode e \<in> {MTree, Gitlink}" if "e \<in> set (tree_entries t)" "rd (te_id e) = Ok (Tree, pl')" for e pl'
              using "2.prems"(2) Ok x True t that unfolding modes_agree_def by blast
            then show ?thesis using tail by auto
          qed
          have "distinct ms \<and> set ms = {k \<in> ?R\<^sup>* `` (insert i seen \<union> live_ids ?es). absent rd k}"
            using "2.IH"(3) [OF new tree Ok x [symmetric] _ t] "2.prems"(1-3) m c "2.prems"(6,7) new tree Ok x True t no [OF ab] by simp
          moreover have "insert i seen \<union> live_ids ?es = (insert i seen \<union> live_ids entries) \<union> live_ids (map (\<lambda>e. (te_mode e, te_id e)) (tree_entries t))"
            by auto
          moreover have "?R\<^sup>* `` \<dots> = ?R\<^sup>* `` (insert i seen \<union> live_ids entries)" by (rule rtrancl_add_step [of i]) (simp_all add: l)
          ultimately show ?thesis unfolding eq by simp
        qed
      qed
    next
      case blob: False
      then have "\<forall>pl. rd i \<noteq> Ok (Tree, pl)" using "2.prems"(4) new by auto
      then have l: "?R `` {i} = {}" by (auto simp: tree_link_def)
      show ?thesis
        using "2.IH"(5) [OF new blob] "2.prems"(1-3) tail leaf [OF l] "2.prems"(6,7) fresh new blob yes no
        unfolding eq by (cases "absent rd i") simp_all
    qed
  qed
qed

lemma missing_start:
  assumes "missing_tree_objects a rd has t = Ok ms" and "modes_agree a rd" and "\<And>i. has i \<longleftrightarrow> \<not> absent rd i"
  shows "distinct ms \<and> set ms = {i. (t, i) \<in> (tree_link a rd)\<^sup>* \<and> absent rd i}"
proof -
  have "distinct ms \<and> set ms = {i \<in> (tree_link a rd)\<^sup>* `` ({} \<union> live_ids [(MTree, t)]). absent rd i}"
    using assms(1) by (intro missing_loop_spec [OF _ assms(2,3)]) (simp_all add: missing_tree_objects_def)
  then show ?thesis by simp
qed

section \<open>Properties\<close>

text \<open>
  C18. A shallow fetch sends exactly the commits, tags and blobs that the wants lead to within the
  depth, and everything reachable from their trees; its boundary has every such commit with
  parents that is not reached below the depth (or was already shallow), and none that is not
  reached at the depth; and if no tag is met, it has only those.
\<close>

theorem shallow_fetch_exact:
  assumes "shallow_objects_to_send a rd wants depth already = Ok r"
    and N: "N = near a rd (max depth 1) already wants"
    and B: "B = {i. has_parents a rd i \<and> (\<exists>d. N i d) \<and> (i \<in> already \<or> \<not> (\<exists>d<max depth 1. N i d))}"
  shows "sr_objects r = {i. (\<exists>d. N i d) \<and> sent_itself rd i}
      \<union> (link a rd {})\<^sup>* `` {t. \<exists>i d. N i d \<and> root_tree a rd i t}
    \<and> B \<subseteq> sr_shallow r
    \<and> sr_shallow r \<subseteq> {i. has_parents a rd i \<and> (\<exists>d. N i d \<and> (max depth 1 \<le> d \<or> i \<in> already))}
    \<and> ((\<forall>i d pl. N i d \<longrightarrow> rd i \<noteq> Ok (Tag, pl)) \<longrightarrow> sr_shallow r = B)"
proof (intro conjI impI)
  let ?D = "max depth 1" and ?q = "map (\<lambda>w. (w, 1)) wants"
  obtain st objects where st: "shallow_loop a rd ?D already shallow_start ?q = Ok st"
      "collect_closure a rd (ss_trees st) {} = Ok objects"
      "r = \<lparr>sr_objects = objects \<union> ss_commits st, sr_shallow = ss_shallow st\<rparr>"
    using assms(1) by (auto simp: shallow_objects_to_send_def bind_res_eq_Ok)
  have start: "shallow_inv a rd ?D already wants shallow_start ?q"
    by (auto simp: shallow_inv_def shallow_start_def covered_def intro: near_want [unfolded One_nat_def])
  note inv = shallow_loop_inv [OF st(1) start]
  have I: "\<forall>i d. ss_best st i = Some d \<longrightarrow> N i d"
      "set (ss_trees st) = {t. \<exists>i\<in>dom (ss_best st). root_tree a rd i t}"
      "ss_commits st = {i \<in> dom (ss_best st). sent_itself rd i}"
      "ss_shallow st \<subseteq> {i. has_parents a rd i \<and> (\<exists>d. N i d \<and> (?D \<le> d \<or> i \<in> already))}"
      "\<forall>i d. ss_best st i = Some d \<and> has_parents a rd i \<and> (?D \<le> d \<or> i \<in> already) \<longrightarrow> i \<in> ss_shallow st"
    using inv unfolding shallow_inv_def N by - (elim conjE, assumption)+
  have least: "\<exists>b\<le>d. ss_best st i = Some b" if "N i d" for i d
    using shallow_inv_end [OF inv, of i d] that by (simp only: N)
  have dom: "i \<in> dom (ss_best st) \<longleftrightarrow> (\<exists>d. N i d)" for i
    using I(1) least by blast
  have best: "N i b \<and> (\<forall>d. N i d \<longrightarrow> b \<le> d)" if "ss_best st i = Some b" for i b
    using I(1) least that by fastforce
  have t: "set (ss_trees st) = {t. \<exists>i d. N i d \<and> root_tree a rd i t}"
    and c: "ss_commits st = {i. (\<exists>d. N i d) \<and> sent_itself rd i}"
    unfolding I(2,3) using dom by blast+
  have "objects = reach a rd {} (ss_trees st)" using collect_closure_spec [where a = a and rd = rd and roots = "ss_trees st" and X = "{}"] st(2) by simp
  then show "sr_objects r = {i. (\<exists>d. N i d) \<and> sent_itself rd i}
      \<union> (link a rd {})\<^sup>* `` {t. \<exists>i d. N i d \<and> root_tree a rd i t}"
    using c t by (auto simp: st(3) reach_def)
  have cut: "i \<in> B \<longleftrightarrow> has_parents a rd i \<and> (\<exists>b. ss_best st i = Some b \<and> (?D \<le> b \<or> i \<in> already))" for i
  proof (cases "ss_best st i")
    case None
    then show ?thesis using dom [of i] by (auto simp: B)
  next
    case (Some b)
    have "\<not> (\<exists>d<?D. N i d) \<longleftrightarrow> ?D \<le> b" using best [OF Some] by (meson leD le_less_trans not_le_imp_less)
    moreover have "\<exists>d. N i d" using best [OF Some] by blast
    ultimately show ?thesis using Some by (auto simp: B)
  qed
  show "B \<subseteq> sr_shallow r" using I(5) cut by (auto simp: st(3))
  show "sr_shallow r \<subseteq> {i. has_parents a rd i \<and> (\<exists>d. N i d \<and> (?D \<le> d \<or> i \<in> already))}"
    using I(4) by (simp add: st(3))
  assume tags: "\<forall>i d pl. N i d \<longrightarrow> rd i \<noteq> Ok (Tag, pl)"
  have "sorted (map (snd \<circ> (\<lambda>w. (w, Suc 0))) wants)" by (induction wants) auto
  then have "level_inv a rd ?D already shallow_start ?q"
    unfolding level_inv_def by (auto simp: shallow_start_def)
  from shallow_loop_level [OF st(1) start this] tags
  have "ss_shallow st = {i. has_parents a rd i \<and> (\<exists>b. ss_best st i = Some b \<and> (?D \<le> b \<or> i \<in> already))}"
    unfolding N level_inv_def by simp
  then show "sr_shallow r = B" using cut by (auto simp: st(3))
qed

theorem shallow_fetch_exact_witness:
  "\<exists>r. shallow_objects_to_send Sha1 (\<lambda>i. Ok (Blob, [])) [zero_oid Sha1] 1 {} = Ok r \<and> zero_oid Sha1 \<in> sr_objects r"
proof -
  let ?rd = "\<lambda>i. Ok (Blob, [])"
  obtain r where r: "shallow_objects_to_send Sha1 ?rd [zero_oid Sha1] 1 {} = Ok r"
    by (simp add: shallow_objects_to_send_def shallow_visit_def reached_before_def shallow_start_def collect_closure_def)
  have "near Sha1 ?rd (max 1 1) {} [zero_oid Sha1] (zero_oid Sha1) 1" by (rule near_want) simp
  then have "zero_oid Sha1 \<in> sr_objects r"
    using shallow_fetch_exact [OF r refl refl] by (auto simp: sent_itself_def)
  with r show ?thesis by blast
qed

text \<open>
  The promisor scan lists, once each, exactly the objects that are absent among those a tree
  leads to (through the trees that are there), when only tree entries name trees; so an empty
  result means the whole tree is local.
\<close>

theorem missing_objects_exact:
  assumes "missing_tree_objects a rd has t = Ok ms" and "modes_agree a rd" and "has = (\<lambda>i. \<not> absent rd i)"
  shows "distinct ms \<and> set ms = {i. (t, i) \<in> (tree_link a rd)\<^sup>* \<and> absent rd i}"
  using missing_start [OF assms(1,2)] assms(3) by simp

theorem missing_objects_exact_witness:
  "zero_oid Sha1 \<in> {i. (zero_oid Sha1, i) \<in> (tree_link Sha1 (\<lambda>_. Err (NotFound (HintObject []))))\<^sup>*
       \<and> absent (\<lambda>_. Err (NotFound (HintObject []))) i}"
proof -
  let ?rd = "\<lambda>_. Err (NotFound (HintObject []))"
  have "missing_tree_objects Sha1 ?rd (\<lambda>_. False) (zero_oid Sha1) = Ok [zero_oid Sha1]"
    by (simp add: missing_tree_objects_def is_not_found_def)
  moreover have "modes_agree Sha1 ?rd" by (simp add: modes_agree_def)
  moreover have "(\<lambda>_. False) = (\<lambda>i. \<not> absent ?rd i)" by (simp add: absent_def is_not_found_def)
  ultimately have "set [zero_oid Sha1] = {i. (zero_oid Sha1, i) \<in> (tree_link Sha1 ?rd)\<^sup>* \<and> absent ?rd i}"
    using missing_objects_exact [of Sha1 ?rd "\<lambda>_. False" "zero_oid Sha1" "[zero_oid Sha1]"] by blast
  then show ?thesis by auto
qed

text \<open>
  With tags the boundary may be stale: a tag's target is queued behind commits of greater depth, so a
  commit first met at the depth can be met again below it; its parents are then sent, but it stays in
  the boundary.
\<close>

definition stale_id :: "byte \<Rightarrow> object_id" where
  "stale_id b = ObjectId Sha1 (replicate 20 b)"

definition stale_commit :: "object_id list \<Rightarrow> bytes" where
  "stale_commit ps =
     commit_serialize \<lparr>c_tree = stale_id 9, c_parents = ps,
       c_author = \<lparr>sig_name = [65], sig_email = [65], sig_time = 0, sig_tz = bstr ''+0000''\<rparr>,
       c_committer = \<lparr>sig_name = [65], sig_email = [65], sig_time = 0, sig_tz = bstr ''+0000''\<rparr>,
       c_extra_headers = [], c_message = []\<rparr>"

definition stale_tag :: bytes where
  "stale_tag = tag_serialize \<lparr>t_object = stale_id 2, t_object_type = Commit, t_name = [65], t_tagger = None, t_message = []\<rparr>"

definition stale_reader :: reader where
  "stale_reader i =
     (if i = stale_id 1 then Ok (Commit, stale_commit [stale_id 2])
      else if i = stale_id 2 then Ok (Commit, stale_commit [stale_id 3])
      else if i = stale_id 3 then Ok (Commit, stale_commit [])
      else if i = stale_id 4 then Ok (Tag, stale_tag)
      else Err (NotFound (HintObject [])))"

lemma shallow_boundary_stale:
  "case shallow_objects_to_send Sha1 stale_reader [stale_id 1, stale_id 4] 2 {} of
     Ok r \<Rightarrow> stale_id 2 \<in> sr_shallow r \<and> stale_id 3 \<in> sr_objects r
   | Err _ \<Rightarrow> False"
  by code_simp

end
