(* ===== verification/Fsck.thy ===== *)
theory Fsck
  imports Walk
begin

text \<open>
  The integrity check, src/src/fsck.rs: a breadth-first walk from every root that records what is
  missing, unreadable or malformed instead of stopping, and lists the loose objects it never met.
  What the check asks of the repository (its head, refs, staged entries and loose ids) are the
  arguments of \<open>fsck\<close>.
\<close>

section \<open>Model\<close>

record problem =
  pb_id :: object_id
  pb_referenced_by :: "object_id option"
  pb_message :: string

record report =
  rp_checked :: nat
  rp_problems :: "problem list"
  rp_dangling :: "object_id list"

definition report_is_ok :: "report \<Rightarrow> bool" where
  "report_is_ok r \<longleftrightarrow> rp_problems r = []"

definition malformed :: "object_id \<Rightarrow> object_id option \<Rightarrow> string \<Rightarrow> problem" where
  "malformed i referenced_by kind =
     \<lparr>pb_id = i, pb_referenced_by = referenced_by, pb_message = ''malformed '' @ kind @ '': {e}''\<rparr>"

fun kind_word :: "object_type \<Rightarrow> string" where
  "kind_word Commit = ''commit''"
| "kind_word Tree = ''tree''"
| "kind_word Tag = ''tag''"
| "kind_word Blob = ''blob''"

function fsck_loop :: "hash_algo \<Rightarrow> reader \<Rightarrow> object_id set \<Rightarrow> problem list \<Rightarrow> nat \<Rightarrow>
    (object_id \<times> object_id option) list \<Rightarrow> object_id set \<times> problem list \<times> nat" where
  "fsck_loop a rd seen problems checked [] = (seen, problems, checked)"
| "fsck_loop a rd seen problems checked ((i, parent) # queue) =
     (if i \<in> seen then fsck_loop a rd seen problems checked queue
      else
        case rd i of
          Err e \<Rightarrow>
            fsck_loop a rd (insert i seen)
              (problems @ [\<lparr>pb_id = i, pb_referenced_by = parent,
                 pb_message = (if is_not_found e then ''missing object'' else ''unreadable object: {e}'')\<rparr>])
              checked queue
        | Ok (ty, pl) \<Rightarrow>
            (case object_links a ty pl of
               Ok ls \<Rightarrow> fsck_loop a rd (insert i seen) problems (checked + 1) (queue @ map (\<lambda>j. (j, Some i)) ls)
             | Err e \<Rightarrow>
                 fsck_loop a rd (insert i seen) (problems @ [malformed i parent (kind_word ty)]) (checked + 1) queue))"
  by pat_completeness auto
termination
proof (relation "measures [\<lambda>(a, rd, seen, ps, n, queue). card ((fst ` set queue \<union> known_ids a) - seen),
      \<lambda>(a, rd, seen, ps, n, queue). length queue]", goal_cases)
  case (2 a rd seen problems checked i parent queue)
  have "card ((fst ` set queue \<union> known_ids a) - seen) \<le> card ((fst ` set ((i, parent) # queue) \<union> known_ids a) - seen)"
    by (rule card_mono) (auto simp: finite_known_ids)
  then show ?case by (auto simp: le_less)
next
  case (3 a rd seen problems checked i parent queue x ty pl ls)
  then have "set ls \<subseteq> known_ids a" by (intro object_links_known)
  moreover have q: "fst ` set (queue @ map (\<lambda>j. (j, Some i)) ls) = fst ` set queue \<union> set ls"
    by (simp add: image_Un image_image)
  ultimately have "(fst ` set (queue @ map (\<lambda>j. (j, Some i)) ls) \<union> known_ids a) - insert i seen
      \<subset> (fst ` set ((i, parent) # queue) \<union> known_ids a) - seen"
    unfolding q using 3(1) by auto
  then have "card ((fst ` set (queue @ map (\<lambda>j. (j, Some i)) ls) \<union> known_ids a) - insert i seen)
      < card ((fst ` set ((i, parent) # queue) \<union> known_ids a) - seen)"
    by (intro psubset_card_mono) (auto simp: finite_known_ids)
  then show ?case by (simp only: in_measures prod.case) simp
next
  case (4 a rd seen problems checked i parent queue x ty pl e)
  then have "card ((fst ` set queue \<union> known_ids a) - insert i seen)
      < card ((fst ` set ((i, parent) # queue) \<union> known_ids a) - seen)"
    by (intro psubset_card_mono) (auto simp: finite_known_ids)
  then show ?case by simp
next
  case (5 a rd seen problems checked i parent queue e)
  then have "card ((fst ` set queue \<union> known_ids a) - insert i seen)
      < card ((fst ` set ((i, parent) # queue) \<union> known_ids a) - seen)"
    by (intro psubset_card_mono) (auto simp: finite_known_ids)
  then show ?case by simp
qed simp

definition fsck_roots :: "object_id result \<Rightarrow> (bytes \<times> object_id) list \<Rightarrow> object_id list \<Rightarrow> object_id list" where
  "fsck_roots head refs staged = (case head of Ok h \<Rightarrow> [h] | Err _ \<Rightarrow> []) @ map snd refs @ staged"

definition fsck :: "hash_algo \<Rightarrow> reader \<Rightarrow> object_id result \<Rightarrow> (bytes \<times> object_id) list result \<Rightarrow>
    object_id list result \<Rightarrow> object_id list result \<Rightarrow> report result" where
  "fsck a rd head refs staged loose_ids =
     bind_res refs (\<lambda>rs.
     bind_res staged (\<lambda>es.
       case fsck_loop a rd {} [] 0 (map (\<lambda>i. (i, None)) (fsck_roots head rs es)) of
         (seen, problems, checked) \<Rightarrow>
           bind_res loose_ids (\<lambda>ids.
             Ok \<lparr>rp_checked = checked, rp_problems = problems,
                 rp_dangling = sort (filter (\<lambda>i. i \<notin> seen) ids)\<rparr>)))"

section \<open>Lemmas\<close>

text \<open>An id with a problem: nothing to read, or content that does not parse.\<close>

definition broken :: "hash_algo \<Rightarrow> reader \<Rightarrow> object_id \<Rightarrow> bool" where
  "broken a rd i \<longleftrightarrow> (case rd i of Err e \<Rightarrow> True | Ok (ty, pl) \<Rightarrow> is_err (object_links a ty pl))"

lemma fsck_loop_seen:
  assumes "link a rd {} `` seen \<subseteq> seen \<union> fst ` set queue"
    and "fsck_loop a rd seen problems checked queue = (seen', problems', checked')"
  shows "seen' = (link a rd {})\<^sup>* `` (seen \<union> fst ` set queue)"
  using assms
proof (induction a rd seen problems checked queue rule: fsck_loop.induct)
  case (1 a rd seen problems checked)
  then show ?case by (simp add: rtrancl_closed)
next
  case (2 a rd seen problems checked i parent queue)
  let ?R = "link a rd {}"
  show ?case
  proof (cases "i \<in> seen")
    case True
    then have "seen \<union> fst ` set ((i, parent) # queue) = seen \<union> fst ` set queue" by auto
    with "2.prems" "2.IH"(1) [OF True] True show ?thesis by simp
  next
    case False
    have eq: "seen \<union> fst ` set ((i, parent) # queue) = insert i seen \<union> fst ` set queue" by auto
    have skip: "seen' = ?R\<^sup>* `` (seen \<union> fst ` set ((i, parent) # queue))"
      if "?R `` {i} = {}"
        and "?R `` insert i seen \<subseteq> insert i seen \<union> fst ` set queue \<Longrightarrow> seen' = ?R\<^sup>* `` (insert i seen \<union> fst ` set queue)"
    proof -
      have "?R `` insert i seen \<subseteq> insert i seen \<union> fst ` set queue" using that(1) "2.prems"(1) by auto
      then show ?thesis using that(2) unfolding eq by blast
    qed
    show ?thesis
    proof (cases "rd i")
      case (Err e)
      then have "?R `` {i} = {}" by (auto simp: link_def)
      then show ?thesis using skip "2.IH"(4) [OF False Err] "2.prems"(2) False Err by simp
    next
      case (Ok x)
      obtain ty pl where x: "x = (ty, pl)" by (cases x)
      show ?thesis
      proof (cases "object_links a ty pl")
        case (Err e)
        then have "?R `` {i} = {}" using Ok x by (auto simp: link_def)
        then show ?thesis using skip "2.IH"(3) [OF False Ok x [symmetric] Err] "2.prems"(2) False Ok x Err by simp
      next
        case ls: (Ok ls)
        have l: "?R `` {i} = set ls" using link_object [of rd i ty pl a ls "{}"] Ok x ls by simp
        let ?q = "queue @ map (\<lambda>j. (j, Some i)) ls"
        have "?R `` insert i seen \<subseteq> insert i seen \<union> fst ` set ?q" using l "2.prems"(1) by (auto simp: image_Un image_image)
        then have "seen' = ?R\<^sup>* `` (insert i seen \<union> fst ` set ?q)"
          using "2.IH"(2) [OF False Ok x [symmetric] ls] "2.prems"(2) False Ok x ls by simp
        also have "insert i seen \<union> fst ` set ?q = (insert i seen \<union> fst ` set queue) \<union> set ls"
          by (auto simp: image_Un image_image)
        also have "?R\<^sup>* `` \<dots> = ?R\<^sup>* `` (insert i seen \<union> fst ` set queue)"
          by (rule rtrancl_add_step [of i]) (simp_all add: l)
        finally show ?thesis unfolding eq .
      qed
    qed
  qed
qed

lemma fsck_loop_problems:
  assumes "fsck_loop a rd seen problems checked queue = (seen', problems', checked')"
    and "set (map pb_id problems) = {i \<in> seen. broken a rd i}" and "distinct (map pb_id problems)"
    and "finite seen" and "checked = card {i \<in> seen. is_ok (rd i)}"
  shows "set (map pb_id problems') = {i \<in> seen'. broken a rd i} \<and> distinct (map pb_id problems')
    \<and> finite seen' \<and> checked' = card {i \<in> seen'. is_ok (rd i)}"
  using assms
proof (induction a rd seen problems checked queue rule: fsck_loop.induct)
  case (2 a rd seen problems checked i parent queue)
  show ?case
  proof (cases "i \<in> seen")
    case True
    with "2.prems" "2.IH"(1) [OF True] show ?thesis by simp
  next
    case False
    have yes: "{k \<in> insert i seen. P k} = insert i {k \<in> seen. P k}" if "P i" for P using that by auto
    have no: "{k \<in> insert i seen. P k} = {k \<in> seen. P k}" if "\<not> P i" for P using that by auto
    have new: "i \<notin> pb_id ` set problems" using False "2.prems"(2) by auto
    show ?thesis
    proof (cases "rd i")
      case (Err e)
      then have "broken a rd i" "\<not> is_ok (rd i)" by (simp_all add: broken_def)
      with "2.IH"(4) [OF False Err] "2.prems" False Err new show ?thesis by (simp add: yes no del: insert_iff)
    next
      case (Ok x)
      obtain ty pl where x: "x = (ty, pl)" by (cases x)
      have ok: "is_ok (rd i)" using Ok by simp
      have c: "checked + 1 = card {k \<in> insert i seen. is_ok (rd k)}"
        unfolding yes [where P = "\<lambda>k. is_ok (rd k)", OF ok] using "2.prems"(4,5) False by simp
      show ?thesis
      proof (cases "object_links a ty pl")
        case (Err e)
        then have b: "broken a rd i" using Ok x by (simp add: broken_def)
        show ?thesis
          using "2.IH"(3) [OF False Ok x [symmetric] Err] "2.prems" False Ok x Err new c yes [where P = "broken a rd", OF b]
          by (simp add: malformed_def)
      next
        case ls: (Ok ls)
        then have b: "\<not> broken a rd i" using Ok x by (simp add: broken_def)
        show ?thesis
          using "2.IH"(2) [OF False Ok x [symmetric] ls] "2.prems" False Ok x ls c no [where P = "broken a rd", OF b] by simp
      qed
    qed
  qed
qed simp

lemma fsck_spec:
  assumes "refs = Ok rs" and "staged = Ok es" and "loose_ids = Ok ids"
    and R_def: "R = reach a rd {} (fsck_roots head rs es)"
  shows "\<exists>r. fsck a rd head refs staged loose_ids = Ok r
    \<and> pb_id ` set (rp_problems r) = {i \<in> R. broken a rd i} \<and> distinct (map pb_id (rp_problems r))
    \<and> (report_is_ok r \<longleftrightarrow> (\<forall>i\<in>R. \<not> broken a rd i))
    \<and> rp_checked r = card {i \<in> R. is_ok (rd i)}
    \<and> sorted (rp_dangling r) \<and> set (rp_dangling r) = set ids - R \<and> finite R"
proof -
  let ?q = "map (\<lambda>i. (i, None)) (fsck_roots head rs es)"
  obtain seen problems checked where l: "fsck_loop a rd {} [] 0 ?q = (seen, problems, checked)"
    by (cases "fsck_loop a rd {} [] 0 ?q") auto
  have q: "fst ` set ?q = set (fsck_roots head rs es)" by (auto simp: image_image)
  have "seen = R" using fsck_loop_seen [OF _ l] unfolding q by (simp add: R_def reach_def)
  with fsck_loop_problems [OF l]
  have p: "pb_id ` set problems = {i \<in> R. broken a rd i}" "distinct (map pb_id problems)"
      "checked = card {i \<in> R. is_ok (rd i)}" "finite R" and seen: "seen = R"
    by auto
  have "problems = [] \<longleftrightarrow> pb_id ` set problems = {}" by simp
  then have "problems = [] \<longleftrightarrow> (\<forall>i\<in>R. \<not> broken a rd i)" unfolding p(1) by blast
  then show ?thesis
    using l p by (simp add: fsck_def assms(1-3) report_is_ok_def seen set_diff_eq) 
qed

text \<open>The count of a report takes in the objects that were read but do not parse.\<close>

lemma fsck_counts_readable:
  assumes "fsck a rd head (Ok rs) (Ok es) (Ok ids) = Ok r"
  shows "rp_checked r = card {i \<in> reach a rd {} (fsck_roots head rs es). is_ok (rd i)}"
  using fsck_spec [OF refl refl refl refl, of a rd head rs es ids] assms by auto

section \<open>Properties\<close>

text \<open>
  C19. The report of a check is exact: it lists, once each, precisely the ids reachable from the
  head, the refs and the staged entries that cannot be read or parsed, so it is clean exactly
  if everything reachable is there and well formed; its dangling ids are the loose ones that are
  not reachable, in order; and its count takes in every reachable object that reads and parses
  cleanly, and is their number when no object was read that does not parse. (An object that
  reads but does not parse is a problem and is counted as well, against the doc comment of the
  field: lemma \<open>fsck_counts_readable\<close>.) The walk ends on every store, and the check fails only if
  the refs, the staging index or the loose ids cannot be listed.
\<close>

theorem fsck_exact:
  assumes "refs = Ok rs" and "staged = Ok es" and "loose_ids = Ok ids"
    and "R = reach a rd {} (fsck_roots head rs es)"
  shows "\<exists>r. fsck a rd head refs staged loose_ids = Ok r
    \<and> pb_id ` set (rp_problems r) = {i \<in> R. broken a rd i} \<and> distinct (map pb_id (rp_problems r))
    \<and> (report_is_ok r \<longleftrightarrow> (\<forall>i\<in>R. \<not> broken a rd i))
    \<and> card {i \<in> R. \<not> broken a rd i} \<le> rp_checked r
    \<and> ((\<forall>i\<in>R. is_ok (rd i) \<longrightarrow> \<not> broken a rd i) \<longrightarrow> rp_checked r = card {i \<in> R. \<not> broken a rd i})
    \<and> sorted (rp_dangling r) \<and> set (rp_dangling r) = set ids - R"
proof -
  obtain r where r: "fsck a rd head refs staged loose_ids = Ok r"
      "pb_id ` set (rp_problems r) = {i \<in> R. broken a rd i}" "distinct (map pb_id (rp_problems r))"
      "report_is_ok r \<longleftrightarrow> (\<forall>i\<in>R. \<not> broken a rd i)" "rp_checked r = card {i \<in> R. is_ok (rd i)}"
      "sorted (rp_dangling r)" "set (rp_dangling r) = set ids - R" "finite R"
    using fsck_spec [OF assms] by blast
  have clean: "\<not> broken a rd i \<Longrightarrow> is_ok (rd i)" for i by (auto simp: broken_def split: result.splits)
  then have "{i \<in> R. \<not> broken a rd i} \<subseteq> {i \<in> R. is_ok (rd i)}" by blast
  then have "card {i \<in> R. \<not> broken a rd i} \<le> rp_checked r" unfolding r(5) using r(8) by (intro card_mono) auto
  moreover have "rp_checked r = card {i \<in> R. \<not> broken a rd i}" if "\<forall>i\<in>R. is_ok (rd i) \<longrightarrow> \<not> broken a rd i"
  proof -
    have "{i \<in> R. is_ok (rd i)} = {i \<in> R. \<not> broken a rd i}" using that clean by blast
    then show ?thesis by (simp add: r(5))
  qed
  ultimately show ?thesis using r by blast
qed

theorem fsck_exact_witness:
  "\<exists>r. fsck Sha1 (\<lambda>_. Err (NotFound (HintObject []))) (Err (Io [])) (Ok [(bstr ''refs/heads/main'', ObjectId Sha1 (replicate 20 0))]) (Ok []) (Ok []) = Ok r
     \<and> \<not> report_is_ok r"
proof -
  let ?rd = "\<lambda>_. Err (NotFound (HintObject []))"
  obtain r where r: "fsck Sha1 ?rd (Err (Io [])) (Ok [(bstr ''refs/heads/main'', ObjectId Sha1 (replicate 20 0))]) (Ok []) (Ok []) = Ok r"
      "report_is_ok r \<longleftrightarrow> (\<forall>j\<in>reach Sha1 ?rd {} (fsck_roots (Err (Io [])) [(bstr ''refs/heads/main'', ObjectId Sha1 (replicate 20 0))] []). \<not> broken Sha1 ?rd j)"
    using fsck_exact [OF refl refl refl refl, of Sha1 ?rd "Err (Io [])" "[(bstr ''refs/heads/main'', ObjectId Sha1 (replicate 20 0))]" "[]" "[]"] by blast
  have "ObjectId Sha1 (replicate 20 0) \<in> reach Sha1 ?rd {} (fsck_roots (Err (Io [])) [(bstr ''refs/heads/main'', ObjectId Sha1 (replicate 20 0))] [])"
    by (auto simp: reach_def fsck_roots_def)
  moreover have "broken Sha1 ?rd (ObjectId Sha1 (replicate 20 0))" by (simp add: broken_def)
  ultimately show ?thesis using r by blast
qed

end
