(* ===== verification/Chunk_File.thy ===== *)
theory Chunk_File
  imports Pack_Index
begin

text \<open>
  The chunked layout that src/src/commit_graph.rs and src/src/multi_pack_index.rs share: after a
  header, a table with the id and the offset of each chunk and a last row for the end, then the
  chunks. Offsets are \<open>64 word\<close>s; a \<open>usize\<close> has 64 bits.
\<close>

section \<open>Model\<close>

fun table_rows :: "64 word \<Rightarrow> (32 word \<times> bytes) list \<Rightarrow> bytes" where
  "table_rows offset [] = be_bytes (0 :: 32 word) @ be_bytes offset"
| "table_rows offset ((i, data) # chunks) =
     be_bytes i @ be_bytes offset @ table_rows (offset + of_nat (length data)) chunks"

text \<open>The loop over \<open>n + 1\<close> rows from \<open>base\<close>; \<open>None\<close> when a row is cut off.\<close>

fun read_rows :: "bytes \<Rightarrow> nat \<Rightarrow> nat \<Rightarrow> nat \<Rightarrow> (32 word \<times> 64 word) list option" where
  "read_rows data body_len base 0 = Some []"
| "read_rows data body_len base (Suc n) =
     (if body_len < base + 12 then None
      else map_option (\<lambda>rows. (be32 (drop base data), be64 (drop (base + 4) data)) # rows)
        (read_rows data body_len (base + 12) n))"

section \<open>Lemmas\<close>

text \<open>Where a chunk starts, and the rows of the table.\<close>

definition chunk_start :: "nat \<Rightarrow> (32 word \<times> bytes) list \<Rightarrow> nat \<Rightarrow> nat" where
  "chunk_start first chunks k = first + length (concat (map snd (take k chunks)))"

fun rows_of :: "nat \<Rightarrow> (32 word \<times> bytes) list \<Rightarrow> (32 word \<times> 64 word) list" where
  "rows_of off [] = [(0, of_nat off)]"
| "rows_of off ((i, data) # chunks) = (i, of_nat off) # rows_of (off + length data) chunks"

lemma length_rows_of [simp]: "length (rows_of off chunks) = Suc (length chunks)"
  by (induction chunks arbitrary: off) auto

lemma length_table_rows [simp]: "length (table_rows off chunks) = 12 * Suc (length chunks)"
  by (induction chunks arbitrary: off) auto

lemma rows_of_nth:
  "k < length chunks \<Longrightarrow> rows_of off chunks ! k = (fst (chunks ! k), of_nat (chunk_start off chunks k))"
proof (induction chunks arbitrary: off k)
  case (Cons c chunks)
  then show ?case by (cases c; cases k) (auto simp: chunk_start_def add.assoc)
qed simp

lemma rows_of_last: "rows_of off chunks ! length chunks = (0, of_nat (chunk_start off chunks (length chunks)))"
proof (induction chunks arbitrary: off)
  case (Cons c chunks)
  then show ?case by (cases c) (auto simp: chunk_start_def add.assoc)
qed (simp add: chunk_start_def)

lemma read_rows_table:
  "length pre = base \<Longrightarrow> base + 12 * Suc (length chunks) \<le> body_len \<Longrightarrow>
     read_rows (pre @ table_rows (of_nat off) chunks @ rest) body_len base (Suc (length chunks)) = Some (rows_of off chunks)"
proof (induction chunks arbitrary: pre base off)
  case Nil
  have "drop (base + 4) (pre @ be_bytes (0 :: 32 word) @ be_bytes (of_nat off :: 64 word) @ rest) = be_bytes (of_nat off :: 64 word) @ rest"
    using Nil by simp
  then show ?case using Nil by simp
next
  case (Cons c chunks)
  obtain i data where c: "c = (i, data)" by (cases c)
  let ?row = "be_bytes i @ be_bytes (of_nat off :: 64 word)"
  let ?t = "table_rows (of_nat (off + length data)) chunks @ rest"
  have all: "pre @ table_rows (of_nat off) (c # chunks) @ rest = pre @ be_bytes i @ be_bytes (of_nat off :: 64 word) @ ?t"
    by (simp add: c)
  have d: "drop base (pre @ be_bytes i @ be_bytes (of_nat off :: 64 word) @ ?t) = be_bytes i @ be_bytes (of_nat off :: 64 word) @ ?t"
      "drop (base + 4) (pre @ be_bytes i @ be_bytes (of_nat off :: 64 word) @ ?t) = be_bytes (of_nat off :: 64 word) @ ?t"
    using Cons.prems(1) by simp_all
  have ih: "read_rows ((pre @ ?row) @ ?t) body_len (base + 12) (Suc (length chunks)) = Some (rows_of (off + length data) chunks)"
    using Cons.prems by (intro Cons.IH) simp_all
  have step: "read_rows bs body_len base (Suc (length (c # chunks))) = Some ((i, of_nat off) # rows)"
    if "bs = pre @ be_bytes i @ be_bytes (of_nat off :: 64 word) @ ?t"
      and "read_rows bs body_len (base + 12) (Suc (length chunks)) = Some rows" for bs rows
  proof -
    have "be32 (drop base bs) = i" "be64 (drop (base + 4) bs) = of_nat off" by (simp_all only: that(1) d be32_bytes be64_bytes)
    moreover have "\<not> body_len < base + 12" using Cons.prems(2) by simp
    ultimately show ?thesis using that(2) by (simp del: read_rows.simps) (simp only: read_rows.simps if_False option.simps)
  qed
  show ?case unfolding all using step [OF refl] ih by (simp add: c del: read_rows.simps)
qed

lemma chunk_slice:
  assumes "k < length chunks" and "length pre = first"
  shows "take (chunk_start first chunks (Suc k) - chunk_start first chunks k)
      (drop (chunk_start first chunks k) (pre @ concat (map snd chunks) @ rest)) = snd (chunks ! k)"
    and "chunk_start first chunks k \<le> chunk_start first chunks (Suc k)"
    and "chunk_start first chunks (Suc k) \<le> first + length (concat (map snd chunks))"
proof -
  have t: "take (Suc k) chunks = take k chunks @ [chunks ! k]" using assms(1) by (rule take_Suc_conv_app_nth)
  have "chunks = take k chunks @ chunks ! k # drop (Suc k) chunks" using assms(1) by (rule id_take_nth_drop)
  from arg_cong [OF this, of "\<lambda>l. concat (map snd l)"]
  have c: "concat (map snd chunks) = concat (map snd (take k chunks)) @ snd (chunks ! k) @ concat (map snd (drop (Suc k) chunks))"
    by (simp only: map_append list.map concat_append concat.simps)
  have s: "chunk_start first chunks (Suc k) = chunk_start first chunks k + length (snd (chunks ! k))"
    by (simp add: chunk_start_def t)
  show "take (chunk_start first chunks (Suc k) - chunk_start first chunks k)
      (drop (chunk_start first chunks k) (pre @ concat (map snd chunks) @ rest)) = snd (chunks ! k)"
    unfolding s c using assms(2) by (simp add: chunk_start_def add.commute)
  show "chunk_start first chunks k \<le> chunk_start first chunks (Suc k)" by (simp add: s)
  show "chunk_start first chunks (Suc k) \<le> first + length (concat (map snd chunks))"
    unfolding s c by (simp add: chunk_start_def)
qed

end
