(* ===== verification/Commit_Graph.thy ===== *)
theory Commit_Graph
  imports Chunk_File Walk
begin

text \<open>
  The commit-graph file, src/src/commit_graph.rs: writing the metadata of a set of commits (trees,
  parents by position, generation numbers, dates) and reading it back. Positions and the words of
  the file are \<open>32 word\<close>s; generation numbers are naturals (an \<open>u32\<close> that the number of passes
  bounds). A record is read at positions below the count only, as its callers do (a slice out of
  range panics).
\<close>

section \<open>Model\<close>

definition CG_SIGNATURE :: bytes where
  "CG_SIGNATURE = bstr ''CGPH''"

definition CHUNK_OIDF :: "32 word" where
  "CHUNK_OIDF = 0x4f494446"

definition CHUNK_OIDL :: "32 word" where
  "CHUNK_OIDL = 0x4f49444c"

definition CHUNK_CDAT :: "32 word" where
  "CHUNK_CDAT = 0x43444154"

definition CHUNK_EDGE :: "32 word" where
  "CHUNK_EDGE = 0x45444745"

definition PARENT_NONE :: "32 word" where
  "PARENT_NONE = 0x70000000"

definition EDGE_LAST :: "32 word" where
  "EDGE_LAST = 0x80000000"

subsection \<open>Writing\<close>

definition sorted_ids :: "object_id list \<Rightarrow> object_id list" where
  "sorted_ids commits = remdups_adj (sort_key as_bytes commits)"

definition positions_of :: "object_id list \<Rightarrow> bytes \<rightharpoonup> nat" where
  "positions_of ids = map_of (rev (zip (map as_bytes ids) [0..<length ids]))"

fun read_commits :: "hash_algo \<Rightarrow> reader \<Rightarrow> object_id list \<Rightarrow> commit list result" where
  "read_commits a rd [] = Ok []"
| "read_commits a rd (i # ids) =
     bind_res (rd i) (\<lambda>(ty, pl).
       if ty \<noteq> Commit then Err (Pack ''commit-graph: non-commit id supplied'')
       else bind_res (commit_parse a pl) (\<lambda>c. bind_res (read_commits a rd ids) (\<lambda>cs. Ok (c # cs))))"

fun parent_positions :: "(bytes \<rightharpoonup> nat) \<Rightarrow> object_id list \<Rightarrow> nat list result" where
  "parent_positions pos [] = Ok []"
| "parent_positions pos (p # ps) =
     bind_res (ok_or (pos (as_bytes p)) (Pack ''commit-graph: parent not in the set'')) (\<lambda>k.
     bind_res (parent_positions pos ps) (\<lambda>ks. Ok (k # ks)))"

text \<open>One pass of the relaxation, and the passes (\<open>n + 1\<close> of them at most) until nothing changes.\<close>

definition next_generation :: "nat list \<Rightarrow> nat list \<Rightarrow> nat" where
  "next_generation gens ps = foldl (\<lambda>g p. max g (gens ! p + 1)) 1 ps"

fun relax_pass :: "(bytes \<rightharpoonup> nat) \<Rightarrow> nat \<Rightarrow> commit list \<Rightarrow> nat list \<Rightarrow> bool \<Rightarrow> (bool \<times> nat list) result" where
  "relax_pass pos i [] gens changed = Ok (changed, gens)"
| "relax_pass pos i (c # cs) gens changed =
     bind_res (parent_positions pos (c_parents c)) (\<lambda>ps.
       let g = next_generation gens ps
       in if g \<noteq> gens ! i then relax_pass pos (i + 1) cs (gens[i := g]) True
          else relax_pass pos (i + 1) cs gens changed)"

fun generations :: "(bytes \<rightharpoonup> nat) \<Rightarrow> commit list \<Rightarrow> nat \<Rightarrow> nat list \<Rightarrow> nat list result" where
  "generations pos cs 0 gens = Err (Pack ''commit-graph: parent cycle'')"
| "generations pos cs (Suc passes) gens =
     bind_res (relax_pass pos 0 cs gens False) (\<lambda>(changed, gens').
       if changed then generations pos cs passes gens' else Ok gens')"

definition oid_fanout :: "object_id list \<Rightarrow> bytes" where
  "oid_fanout ids =
     concat (map be_bytes (running_sums 0
       (map (\<lambda>b. of_nat (length (filter (\<lambda>i. as_bytes i ! 0 = of_nat b) ids)) :: 32 word) [0..<256])))"

fun edge_words :: "32 word list \<Rightarrow> 32 word list" where
  "edge_words [] = []"
| "edge_words [p] = [p OR EDGE_LAST]"
| "edge_words (p # q # ps) = p # edge_words (q # ps)"

text \<open>The two parent slots of a record and what they append to the extra edges.\<close>

fun parent_slots :: "bytes \<Rightarrow> 32 word list \<Rightarrow> 32 word \<times> 32 word \<times> bytes" where
  "parent_slots edge [] = (PARENT_NONE, PARENT_NONE, [])"
| "parent_slots edge [p] = (p, PARENT_NONE, [])"
| "parent_slots edge [p, q] = (p, q, [])"
| "parent_slots edge (p # q # r # rest) =
     (p, EDGE_LAST OR of_nat (length edge div 4), concat (map be_bytes (edge_words (q # r # rest))))"

definition date_of :: "commit \<Rightarrow> 64 word" where
  "date_of c = word_of_int (max (sig_time (c_committer c)) 0)"

definition date_bytes :: "commit \<Rightarrow> nat \<Rightarrow> bytes" where
  "date_bytes c gen =
     (let date = date_of c;
          hi2 = ucast (drop_bit 32 date AND 0x3) :: 32 word;
          word0 = push_bit 2 (of_nat gen AND 0x3fffffff) OR hi2
      in be_bytes word0 @ be_bytes (ucast (date AND 0xffffffff) :: 32 word))"

fun commit_data :: "hash_algo \<Rightarrow> (bytes \<rightharpoonup> nat) \<Rightarrow> nat list \<Rightarrow> bytes \<Rightarrow> bytes \<Rightarrow> nat \<Rightarrow> commit list \<Rightarrow> (bytes \<times> bytes) result" where
  "commit_data a pos gens cdat edge i [] = Ok (cdat, edge)"
| "commit_data a pos gens cdat edge i (c # cs) =
     bind_res (parent_positions pos (c_parents c)) (\<lambda>ps.
       case parent_slots edge (map of_nat ps) of
         (first, second, extra) \<Rightarrow>
           commit_data a pos gens
             (cdat @ take (raw_len a) (as_bytes (c_tree c)) @ be_bytes first @ be_bytes second @ date_bytes c (gens ! i))
             (edge @ extra) (i + 1) cs)"

definition graph_chunks :: "hash_algo \<Rightarrow> object_id list \<Rightarrow> bytes \<Rightarrow> bytes \<Rightarrow> (32 word \<times> bytes) list" where
  "graph_chunks a ids cdat edge =
     [(CHUNK_OIDF, oid_fanout ids), (CHUNK_OIDL, concat (map (\<lambda>i. take (raw_len a) (as_bytes i)) ids)), (CHUNK_CDAT, cdat)]
     @ (if edge \<noteq> [] then [(CHUNK_EDGE, edge)] else [])"

definition graph_file :: "digest \<Rightarrow> hash_algo \<Rightarrow> (32 word \<times> bytes) list \<Rightarrow> bytes" where
  "graph_file dg a chunks =
     (let out = CG_SIGNATURE @ [1, if a = Sha256 then 2 else 1, of_nat (length chunks), 0]
            @ table_rows (of_nat (8 + (length chunks + 1) * 12)) chunks @ concat (map snd chunks)
      in out @ hash_bytes dg a out)"

definition write_commit_graph :: "digest \<Rightarrow> hash_algo \<Rightarrow> reader \<Rightarrow> object_id list \<Rightarrow> bytes result" where
  "write_commit_graph dg a rd commits =
     (let ids = sorted_ids commits; pos = positions_of ids
      in bind_res (read_commits a rd ids) (\<lambda>parsed.
         bind_res (generations pos parsed (length ids + 1) (replicate (length ids) 0)) (\<lambda>gens.
         bind_res (commit_data a pos gens [] [] 0 parsed) (\<lambda>(cdat, edge).
           Ok (graph_file dg a (graph_chunks a ids cdat edge))))))"

subsection \<open>Reading\<close>

record commit_graph =
  cg_algo :: hash_algo
  cg_oids :: bytes
  cg_cdat :: bytes
  cg_edge :: bytes
  cg_count :: nat

text \<open>The extents of the chunks; a later chunk of the same id replaces an earlier one.\<close>

fun chunk_extents :: "nat \<Rightarrow> (32 word \<times> 64 word) list \<Rightarrow> (32 word \<rightharpoonup> nat \<times> nat) \<Rightarrow> (32 word \<rightharpoonup> nat \<times> nat) result" where
  "chunk_extents body_len ((i, start) # (j, stop) # rows) m =
     (if body_len < unat start \<or> body_len < unat stop \<or> stop < start
      then Err (Pack ''commit-graph: bad chunk offsets'')
      else chunk_extents body_len ((j, stop) # rows) (m(i \<mapsto> (unat start, unat stop))))"
| "chunk_extents body_len rows m = Ok m"

definition slice :: "bytes \<Rightarrow> nat \<times> nat \<Rightarrow> bytes" where
  "slice data = (\<lambda>(s, e). take (e - s) (drop s data))"

definition commit_graph_parse :: "digest \<Rightarrow> hash_algo \<Rightarrow> bytes \<Rightarrow> commit_graph result" where
  "commit_graph_parse dg a data =
     (let hlen = raw_len a
      in if length data < 8 + hlen \<or> take 4 data \<noteq> CG_SIGNATURE then Err (Pack ''commit-graph: bad header'')
         else if data ! 4 \<noteq> 1 then Err (Unsupported ''commit-graph: unsupported version'')
         else
           let body = take (length data - hlen) data
           in if hash_bytes dg a body \<noteq> drop (length data - hlen) data then Err (Pack ''commit-graph: checksum mismatch'')
              else
                bind_res (ok_or (read_rows data (length body) 8 (Suc (unat (data ! 6)))) (Pack ''commit-graph: truncated chunk table'')) (\<lambda>rows.
                bind_res (chunk_extents (length body) rows Map.empty) (\<lambda>chunks.
                bind_res (ok_or (chunks CHUNK_OIDL) (Pack ''commit-graph: no OIDL chunk'')) (\<lambda>ol.
                bind_res (ok_or (chunks CHUNK_CDAT) (Pack ''commit-graph: no CDAT chunk'')) (\<lambda>cd.
                  let oids = slice data ol;
                      cdat = slice data cd;
                      edge = (case chunks CHUNK_EDGE of Some e \<Rightarrow> slice data e | None \<Rightarrow> []);
                      count = length oids div hlen
                  in if count * (hlen + 16) \<noteq> length cdat then Err (Pack ''commit-graph: OIDL/CDAT size mismatch'')
                     else Ok \<lparr>cg_algo = a, cg_oids = oids, cg_cdat = cdat, cg_edge = edge, cg_count = count\<rparr>)))))"

definition cg_position_of :: "commit_graph \<Rightarrow> object_id \<Rightarrow> nat option" where
  "cg_position_of g i =
     (if oid_algo i \<noteq> cg_algo g then None
      else let hlen = raw_len (cg_algo g)
           in search_loop (\<lambda>k. take hlen (drop (k * hlen) (cg_oids g))) (take hlen (as_bytes i)) 0 (cg_count g))"

definition cg_id_at :: "commit_graph \<Rightarrow> nat \<Rightarrow> object_id option" where
  "cg_id_at g k =
     (let hlen = raw_len (cg_algo g)
      in if length (cg_oids g) < k * hlen + hlen then None
         else case from_bytes (cg_algo g) (take hlen (drop (k * hlen) (cg_oids g))) of Ok i \<Rightarrow> Some i | Err _ \<Rightarrow> None)"

definition cg_record :: "commit_graph \<Rightarrow> nat \<Rightarrow> bytes" where
  "cg_record g k = (let sz = raw_len (cg_algo g) + 16 in take sz (drop (k * sz) (cg_cdat g)))"

definition cg_tree_at :: "commit_graph \<Rightarrow> nat \<Rightarrow> object_id option" where
  "cg_tree_at g k =
     (case from_bytes (cg_algo g) (take (raw_len (cg_algo g)) (cg_record g k)) of Ok i \<Rightarrow> Some i | Err _ \<Rightarrow> None)"

definition word_at :: "bytes \<Rightarrow> nat \<Rightarrow> 32 word option" where
  "word_at b off = (if length b < off + 4 then None else Some (be32 (drop off b)))"

function edge_walk :: "commit_graph \<Rightarrow> nat \<Rightarrow> object_id list" where
  "edge_walk g i =
     (case word_at (cg_edge g) (i * 4) of
        None \<Rightarrow> []
      | Some v \<Rightarrow>
          (case cg_id_at g (unat (v AND NOT EDGE_LAST)) of Some p \<Rightarrow> [p] | None \<Rightarrow> [])
          @ (if v AND EDGE_LAST \<noteq> 0 then [] else edge_walk g (i + 1)))"
  by pat_completeness auto
termination
  by (relation "measure (\<lambda>(g, i). length (cg_edge g) - i * 4)") (auto simp: word_at_def split: if_splits)

declare edge_walk.simps [simp del]

definition cg_parents_at :: "commit_graph \<Rightarrow> nat \<Rightarrow> object_id list" where
  "cg_parents_at g k =
     (let hlen = raw_len (cg_algo g);
          rec = cg_record g k;
          opt = (\<lambda>i. case i of Some p \<Rightarrow> [p] | None \<Rightarrow> []);
          first = (case word_at rec hlen of Some w \<Rightarrow> w | None \<Rightarrow> PARENT_NONE)
      in if first = PARENT_NONE then []
         else
           let second = (case word_at rec (hlen + 4) of Some w \<Rightarrow> w | None \<Rightarrow> PARENT_NONE)
           in opt (cg_id_at g (unat first))
              @ (if second = PARENT_NONE then []
                 else if second AND EDGE_LAST = 0 then opt (cg_id_at g (unat second))
                 else edge_walk g (unat (second AND NOT EDGE_LAST))))"

definition date_words :: "commit_graph \<Rightarrow> nat \<Rightarrow> 32 word \<times> 32 word" where
  "date_words g k =
     (let off = raw_len (cg_algo g) + 8; rec = cg_record g k in (be32 (drop off rec), be32 (drop (off + 4) rec)))"

definition cg_generation_at :: "commit_graph \<Rightarrow> nat \<Rightarrow> nat" where
  "cg_generation_at g k = unat (drop_bit 2 (fst (date_words g k)))"

definition cg_commit_time_at :: "commit_graph \<Rightarrow> nat \<Rightarrow> 64 word" where
  "cg_commit_time_at g k =
     (case date_words g k of (word0, word1) \<Rightarrow> push_bit 32 (ucast (word0 AND 0x3)) OR ucast word1)"

section \<open>Lemmas\<close>

subsection \<open>Ids and positions\<close>

lemma remdups_adj_strict:
  assumes "sorted (map f xs)" and "inj_on f (set xs)"
  shows "sorted_wrt (<) (map f (remdups_adj xs))"
  using assms
proof (induction xs rule: remdups_adj.induct)
  case (3 x y xs)
  show ?case
  proof (cases "x = y")
    case False
    have "f x \<noteq> f y" using False "3.prems"(2) by (simp add: inj_on_def)
    then have "f x < f y" using "3.prems"(1) by (simp add: less_le)
    moreover have "f y \<le> f z" if "z \<in> set (y # xs)" for z using that "3.prems"(1) by auto
    ultimately have "\<forall>z\<in>set (y # xs). f x < f z" by (meson less_le_trans)
    moreover have "sorted_wrt (<) (map f (remdups_adj (y # xs)))"
      using False "3.prems" by (intro "3.IH"(2)) (auto simp: inj_on_def)
    ultimately show ?thesis using False by (simp del: remdups_adj.simps add: remdups_adj.simps(3))
  qed (use 3 in simp)
qed simp_all

lemma known_inj: "inj_on as_bytes (known_ids a)"
  by (auto simp: inj_on_def known_ids_def intro: object_id.expand)

lemma sorted_ids_facts:
  assumes "set commits \<subseteq> known_ids a"
  shows "set (sorted_ids commits) = set commits" and "sorted_wrt (<) (map as_bytes (sorted_ids commits))"
    and "distinct (map as_bytes (sorted_ids commits))"
proof -
  show "set (sorted_ids commits) = set commits" by (simp add: sorted_ids_def)
  have "inj_on as_bytes (set (sort_key as_bytes commits))" by (rule inj_on_subset [OF known_inj [of a]]) (simp add: assms)
  then show s: "sorted_wrt (<) (map as_bytes (sorted_ids commits))"
    unfolding sorted_ids_def by (intro remdups_adj_strict) simp_all
  show "distinct (map as_bytes (sorted_ids commits))" using s strict_sorted_iff by blast
qed

lemma positions_of_iff:
  assumes "distinct (map as_bytes ids)"
  shows "positions_of ids b = Some k \<longleftrightarrow> k < length ids \<and> b = as_bytes (ids ! k)"
proof -
  have "map fst (rev (zip (map as_bytes ids) [0..<length ids])) = rev (map as_bytes ids)" by (simp add: rev_map [symmetric])
  then have "positions_of ids b = Some k \<longleftrightarrow> (b, k) \<in> set (rev (zip (map as_bytes ids) [0..<length ids]))"
    unfolding positions_of_def by (intro map_of_eq_Some_iff) (use assms in simp)
  moreover have "(b, k) \<in> set (zip (map as_bytes ids) [0..<length ids]) \<longleftrightarrow> (\<exists>j. j < length ids \<and> b = as_bytes (ids ! j) \<and> k = j)"
    by (auto simp: set_zip intro!: exI [of _ k])
  ultimately show ?thesis by auto
qed

lemma read_commits_Ok:
  "read_commits a rd ids = Ok cs \<longleftrightarrow>
     length cs = length ids \<and> (\<forall>k<length ids. \<exists>pl. rd (ids ! k) = Ok (Commit, pl) \<and> commit_parse a pl = Ok (cs ! k))"
proof (induction ids arbitrary: cs)
  case (Cons i ids)
  have "read_commits a rd (i # ids) = Ok cs \<longleftrightarrow>
      (\<exists>pl c cs'. rd i = Ok (Commit, pl) \<and> commit_parse a pl = Ok c \<and> read_commits a rd ids = Ok cs' \<and> cs = c # cs')"
    by (auto simp: bind_res_eq_Ok)
  then show ?case unfolding Cons.IH
    by (cases cs) (auto simp: All_less_Suc2)
qed auto

lemma parent_positions_Ok:
  assumes "distinct (map as_bytes ids)" and "set ids \<subseteq> known_ids a" and "set ps \<subseteq> known_ids a"
  shows "parent_positions (positions_of ids) ps = Ok ks \<longleftrightarrow> set ks \<subseteq> {..<length ids} \<and> map ((!) ids) ks = ps"
  using assms(3)
proof (induction ps arbitrary: ks)
  case (Cons p ps)
  have "p = ids ! k" if "k < length ids" "as_bytes p = as_bytes (ids ! k)" for k
  proof -
    have "p \<in> known_ids a" "ids ! k \<in> known_ids a" using that(1) Cons.prems assms(2) nth_mem [of k ids] by auto
    then show ?thesis using inj_onD [OF known_inj [of a]] that(2) by blast
  qed
  then have "positions_of ids (as_bytes p) = Some k \<longleftrightarrow> k < length ids \<and> ids ! k = p" for k
    unfolding positions_of_iff [OF assms(1)] by auto
  with Cons show ?case by (cases ks) (auto simp: bind_res_eq_Ok ok_or_eq_Ok)
qed auto

lemma parent_positions_total:
  assumes "distinct (map as_bytes ids)" and "set ps \<subseteq> set ids"
  shows "\<exists>ks. parent_positions (positions_of ids) ps = Ok ks"
  using assms(2)
proof (induction ps)
  case (Cons p ps)
  then obtain k where "k < length ids" "p = ids ! k" by (auto simp: in_set_conv_nth)
  then have "positions_of ids (as_bytes p) = Some k" by (simp add: positions_of_iff [OF assms(1)])
  with Cons show ?case by auto
qed simp

subsection \<open>Generations\<close>

lemma next_generation_Max: "next_generation gens ps = Max (insert 1 ((\<lambda>p. gens ! p + 1) ` set ps))"
proof -
  have "foldl (\<lambda>g p. max g (gens ! p + 1)) m ps = Max (insert m ((\<lambda>p. gens ! p + 1) ` set ps))" for m
  proof (induction ps arbitrary: m)
    case (Cons p ps)
    have "insert m ((\<lambda>p. gens ! p + 1) ` set (p # ps)) = insert m (insert (gens ! p + 1) ((\<lambda>p. gens ! p + 1) ` set ps))" by simp
    then show ?case unfolding foldl.simps Cons.IH by (cases "ps = []") (simp_all add: max.assoc)
  qed simp
  then show ?thesis by (simp add: next_generation_def)
qed

lemma relax_pass_stable:
  assumes "relax_pass pos i cs gens changed = Ok (False, gens')"
  shows "\<not> changed \<and> gens' = gens \<and> (\<forall>k<length cs. \<exists>ps. parent_positions pos (c_parents (cs ! k)) = Ok ps \<and> gens ! (i + k) = next_generation gens ps)"
  using assms
proof (induction cs arbitrary: i gens changed)
  case (Cons c cs)
  from Cons.prems obtain ps where ps: "parent_positions pos (c_parents c) = Ok ps" by (auto simp: bind_res_eq_Ok)
  have "next_generation gens ps = gens ! i"
    using Cons.prems Cons.IH [of "i + 1" "gens[i := next_generation gens ps]" True] ps by (auto simp: Let_def split: if_splits)
  with Cons.prems Cons.IH [of "i + 1" gens changed] ps show ?case by (auto simp: All_less_Suc2)
qed simp

lemma relax_pass_length: "relax_pass pos i cs gens changed = Ok (ch, gens') \<Longrightarrow> length gens' = length gens"
  by (induction cs arbitrary: i gens changed) (auto simp: bind_res_eq_Ok Let_def split: if_splits)

lemma generations_stable:
  "generations pos cs n gens = Ok gens' \<Longrightarrow> length gens' = length gens \<and> relax_pass pos 0 cs gens' False = Ok (False, gens')"
proof (induction n arbitrary: gens)
  case (Suc n)
  then obtain ch g where r: "relax_pass pos 0 cs gens False = Ok (ch, g)" by (auto simp: bind_res_eq_Ok)
  show ?case
  proof (cases ch)
    case True
    then show ?thesis using Suc r relax_pass_length [OF r] by simp
  next
    case False
    then show ?thesis using Suc.prems r relax_pass_stable [of pos 0 cs gens False g] by simp
  qed
qed simp

subsection \<open>Records\<close>

definition record_of :: "hash_algo \<Rightarrow> nat list \<Rightarrow> bytes \<Rightarrow> nat list \<Rightarrow> nat \<Rightarrow> commit \<Rightarrow> bytes" where
  "record_of a gens e0 ps k c =
     (case parent_slots e0 (map of_nat ps) of
        (first, second, extra) \<Rightarrow> take (raw_len a) (as_bytes (c_tree c)) @ be_bytes first @ be_bytes second @ date_bytes c (gens ! k))"

abbreviation slot_edges :: "bytes \<Rightarrow> nat list \<Rightarrow> bytes" where
  "slot_edges e0 ps \<equiv> snd (snd (parent_slots e0 (map of_nat ps)))"

lemma slot_edges_dvd: "4 dvd length (snd (snd (parent_slots e ws)))"
proof -
  have "length (concat (map be_bytes (vs :: 32 word list))) = length vs * 4" for vs
    by (rule length_concat_block) simp
  then show ?thesis by (cases "(e, ws)" rule: parent_slots.cases) auto
qed

lemma commit_data_rows:
  assumes "commit_data a pos gens cdat edge i cs = Ok (cdat', edge')" and "4 dvd length edge"
  shows "\<exists>rows tail. cdat' = cdat @ concat rows \<and> length rows = length cs \<and> edge' = edge @ tail
    \<and> (\<forall>k<length cs. \<exists>ps e0 e1. parent_positions pos (c_parents (cs ! k)) = Ok ps \<and> 4 dvd length e0
          \<and> edge' = e0 @ slot_edges e0 ps @ e1 \<and> rows ! k = record_of a gens e0 ps (i + k) (cs ! k))"
  using assms
proof (induction cs arbitrary: cdat edge i)
  case (Cons c cs)
  obtain ps where ps: "parent_positions pos (c_parents c) = Ok ps" using Cons.prems(1) by (auto simp: bind_res_eq_Ok)
  obtain first second extra where sl: "parent_slots edge (map of_nat ps) = (first, second, extra)" by (cases "parent_slots edge (map of_nat ps)")
  let ?row = "record_of a gens edge ps i c"
  have d: "4 dvd length (edge @ extra)" using slot_edges_dvd [of edge "map of_nat ps"] sl Cons.prems(2) by simp
  have "commit_data a pos gens (cdat @ ?row) (edge @ extra) (i + 1) cs = Ok (cdat', edge')"
    using Cons.prems(1) ps sl by (simp add: record_of_def)
  from Cons.IH [OF this d] obtain rows tail where r: "cdat' = (cdat @ ?row) @ concat rows" "length rows = length cs"
      "edge' = (edge @ extra) @ tail"
      "\<forall>k<length cs. \<exists>ps e0 e1. parent_positions pos (c_parents (cs ! k)) = Ok ps \<and> 4 dvd length e0
          \<and> edge' = e0 @ slot_edges e0 ps @ e1 \<and> rows ! k = record_of a gens e0 ps (i + 1 + k) (cs ! k)"
    by blast
  have "\<exists>ps e0 e1. parent_positions pos (c_parents ((c # cs) ! k)) = Ok ps \<and> 4 dvd length e0
          \<and> edge' = e0 @ slot_edges e0 ps @ e1 \<and> (?row # rows) ! k = record_of a gens e0 ps (i + k) ((c # cs) ! k)"
    if "k < length (c # cs)" for k
  proof (cases k)
    case 0
    have "edge' = edge @ slot_edges edge ps @ tail" using r(3) sl by simp
    then show ?thesis using ps Cons.prems(2) 0 by auto
  next
    case (Suc j)
    then show ?thesis using r(4) that by simp
  qed
  then show ?case
    using r by (intro exI [of _ "?row # rows"] exI [of _ "extra @ tail"]) simp
qed simp

lemma length_date_bytes [simp]: "length (date_bytes c g) = 8"
  by (simp add: date_bytes_def Let_def)

lemma length_record_of: "wf_oid (c_tree c) \<Longrightarrow> oid_algo (c_tree c) = a \<Longrightarrow> length (record_of a gens e0 ps k c) = raw_len a + 16"
  by (simp add: record_of_def split_beta wf_oid_def)

subsection \<open>Dates and generations\<close>

lemma date_word0:
  fixes g hi :: "32 word"
  assumes "hi = hi AND 3"
  shows "drop_bit 2 (push_bit 2 (g AND 0x3fffffff) OR hi) = g AND 0x3fffffff"
    and "(push_bit 2 (g AND 0x3fffffff) OR hi) AND 3 = hi"
proof -
  have m: "(3 :: 32 word) = mask 2" "(0x3fffffff :: 32 word) = mask 30" by (simp_all add: mask_eq_exp_minus_1)
  have hi: "n < 2" if "bit hi n" for n
    using that by (subst (asm) assms, subst (asm) m(1)) (simp only: bit_and_iff bit_mask_iff)
  show "drop_bit 2 (push_bit 2 (g AND 0x3fffffff) OR hi) = g AND 0x3fffffff"
    unfolding m(2)
  proof (rule bit_word_eqI)
    fix n assume n: "n < LENGTH(32)"
    show "bit (drop_bit 2 (push_bit 2 (g AND mask 30) OR hi)) n = bit (g AND mask 30) n"
      using n hi [of "2 + n"] by (simp only: bit_drop_bit_eq comp_def bit_or_iff bit_push_bit_iff bit_and_iff bit_mask_iff) auto
  qed
  show "(push_bit 2 (g AND 0x3fffffff) OR hi) AND 3 = hi"
    unfolding m
  proof (rule bit_word_eqI)
    fix n assume n: "n < LENGTH(32)"
    show "bit ((push_bit 2 (g AND mask 30) OR hi) AND mask 2) n = bit hi n"
      using n hi [of n] by (simp only: bit_or_iff bit_push_bit_iff bit_and_iff bit_mask_iff) auto
  qed
qed

lemma date_join:
  fixes d :: "64 word"
  shows "push_bit 32 (ucast (ucast (drop_bit 32 d AND 3) :: 32 word)) OR ucast (ucast (d AND 0xffffffff) :: 32 word) = take_bit 34 d"
proof -
  have m: "(3 :: 64 word) = mask 2" "(0xffffffff :: 64 word) = mask 32" by (simp_all add: mask_eq_exp_minus_1)
  show ?thesis
    unfolding m
  proof (rule bit_word_eqI)
    fix n assume n: "n < LENGTH(64)"
    show "bit (push_bit 32 (ucast (ucast (drop_bit 32 d AND mask 2) :: 32 word)) OR ucast (ucast (d AND mask 32) :: 32 word) :: 64 word) n
        = bit (take_bit 34 d) n"
      using n by (simp only: bit_or_iff bit_push_bit_iff bit_unsigned_iff bit_and_iff bit_mask_iff bit_drop_bit_eq comp_def bit_take_bit_iff) auto
  qed
qed

lemma date_words_of:
  assumes "take (raw_len (cg_algo g) + 16) (drop (k * (raw_len (cg_algo g) + 16)) (cg_cdat g)) = pre @ date_bytes c n"
    and "length pre = raw_len (cg_algo g) + 8"
  shows "cg_commit_time_at g k = take_bit 34 (date_of c)" and "cg_generation_at g k = n mod 2 ^ 30"
proof -
  let ?hi = "ucast (drop_bit 32 (date_of c) AND 3) :: 32 word" and ?n = "of_nat n :: 32 word"
  have hi: "?hi = ?hi AND 3"
  proof (rule bit_word_eqI)
    fix j assume "j < LENGTH(32)"
    have m: "(3 :: 64 word) = mask 2" "(3 :: 32 word) = mask 2" by (simp_all add: mask_eq_exp_minus_1)
    show "bit ?hi j = bit (?hi AND 3) j"
      unfolding m by (simp only: bit_unsigned_iff bit_and_iff bit_mask_iff) auto
  qed
  have "date_words g k = (push_bit 2 (?n AND 0x3fffffff) OR ?hi, ucast (date_of c AND 0xffffffff))"
    unfolding date_words_def cg_record_def Let_def assms(1)
    using assms(2) by (simp add: date_bytes_def Let_def codec be32_def)
  then have w: "fst (date_words g k) = push_bit 2 (?n AND 0x3fffffff) OR ?hi" "snd (date_words g k) = ucast (date_of c AND 0xffffffff)"
    by simp_all
  show "cg_commit_time_at g k = take_bit 34 (date_of c)"
    unfolding cg_commit_time_at_def split_beta w date_word0(2) [OF hi] by (rule date_join)
  have "?n AND 0x3fffffff = take_bit 30 ?n" by (simp add: take_bit_eq_mask mask_eq_exp_minus_1)
  then show "cg_generation_at g k = n mod 2 ^ 30"
    unfolding cg_generation_at_def w date_word0(1) [OF hi]
    by (simp only: unsigned_take_bit_eq unsigned_of_nat take_bit_take_bit) (simp add: take_bit_eq_mod mod_mod_cancel)
qed

subsection \<open>Parents\<close>

lemma word_flag:
  fixes w l :: "'a::len word"
  assumes "w AND l = 0"
  shows "w AND NOT l = w" and "(w OR l) AND NOT l = w" and "(w OR l) AND l = l" and "(l OR w) AND NOT l = w" and "(l OR w) AND l = l"
proof -
  have d: "\<not> (bit w n \<and> bit l n)" for n using arg_cong [OF assms, of "\<lambda>v. bit v n"] by (simp only: bit_and_iff bit_0_eq) simp
  show "w AND NOT l = w" "(w OR l) AND NOT l = w" "(l OR w) AND NOT l = w"
    by (rule bit_word_eqI, use d in \<open>simp only: bit_and_iff bit_or_iff bit_not_iff possible_bit_word, blast\<close>)+
  show "(w OR l) AND l = l" "(l OR w) AND l = l"
    by (rule bit_word_eqI, simp only: bit_and_iff bit_or_iff, blast)+
qed

lemma position_word:
  assumes "p < 2 ^ 31"
  shows "(of_nat p :: 32 word) AND EDGE_LAST = 0" and "unat (of_nat p :: 32 word) = p"
  using bit31_small [OF assms] by (simp_all add: EDGE_LAST_def)

lemma EDGE_LAST_nonzero: "EDGE_LAST \<noteq> 0" by (simp add: EDGE_LAST_def)

lemma word_at_append: "length e0 = k \<Longrightarrow> word_at (e0 @ be_bytes (w :: 32 word) @ rest) k = Some w"
  by (simp add: word_at_def)

definition opt_list :: "'a option \<Rightarrow> 'a list" where
  "opt_list x = (case x of Some p \<Rightarrow> [p] | None \<Rightarrow> [])"

lemma edge_walk_words:
  assumes "cg_edge g = e0 @ concat (map be_bytes (edge_words (map of_nat ps))) @ e1" and "4 dvd length e0" and "ps \<noteq> []"
    and "\<And>p. p \<in> set ps \<Longrightarrow> p < 2 ^ 31"
  shows "edge_walk g (length e0 div 4) = concat (map (\<lambda>p. opt_list (cg_id_at g p)) ps)"
  using assms
proof (induction ps arbitrary: e0)
  case (Cons p ps)
  have p: "(of_nat p :: 32 word) AND EDGE_LAST = 0" "unat (of_nat p :: 32 word) = p" using position_word Cons.prems(4) by simp_all
  have i: "length e0 div 4 * 4 = length e0" using Cons.prems(2) by simp
  show ?case
  proof (cases ps)
    case Nil
    then have "word_at (cg_edge g) (length e0 div 4 * 4) = Some (of_nat p OR EDGE_LAST)"
      unfolding i using Cons.prems(1) by (simp add: word_at_append)
    then show ?thesis
      unfolding edge_walk.simps [of g "length e0 div 4"] using word_flag [OF p(1)] p(2) EDGE_LAST_nonzero Nil
      by (simp add: opt_list_def)
  next
    case (Cons q qs)
    have w: "word_at (cg_edge g) (length e0 div 4 * 4) = Some (of_nat p)"
      unfolding i using Cons.prems(1) Cons by (simp add: word_at_append)
    have s: "length (e0 @ be_bytes (of_nat p :: 32 word)) div 4 = length e0 div 4 + 1" by simp
    have "edge_walk g (length (e0 @ be_bytes (of_nat p :: 32 word)) div 4) = concat (map (\<lambda>p. opt_list (cg_id_at g p)) ps)"
    proof (rule Cons.IH)
      show "cg_edge g = (e0 @ be_bytes (of_nat p :: 32 word)) @ concat (map be_bytes (edge_words (map of_nat ps))) @ e1"
        using Cons.prems(1) Cons by simp
      show "4 dvd length (e0 @ be_bytes (of_nat p :: 32 word))" using Cons.prems(2) by simp
    qed (use Cons Cons.prems(4) in auto)
    then show ?thesis
      unfolding edge_walk.simps [of g "length e0 div 4"] w s using p word_flag(1) [OF p(1)]
      by (simp add: opt_list_def)
  qed
qed simp

lemma parents_at_record:
  assumes rec: "cg_record g k = t @ be_bytes first @ be_bytes second @ rest" and t: "length t = raw_len (cg_algo g)"
    and sl: "parent_slots e0 (map of_nat ps) = (first, second, extra)"
    and e: "cg_edge g = e0 @ extra @ e1" "4 dvd length e0" "length (cg_edge g) < 2 ^ 33"
    and ps: "\<And>p. p \<in> set ps \<Longrightarrow> p < 0x70000000"
  shows "cg_parents_at g k = concat (map (\<lambda>p. opt_list (cg_id_at g p)) ps)"
proof -
  have w: "word_at (cg_record g k) (raw_len (cg_algo g)) = Some first"
    "word_at (cg_record g k) (raw_len (cg_algo g) + 4) = Some second"
  proof -
    show "word_at (cg_record g k) (raw_len (cg_algo g)) = Some first" unfolding rec by (rule word_at_append [OF t])
    have "cg_record g k = (t @ be_bytes first) @ be_bytes second @ rest" by (simp add: rec)
    then show "word_at (cg_record g k) (raw_len (cg_algo g) + 4) = Some second"
      using word_at_append [of "t @ be_bytes first" "raw_len (cg_algo g) + 4" second rest] t by simp
  qed
  have small: "(of_nat p :: 32 word) \<noteq> PARENT_NONE" "unat (of_nat p :: 32 word) = p" "(of_nat p :: 32 word) AND EDGE_LAST = 0"
    if "p \<in> set ps" for p
  proof -
    have p: "p < 0x70000000" "p < 2 ^ 31" using ps [OF that] by simp_all
    show "unat (of_nat p :: 32 word) = p" "(of_nat p :: 32 word) AND EDGE_LAST = 0" using position_word [OF p(2)] by simp_all
    moreover have "unat PARENT_NONE = 0x70000000" by (simp add: PARENT_NONE_def)
    ultimately show "(of_nat p :: 32 word) \<noteq> PARENT_NONE" using p(1) by (metis less_irrefl)
  qed
  note d = cg_parents_at_def Let_def w option.case opt_list_def [symmetric]
  consider "ps = []" | p where "ps = [p]" | p q where "ps = [p, q]" | p q r rs where "ps = p # q # r # rs"
    by (metis neq_Nil_conv)
  then show ?thesis
  proof cases
    case 1
    then show ?thesis using sl by (simp add: d)
  next
    case 2
    then show ?thesis using sl small [of p] unfolding d by (auto simp: opt_list_def)
  next
    case 3
    then show ?thesis using sl small [of p] small [of q] unfolding d by (auto simp: opt_list_def)
  next
    case 4
    let ?j = "length e0 div 4"
    have sl': "first = of_nat p" "second = EDGE_LAST OR of_nat ?j" "extra = concat (map be_bytes (edge_words (map of_nat (q # r # rs))))"
      using sl 4 by auto
    have "length e0 < 2 ^ 33" using e(1,3) by simp
    then have j: "(of_nat ?j :: 32 word) AND EDGE_LAST = 0" "unat (of_nat ?j :: 32 word) = ?j"
      using position_word [of ?j] by simp_all
    have s: "second AND EDGE_LAST = EDGE_LAST" "second AND NOT EDGE_LAST = of_nat ?j"
      unfolding sl'(2) using word_flag(4,5) [OF j(1)] by simp_all
    have "PARENT_NONE AND EDGE_LAST = 0" by (simp add: PARENT_NONE_def EDGE_LAST_def)
    then have "second \<noteq> PARENT_NONE" using s(1) EDGE_LAST_nonzero by metis
    moreover have "edge_walk g ?j = concat (map (\<lambda>p. opt_list (cg_id_at g p)) (q # r # rs))"
    proof (rule edge_walk_words [of g e0 _ e1])
      show "cg_edge g = e0 @ concat (map be_bytes (edge_words (map of_nat (q # r # rs)))) @ e1" using e(1) sl'(3) by simp
      show "x < 2 ^ 31" if "x \<in> set (q # r # rs)" for x using ps [of x] that 4 by simp
    qed (use e(2) in simp_all)
    ultimately show ?thesis unfolding d using s j(2) small [of p] 4 EDGE_LAST_nonzero by (simp add: sl'(1) opt_list_def)
  qed
qed

subsection \<open>The file\<close>

fun extents :: "nat \<Rightarrow> (32 word \<times> bytes) list \<Rightarrow> (32 word \<rightharpoonup> nat \<times> nat) \<Rightarrow> (32 word \<rightharpoonup> nat \<times> nat)" where
  "extents off [] m = m"
| "extents off ((i, data) # chunks) m = extents (off + length data) chunks (m(i \<mapsto> (off, off + length data)))"

lemma chunk_extents_rows:
  "off + length (concat (map snd chunks)) \<le> body_len \<Longrightarrow> body_len < 2 ^ 64 \<Longrightarrow>
     chunk_extents body_len (rows_of off chunks) m = Ok (extents off chunks m)"
proof (induction chunks arbitrary: off m)
  case (Cons c chunks)
  obtain i data where c: "c = (i, data)" by (cases c)
  have bound: "off \<le> off + length data" "off + length data \<le> body_len" using Cons.prems(1) by (simp_all add: c)
  have u: "unat (of_nat off :: 64 word) = off" "unat (of_nat (off + length data) :: 64 word) = off + length data"
  proof -
    have "unat (of_nat k :: 64 word) = k" if "k < 2 ^ 64" for k using that by (simp add: unat_of_nat)
    then show "unat (of_nat off :: 64 word) = off" "unat (of_nat (off + length data) :: 64 word) = off + length data"
      using bound Cons.prems(2) by (simp_all del: of_nat_add)
  qed
  then have le: "\<not> (of_nat (off + length data) :: 64 word) < of_nat off" by (simp add: word_less_nat_alt del: of_nat_add)
  obtain j rows where r: "rows_of (off + length data) chunks = (j, of_nat (off + length data)) # rows"
    by (cases chunks rule: rows_of.cases [of "(off, chunks)" for off chunks, simplified]) auto
  have "chunk_extents body_len (rows_of (off + length data) chunks) (m(i \<mapsto> (off, off + length data)))
      = Ok (extents (off + length data) chunks (m(i \<mapsto> (off, off + length data))))"
    using Cons.prems by (intro Cons.IH) (simp_all add: c)
  then show ?case using u bound le by (simp add: c r del: of_nat_add)
qed simp

lemma slice_append: "length p = s \<Longrightarrow> e = s + length x \<Longrightarrow> slice (p @ x @ r) (s, e) = x"
  by (simp add: slice_def)

lemma graph_parse_file:
  assumes dg: "digest_ok dg" and big: "length (graph_file dg a (graph_chunks a ids cdat edge)) < 2 ^ 33"
    and ids: "\<forall>i\<in>set ids. length (as_bytes i) = raw_len a" and cdat: "length cdat = length ids * (raw_len a + 16)"
  shows "commit_graph_parse dg a (graph_file dg a (graph_chunks a ids cdat edge)) =
    Ok \<lparr>cg_algo = a, cg_oids = concat (map as_bytes ids), cg_cdat = cdat, cg_edge = edge, cg_count = length ids\<rparr>"
proof -
  let ?cs = "graph_chunks a ids cdat edge" and ?h = "raw_len a"
  let ?data = "graph_file dg a ?cs"
  define n where "n = length ?cs"
  define oids where "oids = concat (map as_bytes ids)"
  define H where "H = CG_SIGNATURE @ [1, if a = Sha256 then 2 else 1, of_nat n, 0]"
  define T where "T = table_rows (of_nat (8 + (n + 1) * 12)) ?cs"
  define C where "C = concat (map snd ?cs)"
  define X where "X = hash_bytes dg a (H @ T @ C)"
  have n: "n = (if edge = [] then 3 else 4)" by (simp add: n_def graph_chunks_def)
  have o: "concat (map (\<lambda>i. take ?h (as_bytes i)) ids) = oids"
    unfolding oids_def using ids by (intro arg_cong [where f = concat] map_cong) auto
  have lo: "length oids = length ids * ?h" unfolding oids_def using ids by (intro length_concat_block) simp
  have d: "?data = H @ T @ C @ X" by (simp add: graph_file_def Let_def H_def T_def C_def X_def n_def)
  have lens: "length H = 8" "length T = 12 * Suc n" "length X = ?h"
    using dg by (simp_all add: H_def T_def n_def X_def CG_SIGNATURE_def hash_bytes_def digest_ok_def)
  have body: "take (length ?data - ?h) ?data = H @ T @ C" "drop (length ?data - ?h) ?data = X"
    unfolding d using lens by simp_all
  have h: "take 4 ?data = CG_SIGNATURE" "?data ! 4 = 1" "unat (?data ! 6) = n" "\<not> length ?data < 8 + ?h"
  proof -
    have "H = CG_SIGNATURE @ [1, if a = Sha256 then 2 else 1, of_nat n, 0]" "length CG_SIGNATURE = 4"
      by (simp_all add: H_def CG_SIGNATURE_def)
    then show "take 4 ?data = CG_SIGNATURE" "?data ! 4 = 1" "unat (?data ! 6) = n"
      unfolding d n by (simp_all add: nth_append)
    show "\<not> length ?data < 8 + ?h" unfolding d using lens by simp
  qed
  let ?body = "length (H @ T @ C)"
  have rows: "read_rows ?data ?body 8 (Suc n) = Some (rows_of (8 + (n + 1) * 12) ?cs)"
    unfolding d T_def n_def by (rule read_rows_table) (use lens in \<open>simp_all add: n_def\<close>)
  have ext: "chunk_extents ?body (rows_of (8 + (n + 1) * 12) ?cs) Map.empty = Ok (extents (8 + (n + 1) * 12) ?cs Map.empty)"
    using big lens by (intro chunk_extents_rows) (simp_all add: d C_def)
  let ?m = "extents (8 + (n + 1) * 12) ?cs Map.empty" and ?p = "8 + (n + 1) * 12"
  let ?f = "oid_fanout ids"
  have Ceq: "C = ?f @ oids @ cdat @ edge" by (simp add: C_def graph_chunks_def o)
  have ne: "CHUNK_OIDF \<noteq> CHUNK_OIDL" "CHUNK_OIDF \<noteq> CHUNK_CDAT" "CHUNK_OIDL \<noteq> CHUNK_CDAT" "CHUNK_EDGE \<noteq> CHUNK_OIDL"
      "CHUNK_EDGE \<noteq> CHUNK_CDAT" "CHUNK_EDGE \<noteq> CHUNK_OIDF"
    by (simp_all add: CHUNK_OIDF_def CHUNK_OIDL_def CHUNK_CDAT_def CHUNK_EDGE_def)
  have m: "?m CHUNK_OIDL = Some (?p + length ?f, ?p + length ?f + length oids)"
      "?m CHUNK_CDAT = Some (?p + length ?f + length oids, ?p + length ?f + length oids + length cdat)"
      "?m CHUNK_EDGE = (if edge = [] then None else Some (?p + length ?f + length oids + length cdat, ?p + length ?f + length oids + length cdat + length edge))"
    using ne by (simp_all add: graph_chunks_def o)
  have P: "length (H @ T) = ?p" using lens by simp
  have s: "slice ?data (?p + length ?f, ?p + length ?f + length oids) = oids"
      "slice ?data (?p + length ?f + length oids, ?p + length ?f + length oids + length cdat) = cdat"
      "slice ?data (?p + length ?f + length oids + length cdat, ?p + length ?f + length oids + length cdat + length edge) = edge"
  proof -
    have "?data = (H @ T @ ?f) @ oids @ (cdat @ edge @ X)" "?data = (H @ T @ ?f @ oids) @ cdat @ (edge @ X)"
      "?data = (H @ T @ ?f @ oids @ cdat) @ edge @ X"
      by (simp_all add: d Ceq)
    then show "slice ?data (?p + length ?f, ?p + length ?f + length oids) = oids"
      "slice ?data (?p + length ?f + length oids, ?p + length ?f + length oids + length cdat) = cdat"
      "slice ?data (?p + length ?f + length oids + length cdat, ?p + length ?f + length oids + length cdat + length edge) = edge"
      using P by (metis (no_types, lifting) slice_append append.assoc length_append)+
  qed
  have cnt: "length oids div ?h = length ids" using lo by (cases a) simp_all
  have x: "hash_bytes dg a (H @ T @ C) = X" by (simp add: X_def)
  obtain ol cd where oc: "?m CHUNK_OIDL = Some ol" "slice ?data ol = oids" "?m CHUNK_CDAT = Some cd" "slice ?data cd = cdat"
    using m(1,2) s(1,2) by blast
  have e: "(case ?m CHUNK_EDGE of Some e \<Rightarrow> slice ?data e | None \<Rightarrow> []) = edge" unfolding m(3) using s(3) by simp
  define M where "M = ?m"
  note oc = oc [folded M_def] and e = e [folded M_def]
  show ?thesis
    unfolding commit_graph_parse_def Let_def body h(1-3) x rows M_def [symmetric]
    using h(4) cdat by (simp only: ext [folded M_def] ok_or_def bind_res_Ok oc e cnt option.case simp_thms if_False HOL.if_True oids_def [symmetric])
qed

subsection \<open>The generations exist exactly without cycles\<close>

definition parent_edges :: "hash_algo \<Rightarrow> reader \<Rightarrow> object_id set \<Rightarrow> (object_id \<times> object_id) set" where
  "parent_edges a rd S = {(p, i). i \<in> S \<and> (\<exists>pl c. rd i = Ok (Commit, pl) \<and> commit_parse a pl = Ok c \<and> p \<in> set (c_parents c))}"

lemma level_exists:
  assumes "wf E"
  shows "\<exists>G :: 'a \<Rightarrow> nat. \<forall>i. G i = Max (insert 1 ((\<lambda>p. G p + 1) ` {p. (p, i) \<in> E}))"
proof -
  define F where "F = (\<lambda>(f :: 'a \<Rightarrow> nat) i. Max (insert 1 ((\<lambda>p. f p + 1) ` {p. (p, i) \<in> E})))"
  have "wfrec E F i = F (wfrec E F) i" for i
  proof -
    have "(\<lambda>p. cut (wfrec E F) E i p + 1) ` {p. (p, i) \<in> E} = (\<lambda>p. wfrec E F p + 1) ` {p. (p, i) \<in> E}"
      by (rule image_cong) (simp_all add: cut_apply)
    then show ?thesis by (subst wfrec [OF assms]) (simp add: F_def)
  qed
  then show ?thesis unfolding F_def by blast
qed

lemma level_attained:
  fixes G :: "'a \<Rightarrow> nat"
  assumes G: "\<And>i. G i = Max (insert 1 ((\<lambda>p. G p + 1) ` {p. (p, i) \<in> E}))" and E: "finite E" "E \<subseteq> S \<times> S"
    and i: "i \<in> S" "1 \<le> m" "m \<le> G i"
  shows "m \<in> G ` S"
  using i
proof (induction i rule: measure_induct_rule [of G])
  case (less i)
  have fin: "finite (insert 1 ((\<lambda>p. G p + 1) ` {p. (p, i) \<in> E}))"
  proof -
    have "{p. (p, i) \<in> E} \<subseteq> fst ` E" by force
    then show ?thesis using E(1) finite_subset by fast
  qed
  show ?case
  proof (cases "m = G i")
    case False
    have "G i \<in> insert 1 ((\<lambda>p. G p + 1) ` {p. (p, i) \<in> E})" using Max_in [OF fin] G [of i] by simp
    then obtain p where p: "(p, i) \<in> E" "G i = G p + 1" using False less.prems by auto
    then show ?thesis using less.IH [of p] less.prems False E(2) by auto
  qed (use less.prems in simp)
qed

text \<open>What the writer knows of its commits: parsed values and positions of parents.\<close>

definition graph_input :: "hash_algo \<Rightarrow> object_id list \<Rightarrow> commit list \<Rightarrow> (nat \<Rightarrow> nat list) \<Rightarrow> bool" where
  "graph_input a ids cs ps \<longleftrightarrow>
     length cs = length ids \<and> (\<forall>k<length ids. parent_positions (positions_of ids) (c_parents (cs ! k)) = Ok (ps k)
        \<and> set (ps k) \<subseteq> {..<length ids} \<and> map ((!) ids) (ps k) = c_parents (cs ! k))"

lemma graph_input_parents:
  assumes "graph_input a ids cs ps" and "k < length ids"
  shows "set (c_parents (cs ! k)) = (!) ids ` set (ps k)" and "set (ps k) \<subseteq> {..<length ids}"
proof -
  have "c_parents (cs ! k) = map ((!) ids) (ps k)" using assms by (simp add: graph_input_def)
  then show "set (c_parents (cs ! k)) = (!) ids ` set (ps k)" by simp
  show "set (ps k) \<subseteq> {..<length ids}" using assms by (simp add: graph_input_def)
qed

lemma relax_pass_levels:
  assumes inp: "graph_input a ids cs ps" and G: "\<And>k. k < length ids \<Longrightarrow> G k = Max (insert 1 ((\<lambda>p. G p + 1) ` set (ps k)))"
    and pass: "relax_pass (positions_of ids) i (drop i cs) gens ch = Ok (ch', gens')" and "length gens = length ids"
    and "\<forall>k<length ids. G k \<le> t \<longrightarrow> gens ! k = G k" and "\<forall>k<i. k < length ids \<longrightarrow> G k \<le> Suc t \<longrightarrow> gens ! k = G k"
  shows "\<forall>k<length ids. G k \<le> Suc t \<longrightarrow> gens' ! k = G k"
  using assms(3-6)
proof (induction "length ids - i" arbitrary: i gens ch)
  case 0
  then have "drop i cs = []" using inp by (simp add: graph_input_def)
  with 0 show ?case by simp
next
  case (Suc n)
  then have i: "i < length ids" by simp
  then have c: "drop i cs = cs ! i # drop (Suc i) cs" using inp by (metis Cons_nth_drop_Suc graph_input_def)
  have ps: "parent_positions (positions_of ids) (c_parents (cs ! i)) = Ok (ps i)" "set (ps i) \<subseteq> {..<length ids}"
    using inp i by (auto simp: graph_input_def)
  let ?g = "next_generation gens (ps i)"
  have g: "?g = G i" if "G i \<le> Suc t"
  proof -
    have "gens ! p = G p" if "p \<in> set (ps i)" for p
    proof -
      have "G p + 1 \<le> G i" unfolding G [OF i] using that by (intro Max_ge) auto
      then show ?thesis using Suc.prems(3) \<open>G i \<le> Suc t\<close> that ps(2) by auto
    qed
    then have "(\<lambda>p. gens ! p + 1) ` set (ps i) = (\<lambda>p. G p + 1) ` set (ps i)" by (intro image_cong) auto
    then show ?thesis by (simp add: next_generation_Max G [OF i])
  qed
  show ?case
  proof (cases "?g = gens ! i")
    case True
    then have "relax_pass (positions_of ids) (Suc i) (drop (Suc i) cs) gens ch = Ok (ch', gens')"
      using Suc.prems(1) ps(1) unfolding c by (simp add: Let_def)
    moreover have "\<forall>k<Suc i. k < length ids \<longrightarrow> G k \<le> Suc t \<longrightarrow> gens ! k = G k"
      using Suc.prems(4) g True by (auto simp: less_Suc_eq)
    ultimately show ?thesis using Suc.hyps(1) [of "Suc i" gens ch] Suc.hyps(2) Suc.prems(2,3) by simp
  next
    case False
    then have "relax_pass (positions_of ids) (Suc i) (drop (Suc i) cs) (gens[i := ?g]) True = Ok (ch', gens')"
      using Suc.prems(1) ps(1) unfolding c by (simp add: Let_def)
    moreover have "\<forall>k<length ids. G k \<le> t \<longrightarrow> gens[i := ?g] ! k = G k"
      using Suc.prems(2,3) g i by (auto simp: nth_list_update)
    moreover have "\<forall>k<Suc i. k < length ids \<longrightarrow> G k \<le> Suc t \<longrightarrow> gens[i := ?g] ! k = G k"
      using Suc.prems(2,4) g i by (auto simp: less_Suc_eq nth_list_update)
    ultimately show ?thesis using Suc.hyps(1) [of "Suc i" "gens[i := ?g]" True] Suc.hyps(2) Suc.prems(2) by simp
  qed
qed

lemma relax_pass_total:
  assumes "graph_input a ids cs ps"
  shows "\<exists>r. relax_pass (positions_of ids) i (drop i cs) gens ch = Ok r"
proof (induction "length ids - i" arbitrary: i gens ch)
  case 0
  then have "drop i cs = []" using assms by (simp add: graph_input_def)
  then show ?case by simp
next
  case (Suc n)
  then have i: "i < length ids" by simp
  then have c: "drop i cs = cs ! i # drop (Suc i) cs" using assms by (metis Cons_nth_drop_Suc graph_input_def)
  have "parent_positions (positions_of ids) (c_parents (cs ! i)) = Ok (ps i)" using assms i by (auto simp: graph_input_def)
  then show ?case using Suc.hyps(1) [of "Suc i"] Suc.hyps(2) i unfolding c by (simp add: Let_def)
qed

lemma generations_total:
  assumes inp: "graph_input a ids cs ps" and G: "\<And>k. k < length ids \<Longrightarrow> G k = Max (insert 1 ((\<lambda>p. G p + 1) ` set (ps k)))"
    and top: "\<And>k. k < length ids \<Longrightarrow> G k \<le> t + r" and "length gens = length ids" and "\<forall>k<length ids. G k \<le> t \<longrightarrow> gens ! k = G k"
  shows "\<exists>gens'. generations (positions_of ids) cs (Suc r) gens = Ok gens'"
  using assms(3-5)
proof (induction r arbitrary: t gens)
  case 0
  obtain ch g where r: "relax_pass (positions_of ids) 0 cs gens False = Ok (ch, g)" using relax_pass_total [OF inp, of 0 gens False] by auto
  have all: "\<forall>k<length ids. gens ! k = G k" using 0 by simp
  have "relax_pass (positions_of ids) i (drop i cs) gens False = Ok (False, gens)" for i
  proof (induction "length ids - i" arbitrary: i)
    case 0
    then have "drop i cs = []" using inp by (simp add: graph_input_def)
    then show ?case by simp
  next
    case (Suc n)
    then have i: "i < length ids" by simp
    then have c: "drop i cs = cs ! i # drop (Suc i) cs" using inp by (metis Cons_nth_drop_Suc graph_input_def)
    have ps: "parent_positions (positions_of ids) (c_parents (cs ! i)) = Ok (ps i)" "set (ps i) \<subseteq> {..<length ids}"
      using inp i by (auto simp: graph_input_def)
    have "(\<lambda>p. gens ! p + 1) ` set (ps i) = (\<lambda>p. G p + 1) ` set (ps i)" using all ps(2) by (intro image_cong) auto
    then have "next_generation gens (ps i) = gens ! i" using all i by (simp add: next_generation_Max G [OF i])
    then show ?case using Suc.hyps(1) [of "Suc i"] Suc.hyps(2) ps(1) unfolding c by (simp add: Let_def)
  qed
  from this [of 0] show ?case by simp
next
  case (Suc r)
  obtain ch g where r: "relax_pass (positions_of ids) 0 cs gens False = Ok (ch, g)" using relax_pass_total [OF inp, of 0 gens False] by auto
  have "\<forall>k<length ids. G k \<le> Suc t \<longrightarrow> g ! k = G k"
    by (rule relax_pass_levels [OF inp G, of 0 gens False ch]) (use r Suc.prems in simp_all)
  moreover have "length g = length ids" using relax_pass_length [OF r] Suc.prems(2) by simp
  ultimately have "\<exists>gens'. generations (positions_of ids) cs (Suc r) g = Ok gens'" using Suc.IH [of "Suc t" g] Suc.prems(1) by simp
  then show ?case unfolding generations.simps(2) [of _ _ "Suc r"] r by auto
qed

lemma commit_data_total:
  assumes "\<And>c. c \<in> set cs \<Longrightarrow> \<exists>ps. parent_positions pos (c_parents c) = Ok ps"
  shows "\<exists>r. commit_data a pos gens cdat edge i cs = Ok r"
  using assms
proof (induction cs arbitrary: cdat edge i)
  case (Cons c cs)
  have "\<exists>ps. parent_positions pos (c_parents c) = Ok ps" by (rule Cons.prems) simp
  then obtain ps where "parent_positions pos (c_parents c) = Ok ps" by blast
  moreover obtain first second extra where "parent_slots edge (map of_nat ps) = (first, second, extra)"
    by (cases "parent_slots edge (map of_nat ps)")
  ultimately show ?case using Cons by simp
qed simp

text \<open>The writer's results, taken apart.\<close>

lemma write_commit_graph_Ok:
  assumes "write_commit_graph dg a rd commits = Ok data" and "set commits \<subseteq> known_ids a"
  defines "ids \<equiv> sorted_ids commits"
  obtains cs ps gens cdat edge where "graph_input a ids cs ps"
    and "\<forall>k<length ids. \<exists>pl. rd (ids ! k) = Ok (Commit, pl) \<and> commit_parse a pl = Ok (cs ! k)"
    and "\<forall>k<length ids. gens ! k = Max (insert 1 ((\<lambda>p. gens ! p + 1) ` set (ps k)))"
    and "commit_data a (positions_of ids) gens [] [] 0 cs = Ok (cdat, edge)"
    and "data = graph_file dg a (graph_chunks a ids cdat edge)"
proof -
  obtain cs gens cdat edge where w: "read_commits a rd ids = Ok cs"
      "generations (positions_of ids) cs (length ids + 1) (replicate (length ids) 0) = Ok gens"
      "commit_data a (positions_of ids) gens [] [] 0 cs = Ok (cdat, edge)"
      "data = graph_file dg a (graph_chunks a ids cdat edge)"
    using assms(1) by (auto simp: write_commit_graph_def Let_def bind_res_eq_Ok ids_def)
  have r: "length cs = length ids" "\<forall>k<length ids. \<exists>pl. rd (ids ! k) = Ok (Commit, pl) \<and> commit_parse a pl = Ok (cs ! k)"
    using w(1) unfolding read_commits_Ok by blast+
  have known: "set ids \<subseteq> known_ids a" "distinct (map as_bytes ids)"
    using sorted_ids_facts [OF assms(2)] assms(2) by (simp_all add: ids_def)
  define ps where "ps = (\<lambda>k. unwrap (parent_positions (positions_of ids) (c_parents (cs ! k))))"
  have "relax_pass (positions_of ids) 0 cs gens False = Ok (False, gens)" using generations_stable [OF w(2)] by simp
  from relax_pass_stable [OF this]
  have st: "\<forall>k<length ids. parent_positions (positions_of ids) (c_parents (cs ! k)) = Ok (ps k) \<and> gens ! k = next_generation gens (ps k)"
    unfolding r(1) ps_def by auto
  have "set (ps k) \<subseteq> {..<length ids} \<and> map ((!) ids) (ps k) = c_parents (cs ! k)" if "k < length ids" for k
  proof -
    have "set (c_parents (cs ! k)) \<subseteq> known_ids a" using r(2) that commit_parse_known by blast
    then show ?thesis using parent_positions_Ok [OF known(2,1)] st that by blast
  qed
  then have "graph_input a ids cs ps" using r(1) st by (simp add: graph_input_def)
  then show thesis using that [OF _ r(2) _ w(3,4)] st by (simp add: next_generation_Max)
qed

subsection \<open>Reading what was written\<close>

definition graph_value :: "hash_algo \<Rightarrow> object_id list \<Rightarrow> bytes \<Rightarrow> bytes \<Rightarrow> commit_graph" where
  "graph_value a ids cdat edge =
     \<lparr>cg_algo = a, cg_oids = concat (map as_bytes ids), cg_cdat = cdat, cg_edge = edge, cg_count = length ids\<rparr>"

lemma graph_value_simps [simp]:
  "cg_algo (graph_value a ids cdat edge) = a" "cg_count (graph_value a ids cdat edge) = length ids"
  "cg_edge (graph_value a ids cdat edge) = edge" "cg_cdat (graph_value a ids cdat edge) = cdat"
  "cg_oids (graph_value a ids cdat edge) = concat (map as_bytes ids)"
  by (simp_all add: graph_value_def)

lemma graph_rows:
  assumes "commit_data a (positions_of ids) gens [] [] 0 cs = Ok (cdat, edge)" and "graph_input a ids cs ps"
    and "\<forall>k<length ids. wf_oid (c_tree (cs ! k)) \<and> oid_algo (c_tree (cs ! k)) = a"
  shows "length cdat = length ids * (raw_len a + 16) \<and> (\<forall>k<length ids. \<exists>e0 e1. 4 dvd length e0 \<and> edge = e0 @ slot_edges e0 (ps k) @ e1
      \<and> cg_record (graph_value a ids cdat edge) k = record_of a gens e0 (ps k) k (cs ! k))"
proof -
  have len: "length cs = length ids" using assms(2) by (simp add: graph_input_def)
  obtain rows where rows: "cdat = concat rows" "length rows = length ids"
      "\<forall>k<length ids. \<exists>qs e0 e1. parent_positions (positions_of ids) (c_parents (cs ! k)) = Ok qs \<and> 4 dvd length e0
          \<and> edge = e0 @ slot_edges e0 qs @ e1 \<and> rows ! k = record_of a gens e0 qs k (cs ! k)"
    using commit_data_rows [OF assms(1)] unfolding len by auto
  have row: "\<exists>e0 e1. 4 dvd length e0 \<and> edge = e0 @ slot_edges e0 (ps k) @ e1 \<and> rows ! k = record_of a gens e0 (ps k) k (cs ! k)"
    if "k < length ids" for k
    using rows(3) that assms(2) unfolding graph_input_def by (metis result.inject(1))
  have lrow: "length r = raw_len a + 16" if r: "r \<in> set rows" for r
  proof -
    obtain k where k: "k < length ids" "r = rows ! k" using r unfolding in_set_conv_nth rows(2) by blast
    obtain e0 where "rows ! k = record_of a gens e0 (ps k) k (cs ! k)" using row [OF k(1)] by blast
    moreover have "length (record_of a gens e0 (ps k) k (cs ! k)) = raw_len a + 16"
      using assms(3) k(1) by (intro length_record_of) blast+
    ultimately show ?thesis unfolding k(2) by (simp only:)
  qed
  have "length cdat = length ids * (raw_len a + 16)"
    using length_concat_block [of rows "\<lambda>x. x"] lrow rows(1,2) by simp
  moreover have "cg_record (graph_value a ids cdat edge) k = rows ! k" if "k < length ids" for k
    using concat_block [of rows "\<lambda>x. x" "raw_len a + 16" k "[]"] lrow rows(1,2) that by (simp add: cg_record_def Let_def)
  ultimately show ?thesis using row by simp
qed

lemma graph_oid_row:
  assumes "set ids \<subseteq> known_ids a" and "k < length ids"
  shows "take (raw_len a) (drop (k * raw_len a) (concat (map as_bytes ids))) = as_bytes (ids ! k)"
  using concat_block [of ids as_bytes "raw_len a" k "[]"] assms by (auto simp: known_ids_def wf_oid_def)

lemma graph_id_at:
  assumes "set ids \<subseteq> known_ids a" and "k < length ids"
  shows "cg_id_at (graph_value a ids cdat edge) k = Some (ids ! k)"
proof -
  have "ids ! k \<in> known_ids a" using assms nth_mem by blast
  then have "from_bytes a (as_bytes (ids ! k)) = Ok (ids ! k)" by (auto simp: known_ids_def intro: from_bytes_as_bytes)
  moreover have "length (concat (map as_bytes ids)) = length ids * raw_len a"
    using assms(1) by (intro length_concat_block) (auto simp: known_ids_def wf_oid_def)
  moreover have "Suc k * raw_len a \<le> length ids * raw_len a" using assms(2) by (intro mult_le_mono1) simp
  ultimately show ?thesis using graph_oid_row [OF assms] by (simp add: cg_id_at_def Let_def)
qed

lemma graph_position:
  assumes "set ids \<subseteq> known_ids a" and "sorted_wrt (<) (map as_bytes ids)" and "wf_oid i"
  shows "cg_position_of (graph_value a ids cdat edge) i = Some k \<longleftrightarrow> k < length ids \<and> ids ! k = i"
proof
  let ?row = "\<lambda>k. take (raw_len a) (drop (k * raw_len a) (concat (map as_bytes ids)))"
  have known: "oid_algo (ids ! k) = a" "length (as_bytes (ids ! k)) = raw_len a" if "k < length ids" for k
    using assms(1) nth_mem [OF that] by (auto simp: known_ids_def wf_oid_def)
  show "k < length ids \<and> ids ! k = i" if p: "cg_position_of (graph_value a ids cdat edge) i = Some k"
  proof -
    have i: "oid_algo i = a" "take (raw_len a) (as_bytes i) = as_bytes i"
      using p assms(3) by (auto simp: cg_position_of_def wf_oid_def split: if_splits)
    then have "search_loop ?row (as_bytes i) 0 (length ids) = Some k" using p by (simp add: cg_position_of_def Let_def)
    then have k: "k < length ids" "?row k = as_bytes i" using search_loop_sound by blast+
    then have "as_bytes (ids ! k) = as_bytes i" using graph_oid_row [OF assms(1) k(1)] by simp
    then show ?thesis using k(1) known(1) i(1) by (auto intro: object_id.expand)
  qed
  assume k: "k < length ids \<and> ids ! k = i"
  have "?row m < ?row n" if "m < n" "n < length ids" for m n
    using that assms(2) graph_oid_row [OF assms(1)] by (simp add: sorted_wrt_iff_nth_less)
  then have "search_loop ?row (as_bytes i) 0 (length ids) = Some k"
    using k graph_oid_row [OF assms(1)] by (intro search_loop_complete [where n = "length ids"]) auto
  then show "cg_position_of (graph_value a ids cdat edge) i = Some k"
    using k known [of k] by (simp add: cg_position_of_def Let_def)
qed

lemma graph_lookup:
  assumes "graph_input a ids cs ps" and "set ids \<subseteq> known_ids a" and k: "k < length ids"
    and rec: "cg_record (graph_value a ids cdat edge) k = record_of a gens e0 (ps k) k (cs ! k)"
    and e: "4 dvd length e0" "edge = e0 @ slot_edges e0 (ps k) @ e1"
    and big: "length edge < 2 ^ 33" "length ids < 0x70000000"
    and tree: "wf_oid (c_tree (cs ! k))" "oid_algo (c_tree (cs ! k)) = a"
  shows "cg_tree_at (graph_value a ids cdat edge) k = Some (c_tree (cs ! k))
    \<and> cg_parents_at (graph_value a ids cdat edge) k = c_parents (cs ! k)
    \<and> cg_commit_time_at (graph_value a ids cdat edge) k = take_bit 34 (date_of (cs ! k))
    \<and> cg_generation_at (graph_value a ids cdat edge) k = gens ! k mod 2 ^ 30"
proof -
  let ?g = "graph_value a ids cdat edge" and ?c = "cs ! k"
  obtain first second extra where sl: "parent_slots e0 (map of_nat (ps k)) = (first, second, extra)"
    by (cases "parent_slots e0 (map of_nat (ps k))")
  have t: "length (as_bytes (c_tree ?c)) = raw_len a" using tree by (simp add: wf_oid_def)
  have rec': "cg_record ?g k = as_bytes (c_tree ?c) @ be_bytes first @ be_bytes second @ date_bytes ?c (gens ! k)"
    using rec sl t by (simp add: record_of_def)
  have psk: "p < length ids" if "p \<in> set (ps k)" for p using assms(1) k that by (auto simp: graph_input_def)
  have edge: "cg_edge ?g = e0 @ extra @ e1" using e(2) sl by simp
  have "cg_parents_at ?g k = concat (map (\<lambda>p. opt_list (cg_id_at ?g p)) (ps k))"
    by (rule parents_at_record [OF rec' _ sl edge e(1)]) (use t big psk in \<open>auto intro: less_trans\<close>)
  also have "\<dots> = concat (map (\<lambda>p. [ids ! p]) (ps k))"
    using psk graph_id_at [OF assms(2)] by (intro arg_cong [where f = concat] map_cong) (simp_all add: opt_list_def)
  also have "\<dots> = map ((!) ids) (ps k)" by (rule concat_map_singleton)
  also have "\<dots> = c_parents ?c" using assms(1) k by (simp add: graph_input_def)
  finally have "cg_parents_at ?g k = c_parents ?c" .
  moreover have "cg_tree_at ?g k = Some (c_tree ?c)"
    using t from_bytes_as_bytes [OF tree] by (simp add: cg_tree_at_def rec')
  moreover have "cg_commit_time_at ?g k = take_bit 34 (date_of ?c)" "cg_generation_at ?g k = gens ! k mod 2 ^ 30"
    using date_words_of [of ?g k "as_bytes (c_tree ?c) @ be_bytes first @ be_bytes second" ?c "gens ! k"] rec' t
    by (simp_all add: cg_record_def Let_def)
  ultimately show ?thesis by blast
qed

text \<open>The size of a written file bounds what is in it.\<close>

lemma graph_file_sizes:
  assumes "length (graph_file dg a (graph_chunks a ids cdat edge)) < 2 ^ 33" and "length cdat = length ids * (raw_len a + 16)"
  shows "length edge < 2 ^ 33" and "length ids < 0x70000000"
proof -
  have "length cdat + length edge \<le> length (concat (map snd (graph_chunks a ids cdat edge)))" by (simp add: graph_chunks_def)
  also have "\<dots> \<le> length (graph_file dg a (graph_chunks a ids cdat edge))" unfolding graph_file_def Let_def by simp
  finally have "length cdat + length edge < 2 ^ 33" using assms(1) by linarith
  moreover have "length ids * 36 \<le> length cdat" unfolding assms(2) by (cases a) simp_all
  ultimately show "length edge < 2 ^ 33" "length ids < 0x70000000" by simp_all
qed

lemma written_closed:
  assumes "write_commit_graph dg a rd commits = Ok data" and "set commits \<subseteq> known_ids a"
  shows "(\<forall>i\<in>set commits. \<exists>pl c. rd i = Ok (Commit, pl) \<and> commit_parse a pl = Ok c \<and> set (c_parents c) \<subseteq> set commits)
    \<and> acyclic (parent_edges a rd (set commits))"
proof -
  define ids where "ids = sorted_ids commits"
  obtain cs ps gens cdat edge where w: "graph_input a ids cs ps"
      "\<forall>k<length ids. \<exists>pl. rd (ids ! k) = Ok (Commit, pl) \<and> commit_parse a pl = Ok (cs ! k)"
      "\<forall>k<length ids. gens ! k = Max (insert 1 ((\<lambda>p. gens ! p + 1) ` set (ps k)))"
      "commit_data a (positions_of ids) gens [] [] 0 cs = Ok (cdat, edge)"
      "data = graph_file dg a (graph_chunks a ids cdat edge)"
    using write_commit_graph_Ok [OF assms] unfolding ids_def by blast
  note ids = sorted_ids_facts [OF assms(2), folded ids_def]
  note inp = graph_input_parents [OF w(1)]
  have at: "\<exists>k<length ids. i = ids ! k" if "i \<in> set commits" for i
    using that unfolding ids(1) [symmetric] in_set_conv_nth by blast
  have "\<exists>pl c. rd i = Ok (Commit, pl) \<and> commit_parse a pl = Ok c \<and> set (c_parents c) \<subseteq> set commits" if i: "i \<in> set commits" for i
  proof -
    obtain k where k: "k < length ids" "i = ids ! k" using at [OF i] by blast
    have "(!) ids ` set (ps k) \<subseteq> set ids" using inp(2) [OF k(1)] nth_mem by fastforce
    then have "set (c_parents (cs ! k)) \<subseteq> set commits" by (simp only: inp(1) [OF k(1)] ids(1))
    then show ?thesis using w(2) k by blast
  qed
  moreover have "acyclic (parent_edges a rd (set commits))"
  proof -
    define gen where "gen = (\<lambda>i. gens ! the (positions_of ids (as_bytes i)))"
    have gen: "gen (ids ! k) = gens ! k" if "k < length ids" for k
      using positions_of_iff [OF ids(3), of "as_bytes (ids ! k)" k] that by (simp add: gen_def)
    have "gen p < gen i" if pi: "(p, i) \<in> parent_edges a rd (set commits)" for p i
    proof -
      obtain pl c where c: "i \<in> set commits" "rd i = Ok (Commit, pl)" "commit_parse a pl = Ok c" "p \<in> set (c_parents c)"
        using pi by (auto simp: parent_edges_def)
      obtain k where k: "k < length ids" "i = ids ! k" using at [OF c(1)] by blast
      obtain pl' where "rd (ids ! k) = Ok (Commit, pl')" "commit_parse a pl' = Ok (cs ! k)" using w(2) k(1) by blast
      then have "c = cs ! k" using c(2,3) k(2) by simp
      then obtain q where q: "q \<in> set (ps k)" "p = ids ! q" using c(4) inp(1) [OF k(1)] by auto
      have "gens ! q + 1 \<le> gens ! k" using w(3) k(1) q(1) by (auto intro!: Max_ge)
      then show ?thesis using q inp(2) [OF k(1)] gen k by auto
    qed
    then have "parent_edges a rd (set commits) \<subseteq> measure gen" by auto
    then have "wf (parent_edges a rd (set commits))" using wf_subset [OF wf_measure] by blast
    then show ?thesis by (rule wf_acyclic)
  qed
  ultimately show ?thesis by blast
qed

lemma closed_written:
  assumes known: "set commits \<subseteq> known_ids a"
    and closed: "\<forall>i\<in>set commits. \<exists>pl c. rd i = Ok (Commit, pl) \<and> commit_parse a pl = Ok c \<and> set (c_parents c) \<subseteq> set commits"
    and acyc: "acyclic (parent_edges a rd (set commits))"
  shows "is_ok (write_commit_graph dg a rd commits)"
proof -
  define ids where "ids = sorted_ids commits"
  note ids = sorted_ids_facts [OF known, folded ids_def]
  let ?E = "parent_edges a rd (set commits)" and ?pos = "positions_of ids"
  define cs where "cs = map (\<lambda>i. case rd i of Ok (ty, pl) \<Rightarrow> unwrap (commit_parse a pl)) ids"
  have at: "\<exists>pl. rd (ids ! k) = Ok (Commit, pl) \<and> commit_parse a pl = Ok (cs ! k) \<and> set (c_parents (cs ! k)) \<subseteq> set ids"
    if "k < length ids" for k
  proof -
    have "ids ! k \<in> set commits" using that ids(1) nth_mem by blast
    then obtain pl c where "rd (ids ! k) = Ok (Commit, pl)" "commit_parse a pl = Ok c" "set (c_parents c) \<subseteq> set commits"
      using closed by blast
    then show ?thesis using that ids(1) by (simp add: cs_def)
  qed
  have cs: "read_commits a rd ids = Ok cs" unfolding read_commits_Ok using at by (auto simp: cs_def)
  define ps where "ps = (\<lambda>k. unwrap (parent_positions ?pos (c_parents (cs ! k))))"
  have inp: "graph_input a ids cs ps"
    unfolding graph_input_def
  proof (intro conjI allI impI)
    show "length cs = length ids" by (simp add: cs_def)
    fix k assume k: "k < length ids"
    obtain ks where ks: "parent_positions ?pos (c_parents (cs ! k)) = Ok ks"
      using parent_positions_total [OF ids(3)] at [OF k] by blast
    then show "parent_positions ?pos (c_parents (cs ! k)) = Ok (ps k)" by (simp add: ps_def)
    moreover have "set (c_parents (cs ! k)) \<subseteq> known_ids a" using at [OF k] ids(1) known by blast
    ultimately show "set (ps k) \<subseteq> {..<length ids}" "map ((!) ids) (ps k) = c_parents (cs ! k)"
      using parent_positions_Ok [OF ids(3), of a] ids(1) known by blast+
  qed
  have sub: "?E \<subseteq> set commits \<times> set commits" using closed unfolding parent_edges_def by fastforce
  then have fin: "finite ?E" using finite_subset by fastforce
  then have "wf ?E" using acyc by (rule finite_acyclic_wf)
  then obtain G :: "object_id \<Rightarrow> nat" where "\<forall>i. G i = Max (insert 1 ((\<lambda>p. G p + 1) ` {p. (p, i) \<in> ?E}))"
    using level_exists [of ?E] by blast
  then have G: "G i = Max (insert 1 ((\<lambda>p. G p + 1) ` {p. (p, i) \<in> ?E}))" for i by blast
  have bound: "G i \<le> length ids" if i: "i \<in> set commits" for i
  proof -
    have "{1..G i} \<subseteq> G ` set ids" using level_attained [OF G fin sub i] ids(1) by auto
    then have "card {1..G i} \<le> card (G ` set ids)" by (intro card_mono) simp_all
    also have "\<dots> \<le> length ids" by (metis card_image_le card_length finite_set le_trans)
    finally show ?thesis by simp
  qed
  have Gk: "G (ids ! k) = Max (insert 1 ((\<lambda>p. G (ids ! p) + 1) ` set (ps k)))" if k: "k < length ids" for k
  proof -
    have "{p. (p, ids ! k) \<in> ?E} = set (c_parents (cs ! k))"
      using at [OF k] nth_mem [OF k] ids(1) by (auto simp: parent_edges_def)
    also have "\<dots> = (!) ids ` set (ps k)" by (rule graph_input_parents [OF inp k])
    finally show ?thesis by (subst G) (simp add: image_image)
  qed
  have "\<exists>gens. generations ?pos cs (Suc (length ids)) (replicate (length ids) 0) = Ok gens"
  proof (rule generations_total [OF inp, of "\<lambda>k. G (ids ! k)" 0])
    show "G (ids ! k) \<le> 0 + length ids" if "k < length ids" for k
      using bound ids(1) nth_mem [OF that] by simp
    have "1 \<le> G i" for i
    proof -
      have "finite (insert 1 ((\<lambda>p. G p + 1) ` {p. (p, i) \<in> ?E}))" using fin finite_subset [of "{p. (p, i) \<in> ?E}" "fst ` ?E"] by force
      then show ?thesis using Max_ge by (subst G) blast
    qed
    then show "\<forall>k<length ids. G (ids ! k) \<le> 0 \<longrightarrow> replicate (length ids) 0 ! k = G (ids ! k)" by (metis le_zero_eq not_one_le_zero)
  qed (use Gk in simp_all)
  then obtain gens where "generations ?pos cs (length ids + 1) (replicate (length ids) 0) = Ok gens" by auto
  moreover have "\<exists>r. commit_data a ?pos gens [] [] 0 cs = Ok r"
  proof (rule commit_data_total)
    fix c assume c: "c \<in> set cs"
    then obtain k where "k < length ids" "c = cs ! k" unfolding in_set_conv_nth by (auto simp: cs_def)
    then show "\<exists>ps. parent_positions ?pos (c_parents c) = Ok ps" using inp by (auto simp: graph_input_def)
  qed
  ultimately show ?thesis using cs by (auto simp: write_commit_graph_def Let_def ids_def)
qed

section \<open>Properties\<close>

text \<open>
  C22. A commit-graph answers for the commits it was written from: a file of less than 8 GiB that
  was written parses, finds exactly the given commits, and gives for each one its id, its tree,
  its parents in order (however many), its date (34 bits, nothing negative) and its generation,
  which is one more than the greatest of its parents' (30 bits), or one for a root.
\<close>

theorem commit_graph_roundtrip:
  assumes "digest_ok dg" and "set commits \<subseteq> known_ids a"
    and "write_commit_graph dg a rd commits = Ok data" and "length data < 2 ^ 33"
  shows "\<exists>g gen. commit_graph_parse dg a data = Ok g \<and> (\<forall>i. wf_oid i \<and> i \<notin> set commits \<longrightarrow> cg_position_of g i = None)
    \<and> (\<forall>i\<in>set commits. \<exists>k pl c. cg_position_of g i = Some k \<and> cg_id_at g k = Some i
        \<and> rd i = Ok (Commit, pl) \<and> commit_parse a pl = Ok c
        \<and> cg_tree_at g k = Some (c_tree c) \<and> cg_parents_at g k = c_parents c
        \<and> cg_commit_time_at g k = take_bit 34 (date_of c)
        \<and> gen i = Max (insert 1 ((\<lambda>p. gen p + 1) ` set (c_parents c))) \<and> cg_generation_at g k = gen i mod 2 ^ 30)"
proof -
  define ids where "ids = sorted_ids commits"
  obtain cs ps gens cdat edge where w: "graph_input a ids cs ps"
      "\<forall>k<length ids. \<exists>pl. rd (ids ! k) = Ok (Commit, pl) \<and> commit_parse a pl = Ok (cs ! k)"
      "\<forall>k<length ids. gens ! k = Max (insert 1 ((\<lambda>p. gens ! p + 1) ` set (ps k)))"
      "commit_data a (positions_of ids) gens [] [] 0 cs = Ok (cdat, edge)"
      "data = graph_file dg a (graph_chunks a ids cdat edge)"
    using write_commit_graph_Ok [OF assms(3,2)] unfolding ids_def by blast
  note ids = sorted_ids_facts [OF assms(2), folded ids_def]
  have known: "set ids \<subseteq> known_ids a" using ids(1) assms(2) by simp
  let ?g = "graph_value a ids cdat edge"
  have tree: "\<forall>k<length ids. wf_oid (c_tree (cs ! k)) \<and> oid_algo (c_tree (cs ! k)) = a"
  proof (intro allI impI)
    fix k assume "k < length ids"
    then obtain pl where "commit_parse a pl = Ok (cs ! k)" using w(2) by blast
    from commit_parse_known [OF this] show "wf_oid (c_tree (cs ! k)) \<and> oid_algo (c_tree (cs ! k)) = a" by (simp add: known_ids_def)
  qed
  note rows = graph_rows [OF w(4,1) tree]
  note big = graph_file_sizes [OF assms(4) [unfolded w(5)] rows [THEN conjunct1]]
  have parse: "commit_graph_parse dg a data = Ok ?g"
    unfolding w(5) graph_value_def
    by (rule graph_parse_file) (use assms(1,4) w(5) known rows in \<open>auto simp: known_ids_def wf_oid_def\<close>)
  define gen where "gen = (\<lambda>i. gens ! the (positions_of ids (as_bytes i)))"
  have gen: "gen (ids ! k) = gens ! k" if "k < length ids" for k
    using positions_of_iff [OF ids(3), of "as_bytes (ids ! k)" k] that by (simp add: gen_def)
  have level: "gen (ids ! k) = Max (insert 1 ((\<lambda>p. gen p + 1) ` set (c_parents (cs ! k))))" if k: "k < length ids" for k
  proof -
    have "set (ps k) \<subseteq> {..<length ids}" "set (c_parents (cs ! k)) = (!) ids ` set (ps k)"
      using graph_input_parents [OF w(1) k] by simp_all
    then have "(\<lambda>p. gens ! p + 1) ` set (ps k) = (\<lambda>p. gen p + 1) ` set (c_parents (cs ! k))"
      using gen by (auto simp: image_image intro!: image_cong)
    then show ?thesis using w(3) k gen [OF k] by simp
  qed
  have "\<forall>i\<in>set commits. \<exists>k pl c. cg_position_of ?g i = Some k \<and> cg_id_at ?g k = Some i
        \<and> rd i = Ok (Commit, pl) \<and> commit_parse a pl = Ok c
        \<and> cg_tree_at ?g k = Some (c_tree c) \<and> cg_parents_at ?g k = c_parents c
        \<and> cg_commit_time_at ?g k = take_bit 34 (date_of c)
        \<and> gen i = Max (insert 1 ((\<lambda>p. gen p + 1) ` set (c_parents c))) \<and> cg_generation_at ?g k = gen i mod 2 ^ 30"
  proof
    fix i assume "i \<in> set commits"
    then obtain k where k: "k < length ids" "ids ! k = i" unfolding ids(1) [symmetric] in_set_conv_nth by blast
    then have i: "i \<in> known_ids a" using known nth_mem by blast
    obtain e0 e1 where e: "4 dvd length e0" "edge = e0 @ slot_edges e0 (ps k) @ e1"
        "cg_record ?g k = record_of a gens e0 (ps k) k (cs ! k)"
      using rows k(1) by blast
    note lk = graph_lookup [OF w(1) known k(1) e(3,1,2) big]
    show "\<exists>k pl c. cg_position_of ?g i = Some k \<and> cg_id_at ?g k = Some i
        \<and> rd i = Ok (Commit, pl) \<and> commit_parse a pl = Ok c
        \<and> cg_tree_at ?g k = Some (c_tree c) \<and> cg_parents_at ?g k = c_parents c
        \<and> cg_commit_time_at ?g k = take_bit 34 (date_of c)
        \<and> gen i = Max (insert 1 ((\<lambda>p. gen p + 1) ` set (c_parents c))) \<and> cg_generation_at ?g k = gen i mod 2 ^ 30"
      using lk tree k w(2) level [OF k(1)] gen [OF k(1)] graph_id_at [OF known k(1)] graph_position [OF known ids(2), where i = i and k = k] i
      by (auto simp: known_ids_def)
  qed
  moreover have "cg_position_of ?g i = None" if "wf_oid i" "i \<notin> set commits" for i
    using graph_position [OF known ids(2) that(1)] that(2) ids(1) nth_mem by (cases "cg_position_of ?g i") fastforce+
  ultimately show ?thesis using parse by blast
qed

text \<open>A root commit and a child, for the witnesses.\<close>

definition sample_commit :: "object_id list \<Rightarrow> bytes" where
  "sample_commit ps =
     commit_serialize \<lparr>c_tree = zero_oid Sha1, c_parents = ps,
       c_author = \<lparr>sig_name = [65], sig_email = [65], sig_time = 0, sig_tz = bstr ''+0000''\<rparr>,
       c_committer = \<lparr>sig_name = [65], sig_email = [65], sig_time = 5, sig_tz = bstr ''+0000''\<rparr>,
       c_extra_headers = [], c_message = []\<rparr>"

definition sample_reader :: reader where
  "sample_reader i =
     (if i = ObjectId Sha1 (replicate 20 1) then Ok (Commit, sample_commit [])
      else Ok (Commit, sample_commit [ObjectId Sha1 (replicate 20 1)]))"

definition sample_digest :: digest where
  "sample_digest a d = replicate (raw_len a) 7"

lemma sample_written:
  "case write_commit_graph sample_digest Sha1 sample_reader [ObjectId Sha1 (replicate 20 1), ObjectId Sha1 (replicate 20 2)] of
     Ok d \<Rightarrow> length d < 2000 | Err _ \<Rightarrow> False"
  by code_simp

theorem commit_graph_roundtrip_witness:
  "\<exists>data g. write_commit_graph sample_digest Sha1 sample_reader [ObjectId Sha1 (replicate 20 1), ObjectId Sha1 (replicate 20 2)] = Ok data
     \<and> commit_graph_parse sample_digest Sha1 data = Ok g \<and> cg_position_of g (ObjectId Sha1 (replicate 20 2)) \<noteq> None"
proof -
  let ?ids = "[ObjectId Sha1 (replicate 20 1), ObjectId Sha1 (replicate 20 2)]"
  obtain data where d: "write_commit_graph sample_digest Sha1 sample_reader ?ids = Ok data" "length data < 2000"
    using sample_written by (auto split: result.splits)
  have "digest_ok sample_digest" by (simp add: digest_ok_def sample_digest_def)
  moreover have "set ?ids \<subseteq> known_ids Sha1" by (simp add: known_ids_def wf_oid_def)
  moreover have "length data < 2 ^ 33" using d(2) by simp
  ultimately obtain g where "commit_graph_parse sample_digest Sha1 data = Ok g"
      "\<forall>i\<in>set ?ids. \<exists>k. cg_position_of g i = Some k"
    using commit_graph_roundtrip [OF _ _ d(1)] by blast
  with d(1) show ?thesis by fastforce
qed

text \<open>
  The writer succeeds exactly on a set of commits that are there, parse and contain their
  parents, without a cycle: then the passes that compute the generations settle within the bound
  of the code (one more than the number of commits).
\<close>

theorem commit_graph_written_iff:
  assumes "set commits \<subseteq> known_ids a"
  shows "is_ok (write_commit_graph dg a rd commits) \<longleftrightarrow>
    (\<forall>i\<in>set commits. \<exists>pl c. rd i = Ok (Commit, pl) \<and> commit_parse a pl = Ok c \<and> set (c_parents c) \<subseteq> set commits)
    \<and> acyclic (parent_edges a rd (set commits))"
proof
  assume "is_ok (write_commit_graph dg a rd commits)"
  then obtain data where "write_commit_graph dg a rd commits = Ok data" by (cases "write_commit_graph dg a rd commits") auto
  then show "(\<forall>i\<in>set commits. \<exists>pl c. rd i = Ok (Commit, pl) \<and> commit_parse a pl = Ok c \<and> set (c_parents c) \<subseteq> set commits)
    \<and> acyclic (parent_edges a rd (set commits))"
    using written_closed [OF _ assms] by blast
next
  assume "(\<forall>i\<in>set commits. \<exists>pl c. rd i = Ok (Commit, pl) \<and> commit_parse a pl = Ok c \<and> set (c_parents c) \<subseteq> set commits)
    \<and> acyclic (parent_edges a rd (set commits))"
  then show "is_ok (write_commit_graph dg a rd commits)" using closed_written [OF assms] by blast
qed

theorem commit_graph_written_iff_witness:
  "is_ok (write_commit_graph sample_digest Sha1 sample_reader [])"
proof -
  have "acyclic (parent_edges Sha1 sample_reader (set []))" by (simp add: parent_edges_def acyclic_def)
  then show ?thesis using commit_graph_written_iff [of "[]" Sha1 sample_digest sample_reader] by simp
qed

end
