(* ===== verification/Multi_Pack_Index.thy ===== *)
theory Multi_Pack_Index
  imports Commit_Graph Diff
begin

text \<open>
  The multi-pack-index, src/src/multi_pack_index.rs: one sorted table over the objects of several
  packs. It shares the chunked layout and the fanout and id tables with the commit-graph. Pack
  names are byte strings; offsets are naturals below \<open>2 ^ 64\<close>.
\<close>

section \<open>Model\<close>

definition MIDX_SIGNATURE :: bytes where
  "MIDX_SIGNATURE = bstr ''MIDX''"

definition CHUNK_PNAM :: "32 word" where
  "CHUNK_PNAM = 0x504e414d"

definition CHUNK_OOFF :: "32 word" where
  "CHUNK_OOFF = 0x4f4f4646"

definition CHUNK_LOFF :: "32 word" where
  "CHUNK_LOFF = 0x4c4f4646"

subsection \<open>Writing\<close>

type_synonym midx_entry = "object_id \<times> nat \<times> nat"

fun collect_rows :: "pack_index \<Rightarrow> nat \<Rightarrow> nat list \<Rightarrow> object_id set \<times> midx_entry list \<Rightarrow> (object_id set \<times> midx_entry list) result" where
  "collect_rows ix p [] st = Ok st"
| "collect_rows ix p (row # rows) (seen, es) =
     bind_res (ok_or (index_id_at ix row) (Pack ''midx: bad idx id'')) (\<lambda>i.
     bind_res (ok_or (index_offset_at ix row) (Pack ''midx: bad idx offset'')) (\<lambda>off.
       collect_rows ix p rows (if i \<in> seen then (seen, es) else (insert i seen, es @ [(i, p, off)]))))"

fun collect_packs :: "nat \<Rightarrow> pack_index list \<Rightarrow> object_id set \<times> midx_entry list \<Rightarrow> (object_id set \<times> midx_entry list) result" where
  "collect_packs p [] st = Ok st"
| "collect_packs p (ix # ixs) st = bind_res (collect_rows ix p [0..<ix_count ix] st) (collect_packs (p + 1) ixs)"

definition pack_names_chunk :: "bytes list \<Rightarrow> bytes" where
  "pack_names_chunk names =
     (let pnam = concat (map (\<lambda>n. n @ [0]) names) in pnam @ replicate ((4 - length pnam mod 4) mod 4) 0)"

text \<open>The pack id and offset of each entry, and the large offsets; \<open>n\<close> counts the large ones so far.\<close>

fun midx_offsets :: "nat \<Rightarrow> (nat \<times> nat) list \<Rightarrow> bytes \<times> 64 word list" where
  "midx_offsets n [] = ([], [])"
| "midx_offsets n ((p, off) # es) =
     (if off < 0x80000000 then
        (let (t, l) = midx_offsets n es in (be_bytes (of_nat p :: 32 word) @ be_bytes (of_nat off :: 32 word) @ t, l))
      else
        (let (t, l) = midx_offsets (n + 1) es
         in (be_bytes (of_nat p :: 32 word) @ be_bytes (0x80000000 OR of_nat n :: 32 word) @ t, of_nat off # l)))"

definition midx_chunks :: "hash_algo \<Rightarrow> bytes list \<Rightarrow> midx_entry list \<Rightarrow> (32 word \<times> bytes) list" where
  "midx_chunks a names es =
     (let (ooff, loff) = midx_offsets 0 (map snd es); loff_bytes = concat (map be_bytes loff)
      in [(CHUNK_PNAM, pack_names_chunk names), (CHUNK_OIDF, oid_fanout (map fst es)),
          (CHUNK_OIDL, concat (map (\<lambda>e. take (raw_len a) (as_bytes (fst e))) es)), (CHUNK_OOFF, ooff)]
         @ (if loff_bytes \<noteq> [] then [(CHUNK_LOFF, loff_bytes)] else []))"

definition midx_file :: "digest \<Rightarrow> hash_algo \<Rightarrow> nat \<Rightarrow> (32 word \<times> bytes) list \<Rightarrow> bytes" where
  "midx_file dg a packs chunks =
     (let out = MIDX_SIGNATURE @ [1, if a = Sha256 then 2 else 1, of_nat (length chunks), 0] @ be_bytes (of_nat packs :: 32 word)
            @ table_rows (of_nat (12 + (length chunks + 1) * 12)) chunks @ concat (map snd chunks)
      in out @ hash_bytes dg a out)"

definition write_multi_pack_index :: "digest \<Rightarrow> hash_algo \<Rightarrow> (bytes \<times> pack_index) list \<Rightarrow> bytes result" where
  "write_multi_pack_index dg a packs =
     (let order = sort_key fst packs
      in bind_res (collect_packs 0 (map snd order) ({}, [])) (\<lambda>(_, entries).
           Ok (midx_file dg a (length packs) (midx_chunks a (map fst order) (sort_key (as_bytes \<circ> fst) entries)))))"

subsection \<open>Reading\<close>

record multi_pack_index =
  mx_algo :: hash_algo
  mx_pack_names :: "bytes list"
  mx_oids :: bytes
  mx_ooff :: bytes
  mx_loff :: bytes
  mx_count :: nat

fun find_chunk :: "nat \<Rightarrow> 32 word \<Rightarrow> (32 word \<times> 64 word) list \<Rightarrow> (nat \<times> nat) option" where
  "find_chunk body_len want ((i, start) # (j, stop) # rows) =
     (if i = want \<and> unat start \<le> unat stop \<and> unat stop \<le> body_len then Some (unat start, unat stop)
      else find_chunk body_len want ((j, stop) # rows))"
| "find_chunk body_len want rows = None"

definition midx_parse :: "digest \<Rightarrow> hash_algo \<Rightarrow> bytes \<Rightarrow> multi_pack_index result" where
  "midx_parse dg a data =
     (let hlen = raw_len a
      in if length data < 12 + hlen \<or> take 4 data \<noteq> MIDX_SIGNATURE then Err (Pack ''midx: bad header'')
         else if data ! 4 \<noteq> 1 then Err (Unsupported ''midx: unsupported version'')
         else
           let body = take (length data - hlen) data
           in if hash_bytes dg a body \<noteq> drop (length data - hlen) data then Err (Pack ''midx: checksum mismatch'')
              else
                bind_res (ok_or (read_rows data (length body) 12 (Suc (unat (data ! 6)))) (Pack ''midx: truncated chunk table'')) (\<lambda>rows.
                let chunk = (\<lambda>want. find_chunk (length body) want rows) in
                bind_res (ok_or (chunk CHUNK_PNAM) (Pack ''midx: no PNAM'')) (\<lambda>pn.
                bind_res (ok_or (chunk CHUNK_OIDL) (Pack ''midx: no OIDL'')) (\<lambda>ol.
                bind_res (ok_or (chunk CHUNK_OOFF) (Pack ''midx: no OOFF'')) (\<lambda>oo.
                  let lf = (case chunk CHUNK_LOFF of Some x \<Rightarrow> x | None \<Rightarrow> (0, 0));
                      names = map from_utf8_lossy (filter (\<lambda>n. n \<noteq> []) (split_on 0 (slice data pn)));
                      oids = slice data ol;
                      ooff = slice data oo;
                      count = length oids div hlen
                  in if count * 8 \<noteq> length ooff then Err (Pack ''midx: OIDL/OOFF size mismatch'')
                     else Ok \<lparr>mx_algo = a, mx_pack_names = names, mx_oids = oids, mx_ooff = ooff, mx_loff = slice data lf,
                             mx_count = count\<rparr>)))))"

definition midx_find :: "multi_pack_index \<Rightarrow> object_id \<Rightarrow> (bytes \<times> nat) option" where
  "midx_find m i =
     (if oid_algo i \<noteq> mx_algo m then None
      else
        let hlen = raw_len (mx_algo m)
        in case search_loop (\<lambda>k. take hlen (drop (k * hlen) (mx_oids m))) (take hlen (as_bytes i)) 0 (mx_count m) of
             None \<Rightarrow> None
           | Some row \<Rightarrow>
               let rec = take 8 (drop (row * 8) (mx_ooff m));
                   pack_id = unat (be32 rec);
                   raw = be32 (drop 4 rec);
                   name = (if pack_id < length (mx_pack_names m) then Some (mx_pack_names m ! pack_id) else None)
               in if raw AND 0x80000000 = 0 then map_option (\<lambda>n. (n, unat raw)) name
                  else
                    let o8 = unat (raw AND 0x7fffffff) * 8
                    in if length (mx_loff m) < o8 + 8 then None
                       else map_option (\<lambda>n. (n, unat (be64 (drop o8 (mx_loff m))))) name)"

section \<open>Lemmas\<close>

subsection \<open>Names\<close>

lemma split_names:
  assumes "\<And>n. n \<in> set names \<Longrightarrow> n \<noteq> [] \<and> 0 \<notin> set n \<and> utf8_valid n"
  shows "map from_utf8_lossy (filter (\<lambda>n. n \<noteq> []) (split_on 0 (pack_names_chunk names))) = names"
proof -
  have pad: "filter (\<lambda>n. n \<noteq> []) (split_on 0 (replicate k (0 :: byte))) = []" for k by (induction k) auto
  have "filter (\<lambda>n. n \<noteq> []) (split_on 0 (concat (map (\<lambda>n. n @ [0]) names) @ replicate k 0)) = names" for k
    using assms by (induction names) (auto simp: pad split_on_append)
  then show ?thesis using assms by (simp add: pack_names_chunk_def Let_def lossy_valid map_idI)
qed

subsection \<open>Collecting the objects\<close>

definition index_rows :: "pack_index \<Rightarrow> nat list \<Rightarrow> (object_id \<times> nat) list" where
  "index_rows ix rows = map (\<lambda>row. (the (index_id_at ix row), the (index_offset_at ix row))) rows"

text \<open>The lookup that the file answers: the first pack by name, and its first row, that has the id.\<close>

definition midx_lookup :: "(bytes \<times> pack_index) list \<Rightarrow> object_id \<Rightarrow> (bytes \<times> nat) option" where
  "midx_lookup packs =
     map_of (concat (map (\<lambda>(n, ix). map (\<lambda>(i, off). (i, n, off)) (index_rows ix [0..<ix_count ix])) (sort_key fst packs)))"

definition entries_ok :: "hash_algo \<Rightarrow> nat \<Rightarrow> object_id set \<times> midx_entry list \<Rightarrow> bool" where
  "entries_ok a n = (\<lambda>(seen, es). seen = fst ` set es \<and> distinct (map fst es)
     \<and> (\<forall>(i, p, off)\<in>set es. i \<in> known_ids a \<and> p < n \<and> off < 2 ^ 64))"

lemma index_id_at_known: "index_id_at ix row = Some i \<Longrightarrow> i \<in> known_ids (ix_algo ix)"
  by (auto simp: index_id_at_def Let_def known_ids_def split: if_splits result.splits dest: from_bytes_wf)

lemma index_offset_at_bound: "index_offset_at ix row = Some off \<Longrightarrow> off < 2 ^ 64"
proof -
  have "unat (w :: 32 word) < 2 ^ 64" "unat (v :: 64 word) < 2 ^ 64" for w v
    using unsigned_less [of w, where ?'a = nat] unsigned_less [of v, where ?'a = nat] by simp_all
  then show "index_offset_at ix row = Some off \<Longrightarrow> off < 2 ^ 64"
    by (auto simp: index_offset_at_def Let_def split: if_splits)
qed

lemma collect_rows_spec:
  assumes "collect_rows ix p rows st = Ok st'" and "entries_ok a n st" and "ix_algo ix = a" and "p < n"
  shows "entries_ok a n st' \<and> map_of (snd st') = map_of (snd st @ map (\<lambda>(i, off). (i, p, off)) (index_rows ix rows))"
  using assms
proof (induction ix p rows st rule: collect_rows.induct)
  case (2 ix p row rows seen es)
  obtain i off where r: "index_id_at ix row = Some i" "index_offset_at ix row = Some off"
    using "2.prems"(1) by (auto simp: bind_res_eq_Ok ok_or_eq_Ok)
  let ?st = "if i \<in> seen then (seen, es) else (insert i seen, es @ [(i, p, off)])"
  have "i \<in> known_ids a" "off < 2 ^ 64"
    using index_id_at_known [OF r(1)] index_offset_at_bound [OF r(2)] "2.prems"(3) by simp_all
  then have ok: "entries_ok a n ?st" using "2.prems"(2,4) by (auto simp: entries_ok_def)
  have "collect_rows ix p rows ?st = Ok st'" using "2.prems"(1) r by simp
  with "2.IH" [OF _ _ this ok "2.prems"(3,4)] r
  have s: "entries_ok a n st'" "map_of (snd st') = map_of (snd ?st @ map (\<lambda>(i, off). (i, p, off)) (index_rows ix rows))"
    by (auto simp: ok_or_def)
  have rows: "index_rows ix (row # rows) = (i, off) # index_rows ix rows" by (simp add: index_rows_def r)
  have "map_of es i \<noteq> None" if "i \<in> seen" using that "2.prems"(2) by (auto simp: entries_ok_def map_of_eq_None_iff)
  then have "map_of (snd ?st @ map (\<lambda>(i, off). (i, p, off)) (index_rows ix rows))
      = map_of (es @ map (\<lambda>(i, off). (i, p, off)) (index_rows ix (row # rows)))"
    by (auto simp: rows map_add_def fun_eq_iff split: option.split)
  with s show ?case by simp
qed (simp add: index_rows_def)

lemma collect_packs_spec:
  assumes "collect_packs p ixs st = Ok st'" and "entries_ok a n st" and "\<forall>ix\<in>set ixs. ix_algo ix = a" and "p + length ixs \<le> n"
  shows "entries_ok a n st' \<and> map_of (snd st') = map_of (snd st @ concat (map (\<lambda>(q, ix). map (\<lambda>(i, off). (i, q, off)) (index_rows ix [0..<ix_count ix]))
      (zip [p..<p + length ixs] ixs)))"
  using assms
proof (induction ixs arbitrary: p st)
  case (Cons ix ixs)
  obtain st1 where r: "collect_rows ix p [0..<ix_count ix] st = Ok st1" "collect_packs (p + 1) ixs st1 = Ok st'"
    using Cons.prems(1) by (auto simp: bind_res_eq_Ok)
  have s1: "entries_ok a n st1" "map_of (snd st1) = map_of (snd st @ map (\<lambda>(i, off). (i, p, off)) (index_rows ix [0..<ix_count ix]))"
    using collect_rows_spec [OF r(1) Cons.prems(2)] Cons.prems(3,4) by auto
  have "[p..<p + length (ix # ixs)] = p # [p + 1..<p + 1 + length ixs]" by (subst upt_conv_Cons) simp_all
  with Cons.IH [OF r(2) s1(1)] s1(2) Cons.prems(3,4) show ?case by simp
qed simp

subsection \<open>The offset table\<close>

lemma midx_offsets_spec:
  "snd (midx_offsets n es) = map of_nat (filter (\<lambda>x. \<not> x < 0x80000000) (map snd es))
   \<and> fst (midx_offsets n es) = concat (map (\<lambda>k. be_bytes (of_nat (fst (es ! k)) :: 32 word) @ be_bytes
       (if snd (es ! k) < 0x80000000 then of_nat (snd (es ! k))
        else 0x80000000 OR of_nat (n + length (filter (\<lambda>x. \<not> x < 0x80000000) (take k (map snd es)))) :: 32 word))
       [0..<length es])"
proof (induction n es rule: midx_offsets.induct)
  case (2 n p off es)
  have u: "[0..<length ((p, off) # es)] = 0 # map Suc [0..<length es]"
    by (simp add: map_Suc_upt upt_conv_Cons del: upt_Suc)
  show ?case
  proof (cases "off < 0x80000000")
    case True
    with "2.IH"(1) show ?thesis unfolding u by (simp add: split_beta comp_def cong: if_cong)
  next
    case False
    with "2.IH"(2) show ?thesis unfolding u by (simp add: split_beta comp_def ac_simps cong: if_cong)
  qed
qed simp

lemma midx_offset_row:
  assumes "k < length es" and "length es < 2 ^ 31" and "snd (es ! k) < 2 ^ 64" and "fst (es ! k) < 2 ^ 32"
  defines "T \<equiv> fst (midx_offsets 0 es)" and "L \<equiv> concat (map be_bytes (snd (midx_offsets 0 es)))"
  defines "rec \<equiv> take 8 (drop (k * 8) T)"
  shows "unat (be32 rec) = fst (es ! k)"
    and "be32 (drop 4 rec) AND 0x80000000 = 0 \<and> unat (be32 (drop 4 rec)) = snd (es ! k)
      \<or> be32 (drop 4 rec) AND 0x80000000 \<noteq> 0 \<and> unat (be32 (drop 4 rec) AND 0x7fffffff) * 8 + 8 \<le> length L
        \<and> unat (be64 (drop (unat (be32 (drop 4 rec) AND 0x7fffffff) * 8) L)) = snd (es ! k)"
proof -
  define big where "big = (\<lambda>x. \<not> x < (0x80000000 :: nat))"
  define offs where "offs = map snd es"
  define j where "j = length (filter big (take k offs))"
  have rec: "rec = be_bytes (of_nat (fst (es ! k)) :: 32 word) @ be_bytes
      (if snd (es ! k) < 0x80000000 then of_nat (snd (es ! k)) else 0x80000000 OR of_nat j :: 32 word)"
    unfolding rec_def T_def midx_offsets_spec [THEN conjunct2]
    by (subst concat_block [where rest = "[]", simplified]) (use assms(1) in \<open>simp_all add: j_def big_def offs_def\<close>)
  show "unat (be32 rec) = fst (es ! k)" using assms(4) by (simp add: rec unat_of_nat)
  have raw: "be32 (drop 4 rec) = (if snd (es ! k) < 0x80000000 then of_nat (snd (es ! k)) else 0x80000000 OR of_nat j)"
    using be32_bytes [of _ "[]"] by (simp add: rec)
  show "be32 (drop 4 rec) AND 0x80000000 = 0 \<and> unat (be32 (drop 4 rec)) = snd (es ! k)
      \<or> be32 (drop 4 rec) AND 0x80000000 \<noteq> 0 \<and> unat (be32 (drop 4 rec) AND 0x7fffffff) * 8 + 8 \<le> length L
        \<and> unat (be64 (drop (unat (be32 (drop 4 rec) AND 0x7fffffff) * 8) L)) = snd (es ! k)"
  proof (cases "snd (es ! k) < 0x80000000")
    case True
    then show ?thesis using bit31_small [of "snd (es ! k)"] by (simp add: raw)
  next
    case False
    have lj: "j < length (filter big offs)" "filter big offs ! j = snd (es ! k)"
      using filter_nth_take [of k offs big] assms(1) False by (simp_all add: j_def big_def offs_def)
    have "length offs = length es" by (simp add: offs_def)
    then have j31: "j < 2 ^ 31" using lj(1) assms(2) length_filter_le [of big offs] by linarith
    have r: "be32 (drop 4 rec) AND 0x80000000 \<noteq> 0" "unat (be32 (drop 4 rec) AND 0x7fffffff) = j"
      using False bit31_large [OF j31] by (simp_all add: raw)
    have L: "L = concat (map be_bytes (map of_nat (filter big offs) :: 64 word list))"
      unfolding L_def big_def offs_def midx_offsets_spec [THEN conjunct1] ..
    have "be64 (drop (j * 8) L) = of_nat (snd (es ! k))"
      unfolding L be64_def using lj
      by (subst concat_block [where rest = "[]", simplified]) (simp_all add: codec)
    moreover have "length L = length (filter big offs) * 8"
      unfolding L by (subst length_concat_block [where n = 8]) simp_all
    moreover have "unat (of_nat (snd (es ! k)) :: 64 word) = snd (es ! k)"
      using assms(3) by (simp add: unat_of_nat)
    ultimately show ?thesis using r lj(1) by simp
  qed
qed

lemma length_midx_offsets: "length (fst (midx_offsets n es)) = length es * 8"
  unfolding midx_offsets_spec [THEN conjunct2] by (subst length_concat_block [where n = 8]) simp_all

subsection \<open>The file\<close>

lemma find_chunk_rows:
  assumes "k < length chunks" and "\<And>j. j < k \<Longrightarrow> fst (chunks ! j) \<noteq> fst (chunks ! k)"
    and "off + length (concat (map snd chunks)) \<le> body_len" and "body_len < 2 ^ 64"
  shows "find_chunk body_len (fst (chunks ! k)) (rows_of off chunks) = Some (chunk_start off chunks k, chunk_start off chunks (Suc k))"
  using assms
proof (induction chunks arbitrary: off k)
  case (Cons c chunks)
  obtain i data where c: "c = (i, data)" by (cases c)
  have bound: "off \<le> off + length data" "off + length data \<le> body_len" using Cons.prems(3) by (simp_all add: c)
  have "unat (of_nat m :: 64 word) = m" if "m < 2 ^ 64" for m using that by (simp add: unat_of_nat)
  then have u: "unat (of_nat off :: 64 word) = off" "unat (of_nat (off + length data) :: 64 word) = off + length data"
    using bound Cons.prems(4) by (simp_all del: of_nat_add)
  obtain j rows where r: "rows_of (off + length data) chunks = (j, of_nat (off + length data)) # rows"
    by (cases chunks rule: rows_of.cases [of "(off, chunks)" for off chunks, simplified]) auto
  show ?case
  proof (cases k)
    case 0
    then show ?thesis using u bound by (simp add: c r chunk_start_def del: of_nat_add)
  next
    case (Suc k')
    have "i \<noteq> fst (chunks ! k')" using Cons.prems(2) [of 0] Suc by (simp add: c)
    moreover have "find_chunk body_len (fst (chunks ! k')) (rows_of (off + length data) chunks)
        = Some (chunk_start (off + length data) chunks k', chunk_start (off + length data) chunks (Suc k'))"
    proof (rule Cons.IH)
      show "fst (chunks ! j) \<noteq> fst (chunks ! k')" if "j < k'" for j using Cons.prems(2) [of "Suc j"] Suc that by simp
    qed (use Cons.prems Suc in \<open>simp_all add: c\<close>)
    ultimately show ?thesis by (simp add: c r Suc chunk_start_def add.assoc del: of_nat_add)
  qed
qed simp

lemma find_chunk_none: "want \<notin> fst ` set chunks \<Longrightarrow> find_chunk body_len want (rows_of off chunks) = None"
proof (induction chunks arbitrary: off)
  case (Cons c chunks)
  obtain i data where c: "c = (i, data)" by (cases c)
  obtain j rows where r: "rows_of (off + length data) chunks = (j, of_nat (off + length data)) # rows"
    by (cases chunks rule: rows_of.cases [of "(off, chunks)" for off chunks, simplified]) auto
  have "want \<noteq> i" "find_chunk body_len want ((j, of_nat (off + length data)) # rows) = None"
    using Cons.prems Cons.IH [of "off + length data"] by (auto simp: c r)
  then show ?case by (simp add: c r del: of_nat_add)
qed simp

definition midx_value :: "hash_algo \<Rightarrow> bytes list \<Rightarrow> midx_entry list \<Rightarrow> multi_pack_index" where
  "midx_value a names es =
     \<lparr>mx_algo = a, mx_pack_names = names, mx_oids = concat (map as_bytes (map fst es)), mx_ooff = fst (midx_offsets 0 (map snd es)),
      mx_loff = concat (map be_bytes (snd (midx_offsets 0 (map snd es)))), mx_count = length es\<rparr>"

lemma midx_parse_file:
  assumes dg: "digest_ok dg" and big: "length (midx_file dg a n (midx_chunks a names es)) < 2 ^ 33"
    and ids: "\<forall>e\<in>set es. length (as_bytes (fst e)) = raw_len a"
    and names: "\<And>n. n \<in> set names \<Longrightarrow> n \<noteq> [] \<and> 0 \<notin> set n \<and> utf8_valid n"
  shows "midx_parse dg a (midx_file dg a n (midx_chunks a names es)) = Ok (midx_value a names es)"
proof -
  let ?cs = "midx_chunks a names es" and ?h = "raw_len a"
  let ?data = "midx_file dg a n ?cs"
  define m where "m = length ?cs"
  define oids where "oids = concat (map as_bytes (map fst es))"
  define ooff where "ooff = fst (midx_offsets 0 (map snd es))"
  define loff where "loff = concat (map be_bytes (snd (midx_offsets 0 (map snd es))))"
  define H where "H = MIDX_SIGNATURE @ [1, if a = Sha256 then 2 else 1, of_nat m, 0] @ be_bytes (of_nat n :: 32 word)"
  define p where "p = 12 + (m + 1) * 12"
  define T where "T = table_rows (of_nat p) ?cs"
  define C where "C = concat (map snd ?cs)"
  define X where "X = hash_bytes dg a (H @ T @ C)"
  have "concat (map (\<lambda>e. take ?h (as_bytes (fst e))) es) = oids"
    unfolding oids_def map_map using ids by (intro arg_cong [where f = concat] map_cong) auto
  then have cs: "?cs = [(CHUNK_PNAM, pack_names_chunk names), (CHUNK_OIDF, oid_fanout (map fst es)), (CHUNK_OIDL, oids), (CHUNK_OOFF, ooff)]
      @ (if loff \<noteq> [] then [(CHUNK_LOFF, loff)] else [])"
    by (simp add: midx_chunks_def split_beta Let_def ooff_def loff_def)
  have m: "m = (if loff = [] then 4 else 5)" unfolding m_def cs by simp
  have lo: "length oids = length es * ?h" unfolding oids_def using ids length_concat_block [of "map fst es" as_bytes ?h] by auto
  have d: "?data = H @ T @ C @ X" by (simp add: midx_file_def Let_def H_def T_def C_def X_def m_def p_def)
  have lens: "length H = 12" "length T = 12 * Suc m" "length X = ?h"
    using dg by (simp_all add: H_def T_def m_def X_def MIDX_SIGNATURE_def hash_bytes_def digest_ok_def)
  have body: "take (length ?data - ?h) ?data = H @ T @ C" "drop (length ?data - ?h) ?data = X"
    unfolding d using lens by simp_all
  have h: "take 4 ?data = MIDX_SIGNATURE" "?data ! 4 = 1" "unat (?data ! 6) = m" "\<not> length ?data < 12 + ?h"
  proof -
    have "length MIDX_SIGNATURE = 4" by (simp add: MIDX_SIGNATURE_def)
    then show "take 4 ?data = MIDX_SIGNATURE" "?data ! 4 = 1" "unat (?data ! 6) = m"
      unfolding d H_def m by (simp_all add: nth_append)
    show "\<not> length ?data < 12 + ?h" unfolding d using lens by simp
  qed
  define body_len where "body_len = length (H @ T @ C)"
  have rows: "read_rows ?data body_len 12 (Suc m) = Some (rows_of p ?cs)"
    unfolding d T_def m_def by (rule read_rows_table) (use lens in \<open>simp_all add: m_def body_len_def\<close>)
  have fit: "p + length (concat (map snd ?cs)) \<le> body_len" "body_len < 2 ^ 64"
    using big lens by (simp_all add: d C_def [symmetric] body_len_def p_def)
  have P: "length (H @ T) = p" using lens by (simp add: p_def)
  have data: "?data = (H @ T) @ concat (map snd ?cs) @ X" by (simp add: d C_def)
  define R where "R = rows_of p ?cs"
  have chunk: "\<exists>x. find_chunk body_len i R = Some x \<and> slice ?data x = c" if ic: "(i, c) \<in> set ?cs" for i c
  proof -
    obtain k where k: "k < m" "?cs ! k = (i, c)" using ic unfolding in_set_conv_nth m_def by blast
    have "CHUNK_PNAM \<noteq> CHUNK_OIDF" "CHUNK_PNAM \<noteq> CHUNK_OIDL" "CHUNK_OIDF \<noteq> CHUNK_OIDL" "CHUNK_PNAM \<noteq> CHUNK_OOFF"
        "CHUNK_OIDF \<noteq> CHUNK_OOFF" "CHUNK_OIDL \<noteq> CHUNK_OOFF" "CHUNK_LOFF \<notin> {CHUNK_PNAM, CHUNK_OIDF, CHUNK_OIDL, CHUNK_OOFF}"
      by (simp_all add: CHUNK_OIDF_def CHUNK_OIDL_def CHUNK_PNAM_def CHUNK_OOFF_def CHUNK_LOFF_def)
    then have "distinct (map fst ?cs)" unfolding cs by auto
    then have "fst (?cs ! j) \<noteq> fst (?cs ! k)" if "j < k" for j
      using that k(1) nth_eq_iff_index_eq [of "map fst ?cs" j k] by (simp add: m_def)
    then have "find_chunk body_len (fst (?cs ! k)) R = Some (chunk_start p ?cs k, chunk_start p ?cs (Suc k))"
      unfolding R_def using k(1) fit by (intro find_chunk_rows) (simp_all add: m_def)
    moreover have "slice ?data (chunk_start p ?cs k, chunk_start p ?cs (Suc k)) = snd (?cs ! k)"
      unfolding data slice_def prod.case using k(1) P by (intro chunk_slice(1)) (simp_all add: m_def)
    ultimately show ?thesis unfolding k(2) by simp
  qed
  have "(CHUNK_PNAM, pack_names_chunk names) \<in> set ?cs" "(CHUNK_OIDL, oids) \<in> set ?cs" "(CHUNK_OOFF, ooff) \<in> set ?cs"
    by (simp_all add: cs)
  then obtain pn ol oo where pn: "find_chunk body_len CHUNK_PNAM R = Some pn" "slice ?data pn = pack_names_chunk names"
      and ol: "find_chunk body_len CHUNK_OIDL R = Some ol" "slice ?data ol = oids"
      and oo: "find_chunk body_len CHUNK_OOFF R = Some oo" "slice ?data oo = ooff"
    using chunk by meson
  have lf: "slice ?data (case find_chunk body_len CHUNK_LOFF R of Some x \<Rightarrow> x | None \<Rightarrow> (0, 0)) = loff"
  proof (cases "loff = []")
    case True
    have "find_chunk body_len CHUNK_LOFF R = None"
      unfolding R_def
      by (rule find_chunk_none) (simp add: cs True CHUNK_OIDF_def CHUNK_OIDL_def CHUNK_PNAM_def CHUNK_OOFF_def CHUNK_LOFF_def)
    then show ?thesis by (simp add: slice_def True)
  next
    case False
    then have "(CHUNK_LOFF, loff) \<in> set ?cs" by (simp add: cs)
    from chunk [OF this] show ?thesis by auto
  qed
  have cnt: "length oids div ?h = length es" using lo by (cases a) simp_all
  have x: "hash_bytes dg a (H @ T @ C) = X" by (simp add: X_def)
  have oo8: "length es * 8 = length ooff" by (simp add: ooff_def length_midx_offsets)
  have v: "midx_value a names es = \<lparr>mx_algo = a, mx_pack_names = names, mx_oids = oids, mx_ooff = ooff, mx_loff = loff, mx_count = length es\<rparr>"
    by (simp add: midx_value_def oids_def ooff_def loff_def)
  show ?thesis
    unfolding midx_parse_def Let_def body h(1-3) x body_len_def [symmetric] rows R_def [symmetric] v
    using h(4) by (simp only: ok_or_def bind_res_Ok pn ol oo lf cnt oo8 option.case simp_thms if_False if_True split_names [OF names])
qed

subsection \<open>Lookups\<close>

lemma oid_table_search:
  assumes "set ids \<subseteq> known_ids a" and "sorted_wrt (<) (map as_bytes ids)" and "wf_oid i" and "oid_algo i = a"
  shows "search_loop (\<lambda>k. take (raw_len a) (drop (k * raw_len a) (concat (map as_bytes ids)))) (take (raw_len a) (as_bytes i)) 0 (length ids) = Some k
    \<longleftrightarrow> k < length ids \<and> ids ! k = i"
  using graph_position [OF assms(1-3), of "[]" "[]" k] assms(4) by (simp add: cg_position_of_def Let_def)

lemma midx_find_entries:
  assumes ok: "entries_ok a n (seen, es)" and s: "sorted_wrt (<) (map (as_bytes \<circ> fst) es)" and i: "wf_oid i"
    and n: "length names = n" "n < 2 ^ 32" "length es < 2 ^ 31"
  shows "midx_find (midx_value a names es) i = map_option (\<lambda>(p, off). (names ! p, off)) (map_of es i)"
proof -
  have e: "distinct (map fst es)" "\<forall>(j, p, off)\<in>set es. j \<in> known_ids a \<and> p < n \<and> off < 2 ^ 64" using ok by (simp_all add: entries_ok_def)
  then have ids: "set (map fst es) \<subseteq> known_ids a" by auto
  have s': "sorted_wrt (<) (map as_bytes (map fst es))" using s by simp
  show ?thesis
  proof (cases "map_of es i")
    case None
    have "search_loop (\<lambda>k. take (raw_len a) (drop (k * raw_len a) (concat (map as_bytes (map fst es))))) (take (raw_len a) (as_bytes i)) 0 (length (map fst es)) = None"
      if oa: "oid_algo i = a"
    proof (rule ccontr)
      assume "search_loop (\<lambda>k. take (raw_len a) (drop (k * raw_len a) (concat (map as_bytes (map fst es))))) (take (raw_len a) (as_bytes i)) 0 (length (map fst es)) \<noteq> None"
      then obtain k where "k < length es" "fst (es ! k) = i"
        using oid_table_search [OF ids s' i oa] by auto
      then show False using None nth_mem [of k es] by (auto simp: map_of_eq_None_iff)
    qed
    then show ?thesis using None by (simp add: midx_find_def midx_value_def Let_def)
  next
    case (Some y)
    obtain p off where y: "y = (p, off)" by (cases y)
    have "(i, p, off) \<in> set es" using map_of_SomeD [OF Some] y by simp
    then obtain k where k: "k < length es" "es ! k = (i, p, off)" unfolding in_set_conv_nth by blast
    have b: "i \<in> known_ids a" "p < n" "off < 2 ^ 64" using e(2) \<open>(i, p, off) \<in> set es\<close> by auto
    then have a: "oid_algo i = a" by (simp add: known_ids_def)
    have row: "search_loop (\<lambda>k. take (raw_len a) (drop (k * raw_len a) (concat (map as_bytes (map fst es))))) (take (raw_len a) (as_bytes i)) 0 (length es) = Some k"
      using oid_table_search [OF ids s' i a, of k] k by simp
    define rec where "rec = take 8 (drop (k * 8) (fst (midx_offsets 0 (map snd es))))"
    define L where "L = concat (map be_bytes (snd (midx_offsets 0 (map snd es))))"
    have kk: "k < length (map snd es)" "map snd es ! k = (p, off)" using k by simp_all
    have r: "unat (be32 rec) = p"
        "be32 (drop 4 rec) AND 0x80000000 = 0 \<and> unat (be32 (drop 4 rec)) = off
          \<or> be32 (drop 4 rec) AND 0x80000000 \<noteq> 0 \<and> unat (be32 (drop 4 rec) AND 0x7fffffff) * 8 + 8 \<le> length L
            \<and> unat (be64 (drop (unat (be32 (drop 4 rec) AND 0x7fffffff) * 8) L)) = off"
      using midx_offset_row [OF kk(1)] kk(2) b n by (simp_all add: rec_def L_def)
    show ?thesis
      unfolding midx_find_def Let_def midx_value_def multi_pack_index.select_convs row option.case rec_def [symmetric] L_def [symmetric] r(1)
      using r(2) a b(2) n(1) Some y by auto
  qed
qed

lemma midx_names:
  fixes order :: "(bytes \<times> pack_index) list"
  shows "map_option (\<lambda>(p, off). (map fst order ! p, off)) (map_of (concat (map (\<lambda>(q, ix). map (\<lambda>(i, off). (i, q, off)) (index_rows ix [0..<ix_count ix]))
      (zip [0..<length order] (map snd order)))) i)
    = map_of (concat (map (\<lambda>(n, ix). map (\<lambda>(i, off). (i, n, off)) (index_rows ix [0..<ix_count ix])) order)) i"
proof -
  have z: "zip [0..<length order] (map snd order) = map (\<lambda>k. (k, snd (order ! k))) [0..<length order]"
    by (rule nth_equalityI) simp_all
  have "map (\<lambda>(i, p, off). (i, map fst order ! p, off)) (concat (map (\<lambda>(q, ix). map (\<lambda>(i, off). (i, q, off)) (index_rows ix [0..<ix_count ix]))
      (zip [0..<length order] (map snd order))))
    = concat (map (\<lambda>k. map (\<lambda>(i, off). (i, fst (order ! k), off)) (index_rows (snd (order ! k)) [0..<ix_count (snd (order ! k))])) [0..<length order])"
    unfolding z map_concat map_map by (intro arg_cong [where f = concat] map_cong) (auto simp: comp_def)
  also have "\<dots> = concat (map (\<lambda>(n, ix). map (\<lambda>(i, off). (i, n, off)) (index_rows ix [0..<ix_count ix])) order)"
    by (intro arg_cong [where f = concat] nth_equalityI) (simp_all add: split_beta)
  finally have m: "map (\<lambda>(i, p, off). (i, map fst order ! p, off)) (concat (map (\<lambda>(q, ix). map (\<lambda>(i, off). (i, q, off)) (index_rows ix [0..<ix_count ix]))
      (zip [0..<length order] (map snd order)))) = \<dots>" .
  have e: "(\<lambda>(i, p, off). (i, map fst order ! p, off)) = (\<lambda>(i, v). (i, (\<lambda>(p, off). (map fst order ! p, off)) v))"
    by (simp add: split_beta fun_eq_iff)
  have "concat (map (\<lambda>(n, ix). map (\<lambda>(i, off). (i, n, off)) (index_rows ix [0..<ix_count ix])) order) =
    map (\<lambda>(i, v). (i, (\<lambda>(p, off). (map fst order ! p, off)) v)) (concat (map (\<lambda>(q, ix). map (\<lambda>(i, off). (i, q, off)) (index_rows ix [0..<ix_count ix]))
      (zip [0..<length order] (map snd order))))"
    unfolding m [symmetric] e ..
  then show ?thesis by (simp only: map_of_map comp_def)
qed

text \<open>The size of a written file bounds what is in it.\<close>

lemma midx_file_sizes:
  assumes "length (midx_file dg a n (midx_chunks a names es)) < 2 ^ 33" and "[] \<notin> set names"
  shows "length names < 2 ^ 32" and "length es < 2 ^ 31"
proof -
  have "2 * length names \<le> length (concat (map (\<lambda>n. n @ [0]) names))" using assms(2)
  proof (induction names)
    case (Cons n names)
    then show ?case by (cases n) auto
  qed simp
  then have "2 * length names \<le> length (pack_names_chunk names)" by (simp add: pack_names_chunk_def Let_def)
  then have "2 * length names + length es * 8 \<le> length (concat (map snd (midx_chunks a names es)))"
    by (simp add: midx_chunks_def split_beta Let_def length_midx_offsets)
  also have "\<dots> \<le> length (midx_file dg a n (midx_chunks a names es))" unfolding midx_file_def Let_def by simp
  finally have "2 * length names + length es * 8 < 2 ^ 33" using assms(1) by linarith
  then show "length names < 2 ^ 32" "length es < 2 ^ 31" by simp_all
qed

section \<open>Properties\<close>

text \<open>
  C37. A multi-pack-index answers like its packs: a file of less than 8 GiB written over packs with
  plain names parses, and finds for every id the name of the first pack by name whose index has
  it with the offset that index gives, and nothing for any other id.
\<close>

theorem midx_roundtrip:
  assumes "digest_ok dg" and "write_multi_pack_index dg a packs = Ok data" and "length data < 2 ^ 33"
    and "\<forall>(n, ix)\<in>set packs. ix_algo ix = a \<and> n \<noteq> [] \<and> 0 \<notin> set n \<and> utf8_valid n"
  shows "\<exists>m. midx_parse dg a data = Ok m \<and> (\<forall>i. wf_oid i \<longrightarrow> midx_find m i = midx_lookup packs i)"
proof -
  define order where "order = sort_key fst packs"
  obtain seen es where c: "collect_packs 0 (map snd order) ({}, []) = Ok (seen, es)"
      "data = midx_file dg a (length packs) (midx_chunks a (map fst order) (sort_key (as_bytes \<circ> fst) es))"
    using assms(2) by (auto simp: write_multi_pack_index_def Let_def bind_res_eq_Ok order_def)
  define S where "S = sort_key (as_bytes \<circ> fst) es"
  have so: "set order = set packs" "length order = length packs" by (simp_all add: order_def)
  have "\<forall>ix\<in>set (map snd order). ix_algo ix = a" using assms(4) so(1) by auto
  then have es: "entries_ok a (length order) (seen, es)"
      "map_of es = map_of (concat (map (\<lambda>(q, ix). map (\<lambda>(i, off). (i, q, off)) (index_rows ix [0..<ix_count ix]))
        (zip [0..<length order] (map snd order))))"
    using collect_packs_spec [OF c(1), of a "length order"] by (simp_all add: entries_ok_def)
  then have ok: "entries_ok a (length order) (seen, S)" by (auto simp: entries_ok_def S_def distinct_map)
  have mS: "map_of S = map_of es"
    using es(1) by (intro map_of_inject_set [THEN iffD2]) (auto simp: entries_ok_def S_def distinct_map)
  have ids: "fst ` set S \<subseteq> known_ids a" using ok by (auto simp: entries_ok_def)
  have "inj_on (as_bytes \<circ> fst) (set S)"
    using ok ids inj_on_subset [OF known_inj [of a]] by (auto simp: entries_ok_def distinct_map intro: comp_inj_on)
  then have sorted: "sorted_wrt (<) (map (as_bytes \<circ> fst) S)"
    using ok by (auto simp: strict_sorted_iff distinct_map entries_ok_def S_def)
  have names: "n \<noteq> [] \<and> 0 \<notin> set n \<and> utf8_valid n" if "n \<in> set (map fst order)" for n using that assms(4) so(1) by auto
  have parse: "midx_parse dg a data = Ok (midx_value a (map fst order) S)"
    unfolding c(2) S_def [symmetric]
    by (rule midx_parse_file [OF assms(1)]) (use assms(3) c(2) names ids in \<open>auto simp: S_def [symmetric] known_ids_def wf_oid_def\<close>)
  have sizes: "length order < 2 ^ 32" "length S < 2 ^ 31"
    using midx_file_sizes [OF assms(3) [unfolded c(2) S_def [symmetric]]] names by (fastforce)+
  have "midx_find (midx_value a (map fst order) S) i = midx_lookup packs i" if "wf_oid i" for i
    using midx_find_entries [OF ok sorted that _ sizes, of "map fst order"] midx_names [of order i]
    by (simp add: mS es(2) midx_lookup_def order_def [symmetric])
  with parse show ?thesis by blast
qed

text \<open>One pack with one object.\<close>

definition sample_packs :: "(bytes \<times> pack_index) list" where
  "sample_packs = [(bstr ''a.idx'', \<lparr>ix_algo = Sha1, ix_oids = replicate 20 1, ix_offsets = [0, 0, 0, 12], ix_large_offsets = [], ix_count = 1\<rparr>)]"

lemma sample_collected:
  "collect_packs 0 (map snd (sort_key fst sample_packs)) ({}, []) = Ok ({ObjectId Sha1 (replicate 20 1)}, [(ObjectId Sha1 (replicate 20 1), 0, 12)])"
  by code_simp

lemma length_oid_fanout: "length (oid_fanout ids) = 1024"
  by (simp add: oid_fanout_def length_concat comp_def sum_list_triv)

lemma sample_midx:
  "case write_multi_pack_index sample_digest Sha1 sample_packs of Ok d \<Rightarrow> length d < 2000 | Err e \<Rightarrow> False"
  unfolding write_multi_pack_index_def Let_def sample_collected
  by (simp add: sample_packs_def midx_file_def midx_chunks_def Let_def pack_names_chunk_def hash_bytes_def sample_digest_def
    MIDX_SIGNATURE_def bstr_def length_oid_fanout)

lemma sample_midx_lookup: "midx_lookup sample_packs (ObjectId Sha1 (replicate 20 1)) = Some (bstr ''a.idx'', 12)"
  by code_simp

theorem midx_roundtrip_witness:
  "\<exists>data m. write_multi_pack_index sample_digest Sha1 sample_packs = Ok data \<and> midx_parse sample_digest Sha1 data = Ok m
    \<and> midx_find m (ObjectId Sha1 (replicate 20 1)) = Some (bstr ''a.idx'', 12)"
proof -
  obtain data where d: "write_multi_pack_index sample_digest Sha1 sample_packs = Ok data" "length data < 2000"
    using sample_midx by (auto split: result.splits)
  have "digest_ok sample_digest" by (simp add: digest_ok_def sample_digest_def)
  moreover have "length data < 2 ^ 33" using d(2) by simp
  moreover have "\<forall>(n, ix)\<in>set sample_packs. ix_algo ix = Sha1 \<and> n \<noteq> [] \<and> 0 \<notin> set n \<and> utf8_valid n"
    by code_simp
  ultimately obtain m where "midx_parse sample_digest Sha1 data = Ok m" "\<forall>i. wf_oid i \<longrightarrow> midx_find m i = midx_lookup sample_packs i"
    using midx_roundtrip [OF _ d(1)] by blast
  moreover have "wf_oid (ObjectId Sha1 (replicate 20 1))" by (simp add: wf_oid_def)
  ultimately show ?thesis using d(1) sample_midx_lookup by auto
qed

end
