(* ===== verification/Protocol.thy ===== *)
theory Protocol
  imports PktLine Capabilities
begin

text \<open>
  The messages of the smart protocol in versions 0 and 1: src/src/protocol/mod.rs. The reference
  advertisement, the fetch request with its negotiation form, the push request and the report on
  a push. Every builder is a sequence of pkt-lines; every parser is a loop over decoded packets.
  A \<open>Result<(), String>\<close> inside a message is a sum whose left part is the reason.
\<close>

section \<open>Frames\<close>

text \<open>\<open>out.extend_from_slice(&encode(p)?)\<close> for one packet after the other.\<close>

fun encode_all :: "packet list \<Rightarrow> bytes result" where
  "encode_all [] = Ok []"
| "encode_all (p # ps) = bind_res (encode p) (\<lambda>b. bind_res (encode_all ps) (\<lambda>r. Ok (b @ r)))"

definition trim_trailing_newline :: "bytes \<Rightarrow> bytes" where
  "trim_trailing_newline line = (if line \<noteq> [] \<and> last line = 10 then butlast line else line)"

text \<open>A line of text with its newline.\<close>

definition text_line :: "bytes \<Rightarrow> packet" where
  "text_line l = Data (l @ [10])"

section \<open>The reference advertisement\<close>

record advertised_ref =
  ar_name :: bytes
  ar_id :: object_id

definition MAX_ADVERTISED_REFS :: nat where
  "MAX_ADVERTISED_REFS = 262144"

record ref_advertisement =
  ra_refs :: "advertised_ref list"
  ra_capabilities :: capabilities
  ra_object_format :: hash_algo

text \<open>The reference part of a line and, on the first line, the capabilities after a NUL.\<close>

definition split_caps :: "bool \<Rightarrow> bytes \<Rightarrow> bytes \<times> bytes option" where
  "split_caps first line =
     (if first then (case split_once 0 line of Some (r, c) \<Rightarrow> (r, Some c) | None \<Rightarrow> (line, None)) else (line, None))"

definition advert_caps :: "hash_algo \<Rightarrow> capabilities \<Rightarrow> bytes option \<Rightarrow> (hash_algo \<times> capabilities) result" where
  "advert_caps a caps part =
     (case part of
        None \<Rightarrow> Ok (a, caps)
      | Some c \<Rightarrow> bind_res (from_utf8 c (Protocol ''advert: non-utf8 capabilities'')) (\<lambda>c.
          let cs = caps_parse c in Ok (case object_format cs of Some d \<Rightarrow> d | None \<Rightarrow> a, cs)))"

fun advert_loop :: "hash_algo \<Rightarrow> bool \<Rightarrow> advertised_ref list \<Rightarrow> capabilities \<Rightarrow> packet list \<Rightarrow> ref_advertisement result" where
  "advert_loop a first refs caps [] = Ok \<lparr>ra_refs = refs, ra_capabilities = caps, ra_object_format = a\<rparr>"
| "advert_loop a first refs caps (Flush # ps) = Ok \<lparr>ra_refs = refs, ra_capabilities = caps, ra_object_format = a\<rparr>"
| "advert_loop a first refs caps (Data d # ps) =
     (let line = trim_trailing_newline d
      in if first \<and> line = bstr ''version 1'' then advert_loop a first refs caps ps
         else if \<not> first \<and> starts_with (bstr ''shallow '') line then advert_loop a first refs caps ps
         else
           let (ref_part, caps_part) = split_caps first line
           in bind_res (advert_caps a caps caps_part) (\<lambda>(a, caps).
              bind_res (from_utf8 ref_part (Protocol ''advert: non-utf8 ref line'')) (\<lambda>text.
              bind_res (ok_or (split_once 32 text) (Protocol ''advert: malformed ref line'')) (\<lambda>(oid, name).
                if name = bstr ''capabilities^{}'' then advert_loop a False refs caps ps
                else if ends_with (bstr ''^{}'') name then advert_loop a False refs caps ps
                else if MAX_ADVERTISED_REFS \<le> length refs then Err (Protocol ''advert: too many refs'')
                else bind_res (from_hex a oid) (\<lambda>i.
                  advert_loop a False (refs @ [\<lparr>ar_name = name, ar_id = i\<rparr>]) caps ps)))))"
| "advert_loop a first refs caps (p # ps) = advert_loop a first refs caps ps"

definition ref_advertisement_parse :: "hash_algo \<Rightarrow> packet list \<Rightarrow> ref_advertisement result" where
  "ref_advertisement_parse a ps = advert_loop a True [] caps_new ps"

section \<open>The fetch request\<close>

record fetch_request =
  fr_wants :: "object_id list"
  fr_haves :: "object_id list"
  fr_capabilities :: capabilities
  fr_deepen :: "nat option"
  fr_shallows :: "object_id list"
  fr_done :: bool
  fr_filter :: "bytes option"
  fr_deepen_since :: "int option"
  fr_deepen_not :: "bytes list"
  fr_deepen_relative :: bool

definition fetch_request_default :: fetch_request where
  "fetch_request_default =
     \<lparr>fr_wants = [], fr_haves = [], fr_capabilities = caps_new, fr_deepen = None, fr_shallows = [], fr_done = False,
      fr_filter = None, fr_deepen_since = None, fr_deepen_not = [], fr_deepen_relative = False\<rparr>"

subsection \<open>Building\<close>

definition want_caps :: "fetch_request \<Rightarrow> capabilities" where
  "want_caps r =
     (if fr_deepen_relative r \<and> \<not> caps_has (fr_capabilities r) (bstr ''deepen-relative'')
      then add_flag (bstr ''deepen-relative'') (fr_capabilities r) else fr_capabilities r)"

definition oid_line :: "bytes \<Rightarrow> object_id \<Rightarrow> packet" where
  "oid_line key i = text_line (key @ to_hex i)"

fun want_lines :: "fetch_request \<Rightarrow> object_id list \<Rightarrow> packet list" where
  "want_lines r [] = []"
| "want_lines r (w # ws) =
     (let caps = to_wire (want_caps r)
      in if caps = [] then oid_line (bstr ''want '') w
         else text_line (bstr ''want '' @ to_hex w @ bstr '' '' @ caps))
     # map (oid_line (bstr ''want '')) ws"

definition want_section :: "fetch_request \<Rightarrow> packet list" where
  "want_section r =
     want_lines r (fr_wants r)
     @ map (oid_line (bstr ''shallow '')) (fr_shallows r)
     @ (case fr_deepen r of Some n \<Rightarrow> [text_line (bstr ''deepen '' @ dec_of_nat n)] | None \<Rightarrow> [])
     @ (case fr_deepen_since r of Some t \<Rightarrow> [text_line (bstr ''deepen-since '' @ dec_of_int t)] | None \<Rightarrow> [])
     @ map (\<lambda>n. text_line (bstr ''deepen-not '' @ n)) (fr_deepen_not r)
     @ (case fr_filter r of Some f \<Rightarrow> [text_line (bstr ''filter '' @ f)] | None \<Rightarrow> [])"

definition encode_prefix :: "fetch_request \<Rightarrow> bytes result" where
  "encode_prefix r =
     (if fr_wants r = [] then Err (Protocol ''fetch: no wants'')
      else encode_all (want_section r @ [Flush] @ map (oid_line (bstr ''have '')) (fr_haves r)))"

definition fetch_request_encode :: "fetch_request \<Rightarrow> bytes result" where
  "fetch_request_encode r = bind_res (encode_prefix r) (\<lambda>b. bind_res (encode_data (bstr ''done'' @ [10])) (\<lambda>d. Ok (b @ d)))"

definition encode_negotiation :: "fetch_request \<Rightarrow> bytes result" where
  "encode_negotiation r = bind_res (encode_prefix r) (\<lambda>b. Ok (b @ the (encode_control Flush)))"

subsection \<open>Parsing\<close>

definition utf8_rest :: "bytes \<Rightarrow> string \<Rightarrow> bytes result" where
  "utf8_rest rest e = from_utf8 rest (Protocol e)"

definition want_line :: "hash_algo \<Rightarrow> fetch_request \<times> bool \<Rightarrow> bytes \<Rightarrow> (fetch_request \<times> bool) result" where
  "want_line a st rest =
     (let (r, first_want) = st
      in bind_res (utf8_rest rest ''want: non-utf8'') (\<lambda>text.
         let (oid, caps) = (case split_once 32 text of Some (x, c) \<Rightarrow> (x, Some c) | None \<Rightarrow> (text, None))
         in bind_res (from_hex a (str_trim oid)) (\<lambda>i.
            let r1 = r\<lparr>fr_wants := fr_wants r @ [i]\<rparr>
            in Ok (if first_want then
                     (case caps of
                        Some c \<Rightarrow> r1\<lparr>fr_capabilities := caps_parse c,
                                   fr_deepen_relative := fr_deepen_relative r1 \<or> caps_has (caps_parse c) (bstr ''deepen-relative'')\<rparr>
                      | None \<Rightarrow> r1, False)
                   else (r1, first_want)))))"

definition fetch_line :: "hash_algo \<Rightarrow> fetch_request \<times> bool \<Rightarrow> bytes \<Rightarrow> (fetch_request \<times> bool) result" where
  "fetch_line a st line =
     (let (r, first_want) = st in
      case strip_prefix (bstr ''want '') line of Some rest \<Rightarrow> want_line a st rest | None \<Rightarrow>
      case strip_prefix (bstr ''have '') line of
        Some rest \<Rightarrow> bind_res (utf8_rest rest ''have: non-utf8'') (\<lambda>t.
          bind_res (from_hex a (str_trim t)) (\<lambda>i. Ok (r\<lparr>fr_haves := fr_haves r @ [i]\<rparr>, first_want))) | None \<Rightarrow>
      case strip_prefix (bstr ''shallow '') line of
        Some rest \<Rightarrow> bind_res (utf8_rest rest ''shallow: non-utf8'') (\<lambda>t.
          bind_res (from_hex a (str_trim t)) (\<lambda>i. Ok (r\<lparr>fr_shallows := fr_shallows r @ [i]\<rparr>, first_want))) | None \<Rightarrow>
      case strip_prefix (bstr ''deepen-since '') line of
        Some rest \<Rightarrow> bind_res (utf8_rest rest ''deepen-since: non-utf8'') (\<lambda>t.
          bind_res (ok_or (parse_signed 64 (str_trim t)) (Protocol ''deepen-since: invalid time'')) (\<lambda>v.
            Ok (r\<lparr>fr_deepen_since := Some v\<rparr>, first_want))) | None \<Rightarrow>
      case strip_prefix (bstr ''deepen-not '') line of
        Some rest \<Rightarrow> bind_res (utf8_rest rest ''deepen-not: non-utf8'') (\<lambda>t.
          Ok (r\<lparr>fr_deepen_not := fr_deepen_not r @ [str_trim t]\<rparr>, first_want)) | None \<Rightarrow>
      case strip_prefix (bstr ''deepen '') line of
        Some rest \<Rightarrow> bind_res (utf8_rest rest ''deepen: non-utf8'') (\<lambda>t.
          bind_res (ok_or (parse_unsigned 32 (str_trim t)) (Protocol ''deepen: invalid depth'')) (\<lambda>v.
            Ok (r\<lparr>fr_deepen := Some v\<rparr>, first_want))) | None \<Rightarrow>
      case strip_prefix (bstr ''filter '') line of
        Some rest \<Rightarrow> bind_res (utf8_rest rest ''filter: non-utf8'') (\<lambda>t.
          Ok (r\<lparr>fr_filter := Some (str_trim t)\<rparr>, first_want)) | None \<Rightarrow>
      Ok (if line = bstr ''done'' then r\<lparr>fr_done := True\<rparr> else r, first_want))"

fun fetch_loop :: "hash_algo \<Rightarrow> fetch_request \<times> bool \<Rightarrow> packet list \<Rightarrow> fetch_request result" where
  "fetch_loop a st [] = Ok (fst st)"
| "fetch_loop a st (Data d # ps) = bind_res (fetch_line a st (trim_trailing_newline d)) (\<lambda>st. fetch_loop a st ps)"
| "fetch_loop a st (p # ps) = fetch_loop a st ps"

definition fetch_request_parse :: "hash_algo \<Rightarrow> packet list \<Rightarrow> fetch_request result" where
  "fetch_request_parse a ps = fetch_loop a (fetch_request_default, True) ps"

section \<open>The push request\<close>

record ref_update_command =
  uc_old :: object_id
  uc_new :: object_id
  uc_name :: bytes

record push_request =
  pr_commands :: "ref_update_command list"
  pr_capabilities :: capabilities

definition command_text :: "ref_update_command \<Rightarrow> bytes" where
  "command_text c = to_hex (uc_old c) @ bstr '' '' @ to_hex (uc_new c) @ bstr '' '' @ uc_name c"

fun command_lines :: "capabilities \<Rightarrow> ref_update_command list \<Rightarrow> packet list" where
  "command_lines caps [] = []"
| "command_lines caps (c # cs) =
     (if to_wire caps = [] then text_line (command_text c) else text_line (command_text c @ 0 # to_wire caps))
     # map (\<lambda>c. text_line (command_text c)) cs"

definition push_request_encode :: "push_request \<Rightarrow> bytes result" where
  "push_request_encode r =
     (if pr_commands r = [] then Err (Protocol ''push: no commands'')
      else encode_all (command_lines (pr_capabilities r) (pr_commands r) @ [Flush]))"

definition command_parse :: "hash_algo \<Rightarrow> bytes \<Rightarrow> ref_update_command result" where
  "command_parse a text =
     (let parts = split_on 32 text
      in bind_res (ok_or (if 0 < length parts then Some (parts ! 0) else None) (Protocol ''push: missing old id'')) (\<lambda>old.
         bind_res (ok_or (if 1 < length parts then Some (parts ! 1) else None) (Protocol ''push: missing new id'')) (\<lambda>new.
         bind_res (ok_or (if 2 < length parts then Some (parts ! 2) else None) (Protocol ''push: missing ref name'')) (\<lambda>name.
         bind_res (from_hex a old) (\<lambda>i. bind_res (from_hex a new) (\<lambda>j.
           Ok \<lparr>uc_old = i, uc_new = j, uc_name = name\<rparr>))))))"

fun push_loop :: "hash_algo \<Rightarrow> bool \<Rightarrow> push_request \<Rightarrow> packet list \<Rightarrow> push_request result" where
  "push_loop a first r [] = Ok r"
| "push_loop a first r (Flush # ps) = Ok r"
| "push_loop a first r (Data d # ps) =
     (let (cmd_part, caps_part) = split_caps first (trim_trailing_newline d)
      in bind_res (case caps_part of
                     None \<Rightarrow> Ok r
                   | Some c \<Rightarrow> bind_res (from_utf8 c (Protocol ''push: non-utf8 caps'')) (\<lambda>c.
                       Ok (r\<lparr>pr_capabilities := caps_parse c\<rparr>))) (\<lambda>r.
         bind_res (from_utf8 cmd_part (Protocol ''push: non-utf8 command'')) (\<lambda>text.
         bind_res (command_parse a text) (\<lambda>c.
           push_loop a False (r\<lparr>pr_commands := pr_commands r @ [c]\<rparr>) ps))))"
| "push_loop a first r (p # ps) = push_loop a first r ps"

definition push_request_parse :: "hash_algo \<Rightarrow> packet list \<Rightarrow> push_request result" where
  "push_request_parse a ps = push_loop a True \<lparr>pr_commands = [], pr_capabilities = caps_new\<rparr> ps"

section \<open>The report on a push\<close>

record ref_status =
  rs_name :: bytes
  rs_result :: "bytes + unit"
  rs_options :: "(bytes \<times> bytes) list"

definition ref_status_new :: "bytes \<Rightarrow> bytes + unit \<Rightarrow> ref_status" where
  "ref_status_new name res = \<lparr>rs_name = name, rs_result = res, rs_options = []\<rparr>"

record report_status =
  rp_unpack :: "bytes + unit"
  rp_refs :: "ref_status list"

definition unpack_line :: "report_status \<Rightarrow> packet" where
  "unpack_line r = text_line (bstr ''unpack '' @ (case rp_unpack r of Inr _ \<Rightarrow> bstr ''ok'' | Inl e \<Rightarrow> e))"

definition status_line :: "ref_status \<Rightarrow> packet" where
  "status_line s =
     text_line (case rs_result s of Inr _ \<Rightarrow> bstr ''ok '' @ rs_name s
                | Inl reason \<Rightarrow> bstr ''ng '' @ rs_name s @ bstr '' '' @ reason)"

definition report_encode :: "report_status \<Rightarrow> bytes result" where
  "report_encode r = encode_all (unpack_line r # map status_line (rp_refs r) @ [Flush])"

definition option_line :: "bytes \<times> bytes \<Rightarrow> packet" where
  "option_line kv =
     text_line (bstr ''option '' @ (if snd kv = [] then fst kv else fst kv @ bstr '' '' @ snd kv))"

definition report_encode_v2 :: "report_status \<Rightarrow> bytes result" where
  "report_encode_v2 r =
     encode_all (unpack_line r # concat (map (\<lambda>s. status_line s # map option_line (rs_options s)) (rp_refs r)) @ [Flush])"

definition split_or :: "bytes \<Rightarrow> bytes \<times> bytes" where
  "split_or rest = (case split_once 32 rest of Some x \<Rightarrow> x | None \<Rightarrow> (rest, []))"

text \<open>The lines both formats share; \<open>None\<close> is a line of another kind.\<close>

definition report_line :: "report_status \<Rightarrow> bytes \<Rightarrow> report_status option" where
  "report_line r text =
     (case strip_prefix (bstr ''unpack '') text of
        Some rest \<Rightarrow> Some (r\<lparr>rp_unpack := if rest = bstr ''ok'' then Inr () else Inl rest\<rparr>) | None \<Rightarrow>
      case strip_prefix (bstr ''ok '') text of
        Some name \<Rightarrow> Some (r\<lparr>rp_refs := rp_refs r @ [ref_status_new name (Inr ())]\<rparr>) | None \<Rightarrow>
      case strip_prefix (bstr ''ng '') text of
        Some rest \<Rightarrow> let (name, reason) = split_or rest
                     in Some (r\<lparr>rp_refs := rp_refs r @ [ref_status_new name (Inl reason)]\<rparr>)
      | None \<Rightarrow> None)"

fun report_loop :: "report_status \<Rightarrow> packet list \<Rightarrow> report_status result" where
  "report_loop r [] = Ok r"
| "report_loop r (Data d # ps) =
     bind_res (from_utf8 (trim_trailing_newline d) (Protocol ''report-status: non-utf8'')) (\<lambda>text.
       report_loop (case report_line r text of Some r1 \<Rightarrow> r1 | None \<Rightarrow> r) ps)"
| "report_loop r (p # ps) = report_loop r ps"

definition report_parse :: "packet list \<Rightarrow> report_status result" where
  "report_parse ps = report_loop \<lparr>rp_unpack = Inl (bstr ''no unpack status''), rp_refs = []\<rparr> ps"

definition add_option :: "bytes \<times> bytes \<Rightarrow> ref_status \<Rightarrow> ref_status" where
  "add_option kv s = s\<lparr>rs_options := rs_options s @ [kv]\<rparr>"

fun report_loop_v2 :: "report_status \<Rightarrow> packet list \<Rightarrow> report_status result" where
  "report_loop_v2 r [] = Ok r"
| "report_loop_v2 r (Data d # ps) =
     bind_res (from_utf8 (trim_trailing_newline d) (Protocol ''report-status: non-utf8'')) (\<lambda>text.
       case report_line r text of
         Some r1 \<Rightarrow> report_loop_v2 r1 ps
       | None \<Rightarrow>
           (case strip_prefix (bstr ''option '') text of
              Some opt \<Rightarrow>
                if rp_refs r = [] then Err (Protocol ''report-status-v2: option before any ref status'')
                else report_loop_v2 (r\<lparr>rp_refs := butlast (rp_refs r) @ [add_option (split_or opt) (last (rp_refs r))]\<rparr>) ps
            | None \<Rightarrow> report_loop_v2 r ps))"
| "report_loop_v2 r (p # ps) = report_loop_v2 r ps"

definition report_parse_v2 :: "packet list \<Rightarrow> report_status result" where
  "report_parse_v2 ps = report_loop_v2 \<lparr>rp_unpack = Inl (bstr ''no unpack status''), rp_refs = []\<rparr> ps"

definition push_is_ok :: "report_status \<Rightarrow> bool" where
  "push_is_ok r \<longleftrightarrow> \<not> isl (rp_unpack r) \<and> list_all (\<lambda>s. \<not> isl (rs_result s)) (rp_refs r)"

section \<open>Lemmas\<close>

subsection \<open>Frames\<close>

lemma encode_all_append:
  "encode_all (ps @ qs) = bind_res (encode_all ps) (\<lambda>b. bind_res (encode_all qs) (\<lambda>c. Ok (b @ c)))"
  by (induction ps) (auto simp: bind_res_def split: result.splits)

lemma encode_all_single: "encode_all [p] = encode p"
  by (simp add: bind_res_def split: result.splits)

lemma decode_encode_all [codec]: "encode_all ps = Ok b \<Longrightarrow> decode_all b = Ok ps"
  by (induction ps arbitrary: b) (auto simp: bind_res_eq_Ok decode_all_Cons, simp add: decode_all.simps)

lemma decoded: "encode_all ps = Ok b \<Longrightarrow> P ps \<Longrightarrow> \<exists>ps. decode_all b = Ok ps \<and> P ps"
  using decode_encode_all by blast

definition short_packets :: "packet list \<Rightarrow> bool" where
  "short_packets ps \<longleftrightarrow> list_all (\<lambda>p. case p of Data d \<Rightarrow> length d < 2000 | _ \<Rightarrow> True) ps"

lemma encode_short: "short_packets ps \<Longrightarrow> \<exists>b. encode_all ps = Ok b"
proof (induction ps)
  case (Cons p ps)
  then obtain b where "encode_all ps = Ok b" by (auto simp: short_packets_def)
  moreover have "\<exists>c. encode p = Ok c"
    using Cons.prems by (cases p) (simp_all add: short_packets_def encode_data_def Let_def MAX_PKTLINE_LEN_def)
  ultimately show ?case by auto
qed simp

declare utf8_valid_Cons [simp]

lemma trim_text [simp]: "trim_trailing_newline (l @ [10]) = l"
  by (simp add: trim_trailing_newline_def)

lemma trim_text_append [simp]: "trim_trailing_newline (x @ c # y @ [10]) = x @ c # y"
  using trim_text [of "x @ c # y"] by (simp del: trim_text)

definition ids_of :: "hash_algo \<Rightarrow> object_id list \<Rightarrow> bool" where
  "ids_of a ids \<longleftrightarrow> (\<forall>i\<in>set ids. wf_oid i \<and> oid_algo i = a)"

lemma ids_of_simps [simp]: "ids_of a []" "ids_of a (i # ids) \<longleftrightarrow> (wf_oid i \<and> oid_algo i = a) \<and> ids_of a ids"
  by (auto simp: ids_of_def)

lemma caps_wire_empty: "\<forall>i\<in>set (items c). wf_cap i \<Longrightarrow> to_wire c = [] \<longleftrightarrow> c = caps_new"
proof
  assume wf: "\<forall>i\<in>set (items c). wf_cap i" and e: "to_wire c = []"
  then show "c = caps_new" using caps_parse_to_wire [OF wf] by (simp add: caps_parse_def caps_new_def)
qed (simp add: caps_new_def to_wire_def)

text \<open>Capabilities that fit a line of text.\<close>

definition wf_caps :: "capabilities \<Rightarrow> bool" where
  "wf_caps c \<longleftrightarrow> list_all wf_cap (items c) \<and> utf8_valid (to_wire c)"

subsection \<open>Fetch requests\<close>

lemma fetch_loop_text: "fetch_loop a st (text_line l # ps) = bind_res (fetch_line a st l) (\<lambda>st. fetch_loop a st ps)"
  by (simp add: text_line_def)

lemma fetch_haves:
  "ids_of a ids \<Longrightarrow> fetch_loop a (r, w) (map (oid_line (bstr ''have '')) ids @ qs) = fetch_loop a (r\<lparr>fr_haves := fr_haves r @ ids\<rparr>, w) qs"
  by (induction ids arbitrary: r) (simp_all add: oid_line_def fetch_loop_text fetch_line_def utf8_rest_def from_utf8_def codec)

lemma fetch_shallows:
  "ids_of a ids \<Longrightarrow> fetch_loop a (r, w) (map (oid_line (bstr ''shallow '')) ids @ qs) = fetch_loop a (r\<lparr>fr_shallows := fr_shallows r @ ids\<rparr>, w) qs"
  by (induction ids arbitrary: r) (simp_all add: oid_line_def fetch_loop_text fetch_line_def utf8_rest_def from_utf8_def codec)

lemma fetch_deepen_not:
  "list_all (\<lambda>n. utf8_valid n \<and> str_trim n = n) ns
   \<Longrightarrow> fetch_loop a (r, w) (map (\<lambda>n. text_line (bstr ''deepen-not '' @ n)) ns @ qs) = fetch_loop a (r\<lparr>fr_deepen_not := fr_deepen_not r @ ns\<rparr>, w) qs"
  by (induction ns arbitrary: r) (simp_all add: fetch_loop_text fetch_line_def utf8_rest_def from_utf8_def codec)

lemma split_hex: "split_once 32 (to_hex i) = None" "split_once 32 (to_hex i @ 32 # c) = Some (to_hex i, c)"
  using to_hex_chars [of _ i] by (auto simp: split_once_None intro!: split_once_append)

lemma fetch_wants:
  "ids_of a ids \<Longrightarrow> fetch_loop a (r, False) (map (oid_line (bstr ''want '')) ids @ qs) = fetch_loop a (r\<lparr>fr_wants := fr_wants r @ ids\<rparr>, False) qs"
  by (induction ids arbitrary: r)
    (simp_all add: oid_line_def fetch_loop_text fetch_line_def want_line_def utf8_rest_def from_utf8_def codec split_hex)

lemma join_with_snoc: "join_with c (xs @ [y]) = (if xs = [] then y else join_with c xs @ c # y)"
  by (induction c xs rule: join_with.induct) auto

lemma wf_want_caps: "wf_caps (fr_capabilities r) \<Longrightarrow> wf_caps (want_caps r)"
proof -
  assume wf: "wf_caps (fr_capabilities r)"
  have "wf_caps (add_flag (bstr ''deepen-relative'') (fr_capabilities r))"
    using wf utf8_valid_append [of "to_wire (fr_capabilities r)" "32 # bstr ''deepen-relative''"]
    by (auto simp: wf_caps_def add_flag_def to_wire_def join_with_snoc wf_cap_def caps_part_def simp del: bstr_simps) auto
  with wf show ?thesis by (simp add: want_caps_def del: bstr_simps)
qed

lemma fetch_first_want:
  assumes "wf_caps (fr_capabilities r)" and "ids_of a ids" and "ids \<noteq> []"
  shows "fetch_loop a (fetch_request_default, True) (want_lines r ids @ qs) =
    fetch_loop a (fetch_request_default\<lparr>fr_wants := ids, fr_capabilities := want_caps r,
      fr_deepen_relative := caps_has (want_caps r) (bstr ''deepen-relative'')\<rparr>, False) qs"
proof -
  define c where "c = want_caps r"
  have c: "wf_caps c" using wf_want_caps [OF assms(1)] by (simp add: c_def)
  then have wf: "\<forall>i\<in>set (items c). wf_cap i" "utf8_valid (to_wire c)" by (auto simp: wf_caps_def list_all_iff)
  obtain w ws where ids: "ids = w # ws" using assms(3) by (cases ids) auto
  have u: "utf8_valid (to_hex w @ 32 # to_wire c)" by (rule utf8_valid_append) (simp_all add: wf(2))
  show ?thesis
  proof (cases "to_wire c = []")
    case True
    then have "c = caps_new" using caps_wire_empty [OF wf(1)] by simp
    with True assms(2) show ?thesis
      by (simp add: ids c_def [symmetric] oid_line_def fetch_loop_text fetch_line_def want_line_def utf8_rest_def from_utf8_def
        codec split_hex fetch_wants [simplified] fetch_request_default_def caps_has_def caps_new_def)
  next
    case False
    with assms(2) show ?thesis
      by (simp add: ids c_def [symmetric] oid_line_def fetch_loop_text fetch_line_def want_line_def utf8_rest_def from_utf8_def
        codec split_hex fetch_wants [simplified] fetch_request_default_def caps_parse_to_wire [OF wf(1)] u)
  qed
qed

text \<open>Requests that the lines can carry: ids of one hash, plain capabilities, trimmed names, numbers of the field's width.\<close>

definition wf_fetch_request :: "hash_algo \<Rightarrow> fetch_request \<Rightarrow> bool" where
  "wf_fetch_request a r \<longleftrightarrow>
     ids_of a (fr_wants r) \<and> ids_of a (fr_haves r) \<and> ids_of a (fr_shallows r) \<and> wf_caps (fr_capabilities r)
     \<and> (case fr_deepen r of Some n \<Rightarrow> n < 2 ^ 32 | None \<Rightarrow> True)
     \<and> (case fr_deepen_since r of Some t \<Rightarrow> - (2 ^ 63) \<le> t \<and> t < 2 ^ 63 | None \<Rightarrow> True)
     \<and> list_all (\<lambda>n. utf8_valid n \<and> str_trim n = n) (fr_deepen_not r)
     \<and> (case fr_filter r of Some f \<Rightarrow> utf8_valid f \<and> str_trim f = f | None \<Rightarrow> True)"

text \<open>What the server reads: relative deepening becomes a capability and is read from it.\<close>

definition fetch_sent :: "fetch_request \<Rightarrow> fetch_request" where
  "fetch_sent r = r\<lparr>fr_capabilities := want_caps r, fr_deepen_relative := caps_has (want_caps r) (bstr ''deepen-relative'')\<rparr>"

lemma dec_graphic: "c \<in> set (dec_of_nat n) \<Longrightarrow> graphic c" "c \<in> set (dec_of_int t) \<Longrightarrow> graphic c"
  using dec_of_nat_digits [of c n] dec_of_int_chars [of c t] by (auto dest: is_digit_graphic simp: graphic_def)

lemma dec_plain: "utf8_valid (dec_of_nat n)" "str_trim (dec_of_nat n) = dec_of_nat n"
  "utf8_valid (dec_of_int t)" "str_trim (dec_of_int t) = dec_of_int t"
  by (rule utf8_valid_ascii str_trim_all_graphic, (rule graphic_small)?, erule dec_graphic)+

lemma fetch_loop_request:
  assumes "wf_fetch_request a r" and "fr_wants r \<noteq> []"
  shows "fetch_loop a (fetch_request_default, True) (want_section r @ [Flush] @ map (oid_line (bstr ''have '')) (fr_haves r) @ qs) =
    fetch_loop a (fetch_sent r\<lparr>fr_done := False\<rparr>, False) qs"
proof -
  have wf: "ids_of a (fr_wants r)" "ids_of a (fr_haves r)" "ids_of a (fr_shallows r)" "wf_caps (fr_capabilities r)"
    "list_all (\<lambda>n. utf8_valid n \<and> str_trim n = n) (fr_deepen_not r)"
    using assms(1) by (simp_all add: wf_fetch_request_def)
  have deepen: "fetch_loop a (s, w) ((case fr_deepen r of Some n \<Rightarrow> [text_line (bstr ''deepen '' @ dec_of_nat n)] | None \<Rightarrow> []) @ qs) =
      fetch_loop a (case fr_deepen r of Some n \<Rightarrow> s\<lparr>fr_deepen := Some n\<rparr> | None \<Rightarrow> s, w) qs" for s w qs
    using assms(1) by (auto simp: wf_fetch_request_def fetch_loop_text fetch_line_def utf8_rest_def from_utf8_def dec_plain codec
      split: option.splits)
  have since: "fetch_loop a (s, w) ((case fr_deepen_since r of Some n \<Rightarrow> [text_line (bstr ''deepen-since '' @ dec_of_int n)] | None \<Rightarrow> []) @ qs) =
      fetch_loop a (case fr_deepen_since r of Some n \<Rightarrow> s\<lparr>fr_deepen_since := Some n\<rparr> | None \<Rightarrow> s, w) qs" for s w qs
    using assms(1) by (auto simp: wf_fetch_request_def fetch_loop_text fetch_line_def utf8_rest_def from_utf8_def dec_plain codec
      split: option.splits)
  have filt: "fetch_loop a (s, w) ((case fr_filter r of Some n \<Rightarrow> [text_line (bstr ''filter '' @ n)] | None \<Rightarrow> []) @ qs) =
      fetch_loop a (case fr_filter r of Some n \<Rightarrow> s\<lparr>fr_filter := Some n\<rparr> | None \<Rightarrow> s, w) qs" for s w qs
    using assms(1) by (auto simp: wf_fetch_request_def fetch_loop_text fetch_line_def utf8_rest_def from_utf8_def codec
      split: option.splits)
  show ?thesis
    unfolding want_section_def append_assoc fetch_first_want [OF wf(4,1) assms(2)] fetch_shallows [OF wf(3)] deepen since
      fetch_deepen_not [OF wf(5)] filt append.simps fetch_loop.simps fetch_haves [OF wf(2)]
    by (cases r) (auto simp: fetch_request_default_def fetch_sent_def want_caps_def split: option.splits)
qed

subsection \<open>Push requests\<close>

definition wf_command :: "hash_algo \<Rightarrow> ref_update_command \<Rightarrow> bool" where
  "wf_command a c \<longleftrightarrow> ids_of a [uc_old c, uc_new c] \<and> utf8_valid (uc_name c) \<and> 32 \<notin> set (uc_name c) \<and> 0 \<notin> set (uc_name c)"

lemma command_text_parse [codec]: "wf_command a c \<Longrightarrow> command_parse a (command_text c) = Ok c"
proof -
  assume wf: "wf_command a c"
  have hex: "32 \<notin> set (to_hex i)" for i using to_hex_chars by blast
  then have "split_on 32 (command_text c) = [to_hex (uc_old c), to_hex (uc_new c), uc_name c]"
    using wf by (simp add: command_text_def split_on_append split_on_plain wf_command_def)
  with wf show ?thesis by (simp add: command_parse_def wf_command_def codec)
qed

lemma command_text_plain: "wf_command a c \<Longrightarrow> utf8_valid (command_text c) \<and> 0 \<notin> set (command_text c)"
  using to_hex_chars by (auto simp: command_text_def wf_command_def intro!: utf8_valid_append)

lemma push_commands:
  "list_all (wf_command a) cs \<Longrightarrow>
    push_loop a False r (map (\<lambda>c. text_line (command_text c)) cs @ Flush # qs) = Ok (r\<lparr>pr_commands := pr_commands r @ cs\<rparr>)"
  by (induction cs arbitrary: r) (simp_all add: text_line_def split_caps_def from_utf8_def command_text_plain [of a] codec)

lemma push_loop_request:
  assumes "list_all (wf_command a) (pr_commands r)" and "wf_caps (pr_capabilities r)" and "pr_commands r \<noteq> []"
  shows "push_request_parse a (command_lines (pr_capabilities r) (pr_commands r) @ [Flush]) = Ok r"
proof -
  obtain c cs where cs: "pr_commands r = c # cs" using assms(3) by (cases "pr_commands r") auto
  have wf: "wf_command a c" "list_all (wf_command a) cs" using assms(1) cs by simp_all
  have caps: "\<forall>i\<in>set (items (pr_capabilities r)). wf_cap i" "utf8_valid (to_wire (pr_capabilities r))"
    using assms(2) by (auto simp: wf_caps_def list_all_iff)
  show ?thesis
  proof (cases "to_wire (pr_capabilities r) = []")
    case True
    then have "pr_capabilities r = caps_new" using caps_wire_empty [OF caps(1)] by simp
    with True wf cs show ?thesis
      by (cases r) (simp add: push_request_parse_def text_line_def split_caps_def split_once_None [THEN iffD2] from_utf8_def
        command_text_plain [of a] codec push_commands [unfolded text_line_def])
  next
    case False
    with wf cs caps(2) caps_parse_to_wire [OF caps(1)] show ?thesis
      by (cases r) (simp add: push_request_parse_def text_line_def split_caps_def split_once_append from_utf8_def command_text_plain [of a]
        codec push_commands [unfolded text_line_def])
  qed
qed

subsection \<open>Reports\<close>

definition wf_status :: "ref_status \<Rightarrow> bool" where
  "wf_status s \<longleftrightarrow> utf8_valid (rs_name s)
     \<and> (case rs_result s of Inl reason \<Rightarrow> utf8_valid reason \<and> 32 \<notin> set (rs_name s) | Inr _ \<Rightarrow> True)
     \<and> list_all (\<lambda>(k, v). utf8_valid k \<and> utf8_valid v \<and> 32 \<notin> set k) (rs_options s)"

definition wf_report :: "report_status \<Rightarrow> bool" where
  "wf_report r \<longleftrightarrow> (case rp_unpack r of Inl e \<Rightarrow> utf8_valid e \<and> e \<noteq> bstr ''ok'' | Inr _ \<Rightarrow> True) \<and> list_all wf_status (rp_refs r)"

text \<open>A report as version 1 tells it.\<close>

definition plain_report :: "report_status \<Rightarrow> report_status" where
  "plain_report r = r\<lparr>rp_refs := map (\<lambda>s. s\<lparr>rs_options := []\<rparr>) (rp_refs r)\<rparr>"

lemma report_loop_text:
  "utf8_valid l \<Longrightarrow> report_loop r (text_line l # ps) = report_loop (case report_line r l of Some r1 \<Rightarrow> r1 | None \<Rightarrow> r) ps"
  "utf8_valid l \<Longrightarrow> report_loop_v2 r (text_line l # ps) =
     (case report_line r l of
        Some r1 \<Rightarrow> report_loop_v2 r1 ps
      | None \<Rightarrow>
          (case strip_prefix (bstr ''option '') l of
             Some opt \<Rightarrow>
               if rp_refs r = [] then Err (Protocol ''report-status-v2: option before any ref status'')
               else report_loop_v2 (r\<lparr>rp_refs := butlast (rp_refs r) @ [add_option (split_or opt) (last (rp_refs r))]\<rparr>) ps
           | None \<Rightarrow> report_loop_v2 r ps))"
  by (simp_all add: text_line_def from_utf8_def)

lemma status_report_line:
  assumes "wf_status s"
  shows "\<exists>l. status_line s = text_line l \<and> utf8_valid l
    \<and> report_line r l = Some (r\<lparr>rp_refs := rp_refs r @ [s\<lparr>rs_options := []\<rparr>]\<rparr>)"
proof (cases "rs_result s")
  case (Inl reason)
  with assms have "utf8_valid (rs_name s @ 32 # reason)" "split_or (rs_name s @ 32 # reason) = (rs_name s, reason)"
    by (auto simp: wf_status_def split_or_def split_once_append intro!: utf8_valid_append)
  with Inl show ?thesis by (cases s) (auto simp: status_line_def report_line_def ref_status_new_def)
next
  case (Inr u)
  with assms show ?thesis by (cases s) (auto simp: status_line_def report_line_def ref_status_new_def wf_status_def)
qed

lemma option_report_line:
  assumes "utf8_valid (fst kv)" "utf8_valid (snd kv)" "32 \<notin> set (fst kv)"
  shows "\<exists>l opt. option_line kv = text_line l \<and> utf8_valid l \<and> report_line r l = None
    \<and> strip_prefix (bstr ''option '') l = Some opt \<and> split_or opt = kv"
proof -
  let ?opt = "if snd kv = [] then fst kv else fst kv @ bstr '' '' @ snd kv"
  have "utf8_valid ?opt" "split_or ?opt = kv"
    using assms by (auto simp: split_or_def split_once_append split_once_None [THEN iffD2] intro!: utf8_valid_append prod_eqI)
  then show ?thesis
    by (intro exI [of _ "bstr ''option '' @ ?opt"] exI [of _ ?opt] conjI) (auto simp: option_line_def report_line_def)
qed

text \<open>A report as it was read so far: the options of the last reference may be incomplete.\<close>

lemma report_options:
  "list_all (\<lambda>(k, v). utf8_valid k \<and> utf8_valid v \<and> 32 \<notin> set k) kvs \<Longrightarrow> report_loop_v2 (r\<lparr>rp_refs := ss @ [s]\<rparr>) (map option_line kvs @ ps) =
      report_loop_v2 (r\<lparr>rp_refs := ss @ [s\<lparr>rs_options := rs_options s @ kvs\<rparr>]\<rparr>) ps"
proof (induction kvs arbitrary: s)
  case (Cons kv kvs)
  have wf: "utf8_valid (fst kv)" "utf8_valid (snd kv)" "32 \<notin> set (fst kv)" using Cons.prems by (auto simp: split_beta)
  obtain l opt where l: "option_line kv = text_line l" "utf8_valid l" "report_line (r\<lparr>rp_refs := ss @ [s]\<rparr>) l = None"
      "strip_prefix (bstr ''option '') l = Some opt" "split_or opt = kv"
    using option_report_line [OF wf] by blast
  have "report_loop_v2 (r\<lparr>rp_refs := ss @ [s]\<rparr>) (map option_line (kv # kvs) @ ps) =
      report_loop_v2 (r\<lparr>rp_refs := ss @ [add_option kv s]\<rparr>) (map option_line kvs @ ps)"
    by (simp only: list.map append.simps l(1) report_loop_text(2) [OF l(2)] l(3) option.case l(4)) (simp add: l(5))
  also have "\<dots> = report_loop_v2 (r\<lparr>rp_refs := ss @ [(add_option kv s)\<lparr>rs_options := rs_options (add_option kv s) @ kvs\<rparr>]\<rparr>) ps"
    by (rule Cons.IH) (use Cons.prems in simp)
  finally show ?case by (simp add: add_option_def)
qed simp

lemma report_options_v1: "list_all (\<lambda>(k, v). utf8_valid k \<and> utf8_valid v \<and> 32 \<notin> set k) kvs \<Longrightarrow> report_loop r (map option_line kvs @ ps) = report_loop r ps"
proof (induction kvs)
  case (Cons kv kvs)
  have wf: "utf8_valid (fst kv)" "utf8_valid (snd kv)" "32 \<notin> set (fst kv)" using Cons.prems by (auto simp: split_beta)
  obtain l opt where "option_line kv = text_line l" "utf8_valid l" "report_line r l = None"
    using option_report_line [OF wf] by blast
  then show ?case using Cons by (simp add: report_loop_text(1))
qed simp

lemma wf_status_options: "wf_status s \<Longrightarrow> list_all (\<lambda>(k, v). utf8_valid k \<and> utf8_valid v \<and> 32 \<notin> set k) (rs_options s)"
  by (simp add: wf_status_def)

lemma report_statuses:
  "list_all wf_status ss \<Longrightarrow> report_loop_v2 r (concat (map (\<lambda>s. status_line s # map option_line (rs_options s)) ss) @ ps) =
      report_loop_v2 (r\<lparr>rp_refs := rp_refs r @ ss\<rparr>) ps"
proof (induction ss arbitrary: r)
  case (Cons s ss)
  then have wf: "wf_status s" by simp
  show ?case using status_report_line [OF wf, of r] Cons
      report_options [OF wf_status_options [OF wf], where r = r and ss = "rp_refs r" and s = "s\<lparr>rs_options := []\<rparr>"]
    by (auto simp: report_loop_text)
qed simp

lemma report_statuses_v1:
  "list_all wf_status ss \<Longrightarrow> report_loop r (concat (map (\<lambda>s. status_line s # map option_line (rs_options s)) ss) @ ps) =
      report_loop (r\<lparr>rp_refs := rp_refs r @ map (\<lambda>s. s\<lparr>rs_options := []\<rparr>) ss\<rparr>) ps"
  "list_all wf_status ss \<Longrightarrow> report_loop r (map status_line ss @ ps) =
      report_loop (r\<lparr>rp_refs := rp_refs r @ map (\<lambda>s. s\<lparr>rs_options := []\<rparr>) ss\<rparr>) ps"
proof (induction ss arbitrary: r)
  case (Cons s ss)
  {
    case 1
    then have wf: "wf_status s" by simp
    show ?case using status_report_line [OF wf, of r] Cons.IH(1) 1
      by (auto simp: report_loop_text report_options_v1 [OF wf_status_options [OF wf]])
  next
    case 2
    then have wf: "wf_status s" by simp
    show ?case using status_report_line [OF wf, of r] Cons.IH(2) 2 by (auto simp: report_loop_text)
  }
qed simp_all

lemma unpack_report_line:
  assumes "wf_report r"
  shows "\<exists>l. unpack_line r = text_line l \<and> utf8_valid l \<and> report_line r0 l = Some (r0\<lparr>rp_unpack := rp_unpack r\<rparr>)"
proof (cases "rp_unpack r")
  case (Inl e)
  with assms show ?thesis by (auto simp: unpack_line_def report_line_def wf_report_def)
next
  case (Inr u)
  with assms show ?thesis by (auto simp: unpack_line_def report_line_def wf_report_def)
qed

section \<open>Properties\<close>

text \<open>
  A server reads the fetch request that the client sent: decoding the bytes of \<open>encode\<close> and
  parsing the packets gives the request back with every want, have, boundary commit, depth, time,
  excluded reference and filter, and \<open>done\<close> set; for \<open>encode_negotiation\<close> the same without
  \<open>done\<close>. A relative depth travels as a capability of the first want line.
\<close>

theorem fetch_request_roundtrip:
  assumes "wf_fetch_request a r"
  shows "(\<forall>data. fetch_request_encode r = Ok data \<longrightarrow>
      (\<exists>ps. decode_all data = Ok ps \<and> fetch_request_parse a ps = Ok (fetch_sent r\<lparr>fr_done := True\<rparr>)))
    \<and> (\<forall>data. encode_negotiation r = Ok data \<longrightarrow>
      (\<exists>ps. decode_all data = Ok ps \<and> fetch_request_parse a ps = Ok (fetch_sent r\<lparr>fr_done := False\<rparr>)))"
proof (intro conjI allI impI)
  let ?ps = "want_section r @ [Flush] @ map (oid_line (bstr ''have '')) (fr_haves r)"
  {
    fix data assume "fetch_request_encode r = Ok data"
    then have "encode_all (?ps @ [text_line (bstr ''done'')]) = Ok data" "fr_wants r \<noteq> []"
      by (auto simp: fetch_request_encode_def encode_prefix_def encode_all_append bind_res_eq_Ok text_line_def split: if_splits)
    then show "\<exists>ps. decode_all data = Ok ps \<and> fetch_request_parse a ps = Ok (fetch_sent r\<lparr>fr_done := True\<rparr>)"
      using fetch_loop_request [OF assms, of "[text_line (bstr ''done'')]"]
      by (elim decoded) (simp add: fetch_request_parse_def fetch_loop_text fetch_line_def)
  next
    fix data assume "encode_negotiation r = Ok data"
    then have "encode_all (?ps @ [Flush]) = Ok data" "fr_wants r \<noteq> []"
      by (auto simp: encode_negotiation_def encode_prefix_def encode_all_append bind_res_eq_Ok split: if_splits)
    then show "\<exists>ps. decode_all data = Ok ps \<and> fetch_request_parse a ps = Ok (fetch_sent r\<lparr>fr_done := False\<rparr>)"
      using fetch_loop_request [OF assms, of "[Flush]"] by (elim decoded) (simp add: fetch_request_parse_def)
  }
qed

definition sample_request :: fetch_request where
  "sample_request = fetch_request_default\<lparr>fr_wants := [ObjectId Sha1 (replicate 20 1)], fr_deepen := Some 2,
     fr_deepen_not := [bstr ''refs/tags/v1''], fr_deepen_relative := True\<rparr>"

theorem fetch_request_roundtrip_witness:
  "\<exists>data ps r. fetch_request_encode sample_request = Ok data \<and> decode_all data = Ok ps \<and> fetch_request_parse Sha1 ps = Ok r
    \<and> fr_deepen r = Some 2 \<and> fr_deepen_relative r \<and> fr_done r"
proof -
  have "short_packets (want_section sample_request @ [Flush] @ map (oid_line (bstr ''have '')) (fr_haves sample_request))" by code_simp
  from encode_short [OF this] obtain d1 where "encode_prefix sample_request = Ok d1"
    by (auto simp: encode_prefix_def sample_request_def)
  then obtain data where d: "fetch_request_encode sample_request = Ok data"
    by (auto simp: fetch_request_encode_def encode_data_def MAX_PKTLINE_LEN_def)
  have "utf8_valid (bstr ''refs/tags/v1'') \<and> str_trim (bstr ''refs/tags/v1'') = bstr ''refs/tags/v1''" by code_simp
  then have wf: "wf_fetch_request Sha1 sample_request"
    by (simp add: wf_fetch_request_def sample_request_def fetch_request_default_def wf_caps_def caps_new_def wf_oid_def to_wire_def)
  have "caps_has (want_caps sample_request) (bstr ''deepen-relative'')" by code_simp
  with fetch_request_roundtrip [OF wf] d show ?thesis
    by (fastforce simp: fetch_sent_def sample_request_def)
qed

text \<open>
  A server reads the push that the client sent: decoding the bytes of \<open>encode\<close> and parsing the
  packets gives the same commands, in order, and the same capabilities.
\<close>

theorem push_request_roundtrip:
  assumes "list_all (wf_command a) (pr_commands r)" and "wf_caps (pr_capabilities r)" and "push_request_encode r = Ok data"
  shows "\<exists>ps. decode_all data = Ok ps \<and> push_request_parse a ps = Ok r"
  using assms(3) push_loop_request [OF assms(1,2)] by (auto simp: push_request_encode_def intro: decoded split: if_splits)

definition sample_push :: push_request where
  "sample_push = \<lparr>pr_commands = [\<lparr>uc_old = zero_oid Sha1, uc_new = ObjectId Sha1 (replicate 20 1), uc_name = bstr ''refs/heads/main''\<rparr>],
     pr_capabilities = \<lparr>items = [(bstr ''report-status'', None)]\<rparr>\<rparr>"

theorem push_request_roundtrip_witness:
  "\<exists>data ps. push_request_encode sample_push = Ok data \<and> decode_all data = Ok ps \<and> push_request_parse Sha1 ps = Ok sample_push"
proof -
  have "short_packets (command_lines (pr_capabilities sample_push) (pr_commands sample_push) @ [Flush])" by code_simp
  from encode_short [OF this] obtain data where d: "push_request_encode sample_push = Ok data"
    by (auto simp: push_request_encode_def sample_push_def)
  have wf: "list_all (wf_command Sha1) (pr_commands sample_push)"
    by (simp add: sample_push_def wf_command_def wf_oid_def zero_oid_def)
  have "wf_caps (pr_capabilities sample_push)" by (simp add: sample_push_def wf_caps_def wf_cap_def to_wire_def caps_part_def)
  from push_request_roundtrip [OF wf this d] d show ?thesis by blast
qed

text \<open>
  A client reads the report of a push: parsing a version 2 report gives back the outcome of the
  unpacking and of every reference with its options, a client that reads only version 1 gets the
  same outcomes without the options from either format, and the push is a success for the client
  exactly when it is one for the server.
\<close>

theorem report_status_roundtrip:
  assumes "wf_report r"
  shows "(\<forall>data. report_encode_v2 r = Ok data \<longrightarrow>
      (\<exists>ps. decode_all data = Ok ps \<and> report_parse_v2 ps = Ok r \<and> report_parse ps = Ok (plain_report r)))
    \<and> (\<forall>data. report_encode r = Ok data \<longrightarrow> (\<exists>ps. decode_all data = Ok ps \<and> report_parse ps = Ok (plain_report r)))
    \<and> push_is_ok (plain_report r) = push_is_ok r"
proof (intro conjI allI impI)
  have wf: "list_all wf_status (rp_refs r)" using assms by (simp add: wf_report_def)
  show "push_is_ok (plain_report r) = push_is_ok r"
    by (simp add: push_is_ok_def plain_report_def list_all_iff)
  {
    fix data assume "report_encode_v2 r = Ok data"
    then show "\<exists>ps. decode_all data = Ok ps \<and> report_parse_v2 ps = Ok r \<and> report_parse ps = Ok (plain_report r)"
      using unpack_report_line [OF assms, of "\<lparr>rp_unpack = Inl (bstr ''no unpack status''), rp_refs = []\<rparr>"]
      unfolding report_encode_v2_def
      by (elim decoded) (auto simp: report_parse_v2_def report_parse_def report_loop_text report_statuses [OF wf]
        report_statuses_v1(1) [OF wf] plain_report_def)
  next
    fix data assume "report_encode r = Ok data"
    then show "\<exists>ps. decode_all data = Ok ps \<and> report_parse ps = Ok (plain_report r)"
      using unpack_report_line [OF assms, of "\<lparr>rp_unpack = Inl (bstr ''no unpack status''), rp_refs = []\<rparr>"]
      unfolding report_encode_def
      by (elim decoded) (auto simp: report_parse_def report_loop_text report_statuses_v1(2) [OF wf] plain_report_def)
  }
qed

definition sample_report :: report_status where
  "sample_report = \<lparr>rp_unpack = Inr (), rp_refs =
     [\<lparr>rs_name = bstr ''refs/heads/main'', rs_result = Inr (), rs_options = [(bstr ''forced-update'', [])]\<rparr>,
      \<lparr>rs_name = bstr ''refs/heads/dev'', rs_result = Inl (bstr ''non-fast-forward''), rs_options = []\<rparr>]\<rparr>"

theorem report_status_roundtrip_witness:
  "\<exists>data ps. report_encode_v2 sample_report = Ok data \<and> decode_all data = Ok ps \<and> report_parse_v2 ps = Ok sample_report"
proof -
  have "short_packets (unpack_line sample_report
      # concat (map (\<lambda>s. status_line s # map option_line (rs_options s)) (rp_refs sample_report)) @ [Flush])" by code_simp
  from encode_short [OF this] obtain data where d: "report_encode_v2 sample_report = Ok data" by (auto simp: report_encode_v2_def)
  have "wf_report sample_report" by (simp add: sample_report_def wf_report_def wf_status_def)
  from report_status_roundtrip [OF this] d show ?thesis by blast
qed

end
