(* ===== verification/Protocol_V2.thy ===== *)
theory Protocol_V2
  imports Protocol
begin

text \<open>
  The smart protocol in version 2: src/src/protocol/v2.rs. The capability advertisement, commands
  with their arguments, the answer to \<open>ls-refs\<close> and the sections of the answer to \<open>fetch\<close>, whose
  pack travels in side-band lines. \<open>AGENT\<close> has the version of src/Cargo.toml.
\<close>

section \<open>Advertisement and commands\<close>

definition SIDEBAND_MAX_PAYLOAD :: nat where
  "SIDEBAND_MAX_PAYLOAD = MAX_PKTLINE_LEN - 4 - 1"

definition AGENT :: bytes where
  "AGENT = bstr ''puregit/0.0.2''"

type_synonym ls_ref = "bytes \<times> object_id \<times> bytes option \<times> object_id option"

definition trim_newline :: "bytes \<Rightarrow> bytes" where
  "trim_newline line = (if ends_with [10] line then take (length line - 1) line else line)"

definition capability_advertisement :: "hash_algo \<Rightarrow> bytes result" where
  "capability_advertisement a =
     encode_all
       [text_line (bstr ''version 2''), text_line (bstr ''agent='' @ AGENT), text_line (bstr ''ls-refs=unborn''),
        text_line (bstr ''fetch=shallow filter ref-in-want packfile-uris''), text_line (bstr ''object-format='' @ algo_name a), Flush]"

record command =
  cmd_name :: bytes
  cmd_capabilities :: "bytes list"
  cmd_args :: "bytes list"

fun command_loop :: "bytes option \<Rightarrow> bytes list \<Rightarrow> bytes list \<Rightarrow> bool \<Rightarrow> packet list \<Rightarrow> bytes option \<times> bytes list \<times> bytes list" where
  "command_loop name caps args after_delim [] = (name, caps, args)"
| "command_loop name caps args after_delim (Delim # ps) = command_loop name caps args True ps"
| "command_loop name caps args after_delim (Flush # ps) = (name, caps, args)"
| "command_loop name caps args after_delim (Data d # ps) =
     (let text = from_utf8_lossy (trim_newline d)
      in if after_delim then command_loop name caps (args @ [text]) after_delim ps
         else case strip_prefix (bstr ''command='') text of
                Some cmd \<Rightarrow> command_loop (Some cmd) caps args after_delim ps
              | None \<Rightarrow> command_loop name (caps @ [text]) args after_delim ps)"
| "command_loop name caps args after_delim (ResponseEnd # ps) = (name, caps, args)"

definition v2_command_parse :: "packet list \<Rightarrow> command result" where
  "v2_command_parse ps =
     (let (name, caps, args) = command_loop None [] [] False ps
      in bind_res (ok_or name (Protocol ''v2: request has no command'')) (\<lambda>name.
           Ok \<lparr>cmd_name = name, cmd_capabilities = caps, cmd_args = args\<rparr>))"

definition has_arg :: "command \<Rightarrow> bytes \<Rightarrow> bool" where
  "has_arg c arg \<longleftrightarrow> list_ex (\<lambda>a. a = arg) (cmd_args c)"

definition encode_command :: "bytes \<Rightarrow> bytes list \<Rightarrow> bytes list \<Rightarrow> bytes result" where
  "encode_command name caps args =
     encode_all (text_line (bstr ''command='' @ name) # map text_line caps @ [Delim] @ map text_line args @ [Flush])"

fun advertisement_loop :: "bytes list \<Rightarrow> bool \<Rightarrow> packet list \<Rightarrow> (bytes list \<times> bool) result" where
  "advertisement_loop caps saw [] = Ok (caps, saw)"
| "advertisement_loop caps saw (Data d # ps) =
     (let line = from_utf8_lossy (trim_newline d)
      in if \<not> saw then
           (if line \<noteq> bstr ''version 2'' then Err (Protocol ''v2: advertisement is not version 2'')
            else advertisement_loop caps True ps)
         else advertisement_loop (caps @ [line]) saw ps)"
| "advertisement_loop caps saw (Flush # ps) = Ok (caps, saw)"
| "advertisement_loop caps saw (p # ps) = advertisement_loop caps saw ps"

definition parse_capability_advertisement :: "packet list \<Rightarrow> bytes list result" where
  "parse_capability_advertisement ps =
     bind_res (advertisement_loop [] False ps) (\<lambda>(caps, saw).
       if \<not> saw then Err (Protocol ''v2: empty advertisement'') else Ok caps)"

section \<open>References\<close>

definition ref_prefixes :: "command \<Rightarrow> bytes list" where
  "ref_prefixes c = List.map_filter (strip_prefix (bstr ''ref-prefix '')) (cmd_args c)"

definition ls_ref_shown :: "command \<Rightarrow> ls_ref \<Rightarrow> bool" where
  "ls_ref_shown c r \<longleftrightarrow> ref_prefixes c = [] \<or> list_ex (\<lambda>p. starts_with p (fst r)) (ref_prefixes c)"

definition ls_ref_line :: "command \<Rightarrow> ls_ref \<Rightarrow> packet" where
  "ls_ref_line c r =
     (let (name, i, symref, peeled) = r
      in text_line (to_hex i @ [32] @ name
           @ (case symref of Some t \<Rightarrow> if has_arg c (bstr ''symrefs'') then bstr '' symref-target:'' @ t else [] | None \<Rightarrow> [])
           @ (case peeled of Some p \<Rightarrow> if has_arg c (bstr ''peel'') then bstr '' peeled:'' @ to_hex p else [] | None \<Rightarrow> [])))"

definition encode_ls_refs_response :: "command \<Rightarrow> ls_ref list \<Rightarrow> bytes result" where
  "encode_ls_refs_response c refs = encode_all (map (ls_ref_line c) (filter (ls_ref_shown c) refs) @ [Flush])"

fun ls_refs_loop :: "hash_algo \<Rightarrow> advertised_ref list \<Rightarrow> packet list \<Rightarrow> advertised_ref list result" where
  "ls_refs_loop a refs [] = Ok refs"
| "ls_refs_loop a refs (Flush # ps) = Ok refs"
| "ls_refs_loop a refs (Data d # ps) =
     bind_res (from_utf8 (trim_newline d) (Protocol ''v2 ls-refs: non-utf8 line'')) (\<lambda>text.
       case split_on 32 text of
         oid # name # _ \<Rightarrow> bind_res (from_hex a oid) (\<lambda>i. ls_refs_loop a (refs @ [\<lparr>ar_name = name, ar_id = i\<rparr>]) ps)
       | _ \<Rightarrow> ls_refs_loop a refs ps)"
| "ls_refs_loop a refs (p # ps) = ls_refs_loop a refs ps"

definition parse_ls_refs_response :: "hash_algo \<Rightarrow> packet list \<Rightarrow> advertised_ref list result" where
  "parse_ls_refs_response a ps = ls_refs_loop a [] ps"

section \<open>Fetch arguments\<close>

record fetch_args =
  fa_wants :: "object_id list"
  fa_haves :: "object_id list"
  fa_done :: bool
  fa_thin_pack :: bool
  fa_no_progress :: bool
  fa_deepen :: "nat option"
  fa_shallows :: "object_id list"
  fa_filter :: "bytes option"
  fa_want_refs :: "bytes list"
  fa_deepen_since :: "int option"
  fa_deepen_not :: "bytes list"
  fa_deepen_relative :: bool

definition fetch_args_default :: fetch_args where
  "fetch_args_default =
     \<lparr>fa_wants = [], fa_haves = [], fa_done = False, fa_thin_pack = False, fa_no_progress = False, fa_deepen = None,
      fa_shallows = [], fa_filter = None, fa_want_refs = [], fa_deepen_since = None, fa_deepen_not = [],
      fa_deepen_relative = False\<rparr>"

definition fetch_arg :: "hash_algo \<Rightarrow> fetch_args \<Rightarrow> bytes \<Rightarrow> fetch_args result" where
  "fetch_arg a r line =
     (case strip_prefix (bstr ''want '') line of
        Some oid \<Rightarrow> bind_res (from_hex a (str_trim oid)) (\<lambda>i. Ok (r\<lparr>fa_wants := fa_wants r @ [i]\<rparr>)) | None \<Rightarrow>
      case strip_prefix (bstr ''have '') line of
        Some oid \<Rightarrow> bind_res (from_hex a (str_trim oid)) (\<lambda>i. Ok (r\<lparr>fa_haves := fa_haves r @ [i]\<rparr>)) | None \<Rightarrow>
      case strip_prefix (bstr ''shallow '') line of
        Some oid \<Rightarrow> bind_res (from_hex a (str_trim oid)) (\<lambda>i. Ok (r\<lparr>fa_shallows := fa_shallows r @ [i]\<rparr>)) | None \<Rightarrow>
      case strip_prefix (bstr ''deepen-since '') line of
        Some t \<Rightarrow> bind_res (ok_or (parse_signed 64 (str_trim t)) (Protocol ''v2 deepen-since: invalid time'')) (\<lambda>v.
          Ok (r\<lparr>fa_deepen_since := Some v\<rparr>)) | None \<Rightarrow>
      case strip_prefix (bstr ''deepen-not '') line of
        Some n \<Rightarrow> Ok (r\<lparr>fa_deepen_not := fa_deepen_not r @ [str_trim n]\<rparr>) | None \<Rightarrow>
      if line = bstr ''deepen-relative'' then Ok (r\<lparr>fa_deepen_relative := True\<rparr>) else
      case strip_prefix (bstr ''deepen '') line of
        Some t \<Rightarrow> bind_res (ok_or (parse_unsigned 32 (str_trim t)) (Protocol ''v2 deepen: invalid depth'')) (\<lambda>v.
          Ok (r\<lparr>fa_deepen := Some v\<rparr>)) | None \<Rightarrow>
      case strip_prefix (bstr ''filter '') line of
        Some f \<Rightarrow> Ok (r\<lparr>fa_filter := Some (str_trim f)\<rparr>) | None \<Rightarrow>
      case strip_prefix (bstr ''want-ref '') line of
        Some n \<Rightarrow> Ok (r\<lparr>fa_want_refs := fa_want_refs r @ [str_trim n]\<rparr>) | None \<Rightarrow>
      if line = bstr ''done'' then Ok (r\<lparr>fa_done := True\<rparr>)
      else if line = bstr ''thin-pack'' then Ok (r\<lparr>fa_thin_pack := True\<rparr>)
      else if line = bstr ''no-progress'' then Ok (r\<lparr>fa_no_progress := True\<rparr>)
      else Ok r)"

fun fetch_args_loop :: "hash_algo \<Rightarrow> fetch_args \<Rightarrow> bytes list \<Rightarrow> fetch_args result" where
  "fetch_args_loop a r [] = Ok r"
| "fetch_args_loop a r (l # ls) = bind_res (fetch_arg a r l) (\<lambda>r. fetch_args_loop a r ls)"

definition fetch_args_parse :: "hash_algo \<Rightarrow> command \<Rightarrow> fetch_args result" where
  "fetch_args_parse a c = fetch_args_loop a fetch_args_default (cmd_args c)"

section \<open>The answer to a fetch\<close>

text \<open>\<open>slice.chunks(n)\<close>.\<close>

function chunks :: "nat \<Rightarrow> 'a list \<Rightarrow> 'a list list" where
  "chunks n xs = (if xs = [] \<or> n = 0 then [] else take n xs # chunks n (drop n xs))"
  by pat_completeness auto
termination
  by (relation "measure (\<lambda>(n, xs). length xs)") auto

declare chunks.simps [simp del]

definition pack_section :: "bytes \<Rightarrow> packet list" where
  "pack_section pack = text_line (bstr ''packfile'') # map (\<lambda>c. Data (1 # c)) (chunks SIDEBAND_MAX_PAYLOAD pack) @ [Flush]"

definition encode_fetch_response_with_shallow :: "object_id list \<Rightarrow> bytes \<Rightarrow> bytes result" where
  "encode_fetch_response_with_shallow shallow pack =
     encode_all
       ((if shallow \<noteq> [] then text_line (bstr ''shallow-info'') # map (oid_line (bstr ''shallow '')) shallow @ [Delim] else [])
        @ pack_section pack)"

definition encode_fetch_response :: "bytes \<Rightarrow> bytes result" where
  "encode_fetch_response pack = encode_fetch_response_with_shallow [] pack"

definition ack_section :: "object_id list option \<Rightarrow> packet list" where
  "ack_section acks =
     (case acks of
        None \<Rightarrow> []
      | Some common \<Rightarrow>
          text_line (bstr ''acknowledgments'')
          # (if common = [] then [text_line (bstr ''NAK'')] else map (oid_line (bstr ''ACK '')) common)
          @ [text_line (bstr ''ready''), Delim])"

definition shallow_section :: "object_id list \<Rightarrow> object_id list \<Rightarrow> packet list" where
  "shallow_section shallow unshallow =
     (if shallow \<noteq> [] \<or> unshallow \<noteq> [] then
        text_line (bstr ''shallow-info'') # map (oid_line (bstr ''shallow '')) shallow
        @ map (oid_line (bstr ''unshallow '')) unshallow @ [Delim]
      else [])"

definition wanted_section :: "(object_id \<times> bytes) list \<Rightarrow> packet list" where
  "wanted_section wanted =
     (if wanted \<noteq> [] then
        text_line (bstr ''wanted-refs'') # map (\<lambda>(i, name). text_line (to_hex i @ [32] @ name)) wanted @ [Delim]
      else [])"

definition uris_section :: "(bytes \<times> bytes) list \<Rightarrow> packet list" where
  "uris_section uris =
     (if uris \<noteq> [] then
        text_line (bstr ''packfile-uris'') # map (\<lambda>(h, u). text_line (h @ [32] @ u)) uris @ [Delim]
      else [])"

definition encode_fetch_sections :: "object_id list option \<Rightarrow> object_id list \<Rightarrow> object_id list \<Rightarrow> (object_id \<times> bytes) list
    \<Rightarrow> (bytes \<times> bytes) list \<Rightarrow> bytes \<Rightarrow> bytes result" where
  "encode_fetch_sections acks shallow unshallow wanted uris pack =
     encode_all (ack_section acks @ shallow_section shallow unshallow @ wanted_section wanted @ uris_section uris @ pack_section pack)"

record fetch_response =
  rsp_shallow :: "object_id list"
  rsp_unshallow :: "object_id list"
  rsp_uris :: "(bytes \<times> bytes) list"
  rsp_pack :: bytes

text \<open>A line before the pack: the response, whether the pack starts, whether it is in the URI section.\<close>

definition section_line :: "hash_algo \<Rightarrow> fetch_response \<Rightarrow> bool \<Rightarrow> bytes \<Rightarrow> (fetch_response \<times> bool \<times> bool) result" where
  "section_line a r in_uris line =
     (if line = bstr ''packfile'' then Ok (r, True, in_uris)
      else if line = bstr ''packfile-uris'' then Ok (r, False, True)
      else if in_uris then
        bind_res (from_utf8 line (Protocol ''v2 packfile-uris: non-utf8'')) (\<lambda>text.
          Ok (case split_once 32 text of
                Some (h, u) \<Rightarrow> r\<lparr>rsp_uris := rsp_uris r @ [(str_trim h, str_trim u)]\<rparr>
              | None \<Rightarrow> r, False, in_uris))
      else
        case strip_prefix (bstr ''shallow '') line of
          Some oid \<Rightarrow> bind_res (from_utf8 oid (Protocol ''v2 shallow: non-utf8'')) (\<lambda>text.
            bind_res (from_hex a (str_trim text)) (\<lambda>i. Ok (r\<lparr>rsp_shallow := rsp_shallow r @ [i]\<rparr>, False, in_uris))) | None \<Rightarrow>
        case strip_prefix (bstr ''unshallow '') line of
          Some oid \<Rightarrow> bind_res (from_utf8 oid (Protocol ''v2 unshallow: non-utf8'')) (\<lambda>text.
            bind_res (from_hex a (str_trim text)) (\<lambda>i. Ok (r\<lparr>rsp_unshallow := rsp_unshallow r @ [i]\<rparr>, False, in_uris))) | None \<Rightarrow>
        Ok (r, False, in_uris))"

definition band_line :: "fetch_response \<Rightarrow> bytes \<Rightarrow> fetch_response result" where
  "band_line r d =
     (case d of
        [] \<Rightarrow> Ok r
      | b # rest \<Rightarrow>
          if b = 1 then Ok (r\<lparr>rsp_pack := rsp_pack r @ rest\<rparr>)
          else if b = 3 then Err (Protocol ''v2 fetch error: {message}'')
          else Ok r)"

fun sections_loop :: "hash_algo \<Rightarrow> fetch_response \<Rightarrow> bool \<Rightarrow> bool \<Rightarrow> packet list \<Rightarrow> (fetch_response \<times> bool) result" where
  "sections_loop a r in_pack in_uris [] = Ok (r, in_pack)"
| "sections_loop a r in_pack in_uris (Delim # ps) = sections_loop a r in_pack False ps"
| "sections_loop a r in_pack in_uris (Data d # ps) =
     (if \<not> in_pack then
        bind_res (section_line a r in_uris (trim_newline d)) (\<lambda>(r, in_pack, in_uris). sections_loop a r in_pack in_uris ps)
      else bind_res (band_line r d) (\<lambda>r. sections_loop a r in_pack in_uris ps))"
| "sections_loop a r in_pack in_uris (p # ps) = sections_loop a r in_pack in_uris ps"

definition parse_fetch_response_sections :: "hash_algo \<Rightarrow> packet list \<Rightarrow> fetch_response result" where
  "parse_fetch_response_sections a ps =
     bind_res (sections_loop a \<lparr>rsp_shallow = [], rsp_unshallow = [], rsp_uris = [], rsp_pack = []\<rparr> False False ps) (\<lambda>(r, in_pack).
       if \<not> in_pack then Err (Protocol ''v2 fetch: response had no packfile section'') else Ok r)"

definition parse_fetch_response_uris :: "hash_algo \<Rightarrow> packet list \<Rightarrow> (object_id list \<times> (bytes \<times> bytes) list \<times> bytes) result" where
  "parse_fetch_response_uris a ps =
     bind_res (parse_fetch_response_sections a ps) (\<lambda>r. Ok (rsp_shallow r, rsp_uris r, rsp_pack r))"

definition parse_fetch_response_full :: "hash_algo \<Rightarrow> packet list \<Rightarrow> (object_id list \<times> bytes) result" where
  "parse_fetch_response_full a ps =
     bind_res (parse_fetch_response_uris a ps) (\<lambda>(shallow, uris, pack). Ok (shallow, pack))"

definition parse_fetch_response :: "packet list \<Rightarrow> bytes result" where
  "parse_fetch_response ps = bind_res (parse_fetch_response_full Sha1 ps) (\<lambda>x. Ok (snd x))"

section \<open>Lemmas\<close>

lemma trim_newline_eq: "trim_newline l = trim_trailing_newline l"
  by (cases l rule: rev_cases)
    (auto simp: trim_newline_def trim_trailing_newline_def ends_with_def)

lemma concat_chunks [simp]: "0 < n \<Longrightarrow> concat (chunks n xs) = xs"
proof (induction n xs rule: chunks.induct)
  case (1 n xs)
  then show ?case by (simp add: chunks.simps [of n xs])
qed

lemma chunks_short: "c \<in> set (chunks n xs) \<Longrightarrow> length c \<le> n"
proof (induction n xs rule: chunks.induct)
  case (1 n xs)
  then show ?case by (auto simp: chunks.simps [of n xs] split: if_splits)
qed

lemma v2_trim [simp]: "trim_newline (l @ [10]) = l"
  by (simp add: trim_newline_eq)

lemma encode_all_list: "(\<And>p. p \<in> set ps \<Longrightarrow> \<exists>b. encode p = Ok b) \<Longrightarrow> \<exists>b. encode_all ps = Ok b"
proof (induction ps)
  case (Cons p ps)
  then obtain b c where "encode p = Ok b" "encode_all ps = Ok c" by (metis list.set_intros)
  then show ?case by simp
qed simp

lemma encode_pack_section: "\<exists>b. encode_all (pack_section pack) = Ok b"
proof (rule encode_all_list)
  fix p assume p: "p \<in> set (pack_section pack)"
  show "\<exists>b. encode p = Ok b"
  proof (cases p)
    case (Data d)
    then have "length d \<le> SIDEBAND_MAX_PAYLOAD + 1"
      using p chunks_short [of _ SIDEBAND_MAX_PAYLOAD pack]
      by (auto simp: pack_section_def text_line_def SIDEBAND_MAX_PAYLOAD_def MAX_PKTLINE_LEN_def)
    then show ?thesis using Data by (simp add: encode_data_def Let_def SIDEBAND_MAX_PAYLOAD_def MAX_PKTLINE_LEN_def)
  qed simp_all
qed

subsection \<open>Commands\<close>

lemma command_loop_text:
  "utf8_valid l \<Longrightarrow> command_loop name caps args del (text_line l # ps) =
     (if del then command_loop name caps (args @ [l]) del ps
      else case strip_prefix (bstr ''command='') l of
             Some cmd \<Rightarrow> command_loop (Some cmd) caps args del ps
           | None \<Rightarrow> command_loop name (caps @ [l]) args del ps)"
  by (simp add: text_line_def lossy_valid)

lemma command_caps:
  "list_all (\<lambda>c. utf8_valid c \<and> \<not> starts_with (bstr ''command='') c) cs
   \<Longrightarrow> command_loop name caps args False (map text_line cs @ ps) = command_loop name (caps @ cs) args False ps"
  by (induction cs arbitrary: caps) (auto simp: command_loop_text starts_with_def simp del: bstr_simps)

lemma command_args:
  "list_all utf8_valid cs \<Longrightarrow> command_loop name caps args True (map text_line cs @ ps) = command_loop name caps (args @ cs) True ps"
  by (induction cs arbitrary: args) (auto simp: command_loop_text)

subsection \<open>Sections\<close>

lemma sections_text:
  "sections_loop a r False u (text_line l # ps) =
     bind_res (section_line a r u l) (\<lambda>(r, in_pack, in_uris). sections_loop a r in_pack in_uris ps)"
  by (simp add: text_line_def)

lemma sections_pack:
  "sections_loop a r True u (map (\<lambda>c. Data (1 # c)) cs @ ps) = sections_loop a (r\<lparr>rsp_pack := rsp_pack r @ concat cs\<rparr>) True u ps"
  by (induction cs arbitrary: r) (simp_all add: band_line_def)

lemma pack_section_read: "sections_loop a r False u (pack_section pack) = Ok (r\<lparr>rsp_pack := rsp_pack r @ pack\<rparr>, True)"
  by (simp add: pack_section_def sections_text section_line_def sections_pack SIDEBAND_MAX_PAYLOAD_def MAX_PKTLINE_LEN_def)

lemma hex_digit_le: "unat n < 16 \<Longrightarrow> hex_digit n \<le> 102"
  by (drule less16_cases) (auto simp: hex_digit_def)

lemma hex_lower_le: "c \<in> set (hex_lower bs) \<Longrightarrow> c \<le> 102"
  by (induction bs) (auto simp: hex_lower_Cons intro!: hex_digit_le nibble_bounds)

lemma hex_line: "wf_oid i \<Longrightarrow> \<exists>c l. to_hex i = c # l \<and> c \<noteq> 112 \<and> c \<noteq> 115 \<and> c \<noteq> 117"
proof -
  assume "wf_oid i"
  then obtain c l where "to_hex i = c # l" using to_hex_nonempty by (cases "to_hex i") auto
  moreover from this have "c \<le> 102" using hex_lower_le [of c "as_bytes i"] by (simp add: to_hex_def)
  ultimately show ?thesis by auto
qed

lemma shallow_lines:
  "ids_of a ids \<Longrightarrow> sections_loop a r False False (map (oid_line (bstr ''shallow '')) ids @ ps) =
     sections_loop a (r\<lparr>rsp_shallow := rsp_shallow r @ ids\<rparr>) False False ps"
  "ids_of a ids \<Longrightarrow> sections_loop a r False False (map (oid_line (bstr ''unshallow '')) ids @ ps) =
     sections_loop a (r\<lparr>rsp_unshallow := rsp_unshallow r @ ids\<rparr>) False False ps"
  by (induction ids arbitrary: r) (simp_all add: oid_line_def sections_text section_line_def from_utf8_def codec)

lemma ack_section_read: "sections_loop a r False False (ack_section acks @ ps) = sections_loop a r False False ps"
proof (cases acks)
  case (Some ids)
  have "sections_loop a r False False (map (oid_line (bstr ''ACK '')) ids @ qs) = sections_loop a r False False qs" for qs
    by (induction ids) (simp_all add: oid_line_def sections_text section_line_def)
  with Some show ?thesis by (simp add: ack_section_def sections_text section_line_def)
qed (simp add: ack_section_def)

lemma shallow_section_read:
  "ids_of a shallow \<Longrightarrow> ids_of a unshallow \<Longrightarrow> sections_loop a r False False (shallow_section shallow unshallow @ ps) =
     sections_loop a (r\<lparr>rsp_shallow := rsp_shallow r @ shallow, rsp_unshallow := rsp_unshallow r @ unshallow\<rparr>) False False ps"
  by (auto simp: shallow_section_def sections_text section_line_def shallow_lines [simplified])

lemma wanted_section_read:
  "list_all (wf_oid \<circ> fst) wanted \<Longrightarrow> sections_loop a r False False (wanted_section wanted @ ps) = sections_loop a r False False ps"
proof -
  assume wf: "list_all (wf_oid \<circ> fst) wanted"
  have "section_line a r False (to_hex i @ 32 # name) = Ok (r, False, False)" if "wf_oid i" for i name
    using hex_line [OF that] by (auto simp: section_line_def)
  with wf have "sections_loop a r False False (map (\<lambda>(i, name). text_line (to_hex i @ 32 # name)) wanted @ qs) = sections_loop a r False False qs" for qs
    by (induction wanted) (auto simp: sections_text)
  then show ?thesis by (simp add: wanted_section_def sections_text section_line_def)
qed

lemma uri_lines:
  "list_all (\<lambda>(h, u). utf8_valid h \<and> utf8_valid u \<and> str_trim h = h \<and> str_trim u = u \<and> 32 \<notin> set h) uris
   \<Longrightarrow> sections_loop a r False True (map (\<lambda>(h, u). text_line (h @ 32 # u)) uris @ ps) =
     sections_loop a (r\<lparr>rsp_uris := rsp_uris r @ uris\<rparr>) False True ps"
proof (induction uris arbitrary: r)
  case (Cons x uris)
  obtain h u where x: "x = (h, u)" by (cases x)
  with Cons.prems have wf: "utf8_valid h" "utf8_valid u" "str_trim h = h" "str_trim u = u" "32 \<notin> set h" by simp_all
  have "32 \<notin> set (bstr ''packfile'')" "32 \<notin> set (bstr ''packfile-uris'')" "32 \<in> set (h @ 32 # u)" by simp_all
  then have "h @ 32 # u \<noteq> bstr ''packfile''" "h @ 32 # u \<noteq> bstr ''packfile-uris''" by metis+
  then have "section_line a r True (h @ 32 # u) = Ok (r\<lparr>rsp_uris := rsp_uris r @ [(h, u)]\<rparr>, False, True)"
    using wf by (simp add: section_line_def from_utf8_def utf8_valid_append split_once_append del: bstr_simps)
  with x Cons show ?case by (simp add: sections_text)
qed simp

lemma uris_section_read:
  "list_all (\<lambda>(h, u). utf8_valid h \<and> utf8_valid u \<and> str_trim h = h \<and> str_trim u = u \<and> 32 \<notin> set h) uris
   \<Longrightarrow> sections_loop a r False False (uris_section uris @ ps) = sections_loop a (r\<lparr>rsp_uris := rsp_uris r @ uris\<rparr>) False False ps"
  by (auto simp: uris_section_def sections_text section_line_def uri_lines)

subsection \<open>References\<close>

lemma ls_refs_lines:
  assumes "list_all (\<lambda>(name, i, symref, peeled). wf_oid i \<and> oid_algo i = a \<and> utf8_valid name \<and> 32 \<notin> set name
      \<and> (case symref of Some t \<Rightarrow> utf8_valid t | None \<Rightarrow> True)) refs"
  shows "ls_refs_loop a acc (map (ls_ref_line c) refs @ ps) =
    ls_refs_loop a (acc @ map (\<lambda>(name, i, _). \<lparr>ar_name = name, ar_id = i\<rparr>) refs) ps"
  using assms
proof (induction refs arbitrary: acc)
  case (Cons x refs)
  obtain name i symref peeled where x: "x = (name, i, symref, peeled)" by (cases x)
  with Cons.prems have wf: "wf_oid i" "oid_algo i = a" "utf8_valid name" "32 \<notin> set name"
    "case symref of Some t \<Rightarrow> utf8_valid t | None \<Rightarrow> True" by simp_all
  have hex: "32 \<notin> set (to_hex i)" using to_hex_chars by blast
  obtain l rest where l: "ls_ref_line c x = text_line l" "utf8_valid l" "split_on 32 l = to_hex i # name # rest"
  proof -
    define t where "t = (case symref of Some t \<Rightarrow> if has_arg c (bstr ''symrefs'') then bstr '' symref-target:'' @ t else [] | None \<Rightarrow> [])
        @ (case peeled of Some p \<Rightarrow> if has_arg c (bstr ''peel'') then bstr '' peeled:'' @ to_hex p else [] | None \<Rightarrow> [])"
    have u: "utf8_valid t" using wf(5) by (auto simp: t_def utf8_valid_append split: option.splits)
    have "t = [] \<or> (\<exists>t'. t = 32 # t')" by (auto simp: t_def split: option.splits)
    then have "\<exists>rest. split_on 32 (name @ t) = name # rest"
      using wf(4) by (auto simp: split_on_plain split_on_append)
    then obtain rest where "split_on 32 (to_hex i @ 32 # name @ t) = to_hex i # name # rest"
      using hex by (auto simp: split_on_append)
    moreover have "utf8_valid (to_hex i @ 32 # name @ t)" using wf(3) u by (simp add: utf8_valid_append)
    moreover have "ls_ref_line c x = text_line (to_hex i @ 32 # name @ t)" by (simp add: ls_ref_line_def x t_def)
    ultimately show thesis using that by blast
  qed
  have "ls_refs_loop a acc (map (ls_ref_line c) (x # refs) @ ps) = ls_refs_loop a (acc @ [\<lparr>ar_name = name, ar_id = i\<rparr>]) (map (ls_ref_line c) refs @ ps)"
    using wf by (simp add: l(1) text_line_def from_utf8_def l(2,3) codec)
  also have "\<dots> = ls_refs_loop a ((acc @ [\<lparr>ar_name = name, ar_id = i\<rparr>]) @ map (\<lambda>(name, i, _). \<lparr>ar_name = name, ar_id = i\<rparr>) refs) ps"
    by (rule Cons.IH) (use Cons.prems in simp)
  finally show ?case by (simp add: x)
qed simp

section \<open>Properties\<close>

text \<open>
  A version 2 server reads the command the client encoded: the name, the capabilities and the
  arguments, in order, when no capability looks like a command; the text may be any UTF-8.
\<close>

theorem v2_command_roundtrip:
  assumes "encode_command name caps args = Ok data" and "list_all utf8_valid (name # caps @ args)"
    and "list_all (\<lambda>c. \<not> starts_with (bstr ''command='') c) caps"
  shows "\<exists>ps. decode_all data = Ok ps \<and> v2_command_parse ps = Ok \<lparr>cmd_name = name, cmd_capabilities = caps, cmd_args = args\<rparr>"
proof -
  have "list_all (\<lambda>c. utf8_valid c \<and> \<not> starts_with (bstr ''command='') c) caps" using assms(2,3) by (auto simp: list_all_iff)
  note read = command_caps [OF this] command_args
  have "utf8_valid (bstr ''command='' @ name)" using assms(2) by simp
  then show ?thesis
    using assms(2) by (intro decoded [OF assms(1) [unfolded encode_command_def]])
      (simp add: v2_command_parse_def command_loop_text read del: bstr_simps)
qed

theorem v2_command_roundtrip_witness:
  "\<exists>data ps. encode_command (bstr ''ls-refs'') [bstr ''object-format=sha1''] [bstr ''peel''] = Ok data \<and> decode_all data = Ok ps
    \<and> v2_command_parse ps = Ok \<lparr>cmd_name = bstr ''ls-refs'', cmd_capabilities = [bstr ''object-format=sha1''], cmd_args = [bstr ''peel'']\<rparr>"
proof -
  have "short_packets (text_line (bstr ''command='' @ bstr ''ls-refs'') # map text_line [bstr ''object-format=sha1''] @ [Delim]
      @ map text_line [bstr ''peel''] @ [Flush])" by code_simp
  from encode_short [OF this] obtain data where d: "encode_command (bstr ''ls-refs'') [bstr ''object-format=sha1''] [bstr ''peel''] = Ok data"
    unfolding encode_command_def by blast
  with v2_command_roundtrip [OF d] show ?thesis by (simp add: starts_with_def)
qed

text \<open>
  The client gets from an \<open>ls-refs\<close> answer exactly the references whose names have one of the
  requested prefixes (all without a prefix), in order, each with its id, whether or not symbolic
  targets and peeled tags were asked for.
\<close>

theorem ls_refs_roundtrip:
  assumes "encode_ls_refs_response c refs = Ok data"
    and "list_all (\<lambda>(name, i, symref, peeled). wf_oid i \<and> oid_algo i = a \<and> utf8_valid name \<and> 32 \<notin> set name
      \<and> (case symref of Some t \<Rightarrow> utf8_valid t | None \<Rightarrow> True)) refs"
  shows "\<exists>ps. decode_all data = Ok ps \<and> parse_ls_refs_response a ps =
    Ok (map (\<lambda>(name, i, _). \<lparr>ar_name = name, ar_id = i\<rparr>)
      (filter (\<lambda>r. ref_prefixes c = [] \<or> (\<exists>p\<in>set (ref_prefixes c). \<exists>x. fst r = p @ x)) refs))"
proof -
  have s: "ls_ref_shown c = (\<lambda>r. ref_prefixes c = [] \<or> (\<exists>p\<in>set (ref_prefixes c). \<exists>x. fst r = p @ x))"
    by (auto simp: fun_eq_iff ls_ref_shown_def list_ex_iff starts_with_iff)
  have "list_all (\<lambda>(name, i, symref, peeled). wf_oid i \<and> oid_algo i = a \<and> utf8_valid name \<and> 32 \<notin> set name
      \<and> (case symref of Some t \<Rightarrow> utf8_valid t | None \<Rightarrow> True)) (filter (ls_ref_shown c) refs)"
    using assms(2) by (auto simp: list_all_iff)
  from ls_refs_lines [OF this, of "[]" c "[Flush]"] show ?thesis
    using assms(1) unfolding encode_ls_refs_response_def s [symmetric]
    by (elim decoded) (simp add: parse_ls_refs_response_def)
qed

definition sample_ls_refs :: "ls_ref list" where
  "sample_ls_refs = [(bstr ''HEAD'', ObjectId Sha1 (replicate 20 1), Some (bstr ''refs/heads/main''), None),
     (bstr ''refs/heads/main'', ObjectId Sha1 (replicate 20 1), None, None)]"

theorem ls_refs_roundtrip_witness:
  "\<exists>data ps. encode_ls_refs_response \<lparr>cmd_name = bstr ''ls-refs'', cmd_capabilities = [], cmd_args = [bstr ''ref-prefix refs/'', bstr ''symrefs'']\<rparr> sample_ls_refs = Ok data
    \<and> decode_all data = Ok ps \<and> parse_ls_refs_response Sha1 ps = Ok [\<lparr>ar_name = bstr ''refs/heads/main'', ar_id = ObjectId Sha1 (replicate 20 1)\<rparr>]"
proof -
  let ?c = "\<lparr>cmd_name = bstr ''ls-refs'', cmd_capabilities = [], cmd_args = [bstr ''ref-prefix refs/'', bstr ''symrefs'']\<rparr>"
  have "short_packets (map (ls_ref_line ?c) (filter (ls_ref_shown ?c) sample_ls_refs) @ [Flush])" by code_simp
  from encode_short [OF this] obtain data where d: "encode_ls_refs_response ?c sample_ls_refs = Ok data"
    unfolding encode_ls_refs_response_def by blast
  have p: "ref_prefixes ?c = [bstr ''refs/'']" by code_simp
  have "filter (\<lambda>r. ref_prefixes ?c = [] \<or> (\<exists>p\<in>set (ref_prefixes ?c). \<exists>x. fst r = p @ x)) sample_ls_refs =
      [(bstr ''refs/heads/main'', ObjectId Sha1 (replicate 20 1), None, None)]"
    unfolding p by (simp add: sample_ls_refs_def)
  with ls_refs_roundtrip [OF d, of Sha1] d show ?thesis by (simp add: sample_ls_refs_def wf_oid_def)
qed

text \<open>
  C38. A version 2 client reads the answer to a fetch as the server composed it, with any of the
  acknowledgments, boundary, wanted-refs and packfile-uris sections: the commits that are or are no
  longer at the boundary, the URIs and the bytes of the pack, whatever its size. An answer with the
  pack alone can always be sent. URIs and their hashes are UTF-8 without white space at the ends,
  and a hash has no blank in it.
\<close>

theorem fetch_response_roundtrip:
  assumes "ids_of a shallow" and "ids_of a unshallow" and "list_all (wf_oid \<circ> fst) wanted"
    and "list_all (\<lambda>(h, u). utf8_valid h \<and> utf8_valid u \<and> str_trim h = h \<and> str_trim u = u \<and> 32 \<notin> set h) uris"
  shows "(\<forall>data. encode_fetch_sections acks shallow unshallow wanted uris pack = Ok data \<longrightarrow>
      (\<exists>ps. decode_all data = Ok ps \<and> parse_fetch_response_sections a ps =
        Ok \<lparr>rsp_shallow = shallow, rsp_unshallow = unshallow, rsp_uris = uris, rsp_pack = pack\<rparr>))
    \<and> (\<exists>data ps. encode_fetch_response pack = Ok data \<and> decode_all data = Ok ps \<and> parse_fetch_response ps = Ok pack)"
proof (intro conjI allI impI)
  fix data
  assume "encode_fetch_sections acks shallow unshallow wanted uris pack = Ok data"
  then show "\<exists>ps. decode_all data = Ok ps \<and> parse_fetch_response_sections a ps =
      Ok \<lparr>rsp_shallow = shallow, rsp_unshallow = unshallow, rsp_uris = uris, rsp_pack = pack\<rparr>"
    unfolding encode_fetch_sections_def
    by (elim decoded) (simp add: parse_fetch_response_sections_def ack_section_read shallow_section_read [OF assms(1,2)]
      wanted_section_read [OF assms(3)] uris_section_read [OF assms(4)] pack_section_read)
next
  obtain data where d: "encode_all (pack_section pack) = Ok data" using encode_pack_section by blast
  have "\<exists>ps. decode_all data = Ok ps \<and> parse_fetch_response ps = Ok pack"
    by (rule decoded [OF d]) (simp add: parse_fetch_response_def parse_fetch_response_full_def parse_fetch_response_uris_def
      parse_fetch_response_sections_def pack_section_read)
  with d show "\<exists>data ps. encode_fetch_response pack = Ok data \<and> decode_all data = Ok ps \<and> parse_fetch_response ps = Ok pack"
    by (simp add: encode_fetch_response_def encode_fetch_response_with_shallow_def)
qed

theorem fetch_response_roundtrip_witness:
  "\<exists>data ps. encode_fetch_sections None [ObjectId Sha1 (replicate 20 1)] [] [] [(bstr ''aa'', bstr ''https://x'')] [1, 2, 3] = Ok data
    \<and> decode_all data = Ok ps \<and> parse_fetch_response_sections Sha1 ps =
      Ok \<lparr>rsp_shallow = [ObjectId Sha1 (replicate 20 1)], rsp_unshallow = [], rsp_uris = [(bstr ''aa'', bstr ''https://x'')], rsp_pack = [1, 2, 3]\<rparr>"
proof -
  have p: "pack_section [1, 2, 3] = [text_line (bstr ''packfile''), Data [1, 1, 2, 3], Flush]"
    by (simp add: pack_section_def chunks.simps [of _ "[1, 2, 3]"] chunks.simps [of _ "[]"] SIDEBAND_MAX_PAYLOAD_def MAX_PKTLINE_LEN_def)
  have "short_packets (ack_section None @ shallow_section [ObjectId Sha1 (replicate 20 1)] [] @ wanted_section []
      @ uris_section [(bstr ''aa'', bstr ''https://x'')] @ [text_line (bstr ''packfile''), Data [1, 1, 2, 3], Flush])" by code_simp
  from encode_short [OF this [folded p]] obtain data
    where d: "encode_fetch_sections None [ObjectId Sha1 (replicate 20 1)] [] [] [(bstr ''aa'', bstr ''https://x'')] [1, 2, 3] = Ok data"
    unfolding encode_fetch_sections_def by blast
  have "utf8_valid (bstr ''aa'') \<and> utf8_valid (bstr ''https://x'') \<and> str_trim (bstr ''aa'') = bstr ''aa'' \<and> str_trim (bstr ''https://x'') = bstr ''https://x''"
    by code_simp
  then show ?thesis
    using fetch_response_roundtrip [of Sha1 "[ObjectId Sha1 (replicate 20 1)]" "[]" "[]" "[(bstr ''aa'', bstr ''https://x'')]" None "[1, 2, 3]"] d
    by (auto simp: wf_oid_def simp del: bstr_simps) (auto simp: wf_oid_def)
qed

end
