(* ===== verification/Object_Filter.thy ===== *)
theory Object_Filter
  imports Protocol
begin

text \<open>
  The filters of a partial clone: src/src/object_filter.rs. A limit is a \<open>64 word\<close> (\<open>u64\<close>), and
  the product of a number and its unit wraps, as it does in a release build.
\<close>

datatype object_filter = BlobNone | BlobLimit "64 word" | TreeNone | NoFilter

definition parse_size :: "bytes \<Rightarrow> 64 word option" where
  "parse_size text =
     (let text = str_trim text;
          c = (if text = [] then 0 else last text);
          (digits, mult) =
            (if c = 107 \<or> c = 75 then (butlast text, 1024)
             else if c = 109 \<or> c = 77 then (butlast text, 1024 * 1024)
             else if c = 103 \<or> c = 71 then (butlast text, 1024 * 1024 * 1024)
             else (text, 1))
      in map_option (\<lambda>n. of_nat n * mult) (parse_unsigned 64 digits))"

definition filter_parse :: "bytes \<Rightarrow> object_filter" where
  "filter_parse spec =
     (let spec = str_trim spec
      in if spec = bstr ''blob:none'' then BlobNone
         else if spec = bstr ''tree:0'' then TreeNone
         else case strip_prefix (bstr ''blob:limit='') spec of
                Some limit \<Rightarrow> (case parse_size limit of Some n \<Rightarrow> BlobLimit n | None \<Rightarrow> NoFilter)
              | None \<Rightarrow> NoFilter)"

fun keeps_blob :: "object_filter \<Rightarrow> nat \<Rightarrow> bool" where
  "keeps_blob BlobNone n = False"
| "keeps_blob TreeNone n = False"
| "keeps_blob (BlobLimit limit) n = ((of_nat n :: 64 word) < limit)"
| "keeps_blob NoFilter n = True"

fun keeps :: "object_filter \<Rightarrow> object_type \<Rightarrow> nat \<Rightarrow> bool" where
  "keeps f Blob n = keeps_blob f n"
| "keeps f Tree n = (f \<noteq> TreeNone)"
| "keeps f Commit n = True"
| "keeps f Tag n = True"

definition is_active :: "object_filter \<Rightarrow> bool" where
  "is_active f \<longleftrightarrow> f \<noteq> NoFilter"

definition from_spec :: "bytes option \<Rightarrow> object_filter" where
  "from_spec spec = (case spec of Some s \<Rightarrow> filter_parse s | None \<Rightarrow> NoFilter)"

fun to_spec :: "object_filter \<Rightarrow> bytes option" where
  "to_spec BlobNone = Some (bstr ''blob:none'')"
| "to_spec (BlobLimit n) = Some (bstr ''blob:limit='' @ dec_of_nat (unat n))"
| "to_spec TreeNone = Some (bstr ''tree:0'')"
| "to_spec NoFilter = None"

section \<open>Lemmas\<close>

lemma parse_size_dec: "parse_size (dec_of_nat (unat n)) = Some n"
proof -
  have l: "is_digit (last (dec_of_nat (unat n)))" using dec_of_nat_digits [of "last (dec_of_nat (unat n))" "unat n"] by simp
  then have "last (dec_of_nat (unat n)) \<notin> {107, 75, 109, 77, 103, 71}" by (auto simp: is_digit_def)
  moreover have "parse_unsigned 64 (dec_of_nat (unat n)) = Some (unat n)" using unsigned_less [of n] by (intro parse_unsigned_dec) simp
  ultimately show ?thesis by (simp add: parse_size_def dec_plain Let_def)
qed

lemma filter_spec_trim: "str_trim (bstr ''blob:limit='' @ dec_of_nat n) = bstr ''blob:limit='' @ dec_of_nat n"
  using dec_graphic(1) [of "last (dec_of_nat n)" n] by (intro str_trim_graphic) (auto simp: graphic_def)

section \<open>Properties\<close>

text \<open>
  A filter does what its specification says: the specification of every filter parses back to
  it (any limit of 64 bits); commits and tags are always sent, trees unless the filter is
  \<open>tree:0\<close>, a blob only below the limit; and a filter is active exactly when it holds back some
  object that can exist.
\<close>

theorem object_filter_correct:
  "from_spec (to_spec f) = f
   \<and> (\<forall>ty n. keeps f ty n \<longleftrightarrow> (case ty of Blob \<Rightarrow> keeps_blob f n | Tree \<Rightarrow> f \<noteq> TreeNone | _ \<Rightarrow> True))
   \<and> (\<forall>limit n. n < 2 ^ 64 \<longrightarrow> keeps_blob (BlobLimit limit) n = (n < unat limit))
   \<and> (is_active f \<longleftrightarrow> (\<exists>ty n. n < 2 ^ 64 \<and> \<not> keeps f ty n))"
proof (intro conjI allI impI)
  show "from_spec (to_spec f) = f"
  proof (cases f)
    case (BlobLimit n)
    then show ?thesis
      using filter_spec_trim [of "unat n"] by (simp add: from_spec_def filter_parse_def parse_size_dec)
  next
    case BlobNone
    have "filter_parse (bstr ''blob:none'') = BlobNone" by code_simp
    then show ?thesis using BlobNone by (simp add: from_spec_def del: bstr_simps)
  next
    case TreeNone
    have "filter_parse (bstr ''tree:0'') = TreeNone" by code_simp
    then show ?thesis using TreeNone by (simp add: from_spec_def del: bstr_simps)
  qed (simp add: from_spec_def)
  show "keeps f ty n \<longleftrightarrow> (case ty of Blob \<Rightarrow> keeps_blob f n | Tree \<Rightarrow> f \<noteq> TreeNone | _ \<Rightarrow> True)" for ty n
    by (cases ty) simp_all
  show "keeps_blob (BlobLimit limit) n = (n < unat limit)" if "n < 2 ^ 64" for limit n
    using that by (simp add: word_less_nat_alt unat_of_nat)
  have blob: "\<exists>n. n < 2 ^ 64 \<and> \<not> keeps_blob f n" if "is_active f"
  proof (cases f)
    case (BlobLimit n)
    have "unat n < 2 ^ 64" using unsigned_less [of n] by simp
    then show ?thesis using BlobLimit by (intro exI [of _ "unat n"]) simp
  qed (use that in \<open>auto simp: is_active_def intro: exI [of _ 0]\<close>)
  show "is_active f \<longleftrightarrow> (\<exists>ty n. n < 2 ^ 64 \<and> \<not> keeps f ty n)"
  proof
    assume "is_active f"
    with blob show "\<exists>ty n. n < 2 ^ 64 \<and> \<not> keeps f ty n" by (meson keeps.simps(1))
  next
    assume "\<exists>ty n. n < 2 ^ 64 \<and> \<not> keeps f ty n"
    then obtain ty n where "\<not> keeps f ty n" by blast
    then show "is_active f" by (cases ty) (auto simp: is_active_def)
  qed
qed

theorem object_filter_correct_witness:
  "from_spec (to_spec (BlobLimit 2048)) = BlobLimit 2048 \<and> keeps_blob (BlobLimit 100) 99 = (99 < unat (100 :: 64 word))"
proof -
  have "(99 :: nat) < 2 ^ 64" by simp
  with object_filter_correct [of "BlobLimit 2048"] show ?thesis by blast
qed

text \<open>The product overflows: this limit of sixteen exbibytes keeps no blob at all.\<close>

lemma blob_limit_wraps: "filter_parse (bstr ''blob:limit=17179869184g'') = BlobLimit 0 \<and> \<not> keeps_blob (BlobLimit 0) n"
proof
  have "str_trim (bstr ''blob:limit=17179869184g'') = bstr ''blob:limit=17179869184g''"
    "str_trim (bstr ''17179869184g'') = bstr ''17179869184g''"
    by (rule str_trim_all_graphic, auto simp: graphic_def)+
  moreover have "parse_unsigned 64 (bstr ''17179869184'') = Some 17179869184"
    by (simp add: parse_unsigned_def is_digit_def)
  moreover have "of_nat 17179869184 * (1024 * 1024 * 1024) = (0 :: 64 word)" by simp
  ultimately show "filter_parse (bstr ''blob:limit=17179869184g'') = BlobLimit 0"
    by (simp add: filter_parse_def parse_size_def)
qed simp

end
