(* ===== verification/Remotes.thy ===== *)
theory Remotes
  imports Config_File
begin

text \<open>
  Remotes and refspecs: src/src/remote.rs. A refspec maps the names of references on one side of a
  transfer to the other; a remote is read from the configuration.
\<close>

record refspec =
  rf_force :: bool
  rf_src :: bytes
  rf_dst :: bytes

definition refspec_parse :: "bytes \<Rightarrow> refspec result" where
  "refspec_parse s =
     (let (force, rest) = (case strip_prefix [43] s of Some r \<Rightarrow> (True, r) | None \<Rightarrow> (False, s));
          (src, dst) = (case split_once 58 rest of Some (a, b) \<Rightarrow> (a, b) | None \<Rightarrow> (rest, []))
      in if count_list src 42 > 1 \<or> count_list dst 42 > 1 then
           Err (Config ''refspec {s}: at most one '*' per side'')
         else if dst \<noteq> [] \<and> (42 \<in> set src) \<noteq> (42 \<in> set dst) then
           Err (Config ''refspec {s}: '*' must appear on both sides or neither'')
         else Ok \<lparr>rf_force = force, rf_src = src, rf_dst = dst\<rparr>)"

definition strip_star :: "bytes \<Rightarrow> bytes option" where
  "strip_star s = (if ends_with [42] s then Some (butlast s) else None)"

definition dst_for :: "refspec \<Rightarrow> bytes \<Rightarrow> bytes option" where
  "dst_for r name =
     (case strip_star (rf_src r) of
        Some prefix \<Rightarrow>
          (case strip_prefix prefix name of
             None \<Rightarrow> None
           | Some tail \<Rightarrow> (case strip_star (rf_dst r) of None \<Rightarrow> None | Some dprefix \<Rightarrow> Some (dprefix @ tail)))
      | None \<Rightarrow>
          if rf_src r = name then Some (if rf_dst r = [] then name else rf_dst r) else None)"

definition to_string_form :: "refspec \<Rightarrow> bytes" where
  "to_string_form r =
     (let plus = (if rf_force r then [43] else [])
      in if rf_dst r = [] then plus @ rf_src r else plus @ rf_src r @ [58] @ rf_dst r)"

record remote =
  rm_name :: bytes
  rm_url :: bytes
  rm_fetch :: "refspec list"

definition remote_from_config :: "config \<Rightarrow> bytes \<Rightarrow> remote option" where
  "remote_from_config cfg name =
     (case config_get cfg (bstr ''remote'') (Some name) (bstr ''url'') of
        None \<Rightarrow> None
      | Some url \<Rightarrow>
          let specs = map refspec_parse (config_get_all cfg (bstr ''remote'') (Some name) (bstr ''fetch''))
          in Some \<lparr>rm_name = name, rm_url = url, rm_fetch = map unwrap (filter is_ok specs)\<rparr>)"

definition default_fetch :: "bytes \<Rightarrow> refspec" where
  "default_fetch name =
     \<lparr>rf_force = True, rf_src = bstr ''refs/heads/*'', rf_dst = bstr ''refs/remotes/'' @ name @ bstr ''/*''\<rparr>"

fun find_dst :: "refspec list \<Rightarrow> bytes \<Rightarrow> bytes option" where
  "find_dst [] name = None"
| "find_dst (r # rs) name = (case dst_for r name of Some d \<Rightarrow> Some d | None \<Rightarrow> find_dst rs name)"

definition map_fetch :: "remote \<Rightarrow> bytes \<Rightarrow> bytes option" where
  "map_fetch rm name = find_dst (rm_fetch rm) name"

definition branch_tracking :: "config \<Rightarrow> bytes \<Rightarrow> (bytes \<times> bytes) option" where
  "branch_tracking cfg branch =
     (case config_get cfg (bstr ''branch'') (Some branch) (bstr ''remote'') of
        None \<Rightarrow> None
      | Some remote \<Rightarrow>
          map_option (\<lambda>merge. (remote, merge)) (config_get cfg (bstr ''branch'') (Some branch) (bstr ''merge'')))"

section \<open>Lemmas\<close>

lemma refspec_parsed:
  assumes "refspec_parse s = Ok r"
  shows "58 \<notin> set (rf_src r) \<and> (\<not> rf_force r \<longrightarrow> \<not> starts_with [43] (rf_src r)) \<and> count_list (rf_src r) 42 \<le> 1
    \<and> count_list (rf_dst r) 42 \<le> 1 \<and> (rf_dst r \<noteq> [] \<longrightarrow> (42 \<in> set (rf_src r)) = (42 \<in> set (rf_dst r)))"
proof -
  obtain force rest where f: "(case strip_prefix [43] s of Some r \<Rightarrow> (True, r) | None \<Rightarrow> (False, s)) = (force, rest)" by fastforce
  obtain src dst where d: "(case split_once 58 rest of Some (a, b) \<Rightarrow> (a, b) | None \<Rightarrow> (rest, [])) = (src, dst)" by fastforce
  have r: "r = \<lparr>rf_force = force, rf_src = src, rf_dst = dst\<rparr>" "count_list src 42 \<le> 1" "count_list dst 42 \<le> 1"
      "dst \<noteq> [] \<longrightarrow> (42 \<in> set src) = (42 \<in> set dst)"
    using assms unfolding refspec_parse_def Let_def f d prod.case by (auto split: if_splits)
  have src: "58 \<notin> set src" "\<exists>x. rest = src @ x"
    using d split_once_SomeD [of 58 rest] by (auto split: option.splits simp: split_once_None)
  have "\<not> starts_with [43] src" if "\<not> force"
    using that f src(2) by (auto simp: starts_with_iff split: option.splits)
  with r src show ?thesis by auto
qed

lemma refspec_print:
  assumes "58 \<notin> set (rf_src r)" and "rf_force r \<or> \<not> starts_with [43] (rf_src r)" and "count_list (rf_src r) 42 \<le> 1"
    and "count_list (rf_dst r) 42 \<le> 1" and "rf_dst r \<noteq> [] \<longrightarrow> (42 \<in> set (rf_src r)) = (42 \<in> set (rf_dst r))"
  shows "refspec_parse (to_string_form r) = Ok r"
proof -
  define t where "t = (if rf_dst r = [] then rf_src r else rf_src r @ [58] @ rf_dst r)"
  have s: "to_string_form r = (if rf_force r then 43 # t else t)" by (simp add: to_string_form_def t_def Let_def)
  have plain: "\<not> starts_with [43] t" if "\<not> rf_force r"
    using that assms(2) by (cases "rf_src r") (auto simp: t_def starts_with_def)
  have "(case strip_prefix [43] (to_string_form r) of Some r \<Rightarrow> (True, r) | None \<Rightarrow> (False, to_string_form r)) = (rf_force r, t)"
    using plain by (auto simp: s starts_with_def split: option.splits)
  moreover have "(case split_once 58 t of Some (a, b) \<Rightarrow> (a, b) | None \<Rightarrow> (t, [])) = (rf_src r, rf_dst r)"
    using assms(1) by (auto simp: t_def split_once_append split_once_None [THEN iffD2])
  ultimately show ?thesis
    unfolding refspec_parse_def Let_def by (cases r) (use assms in auto)
qed

lemma dst_for_inj:
  assumes "dst_for r n1 = Some d" and "dst_for r n2 = Some d"
  shows "n1 = n2"
proof (cases "strip_star (rf_src r)")
  case None
  then show ?thesis using assms by (simp add: dst_for_def split: if_splits)
next
  case (Some p)
  then obtain t1 t2 q where "n1 = p @ t1" "n2 = p @ t2" "d = q @ t1" "d = q @ t2"
    using assms by (auto simp: dst_for_def strip_prefix_eq_Some split: option.splits)
  then show ?thesis by simp
qed

lemma config_all_set:
  "config_get_all (config_set cfg s ss n v) s' ss' n' = (if key_new s' ss' n' = key_new s ss n then [v] else config_get_all cfg s' ss' n')"
  by (auto simp: config_get_all_def config_set_def Let_def filter_empty_conv intro!: arg_cong [where f = "map snd"] filter_cong)

lemma config_get_last:
  "config_get c s ss n = (if config_get_all c s ss n = [] then None else Some (last (config_get_all c s ss n)))"
proof (induction c rule: rev_induct)
  case (snoc x xs)
  then show ?case by (cases x) (auto simp: config_get_def config_get_all_def)
qed (simp add: config_get_def config_get_all_def)

section \<open>Properties\<close>

text \<open>
  A refspec that parses is printed in a form that parses to it again, has at most one star on
  each side and on both or none when there is a destination, and never maps two different
  references to the same destination.
\<close>

theorem refspec_correct:
  assumes "refspec_parse s = Ok r"
  shows "refspec_parse (to_string_form r) = Ok r
    \<and> count_list (rf_src r) 42 \<le> 1 \<and> count_list (rf_dst r) 42 \<le> 1 \<and> (rf_dst r = [] \<or> (42 \<in> set (rf_src r)) = (42 \<in> set (rf_dst r)))
    \<and> inj_on (dst_for r) {n. dst_for r n \<noteq> None}"
proof (intro conjI)
  have p: "58 \<notin> set (rf_src r)" "rf_force r \<or> \<not> starts_with [43] (rf_src r)" "count_list (rf_src r) 42 \<le> 1"
      "count_list (rf_dst r) 42 \<le> 1" "rf_dst r \<noteq> [] \<longrightarrow> (42 \<in> set (rf_src r)) = (42 \<in> set (rf_dst r))"
    using refspec_parsed [OF assms] by blast+
  then show "refspec_parse (to_string_form r) = Ok r" "count_list (rf_src r) 42 \<le> 1" "count_list (rf_dst r) 42 \<le> 1"
      "rf_dst r = [] \<or> (42 \<in> set (rf_src r)) = (42 \<in> set (rf_dst r))"
    by (auto intro: refspec_print)
  show "inj_on (dst_for r) {n. dst_for r n \<noteq> None}" by (auto intro!: inj_onI dst_for_inj)
qed

theorem refspec_correct_witness:
  "refspec_parse (to_string_form \<lparr>rf_force = True, rf_src = bstr ''refs/heads/*'', rf_dst = bstr ''refs/x/*''\<rparr>) =
     Ok \<lparr>rf_force = True, rf_src = bstr ''refs/heads/*'', rf_dst = bstr ''refs/x/*''\<rparr>"
proof -
  have "refspec_parse (bstr ''+refs/heads/*:refs/x/*'') = Ok \<lparr>rf_force = True, rf_src = bstr ''refs/heads/*'', rf_dst = bstr ''refs/x/*''\<rparr>"
    by code_simp
  from refspec_correct [OF this] show ?thesis by blast
qed

text \<open>
  Cloning sets a remote up for good: when its URL and the default fetch refspec are stored in
  any configuration, the remote that is read back has them, maps every branch
  \<open>refs/heads/<b>\<close> to \<open>refs/remotes/<name>/<b>\<close> and no other reference, for every name without
  a star.
\<close>

theorem remote_tracks_branches:
  fixes cfg :: config and url :: bytes
  assumes "42 \<notin> set name"
  defines "cfg' \<equiv> config_set (config_set cfg (bstr ''remote'') (Some name) (bstr ''url'') url)
      (bstr ''remote'') (Some name) (bstr ''fetch'') (to_string_form (default_fetch name))"
  shows "\<exists>rm. remote_from_config cfg' name = Some rm \<and> rm_url rm = url \<and> rm_fetch rm = [default_fetch name]
    \<and> (\<forall>ref. map_fetch rm ref = (case strip_prefix (bstr ''refs/heads/'') ref of
          Some b \<Rightarrow> Some (bstr ''refs/remotes/'' @ name @ [47] @ b) | None \<Rightarrow> None))"
proof -
  have n: "key_new (bstr ''remote'') (Some name) (bstr ''url'') \<noteq> key_new (bstr ''remote'') (Some name) (bstr ''fetch'')"
    by (simp add: key_new_def to_lower_def)
  have url: "config_get cfg' (bstr ''remote'') (Some name) (bstr ''url'') = Some url"
    unfolding cfg'_def config_get_last config_all_set using n by simp
  have fetch: "config_get_all cfg' (bstr ''remote'') (Some name) (bstr ''fetch'') = [to_string_form (default_fetch name)]"
    unfolding cfg'_def config_all_set by simp
  have "refspec_parse (to_string_form (default_fetch name)) = Ok (default_fetch name)"
    by (rule refspec_print) (use assms(1) in \<open>simp_all add: default_fetch_def starts_with_def count_list_0_iff [THEN iffD2]\<close>)
  then have rm: "remote_from_config cfg' name = Some \<lparr>rm_name = name, rm_url = url, rm_fetch = [default_fetch name]\<rparr>"
    by (simp add: remote_from_config_def url fetch del: bstr_simps)
  have dst: "dst_for (default_fetch name) ref =
      (case strip_prefix (bstr ''refs/heads/'') ref of Some b \<Rightarrow> Some (bstr ''refs/remotes/'' @ name @ [47] @ b) | None \<Rightarrow> None)" for ref
  proof -
    have "strip_star (rf_src (default_fetch name)) = Some (bstr ''refs/heads/'')"
      "strip_star (rf_dst (default_fetch name)) = Some (bstr ''refs/remotes/'' @ name @ [47])"
      by (simp_all add: default_fetch_def strip_star_def ends_with_def butlast_append)
    then show ?thesis by (simp add: dst_for_def split: option.splits)
  qed
  then have "map_fetch \<lparr>rm_name = name, rm_url = url, rm_fetch = [default_fetch name]\<rparr> ref =
      (case strip_prefix (bstr ''refs/heads/'') ref of Some b \<Rightarrow> Some (bstr ''refs/remotes/'' @ name @ [47] @ b) | None \<Rightarrow> None)" for ref
    by (simp add: map_fetch_def split: option.splits)
  with rm show ?thesis by (intro exI [of _ "\<lparr>rm_name = name, rm_url = url, rm_fetch = [default_fetch name]\<rparr>"]) simp
qed

theorem remote_tracks_branches_witness:
  "\<exists>cfg rm. remote_from_config cfg (bstr ''origin'') = Some rm
    \<and> map_fetch rm (bstr ''refs/heads/main'') = Some (bstr ''refs/remotes/origin/main'')"
proof -
  have "42 \<notin> set (bstr ''origin'')" by simp
  from remote_tracks_branches [OF this, of "[]" "bstr ''https://x''"] show ?thesis by fastforce
qed

end
