(* ===== verification/Receive_Pack.thy ===== *)
theory Receive_Pack
  imports Protocol_V2 Refs Pack Walk Tree_Walk
begin

text \<open>
  Accepting a push, src/src/server/mod.rs: splitting the request, storing the objects of the pack,
  checking every command against the references and the history, and writing the references,
  command by command or, for an atomic push, after all of them were checked. The object store is
  any store: a state with its operations (\<open>'s store\<close>). The access hook is a function of the
  command; the outcomes that the post-receive hook is told are part of the result.
\<close>

section \<open>Definitions\<close>

text \<open>The \<open>Display\<close> text of an error (src/src/error.rs).\<close>

fun hint_text :: "object_kind_hint \<Rightarrow> bytes" where
  "hint_text (HintObject i) = bstr ''object not found: '' @ i"
| "hint_text (HintReference r) = bstr ''reference not found: '' @ r"

fun error_text :: "error \<Rightarrow> bytes" where
  "error_text (Parse m) = bstr ''parse error: '' @ bstr m"
| "error_text (Compression m) = bstr ''compression error: '' @ bstr m"
| "error_text (InvalidOid m) = bstr ''invalid object id: '' @ bstr m"
| "error_text (NotFound h) = hint_text h"
| "error_text (UnexpectedType e f) = bstr ''expected a '' @ as_str e @ bstr '' object, found a '' @ as_str f"
| "error_text (Reference m) = bstr ''reference error: '' @ bstr m"
| "error_text (error.Pack m) = bstr ''packfile error: '' @ bstr m"
| "error_text (Protocol m) = bstr ''protocol error: '' @ bstr m"
| "error_text (Config m) = bstr ''config error: '' @ bstr m"
| "error_text (Io m) = bstr ''io error: '' @ bstr m"
| "error_text (Unsupported m) = bstr ''unsupported: '' @ bstr m"

record 's store =
  st_contains :: "'s \<Rightarrow> object_id \<Rightarrow> bool"
  st_fetch :: "'s \<Rightarrow> reader"
  st_put :: "'s \<Rightarrow> object_type \<Rightarrow> bytes \<Rightarrow> object_id result \<times> 's"

subsection \<open>The request\<close>

text \<open>The offset behind the flush that ends the command list.\<close>

function flush_end :: "bytes \<Rightarrow> nat \<Rightarrow> nat result" where
  "flush_end request off =
     bind_res (decode (drop off request)) (\<lambda>d.
       case d of
         None \<Rightarrow> Err (Protocol ''receive-pack: command list not flush-terminated'')
       | Some (p, n) \<Rightarrow> if p = Flush then Ok (off + n) else flush_end request (off + n))"
  by pat_completeness auto
termination
  by (relation "measure (\<lambda>(r, off). length r - off)") (fastforce dest: decode_consumed)+

declare flush_end.simps [simp del]

definition split_at_flush :: "bytes \<Rightarrow> (bytes \<times> nat) result" where
  "split_at_flush request = bind_res (flush_end request 0) (\<lambda>e. Ok (take e request, e))"

definition parse_push :: "hash_algo \<Rightarrow> bytes \<Rightarrow> (push_request \<times> nat) result" where
  "parse_push a request =
     bind_res (split_at_flush request) (\<lambda>(command_bytes, pack_start).
     bind_res (decode_all command_bytes) (\<lambda>packets.
     bind_res (push_request_parse a packets) (\<lambda>req. Ok (req, pack_start))))"

fun put_objects :: "'s store \<Rightarrow> 's \<Rightarrow> object_id list \<Rightarrow> exploded_object list \<Rightarrow> object_id list result \<times> 's" where
  "put_objects ops s ids [] = (Ok ids, s)"
| "put_objects ops s ids ((i, ty, pl) # obs) =
     (case st_put ops s ty pl of
        (Err e, s1) \<Rightarrow> (Err e, s1)
      | (Ok j, s1) \<Rightarrow> put_objects ops s1 (ids @ [j]) obs)"

definition ingest_into :: "'d zlib \<Rightarrow> digest \<Rightarrow> hash_algo \<Rightarrow> 's store \<Rightarrow> 's \<Rightarrow> bytes \<Rightarrow> object_id list result \<times> 's" where
  "ingest_into z dg a ops s pack =
     (case explode_pack z dg pack a (st_fetch ops s) of
        Err e \<Rightarrow> (Err e, s)
      | Ok objects \<Rightarrow> put_objects ops s [] objects)"

subsection \<open>The commands\<close>

definition check_command :: "hash_algo \<Rightarrow> reader \<Rightarrow> (object_id \<Rightarrow> bool) \<Rightarrow> vfs \<Rightarrow> ref_update_command \<Rightarrow> bytes + unit" where
  "check_command a rd has v cmd =
     (let current = (case ref_resolve a v (uc_name cmd) of Ok i \<Rightarrow> Some i | Err e \<Rightarrow> None)
      in if is_zero (uc_new cmd) then
           (if \<not> is_zero (uc_old cmd) then
              (case current of
                 Some cur \<Rightarrow> if cur = uc_old cmd then Inr () else Inl (bstr ''stale info'')
               | None \<Rightarrow> Inl (bstr ''ref does not exist''))
            else Inr ())
         else if \<not> has (uc_new cmd) then Inl (bstr ''missing necessary objects'')
         else if is_zero (uc_old cmd) then
           (case current of Some _ \<Rightarrow> Inl (bstr ''ref already exists'') | None \<Rightarrow> Inr ())
         else
           (case current of
              Some cur \<Rightarrow>
                if cur = uc_old cmd then
                  if starts_with (bstr ''refs/heads/'') (uc_name cmd) then
                    (case is_ancestor a rd (uc_old cmd) (uc_new cmd) of
                       Err e \<Rightarrow> Inl (error_text e)
                     | Ok ff \<Rightarrow> if ff then Inr () else Inl (bstr ''non-fast-forward''))
                  else Inr ()
                else Inl (bstr ''stale info'')
            | None \<Rightarrow> Inl (bstr ''stale info'')))"

definition write_command :: "hash_algo \<Rightarrow> vfs \<Rightarrow> ref_update_command \<Rightarrow> (bytes + unit) \<times> vfs" where
  "write_command a v cmd =
     (case (if is_zero (uc_new cmd) then ref_delete a v (uc_name cmd)
            else ref_update v (uc_name cmd) (Direct (uc_new cmd))) of
        (Ok _, v1) \<Rightarrow> (Inr (), v1)
      | (Err e, v1) \<Rightarrow> (Inl (error_text e), v1))"

type_synonym update_hook = "ref_update_command \<Rightarrow> bytes + unit"

definition vet_command :: "hash_algo \<Rightarrow> reader \<Rightarrow> (object_id \<Rightarrow> bool) \<Rightarrow> update_hook \<Rightarrow> vfs \<Rightarrow> ref_update_command \<Rightarrow> bytes + unit" where
  "vet_command a rd has hook v cmd =
     (case hook cmd of Inl reason \<Rightarrow> Inl reason | Inr _ \<Rightarrow> check_command a rd has v cmd)"

fun apply_each :: "hash_algo \<Rightarrow> reader \<Rightarrow> (object_id \<Rightarrow> bool) \<Rightarrow> update_hook \<Rightarrow> bool \<Rightarrow> vfs \<Rightarrow> ref_update_command list
    \<Rightarrow> ref_status list \<times> vfs" where
  "apply_each a rd has hook failed v [] = ([], v)"
| "apply_each a rd has hook failed v (cmd # cmds) =
     (let (res, v1) =
            (if failed then (Inl (bstr ''unpacker error''), v)
             else case vet_command a rd has hook v cmd of
                    Inl reason \<Rightarrow> (Inl reason, v)
                  | Inr _ \<Rightarrow> write_command a v cmd);
          (sts, v2) = apply_each a rd has hook failed v1 cmds
      in (ref_status_new (uc_name cmd) res # sts, v2))"

fun apply_vetted :: "hash_algo \<Rightarrow> bool \<Rightarrow> vfs \<Rightarrow> (ref_update_command \<times> (bytes + unit)) list \<Rightarrow> ref_status list \<times> vfs" where
  "apply_vetted a all_ok v [] = ([], v)"
| "apply_vetted a all_ok v ((cmd, check) # rest) =
     (let (res, v1) =
            (case check of
               Inl reason \<Rightarrow> (Inl reason, v)
             | Inr _ \<Rightarrow> if \<not> all_ok then (Inl (bstr ''atomic push failure''), v) else write_command a v cmd);
          (sts, v2) = apply_vetted a all_ok v1 rest
      in (ref_status_new (uc_name cmd) res # sts, v2))"

definition apply_atomic :: "hash_algo \<Rightarrow> reader \<Rightarrow> (object_id \<Rightarrow> bool) \<Rightarrow> update_hook \<Rightarrow> vfs \<Rightarrow> ref_update_command list
    \<Rightarrow> ref_status list \<times> vfs" where
  "apply_atomic a rd has hook v cmds =
     (let checks = map (vet_command a rd has hook v) cmds
      in apply_vetted a (list_all (\<lambda>c. \<not> isl c) checks) v (zip cmds checks))"

definition receive_pack_over :: "'d zlib \<Rightarrow> digest \<Rightarrow> hash_algo \<Rightarrow> 's store \<Rightarrow> update_hook \<Rightarrow> 's \<Rightarrow> vfs \<Rightarrow> bytes
    \<Rightarrow> (bytes result \<times> (bytes \<times> (bytes + unit)) list option) \<times> 's \<times> vfs" where
  "receive_pack_over z dg a ops hook s v request =
     (case parse_push a request of
        Err e \<Rightarrow> ((Err e, None), s, v)
      | Ok (req, pack_start) \<Rightarrow>
          let pack = drop pack_start request;
              (unpack, s1) =
                (if starts_with (bstr ''PACK'') pack then
                   (case ingest_into z dg a ops s pack of
                      (Ok _, s1) \<Rightarrow> (Inr (), s1)
                    | (Err e, s1) \<Rightarrow> (Inl (error_text e), s1))
                 else (Inr (), s));
              (statuses, v1) =
                (if caps_has (pr_capabilities req) (bstr ''atomic'') \<and> \<not> isl unpack
                 then apply_atomic a (st_fetch ops s1) (st_contains ops s1) hook v (pr_commands req)
                 else apply_each a (st_fetch ops s1) (st_contains ops s1) hook (isl unpack) v (pr_commands req));
              outcomes = (if isl unpack then None else Some (map (\<lambda>st. (rs_name st, rs_result st)) statuses))
          in ((report_encode \<lparr>rp_unpack = unpack, rp_refs = statuses\<rparr>, outcomes), s1, v1))"

section \<open>Lemmas\<close>

subsection \<open>The request\<close>

lemma flush_end_packets:
  "encode_all (ps @ [Flush]) = Ok b \<Longrightarrow> Flush \<notin> set ps \<Longrightarrow> drop off request = b @ r \<Longrightarrow> flush_end request off = Ok (off + length b)"
proof (induction ps arbitrary: b off)
  case Nil
  then have "encode Flush = Ok b" by (simp add: bind_res_eq_Ok)
  from decode_encode [OF this, of r] Nil(3) show ?case by (simp add: flush_end.simps)
next
  case (Cons p ps)
  then obtain b1 b2 where b: "encode p = Ok b1" "encode_all (ps @ [Flush]) = Ok b2" "b = b1 @ b2"
    by (auto simp: bind_res_eq_Ok)
  have "decode (drop off request) = Ok (Some (p, length b1))"
    using decode_encode [OF b(1), of "b2 @ r"] Cons.prems(3) b(3) by simp
  moreover have "drop (off + length b1) request = b2 @ r"
    using Cons.prems(3) b(3) by (metis append_assoc append_eq_conv_conj drop_drop add.commute)
  with Cons.IH [OF b(2)] Cons.prems(2) have "flush_end request (off + length b1) = Ok (off + length b1 + length b2)" by simp
  ultimately show ?case using Cons.prems(2) b(3) by (auto simp: flush_end.simps [of _ off])
qed

lemma command_lines_data: "Flush \<notin> set (command_lines caps cs)"
  by (cases cs) (auto simp: text_line_def)

lemma parse_push_request:
  assumes "list_all (wf_command a) (pr_commands r)" and "wf_caps (pr_capabilities r)" and "push_request_encode r = Ok data"
  shows "parse_push a (data @ pack) = Ok (r, length data)"
proof -
  have e: "encode_all (command_lines (pr_capabilities r) (pr_commands r) @ [Flush]) = Ok data" "pr_commands r \<noteq> []"
    using assms(3) by (auto simp: push_request_encode_def split: if_splits)
  have "flush_end (data @ pack) 0 = Ok (length data)"
    using flush_end_packets [OF e(1) command_lines_data, of 0 "data @ pack" pack] by simp
  then show ?thesis
    using decode_encode_all [OF e(1)] push_loop_request [OF assms(1,2) e(2)] by (simp add: parse_push_def split_at_flush_def)
qed

subsection \<open>Commands\<close>

text \<open>What a command must meet, of the references and the history.\<close>

definition may_update :: "hash_algo \<Rightarrow> reader \<Rightarrow> (object_id \<Rightarrow> bool) \<Rightarrow> vfs \<Rightarrow> ref_update_command \<Rightarrow> bool" where
  "may_update a rd has v cmd \<longleftrightarrow>
     (if is_zero (uc_new cmd) then is_zero (uc_old cmd) \<or> ref_resolve a v (uc_name cmd) = Ok (uc_old cmd)
      else has (uc_new cmd)
        \<and> (if is_zero (uc_old cmd) then is_err (ref_resolve a v (uc_name cmd))
           else ref_resolve a v (uc_name cmd) = Ok (uc_old cmd)
             \<and> (\<not> starts_with (bstr ''refs/heads/'') (uc_name cmd) \<or> (uc_new cmd, uc_old cmd) \<in> (parent_rel a rd)\<^sup>*)))"

lemma is_ancestor_rtrancl: "is_ancestor a rd anc d = Ok b \<Longrightarrow> b \<longleftrightarrow> (d, anc) \<in> (parent_rel a rd)\<^sup>*"
  using is_ancestor_loop_spec [of "[d]" "{d}" a rd anc b] by (auto simp: is_ancestor_def split: if_splits)

lemma check_command_may:
  assumes "check_command a rd has v cmd = Inr u"
  shows "may_update a rd has v cmd"
  using assms is_ancestor_rtrancl [of a rd "uc_old cmd" "uc_new cmd"]
  by (cases "ref_resolve a v (uc_name cmd)")
    (auto simp: check_command_def may_update_def Let_def simp del: bstr_simps split: if_splits result.splits)

text \<open>A run of the commands: each is refused, fails to be written, or is allowed and written.\<close>

inductive push_steps :: "hash_algo \<Rightarrow> reader \<Rightarrow> (object_id \<Rightarrow> bool) \<Rightarrow> update_hook \<Rightarrow> vfs option \<Rightarrow> vfs \<Rightarrow> ref_update_command list
    \<Rightarrow> (bytes \<times> (bytes + unit)) list \<Rightarrow> vfs \<Rightarrow> bool"
  for a rd has hook base where
  push_end: "push_steps a rd has hook base v [] [] v"
| push_refused: "push_steps a rd has hook base v cmds outs v' \<Longrightarrow>
    push_steps a rd has hook base v (cmd # cmds) ((uc_name cmd, Inl reason) # outs) v'"
| push_written: "hook cmd = Inr () \<Longrightarrow> may_update a rd has (case base of Some b \<Rightarrow> b | None \<Rightarrow> v) cmd
    \<Longrightarrow> write_command a v cmd = (res, v1) \<Longrightarrow> push_steps a rd has hook base v1 cmds outs v'
    \<Longrightarrow> push_steps a rd has hook base v (cmd # cmds) ((uc_name cmd, res) # outs) v'"

definition outcome :: "ref_status \<Rightarrow> bytes \<times> (bytes + unit)" where
  "outcome st = (rs_name st, rs_result st)"

lemma outcome_new [simp]: "outcome (ref_status_new n res) = (n, res)"
  by (simp add: outcome_def ref_status_new_def)

lemma vet_command_Inr: "vet_command a rd has hook v cmd = Inr u \<Longrightarrow> hook cmd = Inr () \<and> may_update a rd has v cmd"
  by (auto simp: vet_command_def check_command_may split: sum.splits)

lemma apply_each_steps:
  "apply_each a rd has hook failed v cmds = (sts, v') \<Longrightarrow> push_steps a rd has hook None v cmds (map outcome sts) v'"
proof (induction cmds arbitrary: v sts)
  case Nil
  then show ?case by (auto intro: push_end)
next
  case (Cons cmd cmds)
  obtain res v1 where w: "(if failed then (Inl (bstr ''unpacker error''), v)
      else case vet_command a rd has hook v cmd of Inl reason \<Rightarrow> (Inl reason, v) | Inr _ \<Rightarrow> write_command a v cmd) = (res, v1)"
    by fastforce
  obtain rest where r: "apply_each a rd has hook failed v1 cmds = (rest, v')" "sts = ref_status_new (uc_name cmd) res # rest"
    using Cons.prems w by (auto split: prod.splits)
  note steps = Cons.IH [OF r(1)]
  show ?case
  proof (cases "failed \<or> isl (vet_command a rd has hook v cmd)")
    case True
    have "isl res \<and> v1 = v"
    proof (cases "vet_command a rd has hook v cmd")
      case (Inl reason)
      show ?thesis using w unfolding Inl by (auto split: if_splits)
    next
      case (Inr u)
      show ?thesis using w True unfolding Inr by (auto split: if_splits)
    qed
    with steps r(2) show ?thesis by (cases res) (auto intro: push_refused)
  next
    case False
    then obtain u where "vet_command a rd has hook v cmd = Inr u" by (cases "vet_command a rd has hook v cmd") auto
    with w False steps r(2) show ?thesis by (auto intro!: push_written dest: vet_command_Inr)
  qed
qed

lemma apply_vetted_steps:
  "apply_vetted a ok v (zip cmds (map (vet_command a rd has hook b) cmds)) = (sts, v')
   \<Longrightarrow> push_steps a rd has hook (Some b) v cmds (map outcome sts) v'"
proof (induction cmds arbitrary: v sts)
  case Nil
  then show ?case by (auto intro: push_end)
next
  case (Cons cmd cmds)
  obtain res v1 where w: "(case vet_command a rd has hook b cmd of Inl reason \<Rightarrow> (Inl reason, v)
      | Inr _ \<Rightarrow> if \<not> ok then (Inl (bstr ''atomic push failure''), v) else write_command a v cmd) = (res, v1)"
    by fastforce
  obtain rest where r: "apply_vetted a ok v1 (zip cmds (map (vet_command a rd has hook b) cmds)) = (rest, v')"
      "sts = ref_status_new (uc_name cmd) res # rest"
    using Cons.prems w by (auto split: prod.splits)
  note steps = Cons.IH [OF r(1)]
  show ?case
  proof (cases "\<not> ok \<or> isl (vet_command a rd has hook b cmd)")
    case True
    have "isl res \<and> v1 = v"
    proof (cases "vet_command a rd has hook b cmd")
      case (Inl reason)
      show ?thesis using w unfolding Inl by (auto split: if_splits)
    next
      case (Inr u)
      show ?thesis using w True unfolding Inr by (auto split: if_splits)
    qed
    with steps r(2) show ?thesis by (cases res) (auto intro: push_refused)
  next
    case False
    then obtain u where "vet_command a rd has hook b cmd = Inr u" by (cases "vet_command a rd has hook b cmd") auto
    with w False steps r(2) show ?thesis by (auto intro!: push_written dest: vet_command_Inr)
  qed
qed

lemma apply_refused:
  "apply_vetted a False v xs = (sts, v') \<Longrightarrow> v' = v \<and> list_all (\<lambda>st. isl (rs_result st)) sts"
  by (induction xs arbitrary: sts v') (auto simp: ref_status_new_def split: prod.splits sum.splits)

lemma apply_failed:
  "apply_each a rd has hook True v cmds = (sts, v') \<Longrightarrow> v' = v \<and> list_all (\<lambda>st. isl (rs_result st)) sts"
  by (induction cmds arbitrary: sts v') (auto simp: ref_status_new_def split: prod.splits)

lemma write_command_view:
  assumes "write_command a v cmd = (Inr u, v')" and "\<not> is_zero (uc_new cmd)" and "ref_name (uc_name cmd)"
    and "wf_oid (uc_new cmd)" and "oid_algo (uc_new cmd) = a"
  shows "ref_view a v' (uc_name cmd) = Some (Direct (uc_new cmd))"
proof -
  have "ref_update v (uc_name cmd) (Direct (uc_new cmd)) = (Ok (), v')"
    using assms(1,2) by (auto simp: write_command_def split: prod.splits result.splits)
  moreover have "\<not> starts_with (uc_name cmd @ [47]) (uc_name cmd)" by (auto simp: starts_with_iff)
  ultimately show ?thesis
    using update_view [OF assms(3) _ _ assms(3)] assms(4,5) by fastforce
qed

subsection \<open>The objects of the pack\<close>

definition store_of :: "('s \<Rightarrow> object_id \<Rightarrow> bool) \<Rightarrow> ('s \<Rightarrow> reader) \<Rightarrow> ('s \<Rightarrow> object_type \<Rightarrow> bytes \<Rightarrow> object_id result \<times> 's) \<Rightarrow> 's store" where
  "store_of contains fetch put = \<lparr>st_contains = contains, st_fetch = fetch, st_put = put\<rparr>"

lemma store_of_simps [simp]:
  "st_contains (store_of c f p) = c" "st_fetch (store_of c f p) = f" "st_put (store_of c f p) = p"
  by (simp_all add: store_of_def)

context total_store begin

lemma put_objects_all:
  "inv s \<Longrightarrow> \<exists>js. put_objects (store_of contains fetch put) s ids obs = (Ok js, put_all put s (map snd obs))"
proof (induction obs arbitrary: s ids)
  case (Cons x obs)
  obtain i ty pl where x: "x = (i, ty, pl)" by (cases x)
  have "fst (put s ty pl) = Ok (hash_object dg (algo s) ty pl)" using Cons.prems put_id takes by blast
  then obtain s1 where s1: "put s ty pl = (Ok (hash_object dg (algo s) ty pl), s1)" by (cases "put s ty pl") auto
  have "inv s1" using put_inv [OF Cons.prems, of ty pl] s1 by simp
  from Cons.IH [OF this] s1 show ?case by (auto simp: x put_all_def)
qed (simp add: put_all_def)

lemma ingest_reads:
  assumes "inv s" and "explode_pack z dg pk (algo s) (fetch s) = Ok obs" and "(i, ty, pl) \<in> set obs"
    and "i = hash_object dg (algo s) ty pl"
    and "no_collision dg (algo s) (fetch (snd (ingest_into z dg (algo s) (store_of contains fetch put) s pk))) (map snd obs)"
  shows "is_ok (fst (ingest_into z dg (algo s) (store_of contains fetch put) s pk))
    \<and> fetch (snd (ingest_into z dg (algo s) (store_of contains fetch put) s pk)) i = Ok (ty, pl)"
proof -
  obtain js where js: "ingest_into z dg (algo s) (store_of contains fetch put) s pk = (Ok js, put_all put s (map snd obs))"
    using put_objects_all [OF assms(1), of "[]" obs] assms(2) by (auto simp: ingest_into_def)
  have m: "(ty, pl) \<in> set (map snd obs)" using assms(3) by force
  obtain x where "fetch (put_all put s (map snd obs)) i = Ok x"
    using put_all_readable [OF assms(1) m] assms(4) by auto
  with m assms(4,5) js show ?thesis by (auto simp: no_collision_def list_all_iff)
qed

end


lemma apply_each_names: "apply_each a rd has hook failed v cmds = (sts, v') \<Longrightarrow> map rs_name sts = map uc_name cmds"
  by (induction cmds arbitrary: v sts) (auto simp: ref_status_new_def split: prod.splits)

lemma apply_vetted_names:
  "apply_vetted a ok v xs = (sts, v') \<Longrightarrow> map rs_name sts = map (uc_name \<circ> fst) xs"
  by (induction xs arbitrary: v sts) (auto simp: ref_status_new_def split: prod.splits)

lemma apply_atomic_names: "apply_atomic a rd has hook v cmds = (sts, v') \<Longrightarrow> map rs_name sts = map uc_name cmds"
  by (auto simp: apply_atomic_def Let_def dest!: apply_vetted_names simp flip: map_map)

lemma receive_packed:
  assumes "parse_push a request = Ok (req, start)" and "starts_with (bstr ''PACK'') (drop start request)"
    and "ingest_into z dg a ops s (drop start request) = (Ok ids, s1)"
    and "receive_pack_over z dg a ops hook s v request = ((resp, outs), s', v')"
  shows "s' = s1" "\<exists>sts. outs = Some (map outcome sts) \<and> map rs_name sts = map uc_name (pr_commands req)
    \<and> (\<forall>cmd st. pr_commands req = [cmd] \<longrightarrow> sts = [st] \<longrightarrow> rs_result st = Inr () \<longrightarrow>
        write_command a v cmd = (Inr (), v'))"
proof -
  let ?rd = "st_fetch ops s1" and ?has = "st_contains ops s1" and ?cs = "pr_commands req"
  obtain sts v1 where r: "(if caps_has (pr_capabilities req) (bstr ''atomic'') then apply_atomic a ?rd ?has hook v ?cs
      else apply_each a ?rd ?has hook False v ?cs) = (sts, v1)" by fastforce
  have out: "s' = s1" "outs = Some (map outcome sts)" "v' = v1"
    using assms(4) r
    by (cases "caps_has (pr_capabilities req) (bstr ''atomic'')";
        auto simp: receive_pack_over_def assms(1-3) outcome_def [abs_def] Let_def simp del: bstr_simps)+
  have "map rs_name sts = map uc_name ?cs"
    using r by (auto dest: apply_each_names apply_atomic_names simp del: bstr_simps split: if_splits)
  moreover have "write_command a v cmd = (Inr (), v')" if "?cs = [cmd]" "sts = [st]" "rs_result st = Inr ()" for cmd st
    using r that out(3)
    by (auto simp: apply_atomic_def Let_def ref_status_new_def simp del: bstr_simps
        split: if_splits sum.splits prod.splits)
  ultimately show "s' = s1" "\<exists>sts. outs = Some (map outcome sts) \<and> map rs_name sts = map uc_name (pr_commands req)
    \<and> (\<forall>cmd st. pr_commands req = [cmd] \<longrightarrow> sts = [st] \<longrightarrow> rs_result st = Inr () \<longrightarrow>
        write_command a v cmd = (Inr (), v'))"
    using out by auto
qed

definition exploded_entries :: "pack_writer \<Rightarrow> exploded_object list" where
  "exploded_entries w = map (\<lambda>e. (e_id e, e_ty e, e_payload e)) (pw_entries w)"

text \<open>A pack that a client has written is taken in whole.\<close>

lemma push_stored:
  assumes "zlib_ok z" and "memory_inv dg s" and "wf_writer dg w" and "pw_algo w = mem_algo s"
    and "length (pw_entries w) < 2 ^ 32" and "bases_ok dg (mem_algo s) (memory_read s) (pw_external_bases w) (pw_entries w)"
    and "pw_finish z dg w = Ok pk" and "length (po_pack pk) < 2 ^ 64"
    and "list_all (wf_command (mem_algo s)) (pr_commands req)" and "wf_caps (pr_capabilities req)"
    and "push_request_encode req = Ok data"
    and "receive_pack_over z dg (mem_algo s) (store_of memory_contains memory_read (memory_write dg)) hook s v
        (data @ po_pack pk) = ((resp, outs), s', v')"
  shows "explode_pack z dg (po_pack pk) (mem_algo s) (memory_read s) = Ok (exploded_entries w)"
    and "s' = put_all (memory_write dg) s (map snd (exploded_entries w))"
    and "\<exists>js. ingest_into z dg (mem_algo s) (store_of memory_contains memory_read (memory_write dg)) s (po_pack pk) = (Ok js, s')"
    and "\<exists>sts. outs = Some (map outcome sts) \<and> map rs_name sts = map uc_name (pr_commands req)
      \<and> (\<forall>cmd st. pr_commands req = [cmd] \<longrightarrow> sts = [st] \<longrightarrow> rs_result st = Inr () \<longrightarrow>
          write_command (mem_algo s) v cmd = (Inr (), v'))"
proof -
  let ?a = "mem_algo s" and ?ops = "store_of memory_contains memory_read (memory_write dg)"
  have dg: "digest_ok dg" using assms(2) by (simp add: memory_inv_def)
  have "explode_pack_prefix z dg (po_pack pk @ []) ?a (memory_read s) = Ok (exploded_entries w, length (po_pack pk))"
    using finish_explodes [OF assms(1) dg assms(3,5), of "memory_read s" "[]"] assms(4,6-8) by (auto simp: exploded_entries_def)
  then have x: "explode_pack z dg (po_pack pk) ?a (memory_read s) = Ok (exploded_entries w)"
    and sig: "starts_with (bstr ''PACK'') (po_pack pk)"
    by (auto simp: explode_pack_def starts_with_iff PACK_SIGNATURE_def explode_pack_prefix_def intro: exI [of _ "drop 4 (po_pack pk)"]
        simp del: bstr_simps split: if_splits) (metis append_take_drop_id)
  show "explode_pack z dg (po_pack pk) ?a (memory_read s) = Ok (exploded_entries w)" by fact
  obtain js where g: "ingest_into z dg ?a ?ops s (po_pack pk) = (Ok js, put_all (memory_write dg) s (map snd (exploded_entries w)))"
    using memtotal.put_objects_all [OF assms(2), of "[]" "exploded_entries w"] x by (auto simp: ingest_into_def)
  note r = receive_packed [OF parse_push_request [OF assms(9-11), of "po_pack pk"] _ _ assms(12)]
  show s': "s' = put_all (memory_write dg) s (map snd (exploded_entries w))" using r(1) sig g by simp
  show "\<exists>js. ingest_into z dg ?a ?ops s (po_pack pk) = (Ok js, s')" using g s' by simp
  show "\<exists>sts. outs = Some (map outcome sts) \<and> map rs_name sts = map uc_name (pr_commands req)
      \<and> (\<forall>cmd st. pr_commands req = [cmd] \<longrightarrow> sts = [st] \<longrightarrow> rs_result st = Inr () \<longrightarrow> write_command ?a v cmd = (Inr (), v'))"
    using r(2) sig g by simp
qed

text \<open>
  An atomic push is vetted against the references before it, not against the writes that come
  first: with two commands that pass the check, here for the same new reference and a reference below it, the
  first is written and the second fails, and the push is half applied.
\<close>

definition half_push :: "ref_update_command list" where
  "half_push = map (\<lambda>n. \<lparr>uc_old = zero_oid Sha1, uc_new = ObjectId Sha1 (replicate 20 1), uc_name = bstr n\<rparr>)
     [''refs/heads/a'', ''refs/heads/a/b'']"

lemma atomic_push_half_applied:
  "case apply_atomic Sha1 (\<lambda>i. Err (Parse [])) (\<lambda>i. True) (\<lambda>cmd. Inr ()) \<lparr>files = Map.empty, dirs = {[]}\<rparr> half_push of
     (sts, v') \<Rightarrow> map (isl \<circ> rs_result) sts = [False, True]
       \<and> files v' [bstr ''refs'', bstr ''heads'', bstr ''a''] \<noteq> None"
  by code_simp

section \<open>Properties\<close>

text \<open>
  C4. A push changes references only as the commands of the request allow. Without an outcome to
  report (the request or the pack is broken) no reference changes. Otherwise the commands are
  taken in order, and a reference is written only when the access hook agrees and the command fits
  the references and the history: a deletion names the present value (or none), a new value is
  in the store, a creation finds no reference, an update finds the old value, and a branch moves
  to a descendant. An atomic push with a command that is refused changes nothing and reports no
  success; otherwise all commands are judged on the references before the push.
\<close>

theorem receive_pack_guarded:
  "case receive_pack_over z dg a ops hook s v request of
     ((resp, None), s', v') \<Rightarrow> v' = v
   | ((resp, Some outs), s', v') \<Rightarrow>
       \<exists>req start. parse_push a request = Ok (req, start)
         \<and> (if caps_has (pr_capabilities req) (bstr ''atomic'') then
              if list_ex (\<lambda>cmd. isl (vet_command a (st_fetch ops s') (st_contains ops s') hook v cmd)) (pr_commands req)
              then v' = v \<and> list_all (isl \<circ> snd) outs
              else push_steps a (st_fetch ops s') (st_contains ops s') hook (Some v) v (pr_commands req) outs v'
            else push_steps a (st_fetch ops s') (st_contains ops s') hook None v (pr_commands req) outs v')"
proof (cases "parse_push a request")
  case (Err e)
  then show ?thesis by (simp add: receive_pack_over_def)
next
  case (Ok x)
  obtain req start where x: "x = (req, start)" by (cases x)
  obtain unpack s1 where u: "(if starts_with (bstr ''PACK'') (drop start request) then
      (case ingest_into z dg a ops s (drop start request) of (Ok _, s1) \<Rightarrow> (Inr (), s1) | (Err e, s1) \<Rightarrow> (Inl (error_text e), s1))
      else (Inr (), s)) = (unpack, s1)" by fastforce
  let ?rd = "st_fetch ops s1" and ?has = "st_contains ops s1" and ?cs = "pr_commands req"
  let ?atomic = "caps_has (pr_capabilities req) (bstr ''atomic'')"
  obtain sts v1 where r: "(if ?atomic \<and> \<not> isl unpack then apply_atomic a ?rd ?has hook v ?cs
      else apply_each a ?rd ?has hook (isl unpack) v ?cs) = (sts, v1)" by fastforce
  have out: "receive_pack_over z dg a ops hook s v request =
      ((report_encode \<lparr>rp_unpack = unpack, rp_refs = sts\<rparr>, if isl unpack then None else Some (map outcome sts)), s1, v1)"
    by (simp add: receive_pack_over_def Ok x u r outcome_def [abs_def] Let_def del: bstr_simps)
  show ?thesis
  proof (cases "isl unpack")
    case True
    with r have "v1 = v" by (auto dest: apply_failed)
    with True show ?thesis by (simp add: out)
  next
    case False
    show ?thesis
    proof (cases ?atomic)
      case True
      let ?checks = "map (vet_command a ?rd ?has hook v) ?cs"
      have at: "apply_vetted a (list_all (\<lambda>c. \<not> isl c) ?checks) v (zip ?cs ?checks) = (sts, v1)"
        using r True False by (simp add: apply_atomic_def Let_def)
      show ?thesis
      proof (cases "list_ex (\<lambda>cmd. isl (vet_command a ?rd ?has hook v cmd)) ?cs")
        case refused: True
        then have "\<not> list_all (\<lambda>c. \<not> isl c) ?checks" by (auto simp: list_all_iff list_ex_iff)
        with at have "v1 = v \<and> list_all (\<lambda>st. isl (rs_result st)) sts" by (auto dest: apply_refused)
        with True False refused show ?thesis by (simp add: out Ok x outcome_def list_all_iff del: bstr_simps)
      next
        case allowed: False
        with True False apply_vetted_steps [OF at] show ?thesis by (simp add: out Ok x del: bstr_simps)
      qed
    next
      case each: False
      with r False have "push_steps a ?rd ?has hook None v ?cs (map outcome sts) v1" by (auto dest: apply_each_steps)
      with each False show ?thesis by (simp add: out Ok x del: bstr_simps)
    qed
  qed
qed


text \<open>
  C2. A push arrives: when a client sends its commands followed by a pack it has written, the server
  reports an outcome for every command, and afterwards its store gives back every object that
  was queued for the pack, unless the digest collides. When the only command is reported as
  successful and is not a deletion, the reference then has the new value, if its name is
  one that \<open>ref_name\<close> admits. The store is the in-memory one, it has the external bases of a thin
  pack, and the outcomes are the ones that the hook after the push is given.
\<close>

theorem push_delivers:
  assumes "zlib_ok z" and "memory_inv dg s" and "wf_writer dg w" and "pw_algo w = mem_algo s"
    and "length (pw_entries w) < 2 ^ 32" and "bases_ok dg (mem_algo s) (memory_read s) (pw_external_bases w) (pw_entries w)"
    and "pw_finish z dg w = Ok pk" and "length (po_pack pk) < 2 ^ 64"
    and "list_all (wf_command (mem_algo s)) (pr_commands req)" and "wf_caps (pr_capabilities req)"
    and "push_request_encode req = Ok data"
    and "receive_pack_over z dg (mem_algo s) (store_of memory_contains memory_read (memory_write dg)) hook s v
        (data @ po_pack pk) = ((resp, outs), s', v')"
    and "no_collision dg (mem_algo s) (memory_read s') (map (\<lambda>e. (e_ty e, e_payload e)) (pw_entries w))"
  shows "\<exists>os. outs = Some os \<and> map fst os = map uc_name (pr_commands req)
    \<and> (\<forall>e\<in>set (pw_entries w). memory_read s' (e_id e) = Ok (e_ty e, e_payload e))
    \<and> (case (pr_commands req, os) of
         ([cmd], [(n, Inr u)]) \<Rightarrow>
           is_zero (uc_new cmd) \<or> (ref_name n \<longrightarrow> ref_view (mem_algo s) v' n = Some (Direct (uc_new cmd)))
       | _ \<Rightarrow> True)"
proof -
  let ?a = "mem_algo s" and ?ops = "store_of memory_contains memory_read (memory_write dg)"
  note p = push_stored [OF assms(1-12)]
  obtain sts where sts: "outs = Some (map outcome sts)" "map rs_name sts = map uc_name (pr_commands req)"
      "\<And>cmd st. pr_commands req = [cmd] \<Longrightarrow> sts = [st] \<Longrightarrow> rs_result st = Inr () \<Longrightarrow> write_command ?a v cmd = (Inr (), v')"
    using p(4) by blast
  obtain js where g: "ingest_into z dg ?a ?ops s (po_pack pk) = (Ok js, s')" using p(3) by blast
  have "memory_read s' (e_id e) = Ok (e_ty e, e_payload e)" if e: "e \<in> set (pw_entries w)" for e
  proof -
    have id: "e_id e = hash_object dg ?a (e_ty e) (e_payload e)" using e assms(3,4) by (auto simp: wf_writer_def entry_ok_def)
    have "(e_id e, e_ty e, e_payload e) \<in> set (exploded_entries w)" using e by (auto simp: exploded_entries_def)
    from memtotal.ingest_reads [OF assms(2) p(1) this id] assms(13) g show ?thesis
      by (simp add: comp_def exploded_entries_def)
  qed
  moreover have "ref_view ?a v' n = Some (Direct (uc_new cmd))"
    if c: "pr_commands req = [cmd]" and o: "map outcome sts = [(n, Inr u)]" and nz: "\<not> is_zero (uc_new cmd)" and n: "ref_name n"
    for cmd n u
  proof -
    obtain st where st: "sts = [st]" "rs_name st = n" "rs_result st = Inr ()" using o by (auto simp: outcome_def)
    then have "uc_name cmd = n" using sts(2) c by simp
    moreover have "wf_oid (uc_new cmd) \<and> oid_algo (uc_new cmd) = ?a"
      using assms(9) c by (simp add: wf_command_def)
    ultimately show ?thesis
      using write_command_view [OF sts(3) [OF c st(1,3)] nz] n by simp
  qed
  moreover have "map fst (map outcome sts) = map uc_name (pr_commands req)" using sts(2) by (simp add: comp_def outcome_def)
  ultimately show ?thesis using sts(1) by (auto split: list.split sum.split) blast
qed

theorem push_delivers_witness:
  "\<exists>data pk resp os s' v'. push_request_encode sample_push = Ok data
     \<and> pw_finish stored length_digest (plain_writer length_digest) = Ok pk
     \<and> receive_pack_over stored length_digest Sha1 (store_of memory_contains memory_read (memory_write length_digest))
         (\<lambda>cmd. Inr ()) (memory_new Sha1) \<lparr>files = Map.empty, dirs = {[]}\<rparr> (data @ po_pack pk) = ((resp, Some os), s', v')
     \<and> memory_read s' (hash_object length_digest Sha1 Blob [4, 5]) = Ok (Blob, [4, 5])"
proof -
  let ?w = "plain_writer length_digest" and ?s = "memory_new Sha1" and ?v = "\<lparr>files = Map.empty, dirs = {[]}\<rparr> :: vfs"
  let ?ops = "store_of memory_contains memory_read (memory_write length_digest)"
  note w = plain_writer_ok
  obtain pk where pk: "pw_finish stored length_digest ?w = Ok pk" "length (po_pack pk) < 2 ^ 64"
    using plain_writer_finish by blast
  have "short_packets (command_lines (pr_capabilities sample_push) (pr_commands sample_push) @ [Flush])" by code_simp
  from encode_short [OF this] obtain data where d: "push_request_encode sample_push = Ok data"
    by (auto simp: push_request_encode_def sample_push_def)
  have wf: "list_all (wf_command Sha1) (pr_commands sample_push)"
    by (simp add: sample_push_def wf_command_def wf_oid_def zero_oid_def)
  have wc: "wf_caps (pr_capabilities sample_push)" by (simp add: sample_push_def wf_caps_def wf_cap_def to_wire_def caps_part_def)
  have s: "memory_inv length_digest ?s" "mem_algo ?s = Sha1"
    using example_writer_ok(2) by (simp_all add: memory_inv_def memory_new_def bt_invar_def bt_get_def)
  obtain resp outs s' v' where r: "receive_pack_over stored length_digest Sha1 ?ops (\<lambda>cmd. Inr ()) ?s ?v (data @ po_pack pk) =
      ((resp, outs), s', v')" by (metis surj_pair)
  have b: "bases_ok length_digest (mem_algo ?s) (memory_read ?s) (pw_external_bases ?w) (pw_entries ?w)"
    by (simp add: w bases_ok_def)
  have n: "length (pw_entries ?w) < 2 ^ 32" by (simp add: w)
  note prem = example_writer_ok(1) s(1) w(1) _ n b pk _ wc d
  have s': "s' = put_all (memory_write length_digest) ?s (map snd (exploded_entries ?w))"
    using push_stored(2) [OF prem] wf r s(2) w(2) by simp
  have read: "memory_read s' (hash_object length_digest Sha1 Blob [4, 5]) = Ok (Blob, [4, 5])"
    by (simp add: s' exploded_entries_def w put_all_def memory_write_def memory_new_def memory_contains_def memory_read_def Let_def
        bt_get_def)
  have "no_collision length_digest (mem_algo ?s) (memory_read s') (map (\<lambda>e. (e_ty e, e_payload e)) (pw_entries ?w))"
    using read by (simp add: w no_collision_def s(2))
  with push_delivers [OF prem] wf r s(2) w(2,3)
  have "\<exists>os. outs = Some os \<and> memory_read s' (hash_object length_digest Sha1 Blob [4, 5]) = Ok (Blob, [4, 5])" by fastforce
  with d pk(1) r show ?thesis by blast
qed

end
