(* ===== verification/Upload_Walk.thy ===== *)
theory Upload_Walk
  imports Shallow
begin

text \<open>
  Planning the answer to a fetch, src/src/server/upload.rs: which objects to send and how the
  shallow boundary of the client moves. The references are two functions, what a name resolves to
  and the tags. A \<open>BTreeSet\<close> is a set, iterated in id order; the walks are total, as in \<open>Walk\<close>.
\<close>

section \<open>Model\<close>

subsection \<open>Reading commits\<close>

definition read_commit :: "hash_algo \<Rightarrow> reader \<Rightarrow> object_id \<Rightarrow> commit option result" where
  "read_commit a rd i =
     (case read_typed rd i Commit of
        Ok pl \<Rightarrow> bind_res (commit_parse a pl) (\<lambda>c. Ok (Some c))
      | Err e \<Rightarrow> if is_not_found e \<or> is_unexpected_type e then Ok None else Err e)"

definition parents_or_none :: "commit option \<Rightarrow> object_id list" where
  "parents_or_none oc = (case oc of None \<Rightarrow> [] | Some c \<Rightarrow> c_parents c)"

lemma read_commit_known: "read_commit a rd i = Ok oc \<Longrightarrow> set (parents_or_none oc) \<subseteq> known_ids a"
  by (auto simp: read_commit_def parents_or_none_def bind_res_eq_Ok split: result.splits if_splits option.splits
      dest!: commit_parse_known)

lemma read_commit_Some_known: "read_commit a rd i = Ok (Some c) \<Longrightarrow> set (c_parents c) \<subseteq> known_ids a"
  using read_commit_known [of a rd i "Some c"] by (simp add: parents_or_none_def)

text \<open>Up to 64 steps through tags.\<close>

fun peel_loop :: "nat \<Rightarrow> hash_algo \<Rightarrow> reader \<Rightarrow> object_id \<Rightarrow> object_id option result" where
  "peel_loop 0 a rd cur = Ok None"
| "peel_loop (Suc n) a rd cur =
     (case rd cur of
        Err e \<Rightarrow> if is_not_found e then Ok None else Err e
      | Ok (ty, pl) \<Rightarrow>
          (case ty of
             Commit \<Rightarrow> Ok (Some cur)
           | Tag \<Rightarrow> bind_res (tag_parse a pl) (\<lambda>t. peel_loop n a rd (t_object t))
           | _ \<Rightarrow> Ok None))"

definition peel_to_commit :: "hash_algo \<Rightarrow> reader \<Rightarrow> object_id \<Rightarrow> object_id option result" where
  "peel_to_commit a rd i = peel_loop 64 a rd i"

subsection \<open>Giving up the negotiation\<close>

definition GIVE_UP_WALK_CAP :: nat where
  "GIVE_UP_WALK_CAP = 100000"

lemma walk_room_less:
  assumes "i \<notin> seen" and "U \<subseteq> set stack \<union> known_ids a"
  shows "card (U - insert i seen) < card ((set (i # stack) \<union> known_ids a) - seen)"
  using assms room_less [of i seen "set stack \<union> known_ids a" U] by (simp add: finite_known_ids)

lemma walk_room_skip:
  "card ((set stack \<union> known_ids a) - seen) < card ((set (i # stack) \<union> known_ids a) - seen)
    \<or> card ((set stack \<union> known_ids a) - seen) = card ((set (i # stack) \<union> known_ids a) - seen)"
  by (simp add: le_less [symmetric] card_mono finite_known_ids subset_iff)

function reaches_loop :: "hash_algo \<Rightarrow> reader \<Rightarrow> object_id set \<Rightarrow> object_id set \<Rightarrow> object_id list \<Rightarrow> bool result" where
  "reaches_loop a rd targets seen [] = Ok False"
| "reaches_loop a rd targets seen (i # queue) =
     (if i \<in> targets then Ok True
      else if i \<in> seen then reaches_loop a rd targets seen queue
      else if GIVE_UP_WALK_CAP < card (insert i seen) then reaches_loop a rd targets (insert i seen) queue
      else bind_res (read_commit a rd i) (\<lambda>oc.
             reaches_loop a rd targets (insert i seen) (queue @ parents_or_none oc)))"
  by pat_completeness auto
termination
  by (relation "measures [\<lambda>(a, rd, ts, seen, queue). card ((set queue \<union> known_ids a) - seen),
      \<lambda>(a, rd, ts, seen, queue). length queue]")
    (use walk_room_skip in \<open>auto intro!: disjI1 walk_room_less dest: read_commit_known simp del: list.set(2)\<close>)

definition reaches_any :: "hash_algo \<Rightarrow> reader \<Rightarrow> object_id \<Rightarrow> object_id set \<Rightarrow> bool result" where
  "reaches_any a rd start targets = reaches_loop a rd targets {} [start]"

fun wants_reach :: "hash_algo \<Rightarrow> reader \<Rightarrow> object_id set \<Rightarrow> object_id list \<Rightarrow> bool result" where
  "wants_reach a rd common [] = Ok True"
| "wants_reach a rd common (want # wants) =
     bind_res (peel_to_commit a rd want) (\<lambda>start.
       case start of
         None \<Rightarrow> wants_reach a rd common wants
       | Some s \<Rightarrow>
           bind_res (reaches_any a rd s common) (\<lambda>b. if b then wants_reach a rd common wants else Ok False))"

definition ok_to_give_up :: "hash_algo \<Rightarrow> reader \<Rightarrow> object_id list \<Rightarrow> object_id set \<Rightarrow> bool result" where
  "ok_to_give_up a rd wants common = (if common = {} then Ok False else wants_reach a rd common wants)"

subsection \<open>The walks of a shallow fetch\<close>

text \<open>The tips of the walk, and tags and other objects that are sent for themselves.\<close>

fun tip_loop :: "nat \<Rightarrow> hash_algo \<Rightarrow> reader \<Rightarrow> object_id \<Rightarrow> object_id list \<times> object_id set
    \<Rightarrow> (object_id list \<times> object_id set) result" where
  "tip_loop 0 a rd cur (tips, extra) = Ok (tips, extra)"
| "tip_loop (Suc n) a rd cur (tips, extra) =
     (case rd cur of
        Err e \<Rightarrow> if is_not_found e then Ok (tips, extra) else Err e
      | Ok (ty, pl) \<Rightarrow>
          (case ty of
             Commit \<Rightarrow> Ok (tips @ [cur], extra)
           | Tag \<Rightarrow> bind_res (tag_parse a pl) (\<lambda>t. tip_loop n a rd (t_object t) (tips, insert cur extra))
           | _ \<Rightarrow> Ok (tips, insert cur extra)))"

fun collect_tips :: "hash_algo \<Rightarrow> reader \<Rightarrow> object_id list \<Rightarrow> object_id list \<times> object_id set
    \<Rightarrow> (object_id list \<times> object_id set) result" where
  "collect_tips a rd [] st = Ok st"
| "collect_tips a rd (w # ws) st = bind_res (tip_loop 64 a rd w st) (collect_tips a rd ws)"

definition deeper :: "nat \<Rightarrow> nat \<Rightarrow> commit \<Rightarrow> (object_id \<times> nat) list" where
  "deeper depth d c = (if d < depth then map (\<lambda>p. (p, d + 1)) (c_parents c) else [])"

lemma deeper_less:
  assumes "\<not> reached_before best i d" and "read_commit a rd i = Ok (Some c)"
  shows "depth_room a depth (best(i \<mapsto> d)) (queue @ deeper depth d c) < depth_room a depth best ((i, d) # queue)"
  using read_commit_Some_known [OF assms(2)]
  by (intro depth_step_less [OF assms(1)]) (auto simp: deeper_def)

text \<open>The map \<open>best\<close>, with the set of its keys.\<close>

function depth_loop :: "hash_algo \<Rightarrow> reader \<Rightarrow> nat \<Rightarrow> object_id set \<times> (object_id \<rightharpoonup> nat) \<Rightarrow> (object_id \<times> nat) list
    \<Rightarrow> (object_id set \<times> (object_id \<rightharpoonup> nat)) result" where
  "depth_loop a rd depth (ks, best) [] = Ok (ks, best)"
| "depth_loop a rd depth (ks, best) ((i, d) # queue) =
     (if reached_before best i d then depth_loop a rd depth (ks, best) queue
      else bind_res (read_commit a rd i) (\<lambda>oc.
        case oc of
          None \<Rightarrow> depth_loop a rd depth (ks, best) queue
        | Some c \<Rightarrow> depth_loop a rd depth (insert i ks, best(i \<mapsto> d)) (queue @ deeper depth d c)))"
  by pat_completeness auto
termination
proof (relation "measures [\<lambda>(a, rd, depth, (ks, best), queue). depth_room a depth best queue,
      \<lambda>(a, rd, depth, (ks, best), queue). length queue]", goal_cases)
  case (2 a rd depth ks best i d queue)
  have "depth_room a depth best queue \<le> depth_room a depth best ((i, d) # queue)"
    by (rule depth_room_le) (auto simp: depth_bound_def)
  then show ?case by (auto simp: le_less)
next
  case (3 a rd depth ks best i d queue)
  have "depth_room a depth best queue \<le> depth_room a depth best ((i, d) # queue)"
    by (rule depth_room_le) (auto simp: depth_bound_def)
  then show ?case by (auto simp: le_less)
qed (auto intro!: disjI1 deeper_less)

text \<open>The included commits and those of them at the depth.\<close>

definition depth_walk :: "hash_algo \<Rightarrow> reader \<Rightarrow> object_id list \<Rightarrow> nat \<Rightarrow> (object_id set \<times> object_id set) result" where
  "depth_walk a rd tips depth =
     (let depth = max depth 1
      in bind_res (depth_loop a rd depth ({}, Map.empty) (map (\<lambda>t. (t, 1)) tips)) (\<lambda>(included, best).
           Ok (included, {i \<in> included. case best i of Some d \<Rightarrow> depth \<le> d | None \<Rightarrow> False})))"

text \<open>
  The walk over the included commits that \<open>walk_until\<close> and \<open>rev_list_walk\<close> share: a commit in \<open>skip\<close> or
  one that \<open>keep\<close> refuses is left out, and the walk does not go on behind a commit in \<open>stop\<close>. It
  collects the commits with their parents. The stack has its top at the head.
\<close>

function select_loop :: "hash_algo \<Rightarrow> reader \<Rightarrow> object_id set \<Rightarrow> (commit \<Rightarrow> bool) \<Rightarrow> object_id set
    \<Rightarrow> object_id set \<times> (object_id \<rightharpoonup> object_id list) \<Rightarrow> object_id list
    \<Rightarrow> (object_id set \<times> (object_id \<rightharpoonup> object_id list)) result" where
  "select_loop a rd skip keep stop (included, ps) [] = Ok (included, ps)"
| "select_loop a rd skip keep stop (included, ps) (i # stack) =
     (if i \<in> included \<or> i \<in> skip then select_loop a rd skip keep stop (included, ps) stack
      else bind_res (read_commit a rd i) (\<lambda>oc.
        case oc of
          None \<Rightarrow> select_loop a rd skip keep stop (included, ps) stack
        | Some c \<Rightarrow>
            if \<not> keep c then select_loop a rd skip keep stop (included, ps) stack
            else select_loop a rd skip keep stop (insert i included, ps(i \<mapsto> c_parents c))
              (if i \<in> stop then stack else rev (c_parents c) @ stack)))"
  by pat_completeness auto
termination
  by (relation "measures [\<lambda>(a, rd, sk, k, st, (inc, ps), stack). card ((set stack \<union> known_ids a) - inc),
      \<lambda>(a, rd, sk, k, st, (inc, ps), stack). length stack]")
    (use walk_room_skip in \<open>auto intro!: disjI1 walk_room_less dest!: read_commit_Some_known
      simp del: list.set(2) split: if_splits\<close>)

definition walk_until :: "hash_algo \<Rightarrow> reader \<Rightarrow> object_id list \<Rightarrow> object_id set \<Rightarrow> (object_id set \<times> object_id set) result" where
  "walk_until a rd tips stop =
     bind_res (select_loop a rd {} (\<lambda>c. True) stop ({}, Map.empty) (rev tips)) (\<lambda>(included, ps).
       Ok (included, included \<inter> stop))"

function ancestry_loop :: "hash_algo \<Rightarrow> reader \<Rightarrow> object_id set \<Rightarrow> object_id list \<Rightarrow> object_id set result" where
  "ancestry_loop a rd seen [] = Ok seen"
| "ancestry_loop a rd seen (i # stack) =
     (if i \<in> seen then ancestry_loop a rd seen stack
      else bind_res (read_commit a rd i) (\<lambda>oc.
             ancestry_loop a rd (insert i seen) (rev (parents_or_none oc) @ stack)))"
  by pat_completeness auto
termination
  by (relation "measures [\<lambda>(a, rd, seen, stack). card ((set stack \<union> known_ids a) - seen),
      \<lambda>(a, rd, seen, stack). length stack]")
    (use walk_room_skip in \<open>auto intro!: disjI1 walk_room_less dest!: read_commit_known simp del: list.set(2)\<close>)

definition commit_ancestry :: "hash_algo \<Rightarrow> reader \<Rightarrow> object_id list \<Rightarrow> object_id set result" where
  "commit_ancestry a rd roots = ancestry_loop a rd {} (rev roots)"

record ref_lookups =
  rl_resolve :: "bytes \<Rightarrow> object_id option"
  rl_tags :: "object_id list"

record deepen =
  dp_depth :: "nat option"
  dp_since :: "int option"
  dp_not :: "bytes list"
  dp_relative :: bool

fun not_roots :: "hash_algo \<Rightarrow> reader \<Rightarrow> ref_lookups \<Rightarrow> bytes list \<Rightarrow> object_id list result" where
  "not_roots a rd refs [] = Ok []"
| "not_roots a rd refs (name # names) =
     (case rl_resolve refs name of
        None \<Rightarrow> Err (Protocol ''deepen-not: {name} is not a ref'')
      | Some i \<Rightarrow>
          bind_res (peel_to_commit a rd i) (\<lambda>c.
          bind_res (not_roots a rd refs names) (\<lambda>rest. Ok (case c of Some j \<Rightarrow> j # rest | None \<Rightarrow> rest))))"

definition rev_list_walk :: "hash_algo \<Rightarrow> reader \<Rightarrow> ref_lookups \<Rightarrow> object_id list \<Rightarrow> deepen
    \<Rightarrow> (object_id set \<times> object_id set) result" where
  "rev_list_walk a rd refs tips dp =
     bind_res (not_roots a rd refs (dp_not dp)) (\<lambda>roots.
     bind_res (commit_ancestry a rd roots) (\<lambda>excluded.
     bind_res (select_loop a rd excluded
         (\<lambda>c. case dp_since dp of None \<Rightarrow> True | Some since \<Rightarrow> \<not> sig_time (c_committer c) < since)
         {} ({}, Map.empty) (rev tips)) (\<lambda>(included, ps).
       if included = {} then Err (Protocol ''no commits selected for shallow requests'')
       else Ok (included, {i \<in> included. \<exists>p\<in>set (case ps i of Some l \<Rightarrow> l | None \<Rightarrow> []). p \<notin> included}))))"

subsection \<open>The plan\<close>

definition deepen_active :: "deepen \<Rightarrow> bool" where
  "deepen_active dp \<longleftrightarrow> dp_depth dp \<noteq> None \<or> dp_since dp \<noteq> None \<or> dp_not dp \<noteq> []"

record fetch_want =
  w_wants :: "object_id list"
  w_haves :: "object_id list"
  w_client_shallow :: "object_id list"
  w_deepen :: deepen

record fetch_plan =
  pl_objects :: "object_id set"
  pl_client_has :: "object_id set"
  pl_shallow :: "object_id list"
  pl_unshallow :: "object_id list"

definition client_holds :: "hash_algo \<Rightarrow> reader \<Rightarrow> (object_id \<Rightarrow> bool) \<Rightarrow> fetch_want \<Rightarrow> object_id set result" where
  "client_holds a rd has req =
     (let client_shallow = set (w_client_shallow req); haves = filter has (w_haves req)
      in if client_shallow = {} then reachable_objects a rd haves
         else bind_res (shallow_objects_to_send a rd haves (2 ^ 32 - 1) client_shallow) (\<lambda>r.
                Ok {i \<in> sr_objects r. has i}))"

definition new_boundary :: "hash_algo \<Rightarrow> reader \<Rightarrow> (object_id \<Rightarrow> bool) \<Rightarrow> ref_lookups \<Rightarrow> fetch_want \<Rightarrow> object_id list
    \<Rightarrow> (object_id set \<times> object_id set) result" where
  "new_boundary a rd has refs req tips =
     (case dp_depth (w_deepen req) of
        Some depth \<Rightarrow>
          if dp_relative (w_deepen req) then
            let starts = filter has (sorted_list_of_set (set (w_client_shallow req)))
            in bind_res (depth_walk a rd starts (min (depth + 1) (2 ^ 32 - 1))) (\<lambda>(inc, boundary).
                 walk_until a rd tips boundary)
          else depth_walk a rd tips depth
      | None \<Rightarrow> rev_list_walk a rd refs tips (w_deepen req))"

fun tree_roots :: "hash_algo \<Rightarrow> reader \<Rightarrow> object_id list \<Rightarrow> object_id list result" where
  "tree_roots a rd [] = Ok []"
| "tree_roots a rd (c # cs) =
     bind_res (read_commit a rd c) (\<lambda>oc.
     bind_res (tree_roots a rd cs) (\<lambda>ts. Ok (case oc of Some cm \<Rightarrow> c_tree cm # ts | None \<Rightarrow> ts)))"

fun extra_objects :: "hash_algo \<Rightarrow> reader \<Rightarrow> object_id set \<Rightarrow> object_id list \<Rightarrow> object_id set result" where
  "extra_objects a rd client_has [] = Ok {}"
| "extra_objects a rd client_has (e # es) =
     (if e \<in> client_has then extra_objects a rd client_has es
      else bind_res (reachable_objects_excluding a rd [e] client_has) (\<lambda>os.
           bind_res (extra_objects a rd client_has es) (\<lambda>rest. Ok (os \<union> rest))))"

definition plan :: "hash_algo \<Rightarrow> reader \<Rightarrow> (object_id \<Rightarrow> bool) \<Rightarrow> ref_lookups \<Rightarrow> fetch_want \<Rightarrow> fetch_plan result" where
  "plan a rd has refs req =
     bind_res (client_holds a rd has req) (\<lambda>client_has.
     let asked = set (filter (\<lambda>w. w \<notin> set (w_haves req)) (w_wants req))
     in if \<not> deepen_active (w_deepen req) then
          bind_res (reachable_objects_excluding a rd (w_wants req) client_has) (\<lambda>os.
            Ok \<lparr>pl_objects = os \<union> asked, pl_client_has = client_has, pl_shallow = [], pl_unshallow = []\<rparr>)
        else
          bind_res (collect_tips a rd (w_wants req) ([], {})) (\<lambda>(tips, extra).
          bind_res (new_boundary a rd has refs req tips) (\<lambda>(included, boundary).
          bind_res (tree_roots a rd (sorted_list_of_set included)) (\<lambda>roots.
          bind_res (reachable_objects_excluding a rd roots client_has) (\<lambda>os.
          bind_res (extra_objects a rd client_has (sorted_list_of_set extra)) (\<lambda>more.
            Ok \<lparr>pl_objects = os \<union> (included - client_has) \<union> more \<union> asked, pl_client_has = client_has,
                pl_shallow = filter (\<lambda>c. c \<notin> set (w_client_shallow req)) (sorted_list_of_set boundary),
                pl_unshallow = filter (\<lambda>c. c \<in> included \<and> c \<notin> boundary) (w_client_shallow req)\<rparr>))))))"

text \<open>
  The chain of a tag, up to 64 tags, and the object behind it; an object that cannot be read ends the chain.
\<close>

fun tag_chain :: "nat \<Rightarrow> hash_algo \<Rightarrow> reader \<Rightarrow> object_id \<Rightarrow> (object_id list \<times> object_id) result" where
  "tag_chain 0 a rd cur = Ok ([], cur)"
| "tag_chain (Suc n) a rd cur =
     (case rd cur of
        Ok (Tag, pl) \<Rightarrow>
          bind_res (tag_parse a pl) (\<lambda>t.
          bind_res (tag_chain n a rd (t_object t)) (\<lambda>(chain, i). Ok (cur # chain, i)))
      | _ \<Rightarrow> Ok ([], cur))"

fun include_tags_loop :: "hash_algo \<Rightarrow> reader \<Rightarrow> object_id list \<Rightarrow> fetch_plan \<Rightarrow> fetch_plan result" where
  "include_tags_loop a rd [] p = Ok p"
| "include_tags_loop a rd (tag # tags) p =
     bind_res (tag_chain 64 a rd tag) (\<lambda>(chain, i).
       include_tags_loop a rd tags
         (if chain \<noteq> [] \<and> i \<in> pl_objects p
          then p\<lparr>pl_objects := pl_objects p \<union> {t \<in> set chain. t \<notin> pl_client_has p}\<rparr> else p))"

definition include_tags :: "hash_algo \<Rightarrow> reader \<Rightarrow> ref_lookups \<Rightarrow> fetch_plan \<Rightarrow> fetch_plan result" where
  "include_tags a rd refs p = include_tags_loop a rd (rl_tags refs) p"

section \<open>Lemmas\<close>

subsection \<open>Ancestry\<close>

lemma parents_of_read: "parents_of a rd i = bind_res (read_commit a rd i) (\<lambda>oc. Ok (parents_or_none oc))"
proof (cases "read_typed rd i Commit")
  case (Ok pl)
  then show ?thesis by (cases "commit_parse a pl") (simp_all add: parents_of_def read_commit_def parents_or_none_def)
qed (simp add: parents_of_def read_commit_def parents_or_none_def)

lemma parent_rel_read: "read_commit a rd i = Ok oc \<Longrightarrow> parent_rel a rd `` {i} = set (parents_or_none oc)"
  by (simp add: parents_of_read parent_rel_Image)

lemma finite_ancestors: "finite ((parent_rel a rd)\<^sup>* `` {s})"
proof -
  have "(parent_rel a rd)\<^sup>* `` {s} \<subseteq> insert s (known_ids a)"
  proof
    fix j assume "j \<in> (parent_rel a rd)\<^sup>* `` {s}"
    then have "(s, j) \<in> (parent_rel a rd)\<^sup>*" by simp
    then show "j \<in> insert s (known_ids a)"
      by (cases rule: rtrancl.cases) (auto simp: parent_rel_def dest!: parents_of_known)
  qed
  then show ?thesis using finite_known_ids finite_subset by blast
qed

lemma reaches_loop_spec:
  assumes "reaches_loop a rd T seen queue = Ok b"
    and "seen \<union> set queue \<subseteq> (parent_rel a rd)\<^sup>* `` {s}" and "s \<in> seen \<union> set queue" and "seen \<inter> T = {}"
    and "GIVE_UP_WALK_CAP < card seen \<or> parent_rel a rd `` seen \<subseteq> seen \<union> set queue"
  shows "if b then \<exists>t\<in>T. (s, t) \<in> (parent_rel a rd)\<^sup>*
    else GIVE_UP_WALK_CAP < card ((parent_rel a rd)\<^sup>* `` {s}) \<or> \<not> (\<exists>t\<in>T. (s, t) \<in> (parent_rel a rd)\<^sup>*)"
  using assms
proof (induction a rd T seen queue rule: reaches_loop.induct)
  case (1 a rd T seen)
  show ?case
  proof (cases "GIVE_UP_WALK_CAP < card seen")
    case True
    then have "GIVE_UP_WALK_CAP < card ((parent_rel a rd)\<^sup>* `` {s})"
      using card_mono [OF finite_ancestors, of seen a rd s] "1.prems"(2) by simp
    with "1.prems"(1) show ?thesis by auto
  next
    case False
    then have "(parent_rel a rd)\<^sup>* `` seen = seen" using "1.prems"(5) by (intro rtrancl_closed) simp
    with "1.prems"(1,3,4) show ?thesis by auto
  qed
next
  case (2 a rd T seen i queue)
  let ?R = "parent_rel a rd" and ?big = "\<lambda>S. GIVE_UP_WALK_CAP < card S"
  have fin: "finite seen" using "2.prems"(2) finite_subset [OF _ finite_ancestors [of a rd s], of seen] by blast
  consider (hit) "i \<in> T" | (old) "i \<notin> T" "i \<in> seen" | (cap) "i \<notin> T" "i \<notin> seen" "?big (insert i seen)"
    | (new) oc where "i \<notin> T" "i \<notin> seen" "\<not> ?big (insert i seen)" "read_commit a rd i = Ok oc"
        "reaches_loop a rd T (insert i seen) (queue @ parents_or_none oc) = Ok b"
    using "2.prems"(1) by (auto simp: bind_res_eq_Ok split: if_splits)
  then show ?case
  proof cases
    case hit
    with "2.prems"(1,2) show ?thesis by auto
  next
    case old
    with "2.prems" show ?thesis by (intro "2.IH"(1) [OF old(1)]) auto
  next
    case cap
    with "2.prems" show ?thesis by (intro "2.IH"(2) [OF cap]) auto
  next
    case new
    have r: "?R `` {i} = set (parents_or_none oc)" using new(4) by (rule parent_rel_read)
    have i: "(s, i) \<in> ?R\<^sup>*" using "2.prems"(2) by auto
    have "set (parents_or_none oc) \<subseteq> ?R\<^sup>* `` {s}" using i unfolding r [symmetric] by (auto intro: rtrancl_into_rtrancl)
    moreover have "?R `` seen \<subseteq> seen \<union> set (i # queue)"
      using "2.prems"(5) new(2,3) fin by auto
    ultimately show ?thesis using "2.prems"(2-4) new r by (intro "2.IH"(3) [OF new(1-4)]) auto
  qed
qed

lemma reaches_any_spec:
  assumes "reaches_any a rd s T = Ok b"
  shows "b \<Longrightarrow> \<exists>t\<in>T. (s, t) \<in> (parent_rel a rd)\<^sup>*"
    and "t \<in> T \<Longrightarrow> (s, t) \<in> (parent_rel a rd)\<^sup>* \<Longrightarrow> card ((parent_rel a rd)\<^sup>* `` {s}) \<le> GIVE_UP_WALK_CAP \<Longrightarrow> b"
  using reaches_loop_spec [of a rd T "{}" "[s]" b s] assms by (auto simp: reaches_any_def split: if_splits)

lemma wants_reach_spec:
  assumes "wants_reach a rd common wants = Ok b"
  shows "b \<Longrightarrow> w \<in> set wants \<Longrightarrow> peel_to_commit a rd w = Ok (Some c) \<Longrightarrow> \<exists>t\<in>common. (c, t) \<in> (parent_rel a rd)\<^sup>*"
    and "\<not> b \<Longrightarrow> \<exists>w\<in>set wants. \<exists>c. peel_to_commit a rd w = Ok (Some c)
      \<and> (GIVE_UP_WALK_CAP < card ((parent_rel a rd)\<^sup>* `` {c}) \<or> \<not> (\<exists>t\<in>common. (c, t) \<in> (parent_rel a rd)\<^sup>*))"
proof -
  have "(b \<longrightarrow> (\<forall>w\<in>set wants. \<forall>c. peel_to_commit a rd w = Ok (Some c) \<longrightarrow> (\<exists>t\<in>common. (c, t) \<in> (parent_rel a rd)\<^sup>*)))
    \<and> (\<not> b \<longrightarrow> (\<exists>w\<in>set wants. \<exists>c. peel_to_commit a rd w = Ok (Some c)
      \<and> (GIVE_UP_WALK_CAP < card ((parent_rel a rd)\<^sup>* `` {c}) \<or> \<not> (\<exists>t\<in>common. (c, t) \<in> (parent_rel a rd)\<^sup>*))))"
    using assms
  proof (induction wants)
    case (Cons w ws)
    then obtain oc where oc: "peel_to_commit a rd w = Ok oc" by (auto simp: bind_res_eq_Ok)
    show ?case
    proof (cases oc)
      case None
      with Cons oc show ?thesis by auto
    next
      case (Some s)
      with Cons.prems oc obtain r where r: "reaches_any a rd s common = Ok r"
          "(if r then wants_reach a rd common ws else Ok False) = Ok b" by (auto simp: bind_res_eq_Ok)
      from reaches_any_spec [OF r(1)] Cons.IH r(2) oc Some show ?thesis
        by (cases r) (auto simp: not_less [symmetric])
    qed
  qed simp
  then show "b \<Longrightarrow> w \<in> set wants \<Longrightarrow> peel_to_commit a rd w = Ok (Some c) \<Longrightarrow> \<exists>t\<in>common. (c, t) \<in> (parent_rel a rd)\<^sup>*"
    and "\<not> b \<Longrightarrow> \<exists>w\<in>set wants. \<exists>c. peel_to_commit a rd w = Ok (Some c)
      \<and> (GIVE_UP_WALK_CAP < card ((parent_rel a rd)\<^sup>* `` {c}) \<or> \<not> (\<exists>t\<in>common. (c, t) \<in> (parent_rel a rd)\<^sup>*))"
    by blast+
qed

lemma ancestry_loop_spec:
  assumes "ancestry_loop a rd seen stack = Ok S" and "parent_rel a rd `` seen \<subseteq> seen \<union> set stack"
  shows "S = (parent_rel a rd)\<^sup>* `` (seen \<union> set stack)"
  using assms
proof (induction a rd seen stack rule: ancestry_loop.induct)
  case (1 a rd seen)
  then show ?case by (simp add: rtrancl_closed)
next
  case (2 a rd seen i stack)
  show ?case
  proof (cases "i \<in> seen")
    case True
    then have "seen \<union> set (i # stack) = seen \<union> set stack" by auto
    with 2 True show ?thesis by simp
  next
    case False
    with "2.prems"(1) obtain oc where oc: "read_commit a rd i = Ok oc"
        "ancestry_loop a rd (insert i seen) (rev (parents_or_none oc) @ stack) = Ok S" by (auto simp: bind_res_eq_Ok)
    note r = parent_rel_read [OF oc(1)]
    have "S = (parent_rel a rd)\<^sup>* `` (insert i seen \<union> set (rev (parents_or_none oc) @ stack))"
      using "2.prems"(2) r by (intro "2.IH"(2) [OF False oc]) auto
    moreover have "insert i seen \<union> set (rev (parents_or_none oc) @ stack)
        = (seen \<union> set (i # stack)) \<union> set (parents_or_none oc)" by auto
    ultimately show ?thesis
      using rtrancl_add_step [of i "seen \<union> set (i # stack)" "set (parents_or_none oc)" "parent_rel a rd"] r by simp
  qed
qed

lemma commit_ancestry_spec: "commit_ancestry a rd roots = Ok S \<Longrightarrow> S = (parent_rel a rd)\<^sup>* `` set roots"
  using ancestry_loop_spec [of a rd "{}" "rev roots" S] by (simp add: commit_ancestry_def)

subsection \<open>The walks of a shallow fetch\<close>

text \<open>Commits that can be read, the steps from one to another, and the distance from the tips.\<close>

definition is_commit :: "hash_algo \<Rightarrow> reader \<Rightarrow> object_id \<Rightarrow> bool" where
  "is_commit a rd i \<longleftrightarrow> (\<exists>c. read_commit a rd i = Ok (Some c))"

definition commit_step :: "hash_algo \<Rightarrow> reader \<Rightarrow> (object_id \<times> object_id) set" where
  "commit_step a rd = {(i, j). \<exists>c. read_commit a rd i = Ok (Some c) \<and> j \<in> set (c_parents c) \<and> is_commit a rd j}"

definition at_distance :: "hash_algo \<Rightarrow> reader \<Rightarrow> object_id list \<Rightarrow> object_id \<Rightarrow> nat \<Rightarrow> bool" where
  "at_distance a rd tips i n \<longleftrightarrow> (\<exists>t\<in>set tips. is_commit a rd t \<and> (t, i) \<in> commit_step a rd ^^ n)"

lemma at_distance_0: "at_distance a rd tips i 0 \<longleftrightarrow> i \<in> set tips \<and> is_commit a rd i"
  by (auto simp: at_distance_def)

lemma at_distance_Suc: "at_distance a rd tips j (Suc n) \<longleftrightarrow> (\<exists>i. at_distance a rd tips i n \<and> (i, j) \<in> commit_step a rd)"
  by (auto simp: at_distance_def)

definition near_enough :: "(object_id \<rightharpoonup> nat) \<Rightarrow> (object_id \<times> nat) list \<Rightarrow> object_id \<Rightarrow> nat \<Rightarrow> bool" where
  "near_enough best queue i d \<longleftrightarrow> (\<exists>b\<le>d. best i = Some b) \<or> (\<exists>e\<le>d. (i, e) \<in> set queue)"

definition depth_inv :: "hash_algo \<Rightarrow> reader \<Rightarrow> nat \<Rightarrow> object_id list \<Rightarrow> (object_id \<rightharpoonup> nat) \<Rightarrow> (object_id \<times> nat) list \<Rightarrow> bool" where
  "depth_inv a rd depth tips best queue \<longleftrightarrow>
     (\<forall>i d. best i = Some d \<longrightarrow> 1 \<le> d \<and> d \<le> depth \<and> at_distance a rd tips i (d - 1))
     \<and> (\<forall>(i, d)\<in>set queue. 1 \<le> d \<and> d \<le> depth \<and> (is_commit a rd i \<longrightarrow> at_distance a rd tips i (d - 1)))
     \<and> (\<forall>t\<in>set tips. is_commit a rd t \<longrightarrow> near_enough best queue t 1)
     \<and> (\<forall>i b j. best i = Some b \<and> b < depth \<and> (i, j) \<in> commit_step a rd \<longrightarrow> near_enough best queue j (b + 1))"

lemma depth_invD:
  assumes "depth_inv a rd depth tips best queue"
  shows "best i = Some d \<Longrightarrow> 1 \<le> d \<and> d \<le> depth \<and> at_distance a rd tips i (d - 1)"
    and "(i, d) \<in> set queue \<Longrightarrow> 1 \<le> d \<and> d \<le> depth \<and> (is_commit a rd i \<longrightarrow> at_distance a rd tips i (d - 1))"
    and "t \<in> set tips \<Longrightarrow> is_commit a rd t \<Longrightarrow> near_enough best queue t 1"
    and "best i = Some b \<Longrightarrow> b < depth \<Longrightarrow> (i, j) \<in> commit_step a rd \<Longrightarrow> near_enough best queue j (b + 1)"
  using assms unfolding depth_inv_def by blast+

lemma near_enough_skip:
  assumes "near_enough best ((i, d) # queue) j e" and "is_commit a rd j" and "is_commit a rd i \<Longrightarrow> reached_before best i d"
  shows "near_enough best queue j e"
  using assms by (fastforce simp: near_enough_def reached_before_def split: option.splits)

lemma near_enough_visit:
  assumes "near_enough best ((i, d) # queue) j e" and "\<not> reached_before best i d"
  shows "near_enough (best(i \<mapsto> d)) (queue @ nx) j e"
  using assms by (fastforce simp: near_enough_def reached_before_def split: option.splits)

lemma commit_step_commit: "(i, j) \<in> commit_step a rd \<Longrightarrow> is_commit a rd j"
  by (auto simp: commit_step_def)

lemma depth_inv_skip:
  assumes "depth_inv a rd depth tips best ((i, d) # queue)" and "is_commit a rd i \<Longrightarrow> reached_before best i d"
  shows "depth_inv a rd depth tips best queue"
  unfolding depth_inv_def
proof (intro conjI allI ballI impI)
  note I = depth_invD [OF assms(1)]
  show "\<And>x. x \<in> set queue \<Longrightarrow> case x of (i, d) \<Rightarrow> 1 \<le> d \<and> d \<le> depth \<and> (is_commit a rd i \<longrightarrow> at_distance a rd tips i (d - 1))"
    using I(2) by auto
  show "\<And>t. t \<in> set tips \<Longrightarrow> is_commit a rd t \<Longrightarrow> near_enough best queue t 1"
    using near_enough_skip [OF I(3) _ assms(2)] by blast
  show "near_enough best queue k (b + 1)" if "best j = Some b \<and> b < depth \<and> (j, k) \<in> commit_step a rd" for j b k
    using near_enough_skip [OF I(4) _ assms(2)] commit_step_commit that by blast
qed (use depth_invD(1) [OF assms(1)] in blast)+

lemma depth_inv_visit:
  assumes "depth_inv a rd depth tips best ((i, d) # queue)" and "\<not> reached_before best i d"
    and "read_commit a rd i = Ok (Some c)"
  shows "depth_inv a rd depth tips (best(i \<mapsto> d)) (queue @ deeper depth d c)"
proof -
  note I = depth_invD [OF assms(1)]
  have com: "is_commit a rd i" using assms(3) by (auto simp: is_commit_def)
  have i: "1 \<le> d" "d \<le> depth" "at_distance a rd tips i (d - 1)" using I(2) [of i d] com by auto
  have step: "(i, j) \<in> commit_step a rd \<longleftrightarrow> j \<in> set (c_parents c) \<and> is_commit a rd j" for j
    using assms(3) by (auto simp: commit_step_def)
  have new: "1 \<le> e \<and> e \<le> depth \<and> (is_commit a rd j \<longrightarrow> at_distance a rd tips j (e - 1))" if "(j, e) \<in> set (deeper depth d c)" for j e
  proof -
    have j: "e = d + 1" "d < depth" "j \<in> set (c_parents c)" using that by (auto simp: deeper_def split: if_splits)
    then have "is_commit a rd j \<longrightarrow> at_distance a rd tips j (Suc (d - 1))"
      using i(3) step at_distance_Suc by blast
    with j i(1) show ?thesis by simp
  qed
  have succ: "near_enough (best(i \<mapsto> d)) (queue @ deeper depth d c) k (b + 1)"
    if "(best(i \<mapsto> d)) j = Some b" "b < depth" "(j, k) \<in> commit_step a rd" for j b k
  proof (cases "j = i")
    case True
    with that have "(k, b + 1) \<in> set (deeper depth d c)" using step by (auto simp: deeper_def)
    then show ?thesis by (auto simp: near_enough_def)
  next
    case False
    with that near_enough_visit [OF I(4) assms(2)] show ?thesis by simp
  qed
  show ?thesis
    unfolding depth_inv_def
  proof (intro conjI allI ballI impI)
    show "\<And>x. x \<in> set (queue @ deeper depth d c) \<Longrightarrow>
        case x of (i, d) \<Rightarrow> 1 \<le> d \<and> d \<le> depth \<and> (is_commit a rd i \<longrightarrow> at_distance a rd tips i (d - 1))"
      using I(2) new by auto
    show "\<And>t. t \<in> set tips \<Longrightarrow> is_commit a rd t \<Longrightarrow> near_enough (best(i \<mapsto> d)) (queue @ deeper depth d c) t 1"
      using near_enough_visit [OF I(3) assms(2)] by blast
    show "near_enough (best(i \<mapsto> d)) (queue @ deeper depth d c) k (b + 1)"
      if "(best(i \<mapsto> d)) j = Some b \<and> b < depth \<and> (j, k) \<in> commit_step a rd" for j b k
      using succ that by blast
  qed (use I(1) i in \<open>auto split: if_splits\<close>)
qed

lemma depth_loop_inv:
  "depth_loop a rd depth st queue = Ok st' \<Longrightarrow> depth_inv a rd depth tips (snd st) queue \<and> fst st = dom (snd st) \<Longrightarrow>
    depth_inv a rd depth tips (snd st') [] \<and> fst st' = dom (snd st')"
proof (induction a rd depth st queue rule: depth_loop.induct)
  case (2 a rd depth ks best i d queue)
  have inv: "depth_inv a rd depth tips best ((i, d) # queue)" and ks: "ks = dom best" using "2.prems"(2) by simp_all
  show ?case
  proof (cases "reached_before best i d")
    case True
    with depth_inv_skip [OF inv] have "depth_inv a rd depth tips best queue" by blast
    with "2.prems"(1) True ks show ?thesis by (intro "2.IH"(1)) simp_all
  next
    case False
    with "2.prems"(1) obtain oc where oc: "read_commit a rd i = Ok oc"
        "(case oc of None \<Rightarrow> depth_loop a rd depth (ks, best) queue
          | Some c \<Rightarrow> depth_loop a rd depth (insert i ks, best(i \<mapsto> d)) (queue @ deeper depth d c)) = Ok st'"
      by (auto simp: bind_res_eq_Ok)
    show ?thesis
    proof (cases oc)
      case None
      with oc(1) have "\<not> is_commit a rd i" by (simp add: is_commit_def)
      with depth_inv_skip [OF inv] have "depth_inv a rd depth tips best queue" by blast
      with None oc(2) ks show ?thesis by (intro "2.IH"(2) [OF False oc(1) None]) simp_all
    next
      case (Some c)
      with oc(1) have "depth_inv a rd depth tips (best(i \<mapsto> d)) (queue @ deeper depth d c)"
        by (intro depth_inv_visit [OF inv False]) simp
      with Some oc(2) ks show ?thesis by (intro "2.IH"(3) [OF False oc(1) Some]) (simp_all add: fun_upd_def [symmetric])
    qed
  qed
qed simp

lemma depth_inv_end:
  assumes "depth_inv a rd depth tips best []"
  shows "at_distance a rd tips i n \<Longrightarrow> n < depth \<Longrightarrow> \<exists>b\<le>n + 1. best i = Some b"
proof (induction n arbitrary: i)
  case 0
  then show ?case using depth_invD(3) [OF assms, of i] by (auto simp: at_distance_0 near_enough_def)
next
  case (Suc n)
  then obtain j where j: "at_distance a rd tips j n" "(j, i) \<in> commit_step a rd" by (auto simp: at_distance_Suc)
  with Suc obtain b where b: "b \<le> n + 1" "best j = Some b" by fastforce
  with Suc.prems(2) depth_invD(4) [OF assms b(2) _ j(2)] show ?case by (fastforce simp: near_enough_def)
qed

lemma depth_walk_spec:
  assumes "depth_walk a rd tips depth = Ok (included, boundary)"
  shows "included = {i. \<exists>n<max depth 1. at_distance a rd tips i n}"
    and "boundary = {i \<in> included. \<not> (\<exists>n<max depth 1 - 1. at_distance a rd tips i n)}"
proof -
  let ?D = "max depth 1"
  obtain best where l: "depth_loop a rd ?D ({}, Map.empty) (map (\<lambda>t. (t, 1)) tips) = Ok (included, best)"
      "boundary = {i \<in> included. case best i of Some d \<Rightarrow> ?D \<le> d | None \<Rightarrow> False}"
    using assms unfolding depth_walk_def Let_def by (fastforce simp: bind_res_eq_Ok)
  have "depth_inv a rd ?D tips Map.empty (map (\<lambda>t. (t, 1)) tips)"
    by (auto simp: depth_inv_def near_enough_def at_distance_0)
  then have inv: "depth_inv a rd ?D tips best []" and inc: "included = dom best"
    using depth_loop_inv [OF l(1), of tips] by simp_all
  note best = l(1) inc
  have bnd: "boundary = {i. \<exists>d. best i = Some d \<and> ?D \<le> d}"
    unfolding l(2) inc by (auto split: option.splits)
  note I = depth_invD [OF inv] and E = depth_inv_end [OF inv]
  show inc: "included = {i. \<exists>n<?D. at_distance a rd tips i n}"
  proof (intro set_eqI iffI)
    fix i assume "i \<in> included"
    then obtain d where "best i = Some d" by (auto simp: best(2))
    from I(1) [OF this] show "i \<in> {i. \<exists>n<?D. at_distance a rd tips i n}" by (auto intro!: exI [of _ "d - 1"])
  qed (use E best(2) in blast)
  have "(\<exists>d. best i = Some d \<and> ?D \<le> d) \<longleftrightarrow> i \<in> included \<and> \<not> (\<exists>n<?D - 1. at_distance a rd tips i n)" for i
  proof (cases "best i")
    case (Some d)
    note d = I(1) [OF Some]
    have "?D \<le> d \<longleftrightarrow> \<not> (\<exists>n<?D - 1. at_distance a rd tips i n)"
    proof
      assume D: "?D \<le> d"
      show "\<not> (\<exists>n<?D - 1. at_distance a rd tips i n)"
      proof
        assume "\<exists>n<?D - 1. at_distance a rd tips i n"
        then obtain n where n: "n < ?D - 1" "at_distance a rd tips i n" by blast
        moreover from n(1) have "n < ?D" by linarith
        ultimately obtain b where "b \<le> n + 1" "best i = Some b" using E [of i n] by blast
        with Some D n(1) show False by simp
      qed
    next
      assume "\<not> (\<exists>n<?D - 1. at_distance a rd tips i n)"
      with d show "?D \<le> d" by (metis diff_less_mono leI)
    qed
    with Some best(2) show ?thesis by auto
  qed (simp add: best(2) domIff)
  then show "boundary = {i \<in> included. \<not> (\<exists>n<?D - 1. at_distance a rd tips i n)}" by (auto simp: bnd)
qed

text \<open>The commits that a walk takes, and its steps.\<close>

definition chosen :: "hash_algo \<Rightarrow> reader \<Rightarrow> object_id set \<Rightarrow> (commit \<Rightarrow> bool) \<Rightarrow> object_id set" where
  "chosen a rd skip keep = {i. i \<notin> skip \<and> (\<exists>c. read_commit a rd i = Ok (Some c) \<and> keep c)}"

definition chosen_step :: "hash_algo \<Rightarrow> reader \<Rightarrow> object_id set \<Rightarrow> (commit \<Rightarrow> bool) \<Rightarrow> object_id set \<Rightarrow> (object_id \<times> object_id) set" where
  "chosen_step a rd skip keep stop =
     {(i, j). i \<in> chosen a rd skip keep - stop \<and> j \<in> chosen a rd skip keep \<and> (i, j) \<in> parent_rel a rd}"

definition selected :: "hash_algo \<Rightarrow> reader \<Rightarrow> object_id set \<Rightarrow> (commit \<Rightarrow> bool) \<Rightarrow> object_id set \<Rightarrow> object_id list \<Rightarrow> object_id set" where
  "selected a rd skip keep stop tips =
     (chosen_step a rd skip keep stop)\<^sup>* `` (set tips \<inter> chosen a rd skip keep)"

lemma chosen_step_Image:
  "read_commit a rd i = Ok (Some c) \<Longrightarrow> keep c \<Longrightarrow> i \<notin> skip \<Longrightarrow>
     chosen_step a rd skip keep stop `` {i} = (if i \<in> stop then {} else set (c_parents c) \<inter> chosen a rd skip keep)"
  using parent_rel_read [of a rd i "Some c"] by (auto simp: chosen_step_def chosen_def parents_or_none_def)

definition parents_known :: "hash_algo \<Rightarrow> reader \<Rightarrow> object_id set \<times> (object_id \<rightharpoonup> object_id list) \<Rightarrow> bool" where
  "parents_known a rd st \<longleftrightarrow> (\<forall>i\<in>fst st. \<exists>l. snd st i = Some l \<and> parents_of a rd i = Ok l)"

lemma select_loop_spec:
  "select_loop a rd skip keep stop st stack = Ok st' \<Longrightarrow> fst st \<subseteq> chosen a rd skip keep \<Longrightarrow>
    chosen_step a rd skip keep stop `` fst st \<subseteq> fst st \<union> set stack \<Longrightarrow> parents_known a rd st \<Longrightarrow>
    fst st' = (chosen_step a rd skip keep stop)\<^sup>* `` (fst st \<union> (set stack \<inter> chosen a rd skip keep))
      \<and> parents_known a rd st'"
proof (induction a rd skip keep stop st stack rule: select_loop.induct)
  case (1 a rd skip keep stop inc ps)
  then show ?case by (auto simp: rtrancl_closed)
next
  case (2 a rd skip keep stop inc ps i stack)
  let ?C = "chosen a rd skip keep" and ?R = "chosen_step a rd skip keep stop"
  have drop: "fst st' = ?R\<^sup>* `` (fst (inc, ps) \<union> (set (i # stack) \<inter> ?C)) \<and> parents_known a rd st'"
    if "fst st' = ?R\<^sup>* `` (fst (inc, ps) \<union> (set stack \<inter> ?C)) \<and> parents_known a rd st'" "i \<in> inc \<or> i \<notin> ?C"
  proof -
    have "inc \<union> (set (i # stack) \<inter> ?C) = inc \<union> (set stack \<inter> ?C)" using that(2) by auto
    with that(1) show ?thesis by simp
  qed
  have same: "?R `` fst (inc, ps) \<subseteq> fst (inc, ps) \<union> set stack" if "i \<in> inc \<or> i \<notin> ?C"
    using "2.prems"(3) that by (auto simp: chosen_step_def)
  show ?case
  proof (cases "i \<in> inc \<or> i \<in> skip")
    case True
    then have out: "i \<in> inc \<or> i \<notin> ?C" by (auto simp: chosen_def)
    have "select_loop a rd skip keep stop (inc, ps) stack = Ok st'" using "2.prems"(1) True by simp
    from drop [OF "2.IH"(1) [OF True this "2.prems"(2) same [OF out] "2.prems"(4)] out] show ?thesis .
  next
    case False
    with "2.prems"(1) obtain oc where oc: "read_commit a rd i = Ok oc"
        "(case oc of None \<Rightarrow> select_loop a rd skip keep stop (inc, ps) stack
          | Some c \<Rightarrow> if \<not> keep c then select_loop a rd skip keep stop (inc, ps) stack
              else select_loop a rd skip keep stop (insert i inc, ps(i \<mapsto> c_parents c))
                (if i \<in> stop then stack else rev (c_parents c) @ stack)) = Ok st'"
      by (auto simp: bind_res_eq_Ok)
    show ?thesis
    proof (cases oc)
      case None
      then have out: "i \<in> inc \<or> i \<notin> ?C" using oc(1) by (auto simp: chosen_def)
      have "select_loop a rd skip keep stop (inc, ps) stack = Ok st'" using oc(2) None by simp
      from drop [OF "2.IH"(2) [OF False oc(1) None this "2.prems"(2) same [OF out] "2.prems"(4)] out] show ?thesis .
    next
      case (Some c)
      show ?thesis
      proof (cases "keep c")
        case False2: False
        then have out: "i \<in> inc \<or> i \<notin> ?C" using oc(1) Some by (auto simp: chosen_def)
        have "select_loop a rd skip keep stop (inc, ps) stack = Ok st'" using oc(2) Some False2 by simp
        from drop [OF "2.IH"(3) [OF False oc(1) Some False2 this "2.prems"(2) same [OF out] "2.prems"(4)] out] show ?thesis .
      next
        case True
        let ?stack = "if i \<in> stop then stack else rev (c_parents c) @ stack"
        have r: "?R `` {i} = (if i \<in> stop then {} else set (c_parents c) \<inter> ?C)"
          using chosen_step_Image [of a rd i c keep skip stop] oc(1) Some True False by simp
        have i: "i \<in> ?C" using oc(1) Some True False by (auto simp: chosen_def)
        have par: "parents_of a rd i = Ok (c_parents c)" using oc(1) Some by (simp add: parents_of_read parents_or_none_def)
        have l: "select_loop a rd skip keep stop (insert i inc, ps(i \<mapsto> c_parents c)) ?stack = Ok st'"
          using oc(2) Some True by simp
        have p1: "fst (insert i inc, ps(i \<mapsto> c_parents c)) \<subseteq> ?C" using "2.prems"(2) i by simp
        have p2: "?R `` fst (insert i inc, ps(i \<mapsto> c_parents c)) \<subseteq> fst (insert i inc, ps(i \<mapsto> c_parents c)) \<union> set ?stack"
        proof -
          have "?R `` insert i inc = ?R `` {i} \<union> ?R `` inc" by auto
          with r "2.prems"(3) show ?thesis by (auto split: if_splits)
        qed
        have p3: "parents_known a rd (insert i inc, ps(i \<mapsto> c_parents c))"
          using "2.prems"(4) par by (auto simp: parents_known_def)
        have eq: "fst (insert i inc, ps(i \<mapsto> c_parents c)) \<union> (set ?stack \<inter> ?C)
            = (fst (inc, ps) \<union> (set (i # stack) \<inter> ?C)) \<union> ?R `` {i}" using i r by auto
        have "?R\<^sup>* `` ((fst (inc, ps) \<union> (set (i # stack) \<inter> ?C)) \<union> ?R `` {i}) = ?R\<^sup>* `` (fst (inc, ps) \<union> (set (i # stack) \<inter> ?C))"
          by (rule rtrancl_add_step [of i]) (use i in auto)
        with "2.IH"(4) [OF False oc(1) Some _ l p1 p2 p3] True show ?thesis unfolding eq by simp
      qed
    qed
  qed
qed

lemma select_start:
  assumes "select_loop a rd skip keep stop ({}, Map.empty) (rev tips) = Ok (included, ps)"
  shows "included = selected a rd skip keep stop tips" "i \<in> included \<Longrightarrow> \<exists>l. ps i = Some l \<and> parents_of a rd i = Ok l"
  using select_loop_spec [OF assms] by (auto simp: selected_def parents_known_def)

lemma walk_until_spec:
  assumes "walk_until a rd tips stop = Ok (included, boundary)"
  shows "included = selected a rd {} (\<lambda>c. True) stop tips" "boundary = included \<inter> stop"
  using assms by (auto simp: walk_until_def bind_res_eq_Ok dest: select_start)

lemma tip_loop_peel:
  "tip_loop n a rd cur (tips, extra) = Ok (tips', extra') \<Longrightarrow>
    \<exists>r. peel_loop n a rd cur = Ok r \<and> set tips' = set tips \<union> set_option r"
  by (induction n arbitrary: cur extra)
    (fastforce simp: bind_res_eq_Ok split: result.splits if_splits prod.splits object_type.splits)+

lemma collect_tips_peel:
  "collect_tips a rd ws (tips, extra) = Ok (tips', extra') \<Longrightarrow>
    set tips' = set tips \<union> {c. \<exists>w\<in>set ws. peel_to_commit a rd w = Ok (Some c)}"
proof (induction ws arbitrary: tips extra)
  case (Cons w ws)
  then obtain tips1 extra1 where t: "tip_loop 64 a rd w (tips, extra) = Ok (tips1, extra1)"
      "collect_tips a rd ws (tips1, extra1) = Ok (tips', extra')" by (auto simp: bind_res_eq_Ok)
  obtain r where "peel_to_commit a rd w = Ok r" "set tips1 = set tips \<union> set_option r"
    using tip_loop_peel [OF t(1)] by (auto simp: peel_to_commit_def)
  with Cons.IH [OF t(2)] show ?case by (cases r) auto
qed simp

subsection \<open>The plan\<close>

text \<open>
  What a fetch that moves the shallow boundary selects: the commits closer to the tips than the
  depth; or the history of the tips down to the commits so much deeper than the old boundary; or
  the history that is young enough and not behind the excluded references. And its boundary.
\<close>

definition within :: "hash_algo \<Rightarrow> reader \<Rightarrow> object_id list \<Rightarrow> nat \<Rightarrow> object_id set" where
  "within a rd tips D = {i. \<exists>n<D. at_distance a rd tips i n}"

definition frontier :: "hash_algo \<Rightarrow> reader \<Rightarrow> object_id list \<Rightarrow> nat \<Rightarrow> object_id set" where
  "frontier a rd tips D = within a rd tips D - within a rd tips (D - 1)"

definition young :: "deepen \<Rightarrow> commit \<Rightarrow> bool" where
  "young dp c \<longleftrightarrow> (case dp_since dp of None \<Rightarrow> True | Some since \<Rightarrow> since \<le> sig_time (c_committer c))"

definition shallow_selection :: "hash_algo \<Rightarrow> reader \<Rightarrow> (object_id \<Rightarrow> bool) \<Rightarrow> ref_lookups \<Rightarrow> fetch_want \<Rightarrow> object_id list
    \<Rightarrow> object_id set \<Rightarrow> object_id set \<Rightarrow> bool" where
  "shallow_selection a rd has refs req tips inc bnd \<longleftrightarrow>
     (case dp_depth (w_deepen req) of
        Some d \<Rightarrow>
          if dp_relative (w_deepen req) then
            (let cut = frontier a rd (filter has (sorted_list_of_set (set (w_client_shallow req)))) (min (d + 1) (2 ^ 32 - 1))
             in inc = selected a rd {} (\<lambda>c. True) cut tips \<and> bnd = inc \<inter> cut)
          else inc = within a rd tips (max d 1) \<and> bnd = frontier a rd tips (max d 1)
      | None \<Rightarrow>
          (\<exists>roots. not_roots a rd refs (dp_not (w_deepen req)) = Ok roots \<and> inc \<noteq> {}
             \<and> inc = selected a rd ((parent_rel a rd)\<^sup>* `` set roots) (young (w_deepen req)) {} tips
             \<and> bnd = {i \<in> inc. \<exists>j. (i, j) \<in> parent_rel a rd \<and> j \<notin> inc}))"

lemma depth_walk_within:
  assumes "depth_walk a rd tips depth = Ok (included, boundary)"
  shows "included = within a rd tips (max depth 1)" "boundary = frontier a rd tips (max depth 1)"
  using depth_walk_spec [OF assms] by (auto simp: within_def frontier_def)

lemma rev_list_walk_spec:
  assumes "rev_list_walk a rd refs tips dp = Ok (inc, bnd)"
  shows "\<exists>roots. not_roots a rd refs (dp_not dp) = Ok roots \<and> inc \<noteq> {}
     \<and> inc = selected a rd ((parent_rel a rd)\<^sup>* `` set roots) (young dp) {} tips
     \<and> bnd = {i \<in> inc. \<exists>j. (i, j) \<in> parent_rel a rd \<and> j \<notin> inc}"
proof -
  have y: "(\<lambda>c. case dp_since dp of None \<Rightarrow> True | Some since \<Rightarrow> \<not> sig_time (c_committer c) < since) = young dp"
    by (auto simp: young_def not_less split: option.split)
  obtain roots X ps where r: "not_roots a rd refs (dp_not dp) = Ok roots" "commit_ancestry a rd roots = Ok X"
      "select_loop a rd X (young dp) {} ({}, Map.empty) (rev tips) = Ok (inc, ps)" "inc \<noteq> {}"
      "bnd = {i \<in> inc. \<exists>p\<in>set (case ps i of Some l \<Rightarrow> l | None \<Rightarrow> []). p \<notin> inc}"
    using assms unfolding rev_list_walk_def y by (auto simp: bind_res_eq_Ok split: if_splits)
  note sel = select_start [OF r(3)]
  have "bnd = {i \<in> inc. \<exists>j. (i, j) \<in> parent_rel a rd \<and> j \<notin> inc}"
  proof -
    have "(\<exists>p\<in>set (case ps i of Some l \<Rightarrow> l | None \<Rightarrow> []). p \<notin> inc) \<longleftrightarrow> (\<exists>j. (i, j) \<in> parent_rel a rd \<and> j \<notin> inc)"
      if "i \<in> inc" for i using sel(2) [OF that] by (auto simp: parent_rel_def)
    then show ?thesis unfolding r(5) by blast
  qed
  with r commit_ancestry_spec [OF r(2)] sel(1) show ?thesis by blast
qed

lemma new_boundary_spec:
  assumes "new_boundary a rd has refs req tips = Ok (inc, bnd)"
  shows "shallow_selection a rd has refs req tips inc bnd"
proof (cases "dp_depth (w_deepen req)")
  case None
  with assms rev_list_walk_spec [of a rd refs tips "w_deepen req" inc bnd] show ?thesis
    by (simp add: new_boundary_def shallow_selection_def)
next
  case (Some d)
  show ?thesis
  proof (cases "dp_relative (w_deepen req)")
    case False
    with Some assms depth_walk_within [of a rd tips d inc bnd] show ?thesis
      by (simp add: new_boundary_def shallow_selection_def)
  next
    case True
    let ?starts = "filter has (sorted_list_of_set (set (w_client_shallow req)))" and ?d = "min (d + 1) (2 ^ 32 - 1)"
    obtain i0 b0 where w: "depth_walk a rd ?starts ?d = Ok (i0, b0)" "walk_until a rd tips b0 = Ok (inc, bnd)"
      using assms Some True by (auto simp: new_boundary_def bind_res_eq_Ok Let_def)
    have "max ?d 1 = ?d" by simp
    with depth_walk_within(2) [OF w(1)] walk_until_spec [OF w(2)] Some True show ?thesis
      by (simp add: shallow_selection_def Let_def)
  qed
qed

text \<open>Whatever the selection, the parents of a commit that is not on the boundary are selected.\<close>

lemma within_parent:
  assumes "i \<in> within a rd tips D" and "i \<notin> frontier a rd tips D" and "(i, j) \<in> commit_step a rd"
  shows "j \<in> within a rd tips D"
proof -
  obtain n where n: "n < D - 1" "at_distance a rd tips i n" using assms(1,2) by (auto simp: within_def frontier_def)
  then have "at_distance a rd tips j (Suc n)" using assms(3) by (auto simp: at_distance_Suc)
  moreover have "Suc n < D" using n(1) by linarith
  ultimately show ?thesis by (auto simp: within_def)
qed

lemma commit_step_parent: "(i, j) \<in> parent_rel a rd \<Longrightarrow> is_commit a rd j \<Longrightarrow> (i, j) \<in> commit_step a rd"
proof -
  assume "(i, j) \<in> parent_rel a rd" and j: "is_commit a rd j"
  then obtain oc where oc: "read_commit a rd i = Ok oc" "j \<in> set (parents_or_none oc)"
    by (auto simp: parent_rel_def parents_of_read bind_res_eq_Ok)
  with j show ?thesis by (cases oc) (auto simp: commit_step_def parents_or_none_def)
qed

lemma selected_parent:
  assumes "i \<in> selected a rd {} (\<lambda>c. True) stop tips" and "i \<notin> stop" and "(i, j) \<in> parent_rel a rd" and "is_commit a rd j"
  shows "j \<in> selected a rd {} (\<lambda>c. True) stop tips"
proof -
  let ?R = "chosen_step a rd {} (\<lambda>c. True) stop"
  have chosen: "k \<in> chosen a rd {} (\<lambda>c. True) \<longleftrightarrow> is_commit a rd k" for k by (simp add: chosen_def is_commit_def)
  obtain t where t: "t \<in> set tips \<inter> chosen a rd {} (\<lambda>c. True)" "(t, i) \<in> ?R\<^sup>*" using assms(1) by (auto simp: selected_def)
  have "is_commit a rd i" using t(2,1) chosen by (cases rule: rtrancl.cases) (auto simp: chosen_step_def)
  then have "(i, j) \<in> ?R" using assms(2-4) chosen by (auto simp: chosen_step_def)
  with t show ?thesis by (auto simp: selected_def intro: rtrancl_into_rtrancl)
qed

lemma selection_parent:
  assumes "shallow_selection a rd has refs req tips inc bnd" and "i \<in> inc - bnd" and "(i, j) \<in> parent_rel a rd" and "is_commit a rd j"
  shows "j \<in> inc"
proof (cases "dp_depth (w_deepen req)")
  case None
  with assms show ?thesis by (auto simp: shallow_selection_def)
next
  case (Some d)
  with assms within_parent [of i a rd tips "max d 1" j] commit_step_parent selected_parent [of i a rd _ tips j]
  show ?thesis by (auto simp: shallow_selection_def Let_def split: if_splits)
qed

lemma selection_boundary: "shallow_selection a rd has refs req tips inc bnd \<Longrightarrow> bnd \<subseteq> inc"
  by (auto simp: shallow_selection_def Let_def frontier_def split: option.splits if_splits)

lemma closure_reach: "reachable_objects_excluding a rd roots X = Ok S \<Longrightarrow> S = reach a rd X roots"
  using collect_closure_spec [where a = a and rd = rd and roots = roots and X = X]
  by (simp add: reachable_objects_excluding_def)

lemma tree_roots_spec:
  "tree_roots a rd cs = Ok ts \<Longrightarrow> c \<in> set cs \<Longrightarrow> read_commit a rd c = Ok (Some cm) \<Longrightarrow> c_tree cm \<in> set ts"
  by (induction cs arbitrary: ts) (auto simp: bind_res_eq_Ok split: option.splits)

lemma reach_mono: "t \<in> set roots \<Longrightarrow> reach a rd X [t] \<subseteq> reach a rd X roots"
  by (auto simp: reach_def)

lemma finite_within: "finite (within a rd tips D)"
proof -
  have "j \<in> set tips \<union> known_ids a" if "at_distance a rd tips j n" for j n
    using that by (cases n) (auto simp: at_distance_0 at_distance_Suc commit_step_def dest!: read_commit_Some_known)
  then have "within a rd tips D \<subseteq> set tips \<union> known_ids a" by (auto simp: within_def)
  then show ?thesis by (rule finite_subset) (simp add: finite_known_ids)
qed

lemma finite_selected: "finite (selected a rd skip keep stop tips)"
proof -
  have "j \<in> set tips \<union> known_ids a" if "(t, j) \<in> (chosen_step a rd skip keep stop)\<^sup>*" "t \<in> set tips" for t j
    using that by (cases rule: rtrancl.cases) (auto simp: chosen_step_def parent_rel_def dest!: parents_of_known)
  then have "selected a rd skip keep stop tips \<subseteq> set tips \<union> known_ids a" by (auto simp: selected_def)
  then show ?thesis by (rule finite_subset) (simp add: finite_known_ids)
qed

lemma finite_selection: "shallow_selection a rd has refs req tips inc bnd \<Longrightarrow> finite inc"
  by (auto simp: shallow_selection_def finite_within finite_selected Let_def split: option.splits if_splits)

lemma plan_deepen:
  assumes "plan a rd has refs req = Ok p" and "deepen_active (w_deepen req)"
  shows "\<exists>tips extra inc bnd roots. collect_tips a rd (w_wants req) ([], {}) = Ok (tips, extra)
    \<and> new_boundary a rd has refs req tips = Ok (inc, bnd) \<and> tree_roots a rd (sorted_list_of_set inc) = Ok roots
    \<and> reach a rd (pl_client_has p) roots \<union> (inc - pl_client_has p) \<union> (set (w_wants req) - set (w_haves req)) \<subseteq> pl_objects p
    \<and> pl_shallow p = filter (\<lambda>c. c \<notin> set (w_client_shallow req)) (sorted_list_of_set bnd)
    \<and> pl_unshallow p = filter (\<lambda>c. c \<in> inc \<and> c \<notin> bnd) (w_client_shallow req)"
proof -
  obtain X tips extra inc bnd roots os more where "collect_tips a rd (w_wants req) ([], {}) = Ok (tips, extra)"
    "new_boundary a rd has refs req tips = Ok (inc, bnd)" "tree_roots a rd (sorted_list_of_set inc) = Ok roots"
    "reachable_objects_excluding a rd roots X = Ok os"
    "p = \<lparr>pl_objects = os \<union> (inc - X) \<union> more \<union> set (filter (\<lambda>w. w \<notin> set (w_haves req)) (w_wants req)), pl_client_has = X,
        pl_shallow = filter (\<lambda>c. c \<notin> set (w_client_shallow req)) (sorted_list_of_set bnd),
        pl_unshallow = filter (\<lambda>c. c \<in> inc \<and> c \<notin> bnd) (w_client_shallow req)\<rparr>"
    using assms by (auto simp: plan_def bind_res_eq_Ok Let_def)
  moreover from closure_reach [OF this(4)] have "os = reach a rd X roots" .
  ultimately show ?thesis by auto
qed

text \<open>
  A fetch that leaves the history whole: when neither side is shallow, the planned objects are
  exactly what the wants reach and the known haves do not, and the wants that the client did not
  announce; with what the client holds it then has everything that the wants reach.
\<close>

lemma plan_whole:
  assumes "plan a rd has refs req = Ok p" and "\<not> deepen_active (w_deepen req)" and "w_client_shallow req = []"
  shows "pl_client_has p = reach a rd {} (filter has (w_haves req))
    \<and> pl_objects p = (reach a rd {} (w_wants req) - pl_client_has p) \<union> (set (w_wants req) - set (w_haves req))
    \<and> reach a rd {} (w_wants req) \<subseteq> pl_objects p \<union> pl_client_has p
    \<and> pl_shallow p = [] \<and> pl_unshallow p = []"
proof -
  obtain X os where x: "reachable_objects a rd (filter has (w_haves req)) = Ok X"
      "reachable_objects_excluding a rd (w_wants req) X = Ok os"
      "p = \<lparr>pl_objects = os \<union> set (filter (\<lambda>w. w \<notin> set (w_haves req)) (w_wants req)), pl_client_has = X,
          pl_shallow = [], pl_unshallow = []\<rparr>"
    using assms by (auto simp: plan_def client_holds_def bind_res_eq_Ok Let_def)
  have X: "X = reach a rd {} (filter has (w_haves req))"
    using x(1) closure_reach [of a rd "filter has (w_haves req)" "{}" X]
    by (simp add: reachable_objects_def reachable_objects_excluding_def)
  have "os = reach a rd {} (w_wants req) - X"
    using closure_reach [OF x(2)] reach_avoid_closed [OF reach_closed] X by simp
  with x(3) X show ?thesis by auto
qed

section \<open>Properties\<close>

text \<open>
  C39. The server gives up the negotiation only when it may: \<open>ok_to_give_up\<close> answers yes only if
  something is common and every wanted commit (behind tags) has a common commit among its
  ancestors; and it answers no only if nothing is common, or a wanted commit has none, or has more
  ancestors than the walk may visit.
\<close>

theorem ok_to_give_up_exact:
  "case ok_to_give_up a rd wants common of
     Err e \<Rightarrow> True
   | Ok b \<Rightarrow>
       if b then common \<noteq> {} \<and> list_all (\<lambda>w. case peel_to_commit a rd w of
             Ok (Some c) \<Rightarrow> (\<exists>t\<in>common. (c, t) \<in> (parent_rel a rd)\<^sup>*) | _ \<Rightarrow> True) wants
       else common = {} \<or> (\<exists>w\<in>set wants. \<exists>c. peel_to_commit a rd w = Ok (Some c)
         \<and> (GIVE_UP_WALK_CAP < card ((parent_rel a rd)\<^sup>* `` {c}) \<or> (parent_rel a rd)\<^sup>* `` {c} \<inter> common = {}))"
proof (cases "ok_to_give_up a rd wants common")
  case (Ok b)
  show ?thesis
  proof (cases "common = {}")
    case True
    with Ok show ?thesis by (simp add: ok_to_give_up_def)
  next
    case False
    with Ok have w: "wants_reach a rd common wants = Ok b" by (simp add: ok_to_give_up_def)
    show ?thesis
    proof (cases b)
      case True
      with Ok False wants_reach_spec(1) [OF w] show ?thesis
        by (auto simp: list_all_iff split: result.split option.split)
    next
      case no: False
      with Ok wants_reach_spec(2) [OF w] show ?thesis by (simp add: disjoint_iff) blast
    qed
  qed
qed simp

definition sample_want :: "nat option \<Rightarrow> fetch_want" where
  "sample_want depth = \<lparr>w_wants = [stale_id 1], w_haves = [stale_id 2], w_client_shallow = [],
     w_deepen = \<lparr>dp_depth = depth, dp_since = None, dp_not = [], dp_relative = False\<rparr>\<rparr>"

definition no_refs :: ref_lookups where
  "no_refs = \<lparr>rl_resolve = \<lambda>n. None, rl_tags = []\<rparr>"

text \<open>
  C6. A fetch that moves the shallow boundary: it selects commits from the wanted tips by the depth,
  the relative depth, the date or the excluded references (\<open>shallow_selection\<close>). Afterwards the client
  has every selected commit and what its tree reaches (up to what it held), and every wanted object it
  did not announce. The new boundary is announced, less what the client already knows, and the
  old boundary commits that are now inside are taken back; so a selected commit that is not
  on the client's boundary afterwards has all its parents selected.
\<close>

theorem plan_shallow:
  assumes "plan a rd has refs req = Ok p" and "deepen_active (w_deepen req)"
    and "after = set (w_client_shallow req) \<union> set (pl_shallow p) - set (pl_unshallow p)"
  shows "\<exists>tips inc bnd. set tips = {c. \<exists>w\<in>set (w_wants req). peel_to_commit a rd w = Ok (Some c)}
    \<and> shallow_selection a rd has refs req tips inc bnd
    \<and> inc \<union> (set (w_wants req) - set (w_haves req)) \<subseteq> pl_objects p \<union> pl_client_has p
    \<and> (\<forall>c cm. c \<in> inc \<and> read_commit a rd c = Ok (Some cm) \<longrightarrow> reach a rd (pl_client_has p) [c_tree cm] \<subseteq> pl_objects p)
    \<and> set (pl_shallow p) = bnd - set (w_client_shallow req)
    \<and> set (pl_unshallow p) = set (w_client_shallow req) \<inter> (inc - bnd)
    \<and> after \<inter> inc = bnd
    \<and> (\<forall>i j. i \<in> inc - after \<and> (i, j) \<in> parent_rel a rd \<and> is_commit a rd j \<longrightarrow> j \<in> inc)"
proof -
  obtain tips extra inc bnd roots where d: "collect_tips a rd (w_wants req) ([], {}) = Ok (tips, extra)"
    "new_boundary a rd has refs req tips = Ok (inc, bnd)" "tree_roots a rd (sorted_list_of_set inc) = Ok roots"
    "reach a rd (pl_client_has p) roots \<union> (inc - pl_client_has p) \<union> (set (w_wants req) - set (w_haves req)) \<subseteq> pl_objects p"
    "pl_shallow p = filter (\<lambda>c. c \<notin> set (w_client_shallow req)) (sorted_list_of_set bnd)"
    "pl_unshallow p = filter (\<lambda>c. c \<in> inc \<and> c \<notin> bnd) (w_client_shallow req)"
    using plan_deepen [OF assms(1,2)] by blast
  have sel: "shallow_selection a rd has refs req tips inc bnd" using new_boundary_spec [OF d(2)] .
  have fin: "finite inc" "finite bnd" "bnd \<subseteq> inc"
    using finite_selection [OF sel] selection_boundary [OF sel] finite_subset by blast+
  have sh: "set (pl_shallow p) = bnd - set (w_client_shallow req)"
    and un: "set (pl_unshallow p) = set (w_client_shallow req) \<inter> (inc - bnd)"
    using fin by (auto simp: d(5,6))
  have after: "after \<inter> inc = bnd" unfolding assms(3) sh un using fin(3) by auto
  show ?thesis
  proof (rule exI [of _ tips], rule exI [of _ inc], rule exI [of _ bnd], intro conjI allI impI)
    show "set tips = {c. \<exists>w\<in>set (w_wants req). peel_to_commit a rd w = Ok (Some c)}"
      using collect_tips_peel [OF d(1)] by simp
    show "inc \<union> (set (w_wants req) - set (w_haves req)) \<subseteq> pl_objects p \<union> pl_client_has p" using d(4) by blast
    show "reach a rd (pl_client_has p) [c_tree cm] \<subseteq> pl_objects p" if "c \<in> inc \<and> read_commit a rd c = Ok (Some cm)" for c cm
      using reach_mono [OF tree_roots_spec [OF d(3) _ conjunct2 [OF that]], of a rd "pl_client_has p"] that fin(1) d(4) by auto
    show "j \<in> inc" if "i \<in> inc - after \<and> (i, j) \<in> parent_rel a rd \<and> is_commit a rd j" for i j
    proof (rule selection_parent [OF sel])
      show "i \<in> inc - bnd" using that after by blast
    qed (use that in simp_all)
  qed (fact sel sh un after)+
qed

lemma sample_plan_shallow:
  "case plan Sha1 stale_reader (\<lambda>i. is_ok (stale_reader i)) no_refs (sample_want (Some 2)) of
     Ok p \<Rightarrow> pl_shallow p = [stale_id 2] \<and> stale_id 3 \<notin> pl_objects p | Err e \<Rightarrow> False"
  by code_simp

theorem plan_shallow_witness:
  "\<exists>p. plan Sha1 stale_reader (\<lambda>i. is_ok (stale_reader i)) no_refs (sample_want (Some 2)) = Ok p
     \<and> pl_shallow p = [stale_id 2] \<and> stale_id 2 \<in> pl_objects p \<union> pl_client_has p"
proof -
  obtain p where p: "plan Sha1 stale_reader (\<lambda>i. is_ok (stale_reader i)) no_refs (sample_want (Some 2)) = Ok p"
      "pl_shallow p = [stale_id 2]"
    using sample_plan_shallow by (auto split: result.splits)
  have act: "deepen_active (w_deepen (sample_want (Some 2)))" and cs: "w_client_shallow (sample_want (Some 2)) = []"
    by (simp_all add: deepen_active_def sample_want_def)
  obtain inc bnd where "inc \<subseteq> pl_objects p \<union> pl_client_has p" "set (pl_shallow p) = bnd"
      "(set (pl_shallow p) - set (pl_unshallow p)) \<inter> inc = bnd"
    using plan_shallow [OF p(1) act refl] unfolding cs by auto
  with p show ?thesis by auto
qed

text \<open>
  A wanted tag defeats the depth: the walk from the commit behind it stops there, but the closure of the
  tag itself goes on through that commit to its parents.
\<close>

lemma shallow_tag_sends_history:
  "case plan Sha1 stale_reader (\<lambda>i. is_ok (stale_reader i)) no_refs
       \<lparr>w_wants = [stale_id 4], w_haves = [], w_client_shallow = [],
        w_deepen = \<lparr>dp_depth = Some 1, dp_since = None, dp_not = [], dp_relative = False\<rparr>\<rparr> of
     Ok p \<Rightarrow> pl_shallow p = [stale_id 2] \<and> stale_id 3 \<in> pl_objects p | Err e \<Rightarrow> False"
  by code_simp

end
