(* ===== verification/Upload_Pack.thy ===== *)
theory Upload_Pack
  imports Upload_Walk Object_Filter Protocol_V2 Pack
begin

text \<open>
  Answering a fetch in versions 0 and 1, src/src/server/upload.rs: the negotiation, the pack and its
  framing, a whole stateless request, and a whole conversation over a stream (with
  \<open>read_pktline\<close> of src/src/server/daemon.rs). What is written is a list of packets that are encoded
  one after the other. A stream is the bytes that the client sends; writing to it does not fail.
\<close>

section \<open>Model\<close>

subsection \<open>Negotiation\<close>

datatype ack_mode = Single | Multi | Detailed

definition ack_mode_from_caps :: "capabilities \<Rightarrow> ack_mode" where
  "ack_mode_from_caps caps =
     (if caps_has caps (bstr ''multi_ack_detailed'') then Detailed
      else if caps_has caps (bstr ''multi_ack'') then Multi else Single)"

record negotiator =
  ng_common :: "object_id list"
  ng_common_set :: "object_id set"
  ng_got_common :: bool
  ng_got_other :: bool

definition negotiator_new :: negotiator where
  "negotiator_new = \<lparr>ng_common = [], ng_common_set = {}, ng_got_common = False, ng_got_other = False\<rparr>"

definition ack_line :: "object_id \<Rightarrow> bytes \<Rightarrow> packet" where
  "ack_line i status = text_line (bstr ''ACK '' @ to_hex i @ status)"

definition neg_have :: "(object_id \<Rightarrow> bool) \<Rightarrow> ack_mode \<Rightarrow> negotiator \<Rightarrow> object_id \<Rightarrow> packet list \<times> negotiator" where
  "neg_have has mode n i =
     (if \<not> has i then ([], n\<lparr>ng_got_other := True\<rparr>)
      else
        let n1 = n\<lparr>ng_got_common := True\<rparr>;
            n2 = (if i \<in> ng_common_set n1 then n1
                  else n1\<lparr>ng_common_set := insert i (ng_common_set n1), ng_common := ng_common n1 @ [i]\<rparr>)
        in (case mode of
              Detailed \<Rightarrow> [ack_line i (bstr '' common'')]
            | Multi \<Rightarrow> [ack_line i (bstr '' continue'')]
            | Single \<Rightarrow> if length (ng_common n2) = 1 then [ack_line i []] else [], n2))"

definition neg_flush :: "hash_algo \<Rightarrow> reader \<Rightarrow> object_id list \<Rightarrow> ack_mode \<Rightarrow> negotiator \<Rightarrow> (packet list \<times> negotiator) result" where
  "neg_flush a rd wants mode n =
     bind_res (if mode = Detailed \<and> ng_got_common n \<and> \<not> ng_got_other n
               then bind_res (ok_to_give_up a rd wants (ng_common_set n)) (\<lambda>b.
                 Ok (if b \<and> ng_common n \<noteq> [] then [ack_line (last (ng_common n)) (bstr '' ready'')] else []))
               else Ok []) (\<lambda>ready.
       Ok (ready @ (if ng_common n = [] \<or> mode \<noteq> Single then [text_line (bstr ''NAK'')] else []),
           n\<lparr>ng_got_common := False, ng_got_other := False\<rparr>))"

definition neg_done :: "ack_mode \<Rightarrow> negotiator \<Rightarrow> packet list" where
  "neg_done mode n =
     (if ng_common n = [] then [text_line (bstr ''NAK'')]
      else if mode \<noteq> Single then [ack_line (last (ng_common n)) []] else [])"

subsection \<open>The pack\<close>

definition THIN_PACK_BASE_CAP :: nat where
  "THIN_PACK_BASE_CAP = 2000"

fun add_objects :: "digest \<Rightarrow> reader \<Rightarrow> object_filter \<Rightarrow> object_id set \<Rightarrow> pack_writer \<Rightarrow> object_id list \<Rightarrow> pack_writer result" where
  "add_objects dg rd f wanted w [] = Ok w"
| "add_objects dg rd f wanted w (i # ids) =
     bind_res (rd i) (\<lambda>(ty, pl).
       add_objects dg rd f wanted
         (if i \<notin> wanted \<and> \<not> keeps f ty (length pl) then w else snd (pw_add dg w ty pl)) ids)"

fun add_bases :: "digest \<Rightarrow> reader \<Rightarrow> pack_writer \<Rightarrow> object_id list \<Rightarrow> pack_writer" where
  "add_bases dg rd w [] = w"
| "add_bases dg rd w (i # ids) =
     add_bases dg rd (case rd i of Ok (ty, pl) \<Rightarrow> snd (pw_add_external_base dg w ty pl) | Err e \<Rightarrow> w) ids"

definition build_pack :: "'d zlib \<Rightarrow> digest \<Rightarrow> hash_algo \<Rightarrow> reader \<Rightarrow> fetch_plan \<Rightarrow> bytes option \<Rightarrow> object_id list \<Rightarrow> bool \<Rightarrow> bytes result" where
  "build_pack z dg a rd p f wanted thin =
     bind_res (add_objects dg rd (from_spec f) (set wanted) (pack_writer_new a) (sorted_list_of_set (pl_objects p))) (\<lambda>w.
     let w1 = (if thin then add_bases dg rd w (take THIN_PACK_BASE_CAP (sorted_list_of_set (pl_client_has p))) else w)
     in bind_res (pw_finish z dg w1) (\<lambda>out. Ok (po_pack out)))"

definition band_packets :: "nat \<Rightarrow> bytes \<Rightarrow> packet list" where
  "band_packets n pk = map (\<lambda>c. Data (1 # c)) (chunks n pk) @ [Flush]"

definition encode_pack_stream :: "capabilities \<Rightarrow> bytes \<Rightarrow> bytes result" where
  "encode_pack_stream caps pk =
     (if caps_has caps (bstr ''side-band-64k'') then encode_all (band_packets (MAX_PKTLINE_LEN - 5) pk)
      else if caps_has caps (bstr ''side-band'') then encode_all (band_packets (1000 - 5) pk)
      else Ok pk)"

definition shallow_packets :: "fetch_plan \<Rightarrow> packet list" where
  "shallow_packets p = map (oid_line (bstr ''shallow '')) (pl_shallow p) @ map (oid_line (bstr ''unshallow '')) (pl_unshallow p) @ [Flush]"

definition encode_shallow_section :: "fetch_plan \<Rightarrow> bytes result" where
  "encode_shallow_section p = encode_all (shallow_packets p)"

subsection \<open>A stateless request\<close>

definition deepen_from_request :: "fetch_request \<Rightarrow> deepen" where
  "deepen_from_request r =
     \<lparr>dp_depth = fr_deepen r, dp_since = fr_deepen_since r, dp_not = fr_deepen_not r, dp_relative = fr_deepen_relative r\<rparr>"

definition want_of :: "fetch_request \<Rightarrow> object_id list \<Rightarrow> fetch_want" where
  "want_of r haves = \<lparr>w_wants = fr_wants r, w_haves = haves, w_client_shallow = fr_shallows r, w_deepen = deepen_from_request r\<rparr>"

definition have_oid :: "hash_algo \<Rightarrow> bytes \<Rightarrow> object_id result" where
  "have_oid a hex = bind_res (from_utf8 hex (Protocol ''have: non-utf8'')) (\<lambda>h. from_hex a (str_trim h))"

definition shallow_answer :: "hash_algo \<Rightarrow> reader \<Rightarrow> (object_id \<Rightarrow> bool) \<Rightarrow> ref_lookups \<Rightarrow> fetch_request \<Rightarrow> bytes result" where
  "shallow_answer a rd has refs r =
     (if deepen_active (deepen_from_request r)
      then bind_res (plan a rd has refs (want_of r [])) encode_shallow_section else Ok [])"

definition pack_answer :: "'d zlib \<Rightarrow> digest \<Rightarrow> hash_algo \<Rightarrow> reader \<Rightarrow> (object_id \<Rightarrow> bool) \<Rightarrow> ref_lookups \<Rightarrow> fetch_request
    \<Rightarrow> object_id list \<Rightarrow> bytes result" where
  "pack_answer z dg a rd has refs r common =
     bind_res (plan a rd has refs (want_of r common)) (\<lambda>p.
     bind_res (if caps_has (fr_capabilities r) (bstr ''include-tag'') then include_tags a rd refs p else Ok p) (\<lambda>p.
     bind_res (build_pack z dg a rd p (fr_filter r) (fr_wants r) (caps_has (fr_capabilities r) (bstr ''thin-pack'')))
       (encode_pack_stream (fr_capabilities r))))"

text \<open>The have section: the bytes written, the negotiator, whether \<open>done\<close> came, whether a round is open.\<close>

fun have_section :: "hash_algo \<Rightarrow> reader \<Rightarrow> (object_id \<Rightarrow> bool) \<Rightarrow> object_id list \<Rightarrow> ack_mode \<Rightarrow> negotiator \<Rightarrow> bool \<Rightarrow> packet list
    \<Rightarrow> (bytes \<times> negotiator \<times> bool \<times> bool) result" where
  "have_section a rd has wants mode n saw_round [] = Ok ([], n, False, saw_round)"
| "have_section a rd has wants mode n saw_round (Data d # ps) =
     (let line = trim_trailing_newline d in
      case strip_prefix (bstr ''have '') line of
        Some hex \<Rightarrow>
          bind_res (have_oid a hex) (\<lambda>i.
            let (lines, n1) = neg_have has mode n i
            in bind_res (encode_all lines) (\<lambda>b.
               bind_res (have_section a rd has wants mode n1 True ps) (\<lambda>(out, st). Ok (b @ out, st))))
      | None \<Rightarrow>
          if line = bstr ''done'' then Ok ([], n, True, saw_round)
          else have_section a rd has wants mode n saw_round ps)"
| "have_section a rd has wants mode n saw_round (Flush # ps) =
     bind_res (neg_flush a rd wants mode n) (\<lambda>(lines, n1).
     bind_res (encode_all lines) (\<lambda>b.
     bind_res (have_section a rd has wants mode n1 False ps) (\<lambda>(out, st). Ok (b @ out, st))))"
| "have_section a rd has wants mode n saw_round (p # ps) = have_section a rd has wants mode n saw_round ps"

definition want_end :: "packet list \<Rightarrow> nat" where
  "want_end ps = (let k = length (takeWhile (\<lambda>p. p \<noteq> Flush) ps) in if k = length ps then k else k + 1)"

definition serve_stateless :: "'d zlib \<Rightarrow> digest \<Rightarrow> hash_algo \<Rightarrow> reader \<Rightarrow> (object_id \<Rightarrow> bool) \<Rightarrow> ref_lookups \<Rightarrow> bytes \<Rightarrow> bytes result" where
  "serve_stateless z dg a rd has refs request =
     bind_res (decode_all request) (\<lambda>packets.
     bind_res (fetch_request_parse a (take (want_end packets) packets)) (\<lambda>req.
     if fr_wants req = [] then Err (Protocol ''upload-pack: request has no wants'')
     else
       bind_res (shallow_answer a rd has refs req) (\<lambda>shallow.
       let mode = ack_mode_from_caps (fr_capabilities req)
       in bind_res (have_section a rd has (fr_wants req) mode negotiator_new False (drop (want_end packets) packets))
            (\<lambda>(acks, n, got_done, saw_round).
            if \<not> got_done then
              (if saw_round then
                 bind_res (neg_flush a rd (fr_wants req) mode n) (\<lambda>(lines, n1).
                 bind_res (encode_all lines) (\<lambda>b. Ok (shallow @ acks @ b)))
               else Ok (shallow @ acks))
            else
              bind_res (encode_all (neg_done mode n)) (\<lambda>fin.
              bind_res (pack_answer z dg a rd has refs req (ng_common n)) (\<lambda>pk.
                Ok (shallow @ acks @ fin @ pk)))))))"

section \<open>Lemmas\<close>

subsection \<open>Negotiation\<close>

text \<open>
  What holds of a negotiator: the common objects are listed once each, all of them are in the store,
  and the set has the same ones.
\<close>

definition neg_inv :: "(object_id \<Rightarrow> bool) \<Rightarrow> negotiator \<Rightarrow> bool" where
  "neg_inv has n \<longleftrightarrow> distinct (ng_common n) \<and> set (ng_common n) = ng_common_set n \<and> list_all has (ng_common n)"

lemma neg_inv_new: "neg_inv has negotiator_new"
  by (simp add: neg_inv_def negotiator_new_def)

text \<open>An acknowledgment names a common object; \<open>ready\<close> only comes when the server may give up.\<close>

definition ack_ok :: "hash_algo \<Rightarrow> reader \<Rightarrow> object_id list \<Rightarrow> object_id set \<Rightarrow> packet \<Rightarrow> bool" where
  "ack_ok a rd wants S p \<longleftrightarrow>
     p = text_line (bstr ''NAK'')
     \<or> (\<exists>i\<in>S. p \<in> {ack_line i [], ack_line i (bstr '' common''), ack_line i (bstr '' continue'')}
          \<or> p = ack_line i (bstr '' ready'') \<and> (\<exists>T\<subseteq>S. ok_to_give_up a rd wants T = Ok True))"

lemma ack_ok_mono: "ack_ok a rd wants S p \<Longrightarrow> S \<subseteq> T \<Longrightarrow> ack_ok a rd wants T p"
  unfolding ack_ok_def by blast

lemma neg_have_inv:
  assumes "neg_have has mode n i = (lines, n')" and "neg_inv has n"
  shows "neg_inv has n'" "ng_common_set n' = ng_common_set n \<union> {j. j = i \<and> has i}"
    "list_all (ack_ok a rd wants (ng_common_set n')) lines"
proof -
  let ?n = "if i \<in> ng_common_set n then n\<lparr>ng_got_common := True\<rparr>
    else n\<lparr>ng_got_common := True, ng_common_set := insert i (ng_common_set n), ng_common := ng_common n @ [i]\<rparr>"
  have n': "n' = (if has i then ?n else n\<lparr>ng_got_other := True\<rparr>)"
    and lines: "\<not> has i \<Longrightarrow> lines = []"
      "has i \<Longrightarrow> set lines \<subseteq> {ack_line i [], ack_line i (bstr '' common''), ack_line i (bstr '' continue'')}"
    using assms(1) by (cases mode; auto simp: neg_have_def Let_def simp del: bstr_simps split: if_splits)+
  show "neg_inv has n'" "ng_common_set n' = ng_common_set n \<union> {j. j = i \<and> has i}"
    using assms(2) by (auto simp: n' neg_inv_def)
  then have "has i \<Longrightarrow> i \<in> ng_common_set n'" by blast
  then show "list_all (ack_ok a rd wants (ng_common_set n')) lines"
    using lines unfolding list_all_iff ack_ok_def by (cases "has i") (blast, simp)
qed

lemma neg_flush_inv:
  assumes "neg_flush a rd wants mode n = Ok (lines, n')" and "neg_inv has n"
  shows "neg_inv has n'" "ng_common_set n' = ng_common_set n"
    "list_all (ack_ok a rd wants (ng_common_set n')) lines"
proof -
  obtain ready where r: "(if mode = Detailed \<and> ng_got_common n \<and> \<not> ng_got_other n
        then bind_res (ok_to_give_up a rd wants (ng_common_set n)) (\<lambda>b.
          Ok (if b \<and> ng_common n \<noteq> [] then [ack_line (last (ng_common n)) (bstr '' ready'')] else []))
        else Ok []) = Ok ready"
      "lines = ready @ (if ng_common n = [] \<or> mode \<noteq> Single then [text_line (bstr ''NAK'')] else [])"
      "n' = n\<lparr>ng_got_common := False, ng_got_other := False\<rparr>"
    using assms(1) by (auto simp: neg_flush_def bind_res_eq_Ok simp del: bstr_simps)
  show "neg_inv has n'" "ng_common_set n' = ng_common_set n" using assms(2) r(3) by (simp_all add: neg_inv_def)
  have "list_all (ack_ok a rd wants (ng_common_set n)) ready"
    using r(1) assms(2) last_in_set [of "ng_common n"]
    by (auto simp: bind_res_eq_Ok ack_ok_def neg_inv_def simp del: bstr_simps split: if_splits)
  then show "list_all (ack_ok a rd wants (ng_common_set n')) lines"
    unfolding r(2,3) by (auto simp: ack_ok_def simp del: bstr_simps)
qed

text \<open>The objects that the have lines before \<open>done\<close> announce.\<close>

fun announced :: "hash_algo \<Rightarrow> packet list \<Rightarrow> object_id set" where
  "announced a [] = {}"
| "announced a (Data d # ps) =
     (case strip_prefix (bstr ''have '') (trim_trailing_newline d) of
        Some hex \<Rightarrow> (case have_oid a hex of Ok i \<Rightarrow> insert i (announced a ps) | Err e \<Rightarrow> {})
      | None \<Rightarrow> if trim_trailing_newline d = bstr ''done'' then {} else announced a ps)"
| "announced a (p # ps) = announced a ps"

lemma have_section_inv:
  "have_section a rd has wants mode n saw ps = Ok (out, n', got_done, saw') \<Longrightarrow> neg_inv has n \<Longrightarrow>
    neg_inv has n' \<and> ng_common_set n' = ng_common_set n \<union> {i \<in> announced a ps. has i}
    \<and> (\<exists>lines. encode_all lines = Ok out \<and> list_all (ack_ok a rd wants (ng_common_set n')) lines)"
proof (induction a rd has wants mode n saw ps arbitrary: out rule: have_section.induct [case_names nil data flush delim response])
  case (nil a rd has wants mode n saw)
  then show ?case by (auto intro: exI [of _ "[]"])
next
  case (data a rd has wants mode n saw d ps)
  let ?line = "trim_trailing_newline d"
  show ?case
  proof (cases "strip_prefix (bstr ''have '') ?line")
    case None
    show ?thesis
    proof (cases "?line = bstr ''done''")
      case True
      with data.prems None show ?thesis by (auto simp del: bstr_simps intro: exI [of _ "[]"])
    next
      case False
      with data.prems(1) None have "have_section a rd has wants mode n saw ps = Ok (out, n', got_done, saw')"
        by (simp del: bstr_simps)
      note IH = data.IH(1) [OF refl None False this data.prems(2)]
      have eq: "announced a (Data d # ps) = announced a ps" using None False by (simp del: bstr_simps)
      show ?thesis unfolding eq by (rule IH)
    qed
  next
    case (Some hex)
    with data.prems(1) obtain i where i: "have_oid a hex = Ok i" by (auto simp: bind_res_eq_Ok simp del: bstr_simps)
    obtain lines n1 where h: "neg_have has mode n i = (lines, n1)" by fastforce
    obtain b out2 where o: "encode_all lines = Ok b"
        "have_section a rd has wants mode n1 True ps = Ok (out2, n', got_done, saw')" "out = b @ out2"
      using data.prems(1) Some i h by (auto simp: bind_res_eq_Ok simp del: bstr_simps)
    note n1 = neg_have_inv(1,2) [OF h data.prems(2)] neg_have_inv(3) [OF h data.prems(2), where a = a and rd = rd and wants = wants]
    have IH: "neg_inv has n' \<and> ng_common_set n' = ng_common_set n1 \<union> {i \<in> announced a ps. has i}
        \<and> (\<exists>lines. encode_all lines = Ok out2 \<and> list_all (ack_ok a rd wants (ng_common_set n')) lines)"
      by (rule data.IH(2) [OF refl Some i h [symmetric] refl o(1,2) n1(1)])
    then obtain lines2 where l2: "encode_all lines2 = Ok out2" "list_all (ack_ok a rd wants (ng_common_set n')) lines2" by blast
    have "list_all (ack_ok a rd wants (ng_common_set n')) (lines @ lines2)"
      using n1(3) l2(2) IH ack_ok_mono [where a = a and rd = rd and wants = wants] by (auto simp: list_all_iff)
    moreover have "encode_all (lines @ lines2) = Ok out" using o l2(1) by (simp add: encode_all_append)
    ultimately show ?thesis using IH n1(2) Some i by (auto simp del: bstr_simps)
  qed
next
  case (flush a rd has wants mode n saw ps)
  then obtain lines n1 b out2 where o: "neg_flush a rd wants mode n = Ok (lines, n1)" "encode_all lines = Ok b"
      "have_section a rd has wants mode n1 False ps = Ok (out2, n', got_done, saw')" "out = b @ out2"
    by (auto simp: bind_res_eq_Ok)
  note n1 = neg_flush_inv [OF o(1) flush.prems(2)]
  have IH: "neg_inv has n' \<and> ng_common_set n' = ng_common_set n1 \<union> {i \<in> announced a ps. has i}
      \<and> (\<exists>lines. encode_all lines = Ok out2 \<and> list_all (ack_ok a rd wants (ng_common_set n')) lines)"
    by (rule flush.IH [OF o(1) refl o(2,3) n1(1)])
  then obtain lines2 where l2: "encode_all lines2 = Ok out2" "list_all (ack_ok a rd wants (ng_common_set n')) lines2" by blast
  have l: "list_all (ack_ok a rd wants (ng_common_set n')) (lines @ lines2)"
    using n1(3) l2(2) IH ack_ok_mono [where a = a and rd = rd and wants = wants] by (auto simp: list_all_iff)
  have e: "encode_all (lines @ lines2) = Ok out" using o l2(1) by (simp add: encode_all_append)
  have eq: "announced a (Flush # ps) = announced a ps" by simp
  have "ng_common_set n' = ng_common_set n \<union> {i \<in> announced a ps. has i}" using IH n1(2) by argo
  with IH l e show ?case unfolding eq by blast
next
  case (delim a rd has wants mode n saw ps)
  from delim.prems(1) have "have_section a rd has wants mode n saw ps = Ok (out, n', got_done, saw')" by simp
  note IH = delim.IH [OF this delim.prems(2)]
  show ?case unfolding announced.simps by (rule IH)
next
  case (response a rd has wants mode n saw ps)
  from response.prems(1) have "have_section a rd has wants mode n saw ps = Ok (out, n', got_done, saw')" by simp
  note IH = response.IH [OF this response.prems(2)]
  show ?case unfolding announced.simps by (rule IH)
qed

subsection \<open>The pack\<close>

text \<open>A store whose objects have the ids that their content hashes to.\<close>

definition store_sound :: "digest \<Rightarrow> hash_algo \<Rightarrow> reader \<Rightarrow> bool" where
  "store_sound dg a rd \<longleftrightarrow> (\<forall>i ty pl. rd i = Ok (ty, pl) \<longrightarrow> i = hash_object dg a ty pl \<and> length pl < 2 ^ 64)"

lemma store_soundD: "store_sound dg a rd \<Longrightarrow> rd i = Ok (ty, pl) \<Longrightarrow> hash_object dg a ty pl = i \<and> length pl < 2 ^ 64"
  by (auto simp: store_sound_def)

definition packed :: "reader \<Rightarrow> object_filter \<Rightarrow> object_id set \<Rightarrow> object_id \<Rightarrow> pack_entry list" where
  "packed rd f wanted i =
     (case rd i of
        Ok (ty, pl) \<Rightarrow> if i \<notin> wanted \<and> \<not> keeps f ty (length pl) then [] else [\<lparr>e_id = i, e_ty = ty, e_payload = pl\<rparr>]
      | Err e \<Rightarrow> [])"

lemma packed_id: "e \<in> set (packed rd f wanted i) \<Longrightarrow> e_id e = i \<and> rd i = Ok (e_ty e, e_payload e)"
  by (auto simp: packed_def split: result.splits if_splits)

lemma packed_set:
  "set (map (\<lambda>e. (e_id e, e_ty e, e_payload e)) (concat (map (packed rd f wanted) ids))) =
     {(i, ty, pl). i \<in> set ids \<and> rd i = Ok (ty, pl) \<and> (i \<in> wanted \<or> keeps f ty (length pl))}"
proof (induction ids)
  case (Cons i ids)
  have "(\<lambda>e. (e_id e, e_ty e, e_payload e)) ` set (packed rd f wanted i) =
      {(j, ty, pl). j = i \<and> rd i = Ok (ty, pl) \<and> (i \<in> wanted \<or> keeps f ty (length pl))}"
  proof (cases "rd i")
    case (Ok x)
    then show ?thesis by (cases x; cases "i \<in> wanted \<or> keeps f (fst x) (length (snd x))") (auto simp: packed_def)
  qed (simp add: packed_def)
  with Cons.IH show ?case by (auto simp: image_Un)
qed simp

lemma add_objects_entries:
  "add_objects dg rd f wanted w ids = Ok w' \<Longrightarrow> store_sound dg a rd \<Longrightarrow> wf_writer dg w \<Longrightarrow> pw_algo w = a \<Longrightarrow>
    distinct ids \<Longrightarrow> e_id ` set (pw_entries w) \<inter> set ids = {} \<Longrightarrow>
    wf_writer dg w' \<and> pw_algo w' = a \<and> pw_external_bases w' = pw_external_bases w
      \<and> pw_entries w' = pw_entries w @ concat (map (packed rd f wanted) ids)"
proof (induction ids arbitrary: w)
  case (Cons i ids)
  then obtain ty pl where x: "rd i = Ok (ty, pl)" by (auto simp: bind_res_eq_Ok)
  note h = store_soundD [OF Cons.prems(2) x]
  let ?w = "if i \<notin> wanted \<and> \<not> keeps f ty (length pl) then w else snd (pw_add dg w ty pl)"
  have "\<not> list_ex (\<lambda>e. e_id e = i) (pw_entries w)" using Cons.prems(6) by (auto simp: list_ex_iff)
  then have e: "pw_entries ?w = pw_entries w @ packed rd f wanted i" "pw_algo ?w = a" "pw_external_bases ?w = pw_external_bases w"
    using x h Cons.prems(4) by (simp_all add: pw_add_def packed_def Let_def)
  have wf: "wf_writer dg ?w" using Cons.prems(3) wf_writer_add(1) h by simp
  have dis: "e_id ` set (pw_entries ?w) \<inter> set ids = {}"
    using Cons.prems(5,6) packed_id [of _ rd f wanted i] by (auto simp: e)
  have "add_objects dg rd f wanted ?w ids = Ok w'" using Cons.prems(1) x by simp
  from Cons.IH [OF this Cons.prems(2) wf e(2) _ dis] Cons.prems(5) e show ?case by simp
qed simp

lemma add_objects_ok: "\<forall>i\<in>set ids. is_ok (rd i) \<Longrightarrow> \<exists>w'. add_objects dg rd f wanted w ids = Ok w'"
  by (induction ids arbitrary: w) (auto simp: is_ok_def split: result.splits)

lemma add_bases_entries:
  "store_sound dg a rd \<Longrightarrow> wf_writer dg w \<Longrightarrow> pw_algo w = a \<Longrightarrow>
    wf_writer dg (add_bases dg rd w ids) \<and> pw_algo (add_bases dg rd w ids) = a
      \<and> pw_entries (add_bases dg rd w ids) = pw_entries w
      \<and> (\<forall>b\<in>set (pw_external_bases (add_bases dg rd w ids)).
            b \<in> set (pw_external_bases w) \<or> e_id b \<in> set ids \<and> rd (e_id b) = Ok (e_ty b, e_payload b))"
proof (induction ids arbitrary: w)
  case (Cons i ids)
  show ?case
  proof (cases "rd i")
    case (Ok x)
    obtain ty pl where x: "x = (ty, pl)" by (cases x)
    note h = store_soundD [OF Cons.prems(1), of i ty pl]
    let ?w = "snd (pw_add_external_base dg w ty pl)"
    have "pw_entries ?w = pw_entries w" "pw_algo ?w = a"
      "\<forall>b\<in>set (pw_external_bases ?w). b \<in> set (pw_external_bases w) \<or> e_id b = i \<and> rd i = Ok (e_ty b, e_payload b)"
      using Cons.prems(3) h Ok x by (auto simp: pw_add_external_base_def Let_def)
    moreover have "wf_writer dg ?w" using wf_writer_add(2) [OF Cons.prems(2)] h Ok x by simp
    ultimately show ?thesis using Cons.IH [OF Cons.prems(1), of ?w] Ok x by auto
  qed (use Cons in auto)
qed simp

lemma finish_signature:
  assumes "zlib_ok z" and "digest_ok dg" and "wf_writer dg w" and "pw_finish z dg w = Ok out"
  shows "starts_with (bstr ''PACK'') (po_pack out)"
proof -
  obtain st :: write_state and L h where f: "pw_finish z dg w = Ok \<lparr>po_pack = ws_pack st @ dg (pw_algo w) (ws_pack st),
        po_idx = build_index dg (pw_algo w) (ws_meta st) (dg (pw_algo w) (ws_pack st)), po_hash = h\<rparr>"
    and W: "written z (pack_header (length (pw_entries w))) (pw_external_bases w) (ws_pack st) L"
    using finish_written [OF assms(1-3)] by blast
  obtain r where "ws_pack st = pack_header (length (pw_entries w)) @ r" using written_header [OF W] by blast
  with f assms(4) show ?thesis by (auto simp: pack_header_def PACK_SIGNATURE_def starts_with_iff)
qed

lemma build_pack_explodes:
  assumes "zlib_ok z" and "digest_ok dg" and "store_sound dg a rd" and "\<forall>i\<in>pl_objects p. is_ok (rd i)"
    and "finite (pl_objects p)" and "card (pl_objects p) < 2 ^ 32"
    and "finite (pl_client_has p)" and "\<forall>i x. i \<in> pl_client_has p \<and> rd i = Ok x \<longrightarrow> ext i = Ok x"
  shows "\<exists>pk. build_pack z dg a rd p f wanted thin = Ok pk
    \<and> starts_with (bstr ''PACK'') pk
    \<and> (length pk < 2 ^ 64 \<longrightarrow>
        (\<exists>obs. explode_pack z dg pk a ext = Ok obs
            \<and> set obs = {(i, ty, pl). i \<in> pl_objects p \<and> rd i = Ok (ty, pl)
                  \<and> (i \<in> set wanted \<or> keeps (from_spec f) ty (length pl))}))"
proof -
  let ?ids = "sorted_list_of_set (pl_objects p)" and ?f = "from_spec f"
  have ids: "set ?ids = pl_objects p" "distinct ?ids" using assms(5) by simp_all
  obtain w where w: "add_objects dg rd ?f (set wanted) (pack_writer_new a) ?ids = Ok w"
    using add_objects_ok [of ?ids rd dg ?f "set wanted"] assms(4) ids by blast
  have W: "wf_writer dg w" "pw_algo w = a" "pw_external_bases w = []"
    "pw_entries w = concat (map (packed rd ?f (set wanted)) ?ids)"
    using add_objects_entries [OF w assms(3) wf_writer_new] ids(2) by (simp_all add: pack_writer_new_def)
  define w1 where "w1 = (if thin then add_bases dg rd w (take THIN_PACK_BASE_CAP (sorted_list_of_set (pl_client_has p))) else w)"
  have b: "wf_writer dg w1" "pw_algo w1 = a" "pw_entries w1 = pw_entries w"
    "\<forall>b\<in>set (pw_external_bases w1). e_id b \<in> pl_client_has p \<and> rd (e_id b) = Ok (e_ty b, e_payload b)"
    using add_bases_entries [OF assms(3) W(1,2), of "take THIN_PACK_BASE_CAP (sorted_list_of_set (pl_client_has p))"] W assms(7)
    by (auto simp: w1_def dest!: in_set_takeD)
  have ent: "rd (e_id e) = Ok (e_ty e, e_payload e)" if "e \<in> set (pw_entries w1)" for e
    using that packed_id [of e rd ?f "set wanted"] by (auto simp: b(3) W(4))
  have short: "length (concat (map (packed rd ?f (set wanted)) l)) \<le> length l" for l
    by (induction l) (auto simp: packed_def split: result.split)
  have len: "length (pw_entries w1) < 2 ^ 32"
    using short [of ?ids] assms(5,6) by (simp add: b(3) W(4))
  have bases: "bases_ok dg a ext (pw_external_bases w1) (pw_entries w1)"
    unfolding bases_ok_def
  proof (intro ballI conjI impI)
    fix b assume "b \<in> set (pw_external_bases w1)"
    then have rb: "e_id b \<in> pl_client_has p" "rd (e_id b) = Ok (e_ty b, e_payload b)" using b(4) by blast+
    show "entry_ok dg a b" using store_soundD [OF assms(3) rb(2)] by (simp add: entry_ok_def)
    show "ext (e_id b) = Ok (e_ty b, e_payload b)" using assms(8) rb by blast
    fix e assume e: "e \<in> set (pw_entries w1)" "e_id e = e_id b"
    from ent [OF e(1)] e(2) rb(2) show "e_ty e = e_ty b" "e_payload e = e_payload b" by simp_all
  qed
  obtain out where out: "pw_finish z dg w1 = Ok out"
    "length (po_pack out) < 2 ^ 64 \<longrightarrow> explode_pack_prefix z dg (po_pack out @ []) a ext =
        Ok (map (\<lambda>e. (e_id e, e_ty e, e_payload e)) (pw_entries w1), length (po_pack out))"
    using finish_explodes [OF assms(1,2) b(1) len, of ext "[]"] bases b(2) by auto
  have "build_pack z dg a rd p f wanted thin = Ok (po_pack out)"
    by (simp add: build_pack_def w w1_def [symmetric] out(1))
  moreover note finish_signature [OF assms(1,2) b(1) out(1)]
  moreover have "explode_pack z dg (po_pack out) a ext = Ok (map (\<lambda>e. (e_id e, e_ty e, e_payload e)) (pw_entries w1))"
    if "length (po_pack out) < 2 ^ 64" using out(2) that by (simp add: explode_pack_def)
  moreover have "set (map (\<lambda>e. (e_id e, e_ty e, e_payload e)) (pw_entries w1)) =
      {(i, ty, pl). i \<in> pl_objects p \<and> rd i = Ok (ty, pl) \<and> (i \<in> set wanted \<or> keeps ?f ty (length pl))}"
    unfolding b(3) W(4) packed_set ids(1) ..
  ultimately show ?thesis by blast
qed

section \<open>Properties\<close>

text \<open>
  C7. The negotiation is honest, whatever lines the client sends and in every acknowledgment mode:
  the server ends with exactly the announced objects that it has, each once; every line it
  writes is a NAK or acknowledges one of them; and it says \<open>ready\<close> only if it may give up for a set of
  them. (The lines of the rounds; the line that answers \<open>done\<close> comes after them.)
\<close>

theorem negotiation_honest:
  "case have_section a rd has wants mode negotiator_new saw ps of
     Err e \<Rightarrow> True
   | Ok (out, n, got_done, saw') \<Rightarrow>
       distinct (ng_common n) \<and> set (ng_common n) = {i \<in> announced a ps. has i}
       \<and> (\<exists>lines. decode_all out = Ok lines \<and> list_all (ack_ok a rd wants (set (ng_common n))) lines)"
proof (cases "have_section a rd has wants mode negotiator_new saw ps")
  case (Ok x)
  obtain out n d s where x: "x = (out, n, d, s)" by (cases x)
  have I: "neg_inv has n \<and> ng_common_set n = ng_common_set negotiator_new \<union> {i \<in> announced a ps. has i}
      \<and> (\<exists>lines. encode_all lines = Ok out \<and> list_all (ack_ok a rd wants (ng_common_set n)) lines)"
    by (rule have_section_inv [OF Ok [unfolded x] neg_inv_new])
  then obtain lines where l: "encode_all lines = Ok out" "list_all (ack_ok a rd wants (ng_common_set n)) lines" by blast
  have "distinct (ng_common n)" "set (ng_common n) = ng_common_set n" "ng_common_set n = {i \<in> announced a ps. has i}"
    using I by (simp_all add: neg_inv_def negotiator_new_def)
  with decode_encode_all [OF l(1)] l(2) show ?thesis unfolding Ok x by simp
qed simp

end
