(* ===== verification/Fetch_Client.thy ===== *)
theory Fetch_Client
  imports Upload_Pack
begin

text \<open>
  The client's side of a fetch, src/src/client/mod.rs: what it reads from the answer of the server (the
  shallow boundary, the \<open>ready\<close> signal, the pack inside its frames), and the whole exchange with the
  stateless server of \<open>Upload_Pack\<close>. An offset into the answer is the rest of it.
\<close>

section \<open>Model\<close>

definition trim_ascii_end :: "bytes \<Rightarrow> bytes" where
  "trim_ascii_end line = rev (dropWhile (\<lambda>c. c \<in> {32, 9, 10, 12, 13}) (rev line))"

function response_signals_ready :: "bytes \<Rightarrow> bool result" where
  "response_signals_ready response =
     (if response = [] then Ok False
      else bind_res (decode response) (\<lambda>r.
        case r of
          None \<Rightarrow> Ok False
        | Some (p, n) \<Rightarrow>
            if (case p of
                  Data d \<Rightarrow> starts_with (bstr ''ACK '') (trim_ascii_end d) \<and> ends_with (bstr '' ready'') (trim_ascii_end d)
                | _ \<Rightarrow> False)
            then Ok True
            else response_signals_ready (drop n response)))"
  by pat_completeness auto
termination
  by (relation "measure length") (auto dest: decode_consumed)

declare response_signals_ready.simps [simp del]

definition MAX_PREPACK_PKTLINES :: nat where
  "MAX_PREPACK_PKTLINES = 65536"

definition parse_oid_line :: "hash_algo \<Rightarrow> bytes \<Rightarrow> object_id result" where
  "parse_oid_line a rest = bind_res (from_utf8 rest (Protocol ''shallow: non-utf8'')) (\<lambda>t. from_hex a (str_trim t))"

function shallow_updates_loop :: "hash_algo \<Rightarrow> nat \<Rightarrow> object_id list \<times> object_id list \<Rightarrow> bytes
    \<Rightarrow> (object_id list \<times> object_id list) result" where
  "shallow_updates_loop a scanned (add, remove) response =
     (if response = [] \<or> MAX_PREPACK_PKTLINES \<le> scanned \<or> starts_with (bstr ''PACK'') response then Ok (add, remove)
      else bind_res (decode response) (\<lambda>r.
        case r of
          None \<Rightarrow> Ok (add, remove)
        | Some (p, n) \<Rightarrow>
            bind_res
              (case p of
                 Data d \<Rightarrow>
                   (case strip_prefix (bstr ''shallow '') d of
                      Some rest \<Rightarrow> bind_res (parse_oid_line a rest) (\<lambda>i. Ok (add @ [i], remove))
                    | None \<Rightarrow>
                        (case strip_prefix (bstr ''unshallow '') d of
                           Some rest \<Rightarrow> bind_res (parse_oid_line a rest) (\<lambda>i. Ok (add, remove @ [i]))
                         | None \<Rightarrow> Ok (add, remove)))
               | _ \<Rightarrow> Ok (add, remove))
              (\<lambda>st. shallow_updates_loop a (scanned + 1) st (drop n response))))"
  by pat_completeness auto
termination
  by (relation "measure (\<lambda>(a, k, st, r). length r)") (auto dest: decode_consumed)

declare shallow_updates_loop.simps [simp del]

definition parse_shallow_updates :: "hash_algo \<Rightarrow> bytes \<Rightarrow> (object_id list \<times> object_id list) result" where
  "parse_shallow_updates a response = shallow_updates_loop a 0 ([], []) response"

function strip_loop :: "nat \<Rightarrow> bytes \<Rightarrow> bytes result" where
  "strip_loop scanned response =
     (if starts_with (bstr ''PACK'') response then Ok response
      else if MAX_PREPACK_PKTLINES \<le> scanned then Err (Protocol ''upload-pack response: too many pre-pack pkt-lines'')
      else bind_res (decode response) (\<lambda>r.
        case r of
          None \<Rightarrow> Err (Protocol ''upload-pack response contained no packfile'')
        | Some (p, n) \<Rightarrow>
            if drop n response = [] then Err (Protocol ''upload-pack response contained no packfile'')
            else strip_loop (scanned + 1) (drop n response)))"
  by pat_completeness auto
termination
  by (relation "measure (\<lambda>(k, r). length r)") (auto dest: decode_consumed)

declare strip_loop.simps [simp del]

definition strip_to_pack :: "bytes \<Rightarrow> bytes result" where
  "strip_to_pack response = strip_loop 0 response"

function demux_loop :: "bytes \<Rightarrow> bytes \<Rightarrow> bytes result" where
  "demux_loop pk response =
     (if response = [] then Ok pk
      else bind_res (decode response) (\<lambda>r.
        case r of
          None \<Rightarrow> Ok pk
        | Some (Data (c # body), n) \<Rightarrow>
            if c = 1 then demux_loop (pk @ body) (drop n response)
            else if c = 3 then Err (Protocol ''upload-pack sideband error: {}'')
            else demux_loop pk (drop n response)
        | Some (p, n) \<Rightarrow>
            if p = Flush \<and> pk \<noteq> [] then Ok pk else demux_loop pk (drop n response)))"
  by pat_completeness auto
termination
  by (relation "measure (\<lambda>(k, r). length r)") (auto dest: decode_consumed)

declare demux_loop.simps [simp del]

definition demux_sideband_pack :: "bytes \<Rightarrow> bytes result" where
  "demux_sideband_pack response =
     bind_res (demux_loop [] response) (\<lambda>pk.
       if starts_with (bstr ''PACK'') pk then Ok pk
       else Err (Protocol ''upload-pack sideband response contained no packfile''))"

text \<open>The pack of an answer, as \<open>do_fetch\<close> takes it out.\<close>

definition response_pack :: "capabilities \<Rightarrow> bytes \<Rightarrow> bytes result" where
  "response_pack caps response =
     (if caps_has caps (bstr ''side-band-64k'') then demux_sideband_pack response else strip_to_pack response)"

section \<open>Lemmas\<close>

subsection \<open>Skipping lines\<close>

lemma decode_pack: "starts_with (bstr ''PACK'') x \<Longrightarrow> is_err (decode x)"
proof -
  assume "starts_with (bstr ''PACK'') x"
  then obtain r where x: "x = bstr ''PACK'' @ r" by (auto simp: starts_with_iff simp del: bstr_simps)
  have "is_err (parse_len_prefix [80, 65, 67, 75])" by code_simp
  then obtain e where "parse_len_prefix [80, 65, 67, 75] = Err e" by (auto simp: is_err_def split: result.splits)
  then show ?thesis by (simp add: x decode_def)
qed

lemma encoded_not_pack: "encode p = Ok b \<Longrightarrow> \<not> starts_with (bstr ''PACK'') (b @ r) \<and> b \<noteq> []"
  using decode_pack [of "b @ r"] decode_encode [of p b r] encode_length [of p b] by (auto simp: is_err_def)

lemma strip_lines:
  "encode_all ps = Ok b \<Longrightarrow> starts_with (bstr ''PACK'') pk \<Longrightarrow> k + length ps \<le> MAX_PREPACK_PKTLINES \<Longrightarrow>
    strip_loop k (b @ pk) = Ok pk"
proof (induction ps arbitrary: b k)
  case Nil
  then show ?case by (simp add: strip_loop.simps)
next
  case (Cons p ps)
  then obtain b1 b2 where b: "encode p = Ok b1" "encode_all ps = Ok b2" "b = b1 @ b2" by (auto simp: bind_res_eq_Ok)
  have "pk \<noteq> []" using Cons.prems(2) by (auto simp: starts_with_def)
  with Cons.IH [OF b(2) Cons.prems(2), of "k + 1"] Cons.prems(3) encoded_not_pack [OF b(1), of "b2 @ pk"]
    decode_encode [OF b(1), of "b2 @ pk"] show ?case
    by (simp add: b(3) strip_loop.simps [of k] del: bstr_simps)
qed

text \<open>A line that is not a sideband packet: its first byte is none of 1 and 3.\<close>

definition plain_line :: "packet \<Rightarrow> bool" where
  "plain_line p \<longleftrightarrow> (case p of Data (c # d) \<Rightarrow> c \<noteq> 1 \<and> c \<noteq> 3 | _ \<Rightarrow> True)"

lemma demux_lines:
  "encode_all ps = Ok b \<Longrightarrow> list_all plain_line ps \<Longrightarrow> demux_loop [] (b @ r) = demux_loop [] r"
proof (induction ps arbitrary: b)
  case (Cons p ps)
  then obtain b1 b2 where b: "encode p = Ok b1" "encode_all ps = Ok b2" "b = b1 @ b2" by (auto simp: bind_res_eq_Ok)
  have "demux_loop [] (b @ r) = demux_loop [] (b2 @ r)"
    using Cons.prems(2) encoded_not_pack [OF b(1)] decode_encode [OF b(1), of "b2 @ r"]
    by (auto simp: b(3) demux_loop.simps [of "[]" "b1 @ _"] plain_line_def split: packet.splits list.splits)
  with Cons.IH [OF b(2)] Cons.prems(2) show ?case by simp
qed simp

lemma demux_chunks:
  "encode_all (map (\<lambda>c. Data (1 # c)) cs @ [Flush]) = Ok b \<Longrightarrow> pk @ concat cs \<noteq> [] \<Longrightarrow> list_all (\<lambda>c. c \<noteq> []) cs \<Longrightarrow>
    demux_loop pk b = Ok (pk @ concat cs)"
proof (induction cs arbitrary: b pk)
  case Nil
  then have "encode Flush = Ok b" by (simp add: bind_res_eq_Ok)
  from decode_encode [OF this, of "[]"] encoded_not_pack [OF this] Nil(2) show ?case by (simp add: demux_loop.simps)
next
  case (Cons c cs)
  then obtain b1 b2 where b: "encode (Data (1 # c)) = Ok b1" "encode_all (map (\<lambda>c. Data (1 # c)) cs @ [Flush]) = Ok b2" "b = b1 @ b2"
    by (auto simp: bind_res_eq_Ok simp del: encode.simps)
  have "demux_loop pk b = demux_loop (pk @ c) b2"
    using encoded_not_pack [OF b(1)] decode_encode [OF b(1), of b2] by (simp add: b(3) demux_loop.simps [of pk])
  with Cons.IH [OF b(2), of "pk @ c"] Cons.prems show ?case by simp
qed

lemma chunks_nonempty: "0 < n \<Longrightarrow> c \<in> set (chunks n xs) \<Longrightarrow> c \<noteq> []"
proof (induction n xs rule: chunks.induct)
  case (1 n xs)
  then show ?case by (auto simp: chunks.simps [of n xs] split: if_splits)
qed

lemma band_encodes: "n + 5 \<le> MAX_PKTLINE_LEN \<Longrightarrow> \<exists>b. encode_all (band_packets n pk) = Ok b"
proof -
  assume n: "n + 5 \<le> MAX_PKTLINE_LEN"
  have "\<exists>b. encode_all (map (\<lambda>c. Data (1 # c)) cs @ [Flush]) = Ok b" if "\<forall>c\<in>set cs. length c \<le> n" for cs
    using that n by (induction cs) (auto simp: encode_data_def Let_def)
  then show ?thesis using chunks_short [of _ n pk] by (simp add: band_packets_def)
qed

subsection \<open>The answer of the server\<close>

lemma ids_of_set: "ids_of a ids \<longleftrightarrow> (\<forall>i\<in>set ids. wf_oid i \<and> oid_algo i = a)"
  by (induction ids) auto

lemma wf_hex_length: "wf_oid i \<Longrightarrow> length (to_hex i) \<le> 64"
  by (cases "oid_algo i") (simp_all add: length_to_hex hex_len_def)

definition good_lines :: "packet list \<Rightarrow> bool" where
  "good_lines ps \<longleftrightarrow> list_all plain_line ps \<and> (\<exists>b. encode_all ps = Ok b)"

lemma good_lines_append: "good_lines ps \<Longrightarrow> good_lines qs \<Longrightarrow> good_lines (ps @ qs)"
  by (auto simp: good_lines_def encode_all_append)

lemma good_nil: "good_lines []"
  by (simp add: good_lines_def)

lemma good_ack: "wf_oid i \<Longrightarrow> length st < 1000 \<Longrightarrow> good_lines [ack_line i st]"
proof -
  assume "wf_oid i" "length st < 1000"
  then have "short_packets [ack_line i st]"
    using wf_hex_length [of i] by (simp add: short_packets_def ack_line_def text_line_def)
  moreover have "list_all plain_line [ack_line i st]" by (simp add: plain_line_def ack_line_def text_line_def)
  ultimately show ?thesis using encode_short unfolding good_lines_def by blast
qed

lemma good_nak: "good_lines [text_line (bstr ''NAK'')]"
proof -
  have "short_packets [text_line (bstr ''NAK'')]" by (simp add: short_packets_def text_line_def)
  moreover have "list_all plain_line [text_line (bstr ''NAK'')]" by (simp add: plain_line_def text_line_def)
  ultimately show ?thesis using encode_short unfolding good_lines_def by blast
qed

lemma neg_have_good:
  assumes "neg_have has mode n i = (lines, n')" and "wf_oid i"
  shows "good_lines lines \<and> length lines \<le> 1"
  using assms good_ack [OF assms(2)] good_nil
  by (cases mode; auto simp: neg_have_def Let_def split: if_splits)

lemma neg_done_good: "list_all wf_oid (ng_common n) \<Longrightarrow> good_lines (neg_done mode n) \<and> length (neg_done mode n) \<le> 1"
  using good_ack [of "last (ng_common n)" "[]"] good_nak good_nil
  by (auto simp: neg_done_def list_all_iff)

lemma have_oid_hex: "wf_oid i \<Longrightarrow> oid_algo i = a \<Longrightarrow> have_oid a (to_hex i) = Ok i"
  by (simp add: have_oid_def from_utf8_def codec)

lemma have_section_line:
  "wf_oid i \<Longrightarrow> oid_algo i = a \<Longrightarrow> have_section a rd has wants mode n saw (oid_line (bstr ''have '') i # ps) =
    (let (lines, n1) = neg_have has mode n i
     in bind_res (encode_all lines) (\<lambda>b.
        bind_res (have_section a rd has wants mode n1 True ps) (\<lambda>(out, st). Ok (b @ out, st))))"
  using trim_text [of "bstr ''have '' @ to_hex i"] by (simp add: oid_line_def text_line_def have_oid_hex Let_def)

lemma have_section_done: "have_section a rd has wants mode n saw [text_line (bstr ''done'')] = Ok ([], n, True, saw)"
  by (simp add: text_line_def Let_def trim_trailing_newline_def)

lemma announced_haves: "ids_of a ids \<Longrightarrow> announced a (map (oid_line (bstr ''have '')) ids @ [text_line (bstr ''done'')]) = set ids"
  by (induction ids) (simp_all add: oid_line_def text_line_def have_oid_hex trim_trailing_newline_def)

lemma have_section_haves:
  "ids_of a ids \<Longrightarrow> \<exists>out n' saw' lines. have_section a rd has wants mode n saw (map (oid_line (bstr ''have '')) ids @ [text_line (bstr ''done'')])
      = Ok (out, n', True, saw') \<and> encode_all lines = Ok out \<and> list_all plain_line lines \<and> length lines \<le> length ids"
proof (induction ids arbitrary: n saw)
  case Nil
  show ?case using have_section_done by (auto intro: exI [of _ "[]"])
next
  case (Cons i ids)
  then have i: "wf_oid i" "oid_algo i = a" "ids_of a ids" by simp_all
  obtain l1 n1 where h: "neg_have has mode n i = (l1, n1)" by fastforce
  have g: "list_all plain_line l1" "length l1 \<le> 1" using neg_have_good [OF h i(1)] by (simp_all add: good_lines_def)
  obtain b where b: "encode_all l1 = Ok b" using neg_have_good [OF h i(1)] by (auto simp: good_lines_def)
  obtain out n' saw' lines where o: "have_section a rd has wants mode n1 True (map (oid_line (bstr ''have '')) ids @ [text_line (bstr ''done'')])
      = Ok (out, n', True, saw')" "encode_all lines = Ok out" "list_all plain_line lines" "length lines \<le> length ids"
    using Cons.IH [OF i(3)] by blast
  have "have_section a rd has wants mode n saw (map (oid_line (bstr ''have '')) (i # ids) @ [text_line (bstr ''done'')]) = Ok (b @ out, n', True, saw')"
    unfolding list.map append_Cons have_section_line [OF i(1,2)] h by (simp add: b o(1) del: bstr_simps)
  moreover have "encode_all (l1 @ lines) = Ok (b @ out)" using b o(2) by (simp add: encode_all_append)
  ultimately show ?case using o(3,4) g by (intro exI conjI) (assumption | simp)+
qed

lemma finite_reach: "finite (reach a rd X roots)"
proof -
  have "j \<in> set roots \<union> known_ids a" if "(i, j) \<in> (link a rd X)\<^sup>*" "i \<in> set roots" for i j
    using that by (cases rule: rtrancl.cases) (auto simp: link_def dest: object_links_known)
  then have "reach a rd X roots \<subseteq> set roots \<union> known_ids a" by (auto simp: reach_def)
  then show ?thesis by (rule finite_subset) (simp add: finite_known_ids)
qed

text \<open>Everything that the roots reach can be read and parsed.\<close>

definition history_complete :: "hash_algo \<Rightarrow> reader \<Rightarrow> object_id list \<Rightarrow> bool" where
  "history_complete a rd roots \<longleftrightarrow> (\<forall>i\<in>reach a rd {} roots. is_ok (rd i) \<and> \<not> unreadable a rd i)"

lemma closure_complete:
  assumes "history_complete a rd roots"
  shows "collect_closure a rd roots {} = Ok (reach a rd {} roots)"
  using assms collect_closure_spec [where a = a and rd = rd and roots = roots and X = "{}"]
  by (auto simp: history_complete_def split: result.splits)

lemma reach_sub: "reach a rd X roots \<subseteq> reach a rd {} roots"
proof -
  have "link a rd X \<subseteq> link a rd {}" by (auto simp: link_def)
  then show ?thesis unfolding reach_def using rtrancl_mono by blast
qed

lemma plan_complete:
  assumes "\<not> deepen_active (w_deepen req)" and "w_client_shallow req = []"
    and "history_complete a rd (w_wants req)" and "history_complete a rd (filter has (w_haves req))"
  shows "\<exists>p. plan a rd has refs req = Ok p"
proof -
  let ?X = "reach a rd {} (filter has (w_haves req))"
  have "client_holds a rd has req = Ok ?X"
    using assms(2) closure_complete [OF assms(4)] by (simp add: client_holds_def reachable_objects_def)
  moreover have "\<exists>S. collect_closure a rd (w_wants req) ?X = Ok S"
    using assms(3) collect_closure_spec [where a = a and rd = rd and roots = "w_wants req" and X = ?X]
      reach_sub [of a rd ?X "w_wants req"]
    by (auto simp: history_complete_def split: result.splits)
  ultimately show ?thesis using assms(1) by (auto simp: plan_def reachable_objects_excluding_def Let_def)
qed

lemma pack_answer_complete:
  assumes "zlib_ok z" and "digest_ok dg" and "store_sound dg a rd"
    and "\<not> deepen_active (deepen_from_request r)" and "fr_shallows r = []"
    and "\<not> caps_has (fr_capabilities r) (bstr ''include-tag'')"
    and "history_complete a rd (fr_wants r)" and "history_complete a rd (filter has common)"
    and "card (reach a rd {} (fr_wants r)) < 2 ^ 32"
    and "\<forall>i x. i \<in> reach a rd {} (filter has common) \<and> rd i = Ok x \<longrightarrow> ext i = Ok x"
  shows "\<exists>pk data. pack_answer z dg a rd has refs r common = Ok data \<and> encode_pack_stream (fr_capabilities r) pk = Ok data
    \<and> starts_with (bstr ''PACK'') pk
    \<and> (length pk < 2 ^ 64 \<longrightarrow>
        (\<exists>obs. explode_pack z dg pk a ext = Ok obs \<and> (\<forall>(i, x)\<in>set obs. rd i = Ok x)
          \<and> (\<forall>i ty pl. i \<in> reach a rd {} (fr_wants r) \<and> rd i = Ok (ty, pl)
                \<and> (i \<in> set (fr_wants r) \<or> keeps (from_spec (fr_filter r)) ty (length pl))
              \<longrightarrow> (i, ty, pl) \<in> set obs \<or> ext i = Ok (ty, pl))))"
proof -
  let ?req = "want_of r common" and ?caps = "fr_capabilities r" and ?R = "reach a rd {} (fr_wants r)"
  have req: "\<not> deepen_active (w_deepen ?req)" "w_client_shallow ?req = []" "w_wants ?req = fr_wants r" "w_haves ?req = common"
    using assms(4,5) by (simp_all add: want_of_def)
  obtain p where p: "plan a rd has refs ?req = Ok p"
    using plan_complete [OF req(1,2), of a rd has refs] assms(7,8) by (auto simp: req(3,4))
  have P: "pl_client_has p = reach a rd {} (filter has common)"
      "pl_objects p = (?R - pl_client_has p) \<union> (set (fr_wants r) - set common)" "?R \<subseteq> pl_objects p \<union> pl_client_has p"
    using plan_whole [OF p req(1,2)] unfolding req(3,4) by blast+
  have wants: "set (fr_wants r) \<subseteq> ?R" by (auto simp: reach_def)
  have obj: "pl_objects p \<subseteq> ?R" using wants by (auto simp: P(2))
  then have fin: "finite (pl_objects p)" "card (pl_objects p) < 2 ^ 32"
    using finite_reach finite_subset card_mono [OF finite_reach obj] assms(9) by (blast, linarith)
  have "\<forall>i\<in>pl_objects p. is_ok (rd i)" using obj assms(7) by (auto simp: history_complete_def)
  from build_pack_explodes [OF assms(1-3) this fin, of ext "fr_filter r" "fr_wants r" "caps_has ?caps (bstr ''thin-pack'')"]
  obtain pk where pk: "build_pack z dg a rd p (fr_filter r) (fr_wants r) (caps_has ?caps (bstr ''thin-pack'')) = Ok pk"
      "starts_with (bstr ''PACK'') pk"
      "length pk < 2 ^ 64 \<Longrightarrow> \<exists>obs. explode_pack z dg pk a ext = Ok obs
            \<and> set obs = {(i, ty, pl). i \<in> pl_objects p \<and> rd i = Ok (ty, pl)
                  \<and> (i \<in> set (fr_wants r) \<or> keeps (from_spec (fr_filter r)) ty (length pl))}"
    using assms(10) finite_reach by (auto simp: P(1))
  have "\<exists>data. encode_pack_stream ?caps pk = Ok data"
    using band_encodes [of "MAX_PKTLINE_LEN - 5" pk] band_encodes [of "1000 - 5" pk]
    by (simp add: encode_pack_stream_def MAX_PKTLINE_LEN_def del: bstr_simps)
  then obtain data where data: "encode_pack_stream ?caps pk = Ok data" by blast
  have "pack_answer z dg a rd has refs r common = Ok data"
    using assms(6) by (simp add: pack_answer_def p pk(1) data del: bstr_simps)
  moreover have "\<exists>obs. explode_pack z dg pk a ext = Ok obs \<and> (\<forall>(i, x)\<in>set obs. rd i = Ok x)
          \<and> (\<forall>i ty pl. i \<in> ?R \<and> rd i = Ok (ty, pl) \<and> (i \<in> set (fr_wants r) \<or> keeps (from_spec (fr_filter r)) ty (length pl))
              \<longrightarrow> (i, ty, pl) \<in> set obs \<or> ext i = Ok (ty, pl))" if short: "length pk < 2 ^ 64"
  proof -
    obtain obs where obs: "explode_pack z dg pk a ext = Ok obs"
        "set obs = {(i, ty, pl). i \<in> pl_objects p \<and> rd i = Ok (ty, pl)
          \<and> (i \<in> set (fr_wants r) \<or> keeps (from_spec (fr_filter r)) ty (length pl))}"
      using pk(3) [OF short] by blast
    have "(i, ty, pl) \<in> set obs \<or> ext i = Ok (ty, pl)"
      if "i \<in> ?R" "rd i = Ok (ty, pl)" "i \<in> set (fr_wants r) \<or> keeps (from_spec (fr_filter r)) ty (length pl)" for i ty pl
    proof (cases "i \<in> pl_objects p")
      case True
      then show ?thesis using that by (simp add: obs(2))
    next
      case False
      then have "i \<in> reach a rd {} (filter has common)" using that(1) P(1,3) by blast
      then show ?thesis using assms(10) that(2) by blast
    qed
    moreover have "\<forall>(i, x)\<in>set obs. rd i = Ok x" by (auto simp: obs(2))
    ultimately show ?thesis using obs(1) by blast
  qed
  ultimately show ?thesis using data pk(2) by blast
qed

text \<open>Taking the pack out of an answer.\<close>

lemma response_pack_lines:
  assumes "encode_all ls = Ok acks" and "list_all plain_line ls" and "length ls \<le> MAX_PREPACK_PKTLINES"
    and "starts_with (bstr ''PACK'') pk" and "encode_pack_stream caps pk = Ok data"
    and "caps_has caps (bstr ''side-band'') \<Longrightarrow> caps_has caps (bstr ''side-band-64k'')"
  shows "response_pack caps (acks @ data) = Ok pk"
proof (cases "caps_has caps (bstr ''side-band-64k'')")
  case True
  then have e: "encode_all (map (\<lambda>c. Data (1 # c)) (chunks (MAX_PKTLINE_LEN - 5) pk) @ [Flush]) = Ok data"
    using assms(5) by (simp add: encode_pack_stream_def band_packets_def del: bstr_simps)
  have c: "concat (chunks (MAX_PKTLINE_LEN - 5) pk) = pk" by (simp add: MAX_PKTLINE_LEN_def)
  have "pk \<noteq> []" using assms(4) by (auto simp: starts_with_def)
  then have "demux_loop [] data = Ok pk"
    using demux_chunks [OF e, of "[]"] chunks_nonempty [of "MAX_PKTLINE_LEN - 5" _ pk] unfolding c
    by (simp add: list_all_iff MAX_PKTLINE_LEN_def)
  with demux_lines [OF assms(1,2), of data] True assms(4) show ?thesis
    by (simp add: response_pack_def demux_sideband_pack_def del: bstr_simps)
next
  case False
  moreover from this assms(6) have "\<not> caps_has caps (bstr ''side-band'')" by blast
  ultimately have "data = pk" using assms(5) by (simp add: encode_pack_stream_def del: bstr_simps)
  with False strip_lines [OF assms(1,4), of 0] assms(3) show ?thesis
    by (simp add: response_pack_def strip_to_pack_def del: bstr_simps)
qed

text \<open>A request for whole history: nothing about the shallow boundary.\<close>

definition whole_fetch :: "fetch_request \<Rightarrow> bool" where
  "whole_fetch r \<longleftrightarrow> fr_deepen r = None \<and> fr_deepen_since r = None \<and> fr_deepen_not r = [] \<and> fr_shallows r = []
     \<and> \<not> fr_deepen_relative r"

lemma takeWhile_flush: "Flush \<notin> set ps \<Longrightarrow> takeWhile (\<lambda>p. p \<noteq> Flush) (ps @ Flush # qs) = ps"
  by (induction ps) auto

lemma want_section_data: "Flush \<notin> set (want_section r)"
  by (cases "fr_wants r") (auto simp: want_section_def oid_line_def text_line_def Let_def split: option.splits)

definition as_received :: "fetch_request \<Rightarrow> fetch_request" where
  "as_received r = r\<lparr>fr_haves := [], fr_done := False, fr_deepen_relative := caps_has (fr_capabilities r) (bstr ''deepen-relative'')\<rparr>"

lemma serve_parses:
  assumes "wf_fetch_request a r" and "whole_fetch r" and "fetch_request_encode r = Ok request"
  defines "qs \<equiv> map (oid_line (bstr ''have '')) (fr_haves r) @ [text_line (bstr ''done'')]"
  shows "\<exists>packets. decode_all request = Ok packets \<and> drop (want_end packets) packets = qs
    \<and> fetch_request_parse a (take (want_end packets) packets) = Ok (as_received r)"
proof -
  have e: "encode_all (want_section r @ [Flush] @ qs) = Ok request" and w: "fr_wants r \<noteq> []"
    using assms(3)
    by (auto simp: fetch_request_encode_def encode_prefix_def encode_all_append bind_res_eq_Ok text_line_def qs_def split: if_splits)
  let ?ps = "want_section r @ [Flush] @ qs"
  have "want_end ?ps = length (want_section r) + 1"
    using takeWhile_flush [OF want_section_data, of r qs] by (simp add: want_end_def Let_def)
  then have s: "take (want_end ?ps) ?ps = want_section r @ [Flush]" "drop (want_end ?ps) ?ps = qs" by simp_all
  let ?r = "r\<lparr>fr_haves := []\<rparr>"
  have "want_section ?r = want_section r"
    by (cases "fr_wants r") (simp_all add: want_section_def want_caps_def)
  moreover have "wf_fetch_request a ?r" using assms(1) by (simp add: wf_fetch_request_def)
  ultimately have "fetch_request_parse a (want_section r @ [Flush]) = Ok (fetch_sent ?r\<lparr>fr_done := False\<rparr>)"
    using fetch_loop_request [of a ?r "[]"] w by (simp add: fetch_request_parse_def)
  moreover have "fetch_sent ?r\<lparr>fr_done := False\<rparr> = as_received r"
    using assms(2) by (simp add: fetch_sent_def want_caps_def whole_fetch_def as_received_def del: bstr_simps)
  ultimately show ?thesis using decode_encode_all [OF e] s by auto
qed

section \<open>Properties\<close>

text \<open>
  C1. A fetch succeeds: when a client sends a request for whole history with its haves and \<open>done\<close>, and
  the server's store has everything that the wants and the known haves reach, then the server answers;
  the client finds the pack in the answer, inside or outside sideband frames, behind all
  acknowledgments; the pack explodes against the client's own store into objects of the
  server; and every object that the wants reach is in the pack or was with the client, if
  it is wanted itself or the partial clone filter keeps it. The client does not ask for
  \<open>include-tag\<close>, asks for \<open>side-band\<close> only together with \<open>side-band-64k\<close>, sends fewer haves
  than its own limit of lines before a pack, and has what its known haves reach; the wants reach
  fewer than \<open>2 ^ 32\<close> objects.
\<close>

theorem fetch_completes:
  assumes "zlib_ok z" and "digest_ok dg" and "store_sound dg a rd"
    and "wf_fetch_request a r" and "whole_fetch r" and "fetch_request_encode r = Ok request"
    and "\<not> caps_has (fr_capabilities r) (bstr ''include-tag'')"
    and "caps_has (fr_capabilities r) (bstr ''side-band'') \<Longrightarrow> caps_has (fr_capabilities r) (bstr ''side-band-64k'')"
    and "history_complete a rd (fr_wants r)" and "history_complete a rd (filter has (fr_haves r))"
    and "card (reach a rd {} (fr_wants r)) < 2 ^ 32" and "length (fr_haves r) < MAX_PREPACK_PKTLINES"
    and "\<forall>i x. i \<in> reach a rd {} (filter has (fr_haves r)) \<and> rd i = Ok x \<longrightarrow> ext i = Ok x"
  shows "\<exists>response pk. serve_stateless z dg a rd has refs request = Ok response
    \<and> response_pack (fr_capabilities r) response = Ok pk
    \<and> (length pk < 2 ^ 64 \<longrightarrow>
        (\<exists>obs. explode_pack z dg pk a ext = Ok obs \<and> (\<forall>(i, x)\<in>set obs. rd i = Ok x)
          \<and> (\<forall>i ty pl. i \<in> reach a rd {} (fr_wants r) \<and> rd i = Ok (ty, pl)
                \<and> (i \<in> set (fr_wants r) \<or> keeps (from_spec (fr_filter r)) ty (length pl))
              \<longrightarrow> (i, ty, pl) \<in> set obs \<or> ext i = Ok (ty, pl))))"
proof -
  let ?r = "as_received r" and ?mode = "ack_mode_from_caps (fr_capabilities r)"
  let ?qs = "map (oid_line (bstr ''have '')) (fr_haves r) @ [text_line (bstr ''done'')]"
  have ids: "ids_of a (fr_haves r)" and w: "fr_wants r \<noteq> []"
    using assms(4,6) by (auto simp: wf_fetch_request_def fetch_request_encode_def encode_prefix_def split: if_splits)
  have R: "fr_wants ?r = fr_wants r" "fr_capabilities ?r = fr_capabilities r" "fr_filter ?r = fr_filter r" "fr_shallows ?r = []"
      "\<not> deepen_active (deepen_from_request ?r)"
    using assms(5) by (simp_all add: as_received_def whole_fetch_def deepen_active_def deepen_from_request_def)
  obtain packets where P: "decode_all request = Ok packets" "drop (want_end packets) packets = ?qs"
      "fetch_request_parse a (take (want_end packets) packets) = Ok ?r"
    using serve_parses [OF assms(4-6)] by blast
  obtain acks n saw ls where A: "have_section a rd has (fr_wants r) ?mode negotiator_new False ?qs = Ok (acks, n, True, saw)"
      "encode_all ls = Ok acks" "list_all plain_line ls" "length ls \<le> length (fr_haves r)"
    using have_section_haves [OF ids] by blast
  have N: "set (ng_common n) = {i \<in> set (fr_haves r). has i}"
    using have_section_inv [OF A(1) neg_inv_new] announced_haves [OF ids] by (simp add: neg_inv_def negotiator_new_def)
  then have "list_all wf_oid (ng_common n)" using ids by (auto simp: list_all_iff ids_of_set)
  then obtain fin where F: "encode_all (neg_done ?mode n) = Ok fin" "list_all plain_line (neg_done ?mode n)" "length (neg_done ?mode n) \<le> 1"
    using neg_done_good by (auto simp: good_lines_def)
  have same: "reach a rd {} (filter has (ng_common n)) = reach a rd {} (filter has (fr_haves r))"
    by (simp add: reach_def N)
  have ca: "history_complete a rd (filter has (ng_common n))"
      "\<forall>i x. i \<in> reach a rd {} (filter has (ng_common n)) \<and> rd i = Ok x \<longrightarrow> ext i = Ok x"
    using assms(10,13) by (simp_all add: history_complete_def same)
  have it: "\<not> caps_has (fr_capabilities ?r) (bstr ''include-tag'')" "history_complete a rd (fr_wants ?r)"
      "card (reach a rd {} (fr_wants ?r)) < 2 ^ 32"
    using assms(7,9,11) R by simp_all
  from pack_answer_complete [OF assms(1-3) R(5,4) it(1,2) ca(1) it(3) ca(2), of refs, unfolded R(1-3)]
  obtain pk data where D: "pack_answer z dg a rd has refs ?r (ng_common n) = Ok data"
      "encode_pack_stream (fr_capabilities r) pk = Ok data" "starts_with (bstr ''PACK'') pk"
      "length pk < 2 ^ 64 \<longrightarrow>
        (\<exists>obs. explode_pack z dg pk a ext = Ok obs \<and> (\<forall>(i, x)\<in>set obs. rd i = Ok x)
          \<and> (\<forall>i ty pl. i \<in> reach a rd {} (fr_wants r) \<and> rd i = Ok (ty, pl)
                \<and> (i \<in> set (fr_wants r) \<or> keeps (from_spec (fr_filter r)) ty (length pl))
              \<longrightarrow> (i, ty, pl) \<in> set obs \<or> ext i = Ok (ty, pl)))" by blast
  have "serve_stateless z dg a rd has refs request = Ok (acks @ fin @ data)"
    using P A(1) F(1) D(1) w R by (simp add: serve_stateless_def shallow_answer_def Let_def del: bstr_simps)
  moreover have "response_pack (fr_capabilities r) ((acks @ fin) @ data) = Ok pk"
  proof (rule response_pack_lines [OF _ _ _ D(3,2) assms(8)])
    show "encode_all (ls @ neg_done ?mode n) = Ok (acks @ fin)" using A(2) F(1) by (simp add: encode_all_append)
    show "list_all plain_line (ls @ neg_done ?mode n)" using A(3) F(2) by simp
    show "length (ls @ neg_done ?mode n) \<le> MAX_PREPACK_PKTLINES" using A(4) F(3) assms(12) by simp
  qed
  ultimately show ?thesis using D(4) by (metis append_assoc)
qed

definition one_blob :: reader where
  "one_blob = memory_read (snd (memory_write length_digest (memory_new Sha1) Blob [4, 5]))"

definition blob_id :: object_id where
  "blob_id = hash_object length_digest Sha1 Blob [4, 5]"

definition blob_request :: fetch_request where
  "blob_request = fetch_request_default\<lparr>fr_wants := [blob_id]\<rparr>"

lemma one_blob_read: "one_blob i = (if i = blob_id then Ok (Blob, [4, 5]) else Err (NotFound (HintObject (to_hex i))))"
  by (auto simp: one_blob_def blob_id_def memory_read_def memory_write_def memory_new_def memory_contains_def Let_def bt_get_def)

lemma one_blob_reach: "reach Sha1 one_blob {} [blob_id] = {blob_id}"
proof -
  have "link Sha1 one_blob {} = {}" by (auto simp: link_def one_blob_read split: if_splits)
  then show ?thesis by (simp add: reach_def)
qed

theorem fetch_completes_witness:
  "\<exists>request response pk. fetch_request_encode blob_request = Ok request
     \<and> serve_stateless stored length_digest Sha1 one_blob (\<lambda>i. i = blob_id) no_refs request = Ok response
     \<and> response_pack caps_new response = Ok pk
     \<and> (length pk < 2 ^ 64 \<longrightarrow> (\<exists>obs. explode_pack stored length_digest pk Sha1 (\<lambda>i. Err (Parse [])) = Ok obs
          \<and> (blob_id, Blob, [4, 5]) \<in> set obs))"
proof -
  have id: "wf_oid blob_id" "oid_algo blob_id = Sha1"
    by (simp_all add: blob_id_def hash_object_def wf_oid_def length_digest_def)
  have caps: "to_wire caps_new = []" "fr_capabilities blob_request = caps_new" "\<And>k. \<not> caps_has caps_new k"
    by (simp_all add: to_wire_def caps_new_def blob_request_def fetch_request_default_def caps_has_def)
  have "short_packets (want_section blob_request @ [Flush] @ map (oid_line (bstr ''have '')) (fr_haves blob_request) @ [text_line (bstr ''done'')])"
    using wf_hex_length [OF id(1)] caps
    by (simp add: short_packets_def want_section_def blob_request_def fetch_request_default_def want_caps_def oid_line_def text_line_def)
  from encode_short [OF this] obtain request where r: "fetch_request_encode blob_request = Ok request"
    by (auto simp: fetch_request_encode_def encode_prefix_def encode_all_append bind_res_eq_Ok text_line_def
        blob_request_def fetch_request_default_def)
  have wf: "wf_fetch_request Sha1 blob_request" "whole_fetch blob_request" "fr_wants blob_request = [blob_id]" "fr_haves blob_request = []"
    using id caps(1)
    by (simp_all add: wf_fetch_request_def whole_fetch_def blob_request_def fetch_request_default_def wf_caps_def caps_new_def)
  have sound: "store_sound length_digest Sha1 one_blob"
    by (auto simp: store_sound_def one_blob_read blob_id_def split: if_splits)
  have full: "history_complete Sha1 one_blob [blob_id]" "history_complete Sha1 one_blob []"
    unfolding history_complete_def one_blob_reach by (auto simp: unreadable_def one_blob_read reach_def)
  have p: "\<not> caps_has (fr_capabilities blob_request) (bstr ''include-tag'')"
      "caps_has (fr_capabilities blob_request) (bstr ''side-band'') \<Longrightarrow> caps_has (fr_capabilities blob_request) (bstr ''side-band-64k'')"
      "history_complete Sha1 one_blob (fr_wants blob_request)"
      "history_complete Sha1 one_blob (filter (\<lambda>i. i = blob_id) (fr_haves blob_request))"
      "card (reach Sha1 one_blob {} (fr_wants blob_request)) < 2 ^ 32" "length (fr_haves blob_request) < MAX_PREPACK_PKTLINES"
      "\<forall>i x. i \<in> reach Sha1 one_blob {} (filter (\<lambda>i. i = blob_id) (fr_haves blob_request)) \<and> one_blob i = Ok x \<longrightarrow>
        (\<lambda>i. Err (Parse [])) i = Ok x"
    using full by (simp_all add: caps wf one_blob_reach MAX_PREPACK_PKTLINES_def del: bstr_simps) (simp_all add: reach_def)
  obtain response pk where F: "serve_stateless stored length_digest Sha1 one_blob (\<lambda>i. i = blob_id) no_refs request = Ok response"
      "response_pack (fr_capabilities blob_request) response = Ok pk"
      "length pk < 2 ^ 64 \<longrightarrow> (\<exists>obs. explode_pack stored length_digest pk Sha1 (\<lambda>i. Err (Parse [])) = Ok obs
        \<and> (\<forall>(i, x)\<in>set obs. one_blob i = Ok x)
        \<and> (\<forall>i ty pl. i \<in> reach Sha1 one_blob {} (fr_wants blob_request) \<and> one_blob i = Ok (ty, pl)
              \<and> (i \<in> set (fr_wants blob_request) \<or> keeps (from_spec (fr_filter blob_request)) ty (length pl))
            \<longrightarrow> (i, ty, pl) \<in> set obs \<or> Err (Parse []) = Ok (ty, pl)))"
    using fetch_completes [OF example_writer_ok(1,2) sound wf(1,2) r p, of no_refs] by blast
  have "blob_id \<in> reach Sha1 one_blob {} (fr_wants blob_request)" "one_blob blob_id = Ok (Blob, [4, 5])"
    by (simp_all add: wf(3) one_blob_reach one_blob_read)
  then have "length pk < 2 ^ 64 \<longrightarrow> (\<exists>obs. explode_pack stored length_digest pk Sha1 (\<lambda>i. Err (Parse [])) = Ok obs
      \<and> (blob_id, Blob, [4, 5]) \<in> set obs)"
    using F(3) wf(3) by (metis list.set_intros(1) result.distinct(1))
  with F(1,2) r caps(2) show ?thesis by auto
qed

end
