(* ===== verification/Spec2Isabelle.thy ===== *)
theory Spec2Isabelle
  imports
    Prelude Oid Object_Tree Object_Commit Objects Delta PktLine Capabilities Ignore Btree_Map Diff
    Compress Vfs Odb Pack_Format Pack_Index Pack Combined_Odb Walk Tree_Walk Tree_Merge Ewah
    Index_File Index_Tree Config_File Refs Ref_List Shallow Fsck Chunk_File Commit_Graph
    Multi_Pack_Index Protocol Protocol_V2 Object_Filter Remotes Receive_Pack Upload_Walk Upload_Pack
    Fetch_Client
begin

text \<open>
  A model of puregit, a git implementation in Rust (src/src), and the theorems that make it
  correct. Every definition that models code is translated from the source; what is not under
  src/ is an argument: the SHA-1 and SHA-256 functions of the crate purecrypto (a \<open>digest\<close>, with
  \<open>digest_ok\<close> when the length of its results matters) and the DEFLATE codec of the crate compcol
  (a record \<open>zlib\<close>, with \<open>zlib_ok\<close>: what was compressed is decompressed again). The witnesses
  instantiate both with concrete functions. Whatever reads objects does so through a \<open>reader\<close>, a
  function from ids to the type and payload of an object or an error.

  Conventions. A byte is an \<open>8 word\<close>, strings and slices are lists of bytes, \<open>Result\<close> is
  \<open>'a result\<close> with the crate's error type and \<open>?\<close> is \<open>bind_res\<close>. Words keep their width where
  the code can wrap or truncate; elsewhere \<open>usize\<close> and \<open>u64\<close> values are naturals. An operation
  that changes a store returns its result with the new store. A \<open>BTreeMap\<close> is the sorted
  association list of \<open>Btree_Map\<close>; where only membership and lookup matter a set or a map.

  The theories, from the bottom up:

  \<^item> \<open>Prelude\<close>: bytes, errors (error.rs), slices, UTF-8, decimal and big-endian integers.
  \<^item> \<open>Oid\<close> (oid.rs, hash.rs), \<open>Object_Tree\<close>, \<open>Object_Commit\<close>, \<open>Objects\<close> (object/): ids, hex, the
    four object types, their parsers and serializers, detached signatures. What is written is
    read back; what a parser accepts is safe (\<open>tree_parse_safe\<close>).
  \<^item> \<open>Compress\<close> (compress.rs), \<open>Vfs\<close> (vfs/), \<open>Odb\<close> (odb/mod.rs, odb/memory.rs, odb/loose.rs): the
    loops around the codec, files and directories without symbolic links, the interface
    \<open>object_database\<close> of a store with its interpretations on the in-memory and the loose store.
    A loose object is read back and never read with content that its id does not name.
    \<open>Combined_Odb\<close> (odb/combined.rs, on top of the packs): what a repository opens, loose objects, packs
    and alternates; a write keeps every object readable, and packs that were written are read.
  \<^item> \<open>Delta\<close> (pack/delta.rs), \<open>Pack_Format\<close>, \<open>Pack_Index\<close>, \<open>Pack\<close> (pack/mod.rs, pack/writer.rs),
    \<open>Ewah\<close> (pack/ewah.rs): deltas, entry headers, the version 2 index, decoding and random access
    with delta chains, the writer with its search for bases, bitmaps.
  \<^item> \<open>Chunk_File\<close>, \<open>Commit_Graph\<close> (commit_graph.rs), \<open>Multi_Pack_Index\<close> (multi_pack_index.rs): the
    chunked files, their writers and every lookup on the parsed file.
  \<^item> \<open>Walk\<close>, \<open>Shallow\<close> (walk.rs), \<open>Fsck\<close> (fsck.rs): reachability, transfer sets, ancestry, merge
    bases, the date-ordered walk, depth-limited transfers, the integrity check. The loops end
    because the ids of one hash are finitely many; each result is characterised by a relation on
    the object graph (\<open>link\<close>, \<open>reach\<close>, \<open>parent_rel\<close>, \<open>near\<close>).
  \<^item> \<open>Tree_Walk\<close>, \<open>Index_Tree\<close> (walk.rs, tree_builder.rs), \<open>Tree_Merge\<close> (merge.rs), \<open>Diff\<close>
    (diff.rs): trees as files by path, building nested trees over any store, comparing and
    merging trees, edit scripts, hunks and the three-way merge of lines. \<open>flatten_tree\<close> has fuel:
    a tree that contains itself makes the source recurse without end; every tree that was
    written from a list of files is flattened with the fuel the theorem names.
  \<^item> \<open>Index_File\<close> (index.rs), \<open>Config_File\<close> (config.rs), \<open>Remotes\<close> (remote.rs), \<open>Ignore\<close>
    (ignore.rs), \<open>Refs\<close> (refs.rs): the staging index, configuration files, refspecs and remotes,
    ignore patterns, references with the two steps of a locked update and the interleavings of
    any number of updaters (\<open>ref_step\<close>); \<open>Ref_List\<close>: listing them by walking the directories.
  \<^item> \<open>PktLine\<close>, \<open>Capabilities\<close>, \<open>Protocol\<close>, \<open>Protocol_V2\<close> (protocol/), \<open>Object_Filter\<close>
    (object_filter.rs): frames, capability lists and the messages of the smart protocol, built
    and parsed; what one side sends the other side reads.
  \<^item> \<open>Receive_Pack\<close> (server/mod.rs): accepting a push over any store. References change only as the
    commands allow, and what a client sent is in the store afterwards.
  \<^item> \<open>Upload_Walk\<close>, \<open>Upload_Pack\<close> (server/upload.rs), \<open>Fetch_Client\<close> (client/mod.rs): planning and
    answering a fetch, and taking the pack out of the answer. The end-to-end theorem \<open>fetch_completes\<close>
    composes the request, the negotiation, the plan, the pack writer, the frames and the decoder.

  Bounds and fuel. Loops that end on every input are total functions with a measure. Fuel is
  used for the codec's streaming loop (its bound follows from the output limit), the delta chain
  and symbolic references (the bounds of the source), the glob matcher, \<open>flatten_tree\<close> and \<open>ref_list\<close>; for each
  there is a theorem that the fuel is enough.

  Not modelled: the command line (bin/git.rs), sockets, HTTP and SSH transports and the daemon
  (transport/, server/http.rs, server/daemon.rs), whose code is input and output around the
  messages above; the C interface (ffi.rs); signature verification (signing.rs), which is
  arithmetic of the crate purecrypto behind parsers of OpenPGP and SSH packets; the repository facade
  (repository.rs), which calls the operations modelled here on a work tree, and the parts of
  server/mod.rs, server/upload.rs and client/mod.rs that drive them over a connection; file times
  and symbolic links of the file system, and what needs them (status.rs, worktree.rs).
\<close>

end
